(* ===== verification/Prelude.thy ===== *)
theory Prelude
  imports Main "HOL-Library.Word" "HOL-Library.List_Lexorder" "HOL-Library.Sublist"
begin

text \<open>
  Shared vocabulary of the development: the machine types of the Rust code (\<open>u8\<close>, \<open>u32\<close>,
  \<open>u64\<close>, byte strings), the \<open>?\<close> operator of \<open>Result\<close> as \<open>rbind\<close> (pure) and \<open>sbind\<close>
  (with state), the \<open>to_be_bytes\<close> family of the standard library, saturating and checked
  arithmetic on words, decimal formatting, and the lemmas on the bytewise order of
  \<open>Vec<u8>\<close> that every key range of the program rests on.
\<close>

section \<open>Machine types\<close>

type_synonym byte = "8 word"
type_synonym bytes = "byte list"
type_synonym u32 = "32 word"
type_synonym u64 = "64 word"

named_theorems byte_order \<open>the bytewise order on byte strings\<close>
named_theorems be_codec \<open>big-endian encodings: lengths, round trips\<close>
named_theorems result_simps \<open>the error monads\<close>

section \<open>Results: the question mark operator\<close>

definition rbind :: "'e + 'a \<Rightarrow> ('a \<Rightarrow> 'e + 'b) \<Rightarrow> 'e + 'b" where
  "rbind m f = (case m of Inl e \<Rightarrow> Inl e | Inr x \<Rightarrow> f x)"

lemma rbind_Inl [simp, result_simps]: "rbind (Inl e) f = Inl e"
  by (simp add: rbind_def)

lemma rbind_Inr [simp, result_simps]: "rbind (Inr x) f = f x"
  by (simp add: rbind_def)

lemma rbind_eq_Inr_iff [result_simps]:
  "rbind m f = Inr y \<longleftrightarrow> (\<exists>x. m = Inr x \<and> f x = Inr y)"
  by (cases m) simp_all

lemma rbind_eq_Inl_iff:
  "rbind m f = Inl e \<longleftrightarrow> m = Inl e \<or> (\<exists>x. m = Inr x \<and> f x = Inl e)"
  by (cases m) simp_all

lemma rbind_Inr_right [simp]: "rbind m Inr = m"
  by (cases m) simp_all

lemma rbind_assoc: "rbind (rbind m f) g = rbind m (\<lambda>x. rbind (f x) g)"
  by (cases m) simp_all

text \<open>Walking a list with a fallible step: stops at the first error, as \<open>?\<close> in a loop does.\<close>

primrec mapM_r :: "('a \<Rightarrow> 'e + 'b) \<Rightarrow> 'a list \<Rightarrow> 'e + 'b list" where
  "mapM_r f [] = Inr []"
| "mapM_r f (x # xs) = rbind (f x) (\<lambda>y. rbind (mapM_r f xs) (\<lambda>ys. Inr (y # ys)))"

lemma mapM_r_Inr_iff:
  "mapM_r f xs = Inr ys \<longleftrightarrow> list_all2 (\<lambda>x y. f x = Inr y) xs ys"
  by (induction xs arbitrary: ys) (auto simp: rbind_eq_Inr_iff list_all2_Cons1)

lemma mapM_r_pure [simp]: "mapM_r (\<lambda>x. Inr (g x)) xs = Inr (map g xs)"
  by (induction xs) simp_all

primrec foldM_r :: "('s \<Rightarrow> 'a \<Rightarrow> 'e + 's) \<Rightarrow> 's \<Rightarrow> 'a list \<Rightarrow> 'e + 's" where
  "foldM_r f s [] = Inr s"
| "foldM_r f s (x # xs) = rbind (f s x) (\<lambda>s'. foldM_r f s' xs)"

lemma foldM_r_append: "foldM_r f s (xs @ ys) = rbind (foldM_r f s xs) (\<lambda>s'. foldM_r f s' ys)"
  by (induction xs arbitrary: s) (simp_all add: rbind_assoc)

lemma foldM_r_pure: "foldM_r (\<lambda>s x. Inr (f s x)) s xs = Inr (foldl f s xs)"
  by (induction xs arbitrary: s) simp_all

text \<open>The same with a state that every call may change and that survives an error.\<close>

type_synonym ('s, 'e, 'a) act = "'s \<Rightarrow> ('e + 'a) \<times> 's"

definition sret :: "'a \<Rightarrow> ('s, 'e, 'a) act" where
  "sret x = (\<lambda>s. (Inr x, s))"

definition sbind :: "('s, 'e, 'a) act \<Rightarrow> ('a \<Rightarrow> ('s, 'e, 'b) act) \<Rightarrow> ('s, 'e, 'b) act" where
  "sbind m f = (\<lambda>s. case m s of (Inl e, s') \<Rightarrow> (Inl e, s') | (Inr x, s') \<Rightarrow> f x s')"

lemma sret_apply [simp]: "sret x s = (Inr x, s)"
  by (simp add: sret_def)

lemma sbind_Inl [simp]: "m s = (Inl e, s') \<Longrightarrow> sbind m f s = (Inl e, s')"
  by (simp add: sbind_def)

lemma sbind_Inr [simp]: "m s = (Inr x, s') \<Longrightarrow> sbind m f s = f x s'"
  by (simp add: sbind_def)

lemma sbind_eq_Inr_iff:
  "sbind m f s = (Inr y, t) \<longleftrightarrow> (\<exists>x s'. m s = (Inr x, s') \<and> f x s' = (Inr y, t))"
  by (auto simp: sbind_def split: prod.splits sum.splits)

lemma sbind_eq_Inl_iff:
  "sbind m f s = (Inl e, t) \<longleftrightarrow>
     m s = (Inl e, t) \<or> (\<exists>x s'. m s = (Inr x, s') \<and> f x s' = (Inl e, t))"
  by (auto simp: sbind_def split: prod.splits sum.splits)

text \<open>A pure result, a read, and an update of the state, as actions.\<close>

definition slift :: "'e + 'a \<Rightarrow> ('s, 'e, 'a) act" where
  "slift r = (\<lambda>s. (r, s))"

definition sread :: "('s \<Rightarrow> 'e + 'a) \<Rightarrow> ('s, 'e, 'a) act" where
  "sread f = (\<lambda>s. (f s, s))"

definition smod :: "('s \<Rightarrow> 's) \<Rightarrow> ('s, 'e, unit) act" where
  "smod f = (\<lambda>s. (Inr (), f s))"

lemma slift_apply [simp]: "slift r s = (r, s)"
  by (simp add: slift_def)

lemma sread_apply [simp]: "sread f s = (f s, s)"
  by (simp add: sread_def)

lemma smod_apply [simp]: "smod f s = (Inr (), f s)"
  by (simp add: smod_def)

lemma sbind_slift [simp]: "sbind (slift (Inr x)) f s = f x s"
  by (simp add: sbind_def)

text \<open>Walking a list with an action: the results in order, up to the first error.\<close>

primrec mapM_s :: "('a \<Rightarrow> ('s, 'e, 'b) act) \<Rightarrow> 'a list \<Rightarrow> ('s, 'e, 'b list) act" where
  "mapM_s f [] = sret []"
| "mapM_s f (x # xs) = sbind (f x) (\<lambda>y. sbind (mapM_s f xs) (\<lambda>ys. sret (y # ys)))"

text \<open>\<open>Result::and\<close>.\<close>

definition result_and :: "'e + 'a \<Rightarrow> 'e + 'b \<Rightarrow> 'e + 'b" where
  "result_and r q = (case r of Inl e \<Rightarrow> Inl e | Inr _ \<Rightarrow> q)"

section \<open>Decimal formatting\<close>

text \<open>What \<open>{}\<close> prints for an unsigned integer.\<close>

function show_nat :: "nat \<Rightarrow> string" where
  "show_nat n = (if n < 10 then [char_of (48 + n)] else show_nat (n div 10) @ [char_of (48 + n mod 10)])"
  by pat_completeness auto
termination by (relation "measure id") auto

declare show_nat.simps [simp del]

section \<open>Unsigned arithmetic of the standard library\<close>

text \<open>\<open>saturating_add\<close>, \<open>saturating_sub\<close> and \<open>checked_add(1)\<close>.\<close>

definition sat_add :: "'a::len word \<Rightarrow> 'a word \<Rightarrow> 'a word" where
  "sat_add a b = (if a + b < a then - 1 else a + b)"

definition sat_sub :: "'a::len word \<Rightarrow> 'a word \<Rightarrow> 'a word" where
  "sat_sub a b = (if b \<le> a then a - b else 0)"

definition checked_succ :: "'a::len word \<Rightarrow> 'a word option" where
  "checked_succ a = (if a = - 1 then None else Some (a + 1))"

lemma unat_lt2p: "unat (a :: 'a::len word) < 2 ^ LENGTH('a)"
  by (rule unsigned_less)

lemma unat_minus_one_word: "unat (- 1 :: 'a::len word) = 2 ^ LENGTH('a) - 1"
  by (simp add: unsigned_minus_1_eq_mask mask_eq_exp_minus_1)

lemma unat_le_max: "unat (a :: 'a::len word) \<le> 2 ^ LENGTH('a) - 1"
  using unat_lt2p [of a] by linarith

lemma unat_sat_add: "unat (sat_add a b) = min (unat a + unat b) (2 ^ LENGTH('a) - 1)"
  for a b :: "'a::len word"
proof (cases "unat a + unat b < 2 ^ LENGTH('a)")
  case True
  then have "unat (a + b) = unat a + unat b"
    by (simp add: unat_word_ariths)
  with True show ?thesis
    by (simp add: sat_add_def word_less_nat_alt)
next
  case False
  then have ge: "2 ^ LENGTH('a) \<le> unat a + unat b" by simp
  have sum: "unat (a + b) = unat a + unat b - 2 ^ LENGTH('a)"
    using ge unat_lt2p [of a] unat_lt2p [of b]
    by (subst unat_word_ariths, subst le_mod_geq [OF ge], subst mod_less) linarith+
  have "unat (a + b) < unat a"
    using ge unat_lt2p [of b] sum by linarith
  then have "sat_add a b = - 1"
    by (simp add: sat_add_def word_less_nat_alt)
  with ge show ?thesis by (simp add: unat_minus_one_word)
qed

lemma unat_sat_sub: "unat (sat_sub a b) = unat a - unat b"
  by (simp add: sat_sub_def unat_sub word_le_nat_alt)

lemma unat_checked_succ: "checked_succ a = Some b \<Longrightarrow> unat b = Suc (unat a)"
proof -
  assume "checked_succ a = Some b"
  then have "a \<noteq> - 1" and b: "b = a + 1"
    by (auto simp: checked_succ_def split: if_splits)
  then have "1 + a \<noteq> 0"
    by (metis add.commute add_eq_0_iff2)
  then have "unat (1 + a) = Suc (unat a)"
    by (rule unatSuc)
  with b show ?thesis by (simp add: add.commute)
qed

lemma checked_succ_less: "checked_succ a = Some b \<Longrightarrow> a < b"
  by (simp add: word_less_nat_alt unat_checked_succ)

lemma checked_succ_eq_None_iff: "checked_succ a = None \<longleftrightarrow> a = - 1"
  by (simp add: checked_succ_def)

section \<open>The bytewise order of byte strings\<close>

lemma append_less_append_iff [simp, byte_order]: "p @ x < p @ y \<longleftrightarrow> x < (y :: 'a::linorder list)"
  by (induction p) simp_all

lemma append_le_append_iff [simp, byte_order]: "p @ x \<le> p @ y \<longleftrightarrow> x \<le> (y :: 'a::linorder list)"
  by (induction p) simp_all

lemma self_le_append [simp, byte_order]: "p \<le> p @ (x :: 'a::linorder list)"
  by (induction p) simp_all

lemma append_less_same_length [byte_order]:
  "length a = length b \<Longrightarrow>
     a @ x < b @ y \<longleftrightarrow> a < b \<or> a = b \<and> x < (y :: 'a::linorder list)"
  by (induction a b rule: list_induct2) auto

lemma less_append_same_length:
  "length a = length b \<Longrightarrow> a < b \<Longrightarrow> a @ x < b @ (y :: 'a::linorder list)"
  by (simp add: append_less_same_length)

text \<open>
  Between a string and its first extension past the last byte lie exactly the strings it
  prefixes: the single-byte step behind \<open>KeyRange::prefix\<close>.
\<close>

lemma between_last_iff:
  fixes c d :: "'a::linorder"
  assumes "\<And>b. c \<le> b \<and> b < d \<longleftrightarrow> b = c"
  shows "q @ [c] \<le> x \<and> x < q @ [d] \<longleftrightarrow> prefix (q @ [c]) x"
proof (induction q arbitrary: x)
  case Nil
  show ?case
  proof (cases x)
    case (Cons b y)
    have "[c] \<le> b # y \<and> b # y < [d] \<longleftrightarrow> c \<le> b \<and> b < d"
      by (cases y) (auto simp: le_less)
    also have "\<dots> \<longleftrightarrow> prefix [c] (b # y)"
      by (simp only: assms) auto
    finally show ?thesis by (simp only: local.Cons append_Nil)
  qed simp
next
  case (Cons a q)
  show ?case
  proof (cases x)
    case x: (Cons b y)
    show ?thesis
      using Cons.IH [of y] by (cases a b rule: linorder_cases) (auto simp: x dest: order.asym)
  qed simp
qed

lemma byte_succ_step:
  fixes b c :: "'a::len word"
  assumes "c \<noteq> - 1"
  shows "c \<le> b \<and> b < c + 1 \<longleftrightarrow> b = c"
proof -
  have "unat (c + 1) = Suc (unat c)"
    using unat_checked_succ [of c "c + 1"] assms by (simp add: checked_succ_def)
  then have "b < c + 1 \<longleftrightarrow> b \<le> c"
    by (simp only: word_less_nat_alt word_le_nat_alt less_Suc_eq_le)
  then show ?thesis by (metis order_antisym order_refl)
qed

lemma between_last_byte_iff:
  fixes c :: "'a::len word"
  assumes "c \<noteq> - 1"
  shows "q @ [c] \<le> x \<and> x < q @ [c + 1] \<longleftrightarrow> prefix (q @ [c]) x"
  by (rule between_last_iff) (rule byte_succ_step [OF assms])

lemma prefix_imp_le: "prefix p x \<Longrightarrow> p \<le> (x :: 'a::linorder list)"
  by (auto simp: prefix_def)

lemma between_max_byte_iff:
  "q @ [- 1 :: 'a::len word] \<le> x \<and> prefix q x \<longleftrightarrow> prefix (q @ [- 1]) x"
proof -
  have "[- 1 :: 'a word] \<le> z \<longleftrightarrow> prefix [- 1] z" for z
    by (cases z) (auto simp: word_order.extremum_unique not_less)
  then show ?thesis by (auto simp: prefix_def)
qed

lemma max_byte: "(255 :: byte) = - 1"
  by simp

section \<open>Big-endian encodings\<close>

text \<open>The \<open>n\<close> low bytes of a number, most significant first, and the number of a byte string.\<close>

primrec be_bytes :: "nat \<Rightarrow> nat \<Rightarrow> bytes" where
  "be_bytes 0 v = []"
| "be_bytes (Suc n) v = be_bytes n (v div 256) @ [of_nat v]"

definition be_nat :: "bytes \<Rightarrow> nat" where
  "be_nat bs = foldl (\<lambda>a b. a * 256 + unat b) 0 bs"

lemma be_nat_Nil [simp]: "be_nat [] = 0"
  by (simp add: be_nat_def)

lemma be_nat_snoc [simp]: "be_nat (bs @ [b]) = be_nat bs * 256 + unat b"
  by (simp add: be_nat_def)

lemma length_be_bytes [simp, be_codec]: "length (be_bytes n v) = n"
  by (induction n arbitrary: v) simp_all

lemma unat_of_nat_byte: "unat (of_nat v :: byte) = v mod 256"
  by (simp add: unat_of_nat)

lemma be_nat_be_bytes [be_codec]: "be_nat (be_bytes n v) = v mod 256 ^ n"
proof (induction n arbitrary: v)
  case 0
  show ?case by simp
next
  case (Suc n)
  have "be_nat (be_bytes (Suc n) v) = (v div 256) mod 256 ^ n * 256 + v mod 256"
    by (simp add: Suc unat_of_nat_byte)
  also have "\<dots> = v mod (256 * 256 ^ n)"
    by (simp add: mod_mult2_eq)
  finally show ?case by simp
qed

lemma be_nat_less: "be_nat bs < 256 ^ length bs"
proof (induction bs rule: rev_induct)
  case Nil
  show ?case by simp
next
  case (snoc b bs)
  have "unat b < 256" using unat_lt2p [of b] by simp
  with snoc show ?case by simp
qed

lemma be_bytes_be_nat [be_codec]: "be_bytes (length bs) (be_nat bs) = bs"
proof (induction bs rule: rev_induct)
  case Nil
  show ?case by simp
next
  case (snoc b bs)
  have b: "unat b < 256" using unat_lt2p [of b] by simp
  then have "(be_nat bs * 256 + unat b) div 256 = be_nat bs" by simp
  moreover have "(of_nat (be_nat bs * 256 + unat b) :: byte) = b"
  proof (rule unsigned_word_eqI)
    show "unat (of_nat (be_nat bs * 256 + unat b) :: byte) = unat b"
      using b by (simp only: unat_of_nat_byte mod_mult_self3 mod_less)
  qed
  ultimately show ?case by (simp add: snoc del: of_nat_add of_nat_mult)
qed

lemma be_nat_less_iff [be_codec]:
  "length a = length b \<Longrightarrow> be_nat a < be_nat b \<longleftrightarrow> a < b"
proof (induction a arbitrary: b rule: rev_induct)
  case Nil
  then show ?case by simp
next
  case (snoc x a)
  then obtain c y where b: "b = c @ [y]" and len: "length a = length c"
    by (metis append_butlast_last_id length_append_singleton length_butlast length_0_conv
        diff_Suc_1 nat.distinct(1))
  have IH: "be_nat a < be_nat c \<longleftrightarrow> a < c" "be_nat c < be_nat a \<longleftrightarrow> c < a"
    using snoc.IH [OF len] be_bytes_be_nat [of a] be_bytes_be_nat [of c] len
    by (metis linorder_less_linear order_less_asym)+
  have xy: "unat x < 256" "unat y < 256" using unat_lt2p [of x] unat_lt2p [of y] by simp_all
  have eq: "be_nat a = be_nat c \<longleftrightarrow> a = c" using IH by (metis linorder_less_linear order_less_irrefl)
  have "m * 256 + i < n * 256 + j \<longleftrightarrow> m < n \<or> m = n \<and> i < j"
    if "i < 256" "j < 256" for m n i j :: nat
    using that by (cases m n rule: linorder_cases) linarith+
  from this [OF xy] have "be_nat a * 256 + unat x < be_nat c * 256 + unat y \<longleftrightarrow>
      be_nat a < be_nat c \<or> be_nat a = be_nat c \<and> unat x < unat y" .
  then show ?case
    using IH eq len by (simp add: b append_less_same_length word_less_nat_alt)
qed

text \<open>\<open>to_be_bytes\<close> and \<open>from_be_bytes\<close> at the two widths the program uses.\<close>

definition be32 :: "u32 \<Rightarrow> bytes" where
  "be32 w = be_bytes 4 (unat w)"

definition be64 :: "u64 \<Rightarrow> bytes" where
  "be64 w = be_bytes 8 (unat w)"

definition from_be32 :: "bytes \<Rightarrow> u32" where
  "from_be32 bs = of_nat (be_nat bs)"

definition from_be64 :: "bytes \<Rightarrow> u64" where
  "from_be64 bs = of_nat (be_nat bs)"

lemma length_be32 [simp, be_codec]: "length (be32 w) = 4"
  by (simp add: be32_def)

lemma length_be64 [simp, be_codec]: "length (be64 w) = 8"
  by (simp add: be64_def)

lemma be_nat_be32 [simp]: "be_nat (be32 w) = unat w"
  using unat_lt2p [of w] by (simp add: be32_def be_nat_be_bytes)

lemma be_nat_be64 [simp]: "be_nat (be64 w) = unat w"
  using unat_lt2p [of w] by (simp add: be64_def be_nat_be_bytes)

lemma from_be32_be32 [simp, be_codec]: "from_be32 (be32 w) = w"
  by (simp add: from_be32_def)

lemma from_be64_be64 [simp, be_codec]: "from_be64 (be64 w) = w"
  by (simp add: from_be64_def)

lemma unat_from_be32: "length bs = 4 \<Longrightarrow> unat (from_be32 bs) = be_nat bs"
  using be_nat_less [of bs] by (simp add: from_be32_def unat_of_nat)

lemma unat_from_be64: "length bs = 8 \<Longrightarrow> unat (from_be64 bs) = be_nat bs"
  using be_nat_less [of bs] by (simp add: from_be64_def unat_of_nat)

lemma be32_from_be32 [be_codec]: "length bs = 4 \<Longrightarrow> be32 (from_be32 bs) = bs"
  using be_bytes_be_nat [of bs] by (simp add: be32_def unat_from_be32)

lemma be64_from_be64 [be_codec]: "length bs = 8 \<Longrightarrow> be64 (from_be64 bs) = bs"
  using be_bytes_be_nat [of bs] by (simp add: be64_def unat_from_be64)

lemma be32_less_iff [simp, byte_order]: "be32 a < be32 b \<longleftrightarrow> a < b"
  using be_nat_less_iff [of "be32 a" "be32 b"] by (simp add: word_less_nat_alt)

lemma be64_less_iff [simp, byte_order]: "be64 a < be64 b \<longleftrightarrow> a < b"
  using be_nat_less_iff [of "be64 a" "be64 b"] by (simp add: word_less_nat_alt)

lemma be32_inject [simp]: "be32 a = be32 b \<longleftrightarrow> a = b"
  by (metis from_be32_be32)

lemma be64_inject [simp]: "be64 a = be64 b \<longleftrightarrow> a = b"
  by (metis from_be64_be64)

text \<open>\<open>str::as_bytes\<close> of an ASCII literal, and little-endian \<open>u32\<close> of the filters.\<close>

definition as_bytes :: "string \<Rightarrow> bytes" where
  "as_bytes s = map of_char s"

definition le32 :: "u32 \<Rightarrow> bytes" where
  "le32 w = rev (be32 w)"

definition from_le32 :: "bytes \<Rightarrow> u32" where
  "from_le32 bs = from_be32 (rev bs)"

lemma length_le32 [simp, be_codec]: "length (le32 w) = 4"
  by (simp add: le32_def)

lemma from_le32_le32 [simp, be_codec]: "from_le32 (le32 w) = w"
  by (simp add: from_le32_def le32_def)

end
