(* ===== verification/Errors.thy ===== *)
theory Errors
  imports Prelude
begin

text \<open>
  \<open>src/error.rs\<close>: the one error type of the crate, its messages and the corruption test that
  \<open>OnCorrupt::Skip\<close> acts on. Two constructors are the model's own. \<open>Diverged\<close> is the value of a
  paging loop that has not ended within the fuel of the backend; the lemmas on the loops show that
  it does not arise on a backend that keeps its contract. \<open>Panicked\<close> is a Rust panic (a degenerate
  \<open>BTreeMap::range\<close>, \<open>chunks(0)\<close>), which ends the program instead of returning.
\<close>

datatype error =
    Backend string
  | QuotaExceeded u64 "u64 option"
  | ValueTooLarge nat nat
  | LockerTooLarge u64 u64
  | SchemaMismatch string string
  | Corrupt string
  | UnsupportedVersion byte byte
  | FilterFailed string
  | InvalidConfig string
  | Closed
  | Diverged
  | Panicked string

type_synonym 'a result = "error + 'a"

text \<open>\<open>{:?}\<close> of a string: quoted. (Escapes of unprintable characters are not reproduced.)\<close>

definition show_debug :: "string \<Rightarrow> string" where
  "show_debug s = ''\"'' @ s @ ''\"''"

text \<open>\<open>Display\<close> for \<open>Error\<close>.\<close>

fun error_display :: "error \<Rightarrow> string" where
  "error_display (Backend msg) = ''storage backend failed: '' @ msg"
| "error_display (QuotaExceeded n (Some a)) =
     ''quota exceeded: needed '' @ show_nat (unat n) @ '' bytes, '' @ show_nat (unat a) @ '' available''"
| "error_display (QuotaExceeded n None) =
     ''quota exceeded: needed '' @ show_nat (unat n) @ '' bytes''"
| "error_display (ValueTooLarge b m) =
     ''value of '' @ show_nat b @ '' bytes exceeds the '' @ show_nat m @
     '' byte inline limit for an eager locker; use a lazy locker instead''"
| "error_display (LockerTooLarge b m) =
     ''eager locker holds '' @ show_nat (unat b) @ '' bytes, over its '' @ show_nat (unat m) @
     '' byte budget; use a lazy locker instead''"
| "error_display (SchemaMismatch s r) =
     ''schema mismatch: stored as '' @ show_debug s @ '', opened as '' @ show_debug r"
| "error_display (Corrupt msg) = ''stored data is corrupt: '' @ msg"
| "error_display (UnsupportedVersion f s) =
     ''envelope version '' @ show_nat (unat f) @ '' is not readable by this build (supports '' @
     show_nat (unat s) @ '')''"
| "error_display (FilterFailed msg) = ''codec or cipher failed: '' @ msg"
| "error_display (InvalidConfig msg) = ''invalid locker configuration: '' @ msg"
| "error_display Closed = ''the bank has been closed''"
| "error_display Diverged = ''''"
| "error_display (Panicked msg) = msg"

text \<open>Whether an error says that stored bytes are unreadable.\<close>

fun is_corruption :: "error \<Rightarrow> bool" where
  "is_corruption (Corrupt _) = True"
| "is_corruption (UnsupportedVersion _ _) = True"
| "is_corruption (FilterFailed _) = True"
| "is_corruption _ = False"

end
