(* ===== verification/Btree.thy ===== *)
theory Btree
  imports Prelude
begin

text \<open>
  \<open>std::collections::BTreeMap\<close>, the map every part of the program keeps its keys in: entries
  in key order, one per key. A \<open>typedef\<close> over strictly sorted association lists, so that the
  invariant needs no hypothesis anywhere; \<open>BTreeSet<K>\<close> is \<open>BTreeMap<K, ()>\<close>, as in the
  standard library. Two maps with the same lookups are equal (\<open>btree_eqI\<close>).
\<close>

section \<open>Strictly sorted association lists\<close>

fun al_insert :: "'k::linorder \<Rightarrow> 'v \<Rightarrow> ('k \<times> 'v) list \<Rightarrow> ('k \<times> 'v) list" where
  "al_insert k v [] = [(k, v)]"
| "al_insert k v ((a, w) # xs) =
     (if k < a then (k, v) # (a, w) # xs
      else if k = a then (k, v) # xs
      else (a, w) # al_insert k v xs)"

abbreviation al_sorted :: "('k::linorder \<times> 'v) list \<Rightarrow> bool" where
  "al_sorted xs \<equiv> sorted_wrt (<) (map fst xs)"

lemma set_al_insert_keys: "fst ` set (al_insert k v xs) = insert k (fst ` set xs)"
  by (induction k v xs rule: al_insert.induct) auto

lemma ball_al_insert:
  "(\<forall>x\<in>set (al_insert k v xs). P (fst x)) \<longleftrightarrow> P k \<and> (\<forall>x\<in>set xs. P (fst x))"
proof -
  have "(\<forall>x\<in>set (al_insert k v xs). P (fst x)) \<longleftrightarrow> (\<forall>a\<in>fst ` set (al_insert k v xs). P a)"
    by (simp only: ball_simps)
  also have "\<dots> \<longleftrightarrow> P k \<and> (\<forall>x\<in>set xs. P (fst x))"
    by (simp only: set_al_insert_keys ball_simps)
  finally show ?thesis .
qed

lemma al_sorted_insert: "al_sorted xs \<Longrightarrow> al_sorted (al_insert k v xs)"
proof (induction k v xs rule: al_insert.induct)
  case (2 k v a w xs)
  then show ?case
    by (cases k a rule: linorder_cases) (auto simp: ball_al_insert dest: order.strict_trans)
qed simp

lemma map_of_al_insert:
  "al_sorted xs \<Longrightarrow> map_of (al_insert k v xs) = (map_of xs)(k \<mapsto> v)"
  by (induction k v xs rule: al_insert.induct) (auto simp: fun_eq_iff)

lemma al_sorted_filter: "al_sorted xs \<Longrightarrow> al_sorted (filter P xs)"
  by (induction xs) auto

lemma al_sorted_distinct: "al_sorted xs \<Longrightarrow> distinct (map fst xs)"
  by (simp add: strict_sorted_iff)

lemma map_of_al_filter:
  "al_sorted xs \<Longrightarrow>
     map_of (filter P xs) k = (case map_of xs k of None \<Rightarrow> None | Some v \<Rightarrow> if P (k, v) then Some v else None)"
proof (induction xs)
  case (Cons x xs)
  have "map_of xs (fst x) = None"
    using Cons.prems by (auto simp: map_of_eq_None_iff)
  with Cons show ?case by (cases x) (auto split: option.splits)
qed simp

lemma al_rebuild: "distinct (map fst xs) \<Longrightarrow> map (\<lambda>k. (k, the (map_of xs k))) (map fst xs) = xs"
proof (induction xs)
  case (Cons x xs)
  obtain a b where x: "x = (a, b)" by (cases x)
  have "map (\<lambda>k. (k, the (map_of (x # xs) k))) (map fst xs) = map (\<lambda>k. (k, the (map_of xs k))) (map fst xs)"
    using Cons.prems by (auto simp: x intro!: map_cong)
  with Cons show ?case by (simp add: x)
qed simp

lemma al_sorted_unique:
  assumes "al_sorted xs" "al_sorted ys" "map_of xs = map_of ys"
  shows "xs = ys"
proof -
  have "set (map fst xs) = set (map fst ys)"
    by (metis assms(3) dom_map_of_conv_image_fst list.set_map)
  then have keys: "map fst xs = map fst ys"
    using assms(1,2) by (simp add: strict_sorted_iff sorted_distinct_set_unique)
  have "xs = map (\<lambda>k. (k, the (map_of xs k))) (map fst xs)"
    using assms(1) by (simp only: al_rebuild al_sorted_distinct)
  also have "\<dots> = map (\<lambda>k. (k, the (map_of ys k))) (map fst ys)"
    by (simp only: keys assms(3))
  also have "\<dots> = ys"
    using assms(2) by (simp only: al_rebuild al_sorted_distinct)
  finally show ?thesis .
qed

section \<open>The type\<close>

typedef (overloaded) ('k::linorder, 'v) btree = "{xs :: ('k \<times> 'v) list. al_sorted xs}"
  morphisms bt_entries Btree
  by (rule exI [of _ "[]"]) simp

setup_lifting type_definition_btree

lift_definition bt_empty :: "('k::linorder, 'v) btree" is "[]"
  by simp

lift_definition bt_insert :: "'k::linorder \<Rightarrow> 'v \<Rightarrow> ('k, 'v) btree \<Rightarrow> ('k, 'v) btree" is al_insert
  by (rule al_sorted_insert)

lift_definition bt_filter :: "('k::linorder \<Rightarrow> 'v \<Rightarrow> bool) \<Rightarrow> ('k, 'v) btree \<Rightarrow> ('k, 'v) btree"
  is "\<lambda>P. filter (\<lambda>(k, v). P k v)"
  by (rule al_sorted_filter)

definition bt_lookup :: "('k::linorder, 'v) btree \<Rightarrow> 'k \<Rightarrow> 'v option" where
  "bt_lookup t k = map_of (bt_entries t) k"

definition bt_remove :: "'k::linorder \<Rightarrow> ('k, 'v) btree \<Rightarrow> ('k, 'v) btree" where
  "bt_remove k t = bt_filter (\<lambda>a _. a \<noteq> k) t"

definition bt_keys :: "('k::linorder, 'v) btree \<Rightarrow> 'k list" where
  "bt_keys t = map fst (bt_entries t)"

definition bt_len :: "('k::linorder, 'v) btree \<Rightarrow> nat" where
  "bt_len t = length (bt_entries t)"

definition bt_contains :: "('k::linorder, 'v) btree \<Rightarrow> 'k \<Rightarrow> bool" where
  "bt_contains t k \<longleftrightarrow> bt_lookup t k \<noteq> None"

text \<open>\<open>collect()\<close> into a map: later pairs overwrite earlier ones.\<close>

definition bt_of_list :: "('k::linorder \<times> 'v) list \<Rightarrow> ('k, 'v) btree" where
  "bt_of_list xs = fold (\<lambda>(k, v). bt_insert k v) xs bt_empty"

section \<open>Laws\<close>

lemma bt_entries_sorted [simp, intro]: "al_sorted (bt_entries t)"
  using bt_entries [of t] by simp

lemma bt_entries_distinct [simp, intro]: "distinct (map fst (bt_entries t))"
  by (rule al_sorted_distinct) (rule bt_entries_sorted)

lemma bt_lookup_empty [simp]: "bt_lookup bt_empty k = None"
  by (simp add: bt_lookup_def bt_empty.rep_eq)

lemma bt_lookup_insert: "bt_lookup (bt_insert k v t) = (bt_lookup t)(k \<mapsto> v)"
  by (simp add: bt_lookup_def [abs_def] bt_insert.rep_eq map_of_al_insert)

lemma bt_lookup_insert_apply [simp]:
  "bt_lookup (bt_insert k v t) a = (if a = k then Some v else bt_lookup t a)"
  by (simp add: bt_lookup_insert)

lemma bt_lookup_filter [simp]:
  "bt_lookup (bt_filter P t) k =
     (case bt_lookup t k of None \<Rightarrow> None | Some v \<Rightarrow> if P k v then Some v else None)"
  by (simp add: bt_lookup_def bt_filter.rep_eq map_of_al_filter split: option.splits)

lemma bt_lookup_remove [simp]:
  "bt_lookup (bt_remove k t) a = (if a = k then None else bt_lookup t a)"
  by (simp add: bt_remove_def split: option.splits)

lemma btree_eqI: "(\<And>k. bt_lookup s k = bt_lookup t k) \<Longrightarrow> s = t"
  by (rule bt_entries_inject [THEN iffD1], rule al_sorted_unique)
    (auto simp: bt_lookup_def [abs_def] fun_eq_iff)

lemma bt_mem_entries_iff: "(k, v) \<in> set (bt_entries t) \<longleftrightarrow> bt_lookup t k = Some v"
  by (simp add: bt_lookup_def)

lemma bt_mem_keys_iff [simp]: "k \<in> set (bt_keys t) \<longleftrightarrow> bt_lookup t k \<noteq> None"
  by (auto simp: bt_keys_def bt_lookup_def map_of_eq_None_iff)

lemma bt_keys_sorted [simp, intro]: "sorted_wrt (<) (bt_keys t)"
  by (simp add: bt_keys_def)

lemma bt_keys_distinct [simp, intro]: "distinct (bt_keys t)"
  by (simp add: bt_keys_def)

lemma bt_contains_simps [simp]:
  "\<not> bt_contains bt_empty k"
  "bt_contains (bt_insert k v t) a \<longleftrightarrow> a = k \<or> bt_contains t a"
  "bt_contains (bt_remove k t) a \<longleftrightarrow> a \<noteq> k \<and> bt_contains t a"
  by (simp_all add: bt_contains_def)

lemma bt_entries_empty [simp]: "bt_entries bt_empty = []"
  by (rule bt_empty.rep_eq)

lemma bt_entries_insert [simp]: "bt_entries (bt_insert k v t) = al_insert k v (bt_entries t)"
  by (rule bt_insert.rep_eq)

lemma bt_entries_filter [simp]: "bt_entries (bt_filter P t) = filter (\<lambda>(k, v). P k v) (bt_entries t)"
  by (rule bt_filter.rep_eq)

lemma bt_entries_remove [simp]: "bt_entries (bt_remove k t) = filter (\<lambda>p. fst p \<noteq> k) (bt_entries t)"
  by (simp add: bt_remove_def case_prod_unfold)

lemma bt_len_simps [simp]: "bt_len bt_empty = 0" "bt_len t = 0 \<longleftrightarrow> t = bt_empty"
  by (auto simp: bt_len_def bt_entries_inject [symmetric])

instantiation btree :: (linorder, equal) equal
begin
definition equal_btree :: "('a, 'b) btree \<Rightarrow> ('a, 'b) btree \<Rightarrow> bool" where
  "equal_btree s t \<longleftrightarrow> bt_entries s = bt_entries t"
instance
  by standard (simp add: equal_btree_def bt_entries_inject)
end

instantiation btree :: (linorder, type) size
begin
definition size_btree :: "('a, 'b) btree \<Rightarrow> nat" where
  "size_btree t = bt_len t"
instance ..
end

section \<open>Sums over the entries\<close>

text \<open>The totals the byte budget and the usage report are made of.\<close>

definition bt_sum :: "('v \<Rightarrow> nat) \<Rightarrow> ('k::linorder, 'v) btree \<Rightarrow> nat" where
  "bt_sum f t = sum_list (map (f \<circ> snd) (bt_entries t))"

lemma sum_al_insert:
  "al_sorted xs \<Longrightarrow>
     sum_list (map (f \<circ> snd) (al_insert k v xs)) + (case map_of xs k of None \<Rightarrow> 0 | Some w \<Rightarrow> f w)
       = sum_list (map (f \<circ> snd) xs) + (f v :: nat)"
proof (induction k v xs rule: al_insert.induct)
  case (2 k v a w xs)
  have "k < a \<Longrightarrow> map_of xs k = None"
    using 2 by (auto simp: map_of_eq_None_iff dest: order.strict_trans)
  with 2 show ?case by auto
qed simp

lemma sum_al_remove:
  "distinct (map fst xs) \<Longrightarrow>
     sum_list (map (f \<circ> snd) (filter (\<lambda>p. fst p \<noteq> k) xs)) + (case map_of xs k of None \<Rightarrow> 0 | Some w \<Rightarrow> f w)
       = (sum_list (map (f \<circ> snd) xs) :: nat)"
proof (induction xs)
  case (Cons x xs)
  obtain a w where x: "x = (a, w)" by (cases x)
  have "filter (\<lambda>p. fst p \<noteq> k) xs = xs" "map_of xs k = None" if "a = k"
    using Cons.prems that by (auto simp: x filter_id_conv map_of_eq_None_iff)
  with Cons show ?case by (cases "a = k") (simp_all add: x)
qed simp

lemma bt_sum_empty [simp]: "bt_sum f bt_empty = 0"
  by (simp add: bt_sum_def)

lemma bt_sum_insert:
  "bt_sum f (bt_insert k v t) + (case bt_lookup t k of None \<Rightarrow> 0 | Some w \<Rightarrow> f w) = bt_sum f t + f v"
  by (simp add: bt_sum_def bt_lookup_def sum_al_insert)

lemma bt_sum_remove:
  "bt_sum f (bt_remove k t) + (case bt_lookup t k of None \<Rightarrow> 0 | Some w \<Rightarrow> f w) = bt_sum f t"
  by (simp add: bt_sum_def bt_lookup_def sum_al_remove)

lemma bt_lookup_le_sum: "bt_lookup t k = Some v \<Longrightarrow> f v \<le> bt_sum f t"
  using bt_sum_remove [of f k t] by simp

end
