(* ===== verification/Backend_Api.thy ===== *)
theory Backend_Api
  imports Errors Btree
begin

text \<open>
  \<open>src/backend/api.rs\<close>: tables, key ranges, operations, scan requests and pages, and the
  \<open>Backend\<close> trait. A \<open>dyn Backend\<close> is the record \<open>backend\<close> of its methods over a state \<open>'b\<close>;
  reads leave the state alone, commits thread it. \<open>bk_fuel\<close> is not a method: it bounds the number
  of pages a paging loop of the model takes (see \<open>Inner\<close>).
\<close>

section \<open>Tables, bounds and ranges\<close>

datatype table = Meta | Records | Chunks

fun table_name :: "table \<Rightarrow> string" where
  "table_name Meta = ''meta''"
| "table_name Records = ''records''"
| "table_name Chunks = ''chunks''"

definition table_all :: "table list" where
  "table_all = [Meta, Records, Chunks]"

text \<open>\<open>std::ops::Bound\<close>.\<close>

datatype 'k bound = Unbounded | Included 'k | Excluded 'k

record key_range =
  kr_start :: "bytes bound"
  kr_end :: "bytes bound"

definition kr_all :: key_range where
  "kr_all = \<lparr>kr_start = Unbounded, kr_end = Unbounded\<rparr>"

text \<open>
  The loop of \<open>KeyRange::prefix\<close>: pop the last byte; where it is not \<open>0xFF\<close>, push its successor
  and stop. The argument is the vector reversed, so that \<open>pop\<close> is the head.
\<close>

fun prefix_end :: "bytes \<Rightarrow> bytes option" where
  "prefix_end [] = None"
| "prefix_end (l # rest) = (if l \<noteq> 0xFF then Some (rev rest @ [l + 1]) else prefix_end rest)"

definition kr_prefix :: "bytes \<Rightarrow> key_range" where
  "kr_prefix p =
     (case prefix_end (rev p) of
        Some e \<Rightarrow> \<lparr>kr_start = Included p, kr_end = Excluded e\<rparr>
      | None \<Rightarrow> \<lparr>kr_start = Included p, kr_end = Unbounded\<rparr>)"

fun above_start :: "'k::linorder bound \<Rightarrow> 'k \<Rightarrow> bool" where
  "above_start Unbounded k \<longleftrightarrow> True"
| "above_start (Included s) k \<longleftrightarrow> k \<ge> s"
| "above_start (Excluded s) k \<longleftrightarrow> k > s"

fun below_end :: "'k::linorder bound \<Rightarrow> 'k \<Rightarrow> bool" where
  "below_end Unbounded k \<longleftrightarrow> True"
| "below_end (Included e) k \<longleftrightarrow> k \<le> e"
| "below_end (Excluded e) k \<longleftrightarrow> k < e"

definition kr_contains :: "key_range \<Rightarrow> bytes \<Rightarrow> bool" where
  "kr_contains r key \<longleftrightarrow> above_start (kr_start r) key \<and> below_end (kr_end r) key"

section \<open>Operations\<close>

datatype bop =
    Op_Put table (op_key: bytes) (op_value: bytes)
  | Op_Delete table (op_key: bytes)
  | Op_DeleteRange table (op_range: key_range)

datatype durability = Dur_Immediate | Dur_Eventual

record commit_options =
  co_durability :: durability

definition co_immediate :: commit_options where
  "co_immediate = \<lparr>co_durability = Dur_Immediate\<rparr>"

definition co_eventual :: commit_options where
  "co_eventual = \<lparr>co_durability = Dur_Eventual\<rparr>"

definition DEFAULT_SCAN_PAGE :: nat where
  "DEFAULT_SCAN_PAGE = 256"

record scan_request =
  rq_table :: table
  rq_range :: key_range
  rq_reverse :: bool
  rq_limit :: nat
  rq_want_values :: bool

record scan_page =
  pg_items :: "(bytes \<times> bytes option) list"
  pg_resume :: "bytes option"

record usage =
  us_used :: u64
  us_available :: "u64 option"
  us_persisted :: bool

section \<open>The trait\<close>

record 'b backend =
  bk_get :: "'b \<Rightarrow> table \<Rightarrow> bytes \<Rightarrow> bytes option result"
  bk_get_many :: "'b \<Rightarrow> table \<Rightarrow> bytes list \<Rightarrow> bytes option list result"
  bk_scan :: "'b \<Rightarrow> scan_request \<Rightarrow> scan_page result"
  bk_scan_page_size :: nat
  bk_commit :: "bop list \<Rightarrow> ('b, error, unit) act"
  bk_commit_with :: "bop list \<Rightarrow> commit_options \<Rightarrow> ('b, error, unit) act"
  bk_usage :: "'b \<Rightarrow> usage option result"
  bk_flush :: "('b, error, unit) act"
  bk_close :: "('b, error, unit) act"
  bk_fuel :: "'b \<Rightarrow> nat"

text \<open>The default of \<open>commit_with\<close> ignores the knob.\<close>

definition default_commit_with ::
    "(bop list \<Rightarrow> ('b, error, unit) act) \<Rightarrow> bop list \<Rightarrow> commit_options \<Rightarrow> ('b, error, unit) act" where
  "default_commit_with commit ops options = commit ops"

section \<open>Prefix ranges\<close>

lemma prefix_end_correct:
  "prefix_end (rev p) = Some e \<Longrightarrow> p \<le> x \<and> x < e \<longleftrightarrow> prefix p x"
proof (induction p arbitrary: e x rule: rev_induct)
  case Nil
  then show ?case by simp
next
  case (snoc c q)
  show ?case
  proof (cases "c = 0xFF")
    case False
    then have "e = q @ [c + 1]" "c \<noteq> - 1"
      using snoc.prems by (simp_all add: max_byte)
    then show ?thesis by (simp add: between_last_byte_iff)
  next
    case True
    then have "prefix_end (rev q) = Some e" and c: "c = - 1"
      using snoc.prems by (simp_all add: max_byte)
    from snoc.IH [OF this(1)] have IH: "q \<le> x \<and> x < e \<longleftrightarrow> prefix q x" .
    have "q \<le> q @ [c]" by simp
    then have "q @ [c] \<le> x \<and> x < e \<longleftrightarrow> q @ [c] \<le> x \<and> prefix q x"
      using IH by (meson order.trans)
    then show ?thesis by (simp add: c between_max_byte_iff)
  qed
qed

lemma prefix_end_None: "prefix_end (rev p) = None \<Longrightarrow> p \<le> x \<longleftrightarrow> prefix p x"
proof (induction p arbitrary: x rule: rev_induct)
  case Nil
  then show ?case by simp
next
  case (snoc c q)
  then have c: "c = - 1" and "prefix_end (rev q) = None"
    by (simp_all add: max_byte split: if_splits)
  then have "q \<le> x \<longleftrightarrow> prefix q x"
    by (intro snoc.IH)
  moreover have "q \<le> q @ [c]" by simp
  ultimately have "q @ [c] \<le> x \<longleftrightarrow> q @ [c] \<le> x \<and> prefix q x"
    by (meson order.trans)
  then show ?case by (simp add: c between_max_byte_iff)
qed

lemma kr_contains_prefix [simp]: "kr_contains (kr_prefix p) x \<longleftrightarrow> prefix p x"
  by (cases "prefix_end (rev p)")
    (auto simp: kr_contains_def kr_prefix_def prefix_end_None prefix_end_correct [symmetric])

lemma kr_contains_all [simp]: "kr_contains kr_all x"
  by (simp add: kr_contains_def kr_all_def)

end
