(* ===== verification/Keys.thy ===== *)
theory Keys
  imports Backend_Api
begin

text \<open>
  \<open>src/key.rs\<close>: user keys behind a 4-byte big-endian locker prefix, the ranges of a locker, and
  the translation of user bounds into stored bounds. A \<open>&str\<close> key is its UTF-8 bytes, so both
  forms of every function are the one over \<open>bytes\<close>; \<open>utf8_valid\<close> is \<open>str::from_utf8\<close>.
\<close>

type_synonym locker_id = u32

definition PREFIX_LEN :: nat where
  "PREFIX_LEN = 4"

section \<open>UTF-8\<close>

text \<open>\<open>std::str::from_utf8(..).is_ok()\<close>: the well-formed byte sequences of the Unicode standard.\<close>

definition cont_byte :: "byte \<Rightarrow> bool" where
  "cont_byte b \<longleftrightarrow> 0x80 \<le> b \<and> b \<le> 0xBF"

fun utf8_valid :: "bytes \<Rightarrow> bool" where
  "utf8_valid [] = True"
| "utf8_valid (a # bs) =
    (if a \<le> 0x7F then utf8_valid bs
     else case bs of
       [] \<Rightarrow> False
     | b # bs2 \<Rightarrow>
       (if 0xC2 \<le> a \<and> a \<le> 0xDF then cont_byte b \<and> utf8_valid bs2
        else case bs2 of
          [] \<Rightarrow> False
        | c # bs3 \<Rightarrow>
          (if a = 0xE0 then 0xA0 \<le> b \<and> b \<le> 0xBF \<and> cont_byte c \<and> utf8_valid bs3
           else if a = 0xED then 0x80 \<le> b \<and> b \<le> 0x9F \<and> cont_byte c \<and> utf8_valid bs3
           else if 0xE1 \<le> a \<and> a \<le> 0xEF then cont_byte b \<and> cont_byte c \<and> utf8_valid bs3
           else case bs3 of
             [] \<Rightarrow> False
           | d # bs4 \<Rightarrow>
             (if a = 0xF0 then 0x90 \<le> b \<and> b \<le> 0xBF \<and> cont_byte c \<and> cont_byte d \<and> utf8_valid bs4
              else if a = 0xF4 then 0x80 \<le> b \<and> b \<le> 0x8F \<and> cont_byte c \<and> cont_byte d \<and> utf8_valid bs4
              else if 0xF1 \<le> a \<and> a \<le> 0xF3 then
                cont_byte b \<and> cont_byte c \<and> cont_byte d \<and> utf8_valid bs4
              else False))))"

declare utf8_valid.simps(2) [simp del]

section \<open>Encoding and decoding\<close>

definition encode_bytes :: "locker_id \<Rightarrow> bytes \<Rightarrow> bytes" where
  "encode_bytes locker key = be32 locker @ key"

definition encode :: "locker_id \<Rightarrow> bytes \<Rightarrow> bytes" where
  "encode locker key = encode_bytes locker key"

definition decode_bytes :: "locker_id \<Rightarrow> bytes \<Rightarrow> bytes result" where
  "decode_bytes locker encoded =
     (if length encoded < PREFIX_LEN then
        Inl (Corrupt (''stored key is '' @ show_nat (length encoded) @ '' bytes, shorter than the '' @
          show_nat PREFIX_LEN @ '' byte locker prefix''))
      else
        let found = from_be32 (take PREFIX_LEN encoded) in
        if found \<noteq> locker then
          Inl (Corrupt (''stored key belongs to locker '' @ show_nat (unat found) @ '', not '' @
            show_nat (unat locker)))
        else Inr (drop PREFIX_LEN encoded))"

definition decode :: "locker_id \<Rightarrow> bytes \<Rightarrow> bytes result" where
  "decode locker encoded =
     rbind (decode_bytes locker encoded)
       (\<lambda>rest. if utf8_valid rest then Inr rest else Inl (Corrupt ''stored key is not UTF-8''))"

section \<open>Ranges\<close>

definition locker_range :: "locker_id \<Rightarrow> key_range" where
  "locker_range locker = kr_prefix (be32 locker)"

definition prefix_range_bytes :: "locker_id \<Rightarrow> bytes \<Rightarrow> key_range" where
  "prefix_range_bytes locker p = kr_prefix (encode_bytes locker p)"

definition prefix_range :: "locker_id \<Rightarrow> bytes \<Rightarrow> key_range" where
  "prefix_range locker p = prefix_range_bytes locker p"

definition encode_range_bytes :: "locker_id \<Rightarrow> bytes bound \<Rightarrow> bytes bound \<Rightarrow> key_range" where
  "encode_range_bytes locker s e =
     (let locker_bounds = locker_range locker in
      \<lparr>kr_start = (case s of Unbounded \<Rightarrow> kr_start locker_bounds
                  | Included k \<Rightarrow> Included (encode_bytes locker k)
                  | Excluded k \<Rightarrow> Excluded (encode_bytes locker k)),
       kr_end = (case e of Unbounded \<Rightarrow> kr_end locker_bounds
                | Included k \<Rightarrow> Included (encode_bytes locker k)
                | Excluded k \<Rightarrow> Excluded (encode_bytes locker k))\<rparr>)"

definition encode_range :: "locker_id \<Rightarrow> bytes bound \<Rightarrow> bytes bound \<Rightarrow> key_range" where
  "encode_range locker s e = encode_range_bytes locker s e"

fun is_degenerate :: "'k::linorder bound \<Rightarrow> 'k bound \<Rightarrow> bool" where
  "is_degenerate Unbounded _ \<longleftrightarrow> False"
| "is_degenerate _ Unbounded \<longleftrightarrow> False"
| "is_degenerate (Included s) (Included e) \<longleftrightarrow> s > e"
| "is_degenerate (Included s) (Excluded e) \<longleftrightarrow> s \<ge> e"
| "is_degenerate (Excluded s) (Included e) \<longleftrightarrow> s \<ge> e"
| "is_degenerate (Excluded s) (Excluded e) \<longleftrightarrow> s \<ge> e"

section \<open>Lemmas\<close>

lemma decode_encode_bytes [simp]: "decode_bytes l (encode_bytes l k) = Inr k"
  by (simp add: decode_bytes_def encode_bytes_def PREFIX_LEN_def)

lemma decode_bytes_Inr_iff: "decode_bytes l x = Inr k \<longleftrightarrow> x = encode_bytes l k"
proof
  assume "decode_bytes l x = Inr k"
  then have len: "4 \<le> length x" and id: "from_be32 (take 4 x) = l" and k: "k = drop 4 x"
    by (auto simp: decode_bytes_def PREFIX_LEN_def Let_def split: if_splits)
  have "be32 l = take 4 x"
    using len id be32_from_be32 [of "take 4 x"] by simp
  with k show "x = encode_bytes l k" by (simp add: encode_bytes_def)
qed simp

lemma encode_bytes_inject [simp]:
  "encode_bytes l k = encode_bytes l' k' \<longleftrightarrow> l = l' \<and> k = k'"
  by (metis be32_inject append_eq_append_conv encode_bytes_def length_be32)

lemma encode_bytes_less_iff:
  "encode_bytes l k < encode_bytes l' k' \<longleftrightarrow> l < l' \<or> l = l' \<and> k < k'"
  by (auto simp: encode_bytes_def append_less_same_length)

lemma encode_bytes_mono [simp]:
  "encode_bytes l k < encode_bytes l k' \<longleftrightarrow> k < k'"
  "encode_bytes l k \<le> encode_bytes l k' \<longleftrightarrow> k \<le> k'"
  by (simp_all add: encode_bytes_def)

lemma prefix_encode_iff: "prefix (encode_bytes l p) x \<longleftrightarrow> (\<exists>k. x = encode_bytes l k \<and> prefix p k)"
  by (auto simp: prefix_def encode_bytes_def)

lemma locker_range_contains: "kr_contains (locker_range l) x \<longleftrightarrow> (\<exists>k. x = encode_bytes l k)"
  by (auto simp: locker_range_def prefix_def encode_bytes_def)

lemma locker_range_encode [simp]:
  "kr_contains (locker_range l) (encode_bytes l' k) \<longleftrightarrow> l' = l"
  by (auto simp: locker_range_contains)

lemma locker_range_cases:
  obtains e where "locker_range l = \<lparr>kr_start = Included (be32 l), kr_end = Excluded e\<rparr>"
  | "locker_range l = \<lparr>kr_start = Included (be32 l), kr_end = Unbounded\<rparr>"
  by (cases "prefix_end (rev (be32 l))") (auto simp: locker_range_def kr_prefix_def)

definition in_user_bounds :: "bytes bound \<Rightarrow> bytes bound \<Rightarrow> bytes \<Rightarrow> bool" where
  "in_user_bounds s e k \<longleftrightarrow> above_start s k \<and> below_end e k"

text \<open>A range translated into stored keys keeps the bounds and never leaves its locker.\<close>

lemma encode_range_on_locker:
  "kr_contains (encode_range_bytes l s e) (encode_bytes l k) \<longleftrightarrow> in_user_bounds s e k"
proof -
  have "kr_contains (locker_range l) (encode_bytes l k)" by simp
  then have "above_start (kr_start (locker_range l)) (encode_bytes l k)"
    "below_end (kr_end (locker_range l)) (encode_bytes l k)"
    by (simp_all add: kr_contains_def)
  then show ?thesis
    by (cases s; cases e) (simp_all add: kr_contains_def encode_range_bytes_def in_user_bounds_def Let_def)
qed

lemma locker_range_start: "kr_start (locker_range l) = Included (be32 l)"
  by (rule locker_range_cases [of l]) simp_all

lemma encode_range_within_locker:
  assumes "kr_contains (encode_range_bytes l s e) x"
  shows "kr_contains (locker_range l) x"
proof -
  have low: "be32 l \<le> encode_bytes l k" for k
    by (simp add: encode_bytes_def)
  have "above_start (kr_start (locker_range l)) x"
    using assms low
    by (cases s) (auto simp: kr_contains_def encode_range_bytes_def locker_range_start Let_def
        intro: order.trans [OF low] dest!: order.strict_implies_order)
  moreover have "below_end (kr_end (locker_range l)) x"
  proof -
    have top: "below_end (kr_end (locker_range l)) (encode_bytes l k)" for k
      using locker_range_encode [of l l k] by (simp add: kr_contains_def)
    have "below_end (kr_end (locker_range l)) y" if "y \<le> encode_bytes l k" for y k
      using that top [of k] by (cases rule: locker_range_cases [of l]) (auto dest: order.strict_trans1)
    with assms show ?thesis
      by (cases e) (auto simp: kr_contains_def encode_range_bytes_def Let_def
          dest: order.strict_implies_order)
  qed
  ultimately show ?thesis by (simp add: kr_contains_def)
qed

lemma encode_range_contains_iff:
  "kr_contains (encode_range_bytes l s e) x \<longleftrightarrow> (\<exists>k. x = encode_bytes l k \<and> in_user_bounds s e k)"
  using encode_range_within_locker [of l s e x]
  by (auto simp: locker_range_contains encode_range_on_locker)

lemma degenerate_empty: "is_degenerate s e \<Longrightarrow> \<not> (above_start s k \<and> below_end e k)"
  by (cases "(s, e)" rule: is_degenerate.cases) auto

section \<open>Properties\<close>

text \<open>
  Decoding a stored key succeeds on exactly what \<open>encode\<close> makes of a UTF-8 key of that locker and
  gives the key back; a key of another locker, a truncated key and a binary key are refused.
\<close>

theorem key_decode_exact: "decode l x = Inr k \<longleftrightarrow> x = encode l k \<and> utf8_valid k"
  by (auto simp: decode_def encode_def rbind_eq_Inr_iff decode_bytes_Inr_iff split: if_splits)

text \<open>
  A translated range and a prefix range hold exactly the stored keys of that locker whose user key
  lies in the user's bounds, or carries the prefix: nothing of a neighbouring locker, at any id.
\<close>

theorem key_ranges_exact:
  "(kr_contains (encode_range l s e) x \<longleftrightarrow> (\<exists>k. x = encode l k \<and> in_user_bounds s e k))
   \<and> (kr_contains (prefix_range l p) x \<longleftrightarrow> (\<exists>k. x = encode l k \<and> prefix p k))"
  by (auto simp: encode_range_def encode_def encode_range_contains_iff prefix_range_def
      prefix_range_bytes_def prefix_encode_iff)

text \<open>
  Stored keys sort as the pair of the locker id, as a number, and the user key, bytewise; so the
  order a scan answers in is the order of the user keys.
\<close>

theorem key_order:
  "encode l k < encode l' k' \<longleftrightarrow> l < l' \<or> l = l' \<and> k < k'"
  by (simp add: encode_def encode_bytes_less_iff)

end
