(* ===== verification/Memory_Backend.thy ===== *)
theory Memory_Backend
  imports Keys
begin

text \<open>
  \<open>src/backend/memory.rs\<close>: the in-memory backend, whose ordering and range semantics are the
  specification of every other backend. The \<open>std\<close> mutex around the tables is taken and released
  inside each method and no code that can panic runs while it is held, except the degenerate range of
  \<open>scan_tree\<close>, which is the value \<open>Panicked\<close> here.
\<close>

type_synonym tree = "(bytes, bytes) btree"

record tables =
  tb_meta :: tree
  tb_records :: tree
  tb_chunks :: tree

fun tables_get :: "tables \<Rightarrow> table \<Rightarrow> tree" where
  "tables_get t Meta = tb_meta t"
| "tables_get t Records = tb_records t"
| "tables_get t Chunks = tb_chunks t"

text \<open>What is written through \<open>get_mut\<close>.\<close>

fun tables_set :: "tables \<Rightarrow> table \<Rightarrow> tree \<Rightarrow> tables" where
  "tables_set t Meta x = t\<lparr>tb_meta := x\<rparr>"
| "tables_set t Records x = t\<lparr>tb_records := x\<rparr>"
| "tables_set t Chunks x = t\<lparr>tb_chunks := x\<rparr>"

definition tables_default :: tables where
  "tables_default = \<lparr>tb_meta = bt_empty, tb_records = bt_empty, tb_chunks = bt_empty\<rparr>"

record memory_backend =
  mb_tables :: tables
  mb_closed :: bool

definition memory_new :: memory_backend where
  "memory_new = \<lparr>mb_tables = tables_default, mb_closed = False\<rparr>"

definition with_tables :: "memory_backend \<Rightarrow> (tables \<Rightarrow> 'a) \<Rightarrow> 'a result" where
  "with_tables m f = (if mb_closed m then Inl Closed else Inr (f (mb_tables m)))"

text \<open>\<open>MemoryBackend::apply\<close>.\<close>

fun apply_op :: "tables \<Rightarrow> bop \<Rightarrow> tables" where
  "apply_op t (Op_Put tab key v) = tables_set t tab (bt_insert key v (tables_get t tab))"
| "apply_op t (Op_Delete tab key) = tables_set t tab (bt_remove key (tables_get t tab))"
| "apply_op t (Op_DeleteRange tab rng) =
     (let doomed = filter (kr_contains rng) (bt_keys (tables_get t tab)) in
      tables_set t tab (fold bt_remove doomed (tables_get t tab)))"

definition apply_ops :: "tables \<Rightarrow> bop list \<Rightarrow> tables" where
  "apply_ops t ops = foldl apply_op t ops"

text \<open>\<open>BTreeMap::range\<close>, ascending; it panics on an inverted range and on two equal excluded bounds.\<close>

fun range_panics :: "'k::linorder bound \<Rightarrow> 'k bound \<Rightarrow> bool" where
  "range_panics (Excluded s) (Excluded e) \<longleftrightarrow> s \<ge> e"
| "range_panics (Included s) (Included e) \<longleftrightarrow> s > e"
| "range_panics (Included s) (Excluded e) \<longleftrightarrow> s > e"
| "range_panics (Excluded s) (Included e) \<longleftrightarrow> s > e"
| "range_panics _ _ \<longleftrightarrow> False"

definition tree_range :: "tree \<Rightarrow> key_range \<Rightarrow> (bytes \<times> bytes) list" where
  "tree_range t r = filter (\<lambda>(k, _). kr_contains r k) (bt_entries t)"

text \<open>The loop of \<open>scan_tree\<close>: stop once the page is full, otherwise push and remember the key.\<close>

fun scan_loop :: "nat \<Rightarrow> bool \<Rightarrow> (bytes \<times> bytes option) list \<Rightarrow> bytes option \<Rightarrow> (bytes \<times> bytes) list
    \<Rightarrow> (bytes \<times> bytes option) list \<times> bytes option" where
  "scan_loop limit want items resume [] = (items, resume)"
| "scan_loop limit want items resume ((k, v) # rest) =
     (if length items \<ge> limit then (items, resume)
      else scan_loop limit want (items @ [(k, if want then Some v else None)]) (Some k) rest)"

definition scan_order :: "tree \<Rightarrow> key_range \<Rightarrow> bool \<Rightarrow> (bytes \<times> bytes) list" where
  "scan_order t r reverse = (if reverse then rev (tree_range t r) else tree_range t r)"

definition scan_tree :: "tree \<Rightarrow> scan_request \<Rightarrow> scan_page" where
  "scan_tree t rq =
     (let (items, resume) =
        scan_loop (rq_limit rq) (rq_want_values rq) [] None (scan_order t (rq_range rq) (rq_reverse rq));
        exhausted = length items < rq_limit rq
      in \<lparr>pg_items = items, pg_resume = (if exhausted then None else resume)\<rparr>)"

section \<open>The methods\<close>

definition memory_get :: "memory_backend \<Rightarrow> table \<Rightarrow> bytes \<Rightarrow> bytes option result" where
  "memory_get m tab key = with_tables m (\<lambda>t. bt_lookup (tables_get t tab) key)"

definition memory_get_many :: "memory_backend \<Rightarrow> table \<Rightarrow> bytes list \<Rightarrow> bytes option list result" where
  "memory_get_many m tab keys = with_tables m (\<lambda>t. map (bt_lookup (tables_get t tab)) keys)"

definition memory_scan_page_size :: nat where
  "memory_scan_page_size = 1024"

definition memory_scan :: "memory_backend \<Rightarrow> scan_request \<Rightarrow> scan_page result" where
  "memory_scan m rq =
     rbind (with_tables m (\<lambda>t.
         if range_panics (kr_start (rq_range rq)) (kr_end (rq_range rq)) then None
         else Some (scan_tree (tables_get t (rq_table rq)) rq)))
       (\<lambda>page. case page of None \<Rightarrow> Inl (Panicked ''range start is greater than range end in BTreeMap'')
        | Some pg \<Rightarrow> Inr pg)"

definition memory_commit :: "bop list \<Rightarrow> (memory_backend, error, unit) act" where
  "memory_commit ops m =
     (case with_tables m (\<lambda>t. apply_ops t ops) of
        Inl e \<Rightarrow> (Inl e, m)
      | Inr t \<Rightarrow> (Inr (), m\<lparr>mb_tables := t\<rparr>))"

definition memory_close :: "(memory_backend, error, unit) act" where
  "memory_close m =
     (Inr (), if mb_closed m then m else m\<lparr>mb_closed := True, mb_tables := tables_default\<rparr>)"

definition tree_bytes :: "tree \<Rightarrow> nat" where
  "tree_bytes t = sum_list (map (\<lambda>(k, v). length k + length v) (bt_entries t))"

definition memory_usage :: "memory_backend \<Rightarrow> usage option result" where
  "memory_usage m =
     rbind (with_tables m (\<lambda>t. tree_bytes (tb_meta t) + tree_bytes (tb_records t) + tree_bytes (tb_chunks t)))
       (\<lambda>used. Inr (Some \<lparr>us_used = of_nat used, us_available = None, us_persisted = False\<rparr>))"

definition memory_flush :: "(memory_backend, error, unit) act" where
  "memory_flush m = (Inr (), m)"

definition tables_size :: "tables \<Rightarrow> nat" where
  "tables_size t = bt_len (tb_meta t) + bt_len (tb_records t) + bt_len (tb_chunks t)"

definition memory_backend_vt :: "memory_backend backend" where
  "memory_backend_vt =
     \<lparr>bk_get = memory_get, bk_get_many = memory_get_many, bk_scan = memory_scan,
      bk_scan_page_size = memory_scan_page_size, bk_commit = memory_commit,
      bk_commit_with = default_commit_with memory_commit, bk_usage = memory_usage,
      bk_flush = memory_flush, bk_close = memory_close,
      bk_fuel = (\<lambda>m. Suc (tables_size (mb_tables m)))\<rparr>"

section \<open>Tables\<close>

lemma tables_get_set [simp]: "tables_get (tables_set t a x) b = (if b = a then x else tables_get t b)"
  by (cases a; cases b) simp_all

lemma tables_eqI: "(\<And>tab. tables_get s tab = tables_get t tab) \<Longrightarrow> s = (t :: tables)"
  by (metis tables.surjective tables_get.simps unit.exhaust)

lemma fold_remove_lookup:
  "bt_lookup (fold bt_remove ks t) k = (if k \<in> set ks then None else bt_lookup t k)"
  by (induction ks arbitrary: t) auto

text \<open>What each operation does to a lookup, in every table.\<close>

lemma lookup_apply_put [simp]:
  "bt_lookup (tables_get (apply_op t (Op_Put tab k v)) tab') x =
     (if tab' = tab \<and> x = k then Some v else bt_lookup (tables_get t tab') x)"
  by simp

lemma lookup_apply_delete [simp]:
  "bt_lookup (tables_get (apply_op t (Op_Delete tab k)) tab') x =
     (if tab' = tab \<and> x = k then None else bt_lookup (tables_get t tab') x)"
  by simp

lemma lookup_apply_delete_range [simp]:
  "bt_lookup (tables_get (apply_op t (Op_DeleteRange tab r)) tab') x =
     (if tab' = tab \<and> kr_contains r x then None else bt_lookup (tables_get t tab') x)"
  by (auto simp: Let_def fold_remove_lookup)

declare apply_op.simps [simp del]

lemma apply_ops_simps [simp]:
  "apply_ops t [] = t"
  "apply_ops t (x # xs) = apply_ops (apply_op t x) xs"
  "apply_ops t (xs @ ys) = apply_ops (apply_ops t xs) ys"
  by (simp_all add: apply_ops_def)

section \<open>Properties\<close>

text \<open>What an operation says of one key: nothing, that it is gone, or its value.\<close>

fun op_says :: "table \<Rightarrow> bytes \<Rightarrow> bop \<Rightarrow> bytes option option" where
  "op_says tab k (Op_Put tab' key v) = (if tab' = tab \<and> key = k then Some (Some v) else None)"
| "op_says tab k (Op_Delete tab' key) = (if tab' = tab \<and> key = k then Some None else None)"
| "op_says tab k (Op_DeleteRange tab' r) = (if tab' = tab \<and> kr_contains r k then Some None else None)"

definition last_said :: "table \<Rightarrow> bytes \<Rightarrow> bop list \<Rightarrow> bytes option option" where
  "last_said tab k ops =
     (case List.map_filter (op_says tab k) (rev ops) of [] \<Rightarrow> None | w # _ \<Rightarrow> Some w)"

lemma lookup_apply_op:
  "bt_lookup (tables_get (apply_op t op) tab) k =
     (case op_says tab k op of Some w \<Rightarrow> w | None \<Rightarrow> bt_lookup (tables_get t tab) k)"
  by (cases op) auto

lemma lookup_apply_ops:
  "bt_lookup (tables_get (apply_ops t ops) tab) k =
     (case last_said tab k ops of Some w \<Rightarrow> w | None \<Rightarrow> bt_lookup (tables_get t tab) k)"
proof (induction ops rule: rev_induct)
  case (snoc op ops)
  then show ?case
    by (simp add: last_said_def lookup_apply_op List.map_filter_simps split: option.split)
qed (simp add: last_said_def List.map_filter_simps)

text \<open>
  A commit of the memory backend that succeeds leaves every key of every table as the last operation
  that concerns it says, and as it was where none does; a closed backend refuses and changes nothing.
\<close>

theorem memory_commit_effect:
  "bk_commit memory_backend_vt ops m =
     (if mb_closed m then (Inl Closed, m) else (Inr (), m\<lparr>mb_tables := apply_ops (mb_tables m) ops\<rparr>))
   \<and> bt_lookup (tables_get (apply_ops (mb_tables m) ops) tab) k =
     (case last_said tab k ops of Some w \<Rightarrow> w | None \<Rightarrow> bt_lookup (tables_get (mb_tables m) tab) k)"
  by (simp add: memory_backend_vt_def memory_commit_def with_tables_def lookup_apply_ops)

end
