(* ===== verification/Paging.thy ===== *)
theory Paging
  imports Memory_Backend
begin

text \<open>
  The contract of a backend as a locale, the paging loop that every scanning function of the crate
  is built on (\<open>Inner::walk\<close>, \<open>lru::load\<close>, the listings of \<open>Bank\<close>), and the proof that over a
  backend that keeps the contract the loop visits every record of the range once, in order, and
  returns. The contract is interpreted on the memory backend.
\<close>

section \<open>The paging loop\<close>

text \<open>Continue after the last key of the page, whichever the direction.\<close>

definition resume_after :: "scan_request \<Rightarrow> bytes \<Rightarrow> scan_request" where
  "resume_after rq lst =
     (if rq_reverse rq then rq\<lparr>rq_range := (rq_range rq)\<lparr>kr_end := Excluded lst\<rparr>\<rparr>
      else rq\<lparr>rq_range := (rq_range rq)\<lparr>kr_start := Excluded lst\<rparr>\<rparr>)"

primrec page_loop :: "nat \<Rightarrow> 'b backend \<Rightarrow> 'b \<Rightarrow> scan_request
    \<Rightarrow> ('s \<Rightarrow> bytes \<times> bytes option \<Rightarrow> 's result) \<Rightarrow> 's \<Rightarrow> 's result" where
  "page_loop 0 B b rq visit acc = Inl Diverged"
| "page_loop (Suc n) B b rq visit acc =
     rbind (bk_scan B b rq) (\<lambda>page.
     rbind (foldM_r visit acc (pg_items page)) (\<lambda>acc'.
       case pg_resume page of
         Some lst \<Rightarrow> page_loop n B b (resume_after rq lst) visit acc'
       | None \<Rightarrow> Inr acc'))"

section \<open>Pages of a sorted tree\<close>

definition scan_item :: "bool \<Rightarrow> bytes \<times> bytes \<Rightarrow> bytes \<times> bytes option" where
  "scan_item want p = (fst p, if want then Some (snd p) else None)"

lemma scan_loop_eq:
  "scan_loop limit want items resume xs =
     (let ys = take (limit - length items) xs in
      (items @ map (scan_item want) ys, if ys = [] then resume else Some (fst (last ys))))"
proof (induction xs arbitrary: items resume)
  case (Cons x xs)
  obtain k v where x: "x = (k, v)" by (cases x)
  show ?case
  proof (cases "length items \<ge> limit")
    case False
    then obtain d where "limit - length items = Suc d"
      using Suc_diff_Suc linorder_not_le by metis
    moreover from this have "limit - Suc (length items) = d" by simp
    ultimately show ?thesis
      using False Cons by (cases d) (auto simp: x Let_def scan_item_def)
  qed (simp add: x)
qed simp

lemma scan_tree_eq:
  "scan_tree t rq =
     (let ys = scan_order t (rq_range rq) (rq_reverse rq); zs = take (rq_limit rq) ys in
      \<lparr>pg_items = map (scan_item (rq_want_values rq)) zs,
       pg_resume = (if length ys < rq_limit rq \<or> zs = [] then None else Some (fst (last zs)))\<rparr>)"
  by (auto simp: scan_tree_def scan_loop_eq Let_def min_def)

text \<open>
  A page: the first records of the range up to the limit, and the last key of a filled page to resume from. A
  filled page that ends the range may say so or leave it to the next scan to find nothing.
\<close>

definition page_of :: "tree \<Rightarrow> scan_request \<Rightarrow> scan_page \<Rightarrow> bool" where
  "page_of t rq pg \<longleftrightarrow>
     (let ys = scan_order t (rq_range rq) (rq_reverse rq); zs = take (rq_limit rq) ys in
      pg_items pg = map (scan_item (rq_want_values rq)) zs
      \<and> (pg_resume pg = None \<and> length ys \<le> rq_limit rq
         \<or> pg_resume pg = Some (fst (last zs)) \<and> zs \<noteq> [] \<and> rq_limit rq \<le> length ys))"

lemma scan_tree_page: "0 < rq_limit rq \<Longrightarrow> page_of t rq (scan_tree t rq)"
  by (auto simp: page_of_def scan_tree_eq Let_def)

lemma tree_range_sorted: "al_sorted (tree_range t r)"
  by (simp add: tree_range_def al_sorted_filter)

lemma scan_order_sorted:
  "sorted_wrt (if rv then (>) else (<)) (map fst (scan_order t r rv))"
  using tree_range_sorted [of t r] by (simp add: scan_order_def rev_map [symmetric] sorted_wrt_rev)

lemma set_scan_order: "set (scan_order t r rv) = {p. p \<in> set (bt_entries t) \<and> kr_contains r (fst p)}"
  by (auto simp: scan_order_def tree_range_def)

text \<open>Excluding the last key of a page leaves exactly what follows it.\<close>

lemma filter_after_last:
  assumes "sorted_wrt R (map fst (xs @ ys))" "xs \<noteq> []"
    and "\<And>a b. R a b \<Longrightarrow> \<not> R b a" and "\<And>a b c. R a b \<Longrightarrow> R b c \<Longrightarrow> R a c"
  shows "filter (\<lambda>p. R (fst (last xs)) (fst p)) (xs @ ys) = ys"
proof -
  obtain zs l where xs: "xs = zs @ [l]" using assms(2) by (metis append_butlast_last_id)
  have before: "R (fst p) (fst l)" if "p \<in> set zs" for p
    using assms(1) that by (auto simp: xs sorted_wrt_append)
  have after: "R (fst l) (fst p)" if "p \<in> set ys" for p
    using assms(1) that by (auto simp: xs sorted_wrt_append)
  have "filter (\<lambda>p. R (fst l) (fst p)) zs = []"
    using before assms(3) by (fastforce simp: filter_empty_conv)
  moreover have "filter (\<lambda>p. R (fst l) (fst p)) ys = ys"
    using after by (simp add: filter_id_conv)
  moreover have "\<not> R (fst l) (fst l)" using assms(3) by blast
  ultimately show ?thesis by (simp add: xs)
qed

lemma filter_tree_range:
  assumes "\<And>k. kr_contains r' k \<longleftrightarrow> kr_contains r k \<and> P k"
  shows "tree_range t r' = filter (\<lambda>p. P (fst p)) (tree_range t r)"
  unfolding tree_range_def filter_filter
  by (rule filter_cong) (simp_all only: assms case_prod_unfold conj_commute)

lemma scan_order_resume:
  assumes "scan_order t (rq_range rq) (rq_reverse rq) = xs @ ys" "xs \<noteq> []"
  shows "scan_order t (rq_range (resume_after rq (fst (last xs)))) (rq_reverse rq) = ys"
proof -
  let ?rv = "rq_reverse rq" and ?l = "fst (last xs)"
  let ?R = "if ?rv then (>) else (<) :: bytes \<Rightarrow> bytes \<Rightarrow> bool"
  have mem: "kr_contains (rq_range rq) ?l"
    using set_scan_order [of t "rq_range rq" ?rv] assms by (metis (no_types, lifting) Un_iff last_in_set mem_Collect_eq set_append)
  have "kr_contains (rq_range (resume_after rq ?l)) k \<longleftrightarrow> kr_contains (rq_range rq) k \<and> ?R ?l k" for k
  proof (cases ?rv)
    case True
    have "k < ?l \<Longrightarrow> below_end (kr_end (rq_range rq)) k"
      using mem by (cases "kr_end (rq_range rq)") (auto simp: kr_contains_def)
    with True show ?thesis by (auto simp: resume_after_def kr_contains_def)
  next
    case False
    have "?l < k \<Longrightarrow> above_start (kr_start (rq_range rq)) k"
      using mem by (cases "kr_start (rq_range rq)") (auto simp: kr_contains_def)
    with False show ?thesis by (auto simp: resume_after_def kr_contains_def)
  qed
  then have "scan_order t (rq_range (resume_after rq ?l)) ?rv
      = filter (\<lambda>p. ?R ?l (fst p)) (scan_order t (rq_range rq) ?rv)"
    by (simp add: scan_order_def filter_tree_range rev_filter [symmetric])
  also have "\<dots> = ys"
    using scan_order_sorted [of ?rv t "rq_range rq"] unfolding assms(1)
    by (intro filter_after_last) (use assms(2) in \<open>auto split: if_splits\<close>)
  finally show ?thesis .
qed

lemma resume_not_degenerate:
  assumes "kr_contains (rq_range rq) l"
  shows "\<not> range_panics (kr_start (rq_range (resume_after rq l))) (kr_end (rq_range (resume_after rq l)))"
  using assms
  by (cases "kr_start (rq_range rq)"; cases "kr_end (rq_range rq)")
    (auto simp: resume_after_def kr_contains_def)

section \<open>The contract of a backend\<close>

text \<open>
  What the engine above relies on: \<open>tabs\<close> is what the backend stores. A read that succeeds tells the
  truth, a commit applies every operation or none, a flush changes nothing that is stored, and a scan
  answers a page of the range.
\<close>

locale backend_contract =
  fixes B :: "'b backend" and tabs :: "'b \<Rightarrow> tables"
  assumes get_spec: "bk_get B b tab k = Inr v \<Longrightarrow> v = bt_lookup (tables_get (tabs b) tab) k"
    and get_many_spec: "bk_get_many B b tab ks = Inr vs \<Longrightarrow> vs = map (bt_lookup (tables_get (tabs b) tab)) ks"
    and scan_spec: "bk_scan B b rq = Inr pg \<Longrightarrow> 0 < rq_limit rq \<Longrightarrow> page_of (tables_get (tabs b) (rq_table rq)) rq pg"
    and page_size_spec: "0 < bk_scan_page_size B"
    and commit_spec: "bk_commit_with B ops opts b = (Inr u, b') \<Longrightarrow> tabs b' = apply_ops (tabs b) ops"
    and commit_error_spec: "bk_commit_with B ops opts b = (Inl e, b') \<Longrightarrow> tabs b' = tabs b"
    and plain_commit_spec: "bk_commit B ops b = (Inr u, b') \<Longrightarrow> tabs b' = apply_ops (tabs b) ops"
    and plain_commit_error_spec: "bk_commit B ops b = (Inl e, b') \<Longrightarrow> tabs b' = tabs b"
    and flush_spec: "bk_flush B b = (r, b') \<Longrightarrow> tabs b' = tabs b"
    and fuel_spec: "bt_len (tables_get (tabs b) tab) < bk_fuel B b"
begin

lemma length_scan_order: "length (scan_order (tables_get (tabs b) tab) r rv) < bk_fuel B b"
proof -
  have "length (scan_order (tables_get (tabs b) tab) r rv) \<le> bt_len (tables_get (tabs b) tab)"
    by (simp add: scan_order_def tree_range_def bt_len_def)
  then show ?thesis using fuel_spec [of b tab] by linarith
qed

text \<open>
  The loop is the fold of the visitor over the records of the range, in scan order: every record
  once, whatever the page size. Otherwise it ends with the error of a scan of the same table.
\<close>

lemma page_loop_cases:
  assumes "0 < rq_limit rq"
    and "length (scan_order (tables_get (tabs b) (rq_table rq)) (rq_range rq) (rq_reverse rq)) < n"
  shows "page_loop n B b rq visit acc =
           foldM_r visit acc (map (scan_item (rq_want_values rq))
             (scan_order (tables_get (tabs b) (rq_table rq)) (rq_range rq) (rq_reverse rq)))
         \<or> (\<exists>e rq'. page_loop n B b rq visit acc = Inl e \<and> bk_scan B b rq' = Inl e \<and>
              (rq' = rq \<or> \<not> range_panics (kr_start (rq_range rq')) (kr_end (rq_range rq'))))"
  using assms
proof (induction n arbitrary: rq acc)
  case 0
  then show ?case by simp
next
  case (Suc n)
  let ?t = "tables_get (tabs b) (rq_table rq)"
  let ?ys = "scan_order ?t (rq_range rq) (rq_reverse rq)"
  let ?zs = "take (rq_limit rq) ?ys"
  show ?case
  proof (cases "bk_scan B b rq")
    case (Inl e)
    then show ?thesis by auto
  next
    case (Inr pg)
    from scan_spec [OF this Suc.prems(1)] have items: "pg_items pg = map (scan_item (rq_want_values rq)) ?zs"
      and resume: "pg_resume pg = None \<and> length ?ys \<le> rq_limit rq \<or> pg_resume pg = Some (fst (last ?zs)) \<and> ?zs \<noteq> []"
      by (auto simp: page_of_def Let_def)
    show ?thesis
    proof (cases "pg_resume pg = None")
      case True
      have all: "?zs = ?ys" using True resume by auto
      have "page_loop (Suc n) B b rq visit acc =
          rbind (foldM_r visit acc (map (scan_item (rq_want_values rq)) ?zs)) Inr"
        using Inr True items by simp
      then show ?thesis unfolding all by simp
    next
      case False
      then have more: "pg_resume pg = Some (fst (last ?zs))" "?zs \<noteq> []" using resume by auto
      let ?rq = "resume_after rq (fst (last ?zs))"
      have split: "?ys = ?zs @ drop (rq_limit rq) ?ys" by simp
      have rest: "scan_order ?t (rq_range ?rq) (rq_reverse rq) = drop (rq_limit rq) ?ys"
        using scan_order_resume [OF split more(2)] .
      have rq: "rq_table ?rq = rq_table rq" "rq_limit ?rq = rq_limit rq" "rq_reverse ?rq = rq_reverse rq"
        "rq_want_values ?rq = rq_want_values rq"
        by (simp_all add: resume_after_def)
      have "last ?zs \<in> set ?ys" using more(2) by (metis in_set_takeD last_in_set)
      then have "kr_contains (rq_range rq) (fst (last ?zs))"
        by (simp add: set_scan_order)
      then have np: "\<not> range_panics (kr_start (rq_range ?rq)) (kr_end (rq_range ?rq))"
        by (rule resume_not_degenerate)
      have len: "length (drop (rq_limit rq) ?ys) < n"
        using Suc.prems(1,2) more(2) by (cases ?ys) auto
      have step: "page_loop (Suc n) B b rq visit acc =
          rbind (foldM_r visit acc (map (scan_item (rq_want_values rq)) ?zs))
            (\<lambda>acc'. page_loop n B b ?rq visit acc')"
        using Inr items more(1) by simp
      have whole: "foldM_r visit acc (map (scan_item (rq_want_values rq)) ?ys) =
          rbind (foldM_r visit acc (map (scan_item (rq_want_values rq)) ?zs))
            (\<lambda>acc'. foldM_r visit acc' (map (scan_item (rq_want_values rq)) (drop (rq_limit rq) ?ys)))"
        by (subst split) (simp only: map_append foldM_r_append)
      show ?thesis
      proof (cases "foldM_r visit acc (map (scan_item (rq_want_values rq)) ?zs)")
        case (Inl e)
        then show ?thesis using step whole by simp
      next
        case (Inr acc')
        then show ?thesis
          using step whole Suc.IH [of ?rq acc'] Suc.prems(1) len np unfolding rq rest by auto
      qed
    qed
  qed
qed

end

text \<open>A backend in a state where reads and commits are answered: open, and not failing.\<close>

locale live_backend = backend_contract +
  fixes ready :: "'b \<Rightarrow> bool"
  assumes get_ready: "ready b \<Longrightarrow> \<exists>v. bk_get B b tab k = Inr v"
    and get_many_ready: "ready b \<Longrightarrow> \<exists>vs. bk_get_many B b tab ks = Inr vs"
    and scan_ready: "ready b \<Longrightarrow> \<not> range_panics (kr_start (rq_range rq)) (kr_end (rq_range rq))
          \<Longrightarrow> \<exists>pg. bk_scan B b rq = Inr pg"
    and commit_ready: "ready b \<Longrightarrow> \<exists>b'. bk_commit_with B ops opts b = (Inr (), b') \<and> ready b'"
    and plain_commit_ready: "ready b \<Longrightarrow> \<exists>b'. bk_commit B ops b = (Inr (), b') \<and> ready b'"
begin

lemma get_live: "ready b \<Longrightarrow> bk_get B b tab k = Inr (bt_lookup (tables_get (tabs b) tab) k)"
  using get_ready get_spec by metis

lemma get_many_live:
  "ready b \<Longrightarrow> bk_get_many B b tab ks = Inr (map (bt_lookup (tables_get (tabs b) tab)) ks)"
  using get_many_ready get_many_spec by metis

lemma commit_live:
  assumes "ready b"
  obtains b' where "bk_commit_with B ops opts b = (Inr (), b')" "ready b'"
    "tabs b' = apply_ops (tabs b) ops"
  using commit_ready [OF assms] commit_spec by metis

lemma plain_commit_live:
  assumes "ready b"
  obtains b' where "bk_commit B ops b = (Inr (), b')" "ready b'" "tabs b' = apply_ops (tabs b) ops"
  using plain_commit_ready [OF assms] plain_commit_spec by metis

lemma page_loop_live:
  assumes "ready b" "0 < rq_limit rq"
    and "\<not> range_panics (kr_start (rq_range rq)) (kr_end (rq_range rq))"
  shows "page_loop (bk_fuel B b) B b rq visit acc =
           foldM_r visit acc (map (scan_item (rq_want_values rq))
             (scan_order (tables_get (tabs b) (rq_table rq)) (rq_range rq) (rq_reverse rq)))"
  using page_loop_cases [OF assms(2) length_scan_order, where visit = visit and acc = acc]
    scan_ready [OF assms(1)] assms(3)
  by (metis Inl_Inr_False)

end

interpretation mem: live_backend memory_backend_vt mb_tables "\<lambda>m. \<not> mb_closed m"
proof unfold_locales
  fix m :: memory_backend and tab :: table
  have "bt_len (tables_get (mb_tables m) tab) \<le> tables_size (mb_tables m)"
    by (cases tab) (simp_all add: tables_size_def)
  then show "bt_len (tables_get (mb_tables m) tab) < bk_fuel memory_backend_vt m"
    by (simp add: memory_backend_vt_def)
qed (auto simp: scan_tree_page memory_backend_vt_def memory_get_def memory_get_many_def memory_scan_def memory_commit_def
      memory_scan_page_size_def memory_flush_def default_commit_with_def with_tables_def split: if_splits)

end
