(* ===== verification/Codec.thy ===== *)
theory Codec
  imports Errors
begin

text \<open>
  \<open>src/codec/\<close>: the value envelope and its filter chain (\<open>api.rs\<close>), the two shipped filters
  (\<open>filters.rs\<close>), the serde step (\<open>value.rs\<close>) and the default chain (\<open>mod.rs\<close>). Third-party
  code is a parameter: \<open>hash\<close> is \<open>crc32fast::hash\<close>; \<open>compress\<close>, \<open>decompress\<close> are the size-prefixed
  functions of \<open>lz4_flex\<close>; a serde value type is the record \<open>serde\<close> of postcard's two functions
  on it. A failure of those is its message.
\<close>

section \<open>The envelope\<close>

definition MAGIC :: bytes where
  "MAGIC = as_bytes ''CBNK''"

definition VERSION :: byte where
  "VERSION = 1"

definition HEADER_LEN :: nat where
  "HEADER_LEN = 6"

definition header :: "byte \<Rightarrow> bytes" where
  "header chain_id = MAGIC @ [VERSION, chain_id]"

definition MAX_DECODED_BYTES :: nat where
  "MAX_DECODED_BYTES = 256 * 1024 * 1024"

text \<open>\<open>trait Filter\<close>.\<close>

record codec_filter =
  fl_name :: string
  fl_forward :: "bytes \<Rightarrow> bytes result"
  fl_reverse :: "bytes \<Rightarrow> bytes result"
  fl_forward_owned :: "bytes \<Rightarrow> bytes result"
  fl_reverse_owned :: "bytes \<Rightarrow> bytes result"

text \<open>A filter that leaves the two owning methods at their defaults.\<close>

definition borrowing_filter ::
    "string \<Rightarrow> (bytes \<Rightarrow> bytes result) \<Rightarrow> (bytes \<Rightarrow> bytes result) \<Rightarrow> codec_filter" where
  "borrowing_filter name forward backward =
     \<lparr>fl_name = name, fl_forward = forward, fl_reverse = backward,
      fl_forward_owned = (\<lambda>input. forward input), fl_reverse_owned = (\<lambda>input. backward input)\<rparr>"

record filter_chain =
  ch_id :: byte
  ch_filters :: "codec_filter list"

definition chain_new :: "byte \<Rightarrow> codec_filter list \<Rightarrow> filter_chain" where
  "chain_new i fs = \<lparr>ch_id = i, ch_filters = fs\<rparr>"

definition chain_raw :: filter_chain where
  "chain_raw = chain_new 0 []"

primrec join :: "string \<Rightarrow> string list \<Rightarrow> string" where
  "join sep [] = []"
| "join sep (x # xs) = (if xs = [] then x else x @ sep @ join sep xs)"

definition describe :: "filter_chain \<Rightarrow> string" where
  "describe ch =
     (if ch_filters ch = [] then ''chain '' @ show_nat (unat (ch_id ch)) @ '' (raw)''
      else ''chain '' @ show_nat (unat (ch_id ch)) @ '' ('' @ join '' -> '' (map fl_name (ch_filters ch)) @ '')'')"

definition seal :: "filter_chain \<Rightarrow> bytes \<Rightarrow> bytes result" where
  "seal ch payload =
     rbind (foldM_r (\<lambda>body f. fl_forward_owned f body) payload (ch_filters ch))
       (\<lambda>body. Inr (header (ch_id ch) @ body))"

definition seal_slice :: "filter_chain \<Rightarrow> bytes \<Rightarrow> bytes result" where
  "seal_slice ch payload = seal ch payload"

definition chain_open :: "filter_chain \<Rightarrow> bytes \<Rightarrow> bytes result" where
  "chain_open ch stored =
     (if length stored < HEADER_LEN then
        Inl (Corrupt (''value is '' @ show_nat (length stored) @ '' bytes, shorter than the '' @
          show_nat HEADER_LEN @ '' byte header''))
      else if take 4 stored \<noteq> MAGIC then
        Inl (Corrupt ''value does not carry the crossbank magic'')
      else if stored ! 4 \<noteq> VERSION then Inl (UnsupportedVersion (stored ! 4) VERSION)
      else if stored ! 5 \<noteq> ch_id ch then
        Inl (SchemaMismatch (''chain '' @ show_nat (unat (stored ! 5))) (describe ch))
      else foldM_r (\<lambda>body f. fl_reverse_owned f body) (drop HEADER_LEN stored) (rev (ch_filters ch)))"

section \<open>The shipped filters\<close>

definition lz4_reverse :: "(bytes \<Rightarrow> string + bytes) \<Rightarrow> bytes \<Rightarrow> bytes result" where
  "lz4_reverse decompress input =
     (if length input < 4 then Inl (Corrupt ''lz4 payload has no length prefix'')
      else
        let declared = unat (from_le32 (take 4 input)) in
        if declared > MAX_DECODED_BYTES then
          Inl (Corrupt (''lz4 payload declares '' @ show_nat declared @ '' bytes, over the '' @
            show_nat MAX_DECODED_BYTES @ '' byte limit''))
        else (case decompress input of
            Inl e \<Rightarrow> Inl (Corrupt (''lz4 decompression failed: '' @ e))
          | Inr out \<Rightarrow> Inr out))"

definition Lz4 :: "(bytes \<Rightarrow> bytes) \<Rightarrow> (bytes \<Rightarrow> string + bytes) \<Rightarrow> codec_filter" where
  "Lz4 compress decompress =
     borrowing_filter ''lz4'' (\<lambda>input. Inr (compress input)) (lz4_reverse decompress)"

text \<open>\<open>{:#010x}\<close>.\<close>

definition hex_digit :: "nat \<Rightarrow> char" where
  "hex_digit d = (if d < 10 then char_of (48 + d) else char_of (87 + d))"

definition show_hex32 :: "u32 \<Rightarrow> string" where
  "show_hex32 w = ''0x'' @ map (\<lambda>i. hex_digit (unat w div 16 ^ i mod 16)) (rev [0..<8])"

definition crc_verify :: "(bytes \<Rightarrow> u32) \<Rightarrow> bytes \<Rightarrow> bytes result" where
  "crc_verify hash input =
     (if length input < 4 then Inl (Corrupt ''value is too short to carry a CRC32'')
      else
        let split = length input - 4; body = take split input; tail = drop split input;
            expected = from_le32 tail; actual = hash body in
        if expected \<noteq> actual then
          Inl (Corrupt (''CRC32 mismatch: stored '' @ show_hex32 expected @ '', computed '' @ show_hex32 actual))
        else Inr body)"

definition crc_forward :: "(bytes \<Rightarrow> u32) \<Rightarrow> bytes \<Rightarrow> bytes result" where
  "crc_forward hash input = (let sum = hash input in Inr ([] @ input @ le32 sum))"

definition crc_reverse :: "(bytes \<Rightarrow> u32) \<Rightarrow> bytes \<Rightarrow> bytes result" where
  "crc_reverse hash input = rbind (crc_verify hash input) (\<lambda>body. Inr body)"

definition crc_forward_owned :: "(bytes \<Rightarrow> u32) \<Rightarrow> bytes \<Rightarrow> bytes result" where
  "crc_forward_owned hash input = (let sum = hash input in Inr (input @ le32 sum))"

definition crc_reverse_owned :: "(bytes \<Rightarrow> u32) \<Rightarrow> bytes \<Rightarrow> bytes result" where
  "crc_reverse_owned hash input = rbind (crc_verify hash input) (\<lambda>body. Inr (take (length body) input))"

definition Crc32 :: "(bytes \<Rightarrow> u32) \<Rightarrow> codec_filter" where
  "Crc32 hash =
     \<lparr>fl_name = ''crc32'', fl_forward = crc_forward hash, fl_reverse = crc_reverse hash,
      fl_forward_owned = crc_forward_owned hash, fl_reverse_owned = crc_reverse_owned hash\<rparr>"

section \<open>The shipped chains\<close>

definition DEFAULT_CHAIN_ID :: byte where
  "DEFAULT_CHAIN_ID = 1"

definition CHECKSUM_ONLY_CHAIN_ID :: byte where
  "CHECKSUM_ONLY_CHAIN_ID = 2"

definition checksum_only :: "(bytes \<Rightarrow> u32) \<Rightarrow> filter_chain" where
  "checksum_only hash = chain_new CHECKSUM_ONLY_CHAIN_ID [Crc32 hash]"

definition default_chain ::
    "(bytes \<Rightarrow> bytes) \<Rightarrow> (bytes \<Rightarrow> string + bytes) \<Rightarrow> (bytes \<Rightarrow> u32) \<Rightarrow> filter_chain" where
  "default_chain compress decompress hash = chain_new DEFAULT_CHAIN_ID [Lz4 compress decompress, Crc32 hash]"

section \<open>The serde step\<close>

record 't serde =
  sd_to_vec :: "'t \<Rightarrow> string + bytes"
  sd_from_bytes :: "bytes \<Rightarrow> string + 't"
  sd_type_name :: string

definition value_encode :: "'t serde \<Rightarrow> 't \<Rightarrow> filter_chain \<Rightarrow> bytes result" where
  "value_encode sd v ch =
     (case sd_to_vec sd v of
        Inl e \<Rightarrow> Inl (FilterFailed (''postcard serialisation failed: '' @ e))
      | Inr payload \<Rightarrow> seal ch payload)"

definition value_decode :: "'t serde \<Rightarrow> bytes \<Rightarrow> filter_chain \<Rightarrow> 't result" where
  "value_decode sd stored ch =
     rbind (chain_open ch stored) (\<lambda>payload.
       case sd_from_bytes sd payload of
         Inl e \<Rightarrow> Inl (Corrupt (''postcard deserialisation failed: '' @ e))
       | Inr v \<Rightarrow> Inr v)"

definition type_tag :: "'t serde \<Rightarrow> string" where
  "type_tag sd = sd_type_name sd"

section \<open>Lemmas\<close>

lemma length_MAGIC [simp]: "length MAGIC = 4"
  by (simp add: MAGIC_def as_bytes_def)

lemma chain_open_header:
  "chain_open ch (header i @ body) =
     (if i \<noteq> ch_id ch then Inl (SchemaMismatch (''chain '' @ show_nat (unat i)) (describe ch))
      else foldM_r (\<lambda>body f. fl_reverse_owned f body) body (rev (ch_filters ch)))"
  by (simp add: chain_open_def header_def HEADER_LEN_def nth_append)

text \<open>The contract \<open>reverse\<close> must invert \<open>forward\<close>, along the bytes a payload becomes.\<close>

primrec chain_inverts :: "codec_filter list \<Rightarrow> bytes \<Rightarrow> bool" where
  "chain_inverts [] p \<longleftrightarrow> True"
| "chain_inverts (f # fs) p \<longleftrightarrow>
     (case fl_forward_owned f p of Inl e \<Rightarrow> True
      | Inr y \<Rightarrow> fl_reverse_owned f y = Inr p \<and> chain_inverts fs y)"

lemma reverse_forward:
  "chain_inverts fs p \<Longrightarrow> foldM_r (\<lambda>b f. fl_forward_owned f b) p fs = Inr s
     \<Longrightarrow> foldM_r (\<lambda>b f. fl_reverse_owned f b) s (rev fs) = Inr p"
proof (induction fs arbitrary: p)
  case (Cons f fs)
  then obtain y where y: "fl_forward_owned f p = Inr y" "foldM_r (\<lambda>b f. fl_forward_owned f b) y fs = Inr s"
    by (auto simp: rbind_eq_Inr_iff)
  with Cons have "foldM_r (\<lambda>b f. fl_reverse_owned f b) s (rev fs) = Inr y" "fl_reverse_owned f y = Inr p"
    by auto
  then show ?case by (simp add: foldM_r_append)
qed simp

lemma crc_verify_append [simp]: "crc_verify hash (body @ le32 (hash body)) = Inr body"
  by (simp add: crc_verify_def Let_def)

lemma crc_verify_Inr_iff: "crc_verify hash input = Inr body \<longleftrightarrow> input = body @ le32 (hash body)"
proof
  assume v: "crc_verify hash input = Inr body"
  let ?n = "length input - 4"
  from v have len: "4 \<le> length input" and body: "body = take ?n input"
    and sum: "from_le32 (drop ?n input) = hash body"
    by (auto simp: crc_verify_def Let_def split: if_splits)
  have "le32 (hash body) = drop ?n input"
    using len by (simp add: sum [symmetric] le32_def from_le32_def be32_from_be32)
  then show "input = body @ le32 (hash body)" by (simp add: body)
qed simp

lemma crc32_methods [simp]:
  "fl_forward_owned (Crc32 hash) b = Inr (b @ le32 (hash b))"
  "fl_forward (Crc32 hash) b = Inr (b @ le32 (hash b))"
  "fl_reverse (Crc32 hash) b = crc_verify hash b"
  "fl_reverse_owned (Crc32 hash) b = crc_verify hash b"
proof -
  show "fl_reverse_owned (Crc32 hash) b = crc_verify hash b"
    by (cases "crc_verify hash b")
      (auto simp: Crc32_def crc_reverse_owned_def crc_verify_Inr_iff)
qed (simp_all add: Crc32_def crc_forward_owned_def crc_forward_def crc_reverse_def)

lemma crc32_inverts [simp]: "chain_inverts (Crc32 hash # fs) p \<longleftrightarrow> chain_inverts fs (p @ le32 (hash p))"
  by simp

text \<open>
  What \<open>lz4_flex\<close> documents of its size-prefixed pair, as a contract: the prefix is the length,
  and decompression inverts compression.
\<close>

locale lz4_contract =
  fixes compress :: "bytes \<Rightarrow> bytes" and decompress :: "bytes \<Rightarrow> string + bytes"
  assumes prefix_len: "length x < 2 ^ 32 \<Longrightarrow> take 4 (compress x) = le32 (of_nat (length x))"
    and inverse: "length x < 2 ^ 32 \<Longrightarrow> decompress (compress x) = Inr x"
begin

lemma reverse_compress:
  assumes "length x < 2 ^ 32"
  shows "lz4_reverse decompress (compress x) =
     (if length x \<le> MAX_DECODED_BYTES then Inr x
      else Inl (Corrupt (''lz4 payload declares '' @ show_nat (length x) @ '' bytes, over the '' @
            show_nat MAX_DECODED_BYTES @ '' byte limit'')))"
proof -
  have "length (take 4 (compress x)) = 4"
    by (simp only: prefix_len [OF assms] length_le32)
  then have "\<not> length (compress x) < 4" by simp
  moreover have "unat (of_nat (length x) :: u32) = length x"
    using assms by (simp add: unat_of_nat)
  ultimately show ?thesis
    by (simp add: lz4_reverse_def prefix_len [OF assms] inverse [OF assms])
qed

lemma lz4_methods:
  assumes "length p \<le> MAX_DECODED_BYTES"
  shows "fl_forward_owned (Lz4 compress decompress) p = Inr (compress p)"
    "fl_reverse_owned (Lz4 compress decompress) (compress p) = Inr p"
  using reverse_compress [of p] assms by (simp_all add: Lz4_def borrowing_filter_def MAX_DECODED_BYTES_def)

lemma default_chain_inverts:
  assumes "length p \<le> MAX_DECODED_BYTES"
  shows "chain_inverts (ch_filters (default_chain compress decompress hash)) p"
  using lz4_methods [OF assms] by (simp add: default_chain_def chain_new_def)

lemma seal_default:
  assumes "length p \<le> MAX_DECODED_BYTES"
  shows "seal (default_chain compress decompress hash) p =
     Inr (header DEFAULT_CHAIN_ID @ compress p @ le32 (hash (compress p)))"
  using lz4_methods [OF assms] by (simp add: default_chain_def chain_new_def seal_def)

end

text \<open>The stored-block instance: a length prefix and the bytes themselves.\<close>

definition store_block :: "bytes \<Rightarrow> bytes" where
  "store_block x = le32 (of_nat (length x)) @ x"

definition load_block :: "bytes \<Rightarrow> string + bytes" where
  "load_block x = (if length x < 4 then Inl ''short'' else Inr (drop 4 x))"

interpretation stored_block: lz4_contract store_block load_block
  by unfold_locales (simp_all add: store_block_def load_block_def)

lemma value_decode_encode:
  assumes "value_encode sd v ch = Inr s" "sd_to_vec sd v = Inr p" "chain_inverts (ch_filters ch) p"
    "sd_from_bytes sd p = Inr v"
  shows "value_decode sd s ch = Inr v"
proof -
  obtain b where b: "foldM_r (\<lambda>b f. fl_forward_owned f b) p (ch_filters ch) = Inr b" "s = header (ch_id ch) @ b"
    using assms(1,2) by (auto simp: value_encode_def seal_def rbind_eq_Inr_iff)
  then have "chain_open ch s = Inr p"
    using reverse_forward [OF assms(3) b(1)] by (simp add: chain_open_header)
  then show ?thesis by (simp add: value_decode_def assms)
qed

lemma chain_open_seal:
  assumes "chain_inverts (ch_filters ch) p" "seal ch p = Inr s"
  shows "chain_open ch s = Inr p"
  using assms reverse_forward [OF assms(1)] by (auto simp: seal_def rbind_eq_Inr_iff chain_open_header)

section \<open>Properties\<close>

text \<open>
  A value sealed under a chain whose filters invert along its bytes is opened to the same bytes by
  that chain, and refused with a schema mismatch by every chain with another id.
\<close>

theorem chain_round_trip:
  assumes "chain_inverts (ch_filters ch) p" "seal ch p = Inr s"
  shows "chain_open ch s = Inr p
    \<and> (if ch_id other = ch_id ch then True
       else chain_open other s = Inl (SchemaMismatch (''chain '' @ show_nat (unat (ch_id ch))) (describe other)))"
  using assms chain_open_seal [OF assms] by (auto simp: seal_def rbind_eq_Inr_iff chain_open_header)

theorem chain_round_trip_witness:
  "chain_open (checksum_only (\<lambda>_. 7)) (header 2 @ [1, 2] @ le32 7) = Inr [1, 2]"
  using chain_round_trip [of "checksum_only (\<lambda>_. 7)" "[1, 2]" "header 2 @ [1, 2] @ le32 7" chain_raw]
  by (simp add: checksum_only_def chain_new_def seal_def CHECKSUM_ONLY_CHAIN_ID_def crc_verify_Inr_iff)

lemma chain_open_header_only:
  assumes "chain_open ch s = Inr p"
  obtains body where "s = header (ch_id ch) @ body"
proof -
  have len: "6 \<le> length s" and m: "take 4 s = MAGIC" and v: "s ! 4 = VERSION" and i: "s ! 5 = ch_id ch"
    using assms by (auto simp: chain_open_def HEADER_LEN_def split: if_splits)
  have "s = take 4 s @ s ! 4 # s ! 5 # drop 6 s"
    using len id_take_nth_drop [of 4 s] Cons_nth_drop_Suc [of 5 s] by simp
  then have "s = header (ch_id ch) @ drop 6 s"
    by (simp add: header_def m v i)
  then show thesis by (rule that)
qed

text \<open>
  The checksummed chain opens exactly the envelopes with its header whose last four bytes are the
  CRC of the rest: whatever else is stored is an error, never a wrong value.
\<close>

theorem checksum_open_exact:
  "chain_open (checksum_only hash) s = Inr p \<longleftrightarrow> s = header CHECKSUM_ONLY_CHAIN_ID @ p @ le32 (hash p)"
proof
  assume o: "chain_open (checksum_only hash) s = Inr p"
  then obtain body where s: "s = header CHECKSUM_ONLY_CHAIN_ID @ body"
    by (rule chain_open_header_only) (simp add: checksum_only_def chain_new_def)
  with o have "crc_verify hash body = Inr p"
    by (simp add: chain_open_header checksum_only_def chain_new_def)
  then show "s = header CHECKSUM_ONLY_CHAIN_ID @ p @ le32 (hash p)"
    by (simp add: s crc_verify_Inr_iff)
qed (simp add: chain_open_header checksum_only_def chain_new_def)

text \<open>
  C38: Under what \<open>lz4_flex\<close> documents of its size-prefixed pair, the default chain (LZ4, then CRC32)
  gives every value of at most 256 MiB back, and refuses to open what it has itself sealed of a longer one.
\<close>

theorem default_chain_round_trip:
  assumes "lz4_contract compress decompress" "length p < 2 ^ 32"
  shows "\<exists>s. seal (default_chain compress decompress hash) p = Inr s
    \<and> chain_open (default_chain compress decompress hash) s =
      (if length p \<le> MAX_DECODED_BYTES then Inr p
       else Inl (Corrupt (''lz4 payload declares '' @ show_nat (length p) @ '' bytes, over the '' @
            show_nat MAX_DECODED_BYTES @ '' byte limit'')))"
proof -
  have "lz4_reverse decompress (compress p) =
      (if length p \<le> MAX_DECODED_BYTES then Inr p
       else Inl (Corrupt (''lz4 payload declares '' @ show_nat (length p) @ '' bytes, over the '' @
            show_nat MAX_DECODED_BYTES @ '' byte limit'')))"
    using assms by (rule lz4_contract.reverse_compress)
  then show ?thesis
    by (simp add: seal_def default_chain_def chain_new_def chain_open_header Lz4_def borrowing_filter_def)
qed

theorem default_chain_round_trip_witness:
  "\<exists>s. seal (default_chain store_block load_block (\<lambda>_. 7)) [1, 2] = Inr s
    \<and> chain_open (default_chain store_block load_block (\<lambda>_. 7)) s = Inr [1, 2]"
  using default_chain_round_trip [OF stored_block.lz4_contract_axioms, of "[1, 2]" "\<lambda>_. 7"]
  by (simp add: MAX_DECODED_BYTES_def)

end
