(* ===== verification/Chunk.thy ===== *)
theory Chunk
  imports Paging Codec
begin

text \<open>
  \<open>src/locker/chunk.rs\<close>: the chunk pointer, the keys of the chunk table and \<open>ValueIds\<close>, the
  bank-wide allocator. The allocator is its cursor, an \<open>Option<u64>\<close>; \<open>allocate\<close> is both the
  whole call, as one handle sees it, and (in \<open>alloc_step\<close>) the three atomic steps it is made of,
  interleaved with other callers and with commits that land late.
\<close>

definition POINTER_MAGIC :: bytes where
  "POINTER_MAGIC = as_bytes ''CCHK''"

definition POINTER_VERSION :: byte where
  "POINTER_VERSION = 1"

definition POINTER_LEN :: nat where
  "POINTER_LEN = 26"

definition FLAG_POSTCARD :: byte where
  "FLAG_POSTCARD = 0"

definition FLAG_RAW :: byte where
  "FLAG_RAW = 1"

definition next_value_id_key :: bytes where
  "next_value_id_key = as_bytes ''next_value_id''"

section \<open>Pointers\<close>

record chunk_pointer =
  cp_value_id :: u64
  cp_n_chunks :: u32
  cp_total_len :: u64
  cp_flags :: byte

definition pointer_encode :: "chunk_pointer \<Rightarrow> bytes" where
  "pointer_encode p =
     POINTER_MAGIC @ [POINTER_VERSION] @ [cp_flags p] @ be64 (cp_value_id p) @ be32 (cp_n_chunks p)
       @ be64 (cp_total_len p)"

text \<open>The half-open slice \<open>raw[a..b]\<close>.\<close>

definition slice :: "nat \<Rightarrow> nat \<Rightarrow> bytes \<Rightarrow> bytes" where
  "slice a b raw = take (b - a) (drop a raw)"

definition pointer_parse :: "bytes \<Rightarrow> chunk_pointer result" where
  "pointer_parse raw =
     (if length raw \<noteq> POINTER_LEN \<or> take 4 raw \<noteq> POINTER_MAGIC then Inl (Corrupt ''not a chunk pointer'')
      else if raw ! 4 \<noteq> POINTER_VERSION then Inl (UnsupportedVersion (raw ! 4) POINTER_VERSION)
      else
        let n_chunks = from_be32 (slice 14 18 raw); total_len = from_be64 (slice 18 26 raw) in
        if unat total_len > MAX_DECODED_BYTES then
          Inl (Corrupt (''chunk pointer declares '' @ show_nat (unat total_len) @ '' bytes, over the '' @
            show_nat MAX_DECODED_BYTES @ '' byte limit''))
        else if unat n_chunks > unat total_len then
          Inl (Corrupt (''chunk pointer declares '' @ show_nat (unat n_chunks) @ '' chunks for '' @
            show_nat (unat total_len) @ '' bytes; a chunk holds at least one byte''))
        else Inr \<lparr>cp_value_id = from_be64 (slice 6 14 raw), cp_n_chunks = n_chunks,
                  cp_total_len = total_len, cp_flags = raw ! 5\<rparr>)"

definition is_pointer :: "bytes \<Rightarrow> bool" where
  "is_pointer raw \<longleftrightarrow> length raw \<ge> 4 \<and> take 4 raw = POINTER_MAGIC"

definition chunk_key :: "u64 \<Rightarrow> u32 \<Rightarrow> bytes" where
  "chunk_key value_id seq = be64 value_id @ be32 seq"

definition chunk_range :: "u64 \<Rightarrow> key_range" where
  "chunk_range value_id = kr_prefix (be64 value_id)"

definition gc_ops :: "chunk_pointer \<Rightarrow> bop" where
  "gc_ops p = Op_DeleteRange Chunks (chunk_range (cp_value_id p))"

section \<open>The allocator\<close>

type_synonym value_ids = "u64 option"

definition counter_op_for :: "u64 \<Rightarrow> bop" where
  "counter_op_for nxt = Op_Put Meta next_value_id_key (be64 nxt)"

definition parse_counter :: "bytes option \<Rightarrow> u64 result" where
  "parse_counter raw =
     (case raw of
        None \<Rightarrow> Inr 0
      | Some bs \<Rightarrow> if length bs = 8 then Inr (from_be64 bs)
                  else Inl (Corrupt ''next_value_id is not an 8-byte integer''))"

definition advance :: "u64 \<Rightarrow> u64 result" where
  "advance i = (case checked_succ i of Some j \<Rightarrow> Inr j | None \<Rightarrow> Inl (Backend ''value id space is exhausted''))"

definition vid_take :: "(value_ids, error, u64 option) act" where
  "vid_take nxt =
     (case nxt of
        None \<Rightarrow> (Inr None, nxt)
      | Some i \<Rightarrow> (case advance i of Inl e \<Rightarrow> (Inl e, nxt) | Inr j \<Rightarrow> (Inr (Some i), Some j)))"

definition seed_and_take :: "u64 \<Rightarrow> (value_ids, error, u64) act" where
  "seed_and_take stored nxt =
     (let i = (case nxt of Some current \<Rightarrow> max current stored | None \<Rightarrow> stored) in
      case advance i of Inl e \<Rightarrow> (Inl e, nxt) | Inr j \<Rightarrow> (Inr i, Some j))"

definition highest_stored_id :: "'b backend \<Rightarrow> 'b \<Rightarrow> u64 option result" where
  "highest_stored_id B b =
     rbind (bk_scan B b \<lparr>rq_table = Chunks, rq_range = kr_all, rq_reverse = True, rq_limit = 1,
                         rq_want_values = False\<rparr>)
       (\<lambda>page. case pg_items page of
          [] \<Rightarrow> Inr None
        | (key, _) # _ \<Rightarrow>
          if length key < 8 then Inl (Corrupt ''a chunk key is shorter than a value id'')
          else Inr (Some (from_be64 (take 8 key))))"

definition seed_floor :: "'b backend \<Rightarrow> 'b \<Rightarrow> u64 result" where
  "seed_floor B b =
     rbind (bk_get B b Meta next_value_id_key) (\<lambda>raw.
     rbind (parse_counter raw) (\<lambda>stored.
     rbind (highest_stored_id B b) (\<lambda>high.
       case high of
         Some i \<Rightarrow> rbind (advance i) (\<lambda>j. Inr (max stored j))
       | None \<Rightarrow> Inr stored)))"

definition allocate :: "'b backend \<Rightarrow> 'b \<Rightarrow> (value_ids, error, u64) act" where
  "allocate B b =
     sbind vid_take (\<lambda>taken.
       case taken of
         Some i \<Rightarrow> sret i
       | None \<Rightarrow> (\<lambda>nxt. case seed_floor B b of Inl e \<Rightarrow> (Inl e, nxt) | Inr f \<Rightarrow> seed_and_take f nxt))"

definition vid_counter_op :: "value_ids \<Rightarrow> bop option" where
  "vid_counter_op nxt = map_option counter_op_for nxt"

section \<open>Pointer lemmas\<close>

lemma length_POINTER_MAGIC [simp]: "length POINTER_MAGIC = 4"
  by (simp add: POINTER_MAGIC_def as_bytes_def)

lemma length_pointer_encode [simp]: "length (pointer_encode p) = POINTER_LEN"
  by (simp add: pointer_encode_def POINTER_LEN_def)

lemma is_pointer_encode [simp]: "is_pointer (pointer_encode p)"
  by (simp add: is_pointer_def pointer_encode_def)

lemma envelope_not_pointer [simp]: "\<not> is_pointer (header i @ b)"
  by (simp add: is_pointer_def header_def MAGIC_def POINTER_MAGIC_def as_bytes_def)

definition pointer_ok :: "chunk_pointer \<Rightarrow> bool" where
  "pointer_ok p \<longleftrightarrow> unat (cp_total_len p) \<le> MAX_DECODED_BYTES \<and> unat (cp_n_chunks p) \<le> unat (cp_total_len p)"

lemma slice_append:
  "length xs = a \<Longrightarrow> length ys = b - a \<Longrightarrow> slice a b (xs @ ys @ zs) = ys"
  by (simp add: slice_def)

lemma pointer_fields:
  "slice 6 14 (pointer_encode p) = be64 (cp_value_id p)"
  "slice 14 18 (pointer_encode p) = be32 (cp_n_chunks p)"
  "slice 18 26 (pointer_encode p) = be64 (cp_total_len p)"
  "pointer_encode p ! 4 = POINTER_VERSION" "pointer_encode p ! 5 = cp_flags p"
  "take 4 (pointer_encode p) = POINTER_MAGIC"
  by (simp_all add: pointer_encode_def slice_def nth_append)

lemma pointer_parse_encode:
  "pointer_ok p \<Longrightarrow> pointer_parse (pointer_encode p) = Inr p"
  by (simp add: pointer_parse_def pointer_fields pointer_ok_def Let_def)

lemma slice_whole:
  assumes "length raw = 26"
  shows "raw = take 4 raw @ [raw ! 4] @ [raw ! 5] @ slice 6 14 raw @ slice 14 18 raw @ slice 18 26 raw"
proof -
  have step: "take n (drop k raw) @ drop (k + n) raw = drop k raw" for n k
    using append_take_drop_id [of n "drop k raw"] by (simp add: add.commute)
  have "slice 6 14 raw @ slice 14 18 raw @ slice 18 26 raw = drop 6 raw"
    using step [of 8 6] step [of 4 14] assms by (simp add: slice_def)
  moreover have "raw = take 4 raw @ [raw ! 4] @ [raw ! 5] @ drop 6 raw"
    using assms id_take_nth_drop [of 4 raw] Cons_nth_drop_Suc [of 5 raw] by simp
  ultimately show ?thesis by simp
qed

lemma pointer_parse_Inr_iff:
  "pointer_parse raw = Inr p \<longleftrightarrow> pointer_ok p \<and> raw = pointer_encode p"
proof
  assume h: "pointer_parse raw = Inr p"
  then have len: "length raw = 26" by (auto simp: pointer_parse_def POINTER_LEN_def split: if_splits)
  then have l: "length (slice 6 14 raw) = 8" "length (slice 14 18 raw) = 4" "length (slice 18 26 raw) = 8"
    by (simp_all add: slice_def)
  from h l have "pointer_encode p = take 4 raw @ [raw ! 4] @ [raw ! 5] @ slice 6 14 raw @ slice 14 18 raw @ slice 18 26 raw"
    by (auto simp: pointer_parse_def pointer_encode_def Let_def be32_from_be32 be64_from_be64 split: if_splits)
  with slice_whole [OF len] have "raw = pointer_encode p" by simp
  moreover have "pointer_ok p"
    using h by (auto simp: pointer_parse_def pointer_ok_def Let_def split: if_splits)
  ultimately show "pointer_ok p \<and> raw = pointer_encode p" by blast
qed (auto simp: pointer_parse_encode)

lemma chunk_key_inject [simp]: "chunk_key v s = chunk_key v' s' \<longleftrightarrow> v = v' \<and> s = s'"
  by (metis append_eq_append_conv be32_inject be64_inject chunk_key_def length_be64)

lemma length_chunk_key [simp]: "length (chunk_key v s) = 12"
  by (simp add: chunk_key_def)

lemma chunk_range_key [simp]: "kr_contains (chunk_range v) (chunk_key v' s) \<longleftrightarrow> v' = v"
  by (auto simp: chunk_range_def chunk_key_def prefix_def)

section \<open>Allocator lemmas\<close>

lemma advance_Inr_iff: "advance i = Inr j \<longleftrightarrow> checked_succ i = Some j"
  by (simp add: advance_def split: option.split)

lemma vid_take_cases:
  "vid_take nxt = (Inr r, nxt') \<longleftrightarrow>
     (r = None \<and> nxt = None \<and> nxt' = None
      \<or> (\<exists>i j. r = Some i \<and> nxt = Some i \<and> nxt' = Some j \<and> checked_succ i = Some j))"
  by (cases nxt) (auto simp: vid_take_def advance_def split: option.splits)

lemma seed_and_take_Inr_iff:
  "seed_and_take stored nxt = (Inr i, nxt') \<longleftrightarrow>
     i = (case nxt of Some current \<Rightarrow> max current stored | None \<Rightarrow> stored) \<and>
     (\<exists>j. nxt' = Some j \<and> checked_succ i = Some j)"
  by (cases "checked_succ (case nxt of Some current \<Rightarrow> max current stored | None \<Rightarrow> stored)")
    (auto simp: seed_and_take_def advance_def Let_def)

text \<open>The first eight bytes of a chunk key, and the fact that they sort ahead of the rest.\<close>

definition chunk_id :: "bytes \<Rightarrow> u64" where
  "chunk_id k = from_be64 (take 8 k)"

lemma chunk_id_key [simp]: "chunk_id (chunk_key v s) = v"
  by (simp add: chunk_id_def chunk_key_def)

lemma chunk_id_mono:
  assumes "k \<le> m" "8 \<le> length k" "8 \<le> length m"
  shows "chunk_id k \<le> chunk_id m"
proof (rule ccontr)
  assume "\<not> chunk_id k \<le> chunk_id m"
  then have "chunk_id m < chunk_id k" by simp
  then have "be64 (chunk_id m) < be64 (chunk_id k)" by simp
  then have "take 8 m < take 8 k"
    using assms by (simp add: chunk_id_def be64_from_be64)
  moreover have "length (take 8 m) = length (take 8 k)" using assms by simp
  ultimately have "take 8 m @ drop 8 m < take 8 k @ drop 8 k"
    by (intro less_append_same_length)
  with assms(1) show False by simp
qed

lemma sorted_last_max:
  "sorted_wrt (<) xs \<Longrightarrow> x \<in> set xs \<Longrightarrow> x \<le> (last xs :: 'a::linorder)"
  by (induction xs) (auto simp: le_less)

lemma highest_chunk_key:
  "page_of t \<lparr>rq_table = tab, rq_range = kr_all, rq_reverse = True, rq_limit = 1, rq_want_values = w\<rparr> pg
     \<Longrightarrow> pg_items pg = (if bt_keys t = [] then [] else [scan_item w (last (bt_entries t))])"
  by (auto simp: page_of_def scan_order_def tree_range_def Let_def bt_keys_def case_prod_unfold
      take_Suc hd_rev)

text \<open>The floor is past every id that occurs in the chunk table, and not below the stored counter.\<close>

context backend_contract
begin

lemma seed_floor_above:
  assumes "seed_floor B b = Inr f" "k \<in> set (bt_keys (tb_chunks (tabs b)))"
    and "\<forall>k\<in>set (bt_keys (tb_chunks (tabs b))). 8 \<le> length k"
  shows "chunk_id k < f"
proof -
  let ?rq = "\<lparr>rq_table = Chunks, rq_range = kr_all, rq_reverse = True, rq_limit = 1, rq_want_values = False\<rparr>"
  let ?ks = "bt_keys (tb_chunks (tabs b))"
  have ne: "?ks \<noteq> []" using assms(2) by (metis empty_iff list.set(1))
  from assms(1) obtain stored high where high: "highest_stored_id B b = Inr high"
    and f: "(case high of Some i \<Rightarrow> rbind (advance i) (\<lambda>j. Inr (max stored j)) | None \<Rightarrow> Inr stored) = Inr f"
    by (auto simp: seed_floor_def rbind_eq_Inr_iff)
  from high obtain pg where pg: "bk_scan B b ?rq = Inr pg"
    by (auto simp: highest_stored_id_def rbind_eq_Inr_iff)
  have "pg_items pg = [scan_item False (last (bt_entries (tb_chunks (tabs b))))]"
    using ne highest_chunk_key [of "tb_chunks (tabs b)" Chunks False pg] scan_spec [OF pg] by simp
  then have "high = Some (chunk_id (last ?ks))"
    using high pg ne by (auto simp: highest_stored_id_def scan_item_def chunk_id_def bt_keys_def last_map
        split: if_splits)
  then obtain j where "checked_succ (chunk_id (last ?ks)) = Some j" "f = max stored j"
    using f by (auto simp: rbind_eq_Inr_iff advance_Inr_iff)
  then have "chunk_id (last ?ks) < f"
    using checked_succ_less by (metis less_max_iff_disj)
  moreover have "k \<le> last ?ks" using assms(2) by (intro sorted_last_max) auto
  then have "chunk_id k \<le> chunk_id (last ?ks)"
    using assms(2,3) ne by (intro chunk_id_mono) (auto simp del: bt_mem_keys_iff)
  ultimately show ?thesis by simp
qed

lemma seed_floor_counter:
  assumes "seed_floor B b = Inr f" "bt_lookup (tb_meta (tabs b)) next_value_id_key = Some (be64 c)"
  shows "c \<le> f"
proof -
  from assms(1) obtain raw stored high where raw: "bk_get B b Meta next_value_id_key = Inr raw"
    and stored: "parse_counter raw = Inr stored"
    and f: "(case high of Some i \<Rightarrow> rbind (advance i) (\<lambda>j. Inr (max stored j)) | None \<Rightarrow> Inr stored) = Inr f"
    by (auto simp: seed_floor_def rbind_eq_Inr_iff)
  have "stored = c"
    using get_spec [OF raw] stored assms(2) by (simp add: parse_counter_def)
  with f show ?thesis by (auto simp: rbind_eq_Inr_iff split: option.splits)
qed

end

section \<open>Properties\<close>

text \<open>
  C39: A stored record parses as a chunk pointer exactly when it is the encoding of one whose length is
  within the envelope's limit and whose chunks are not more than its bytes; every encoded pointer is
  recognised as one, and no sealed envelope is.
\<close>

theorem pointer_exact:
  "(pointer_parse raw = Inr p \<longleftrightarrow>
      unat (cp_total_len p) \<le> MAX_DECODED_BYTES \<and> unat (cp_n_chunks p) \<le> unat (cp_total_len p)
      \<and> raw = pointer_encode p)
   \<and> is_pointer (pointer_encode q) \<and> \<not> is_pointer (header i @ b)"
  by (simp add: pointer_parse_Inr_iff pointer_ok_def)

end
