(* ===== verification/Alloc_Interleaving.thy ===== *)
theory Alloc_Interleaving
  imports Chunk
begin

text \<open>
  \<open>ValueIds\<close> under concurrent callers (\<open>src/locker/chunk.rs\<close>, the documentation of \<open>ValueIds\<close> and
  \<open>allocate\<close>). Between two \<open>await\<close>s a call is atomic, so \<open>allocate\<close> is up to three steps: take from
  a seeded cursor, or read the floor, and later seed and take. A writer then builds a commit with the
  counter operation of that moment, and commits land late and in any order, or fail; the garbage
  collection of a value and a restart of the process (cursor gone, storage kept) happen in between.
\<close>

record alloc_sys =
  al_next :: value_ids
  al_floors :: "u64 list"
  al_issued :: "u64 list"
  al_commits :: "bop list list"
  al_tabs :: tables

definition chunk_puts :: "u64 \<Rightarrow> (u32 \<times> bytes) list \<Rightarrow> bop list" where
  "chunk_puts i pieces = map (\<lambda>(sq, v). Op_Put Chunks (chunk_key i sq) v) pieces"

definition stored_floor :: "tables \<Rightarrow> u64 result" where
  "stored_floor t = seed_floor memory_backend_vt \<lparr>mb_tables = t, mb_closed = False\<rparr>"

inductive alloc_step :: "alloc_sys \<Rightarrow> u64 option \<Rightarrow> alloc_sys \<Rightarrow> bool" where
  st_take: "vid_take (al_next s) = (Inr (Some i), n) \<Longrightarrow>
     alloc_step s (Some i) (s\<lparr>al_next := n, al_issued := i # al_issued s\<rparr>)"
| st_read: "vid_take (al_next s) = (Inr None, n) \<Longrightarrow> stored_floor (al_tabs s) = Inr f \<Longrightarrow>
     alloc_step s None (s\<lparr>al_floors := f # al_floors s\<rparr>)"
| st_seed: "f \<in> set (al_floors s) \<Longrightarrow> seed_and_take f (al_next s) = (Inr i, n) \<Longrightarrow>
     alloc_step s (Some i) (s\<lparr>al_next := n, al_floors := remove1 f (al_floors s), al_issued := i # al_issued s\<rparr>)"
| st_build: "i \<in> set (al_issued s) \<Longrightarrow>
     alloc_step s None (s\<lparr>al_commits := (chunk_puts i pieces @ (case vid_counter_op (al_next s) of None \<Rightarrow> [] | Some c \<Rightarrow> [c])) # al_commits s\<rparr>)"
| st_gc: "alloc_step s None (s\<lparr>al_commits := [gc_ops p] # al_commits s\<rparr>)"
| st_land: "c \<in> set (al_commits s) \<Longrightarrow>
     alloc_step s None (s\<lparr>al_commits := remove1 c (al_commits s), al_tabs := apply_ops (al_tabs s) c\<rparr>)"
| st_fail: "c \<in> set (al_commits s) \<Longrightarrow>
     alloc_step s None (s\<lparr>al_commits := remove1 c (al_commits s)\<rparr>)"
| st_reopen: "alloc_step s None (s\<lparr>al_next := None, al_floors := [], al_issued := [], al_commits := []\<rparr>)"

inductive_simps alloc_issue_simps: "alloc_step s (Some i) s'"

text \<open>A bank opened on storage whose chunk keys all carry a value id, with nothing issued yet.\<close>

inductive alloc_reachable :: "alloc_sys \<Rightarrow> bool" where
  start: "\<forall>k\<in>set (bt_keys (tb_chunks t)). 8 \<le> length k \<Longrightarrow>
     alloc_reachable \<lparr>al_next = None, al_floors = [], al_issued = [], al_commits = [], al_tabs = t\<rparr>"
| step: "alloc_reachable s \<Longrightarrow> alloc_step s ev s' \<Longrightarrow> alloc_reachable s'"

section \<open>Invariant\<close>

abbreviation stored_chunk_keys :: "tables \<Rightarrow> bytes set" where
  "stored_chunk_keys t \<equiv> set (bt_keys (tb_chunks t))"

definition commit_ok :: "u64 list \<Rightarrow> bop list \<Rightarrow> bool" where
  "commit_ok issued c \<longleftrightarrow> (\<forall>k v. Op_Put Chunks k v \<in> set c \<longrightarrow> (\<exists>i\<in>set issued. \<exists>sq. k = chunk_key i sq))"

fun cursor_ok :: "value_ids \<Rightarrow> u64 list \<Rightarrow> u64 list \<Rightarrow> tables \<Rightarrow> bool" where
  "cursor_ok None floors issued t \<longleftrightarrow>
     issued = [] \<and> (\<forall>f\<in>set floors. \<forall>k\<in>stored_chunk_keys t. chunk_id k < f)"
| "cursor_ok (Some n) floors issued t \<longleftrightarrow>
     (\<forall>i\<in>set issued. i < n) \<and> (\<forall>k\<in>stored_chunk_keys t. chunk_id k < n)"

definition alloc_inv :: "alloc_sys \<Rightarrow> bool" where
  "alloc_inv s \<longleftrightarrow>
     distinct (al_issued s)
     \<and> (\<forall>k\<in>stored_chunk_keys (al_tabs s). 8 \<le> length k)
     \<and> (\<forall>c\<in>set (al_commits s). commit_ok (al_issued s) c)
     \<and> cursor_ok (al_next s) (al_floors s) (al_issued s) (al_tabs s)"

lemma lookup_apply_ops_Some:
  "bt_lookup (tables_get (apply_ops t ops) tab) k = Some v \<Longrightarrow>
     bt_lookup (tables_get t tab) k = Some v \<or> Op_Put tab k v \<in> set ops"
proof (induction ops arbitrary: t)
  case (Cons x ops)
  then show ?case by (cases x) (fastforce split: if_splits)+
qed simp

lemma keys_apply_ops:
  assumes "k \<in> stored_chunk_keys (apply_ops t ops)"
  shows "k \<in> stored_chunk_keys t \<or> (\<exists>v. Op_Put Chunks k v \<in> set ops)"
  using assms lookup_apply_ops_Some [of t ops Chunks k] by auto

lemma commit_ok_mono: "commit_ok is c \<Longrightarrow> commit_ok (i # is) c"
  by (auto simp: commit_ok_def)

lemma commit_ok_gc [simp]: "commit_ok is [gc_ops p]"
  by (simp add: commit_ok_def gc_ops_def)

lemma commit_ok_build:
  "i \<in> set is \<Longrightarrow> commit_ok is (chunk_puts i pieces @ (case vid_counter_op n of None \<Rightarrow> [] | Some c \<Rightarrow> [c]))"
  by (auto simp: commit_ok_def chunk_puts_def vid_counter_op_def counter_op_for_def split: option.splits)

lemma stored_floor_above:
  "stored_floor t = Inr f \<Longrightarrow> \<forall>k\<in>stored_chunk_keys t. 8 \<le> length k \<Longrightarrow> k \<in> stored_chunk_keys t
     \<Longrightarrow> chunk_id k < f"
  using mem.seed_floor_above [of "\<lparr>mb_tables = t, mb_closed = False\<rparr>" f k]
  by (simp add: stored_floor_def del: bt_mem_keys_iff)

text \<open>Taking an id from a cursor in order: fresh, and the cursor stays in order.\<close>

lemma take_ok:
  assumes "vid_take n = (Inr (Some i), n')" "cursor_ok n fs is t"
  shows "i \<notin> set is" "\<forall>k\<in>stored_chunk_keys t. chunk_id k \<noteq> i" "cursor_ok n' gs (i # is) t"
  using assms by (auto simp: vid_take_cases dest: checked_succ_less simp del: bt_mem_keys_iff)
    (metis checked_succ_less order.strict_trans)+

lemma seed_ok:
  assumes "seed_and_take f n = (Inr i, n')" "cursor_ok n fs is t" "f \<in> set fs"
  shows "i \<notin> set is" "\<forall>k\<in>stored_chunk_keys t. chunk_id k \<noteq> i" "cursor_ok n' gs (i # is) t"
proof -
  obtain j where i: "i = (case n of Some current \<Rightarrow> max current f | None \<Rightarrow> f)"
    and j: "n' = Some j" "i < j"
    using assms(1) by (auto simp: seed_and_take_Inr_iff dest: checked_succ_less)
  have fresh: "(\<forall>a\<in>set is. a < i) \<and> (\<forall>k\<in>stored_chunk_keys t. chunk_id k < i)"
    using assms(2,3) i by (cases n) (auto simp: less_max_iff_disj simp del: bt_mem_keys_iff)
  then show "i \<notin> set is" "\<forall>k\<in>stored_chunk_keys t. chunk_id k \<noteq> i" by blast+
  show "cursor_ok n' gs (i # is) t"
    using fresh j by (auto simp del: bt_mem_keys_iff intro: order.strict_trans)
qed

lemma cursor_ok_land:
  assumes "cursor_ok n fs is t" "commit_ok is c"
  shows "cursor_ok n fs is (apply_ops t c)"
proof (cases n)
  case None
  then have "is = []" using assms(1) by simp
  then have "k \<in> stored_chunk_keys t" if "k \<in> stored_chunk_keys (apply_ops t c)" for k
    using keys_apply_ops [OF that] assms(2) by (simp add: commit_ok_def del: bt_mem_keys_iff) 
  with assms(1) None show ?thesis by (simp del: bt_mem_keys_iff)
next
  case (Some m)
  have "chunk_id k < m" if "k \<in> stored_chunk_keys (apply_ops t c)" for k
    using keys_apply_ops [OF that] assms Some by (auto simp: commit_ok_def simp del: bt_mem_keys_iff)
  with assms(1) Some show ?thesis by (simp del: bt_mem_keys_iff)
qed

lemma alloc_inv_step:
  assumes "alloc_step s ev s'" "alloc_inv s"
  shows "alloc_inv s'"
  using assms
proof (cases rule: alloc_step.cases)
  case (st_take i n)
  then show ?thesis
    using assms(2) take_ok [of "al_next s" i n] by (auto simp: alloc_inv_def commit_ok_mono simp del: bt_mem_keys_iff)
next
  case (st_read n f)
  then have "al_next s = None" by (auto simp: vid_take_cases)
  with st_read show ?thesis
    using assms(2) stored_floor_above [of "al_tabs s" f] by (auto simp: alloc_inv_def simp del: bt_mem_keys_iff)
next
  case (st_seed f i n)
  then show ?thesis
    using assms(2) seed_ok [of f "al_next s" i n] by (auto simp: alloc_inv_def commit_ok_mono simp del: bt_mem_keys_iff)
next
  case (st_build i pieces)
  then show ?thesis
    using assms(2) by (auto simp: alloc_inv_def commit_ok_build simp del: bt_mem_keys_iff)
next
  case (st_gc p)
  then show ?thesis using assms(2) by (auto simp: alloc_inv_def simp del: bt_mem_keys_iff)
next
  case (st_land c)
  then have ok: "commit_ok (al_issued s) c" using assms(2) by (auto simp: alloc_inv_def)
  have "8 \<le> length k" if "k \<in> stored_chunk_keys (apply_ops (al_tabs s) c)" for k
    using keys_apply_ops [OF that] ok assms(2) by (auto simp: commit_ok_def alloc_inv_def simp del: bt_mem_keys_iff)
  moreover have "cursor_ok (al_next s) (al_floors s) (al_issued s) (apply_ops (al_tabs s) c)"
    using cursor_ok_land ok assms(2) by (simp add: alloc_inv_def)
  ultimately show ?thesis
    using st_land assms(2) by (auto simp: alloc_inv_def dest: notin_set_remove1 simp del: bt_mem_keys_iff)
next
  case (st_fail c)
  then show ?thesis
    using assms(2) by (auto simp: alloc_inv_def dest: notin_set_remove1 simp del: bt_mem_keys_iff)
next
  case st_reopen
  then show ?thesis using assms(2) by (simp add: alloc_inv_def)
qed

lemma alloc_reachable_inv: "alloc_reachable s \<Longrightarrow> alloc_inv s"
  by (induction rule: alloc_reachable.induct)
    (simp add: alloc_inv_def, rule alloc_inv_step)

lemma issue_fresh:
  assumes "alloc_inv s" "alloc_step s (Some i) s'"
  shows "i \<notin> set (al_issued s) \<and> (\<forall>k\<in>stored_chunk_keys (al_tabs s). chunk_id k \<noteq> i)"
  using assms(2) assms(1) take_ok(1,2) seed_ok(1,2)
  unfolding alloc_issue_simps alloc_inv_def by metis

section \<open>Properties\<close>

text \<open>
  C36: However \<open>allocate\<close> calls, commits landing late, failing or out of order, garbage collection and
  restarts are interleaved, an id is handed out that no caller of this process holds already and that no
  stored chunk carries: two values never share their chunks.
\<close>

theorem alloc_fresh:
  assumes "alloc_reachable s" "alloc_step s (Some i) s'"
  shows "i \<notin> set (al_issued s) \<and> i \<notin> chunk_id ` stored_chunk_keys (al_tabs s)"
  using issue_fresh [OF alloc_reachable_inv [OF assms(1)] assms(2)] by blast

text \<open>A first call on fresh storage, and the cursor it leaves.\<close>

definition alloc_begun :: alloc_sys where
  "alloc_begun =
     \<lparr>al_next = Some 1, al_floors = [], al_issued = [0], al_commits = [], al_tabs = tables_default\<rparr>"

lemma stored_floor_default: "stored_floor tables_default = Inr 0"
  by (simp add: stored_floor_def seed_floor_def memory_backend_vt_def memory_get_def with_tables_def
      tables_default_def parse_counter_def highest_stored_id_def memory_scan_def kr_all_def
      scan_tree_eq scan_order_def tree_range_def)

lemma alloc_begun_reachable: "alloc_reachable alloc_begun"
proof -
  let ?s = "\<lparr>al_next = None, al_floors = [], al_issued = [], al_commits = [], al_tabs = tables_default\<rparr>"
  have "alloc_reachable ?s"
    by (rule alloc_reachable.start) (auto simp: tables_default_def)
  moreover have "alloc_step ?s None (?s\<lparr>al_floors := [0]\<rparr>)"
    using st_read [of ?s None 0] by (simp add: vid_take_def stored_floor_default)
  ultimately have "alloc_reachable (?s\<lparr>al_floors := [0]\<rparr>)"
    by (rule alloc_reachable.step)
  moreover have "alloc_step (?s\<lparr>al_floors := [0]\<rparr>) (Some 0) alloc_begun"
    using st_seed [of 0 "?s\<lparr>al_floors := [0]\<rparr>" 0 "Some 1"]
    by (simp add: seed_and_take_def advance_def checked_succ_def alloc_begun_def)
  ultimately show ?thesis by (rule alloc_reachable.step)
qed

theorem alloc_fresh_witness:
  "(1 :: u64) \<notin> set (al_issued alloc_begun)
   \<and> 1 \<notin> chunk_id ` stored_chunk_keys (al_tabs alloc_begun)"
proof -
  have "alloc_step alloc_begun (Some 1) (alloc_begun\<lparr>al_next := Some 2, al_issued := [1, 0]\<rparr>)"
    using st_take [of alloc_begun 1 "Some 2"]
    by (simp add: alloc_begun_def vid_take_def advance_def checked_succ_def)
  then show ?thesis by (rule alloc_fresh [OF alloc_begun_reachable])
qed

end
