(* ===== verification/Policy.thy ===== *)
theory Policy
  imports Backend_Api Codec
begin

text \<open>
  \<open>src/locker/policy.rs\<close>: retention policy, corruption policy, commit mode and the configuration
  of one locker, with the equality that \<open>Bank\<close> refuses a second open by.
\<close>

datatype policy = Precious | Evictable u64

datatype on_corrupt = OC_Fail | OC_Skip

datatype commit_mode = Commit_Immediate | Commit_Deferred nat

record locker_config =
  lc_max_inline :: nat
  lc_eager_budget :: u64
  lc_policy :: policy
  lc_commit :: commit_mode
  lc_durability :: durability
  lc_on_corrupt :: on_corrupt
  lc_chunk_size :: nat
  lc_chain :: "filter_chain option"

definition cfg_chain_id :: "locker_config \<Rightarrow> byte option" where
  "cfg_chain_id c = map_option ch_id (lc_chain c)"

definition config_eq :: "locker_config \<Rightarrow> locker_config \<Rightarrow> bool" where
  "config_eq a b \<longleftrightarrow>
     lc_max_inline a = lc_max_inline b
     \<and> lc_eager_budget a = lc_eager_budget b
     \<and> lc_policy a = lc_policy b
     \<and> lc_commit a = lc_commit b
     \<and> lc_durability a = lc_durability b
     \<and> lc_on_corrupt a = lc_on_corrupt b
     \<and> lc_chunk_size a = lc_chunk_size b
     \<and> cfg_chain_id a = cfg_chain_id b"

definition config_default :: locker_config where
  "config_default =
     \<lparr>lc_max_inline = 256 * 1024, lc_eager_budget = 32 * 1024 * 1024, lc_policy = Precious,
      lc_commit = Commit_Immediate, lc_durability = Dur_Immediate, lc_on_corrupt = OC_Fail,
      lc_chunk_size = 256 * 1024, lc_chain = None\<rparr>"

definition with_max_inline :: "nat \<Rightarrow> locker_config \<Rightarrow> locker_config" where
  "with_max_inline n c = c\<lparr>lc_max_inline := n\<rparr>"

definition with_eager_budget :: "u64 \<Rightarrow> locker_config \<Rightarrow> locker_config" where
  "with_eager_budget n c = c\<lparr>lc_eager_budget := n\<rparr>"

definition with_policy :: "policy \<Rightarrow> locker_config \<Rightarrow> locker_config" where
  "with_policy p c = c\<lparr>lc_policy := p\<rparr>"

definition with_commit :: "commit_mode \<Rightarrow> locker_config \<Rightarrow> locker_config" where
  "with_commit m c = c\<lparr>lc_commit := m\<rparr>"

definition with_durability :: "durability \<Rightarrow> locker_config \<Rightarrow> locker_config" where
  "with_durability d c = c\<lparr>lc_durability := d\<rparr>"

definition is_eventual :: "locker_config \<Rightarrow> bool" where
  "is_eventual c \<longleftrightarrow> lc_durability c = Dur_Eventual"

definition with_on_corrupt :: "on_corrupt \<Rightarrow> locker_config \<Rightarrow> locker_config" where
  "with_on_corrupt oc c = c\<lparr>lc_on_corrupt := oc\<rparr>"

definition with_chunk_size :: "nat \<Rightarrow> locker_config \<Rightarrow> locker_config" where
  "with_chunk_size n c = c\<lparr>lc_chunk_size := max n 1\<rparr>"

definition with_chain :: "filter_chain \<Rightarrow> locker_config \<Rightarrow> locker_config" where
  "with_chain ch c = c\<lparr>lc_chain := Some ch\<rparr>"

lemma config_eq_equivp: "equivp config_eq"
  by (rule equivpI) (auto simp: reflp_def symp_def transp_def config_eq_def)

text \<open>Every configuration the builder makes has a chunk size that \<open>slice::chunks\<close> accepts.\<close>

lemma with_chunk_size_positive [simp]: "0 < lc_chunk_size (with_chunk_size n c)"
  by (simp add: with_chunk_size_def)

lemma default_chunk_size_positive [simp]: "0 < lc_chunk_size config_default"
  by (simp add: config_default_def)

end
