(* ===== verification/Lru.thy ===== *)
theory Lru
  imports Paging Keys "HOL-Library.Product_Lexorder"
begin

text \<open>
  \<open>src/locker/lru.rs\<close>: the byte budget of evictable lockers. The accounting of one locker is
  \<open>lru_state\<close>, the bank-wide logical clock is \<open>tick_state\<close>. A commit is planned first
  (\<open>lru_plan\<close>: the victims and the total to come) and applied once it has landed (\<open>lru_apply\<close>).
\<close>

section \<open>Records\<close>

definition LRU_PREFIX :: bytes where
  "LRU_PREFIX = as_bytes ''lru::''"

definition META_NEXT_TICK :: bytes where
  "META_NEXT_TICK = as_bytes ''next_tick''"

definition RECORD_LEN :: nat where
  "RECORD_LEN = 12"

text \<open>\<open>inner::SCAN_PAGE\<close>.\<close>

definition SCAN_PAGE :: nat where
  "SCAN_PAGE = DEFAULT_SCAN_PAGE"

definition locker_prefix :: "locker_id \<Rightarrow> bytes" where
  "locker_prefix i = LRU_PREFIX @ be32 i @ as_bytes ''::''"

definition entry_key :: "locker_id \<Rightarrow> bytes \<Rightarrow> bytes" where
  "entry_key i key = locker_prefix i @ key"

definition user_key :: "bytes \<Rightarrow> bytes \<Rightarrow> bytes option" where
  "user_key p meta_key = (if prefix p meta_key then Some (drop (length p) meta_key) else None)"

record entry =
  en_tick :: u64
  en_bytes :: u64

definition encode_entry :: "entry \<Rightarrow> bytes" where
  "encode_entry e = be64 (en_tick e) @ be32 (ucast (min (en_bytes e) (ucast (- 1 :: u32))))"

definition parse_entry :: "bytes \<Rightarrow> entry option" where
  "parse_entry raw =
     (if length raw \<noteq> RECORD_LEN then None
      else Some \<lparr>en_tick = from_be64 (take 8 raw), en_bytes = ucast (from_be32 (take 4 (drop 8 raw)))\<rparr>)"

definition lru_put_op :: "locker_id \<Rightarrow> bytes \<Rightarrow> entry \<Rightarrow> bop" where
  "lru_put_op i key e = Op_Put Meta (entry_key i key) (encode_entry e)"

definition lru_delete_op :: "locker_id \<Rightarrow> bytes \<Rightarrow> bop" where
  "lru_delete_op i key = Op_Delete Meta (entry_key i key)"

definition lru_clear_op :: "locker_id \<Rightarrow> bop" where
  "lru_clear_op i = Op_DeleteRange Meta (kr_prefix (locker_prefix i))"

section \<open>The clock\<close>

record tick_state =
  tk_next :: "u64 option"
  tk_floor :: u64

definition ticks_default :: tick_state where
  "ticks_default = \<lparr>tk_next = None, tk_floor = 0\<rparr>"

definition tick_cursor :: "tick_state \<Rightarrow> u64 option \<Rightarrow> u64 option" where
  "tick_cursor t stored =
     map_option (\<lambda>nxt. max nxt (tk_floor t))
       (case (tk_next t, stored) of
          (Some current, Some st) \<Rightarrow> Some (max current st)
        | (Some current, None) \<Rightarrow> Some current
        | (None, Some st) \<Rightarrow> Some st
        | (None, None) \<Rightarrow> None)"

definition tick_advance :: "u64 \<Rightarrow> u64 result" where
  "tick_advance t = (case checked_succ t of Some j \<Rightarrow> Inr j | None \<Rightarrow> Inl (Backend ''tick space is exhausted''))"

definition tick_take :: "(tick_state, error, u64 option) act" where
  "tick_take t =
     (case tick_cursor t None of
        None \<Rightarrow> (Inr None, t)
      | Some tick \<Rightarrow> (case tick_advance tick of
            Inl e \<Rightarrow> (Inl e, t) | Inr j \<Rightarrow> (Inr (Some tick), t\<lparr>tk_next := Some j\<rparr>)))"

definition tick_seed_and_take :: "u64 \<Rightarrow> (tick_state, error, u64) act" where
  "tick_seed_and_take stored t =
     (let tick = (case tick_cursor t (Some stored) of Some x \<Rightarrow> x | None \<Rightarrow> stored) in
      case tick_advance tick of
        Inl e \<Rightarrow> (Inl e, t) | Inr j \<Rightarrow> (Inr tick, t\<lparr>tk_next := Some j\<rparr>))"

definition observe_recorded :: "u64 \<Rightarrow> (tick_state, error, unit) act" where
  "observe_recorded max_seen t =
     (case tick_advance max_seen of
        Inl e \<Rightarrow> (Inl e, t)
      | Inr at_least \<Rightarrow>
          let fl = max (tk_floor t) at_least in
          (Inr (), t\<lparr>tk_floor := fl,
                      tk_next := (case tk_next t of Some current \<Rightarrow> Some (max current fl) | None \<Rightarrow> None)\<rparr>))"

definition tick_allocate :: "'b backend \<Rightarrow> 'b \<Rightarrow> (tick_state, error, u64) act" where
  "tick_allocate B b =
     sbind tick_take (\<lambda>taken.
       case taken of
         Some t \<Rightarrow> sret t
       | None \<Rightarrow> (\<lambda>t. case bk_get B b Meta META_NEXT_TICK of
             Inl e \<Rightarrow> (Inl e, t)
           | Inr None \<Rightarrow> tick_seed_and_take 0 t
           | Inr (Some bs) \<Rightarrow>
               if length bs = 8 then tick_seed_and_take (from_be64 bs) t
               else (Inl (Corrupt ''next_tick is not an 8-byte integer''), t)))"

definition tick_counter_op :: "tick_state \<Rightarrow> bop" where
  "tick_counter_op t =
     Op_Put Meta META_NEXT_TICK (be64 (case tick_cursor t None of Some n \<Rightarrow> n | None \<Rightarrow> tk_floor t))"

section \<open>The accounting\<close>

definition PENDING_PER_COMMIT :: nat where
  "PENDING_PER_COMMIT = 64"

record plan =
  pl_victims :: "bytes list"
  pl_total :: u64

record lru_state =
  lr_max_bytes :: u64
  lr_entries :: "(bytes, entry) btree"
  lr_total :: u64
  lr_pending :: "(bytes, u64) btree"
  lr_dirty :: bool

definition lru_new :: "u64 \<Rightarrow> lru_state" where
  "lru_new m = \<lparr>lr_max_bytes = m, lr_entries = bt_empty, lr_total = 0, lr_pending = bt_empty, lr_dirty = False\<rparr>"

definition mark_dirty :: "lru_state \<Rightarrow> lru_state" where
  "mark_dirty s = s\<lparr>lr_dirty := True\<rparr>"

definition adopt_loaded :: "lru_state \<Rightarrow> lru_state \<Rightarrow> lru_state" where
  "adopt_loaded loaded s =
     s\<lparr>lr_entries := lr_entries loaded, lr_total := lr_total loaded,
       lr_pending := bt_filter (\<lambda>k _. bt_contains (lr_entries loaded) k) (lr_pending s),
       lr_dirty := False\<rparr>"

definition next_local_tick :: "lru_state \<Rightarrow> u64" where
  "next_local_tick s = sat_add (fold max (map (en_tick \<circ> snd) (bt_entries (lr_entries s))) 0) 1"

text \<open>\<open>if let Some(old) = ... { total = total.saturating_sub(old.bytes) }\<close>.\<close>

definition sub_old :: "u64 \<Rightarrow> entry option \<Rightarrow> u64" where
  "sub_old tot old = (case old of Some e \<Rightarrow> sat_sub tot (en_bytes e) | None \<Rightarrow> tot)"

definition remote_put :: "bytes \<Rightarrow> u64 option \<Rightarrow> lru_state \<Rightarrow> lru_state" where
  "remote_put key known s =
     (let tick = next_local_tick s in
      case known of
        Some n \<Rightarrow>
          s\<lparr>lr_entries := bt_insert key \<lparr>en_tick = tick, en_bytes = n\<rparr> (lr_entries s),
            lr_total := sat_add (sub_old (lr_total s) (bt_lookup (lr_entries s) key)) n\<rparr>
      | None \<Rightarrow>
          mark_dirty (if bt_contains (lr_entries s) key then s
            else s\<lparr>lr_entries := bt_insert key \<lparr>en_tick = tick, en_bytes = 0\<rparr> (lr_entries s)\<rparr>))"

definition remote_delete :: "bytes \<Rightarrow> lru_state \<Rightarrow> lru_state" where
  "remote_delete key s =
     s\<lparr>lr_entries := bt_remove key (lr_entries s),
       lr_total := sub_old (lr_total s) (bt_lookup (lr_entries s) key),
       lr_pending := bt_remove key (lr_pending s)\<rparr>"

definition remote_clear :: "lru_state \<Rightarrow> lru_state" where
  "remote_clear s = s\<lparr>lr_entries := bt_empty, lr_pending := bt_empty, lr_total := 0, lr_dirty := False\<rparr>"

definition touch :: "bytes \<Rightarrow> u64 \<Rightarrow> lru_state \<Rightarrow> lru_state" where
  "touch key tick s =
     (case bt_lookup (lr_entries s) key of
        None \<Rightarrow> s
      | Some e \<Rightarrow> s\<lparr>lr_entries := bt_insert key (e\<lparr>en_tick := tick\<rparr>) (lr_entries s),
                     lr_pending := bt_insert key tick (lr_pending s)\<rparr>)"

text \<open>One round of the loop of \<open>pending_ops\<close>.\<close>

definition pending_step :: "locker_id \<Rightarrow> bytes list \<Rightarrow> (bytes, entry) btree
    \<Rightarrow> bytes list \<times> bop list \<Rightarrow> bytes \<times> u64 \<Rightarrow> bytes list \<times> bop list" where
  "pending_step i skip entries acc p =
     (case (acc, p) of ((keys, ops), (key, tick)) \<Rightarrow>
        if key \<in> set skip then (keys @ [key], ops)
        else (case bt_lookup entries key of
            None \<Rightarrow> (keys, ops)
          | Some e \<Rightarrow> (keys @ [key], ops @ [lru_put_op i key \<lparr>en_tick = tick, en_bytes = en_bytes e\<rparr>])))"

definition pending_ops :: "lru_state \<Rightarrow> locker_id \<Rightarrow> bytes list \<Rightarrow> bytes list \<times> bop list" where
  "pending_ops s i skip =
     foldl (pending_step i skip (lr_entries s)) ([], []) (take PENDING_PER_COMMIT (bt_entries (lr_pending s)))"

definition clear_pending :: "bytes list \<Rightarrow> lru_state \<Rightarrow> lru_state" where
  "clear_pending keys s = s\<lparr>lr_pending := fold bt_remove keys (lr_pending s)\<rparr>"

section \<open>Planning and applying\<close>

type_synonym candidate = "u64 \<times> bytes \<times> u64"

definition planned_total :: "lru_state \<Rightarrow> (bytes \<times> entry) list \<Rightarrow> bytes list \<Rightarrow> bool \<Rightarrow> u64" where
  "planned_total s updates removals cleared =
     (let tot = (if cleared then 0 else lr_total s);
          tot = (if cleared then tot
                   else foldl (\<lambda>t key. sub_old t (bt_lookup (lr_entries s) key)) tot removals)
      in foldl (\<lambda>t (key, e).
           sat_add (if cleared then t else sub_old t (bt_lookup (lr_entries s) key)) (en_bytes e)) tot updates)"

definition plan_candidates :: "lru_state \<Rightarrow> (bytes \<times> entry) list \<Rightarrow> bytes list \<Rightarrow> bool \<Rightarrow> bytes list
    \<Rightarrow> candidate list" where
  "plan_candidates s updates removals cleared keep =
     (if cleared then [] else
        map (\<lambda>(key, e). (en_tick e, key, en_bytes e))
          (filter (\<lambda>(key, e). \<not> (key \<in> set removals \<or> key \<in> fst ` set updates \<or> key \<in> set keep))
            (bt_entries (lr_entries s))))
     @ map (\<lambda>(key, e). (en_tick e, key, en_bytes e)) (filter (\<lambda>(key, e). key \<notin> set keep) updates)"

fun evict_loop :: "u64 \<Rightarrow> u64 \<Rightarrow> bytes list \<Rightarrow> candidate list \<Rightarrow> plan" where
  "evict_loop budget tot victims [] = \<lparr>pl_victims = victims, pl_total = tot\<rparr>"
| "evict_loop budget tot victims ((tick, key, n) # rest) =
     (if tot \<le> budget then \<lparr>pl_victims = victims, pl_total = tot\<rparr>
      else evict_loop budget (sat_sub tot n) (victims @ [key]) rest)"

definition lru_plan :: "lru_state \<Rightarrow> (bytes \<times> entry) list \<Rightarrow> bytes list \<Rightarrow> bool \<Rightarrow> u64 \<Rightarrow> bytes list \<Rightarrow> plan" where
  "lru_plan s updates removals cleared budget keep =
     (let tot = planned_total s updates removals cleared in
      if tot \<le> budget then \<lparr>pl_victims = [], pl_total = tot\<rparr>
      else evict_loop budget tot []
             (sort_key (\<lambda>(tick, key, _). (tick, key)) (plan_candidates s updates removals cleared keep)))"

definition lru_apply :: "(bytes \<times> entry) list \<Rightarrow> bytes list \<Rightarrow> bool \<Rightarrow> plan \<Rightarrow> lru_state \<Rightarrow> lru_state" where
  "lru_apply updates removals cleared p s =
     (let entries = (if cleared then bt_empty else lr_entries s);
          pending = (if cleared then bt_empty else lr_pending s);
          entries = fold bt_remove removals entries;
          pending = fold bt_remove removals pending;
          entries = fold (\<lambda>(key, e). bt_insert key e) updates entries;
          entries = fold bt_remove (pl_victims p) entries;
          pending = fold bt_remove (pl_victims p) pending
      in s\<lparr>lr_entries := entries, lr_pending := pending, lr_total := pl_total p\<rparr>)"

definition lru_adopt :: "bytes \<Rightarrow> lru_state \<Rightarrow> lru_state" where
  "lru_adopt key s =
     (if bt_contains (lr_entries s) key then s
      else s\<lparr>lr_entries := bt_insert key \<lparr>en_tick = 0, en_bytes = 0\<rparr> (lr_entries s)\<rparr>)"

text \<open>The \<open>sum()\<close> over the entries (an overflow would panic in a debug build and wrap in release).\<close>

definition retain_keys :: "(bytes \<Rightarrow> bool) \<Rightarrow> lru_state \<Rightarrow> lru_state" where
  "retain_keys live s =
     (let entries = bt_filter (\<lambda>k _. live k) (lr_entries s) in
      s\<lparr>lr_entries := entries, lr_pending := bt_filter (\<lambda>k _. live k) (lr_pending s),
        lr_total := sum_list (map (en_bytes \<circ> snd) (bt_entries entries))\<rparr>)"

section \<open>Loading\<close>

definition load_item :: "bytes \<Rightarrow> lru_state \<times> u64 option \<Rightarrow> bytes \<times> bytes option
    \<Rightarrow> (lru_state \<times> u64 option) result" where
  "load_item p acc item =
     (case (acc, item) of ((s, max_tick), (meta_key, v)) \<Rightarrow>
        Inr (case user_key p meta_key of
          None \<Rightarrow> (s, max_tick)
        | Some key \<Rightarrow> (case Option.bind v parse_entry of
            None \<Rightarrow> (s, max_tick)
          | Some e \<Rightarrow>
              (s\<lparr>lr_total := sat_add (lr_total s) (en_bytes e),
                 lr_entries := bt_insert key e (lr_entries s)\<rparr>,
               Some (case max_tick of None \<Rightarrow> en_tick e | Some m \<Rightarrow> max m (en_tick e))))))"

definition lru_load_request :: "locker_id \<Rightarrow> scan_request" where
  "lru_load_request i =
     \<lparr>rq_table = Meta, rq_range = kr_prefix (locker_prefix i), rq_reverse = False, rq_limit = SCAN_PAGE,
      rq_want_values = True\<rparr>"

definition lru_load :: "'b backend \<Rightarrow> 'b \<Rightarrow> locker_id \<Rightarrow> u64 \<Rightarrow> (tick_state, error, lru_state) act" where
  "lru_load B b i max_bytes ticks =
     (case page_loop (bk_fuel B b) B b (lru_load_request i) (load_item (locker_prefix i))
             (lru_new max_bytes, None) of
        Inl e \<Rightarrow> (Inl e, ticks)
      | Inr (s, None) \<Rightarrow> (Inr s, ticks)
      | Inr (s, Some m) \<Rightarrow> sbind (observe_recorded m) (\<lambda>_. sret s) ticks)"

end
