(* ===== verification/Lru_Facts.thy ===== *)
theory Lru_Facts
  imports Lru "HOL-Library.Multiset"
begin

text \<open>
  What the byte budget guarantees: the accounted total is the sum of the entries and stays so through
  a planned commit (\<open>budget_step\<close>), the plan sheds the least recently used keys and no more of
  them than it must (\<open>plan_prefix\<close>, \<open>plan_order\<close>), the clock only moves forward, and loading reads
  back what was recorded.
\<close>

section \<open>Records\<close>

lemma entry_key_inject [simp]: "entry_key i k = entry_key i' k' \<longleftrightarrow> i = i' \<and> k = k'"
  by (auto simp: entry_key_def locker_prefix_def)

lemma user_key_entry [simp]: "user_key (locker_prefix i) (entry_key i k) = Some k"
  by (simp add: user_key_def entry_key_def)

lemma user_key_eq_Some_iff: "user_key (locker_prefix i) x = Some k \<longleftrightarrow> x = entry_key i k"
  by (auto simp: user_key_def entry_key_def prefix_def split: if_splits)

lemma length_encode_entry [simp]: "length (encode_entry e) = RECORD_LEN"
  by (simp add: encode_entry_def RECORD_LEN_def)

lemma min_u32: "ucast (ucast (min n (ucast (- 1 :: u32))) :: u32) = min n (ucast (- 1 :: u32))"
  for n :: u64
proof (rule word_unat_eq_iff [THEN iffD2])
  have m: "unat (ucast (- 1 :: u32) :: u64) = 2 ^ 32 - 1"
    by (simp add: unsigned_ucast_eq unsigned_minus_1_eq_mask mask_eq_exp_minus_1)
  have "unat (min n (ucast (- 1 :: u32))) \<le> 2 ^ 32 - 1"
    by (metis m min.cobounded2 word_le_nat_alt)
  then have "unat (min n (ucast (- 1 :: u32))) < 2 ^ 32" by simp
  then show "unat (ucast (ucast (min n (ucast (- 1 :: u32))) :: u32) :: u64) = unat (min n (ucast (- 1 :: u32)))"
    by (simp add: unsigned_ucast_eq unsigned_take_bit_eq take_bit_nat_eq_self)
qed

lemma parse_encode_entry:
  "parse_entry (encode_entry e) = Some (e\<lparr>en_bytes := min (en_bytes e) (ucast (- 1 :: u32))\<rparr>)"
  by (simp add: parse_entry_def RECORD_LEN_def) (simp add: encode_entry_def min_u32)

section \<open>The total is the sum of the entries\<close>

abbreviation esum :: "(bytes, entry) btree \<Rightarrow> nat" where
  "esum \<equiv> bt_sum (\<lambda>e. unat (en_bytes e))"

definition lru_ok :: "lru_state \<Rightarrow> bool" where
  "lru_ok s \<longleftrightarrow> unat (lr_total s) = esum (lr_entries s)"

definition commit_entries :: "lru_state \<Rightarrow> (bytes \<times> entry) list \<Rightarrow> bytes list \<Rightarrow> bool \<Rightarrow> (bytes, entry) btree" where
  "commit_entries s updates removals cleared =
     fold (\<lambda>(key, e). bt_insert key e) updates
       (fold bt_remove removals (if cleared then bt_empty else lr_entries s))"

definition update_bytes :: "(bytes \<times> entry) list \<Rightarrow> nat" where
  "update_bytes updates = sum_list (map (\<lambda>(key, e). unat (en_bytes e)) updates)"

text \<open>What the callers hand over: one update or one removal of a key, and sums that fit a \<open>u64\<close>.\<close>

definition commit_input :: "lru_state \<Rightarrow> (bytes \<times> entry) list \<Rightarrow> bytes list \<Rightarrow> bool" where
  "commit_input s updates removals \<longleftrightarrow>
     distinct removals \<and> distinct (map fst updates) \<and> set removals \<inter> fst ` set updates = {}
     \<and> esum (lr_entries s) + update_bytes updates < 2 ^ 64"

lemma sub_old_sum:
  assumes "unat tot = esum E"
  shows "unat (sub_old tot (bt_lookup E k)) = esum (bt_remove k E)"
  using assms bt_sum_remove [of "\<lambda>e. unat (en_bytes e)" k E]
  by (cases "bt_lookup E k") (simp_all add: sub_old_def unat_sat_sub)

lemma removals_total:
  assumes "unat tot = esum E" "distinct ks" "\<And>k. k \<in> set ks \<Longrightarrow> L k = bt_lookup E k"
  shows "unat (foldl (\<lambda>t key. sub_old t (L key)) tot ks) = esum (fold bt_remove ks E)"
  using assms
proof (induction ks arbitrary: tot E)
  case (Cons k ks)
  have "unat (sub_old tot (L k)) = esum (bt_remove k E)"
    using Cons.prems by (simp add: sub_old_sum)
  then show ?case
    using Cons.prems by (simp only: foldl_Cons fold_Cons o_def) (rule Cons.IH, auto)
qed simp

lemma esum_insert: "esum (bt_insert k e E) = esum (bt_remove k E) + unat (en_bytes e)"
  using bt_sum_insert [of "\<lambda>e. unat (en_bytes e)" k e E] bt_sum_remove [of "\<lambda>e. unat (en_bytes e)" k E]
  by linarith

lemma esum_remove_le: "esum (bt_remove k E) \<le> esum E"
  using bt_sum_remove [of "\<lambda>e. unat (en_bytes e)" k E] by linarith

lemma esum_fold_remove_le: "esum (fold bt_remove ks E) \<le> esum E"
  by (induction ks arbitrary: E) (auto intro: order.trans [OF _ esum_remove_le])

lemma updates_total:
  assumes "unat tot = esum E" "distinct (map fst us)"
    "\<And>k. k \<in> fst ` set us \<Longrightarrow> (if cleared then None else L k) = bt_lookup E k"
    "esum E + update_bytes us < 2 ^ 64"
  shows "unat (foldl (\<lambda>t (key, e). sat_add (if cleared then t else sub_old t (L key)) (en_bytes e)) tot us)
     = esum (fold (\<lambda>(key, e). bt_insert key e) us E)"
  using assms
proof (induction us arbitrary: tot E)
  case (Cons u us)
  obtain k e where u: "u = (k, e)" by (cases u)
  let ?t = "if cleared then tot else sub_old tot (L k)"
  have "?t = sub_old tot (bt_lookup E k)"
    using Cons.prems(3) [of k] by (auto simp: u sub_old_def)
  then have t: "unat ?t = esum (bt_remove k E)"
    using Cons.prems(1) by (simp only: sub_old_sum)
  have le: "esum (bt_remove k E) + unat (en_bytes e) + update_bytes us < 2 ^ 64"
    using Cons.prems(4) esum_remove_le [of k E] by (simp add: u update_bytes_def)
  then have "unat (sat_add ?t (en_bytes e)) = esum (bt_insert k e E)"
    by (simp add: unat_sat_add t esum_insert)
  then show ?case
    using Cons.prems(2,3) le unfolding u foldl_Cons fold_Cons o_def prod.case
    by (intro Cons.IH) (auto simp: esum_insert split: if_splits)
qed simp

lemma planned_total_sum:
  assumes "lru_ok s" "commit_input s updates removals"
  shows "unat (planned_total s updates removals cleared) = esum (commit_entries s updates removals cleared)"
proof (cases cleared)
  case True
  have [simp]: "fold bt_remove removals bt_empty = bt_empty" for removals :: "bytes list"
    by (rule btree_eqI) (simp add: fold_remove_lookup)
  show ?thesis
    using assms True updates_total [of 0 bt_empty updates True]
    by (simp add: planned_total_def commit_entries_def commit_input_def Let_def)
next
  case False
  let ?E = "lr_entries s" and ?t = "foldl (\<lambda>t key. sub_old t (bt_lookup (lr_entries s) key)) (lr_total s) removals"
  have t: "unat ?t = esum (fold bt_remove removals ?E)"
    using assms by (intro removals_total) (auto simp: lru_ok_def commit_input_def)
  have "esum (fold bt_remove removals ?E) + update_bytes updates < 2 ^ 64"
    using assms(2) esum_fold_remove_le [of removals ?E] by (simp add: commit_input_def)
  with assms(2) False show ?thesis
    unfolding planned_total_def commit_entries_def Let_def if_not_P [OF False]
    by (intro updates_total [OF t, where cleared = False, simplified])
      (auto simp: commit_input_def fold_remove_lookup)
qed

section \<open>Evicting\<close>

definition cand_key :: "candidate \<Rightarrow> bytes" where
  "cand_key c = fst (snd c)"

lemma cand_key_simp [simp]: "cand_key (t, k, n) = k"
  by (simp add: cand_key_def)

lemma cand_key_mem: "(t, k, n) \<in> set cs \<Longrightarrow> k \<in> set (map cand_key cs)"
  by (metis cand_key_simp image_eqI list.set_map)

abbreviation evicted_total :: "u64 \<Rightarrow> candidate list \<Rightarrow> u64" where
  "evicted_total tot cs \<equiv> foldl (\<lambda>t c. sat_sub t (snd (snd c))) tot cs"

lemma evict_loop_split:
  "\<exists>n \<le> length cs. evict_loop budget tot vs cs =
       \<lparr>pl_victims = vs @ map cand_key (take n cs), pl_total = evicted_total tot (take n cs)\<rparr>
     \<and> (n = length cs \<or> evicted_total tot (take n cs) \<le> budget)
     \<and> (\<forall>m<n. budget < evicted_total tot (take m cs))"
proof (induction budget tot vs cs rule: evict_loop.induct)
  case (1 budget tot vs)
  then show ?case by simp
next
  case (2 budget tot vs tick key n rest)
  show ?case
  proof (cases "tot \<le> budget")
    case True
    then show ?thesis by (intro exI [of _ 0]) simp
  next
    case False
    from 2 [OF this] obtain m where m: "m \<le> length rest"
      "evict_loop budget (sat_sub tot n) (vs @ [key]) rest =
        \<lparr>pl_victims = (vs @ [key]) @ map cand_key (take m rest), pl_total = evicted_total (sat_sub tot n) (take m rest)\<rparr>"
      "m = length rest \<or> evicted_total (sat_sub tot n) (take m rest) \<le> budget"
      "\<forall>j<m. budget < evicted_total (sat_sub tot n) (take j rest)" by blast
    have "\<forall>j<Suc m. budget < evicted_total tot (take j ((tick, key, n) # rest))"
      using m(4) False by (auto simp: less_Suc_eq_0_disj)
    with m False show ?thesis by (intro exI [of _ "Suc m"]) (simp add: cand_key_def)
  qed
qed

lemma evicted_total_sum:
  assumes "unat tot = esum E" "distinct (map cand_key cs)"
    "\<And>t k n. (t, k, n) \<in> set cs \<Longrightarrow> bt_lookup E k = Some \<lparr>en_tick = t, en_bytes = n\<rparr>"
  shows "unat (evicted_total tot cs) = esum (fold bt_remove (map cand_key cs) E)"
  using assms
proof (induction cs arbitrary: tot E)
  case (Cons c cs)
  obtain t k n where c: "c = (t, k, n)" by (cases c)
  have "unat (sat_sub tot n) = esum (bt_remove k E)"
    using sub_old_sum [OF Cons.prems(1), of k] Cons.prems(3) [of t k n] by (simp add: c sub_old_def)
  moreover have "bt_lookup (bt_remove k E) k' = Some \<lparr>en_tick = t', en_bytes = n'\<rparr>"
    if "(t', k', n') \<in> set cs" for t' k' n'
  proof -
    have "k' \<in> cand_key ` set cs" using that by (force simp: cand_key_def)
    then have "k' \<noteq> k" using Cons.prems(2) by (auto simp: c cand_key_def)
    then show ?thesis using Cons.prems(3) that by simp
  qed
  ultimately have "unat (evicted_total (sat_sub tot n) cs) = esum (fold bt_remove (map cand_key cs) (bt_remove k E))"
    using Cons.prems(2) by (intro Cons.IH) simp_all
  then show ?case by (simp add: c)
qed simp

lemma fold_insert_lookup:
  "distinct (map fst us) \<Longrightarrow>
     bt_lookup (fold (\<lambda>(key, e). bt_insert key e) us E) k = (case map_of us k of Some e \<Rightarrow> Some e | None \<Rightarrow> bt_lookup E k)"
proof (induction us arbitrary: E)
  case (Cons u us)
  obtain a e where u: "u = (a, e)" by (cases u)
  have "map_of us a = None" using Cons.prems by (simp add: u map_of_eq_None_iff)
  then show ?case
    using Cons by (cases "k = a") (simp_all add: u split: option.split)
qed simp

text \<open>The candidates are exactly the entries the commit leaves behind, bar those it must keep.\<close>

lemma cand_mem:
  "(t, k, n) \<in> set (map (\<lambda>(key, e). (en_tick e, key, en_bytes e)) (filter (\<lambda>(key, e). P key) xs))
     \<longleftrightarrow> (k, \<lparr>en_tick = t, en_bytes = n\<rparr>) \<in> set xs \<and> P k"
proof -
  have "\<lparr>en_tick = en_tick e, en_bytes = en_bytes e\<rparr> = e" for e by simp
  then show ?thesis by (induction xs) auto
qed

lemma plan_candidates_set:
  assumes "commit_input s updates removals"
  shows "(t, k, n) \<in> set (plan_candidates s updates removals cleared keep) \<longleftrightarrow>
     bt_lookup (commit_entries s updates removals cleared) k = Some \<lparr>en_tick = t, en_bytes = n\<rparr> \<and> k \<notin> set keep"
proof -
  have d: "distinct (map fst updates)" "set removals \<inter> fst ` set updates = {}"
    using assms by (simp_all add: commit_input_def)
  have up: "(k, e) \<in> set updates \<longleftrightarrow> map_of updates k = Some e" for e
    using d(1) by simp
  have no: "k \<in> fst ` set updates \<longleftrightarrow> map_of updates k \<noteq> None"
    by (simp add: map_of_eq_None_iff)
  show ?thesis
    unfolding commit_entries_def fold_insert_lookup [OF d(1)] plan_candidates_def set_append Un_iff if_distrib [of set]
    unfolding if_bool_eq_disj
    by (cases "map_of updates k"; cases cleared)
      (auto simp: cand_mem no up fold_remove_lookup bt_mem_entries_iff simp del: set_map set_filter)
qed

lemma plan_candidates_distinct:
  assumes "commit_input s updates removals"
  shows "distinct (map cand_key (plan_candidates s updates removals cleared keep))"
proof -
  have d: "distinct (map fst updates)"
    using assms by (simp add: commit_input_def)
  have m: "map cand_key (map (\<lambda>(key, e). (en_tick e, key, en_bytes e)) xs) = map fst xs" for xs
    by (simp add: case_prod_unfold cand_key_def)
  have f: "distinct (map fst (filter P xs))" if "distinct (map fst xs)" for P and xs :: "(bytes \<times> entry) list"
    using that by (rule distinct_map_filter)
  show ?thesis
    unfolding plan_candidates_def map_append distinct_append if_distrib [of "map cand_key"] m
    by (auto simp: f d) force
qed

section \<open>A planned commit\<close>

text \<open>The candidates in eviction order.\<close>

definition eviction_order :: "lru_state \<Rightarrow> (bytes \<times> entry) list \<Rightarrow> bytes list \<Rightarrow> bool \<Rightarrow> bytes list \<Rightarrow> candidate list" where
  "eviction_order s updates removals cleared keep =
     sort_key (\<lambda>(tick, key, _). (tick, key)) (plan_candidates s updates removals cleared keep)"

lemma set_eviction_order [simp]:
  "set (eviction_order s updates removals cleared keep) = set (plan_candidates s updates removals cleared keep)"
  by (simp add: eviction_order_def)

lemma eviction_order_distinct:
  assumes "commit_input s updates removals"
  shows "distinct (map cand_key (eviction_order s updates removals cleared keep))"
proof -
  have "mset (map cand_key (eviction_order s updates removals cleared keep))
      = mset (map cand_key (plan_candidates s updates removals cleared keep))"
    by (simp add: eviction_order_def)
  then show ?thesis
    using plan_candidates_distinct [OF assms] mset_eq_imp_distinct_iff by blast
qed

text \<open>
  The victims are a prefix of the eviction order: the shortest one that brings the total within the
  budget, or all of it.
\<close>

lemma plan_prefix:
  fixes s updates removals cleared budget keep
  defines "cs \<equiv> eviction_order s updates removals cleared keep"
    and "tot \<equiv> planned_total s updates removals cleared"
  obtains n where "n \<le> length cs"
    "lru_plan s updates removals cleared budget keep =
       \<lparr>pl_victims = map cand_key (take n cs), pl_total = evicted_total tot (take n cs)\<rparr>"
    "n = length cs \<or> evicted_total tot (take n cs) \<le> budget"
    "\<forall>m<n. budget < evicted_total tot (take m cs)"
proof (cases "tot \<le> budget")
  case True
  then show ?thesis using that [of 0] by (simp add: lru_plan_def tot_def Let_def)
next
  case False
  from evict_loop_split [of cs budget tot "[]"] obtain n where "n \<le> length cs"
    "evict_loop budget tot [] cs = \<lparr>pl_victims = [] @ map cand_key (take n cs), pl_total = evicted_total tot (take n cs)\<rparr>"
    "n = length cs \<or> evicted_total tot (take n cs) \<le> budget"
    "\<forall>m<n. budget < evicted_total tot (take m cs)" by blast
  with False show ?thesis
    by (intro that) (simp_all add: lru_plan_def tot_def cs_def eviction_order_def Let_def)
qed

lemma lru_apply_entries:
  "lr_entries (lru_apply updates removals cleared p s)
     = fold bt_remove (pl_victims p) (commit_entries s updates removals cleared)"
  "lr_total (lru_apply updates removals cleared p s) = pl_total p"
  by (simp_all add: lru_apply_def commit_entries_def Let_def)

lemma evicted_prefix_sum:
  assumes "lru_ok s" "commit_input s updates removals"
  shows "unat (evicted_total (planned_total s updates removals cleared)
        (take n (eviction_order s updates removals cleared keep)))
     = esum (fold bt_remove (map cand_key (take n (eviction_order s updates removals cleared keep)))
          (commit_entries s updates removals cleared))"
proof (rule evicted_total_sum)
  let ?cs = "eviction_order s updates removals cleared keep"
  show "distinct (map cand_key (take n ?cs))"
    using eviction_order_distinct [OF assms(2)] by (simp add: take_map [symmetric])
  show "bt_lookup (commit_entries s updates removals cleared) k = Some \<lparr>en_tick = t, en_bytes = m\<rparr>"
    if "(t, k, m) \<in> set (take n ?cs)" for t k m
    using in_set_takeD [OF that] by (simp add: plan_candidates_set [OF assms(2)])
qed (rule planned_total_sum [OF assms])

lemma plan_total_sum:
  assumes "lru_ok s" "commit_input s updates removals"
  shows "lru_ok (lru_apply updates removals cleared (lru_plan s updates removals cleared budget keep) s)"
proof -
  obtain n where "lru_plan s updates removals cleared budget keep =
     \<lparr>pl_victims = map cand_key (take n (eviction_order s updates removals cleared keep)),
      pl_total = evicted_total (planned_total s updates removals cleared)
        (take n (eviction_order s updates removals cleared keep))\<rparr>"
    by (rule plan_prefix)
  then show ?thesis
    using evicted_prefix_sum [OF assms, of cleared n keep] by (simp add: lru_ok_def lru_apply_entries)
qed

lemma plan_within_budget:
  assumes "commit_input s updates removals"
    and "p = lru_plan s updates removals cleared budget keep"
    and "\<not> pl_total p \<le> budget"
    and "bt_contains (lr_entries (lru_apply updates removals cleared p s)) k"
  shows "k \<in> set keep"
proof (rule ccontr)
  assume no: "k \<notin> set keep"
  let ?cs = "eviction_order s updates removals cleared keep"
  obtain n where p: "p = \<lparr>pl_victims = map cand_key (take n ?cs),
      pl_total = evicted_total (planned_total s updates removals cleared) (take n ?cs)\<rparr>"
    and n: "n = length ?cs \<or> evicted_total (planned_total s updates removals cleared) (take n ?cs) \<le> budget"
    unfolding assms(2) by (rule plan_prefix)
  with assms(3) have all: "pl_victims p = map cand_key ?cs" by simp
  from assms(4) obtain e where "bt_lookup (commit_entries s updates removals cleared) k = Some e"
    "k \<notin> set (pl_victims p)"
    by (auto simp: bt_contains_def lru_apply_entries fold_remove_lookup split: if_splits)
  moreover from this(1) no have "(en_tick e, k, en_bytes e) \<in> set ?cs"
    by (simp add: plan_candidates_set [OF assms(1)])
  then have "k \<in> set (map cand_key ?cs)" by (rule cand_key_mem)
  ultimately show False by (simp add: all)
qed

lemma plan_victims_entries:
  assumes "commit_input s updates removals"
    and "v \<in> set (pl_victims (lru_plan s updates removals cleared budget keep))"
  obtains e where "bt_lookup (commit_entries s updates removals cleared) v = Some e" "v \<notin> set keep"
proof -
  let ?cs = "eviction_order s updates removals cleared keep"
  obtain n where "pl_victims (lru_plan s updates removals cleared budget keep) = map cand_key (take n ?cs)"
    by (rule plan_prefix [of s updates removals cleared keep budget]) simp
  with assms(2) obtain c where c: "c \<in> set ?cs" "v = cand_key c"
    by (auto dest: in_set_takeD)
  obtain t k n where "c = (t, k, n)" by (cases c)
  with c plan_candidates_set [OF assms(1), of t k n cleared keep] that show ?thesis by simp
qed

text \<open>Everything shed is less recently used than every candidate that stays.\<close>

lemma plan_order:
  assumes inp: "commit_input s updates removals"
    and p: "p = lru_plan s updates removals cleared budget keep"
    and v: "v \<in> set (pl_victims p)" "bt_lookup (commit_entries s updates removals cleared) v = Some ev"
    and k: "bt_lookup (lr_entries (lru_apply updates removals cleared p s)) k = Some ek" "k \<notin> set keep"
  shows "(en_tick ev, v) \<le> (en_tick ek, k)"
proof -
  let ?cs = "eviction_order s updates removals cleared keep"
  let ?f = "\<lambda>(tick :: u64, key :: bytes, _ :: u64). (tick, key)"
  obtain n where n: "pl_victims p = map cand_key (take n ?cs)"
    unfolding p by (rule plan_prefix [of s updates removals cleared keep budget]) simp
  have entry_eq: "\<lparr>en_tick = en_tick e, en_bytes = en_bytes e\<rparr> = e" for e by simp
  from k have k': "bt_lookup (commit_entries s updates removals cleared) k = Some ek" "k \<notin> set (pl_victims p)"
    by (auto simp: lru_apply_entries fold_remove_lookup split: if_splits)
  then have kc: "(en_tick ek, k, en_bytes ek) \<in> set ?cs"
    using k(2) by (simp add: plan_candidates_set [OF inp])
  have "(en_tick ek, k, en_bytes ek) \<notin> set (take n ?cs)"
    using k'(2) unfolding n by (blast dest: cand_key_mem)
  with kc have kd: "(en_tick ek, k, en_bytes ek) \<in> set (drop n ?cs)"
    by (metis Un_iff append_take_drop_id set_append)
  from v(1) obtain c where c: "c \<in> set (take n ?cs)" "v = cand_key c" by (auto simp: n)
  obtain tv v' nv where "c = (tv, v', nv)" by (rule prod_cases3)
  with c(2) have cv: "c = (tv, v, nv)" by simp
  have "(tv, v, nv) \<in> set ?cs" using in_set_takeD [OF c(1)] cv by simp
  then have ev: "ev = \<lparr>en_tick = tv, en_bytes = nv\<rparr>"
    using v(2) by (simp add: plan_candidates_set [OF inp])
  have "sorted (map ?f (take n ?cs @ drop n ?cs))"
    unfolding append_take_drop_id eviction_order_def by (rule sorted_sort_key)
  then have "\<forall>x\<in>set (map ?f (take n ?cs)). \<forall>y\<in>set (map ?f (drop n ?cs)). x \<le> y"
    unfolding map_append sorted_append by blast
  moreover have "(tv, v) \<in> set (map ?f (take n ?cs))"
    unfolding set_map by (rule image_eqI [of _ _ "(tv, v, nv)"]) (use c(1) cv in simp_all)
  moreover have "(en_tick ek, k) \<in> set (map ?f (drop n ?cs))"
    unfolding set_map by (rule image_eqI [OF _ kd]) simp
  ultimately have "(tv, v) \<le> (en_tick ek, k)" by blast
  then show ?thesis by (simp only: ev entry.simps)
qed

lemma lru_new_simps [simp]:
  "lr_entries (lru_new m) = bt_empty" "lr_total (lru_new m) = 0" "lr_pending (lru_new m) = bt_empty"
  by (simp_all add: lru_new_def)

lemma lru_new_ok [simp]: "lru_ok (lru_new m)"
  by (simp add: lru_ok_def)

section \<open>News from elsewhere, touches, adoption\<close>

lemma remote_put_ok:
  assumes "lru_ok s" "esum (lr_entries s) + unat n < 2 ^ 64"
  shows "lru_ok (remote_put key (Some n) s)"
proof -
  have "unat (sub_old (lr_total s) (bt_lookup (lr_entries s) key)) = esum (bt_remove key (lr_entries s))"
    using assms(1) by (intro sub_old_sum) (simp add: lru_ok_def)
  moreover have "esum (bt_remove key (lr_entries s)) + unat n < 2 ^ 64"
    using assms(2) esum_remove_le [of key "lr_entries s"] by linarith
  ultimately show ?thesis
    by (simp add: remote_put_def lru_ok_def esum_insert unat_sat_add Let_def)
qed

lemma esum_insert_new: "\<not> bt_contains E k \<Longrightarrow> esum (bt_insert k e E) = esum E + unat (en_bytes e)"
  using bt_sum_insert [of "\<lambda>e. unat (en_bytes e)" k e E] by (simp add: bt_contains_def)

lemma remote_put_unknown_ok: "lru_ok s \<Longrightarrow> lru_ok (remote_put key None s)"
  by (simp add: remote_put_def lru_ok_def mark_dirty_def esum_insert_new)

lemma remote_delete_ok: "lru_ok s \<Longrightarrow> lru_ok (remote_delete key s)"
  by (simp add: remote_delete_def lru_ok_def sub_old_sum)

lemma remote_clear_ok: "lru_ok (remote_clear s)"
  by (simp add: remote_clear_def lru_ok_def)

lemma touch_ok: "lru_ok s \<Longrightarrow> lru_ok (touch key t s)"
proof (cases "bt_lookup (lr_entries s) key")
  case (Some e)
  assume "lru_ok s"
  then show ?thesis
    using bt_sum_insert [of "\<lambda>e. unat (en_bytes e)" key "e\<lparr>en_tick := t\<rparr>" "lr_entries s"] Some
    by (simp add: touch_def lru_ok_def)
qed (simp add: touch_def)

lemma lru_adopt_ok: "lru_ok s \<Longrightarrow> lru_ok (lru_adopt key s)"
  by (simp add: lru_adopt_def lru_ok_def esum_insert_new)

section \<open>The clock\<close>

definition tick_bound :: "tick_state \<Rightarrow> u64" where
  "tick_bound t = max (case tk_next t of Some n \<Rightarrow> n | None \<Rightarrow> 0) (tk_floor t)"

lemma tick_cursor_ge: "tick_cursor t stored = Some x \<Longrightarrow> tick_bound t \<le> x"
  by (auto simp: tick_cursor_def tick_bound_def le_max_iff_disj split: option.splits)

lemma tick_advance_Inr: "tick_advance x = Inr j \<Longrightarrow> x < j"
  by (auto simp: tick_advance_def split: option.splits dest: checked_succ_less)

lemma tick_take_Inr:
  "tick_take t = (Inr (Some x), t') \<Longrightarrow> tick_bound t \<le> x \<and> x < tick_bound t'"
  "tick_take t = (Inr None, t') \<Longrightarrow> t' = t"
  by (auto simp: tick_take_def tick_bound_def less_max_iff_disj dest!: tick_cursor_ge tick_advance_Inr
      split: option.splits sum.splits)

lemma tick_seed_Inr:
  "tick_seed_and_take st t = (Inr x, t') \<Longrightarrow> tick_bound t \<le> x \<and> x < tick_bound t'"
proof -
  assume a: "tick_seed_and_take st t = (Inr x, t')"
  obtain y where y: "tick_cursor t (Some st) = Some y"
    by (cases "tk_next t") (auto simp: tick_cursor_def)
  with a obtain j where "x = y" "tick_advance y = Inr j" "t' = t\<lparr>tk_next := Some j\<rparr>"
    by (auto simp: tick_seed_and_take_def split: sum.splits)
  with tick_cursor_ge [OF y] show ?thesis
    by (auto simp: tick_bound_def less_max_iff_disj dest: tick_advance_Inr)
qed

text \<open>A tick is at least everything the clock has seen, and the clock ends above it.\<close>

lemma tick_allocate_Inr:
  assumes "tick_allocate B b t = (Inr x, t')"
  shows "tick_bound t \<le> x \<and> x < tick_bound t'"
proof -
  from assms obtain r s where r: "tick_take t = (Inr r, s)"
    and k: "(case r of Some t \<Rightarrow> sret t
      | None \<Rightarrow> (\<lambda>t. case bk_get B b Meta META_NEXT_TICK of
             Inl e \<Rightarrow> (Inl e, t)
           | Inr None \<Rightarrow> tick_seed_and_take 0 t
           | Inr (Some bs) \<Rightarrow>
               if length bs = 8 then tick_seed_and_take (from_be64 bs) t
               else (Inl (Corrupt ''next_tick is not an 8-byte integer''), t))) s = (Inr x, t')"
    unfolding tick_allocate_def sbind_eq_Inr_iff by blast
  show ?thesis
  proof (cases r)
    case None
    then have "s = t" using r tick_take_Inr(2) by blast
    then have "\<exists>st. tick_seed_and_take st t = (Inr x, t')"
      using k None by (auto split: sum.splits option.splits if_splits)
    then show ?thesis using tick_seed_Inr by blast
  next
    case (Some y)
    then show ?thesis using k r tick_take_Inr(1) by simp
  qed
qed

lemma observe_recorded_Inr:
  "observe_recorded m t = (Inr (), t') \<Longrightarrow> m < tick_bound t' \<and> tick_bound t \<le> tick_bound t'"
  by (auto simp: observe_recorded_def tick_bound_def Let_def less_max_iff_disj le_max_iff_disj
      dest: tick_advance_Inr split: option.splits sum.splits)

section \<open>Loading\<close>

text \<open>One round of the loop of \<open>load\<close> on a stored row, and the whole loop.\<close>

definition load_row :: "locker_id \<Rightarrow> lru_state \<times> u64 option \<Rightarrow> bytes \<times> bytes \<Rightarrow> lru_state \<times> u64 option" where
  "load_row i acc row =
     (case (user_key (locker_prefix i) (fst row), parse_entry (snd row)) of
        (Some key, Some e) \<Rightarrow>
          ((fst acc)\<lparr>lr_total := sat_add (lr_total (fst acc)) (en_bytes e),
             lr_entries := bt_insert key e (lr_entries (fst acc))\<rparr>,
           Some (case snd acc of None \<Rightarrow> en_tick e | Some m \<Rightarrow> max m (en_tick e)))
      | _ \<Rightarrow> acc)"

lemma load_items:
  "foldM_r (load_item (locker_prefix i)) acc (map (scan_item True) rows) = Inr (foldl (load_row i) acc rows)"
  by (induction rows arbitrary: acc)
    (auto simp: load_item_def load_row_def scan_item_def split: option.splits prod.splits)

lemma load_rows_lookup:
  assumes "distinct (map fst rows)"
  shows "bt_lookup (lr_entries (fst (foldl (load_row i) acc rows))) k =
    (case map_of rows (entry_key i k) of
       Some v \<Rightarrow> (case parse_entry v of Some e \<Rightarrow> Some e | None \<Rightarrow> bt_lookup (lr_entries (fst acc)) k)
     | None \<Rightarrow> bt_lookup (lr_entries (fst acc)) k)"
  using assms
proof (induction rows arbitrary: acc)
  case (Cons row rows)
  obtain x v where row: "row = (x, v)" by (cases row)
  have "map_of rows x = None" using Cons.prems by (simp add: row map_of_eq_None_iff)
  then show ?case
    using Cons by (auto simp: row load_row_def user_key_eq_Some_iff split: option.splits)
qed simp

lemma load_rows_ticks:
  assumes "\<And>k e. bt_lookup (lr_entries (fst acc)) k = Some e \<Longrightarrow> \<exists>m. snd acc = Some m \<and> en_tick e \<le> m"
  shows "bt_lookup (lr_entries (fst (foldl (load_row i) acc rows))) k = Some e
      \<Longrightarrow> \<exists>m. snd (foldl (load_row i) acc rows) = Some m \<and> en_tick e \<le> m"
  using assms
proof (induction rows arbitrary: acc)
  case (Cons row rows)
  have "\<exists>m. snd (load_row i acc row) = Some m \<and> en_tick e \<le> m"
    if "bt_lookup (lr_entries (fst (load_row i acc row))) k = Some e" for k e
    using that Cons.prems(2) [of k e]
    by (auto simp: load_row_def le_max_iff_disj split: option.splits if_splits)
  with Cons.IH [of "load_row i acc row"] Cons.prems(1) show ?case by simp
qed simp

text \<open>Where the sum of the rows fits, the loaded total is the sum of the loaded entries.\<close>

lemma load_rows_ok:
  assumes "distinct (map fst rows)" "lru_ok (fst acc)"
    "\<And>row key. row \<in> set rows \<Longrightarrow> fst row = entry_key i key \<Longrightarrow> \<not> bt_contains (lr_entries (fst acc)) key"
    "esum (lr_entries (fst (foldl (load_row i) acc rows))) < 2 ^ 64"
  shows "lru_ok (fst (foldl (load_row i) acc rows))"
  using assms
proof (induction rows arbitrary: acc)
  case (Cons row rows)
  let ?acc = "load_row i acc row"
  have mono: "esum (lr_entries (fst acc)) \<le> esum (lr_entries (fst (foldl (load_row i) acc rows)))"
    if "distinct (map fst rows)" "\<And>row key. row \<in> set rows \<Longrightarrow> fst row = entry_key i key \<Longrightarrow> \<not> bt_contains (lr_entries (fst acc)) key"
    for acc and rows :: "(bytes \<times> bytes) list"
    using that
  proof (induction rows arbitrary: acc)
    case (Cons r rs)
    have "esum (lr_entries (fst acc)) \<le> esum (lr_entries (fst (load_row i acc r)))"
      using Cons.prems(2) [of r]
      by (auto simp: load_row_def user_key_eq_Some_iff esum_insert_new split: option.splits)
    moreover have "\<not> bt_contains (lr_entries (fst (load_row i acc r))) key"
      if "row \<in> set rs" "fst row = entry_key i key" for row key
      using that Cons.prems(1) Cons.prems(2) [of row key]
      by (auto simp: load_row_def user_key_eq_Some_iff image_iff split: option.splits)
    ultimately show ?case
      using Cons.IH [of "load_row i acc r"] Cons.prems(1) by force
  qed simp
  have new: "\<not> bt_contains (lr_entries (fst ?acc)) key"
    if "r \<in> set rows" "fst r = entry_key i key" for r key
    using that Cons.prems(1) Cons.prems(3) [of r key]
    by (auto simp: load_row_def user_key_eq_Some_iff image_iff split: option.splits)
  have "esum (lr_entries (fst ?acc)) < 2 ^ 64"
    using mono [of rows ?acc] new Cons.prems(1,4) by force
  then have "lru_ok (fst ?acc)"
    using Cons.prems(2) Cons.prems(3) [of row]
    by (auto simp: load_row_def lru_ok_def user_key_eq_Some_iff esum_insert_new unat_sat_add split: option.splits)
  with new Cons show ?case by simp
qed simp

context live_backend
begin

lemma lru_load_live:
  fixes i
  defines "rows b \<equiv> filter (\<lambda>p. prefix (locker_prefix i) (fst p)) (bt_entries (tb_meta (tabs b)))"
  assumes "ready b"
  shows "lru_load B b i max_bytes ticks =
     (case foldl (load_row i) (lru_new max_bytes, None) (rows b) of
        (s, None) \<Rightarrow> (Inr s, ticks)
      | (s, Some m) \<Rightarrow> sbind (observe_recorded m) (\<lambda>_. sret s) ticks)"
proof -
  have np: "\<not> range_panics (kr_start (kr_prefix p)) (kr_end (kr_prefix p))" for p
  proof -
    have "kr_contains (kr_prefix p) p" by simp
    then show ?thesis
      by (cases "kr_start (kr_prefix p)"; cases "kr_end (kr_prefix p)") (auto simp: kr_contains_def)
  qed
  have "scan_order (tb_meta (tabs b)) (kr_prefix (locker_prefix i)) False = rows b"
    by (simp add: scan_order_def tree_range_def rows_def case_prod_unfold)
  then have "page_loop (bk_fuel B b) B b (lru_load_request i) (load_item (locker_prefix i)) (lru_new max_bytes, None)
      = Inr (foldl (load_row i) (lru_new max_bytes, None) (rows b))"
    using page_loop_live [OF assms(2), of "lru_load_request i" "load_item (locker_prefix i)" "(lru_new max_bytes, None)"] np
    by (simp add: lru_load_request_def SCAN_PAGE_def DEFAULT_SCAN_PAGE_def load_items)
  then show ?thesis
    by (cases "foldl (load_row i) (lru_new max_bytes, None) (rows b)")
      (auto simp: lru_load_def split: option.split)
qed

end

lemma map_of_filter_prefix:
  "prefix p k \<Longrightarrow> map_of (filter (\<lambda>r. prefix p (fst r)) xs) k = map_of xs k"
  by (induction xs) auto

text \<open>Over a live backend the loaded entries are the rows of the locker, and the clock is past them.\<close>

context live_backend
begin

lemma lru_load_spec:
  assumes "ready b" "lru_load B b i max_bytes ticks = (Inr s, ticks')"
  shows "bt_lookup (lr_entries s) k = Option.bind (bt_lookup (tb_meta (tabs b)) (entry_key i k)) parse_entry"
    and "bt_lookup (lr_entries s) k = Some e \<Longrightarrow> en_tick e < tick_bound ticks'"
    and "esum (lr_entries s) < 2 ^ 64 \<Longrightarrow> lru_ok s"
proof -
  let ?rows = "filter (\<lambda>p. prefix (locker_prefix i) (fst p)) (bt_entries (tb_meta (tabs b)))"
  obtain s' m where r: "foldl (load_row i) (lru_new max_bytes, None) ?rows = (s', m)"
    by (cases "foldl (load_row i) (lru_new max_bytes, None) ?rows")
  then have s: "s' = s" and t: "m \<noteq> None \<Longrightarrow> observe_recorded (the m) ticks = (Inr (), ticks')"
    using assms lru_load_live [OF assms(1), of i max_bytes ticks]
    by (auto simp: sbind_eq_Inr_iff split: option.splits)
  have d: "distinct (map fst ?rows)" by (simp add: distinct_map_filter)
  show look: "bt_lookup (lr_entries s) k = Option.bind (bt_lookup (tb_meta (tabs b)) (entry_key i k)) parse_entry" for k
  proof -
    have "map_of ?rows (entry_key i k) = bt_lookup (tb_meta (tabs b)) (entry_key i k)"
      by (simp add: map_of_filter_prefix entry_key_def bt_lookup_def)
    with load_rows_lookup [OF d, of i "(lru_new max_bytes, None)" k] show ?thesis
      by (simp only: r s fst_conv) (simp split: option.split)
  qed
  show "en_tick e < tick_bound ticks'" if e: "bt_lookup (lr_entries s) k = Some e"
  proof -
    have "\<exists>m'. m = Some m' \<and> en_tick e \<le> m'"
      using load_rows_ticks [of "(lru_new max_bytes, None)" i ?rows k e] e by (simp add: r s)
    then show ?thesis using t observe_recorded_Inr by fastforce
  qed
  show "lru_ok s" if "esum (lr_entries s) < 2 ^ 64"
    using load_rows_ok [OF d, of "(lru_new max_bytes, None)" i] that
    by (simp add: r s)
qed

end

section \<open>Properties\<close>

text \<open>A locker with two entries, the older one the larger.\<close>

definition lru_two :: lru_state where
  "lru_two = (lru_new 10)\<lparr>
     lr_entries := bt_insert [1] \<lparr>en_tick = 5, en_bytes = 6\<rparr> (bt_insert [2] \<lparr>en_tick = 7, en_bytes = 3\<rparr> bt_empty),
     lr_total := 9\<rparr>"

lemma lru_two_ok: "lru_ok lru_two"
  by (simp add: lru_ok_def lru_two_def bt_sum_def)

lemma lru_two_input: "commit_input lru_two [([3], \<lparr>en_tick = 8, en_bytes = 4\<rparr>)] []"
  by (simp add: commit_input_def lru_two_def bt_sum_def update_bytes_def)

lemma lru_two_plan:
  "lru_plan lru_two [([3], \<lparr>en_tick = 8, en_bytes = 4\<rparr>)] [] False 10 [[3]] = \<lparr>pl_victims = [[1]], pl_total = 7\<rparr>"
  by (simp add: lru_plan_def lru_two_def planned_total_def plan_candidates_def sub_old_def sat_add_def sat_sub_def
      bt_lookup_def less_eq_prod_def)

text \<open>
  The accounted total of a locker stays the sum of its entries through every planned commit: the
  updates, the removals and the victims are each counted once.
\<close>

theorem lru_commit_total:
  assumes "lru_ok s" "commit_input s updates removals"
  shows "lru_ok (lru_apply updates removals cleared (lru_plan s updates removals cleared budget keep) s)"
  using assms by (rule plan_total_sum)

theorem lru_commit_total_witness:
  "lru_ok (lru_apply [([3], \<lparr>en_tick = 8, en_bytes = 4\<rparr>)] [] False
     (lru_plan lru_two [([3], \<lparr>en_tick = 8, en_bytes = 4\<rparr>)] [] False 10 [[3]]) lru_two)"
  by (rule lru_commit_total [OF lru_two_ok lru_two_input])

text \<open>
  C37: After a planned commit the budget holds, unless only keys that had to be kept are left; and the
  last victim was needed: without shedding it the sum would be over the budget.
\<close>

theorem lru_plan_sheds_enough_and_no_more:
  assumes "lru_ok s" "commit_input s updates removals"
    and "p = lru_plan s updates removals cleared budget keep"
  shows "(if pl_total p \<le> budget then True
      else {k. bt_contains (lr_entries (lru_apply updates removals cleared p s)) k} \<subseteq> set keep)
    \<and> (if pl_victims p = [] then True
       else unat budget < esum (fold bt_remove (butlast (pl_victims p)) (commit_entries s updates removals cleared)))"
proof
  show "if pl_total p \<le> budget then True
      else {k. bt_contains (lr_entries (lru_apply updates removals cleared p s)) k} \<subseteq> set keep"
    using plan_within_budget [OF assms(2,3)] by auto
  let ?cs = "eviction_order s updates removals cleared keep"
  let ?tot = "planned_total s updates removals cleared"
  obtain n where n: "n \<le> length ?cs"
    and plan: "lru_plan s updates removals cleared budget keep =
      \<lparr>pl_victims = map cand_key (take n ?cs), pl_total = evicted_total ?tot (take n ?cs)\<rparr>"
    and over: "\<forall>m<n. budget < evicted_total ?tot (take m ?cs)"
    by (rule plan_prefix)
  have victims: "pl_victims p = map cand_key (take n ?cs)"
    using plan by (simp add: assms(3))
  show "if pl_victims p = [] then True
       else unat budget < esum (fold bt_remove (butlast (pl_victims p)) (commit_entries s updates removals cleared))"
  proof (cases n)
    case (Suc m)
    then have "butlast (pl_victims p) = map cand_key (take m ?cs)"
      using n by (simp add: victims butlast_take map_butlast [symmetric])
    moreover have "budget < evicted_total ?tot (take m ?cs)"
      using over Suc by simp
    ultimately show ?thesis
      using evicted_prefix_sum [OF assms(1,2), of cleared m keep] by (simp add: word_less_nat_alt)
  qed (simp add: victims)
qed

theorem lru_plan_sheds_enough_witness:
  "10 < esum (commit_entries lru_two [([3], \<lparr>en_tick = 8, en_bytes = 4\<rparr>)] [] False)"
  using lru_plan_sheds_enough_and_no_more [OF lru_two_ok lru_two_input lru_two_plan [symmetric]] by simp

text \<open>
  What a planned commit sheds is less recently used than every key it leaves, in the order of ticks
  and, among equal ticks, of keys; keys it must keep are never shed.
\<close>

theorem lru_plan_sheds_oldest:
  assumes "commit_input s updates removals"
    and "p = lru_plan s updates removals cleared budget keep"
    and "v \<in> set (pl_victims p)" "bt_lookup (commit_entries s updates removals cleared) v = Some ev"
    and "bt_lookup (lr_entries (lru_apply updates removals cleared p s)) k = Some ek" "k \<notin> set keep"
  shows "(en_tick ev, v) \<le> (en_tick ek, k) \<and> v \<notin> set keep"
  using plan_order [OF assms] plan_victims_entries [OF assms(1) assms(3) [unfolded assms(2)]] by blast

theorem lru_plan_sheds_oldest_witness:
  "(5, [1]) \<le> (7 :: u64, [2] :: bytes) \<and> [1] \<notin> set [[3 :: byte]]"
  using lru_plan_sheds_oldest [OF lru_two_input lru_two_plan [symmetric], of "[1]" "\<lparr>en_tick = 5, en_bytes = 6\<rparr>" "[2]"
      "\<lparr>en_tick = 7, en_bytes = 3\<rparr>"]
  by (simp add: commit_entries_def lru_apply_def lru_two_def)

text \<open>
  The bank's clock: a tick it hands out is at least everything handed out before or recorded in
  storage, and afterwards the clock is past it; so no tick is ever given twice.
\<close>

theorem tick_strictly_increases:
  assumes "tick_allocate B b t = (Inr x, t')" "tick_allocate B' b' t' = (Inr y, t'')"
  shows "tick_bound t \<le> x \<and> x < y \<and> y < tick_bound t''"
  using tick_allocate_Inr [OF assms(1)] tick_allocate_Inr [OF assms(2)] by auto

theorem tick_strictly_increases_witness: "(3 :: u64) \<le> 4 \<and> (4 :: u64) < 5 \<and> (5 :: u64) < 6"
  using tick_strictly_increases [of memory_backend_vt memory_new "\<lparr>tk_next = Some 4, tk_floor = 3\<rparr>" 4
      "\<lparr>tk_next = Some 5, tk_floor = 3\<rparr>" memory_backend_vt memory_new 5 "\<lparr>tk_next = Some 6, tk_floor = 3\<rparr>"]
  by (simp add: tick_allocate_def tick_take_def tick_cursor_def tick_advance_def checked_succ_def tick_bound_def max_def)

text \<open>
  Loading a locker's accounting from an open memory backend gives exactly the parsable records of
  that locker, whatever the page size, leaves the clock past every recorded tick, and its total is the
  sum of the entries when that fits.
\<close>

theorem lru_load_exact:
  assumes "\<not> mb_closed m" "lru_load memory_backend_vt m i max_bytes ticks = (Inr s, ticks')"
  shows "bt_lookup (lr_entries s) k = Option.bind (bt_lookup (tb_meta (mb_tables m)) (entry_key i k)) parse_entry
    \<and> (case bt_lookup (lr_entries s) k of None \<Rightarrow> True | Some e \<Rightarrow> en_tick e < tick_bound ticks')
    \<and> (if esum (lr_entries s) < 2 ^ 64 then lru_ok s else True)"
  using mem.lru_load_spec [OF assms] by (auto split: option.split)

theorem lru_load_exact_witness:
  "\<exists>s ticks'. lru_load memory_backend_vt memory_new 1 10 ticks_default = (Inr s, ticks')
    \<and> bt_lookup (lr_entries s) [1] = None"
proof -
  have open': "\<not> mb_closed memory_new" by (simp add: memory_new_def)
  have "lru_load memory_backend_vt memory_new 1 10 ticks_default = (Inr (lru_new 10), ticks_default)"
    using mem.lru_load_live [OF open', of 1 10 ticks_default] by (simp add: memory_new_def tables_default_def)
  from this lru_load_exact [OF open' this, of "[1]"] show ?thesis
    by (auto simp: memory_new_def tables_default_def)
qed

end
