(* ===== verification/Watch.thy ===== *)
theory Watch
  imports Keys
begin

text \<open>
  \<open>src/watch.rs\<close>: change notification. A subscriber's bounded queue is the \<open>mpsc\<close> channel of the
  \<open>futures\<close> crate, so sending is a parameter \<open>try_send\<close> over an abstract sender \<open>'q\<close>; the locale
  \<open>mpsc_channel\<close> states what it documents, and \<open>bounded_queue\<close>, used in the instances only, is a queue that keeps it. Events that
  find a full queue are counted and reported by \<open>Lagged\<close>: nothing is lost unnoticed.
\<close>

definition DEFAULT_CAPACITY :: nat where
  "DEFAULT_CAPACITY = 64"

datatype event =
    Ev_Put bytes
  | Ev_Deleted bytes
  | Ev_Cleared
  | Ev_Stale bytes
  | Ev_Evicted bytes
  | Ev_Lagged u64

fun event_key_bytes :: "event \<Rightarrow> bytes" where
  "event_key_bytes (Ev_Put k) = k"
| "event_key_bytes (Ev_Deleted k) = k"
| "event_key_bytes (Ev_Evicted k) = k"
| "event_key_bytes (Ev_Stale k) = k"
| "event_key_bytes Ev_Cleared = []"
| "event_key_bytes (Ev_Lagged n) = []"

fun event_key :: "event \<Rightarrow> bytes option" where
  "event_key (Ev_Put k) = (if utf8_valid k then Some k else None)"
| "event_key (Ev_Deleted k) = (if utf8_valid k then Some k else None)"
| "event_key (Ev_Evicted k) = (if utf8_valid k then Some k else None)"
| "event_key (Ev_Stale k) = (if utf8_valid k then Some k else None)"
| "event_key Ev_Cleared = None"
| "event_key (Ev_Lagged n) = None"

fun event_matches :: "event \<Rightarrow> bytes list option \<Rightarrow> bool" where
  "event_matches ev None \<longleftrightarrow> True"
| "event_matches Ev_Cleared (Some ks) \<longleftrightarrow> True"
| "event_matches (Ev_Lagged n) (Some ks) \<longleftrightarrow> True"
| "event_matches ev (Some ks) \<longleftrightarrow> event_key_bytes ev \<in> set ks"

section \<open>Subscribers\<close>

datatype send_result = Sent | Send_Full | Send_Disconnected

type_synonym 'q try_send = "event \<Rightarrow> 'q \<Rightarrow> send_result \<times> 'q"

record 'q subscriber =
  sb_sender :: 'q
  sb_filter :: "bytes list option"
  sb_skipped :: u64

type_synonym 'q watchers = "'q subscriber list"

definition subscribe :: "(nat \<Rightarrow> 'q) \<Rightarrow> bytes list option \<Rightarrow> nat \<Rightarrow> 'q watchers \<Rightarrow> 'q watchers" where
  "subscribe channel filt capacity subs =
     subs @ [\<lparr>sb_sender = channel capacity, sb_filter = filt, sb_skipped = 0\<rparr>]"

definition send_event :: "'q try_send \<Rightarrow> event \<Rightarrow> 'q subscriber \<Rightarrow> 'q subscriber option" where
  "send_event try_send ev sub =
     (case try_send ev (sb_sender sub) of
        (Sent, q) \<Rightarrow> Some (sub\<lparr>sb_sender := q\<rparr>)
      | (Send_Disconnected, q) \<Rightarrow> None
      | (Send_Full, q) \<Rightarrow> Some (sub\<lparr>sb_sender := q, sb_skipped := sat_add (sb_skipped sub) 1\<rparr>))"

text \<open>The closure of \<open>retain_mut\<close>: \<open>None\<close> drops the subscriber.\<close>

definition deliver :: "'q try_send \<Rightarrow> event \<Rightarrow> 'q subscriber \<Rightarrow> 'q subscriber option" where
  "deliver try_send ev sub =
     (if \<not> event_matches ev (sb_filter sub) then Some sub
      else if sb_skipped sub > 0 then
        (case try_send (Ev_Lagged (sb_skipped sub)) (sb_sender sub) of
           (Sent, q) \<Rightarrow> send_event try_send ev (sub\<lparr>sb_sender := q, sb_skipped := 0\<rparr>)
         | (Send_Disconnected, q) \<Rightarrow> None
         | (Send_Full, q) \<Rightarrow> Some (sub\<lparr>sb_sender := q, sb_skipped := sat_add (sb_skipped sub) 1\<rparr>))
      else send_event try_send ev sub)"

definition broadcast :: "'q try_send \<Rightarrow> event \<Rightarrow> 'q watchers \<Rightarrow> 'q watchers" where
  "broadcast try_send ev subs = List.map_filter (deliver try_send ev) subs"

section \<open>The channel\<close>

text \<open>
  \<open>delivered\<close> is what a sender has put into its channel, and \<open>connected\<close> says whether the receiver is still there:
  a send is refused as disconnected exactly when it is not, and a full channel takes nothing.
\<close>

locale mpsc_channel =
  fixes try_send :: "'q try_send" and delivered :: "'q \<Rightarrow> event list" and connected :: "'q \<Rightarrow> bool"
  assumes sent: "try_send ev q = (Sent, q') \<Longrightarrow> delivered q' = delivered q @ [ev] \<and> connected q'"
    and full: "try_send ev q = (Send_Full, q') \<Longrightarrow> delivered q' = delivered q \<and> connected q'"
    and disconnected: "fst (try_send ev q) = Send_Disconnected \<longleftrightarrow> \<not> connected q"

text \<open>What a subscriber has been told of: events delivered, each gap a \<open>Lagged\<close> reported, and the gap still to be reported.\<close>

fun event_weight :: "event \<Rightarrow> nat" where
  "event_weight (Ev_Lagged n) = unat n"
| "event_weight _ = 1"

definition accounted :: "('q \<Rightarrow> event list) \<Rightarrow> 'q subscriber \<Rightarrow> nat" where
  "accounted delivered sub = sum_list (map event_weight (delivered (sb_sender sub))) + unat (sb_skipped sub)"

definition told_one_more :: "('q \<Rightarrow> event list) \<Rightarrow> event \<Rightarrow> 'q subscriber \<Rightarrow> 'q subscriber \<Rightarrow> bool" where
  "told_one_more delivered ev sub sub' \<longleftrightarrow>
     accounted delivered sub' = accounted delivered sub + (if event_matches ev (sb_filter sub) then 1 else 0)
     \<and> sb_filter sub' = sb_filter sub"

context mpsc_channel
begin

lemma send_event_told:
  assumes "connected (sb_sender sub)" "event_weight ev = 1" "unat (sb_skipped sub) < 2 ^ 64 - 1"
  shows "\<exists>sub'. send_event try_send ev sub = Some sub' \<and> accounted delivered sub' = accounted delivered sub + 1
    \<and> sb_filter sub' = sb_filter sub"
proof -
  obtain a q where q: "try_send ev (sb_sender sub) = (a, q)" by fastforce
  then have "a \<noteq> Send_Disconnected" using disconnected [of ev "sb_sender sub"] assms(1) by simp
  then show ?thesis
    using assms(2,3) q sent [of ev "sb_sender sub" q] full [of ev "sb_sender sub" q]
    by (cases a) (simp_all add: send_event_def accounted_def unat_sat_add)
qed

lemma deliver_told:
  assumes "connected (sb_sender sub)" "event_weight ev = 1" "unat (sb_skipped sub) < 2 ^ 64 - 1"
  shows "\<exists>sub'. deliver try_send ev sub = Some sub' \<and> told_one_more delivered ev sub sub'"
proof (cases "event_matches ev (sb_filter sub) \<and> sb_skipped sub > 0")
  case False
  then show ?thesis using send_event_told [OF assms] by (auto simp: deliver_def told_one_more_def)
next
  case True
  let ?lag = "Ev_Lagged (sb_skipped sub)"
  obtain a q where q: "try_send ?lag (sb_sender sub) = (a, q)" by fastforce
  show ?thesis
  proof (cases a)
    case Sent
    let ?sub = "sub\<lparr>sb_sender := q, sb_skipped := 0\<rparr>"
    have "connected (sb_sender ?sub)" "accounted delivered ?sub = accounted delivered sub"
      using sent [OF q [unfolded Sent]] by (simp_all add: accounted_def)
    with send_event_told [of ?sub ev] assms(2) q Sent True show ?thesis by (auto simp: deliver_def told_one_more_def)
  next
    case Send_Full
    with full [OF q [unfolded Send_Full]] q True assms(3) show ?thesis
      by (simp add: deliver_def told_one_more_def accounted_def unat_sat_add)
  next
    case Send_Disconnected
    then show ?thesis using disconnected [of ?lag "sb_sender sub"] q assms(1) by simp
  qed
qed

lemma deliver_gone:
  assumes "\<not> connected (sb_sender sub)"
  shows "deliver try_send ev sub = (if event_matches ev (sb_filter sub) then None else Some sub)"
proof -
  have "fst (try_send e (sb_sender sub)) = Send_Disconnected" for e using disconnected assms by simp
  then show ?thesis by (simp add: deliver_def send_event_def case_prod_unfold)
qed

end

text \<open>A bounded queue: what was accepted, what is still queued, the capacity, and the receiver.\<close>

record bounded_queue =
  bq_delivered :: "event list"
  bq_queued :: nat
  bq_capacity :: nat
  bq_open :: bool

definition bq_channel :: "nat \<Rightarrow> bounded_queue" where
  "bq_channel capacity = \<lparr>bq_delivered = [], bq_queued = 0, bq_capacity = Suc capacity, bq_open = True\<rparr>"

definition bq_try_send :: "bounded_queue try_send" where
  "bq_try_send ev q =
     (if \<not> bq_open q then (Send_Disconnected, q)
      else if bq_queued q \<ge> bq_capacity q then (Send_Full, q)
      else (Sent, q\<lparr>bq_delivered := bq_delivered q @ [ev], bq_queued := Suc (bq_queued q)\<rparr>))"

interpretation bq: mpsc_channel bq_try_send bq_delivered bq_open
  by unfold_locales (auto simp: bq_try_send_def split: if_splits)

section \<open>Properties\<close>

text \<open>
  C40: Nothing is lost unnoticed, over any channel that keeps its documentation: a broadcast drops exactly the
  subscribers it concerns whose receiver is gone, in a full channel as in an empty one; every other subscriber stays,
  in its place and with its filter, and if the event matches has exactly one more event accounted for, as delivered,
  as counted by a delivered \<open>Lagged\<close>, or in the gap still to be reported, and otherwise as many as before. (Below
  2^64 - 1 events in one gap, where the count of the gap saturates.)
\<close>

theorem broadcast_accounted:
  assumes "mpsc_channel try_send delivered connected" "event_weight ev = 1" "\<forall>sub\<in>set subs. unat (sb_skipped sub) < 2 ^ 64 - 1"
  shows "list_all2 (\<lambda>sub sub'. sum_list (map event_weight (delivered (sb_sender sub'))) + unat (sb_skipped sub')
       = sum_list (map event_weight (delivered (sb_sender sub))) + unat (sb_skipped sub) + (if event_matches ev (sb_filter sub) then 1 else 0)
       \<and> sb_filter sub' = sb_filter sub)
     (filter (\<lambda>sub. connected (sb_sender sub) \<or> \<not> event_matches ev (sb_filter sub)) subs)
     (broadcast try_send ev subs)"
proof -
  have "list_all2 (told_one_more delivered ev)
     (filter (\<lambda>sub. connected (sb_sender sub) \<or> \<not> event_matches ev (sb_filter sub)) subs) (broadcast try_send ev subs)"
    using assms(3)
  proof (induction subs)
    case (Cons sub subs)
    show ?case
    proof (cases "connected (sb_sender sub)")
      case True
      with Cons mpsc_channel.deliver_told [OF assms(1) True assms(2)] show ?thesis
        by (auto simp: broadcast_def List.map_filter_simps)
    next
      case False
      with Cons mpsc_channel.deliver_gone [OF assms(1) False, of ev] show ?thesis
        by (auto simp: broadcast_def List.map_filter_simps told_one_more_def)
    qed
  qed (simp add: broadcast_def List.map_filter_simps)
  then show ?thesis by (simp add: told_one_more_def [abs_def] accounted_def)
qed

text \<open>Three subscribers: one that fell behind and reads again, one whose queue is full, and one that is gone.\<close>

definition sample_subscribers :: "bounded_queue watchers" where
  "sample_subscribers =
     [\<lparr>sb_sender = \<lparr>bq_delivered = [Ev_Put [1]], bq_queued = 0, bq_capacity = 2, bq_open = True\<rparr>, sb_filter = None, sb_skipped = 3\<rparr>,
      \<lparr>sb_sender = \<lparr>bq_delivered = [Ev_Put [1]], bq_queued = 1, bq_capacity = 1, bq_open = True\<rparr>, sb_filter = Some [[2]], sb_skipped = 0\<rparr>,
      \<lparr>sb_sender = \<lparr>bq_delivered = [], bq_queued = 0, bq_capacity = 1, bq_open = False\<rparr>, sb_filter = None, sb_skipped = 0\<rparr>]"

theorem broadcast_accounted_witness:
  "length (broadcast bq_try_send (Ev_Put [2]) sample_subscribers) = 2"
proof -
  have "list_all2 (\<lambda>sub sub'. sum_list (map event_weight (bq_delivered (sb_sender sub'))) + unat (sb_skipped sub')
       = sum_list (map event_weight (bq_delivered (sb_sender sub))) + unat (sb_skipped sub) + (if event_matches (Ev_Put [2]) (sb_filter sub) then 1 else 0)
       \<and> sb_filter sub' = sb_filter sub)
     (filter (\<lambda>sub. bq_open (sb_sender sub) \<or> \<not> event_matches (Ev_Put [2]) (sb_filter sub)) sample_subscribers)
     (broadcast bq_try_send (Ev_Put [2]) sample_subscribers)"
    by (rule broadcast_accounted [OF bq.mpsc_channel_axioms]) (simp_all add: sample_subscribers_def)
  then show ?thesis by (auto dest!: list_all2_lengthD simp: sample_subscribers_def)
qed

end
