(* ===== verification/Coherence.thy ===== *)
theory Coherence
  imports Chunk Memory_Backend
begin

text \<open>
  \<open>src/coherence/api.rs\<close>: the news one commit makes for the other tabs, derived from its operations,
  and \<open>src/coherence/native.rs\<close>, where coherence is inert. The lemma group shows that a receiver that
  folds an announcement into its key index has the index of what is stored.
\<close>

definition INLINE_LIMIT :: nat where
  "INLINE_LIMIT = 4096"

record change =
  cg_key :: bytes
  cg_value :: "bytes option"
  cg_bytes :: "u64 option"
  cg_deleted :: bool

record announcement =
  an_instance :: u32
  an_locker_id :: locker_id
  an_epoch :: u64
  an_cleared :: bool
  an_changes :: "change list"

text \<open>\<open>.ok()\<close>.\<close>

definition ok :: "'e + 'a \<Rightarrow> 'a option" where
  "ok r = (case r of Inl _ \<Rightarrow> None | Inr x \<Rightarrow> Some x)"

text \<open>One round of the loop over the operations: the flag and the changes so far.\<close>

fun announce_op :: "locker_id \<Rightarrow> bool \<times> change list \<Rightarrow> bop \<Rightarrow> bool \<times> change list" where
  "announce_op l (cleared, changes) (Op_Put Records key v) =
     (case decode_bytes l key of
        Inl _ \<Rightarrow> (cleared, changes)
      | Inr uk \<Rightarrow>
          let pointer = is_pointer v;
              inline = (if length v \<le> INLINE_LIMIT \<and> \<not> pointer then Some v else None);
              n = (if pointer then map_option cp_total_len (ok (pointer_parse v)) else None)
          in (cleared, changes @ [\<lparr>cg_key = uk, cg_value = inline, cg_bytes = n, cg_deleted = False\<rparr>]))"
| "announce_op l (cleared, changes) (Op_Delete Records key) =
     (case decode_bytes l key of
        Inl _ \<Rightarrow> (cleared, changes)
      | Inr uk \<Rightarrow> (cleared, changes @ [\<lparr>cg_key = uk, cg_value = None, cg_bytes = None, cg_deleted = True\<rparr>]))"
| "announce_op l (cleared, changes) (Op_DeleteRange Records r) =
     (if r = locker_range l then (True, []) else (cleared, changes))"
| "announce_op l (cleared, changes) _ = (cleared, changes)"

definition announcement_from_ops :: "u32 \<Rightarrow> locker_id \<Rightarrow> u64 \<Rightarrow> bop list \<Rightarrow> announcement option" where
  "announcement_from_ops inst l epoch ops =
     (let (cleared, changes) = foldl (announce_op l) (False, []) ops in
      if \<not> cleared \<and> changes = [] then None
      else Some \<lparr>an_instance = inst, an_locker_id = l, an_epoch = epoch, an_cleared = cleared,
                 an_changes = changes\<rparr>)"

section \<open>The native half\<close>

record coherence_state =
  ch_closed :: bool

definition coherence_open :: "string \<Rightarrow> coherence_state" where
  "coherence_open name = \<lparr>ch_closed = False\<rparr>"

definition coherence_disabled :: coherence_state where
  "coherence_disabled = \<lparr>ch_closed = False\<rparr>"

definition coherence_prepare :: "coherence_state \<Rightarrow> locker_id \<Rightarrow> bop list \<Rightarrow> announcement option" where
  "coherence_prepare c l ops = None"

definition coherence_post :: "announcement \<Rightarrow> coherence_state \<Rightarrow> coherence_state" where
  "coherence_post a c = c"

definition coherence_close :: "coherence_state \<Rightarrow> coherence_state" where
  "coherence_close c = c\<lparr>ch_closed := True\<rparr>"

section \<open>The announced index is the stored index\<close>

text \<open>What a receiver does to its set of keys: forget everything on a clear, then change by change.\<close>

definition index_change :: "bytes set \<Rightarrow> change \<Rightarrow> bytes set" where
  "index_change ks c = (if cg_deleted c then ks - {cg_key c} else insert (cg_key c) ks)"

definition announced_index :: "bool \<times> change list \<Rightarrow> bytes set \<Rightarrow> bytes set" where
  "announced_index news ks = foldl index_change (if fst news then {} else ks) (snd news)"

definition stored_index :: "locker_id \<Rightarrow> tables \<Rightarrow> bytes set" where
  "stored_index l t = {k. bt_contains (tb_records t) (encode_bytes l k)}"

text \<open>The range deletions the crate makes on records: a whole locker.\<close>

fun clears_whole :: "bop \<Rightarrow> bool" where
  "clears_whole (Op_DeleteRange Records r) \<longleftrightarrow> (\<exists>l. r = locker_range l)"
| "clears_whole _ \<longleftrightarrow> True"

lemma announced_index_snoc:
  "announced_index (cl, cs @ [c]) ks = index_change (announced_index (cl, cs) ks) c"
  by (simp add: announced_index_def)

lemma stored_index_op:
  "stored_index l (apply_op t (Op_Put Records x v)) = stored_index l t \<union> {k. x = encode_bytes l k}"
  "stored_index l (apply_op t (Op_Delete Records x)) = stored_index l t - {k. x = encode_bytes l k}"
  "stored_index l (apply_op t (Op_DeleteRange Records r)) = {k \<in> stored_index l t. \<not> kr_contains r (encode_bytes l k)}"
  using lookup_apply_put [of t Records x v Records] lookup_apply_delete [of t Records x Records]
    lookup_apply_delete_range [of t Records r Records]
  by (auto simp: stored_index_def bt_contains_def split: if_splits)

lemma stored_index_other:
  "tab \<noteq> Records \<Longrightarrow> stored_index l (apply_op t (Op_Put tab x v)) = stored_index l t"
  "tab \<noteq> Records \<Longrightarrow> stored_index l (apply_op t (Op_Delete tab x)) = stored_index l t"
  "tab \<noteq> Records \<Longrightarrow> stored_index l (apply_op t (Op_DeleteRange tab r)) = stored_index l t"
  by (cases tab; simp add: stored_index_def apply_op.simps Let_def)+

lemma announce_op_index:
  assumes "clears_whole op" and that: "stored_index l t = announced_index news ks"
  shows "stored_index l (apply_op t op) = announced_index (announce_op l news op) ks"
proof -
  obtain cl cs where news: "news = (cl, cs)" by (cases news)
  have dec: "decode_bytes l x = Inr k \<longleftrightarrow> x = encode_bytes l k" for x k
    by (rule decode_bytes_Inr_iff)
  have enc: "\<exists>k. decode_bytes l x = Inr k" if "x = encode_bytes l k" for x k using that by simp
  show ?thesis
  proof (cases "(l, (cl, cs), op)" rule: announce_op.cases)
    case (1 l' c' s' x v)
    then show ?thesis
      using that dec [of x] news
      by (cases "decode_bytes l x")
        (auto simp: stored_index_op Let_def announced_index_snoc index_change_def)
  next
    case (2 l' c' s' x)
    then show ?thesis
      using that dec [of x] news
      by (cases "decode_bytes l x")
        (auto simp: stored_index_op announced_index_snoc index_change_def)
  next
    case (3 l' c' s' r)
    then obtain m where m: "r = locker_range m" using assms by auto
    have "locker_range m = locker_range l \<longleftrightarrow> m = l"
      by (metis locker_range_encode)
    then show ?thesis
      using 3 that news m by (auto simp: stored_index_op announced_index_def)
  qed (use that news in \<open>auto simp: stored_index_other\<close>)
qed

lemma announce_ops_index:
  "\<forall>op\<in>set ops. clears_whole op \<Longrightarrow> stored_index l t = announced_index news ks
    \<Longrightarrow> stored_index l (apply_ops t ops) = announced_index (foldl (announce_op l) news ops) ks"
proof (induction ops arbitrary: t news)
  case (Cons op ops)
  then show ?case using announce_op_index [of op l t news ks] by simp
qed simp

section \<open>Properties\<close>

text \<open>
  A receiver whose key index agrees with storage before a commit agrees with it afterwards, if it
  folds in the announcement made of the commit's operations, and does nothing when there is none.
\<close>

theorem announcement_keeps_index:
  assumes "\<forall>op\<in>set ops. clears_whole op" "stored_index l t = ks"
  shows "stored_index l (apply_ops t ops) =
    (case announcement_from_ops inst l epoch ops of
       None \<Rightarrow> ks
     | Some a \<Rightarrow> announced_index (an_cleared a, an_changes a) ks)"
proof -
  have "stored_index l t = announced_index (False, []) ks"
    by (simp add: assms(2) announced_index_def)
  from announce_ops_index [OF assms(1) this] show ?thesis
    by (cases "foldl (announce_op l) (False, []) ops") (auto simp: announcement_from_ops_def announced_index_def)
qed

theorem announcement_keeps_index_witness:
  "stored_index 1 (apply_ops tables_default
      [Op_Put Records (encode_bytes 1 [4]) [9], Op_DeleteRange Records (locker_range 1), Op_Put Records (encode_bytes 1 [5]) [9]]) = {[5]}"
proof -
  let ?ops = "[Op_Put Records (encode_bytes 1 [4]) [9], Op_DeleteRange Records (locker_range 1),
      Op_Put Records (encode_bytes 1 [5]) [9]]"
  have "announcement_from_ops 0 1 0 ?ops = Some \<lparr>an_instance = 0, an_locker_id = 1, an_epoch = 0,
      an_cleared = True, an_changes = [\<lparr>cg_key = [5], cg_value = Some [9], cg_bytes = None, cg_deleted = False\<rparr>]\<rparr>"
    by (simp add: announcement_from_ops_def Let_def is_pointer_def INLINE_LIMIT_def)
  moreover have "stored_index 1 tables_default = {}"
    by (simp add: stored_index_def tables_default_def)
  ultimately show ?thesis
    using announcement_keeps_index [of ?ops 1 tables_default "{}" 0 0]
    by (auto simp: announced_index_def index_change_def)
qed

end
