(* ===== verification/Inner.thy ===== *)
theory Inner
  imports Policy Lru_Facts Watch Coherence
begin

text \<open>
  \<open>src/locker/inner.rs\<close>: what the eager and the lazy locker share. The state a locker's operations
  thread is a chain of record extensions: \<open>shared\<close> is what every locker of a bank shares (with the
  storage itself), \<open>inner_state\<close> adds the mutable part of \<open>Inner\<close>; \<open>Resident\<close> and the lockers
  extend it further. The immutable part of \<open>Inner\<close> is the record \<open>ctx\<close>, first argument of every
  operation, together with the backend's methods, the channel's \<open>try_send\<close> and \<open>postcard\<close> on
  \<open>Vec<u8>\<close>. The write lock is not a field: an operation that holds it is one step of the model.
\<close>

definition CHUNK_FETCH_GROUP :: u32 where
  "CHUNK_FETCH_GROUP = 64"

definition EPOCH_MEMORY :: nat where
  "EPOCH_MEMORY = 4096"

section \<open>State\<close>

record 'b shared =
  sh_store :: 'b
  sh_values :: value_ids
  sh_ticks :: tick_state
  sh_coherence :: coherence_state

record epochs =
  ep_local :: "(bytes, u64) btree"
  ep_applied :: u64

record ('b, 'q) inner_state = "'b shared" +
  in_watchers :: "'q watchers"
  in_closed :: bool
  in_epochs :: epochs
  in_name_shared :: bool

record ('b, 'q) ctx =
  cx_backend :: "'b backend"
  cx_chain :: filter_chain
  cx_id :: locker_id
  cx_name :: string
  cx_config :: locker_config
  cx_try_send :: "'q try_send"
  cx_vec_u8 :: "bytes \<Rightarrow> string + bytes"

datatype prior = Prior_Unknown | Prior_Absent | Prior_Inline

definition needs_read :: "prior \<Rightarrow> bool" where
  "needs_read p \<longleftrightarrow> p = Prior_Unknown"

text \<open>Running an action of a component on its field.\<close>

definition on_values :: "(value_ids, error, 'a) act \<Rightarrow> (('b, 'z) shared_scheme, error, 'a) act" where
  "on_values m s = (case m (sh_values s) of (r, v) \<Rightarrow> (r, s\<lparr>sh_values := v\<rparr>))"

definition on_ticks :: "(tick_state, error, 'a) act \<Rightarrow> (('b, 'z) shared_scheme, error, 'a) act" where
  "on_ticks m s = (case m (sh_ticks s) of (r, t) \<Rightarrow> (r, s\<lparr>sh_ticks := t\<rparr>))"

definition on_store :: "('b, error, 'a) act \<Rightarrow> (('b, 'z) shared_scheme, error, 'a) act" where
  "on_store m s = (case m (sh_store s) of (r, b) \<Rightarrow> (r, s\<lparr>sh_store := b\<rparr>))"

section \<open>Epochs\<close>

definition epochs_default :: epochs where
  "epochs_default = \<lparr>ep_local = bt_empty, ep_applied = 0\<rparr>"

definition note_local :: "bytes list \<Rightarrow> u64 \<Rightarrow> epochs \<Rightarrow> epochs" where
  "note_local keys epoch ep =
     (let m = fold (\<lambda>key. bt_insert key epoch) keys (ep_local ep) in
      ep\<lparr>ep_local := (if bt_len m > EPOCH_MEMORY then bt_empty else m)\<rparr>)"

definition epoch_local :: "epochs \<Rightarrow> bytes \<Rightarrow> u64 option" where
  "epoch_local ep key = bt_lookup (ep_local ep) key"

definition note_applied :: "u64 \<Rightarrow> epochs \<Rightarrow> epochs" where
  "note_applied epoch ep = ep\<lparr>ep_applied := max (ep_applied ep) epoch\<rparr>"

definition forget_local :: "epochs \<Rightarrow> epochs" where
  "forget_local ep = ep\<lparr>ep_local := bt_empty\<rparr>"

section \<open>Flags\<close>

text \<open>\<open>mark_closed\<close> says whether it was the first.\<close>

definition mark_closed :: "('b, 'q, 'z) inner_state_scheme \<Rightarrow> bool \<times> ('b, 'q, 'z) inner_state_scheme" where
  "mark_closed s = (\<not> in_closed s, s\<lparr>in_closed := True\<rparr>)"

definition ensure_open :: "(('b, 'q, 'z) inner_state_scheme, error, unit) act" where
  "ensure_open = sread (\<lambda>s. if in_closed s then Inl Closed else Inr ())"

definition mark_name_shared :: "('b, 'q, 'z) inner_state_scheme \<Rightarrow> ('b, 'q, 'z) inner_state_scheme" where
  "mark_name_shared s = s\<lparr>in_name_shared := True\<rparr>"

text \<open>The native build: no other tab can write.\<close>

definition index_is_authoritative :: "('b, 'q, 'z) inner_state_scheme \<Rightarrow> bool" where
  "index_is_authoritative s \<longleftrightarrow> \<not> in_name_shared s"

section \<open>Keys, values, simple operations\<close>

definition encode_key :: "('b, 'q) ctx \<Rightarrow> bytes \<Rightarrow> bytes" where
  "encode_key X key = encode_bytes (cx_id X) key"

definition inner_seal :: "('b, 'q) ctx \<Rightarrow> 't serde \<Rightarrow> 't \<Rightarrow> bytes result" where
  "inner_seal X sd v = value_encode sd v (cx_chain X)"

definition inner_open :: "('b, 'q) ctx \<Rightarrow> 't serde \<Rightarrow> bytes \<Rightarrow> 't result" where
  "inner_open X sd stored = value_decode sd stored (cx_chain X)"

definition delete_op :: "('b, 'q) ctx \<Rightarrow> bytes \<Rightarrow> bop" where
  "delete_op X key = Op_Delete Records (encode_key X key)"

definition clear_op :: "('b, 'q) ctx \<Rightarrow> bop" where
  "clear_op X = Op_DeleteRange Records (locker_range (cx_id X))"

definition fetch :: "('b, 'q) ctx \<Rightarrow> 'b \<Rightarrow> bytes \<Rightarrow> bytes option result" where
  "fetch X b key = bk_get (cx_backend X) b Records (encode_key X key)"

definition flush_backend :: "('b, 'q) ctx \<Rightarrow> (('b, 'q, 'z) inner_state_scheme, error, unit) act" where
  "flush_backend X = (if \<not> is_eventual (cx_config X) then sret () else on_store (bk_flush (cx_backend X)))"

text \<open>What a landed commit remembers and posts.\<close>

definition post_news :: "announcement \<Rightarrow> ('b, 'q, 'z) inner_state_scheme \<Rightarrow> ('b, 'q, 'z) inner_state_scheme" where
  "post_news a s =
     (let ep = note_local (map cg_key (an_changes a)) (an_epoch a) (in_epochs s);
          ep = (if an_cleared a then forget_local ep else ep)
      in s\<lparr>in_epochs := ep, sh_coherence := coherence_post a (sh_coherence s)\<rparr>)"

definition inner_commit :: "('b, 'q) ctx \<Rightarrow> bop list \<Rightarrow> (('b, 'q, 'z) inner_state_scheme, error, unit) act" where
  "inner_commit X ops s =
     (let news = coherence_prepare (sh_coherence s) (cx_id X) ops in
      sbind (on_store (bk_commit_with (cx_backend X) ops \<lparr>co_durability = lc_durability (cx_config X)\<rparr>))
        (\<lambda>_. smod (\<lambda>s. case news of Some a \<Rightarrow> post_news a s | None \<Rightarrow> s)) s)"

definition announce :: "('b, 'q) ctx \<Rightarrow> event \<Rightarrow> ('b, 'q, 'z) inner_state_scheme \<Rightarrow> ('b, 'q, 'z) inner_state_scheme" where
  "announce X ev s = s\<lparr>in_watchers := broadcast (cx_try_send X) ev (in_watchers s)\<rparr>"

section \<open>Reassembling a chunked value\<close>

definition push_piece :: "filter_chain \<Rightarrow> chunk_pointer \<Rightarrow> u32 \<Rightarrow> bytes \<Rightarrow> nat \<times> bytes option \<Rightarrow> bytes result" where
  "push_piece ch p sq out piece =
     (case piece of (offset, sealed) \<Rightarrow>
      (case sealed of
         None \<Rightarrow> Inl (Corrupt (''missing chunk '' @ show_nat (unat sq + offset) @ '' of '' @
           show_nat (unat (cp_value_id p))))
       | Some sealed \<Rightarrow>
           rbind (chain_open ch sealed) (\<lambda>piece.
             let out = out @ piece in
             if length out > unat (cp_total_len p) then
               Inl (Corrupt (''chunked value declared '' @ show_nat (unat (cp_total_len p)) @
                 '' bytes and has already reassembled '' @ show_nat (length out)))
             else Inr out)))"

lemma group_progress:
  "sq < n \<Longrightarrow> unat sq < unat (min (sat_add sq CHUNK_FETCH_GROUP) n)"
  for sq n :: u32
proof -
  assume a: "sq < n"
  then have lt: "unat sq < unat n" by (simp add: word_less_nat_alt)
  have "unat (sat_add sq CHUNK_FETCH_GROUP) = min (unat sq + 64) (2 ^ 32 - 1)"
    by (simp add: unat_sat_add CHUNK_FETCH_GROUP_def)
  moreover have "unat n \<le> 2 ^ 32 - 1" using unat_le_max [of n] by simp
  ultimately have "unat sq < unat (sat_add sq CHUNK_FETCH_GROUP)" using lt by linarith
  with lt show ?thesis by (simp add: min_def)
qed

function read_groups :: "'b backend \<Rightarrow> 'b \<Rightarrow> filter_chain \<Rightarrow> chunk_pointer \<Rightarrow> u32 \<Rightarrow> bytes \<Rightarrow> bytes result" where
  "read_groups B b ch p sq out =
     (if sq < cp_n_chunks p then
        let upto = min (sat_add sq CHUNK_FETCH_GROUP) (cp_n_chunks p);
            keys = map (\<lambda>i. chunk_key (cp_value_id p) (of_nat i)) [unat sq..<unat upto] in
        rbind (bk_get_many B b Chunks keys) (\<lambda>pieces.
        rbind (foldM_r (push_piece ch p sq) out (enumerate 0 pieces)) (\<lambda>out.
          read_groups B b ch p upto out))
      else Inr out)"
  by pat_completeness auto

termination
proof (relation "measure (\<lambda>(B, b, ch, p, sq, out). unat (cp_n_chunks p) - unat sq)", goal_cases)
  case (2 B b ch p sq out upto keys pieces out')
  then show ?case
    using group_progress [of sq "cp_n_chunks p"] by (simp add: word_less_nat_alt)
qed simp

declare read_groups.simps [simp del]

definition read_chunks :: "'b backend \<Rightarrow> 'b \<Rightarrow> filter_chain \<Rightarrow> chunk_pointer \<Rightarrow> bytes result" where
  "read_chunks B b ch p =
     rbind (read_groups B b ch p 0 []) (\<lambda>out.
       if length out \<noteq> unat (cp_total_len p) then
         Inl (Corrupt (''chunked value declared '' @ show_nat (unat (cp_total_len p)) @
           '' bytes, reassembled '' @ show_nat (length out)))
       else Inr out)"

definition load_payload :: "('b, 'q) ctx \<Rightarrow> 'b \<Rightarrow> bytes \<Rightarrow> bytes result" where
  "load_payload X b stored =
     (if is_pointer stored then
        rbind (pointer_parse stored) (\<lambda>p. read_chunks (cx_backend X) b (cx_chain X) p)
      else chain_open (cx_chain X) stored)"

definition decode_record :: "('b, 'q) ctx \<Rightarrow> 't serde \<Rightarrow> 'b \<Rightarrow> bytes \<Rightarrow> 't result" where
  "decode_record X sd b stored =
     rbind (load_payload X b stored) (\<lambda>payload.
     rbind (if is_pointer stored then map_sum id (\<lambda>p. cp_flags p = FLAG_RAW) (pointer_parse stored) else Inr False)
       (\<lambda>raw.
        if raw then
          (case cx_vec_u8 X payload of
             Inl e \<Rightarrow> Inl (FilterFailed (''postcard wrap of raw chunks failed: '' @ e))
           | Inr wrapped \<Rightarrow>
               (case sd_from_bytes sd wrapped of
                  Inl e \<Rightarrow> Inl (Corrupt (''raw chunk reconstruct failed: '' @ e))
                | Inr v \<Rightarrow> Inr v))
        else
          (case sd_from_bytes sd payload of
             Inl e \<Rightarrow> Inl (Corrupt (''postcard deserialisation failed: '' @ e))
           | Inr v \<Rightarrow> Inr v)))"

definition load_value :: "('b, 'q) ctx \<Rightarrow> 't serde \<Rightarrow> 'b \<Rightarrow> bytes \<Rightarrow> 't option result" where
  "load_value X sd b key =
     rbind (fetch X b key) (\<lambda>raw.
       case raw of
         None \<Rightarrow> Inr None
       | Some raw \<Rightarrow> rbind (decode_record X sd b raw) (\<lambda>v. Inr (Some v)))"

section \<open>Writing\<close>

definition next_value_id :: "('b, 'q) ctx \<Rightarrow> (('b, 'z) shared_scheme, error, u64) act" where
  "next_value_id X s = on_values (allocate (cx_backend X) (sh_store s)) s"

definition value_counter_op :: "('b, 'z) shared_scheme \<Rightarrow> bop option" where
  "value_counter_op s = vid_counter_op (sh_values s)"

text \<open>\<open>slice::chunks\<close> for a positive size.\<close>

function pieces :: "nat \<Rightarrow> bytes \<Rightarrow> bytes list" where
  "pieces n xs = (if xs = [] \<or> n = 0 then [] else take n xs # pieces n (drop n xs))"
  by pat_completeness auto
termination by (relation "measure (\<lambda>(n, xs). length xs)") auto

declare pieces.simps [simp del]

definition stores_inline :: "('b, 'q) ctx \<Rightarrow> nat \<Rightarrow> byte \<Rightarrow> bool" where
  "stores_inline X payload_len flags \<longleftrightarrow> payload_len \<le> lc_chunk_size (cx_config X) \<and> flags = FLAG_POSTCARD"

text \<open>The operation that drops the chunks of a record about to be replaced, if it names any.\<close>

definition gc_existing :: "('b, 'q) ctx \<Rightarrow> 'b \<Rightarrow> bytes \<Rightarrow> prior \<Rightarrow> bop list result" where
  "gc_existing X b key pr =
     (if needs_read pr then
        rbind (fetch X b key) (\<lambda>existing.
          case existing of
            Some existing \<Rightarrow>
              if is_pointer existing then rbind (pointer_parse existing) (\<lambda>p. Inr [gc_ops p]) else Inr []
          | None \<Rightarrow> Inr [])
      else Inr [])"

text \<open>The loop over \<open>payload.chunks(chunk_size)\<close>: the operations, and the sequence number after it.\<close>

fun piece_ops :: "filter_chain \<Rightarrow> u64 \<Rightarrow> u32 \<Rightarrow> bytes list \<Rightarrow> (bop list \<times> u32) result" where
  "piece_ops ch vid sq [] = Inr ([], sq)"
| "piece_ops ch vid sq (piece # rest) =
     rbind (seal_slice ch piece) (\<lambda>sealed.
     rbind (case checked_succ sq of Some n \<Rightarrow> Inr n | None \<Rightarrow> Inl (Backend ''chunk sequence space is exhausted''))
       (\<lambda>nxt. rbind (piece_ops ch vid nxt rest) (\<lambda>(ops, sq').
          Inr (Op_Put Chunks (chunk_key vid sq) sealed # ops, sq'))))"

definition put_payload_ops :: "('b, 'q) ctx \<Rightarrow> bytes \<Rightarrow> bytes \<Rightarrow> byte \<Rightarrow> prior
    \<Rightarrow> (('b, 'z) shared_scheme, error, bop list) act" where
  "put_payload_ops X key payload flags pr =
     sbind (sread (\<lambda>s. gc_existing X (sh_store s) key pr)) (\<lambda>gc.
       if stores_inline X (length payload) flags then
         slift (rbind (seal (cx_chain X) payload) (\<lambda>sealed.
           Inr (gc @ [Op_Put Records (encode_key X key) sealed])))
       else
         sbind (next_value_id X) (\<lambda>vid.
           if lc_chunk_size (cx_config X) = 0 then slift (Inl (Panicked ''chunk size must be non-zero''))
           else
             sbind (slift (piece_ops (cx_chain X) vid 0 (pieces (lc_chunk_size (cx_config X)) payload)))
               (\<lambda>(ops, n).
                 sread (\<lambda>s.
                   let pointer = \<lparr>cp_value_id = vid, cp_n_chunks = n, cp_total_len = of_nat (length payload),
                                  cp_flags = flags\<rparr>
                   in Inr (gc @ ops @ [Op_Put Records (encode_key X key) (pointer_encode pointer)]
                           @ (case value_counter_op s of Some op \<Rightarrow> [op] | None \<Rightarrow> []))))))"

definition delete_value_ops :: "('b, 'q) ctx \<Rightarrow> 'b \<Rightarrow> bytes \<Rightarrow> prior \<Rightarrow> bop list result" where
  "delete_value_ops X b key pr =
     rbind (gc_existing X b key pr) (\<lambda>gc. Inr (gc @ [delete_op X key]))"

section \<open>Walking a range\<close>

definition walk_item :: "locker_id \<Rightarrow> ('a \<Rightarrow> bytes \<Rightarrow> bytes option \<Rightarrow> 'a result) \<Rightarrow> 'a \<Rightarrow> bytes \<times> bytes option \<Rightarrow> 'a result" where
  "walk_item l visit acc item =
     (case item of (encoded, v) \<Rightarrow> rbind (decode_bytes l encoded) (\<lambda>uk. visit acc uk v))"

definition walk :: "'b backend \<Rightarrow> 'b \<Rightarrow> locker_id \<Rightarrow> bytes bound \<Rightarrow> bytes bound \<Rightarrow> bool \<Rightarrow> bool
    \<Rightarrow> ('a \<Rightarrow> bytes \<Rightarrow> bytes option \<Rightarrow> 'a result) \<Rightarrow> 'a \<Rightarrow> 'a result" where
  "walk B b l s e reverse want visit acc =
     (if is_degenerate s e then Inr acc
      else page_loop (bk_fuel B b) B b
             \<lparr>rq_table = Records, rq_range = encode_range_bytes l s e, rq_reverse = reverse,
              rq_limit = bk_scan_page_size B, rq_want_values = want\<rparr>
             (walk_item l visit) acc)"

definition gc_visit :: "bop list \<Rightarrow> bytes \<Rightarrow> bytes option \<Rightarrow> bop list result" where
  "gc_visit ops key v =
     (case v of
        None \<Rightarrow> Inr ops
      | Some raw \<Rightarrow>
          if is_pointer raw then
            (case pointer_parse raw of Inr p \<Rightarrow> Inr (ops @ [gc_ops p]) | Inl _ \<Rightarrow> Inr ops)
          else Inr ops)"

definition clear_value_ops :: "('b, 'q) ctx \<Rightarrow> 'b \<Rightarrow> bop list result" where
  "clear_value_ops X b =
     rbind (walk (cx_backend X) b (cx_id X) Unbounded Unbounded False True gc_visit [])
       (\<lambda>ops. Inr (ops @ [clear_op X]))"

end
