(* ===== verification/Transaction.thy ===== *)
theory Transaction
  imports Inner
begin

text \<open>
  \<open>src/locker/transaction.rs\<close>: a write-set staged in memory and turned into one commit. A
  transaction is the list it has staged, oldest first; \<open>ops_for_items\<close> collapses a write-set into
  operations. The \<open>Arc\<close> of a staged value is the value.
\<close>

datatype tx_mode = TxEager | TxLazy

datatype 't staged = Staged_Put bytes bytes 't | Staged_Delete bytes | Staged_Clear

text \<open>\<open>Resident\<close>'s staged write (\<open>src/locker/resident.rs\<close>): payload bytes, no value.\<close>

datatype pending = Pend_Put bytes bytes | Pend_Delete bytes | Pend_Clear

datatype item = It_Put bytes bytes | It_Delete bytes | It_Clear

section \<open>Staging\<close>

definition tx_put :: "'t serde \<Rightarrow> bytes \<Rightarrow> 't \<Rightarrow> ('t staged list, error, unit) act" where
  "tx_put sd key v entries =
     (case sd_to_vec sd v of
        Inl e \<Rightarrow> (Inl (FilterFailed (''postcard serialisation failed: '' @ e)), entries)
      | Inr payload \<Rightarrow> (Inr (), entries @ [Staged_Put key payload v]))"

definition tx_delete :: "bytes \<Rightarrow> ('t staged list, error, unit) act" where
  "tx_delete key entries = (Inr (), entries @ [Staged_Delete key])"

definition tx_clear :: "('t staged list, error, unit) act" where
  "tx_clear entries = (Inr (), entries @ [Staged_Clear])"

text \<open>The backwards scan: the argument is the reversed list.\<close>

fun tx_view_rev :: "bytes \<Rightarrow> 't staged list \<Rightarrow> bytes option option" where
  "tx_view_rev key [] = None"
| "tx_view_rev key (Staged_Put k payload v # es) = (if k = key then Some (Some payload) else tx_view_rev key es)"
| "tx_view_rev key (Staged_Delete k # es) = (if k = key then Some None else tx_view_rev key es)"
| "tx_view_rev key (Staged_Clear # es) = Some None"

definition tx_staged_view :: "'t staged list \<Rightarrow> bytes \<Rightarrow> bytes option option" where
  "tx_staged_view entries key = tx_view_rev key (rev entries)"

text \<open>A staged payload back as a value.\<close>

definition decode_payload :: "'t serde \<Rightarrow> bytes \<Rightarrow> 't result" where
  "decode_payload sd payload =
     (case sd_from_bytes sd payload of
        Inl e \<Rightarrow> Inl (Corrupt (''postcard deserialisation failed: '' @ e))
      | Inr v \<Rightarrow> Inr v)"

definition view_value :: "'t serde \<Rightarrow> bytes option \<Rightarrow> 't option result" where
  "view_value sd view =
     (case view of None \<Rightarrow> Inr None | Some payload \<Rightarrow> rbind (decode_payload sd payload) (\<lambda>v. Inr (Some v)))"

definition tx_get :: "('b, 'q) ctx \<Rightarrow> 't serde \<Rightarrow> 'b \<Rightarrow> 't staged list \<Rightarrow> bytes \<Rightarrow> 't option result" where
  "tx_get X sd b entries key =
     (case tx_staged_view entries key of
        Some view \<Rightarrow> view_value sd view
      | None \<Rightarrow> load_value X sd b key)"

section \<open>From a write-set to operations\<close>

text \<open>\<open>rposition\<close> of the last clear splits the write-set: whether there is one, and what follows.\<close>

fun after_last_clear :: "item list \<Rightarrow> bool \<times> item list" where
  "after_last_clear [] = (False, [])"
| "after_last_clear (x # xs) =
     (case after_last_clear xs of
        (True, rest) \<Rightarrow> (True, rest)
      | (False, rest) \<Rightarrow> if x = It_Clear then (True, xs) else (False, x # xs))"

datatype action = Act_Put bytes | Act_Delete

fun action_step :: "item \<Rightarrow> (bytes, action) btree \<Rightarrow> (bytes, action) btree" where
  "action_step (It_Put key payload) m = bt_insert key (Act_Put payload) m"
| "action_step (It_Delete key) m = bt_insert key Act_Delete m"
| "action_step It_Clear m = m"

definition actions_of :: "item list \<Rightarrow> (bytes, action) btree" where
  "actions_of rest = fold action_step rest bt_empty"

definition eager_put_ops :: "('b, 'q) ctx \<Rightarrow> 'b \<Rightarrow> bytes \<Rightarrow> bytes \<Rightarrow> bop list result" where
  "eager_put_ops X b key payload =
     rbind (seal_slice (cx_chain X) payload) (\<lambda>sealed.
       if length sealed > lc_max_inline (cx_config X) then
         Inl (ValueTooLarge (length sealed) (lc_max_inline (cx_config X)))
       else
         rbind (fetch X b key) (\<lambda>existing.
           Inr ((case existing of
                   Some existing \<Rightarrow>
                     if is_pointer existing then
                       (case pointer_parse existing of Inr p \<Rightarrow> [gc_ops p] | Inl _ \<Rightarrow> [])
                     else []
                 | None \<Rightarrow> [])
                @ [Op_Put Records (encode_key X key) sealed])))"

definition action_ops :: "('b, 'q) ctx \<Rightarrow> tx_mode \<Rightarrow> bytes \<times> action \<Rightarrow> (('b, 'z) shared_scheme, error, bop list) act" where
  "action_ops X mode ka =
     (case ka of (key, act) \<Rightarrow>
      (case act of
         Act_Delete \<Rightarrow> sread (\<lambda>s. delete_value_ops X (sh_store s) key Prior_Unknown)
       | Act_Put payload \<Rightarrow>
           (case mode of
              TxLazy \<Rightarrow> put_payload_ops X key payload FLAG_POSTCARD Prior_Unknown
            | TxEager \<Rightarrow> sread (\<lambda>s. eager_put_ops X (sh_store s) key payload))))"

definition ops_for_items :: "('b, 'q) ctx \<Rightarrow> item list \<Rightarrow> tx_mode \<Rightarrow> (('b, 'z) shared_scheme, error, bop list) act" where
  "ops_for_items X items mode =
     (case after_last_clear items of (found, rest) \<Rightarrow>
        sbind (sread (\<lambda>s. if found then clear_value_ops X (sh_store s) else Inr [])) (\<lambda>pre.
        sbind (mapM_s (action_ops X mode) (bt_entries (actions_of rest))) (\<lambda>opss.
          sret (pre @ concat opss))))"

fun item_of_pending :: "pending \<Rightarrow> item" where
  "item_of_pending (Pend_Put key payload) = It_Put key payload"
| "item_of_pending (Pend_Delete key) = It_Delete key"
| "item_of_pending Pend_Clear = It_Clear"

definition ops_for_pending :: "('b, 'q) ctx \<Rightarrow> pending list \<Rightarrow> tx_mode \<Rightarrow> (('b, 'z) shared_scheme, error, bop list) act" where
  "ops_for_pending X entries mode = ops_for_items X (map item_of_pending entries) mode"

end
