(* ===== verification/Resident.thy ===== *)
theory Resident
  imports Transaction
begin

text \<open>
  \<open>src/locker/resident.rs\<close>: the resident state of a locker, without its value type: key index, byte
  budget, staged writes. A \<open>BTreeSet\<close> is a \<open>btree\<close> with unit values. An operation that computes the
  budget of a commit does so before it (\<open>budget_ops\<close>) and applies it after it has landed
  (\<open>apply_budget\<close>); a batch whose commit fails is put back (\<open>restage\<close>).
\<close>

type_synonym key_set = "(bytes, unit) btree"

definition ks_insert :: "bytes \<Rightarrow> key_set \<Rightarrow> key_set" where
  "ks_insert k s = bt_insert k () s"

record budget =
  bg_updates :: "(bytes \<times> entry) list"
  bg_removals :: "bytes list"
  bg_cleared :: bool
  bg_plan :: plan
  bg_pending :: "bytes list"

definition budget_default :: budget where
  "budget_default =
     \<lparr>bg_updates = [], bg_removals = [], bg_cleared = False, bg_plan = \<lparr>pl_victims = [], pl_total = 0\<rparr>,
      bg_pending = []\<rparr>"

record ('b, 'q) resident = "('b, 'q) inner_state" +
  rs_mode :: tx_mode
  rs_index :: "key_set option"
  rs_lru :: "lru_state option"
  rs_staged :: "pending list"
  rs_known_inline :: "key_set option"
  rs_corrupt :: key_set
  rs_dropped :: key_set

definition resident_new :: "tx_mode \<Rightarrow> key_set option \<Rightarrow> lru_state option \<Rightarrow> ('b, 'q) inner_state
    \<Rightarrow> ('b, 'q) resident" where
  "resident_new mode index lru s =
     inner_state.extend s
       \<lparr>rs_mode = mode, rs_index = index, rs_lru = lru, rs_staged = [],
        rs_known_inline = map_option (\<lambda>_. bt_empty) index, rs_corrupt = bt_empty, rs_dropped = bt_empty\<rparr>"

section \<open>Keys stored but not held\<close>

definition note_corrupt :: "bytes \<Rightarrow> ('b, 'q, 'z) resident_scheme \<Rightarrow> ('b, 'q, 'z) resident_scheme" where
  "note_corrupt key s = s\<lparr>rs_corrupt := ks_insert key (rs_corrupt s)\<rparr>"

definition is_corrupt :: "('b, 'q, 'z) resident_scheme \<Rightarrow> bytes \<Rightarrow> bool" where
  "is_corrupt s key \<longleftrightarrow> bt_contains (rs_corrupt s) key"

definition corrupt_keys :: "('b, 'q, 'z) resident_scheme \<Rightarrow> bytes list" where
  "corrupt_keys s = bt_keys (rs_corrupt s)"

definition note_dropped :: "bytes \<Rightarrow> ('b, 'q, 'z) resident_scheme \<Rightarrow> ('b, 'q, 'z) resident_scheme" where
  "note_dropped key s = s\<lparr>rs_dropped := ks_insert key (rs_dropped s)\<rparr>"

definition forget_dropped :: "bytes \<Rightarrow> ('b, 'q, 'z) resident_scheme \<Rightarrow> ('b, 'q, 'z) resident_scheme" where
  "forget_dropped key s = s\<lparr>rs_dropped := bt_remove key (rs_dropped s)\<rparr>"

definition forget_all_dropped :: "('b, 'q, 'z) resident_scheme \<Rightarrow> ('b, 'q, 'z) resident_scheme" where
  "forget_all_dropped s = s\<lparr>rs_dropped := bt_empty\<rparr>"

definition stored_but_unheld :: "('b, 'q, 'z) resident_scheme \<Rightarrow> bytes \<Rightarrow> bool" where
  "stored_but_unheld s key \<longleftrightarrow> (if is_corrupt s key then True else bt_contains (rs_dropped s) key)"

section \<open>The key index, and what it proves\<close>

definition read_index :: "(key_set \<Rightarrow> 'r) \<Rightarrow> ('b, 'q, 'z) resident_scheme \<Rightarrow> 'r option" where
  "read_index f s = map_option f (rs_index s)"

definition touch_index :: "(key_set \<Rightarrow> key_set) \<Rightarrow> ('b, 'q, 'z) resident_scheme \<Rightarrow> ('b, 'q, 'z) resident_scheme" where
  "touch_index f s = s\<lparr>rs_index := map_option f (rs_index s)\<rparr>"

definition prior_of :: "('b, 'q, 'z) resident_scheme \<Rightarrow> bytes \<Rightarrow> prior" where
  "prior_of s key =
     (if length (rs_staged s) \<noteq> 0 then Prior_Unknown
      else if \<not> index_is_authoritative s then Prior_Unknown
      else (case read_index (\<lambda>i. bt_contains i key) s of
          None \<Rightarrow> Prior_Unknown
        | Some present \<Rightarrow>
            if \<not> present then Prior_Absent
            else (case rs_known_inline s of
                Some m \<Rightarrow> if bt_contains m key then Prior_Inline else Prior_Unknown
              | None \<Rightarrow> Prior_Unknown)))"

definition note_inline :: "bytes \<Rightarrow> bool \<Rightarrow> ('b, 'q, 'z) resident_scheme \<Rightarrow> ('b, 'q, 'z) resident_scheme" where
  "note_inline key inline s =
     s\<lparr>rs_known_inline := map_option (\<lambda>m. if inline then ks_insert key m else bt_remove key m) (rs_known_inline s)\<rparr>"

definition forget_inline :: "('b, 'q, 'z) resident_scheme \<Rightarrow> ('b, 'q, 'z) resident_scheme" where
  "forget_inline s = s\<lparr>rs_known_inline := map_option (\<lambda>_. bt_empty) (rs_known_inline s)\<rparr>"

section \<open>The byte budget\<close>

definition budget_used :: "('b, 'q, 'z) resident_scheme \<Rightarrow> u64" where
  "budget_used s = (case rs_lru s of Some l \<Rightarrow> lr_total l | None \<Rightarrow> 0)"

definition on_lru :: "(lru_state \<Rightarrow> lru_state) \<Rightarrow> ('b, 'q, 'z) resident_scheme \<Rightarrow> ('b, 'q, 'z) resident_scheme" where
  "on_lru f s = s\<lparr>rs_lru := map_option f (rs_lru s)\<rparr>"

text \<open>The next tick of the bank's clock.\<close>

definition next_tick :: "('b, 'q) ctx \<Rightarrow> (('b, 'z) shared_scheme, error, u64) act" where
  "next_tick X s = on_ticks (tick_allocate (cx_backend X) (sh_store s)) s"

definition note_read :: "('b, 'q) ctx \<Rightarrow> bytes \<Rightarrow> (('b, 'q, 'z) resident_scheme, error, unit) act" where
  "note_read X key s =
     (if rs_lru s = None then (Inr (), s)
      else sbind (next_tick X) (\<lambda>tick. smod (on_lru (touch key tick))) s)"

definition reload_lru_if_dirty :: "('b, 'q) ctx \<Rightarrow> (('b, 'q, 'z) resident_scheme, error, unit) act" where
  "reload_lru_if_dirty X s =
     (case rs_lru s of
        None \<Rightarrow> (Inr (), s)
      | Some l \<Rightarrow>
          if \<not> lr_dirty l then (Inr (), s)
          else sbind (on_ticks (lru_load (cx_backend X) (sh_store s) (cx_id X) (lr_max_bytes l)))
                 (\<lambda>loaded. smod (on_lru (adopt_loaded loaded))) s)"

text \<open>The operations that shed the victims of a plan.\<close>

definition victim_ops :: "('b, 'q) ctx \<Rightarrow> 'b \<Rightarrow> bytes list \<Rightarrow> bop list result" where
  "victim_ops X b victims =
     rbind (mapM_r (\<lambda>v. rbind (delete_value_ops X b v Prior_Unknown) (\<lambda>ops.
              Inr (ops @ [lru_delete_op (cx_id X) v]))) victims)
       (\<lambda>opss. Inr (concat opss))"

text \<open>The result is the budget and the operations with those of the budget appended.\<close>

definition budget_ops :: "('b, 'q) ctx \<Rightarrow> bop list \<Rightarrow> (bytes \<times> u64) list \<Rightarrow> bytes list \<Rightarrow> bool \<Rightarrow> bytes list
    \<Rightarrow> (('b, 'q, 'z) resident_scheme, error, budget \<times> bop list) act" where
  "budget_ops X ops updates removals cleared keep s =
     (if rs_lru s = None then (Inr (budget_default, ops), s)
      else
        sbind (reload_lru_if_dirty X) (\<lambda>_.
        sbind (next_tick X) (\<lambda>tick s.
          case rs_lru s of
            None \<Rightarrow> (Inr (budget_default, ops), s)
          | Some l \<Rightarrow>
              let updates = map (\<lambda>(key, n). (key, \<lparr>en_tick = tick, en_bytes = n\<rparr>)) updates;
                  p = lru_plan l updates removals cleared (lr_max_bytes l) keep;
                  (pend, pend_ops) =
                    (if cleared then ([], []) else pending_ops l (cx_id X) (map fst updates));
                  ops = ops @ (if cleared then [lru_clear_op (cx_id X)] else [])
                        @ map (\<lambda>(key, e). lru_put_op (cx_id X) key e) updates
                        @ pend_ops
                        @ map (lru_delete_op (cx_id X)) removals
              in (rbind (victim_ops X (sh_store s) (pl_victims p)) (\<lambda>vops.
                    Inr (\<lparr>bg_updates = updates, bg_removals = removals, bg_cleared = cleared, bg_plan = p,
                          bg_pending = pend\<rparr>,
                         ops @ vops @ [tick_counter_op (sh_ticks s)])), s))) s)"

definition apply_budget :: "('b, 'q) ctx \<Rightarrow> budget \<Rightarrow> ('b, 'q, 'z) resident_scheme \<Rightarrow> ('b, 'q, 'z) resident_scheme" where
  "apply_budget X bg s =
     (let victims = pl_victims (bg_plan bg);
          s = on_lru (\<lambda>l. clear_pending (bg_pending bg)
                (lru_apply (bg_updates bg) (bg_removals bg) (bg_cleared bg) (bg_plan bg) l)) s;
          s = (if victims \<noteq> [] then
                 fold (\<lambda>v. note_inline v False) victims (touch_index (fold bt_remove victims) s)
               else s)
      in fold (\<lambda>v. announce X (Ev_Evicted v)) victims s)"

definition evict_to :: "('b, 'q) ctx \<Rightarrow> u64 \<Rightarrow> (('b, 'q, 'z) resident_scheme, error, nat) act" where
  "evict_to X n s =
     (case rs_lru s of
        None \<Rightarrow> (Inr 0, s)
      | Some l \<Rightarrow>
          let p = lru_plan l [] [] False n [] in
          if pl_victims p = [] then (Inr 0, s)
          else
            sbind (slift (victim_ops X (sh_store s) (pl_victims p))) (\<lambda>ops.
            sbind (inner_commit X ops) (\<lambda>_.
            sbind (smod (apply_budget X (budget_default\<lparr>bg_plan := p\<rparr>))) (\<lambda>_.
              sret (length (pl_victims p))))) s)"

definition remote_budget :: "bytes \<Rightarrow> u64 option \<Rightarrow> bool \<Rightarrow> ('b, 'q, 'z) resident_scheme \<Rightarrow> ('b, 'q, 'z) resident_scheme" where
  "remote_budget key n deleted s = on_lru (if deleted then remote_delete key else remote_put key n) s"

definition remote_budget_clear :: "('b, 'q, 'z) resident_scheme \<Rightarrow> ('b, 'q, 'z) resident_scheme" where
  "remote_budget_clear s = on_lru remote_clear s"

section \<open>Staged writes\<close>

definition deferred_after :: "('b, 'q) ctx \<Rightarrow> nat option" where
  "deferred_after X =
     (case lc_commit (cx_config X) of
        Commit_Immediate \<Rightarrow> None
      | Commit_Deferred after \<Rightarrow> if after \<le> 1 then None else Some after)"

definition is_deferred :: "('b, 'q) ctx \<Rightarrow> bool" where
  "is_deferred X \<longleftrightarrow> deferred_after X \<noteq> None"

definition pending_len :: "('b, 'q, 'z) resident_scheme \<Rightarrow> nat" where
  "pending_len s = length (rs_staged s)"

fun pending_size :: "pending \<Rightarrow> u64" where
  "pending_size (Pend_Put key payload) = of_nat (length payload)"
| "pending_size _ = 0"

definition pending_bytes :: "('b, 'q, 'z) resident_scheme \<Rightarrow> u64" where
  "pending_bytes s = sum_list (map pending_size (rs_staged s))"

text \<open>Whether the batch is now full. Without a batch size the bound is \<open>usize::MAX\<close>, never reached.\<close>

definition stage :: "('b, 'q) ctx \<Rightarrow> pending \<Rightarrow> ('b, 'q, 'z) resident_scheme \<Rightarrow> bool \<times> ('b, 'q, 'z) resident_scheme" where
  "stage X e s =
     (let st = rs_staged s @ [e] in
      ((case deferred_after X of Some after \<Rightarrow> length st \<ge> after | None \<Rightarrow> False), s\<lparr>rs_staged := st\<rparr>))"

fun view_rev :: "bytes \<Rightarrow> pending list \<Rightarrow> bytes option option" where
  "view_rev key [] = None"
| "view_rev key (Pend_Put k payload # es) = (if k = key then Some (Some payload) else view_rev key es)"
| "view_rev key (Pend_Delete k # es) = (if k = key then Some None else view_rev key es)"
| "view_rev key (Pend_Clear # es) = Some None"

definition staged_view :: "pending list \<Rightarrow> bytes \<Rightarrow> bytes option option" where
  "staged_view st key = view_rev key (rev st)"

definition take_staged :: "('b, 'q, 'z) resident_scheme \<Rightarrow> pending list \<times> ('b, 'q, 'z) resident_scheme" where
  "take_staged s = (rs_staged s, s\<lparr>rs_staged := []\<rparr>)"

definition restage :: "pending list \<Rightarrow> ('b, 'q, 'z) resident_scheme \<Rightarrow> ('b, 'q, 'z) resident_scheme" where
  "restage entries s = s\<lparr>rs_staged := entries @ rs_staged s\<rparr>"

definition discard_staged :: "('b, 'q, 'z) resident_scheme \<Rightarrow> ('b, 'q, 'z) resident_scheme" where
  "discard_staged s = s\<lparr>rs_staged := []\<rparr>"

section \<open>Accounting of a batch\<close>

fun accounting_step :: "pending \<Rightarrow> (bytes \<times> u64) list \<times> bytes list \<times> bool \<Rightarrow> (bytes \<times> u64) list \<times> bytes list \<times> bool" where
  "accounting_step (Pend_Put key payload) (us, rs, cl) =
     (filter (\<lambda>(k, _). k \<noteq> key) us @ [(key, of_nat (length payload))], filter (\<lambda>k. k \<noteq> key) rs, cl)"
| "accounting_step (Pend_Delete key) (us, rs, cl) = (filter (\<lambda>(k, _). k \<noteq> key) us, rs @ [key], cl)"
| "accounting_step Pend_Clear (us, rs, cl) = ([], [], True)"

definition accounting :: "pending list \<Rightarrow> (bytes \<times> u64) list \<times> bytes list \<times> bool" where
  "accounting entries = fold accounting_step entries ([], [], False)"

section \<open>Committing a batch\<close>

text \<open>An action whose failure puts the drained batch back.\<close>

definition or_restage :: "pending list \<Rightarrow> (('b, 'q, 'z) resident_scheme, error, 'a) act
    \<Rightarrow> (('b, 'q, 'z) resident_scheme, error, 'a) act" where
  "or_restage entries m s =
     (case m s of (Inl e, s') \<Rightarrow> (Inl e, restage entries s') | (Inr x, s') \<Rightarrow> (Inr x, s'))"

text \<open>
  Operations, budget, commit: shared by \<open>flush_locked\<close> and the lazy \<open>transact\<close>, which spell it out
  alike. \<open>back\<close> is what goes back on a failure.
\<close>

definition commit_batch :: "('b, 'q) ctx \<Rightarrow> tx_mode \<Rightarrow> pending list \<Rightarrow> pending list
    \<Rightarrow> (('b, 'q, 'z) resident_scheme, error, budget) act" where
  "commit_batch X mode back batch =
     sbind (or_restage back (ops_for_pending X batch mode)) (\<lambda>ops.
       case accounting batch of (updates, removals, cleared) \<Rightarrow>
         sbind (or_restage back (budget_ops X ops updates removals cleared (map fst updates))) (\<lambda>(bg, ops).
         sbind (or_restage back (inner_commit X ops)) (\<lambda>_. sret bg)))"

definition flush_locked :: "('b, 'q) ctx \<Rightarrow> (('b, 'q, 'z) resident_scheme, error, unit) act" where
  "flush_locked X s =
     (case take_staged s of (entries, s) \<Rightarrow>
        if entries = [] then (Inr (), s)
        else sbind (commit_batch X (rs_mode s) entries entries) (\<lambda>bg. smod (apply_budget X bg)) s)"

definition resident_flush :: "('b, 'q) ctx \<Rightarrow> (('b, 'q, 'z) resident_scheme, error, unit) act" where
  "resident_flush X s = (if pending_len s = 0 then (Inr (), s) else flush_locked X s)"

section \<open>Opening\<close>

definition open_lru :: "('b, 'q) ctx \<Rightarrow> key_set \<Rightarrow> (('b, 'z) shared_scheme, error, lru_state option) act" where
  "open_lru X index s =
     (case lc_policy (cx_config X) of
        Precious \<Rightarrow> (Inr None, s)
      | Evictable max_bytes \<Rightarrow>
          sbind (on_ticks (lru_load (cx_backend X) (sh_store s) (cx_id X) max_bytes)) (\<lambda>st.
            sret (Some (fold lru_adopt (bt_keys index) (retain_keys (bt_contains index) st)))) s)"

end
