(* ===== verification/Lazy_Locker.thy ===== *)
theory Lazy_Locker
  imports Resident
begin

text \<open>
  \<open>src/locker/lazy.rs\<close>: keys resident, values fetched on demand. A value type \<open>T\<close> is its \<open>serde\<close>
  record. The closure of a transaction is a function from the storage it may read to an action on the
  staged list. The \<open>&str\<close> form of an operation is its \<open>&[u8]\<close> form on the UTF-8 bytes.
\<close>

text \<open>\<open>{:?}\<close> of a \<open>Vec<u8>\<close>.\<close>

definition show_bytes :: "bytes \<Rightarrow> string" where
  "show_bytes bs = ''['' @ join '', '' (map (\<lambda>b. show_nat (unat b)) bs) @ '']''"

definition inner_new :: "'b shared \<Rightarrow> ('b, 'q) inner_state" where
  "inner_new sh =
     shared.extend sh \<lparr>in_watchers = [], in_closed = False, in_epochs = epochs_default, in_name_shared = False\<rparr>"

section \<open>Opening\<close>

definition index_visit :: "key_set \<Rightarrow> bytes \<Rightarrow> bytes option \<Rightarrow> key_set result" where
  "index_visit index key v = Inr (ks_insert key index)"

definition lazy_open :: "('b, 'q) ctx \<Rightarrow> ('b shared, error, ('b, 'q) resident) act" where
  "lazy_open X sh =
     (case walk (cx_backend X) (sh_store sh) (cx_id X) Unbounded Unbounded False False index_visit bt_empty of
        Inl e \<Rightarrow> (Inl e, sh)
      | Inr index \<Rightarrow>
          (case open_lru X index sh of
             (Inl e, sh') \<Rightarrow> (Inl e, sh')
           | (Inr lru, sh') \<Rightarrow> (Inr (resident_new TxLazy (Some index) lru (inner_new sh')), sh')))"

section \<open>Reading\<close>

definition load_and_note :: "('b, 'q) ctx \<Rightarrow> 't serde \<Rightarrow> bytes \<Rightarrow> (('b, 'q, 'z) resident_scheme, error, 't option) act" where
  "load_and_note X sd key s =
     (case load_value X sd (sh_store s) key of
        Inl e \<Rightarrow>
          if lc_on_corrupt (cx_config X) = OC_Skip \<and> is_corruption e then (Inl e, note_corrupt key s)
          else (Inl e, s)
      | Inr v \<Rightarrow> (Inr v, s))"

definition lazy_get_by :: "('b, 'q) ctx \<Rightarrow> 't serde \<Rightarrow> bytes \<Rightarrow> (('b, 'q, 'z) resident_scheme, error, 't option) act" where
  "lazy_get_by X sd key =
     sbind ensure_open (\<lambda>_ s.
       case staged_view (rs_staged s) key of
         Some view \<Rightarrow> (view_value sd view, s)
       | None \<Rightarrow>
           (case load_and_note X sd key s of (found, s) \<Rightarrow>
              (case found of
                 Inr (Some v) \<Rightarrow> sbind (note_read X key) (\<lambda>_. slift found) s
               | _ \<Rightarrow> (found, s))))"

definition lazy_get_or_by :: "('b, 'q) ctx \<Rightarrow> 't serde \<Rightarrow> bytes \<Rightarrow> 't \<Rightarrow> (('b, 'q, 'z) resident_scheme, error, 't) act" where
  "lazy_get_or_by X sd key dflt =
     sbind (lazy_get_by X sd key) (\<lambda>v. sret (case v of Some x \<Rightarrow> x | None \<Rightarrow> dflt))"

section \<open>Writing\<close>

text \<open>What the three deferred branches end with: a full batch is flushed.\<close>

definition flush_if :: "('b, 'q) ctx \<Rightarrow> bool \<Rightarrow> (('b, 'q, 'z) resident_scheme, error, unit) act" where
  "flush_if X full = (if full then flush_locked X else sret ())"

definition lazy_put_by :: "('b, 'q) ctx \<Rightarrow> 't serde \<Rightarrow> bytes \<Rightarrow> 't \<Rightarrow> (('b, 'q, 'z) resident_scheme, error, unit) act" where
  "lazy_put_by X sd key v =
     sbind ensure_open (\<lambda>_ s.
       case sd_to_vec sd v of
         Inl e \<Rightarrow> (Inl (FilterFailed (''postcard serialisation failed: '' @ e)), s)
       | Inr payload \<Rightarrow>
           if is_deferred X then
             (case stage X (Pend_Put key payload) s of (full, s) \<Rightarrow>
                flush_if X full
                  (announce X (Ev_Put key) (note_inline key False (touch_index (ks_insert key) s))))
           else
             let pr = prior_of s key; inline = stores_inline X (length payload) FLAG_POSTCARD in
             sbind (put_payload_ops X key payload FLAG_POSTCARD pr) (\<lambda>ops.
             sbind (budget_ops X ops [(key, of_nat (length payload))] [] False [key]) (\<lambda>(bg, ops).
             sbind (inner_commit X ops) (\<lambda>_.
               smod (\<lambda>s. announce X (Ev_Put key) (apply_budget X bg (note_inline key inline
                       (touch_index (ks_insert key) s))))))) s)"

definition lazy_flush :: "('b, 'q) ctx \<Rightarrow> (('b, 'q, 'z) resident_scheme, error, unit) act" where
  "lazy_flush X s =
     (case resident_flush X s of (flushed, s) \<Rightarrow>
      case flush_backend X s of (forced, s) \<Rightarrow> (result_and flushed forced, s))"

definition lazy_delete_by :: "('b, 'q) ctx \<Rightarrow> bytes \<Rightarrow> (('b, 'q, 'z) resident_scheme, error, unit) act" where
  "lazy_delete_by X key =
     sbind ensure_open (\<lambda>_ s.
       if is_deferred X then
         (case stage X (Pend_Delete key) s of (full, s) \<Rightarrow>
            flush_if X full
              (announce X (Ev_Deleted key) (note_inline key False (touch_index (bt_remove key) s))))
       else
         sbind (sread (\<lambda>s. delete_value_ops X (sh_store s) key (prior_of s key))) (\<lambda>ops.
         sbind (budget_ops X ops [] [key] False []) (\<lambda>(bg, ops).
         sbind (inner_commit X ops) (\<lambda>_.
           smod (\<lambda>s. announce X (Ev_Deleted key) (apply_budget X bg (note_inline key False
                   (touch_index (bt_remove key) s))))))) s)"

definition lazy_clear :: "('b, 'q) ctx \<Rightarrow> (('b, 'q, 'z) resident_scheme, error, unit) act" where
  "lazy_clear X =
     sbind ensure_open (\<lambda>_ s.
       if is_deferred X then
         (case stage X Pend_Clear s of (full, s) \<Rightarrow>
            flush_if X full
              (announce X Ev_Cleared (forget_inline (touch_index (\<lambda>_. bt_empty) s))))
       else
         sbind (sread (\<lambda>s. clear_value_ops X (sh_store s))) (\<lambda>ops.
         sbind (budget_ops X ops [] [] True []) (\<lambda>(bg, ops).
         sbind (inner_commit X ops) (\<lambda>_.
           smod (\<lambda>s. announce X Ev_Cleared (apply_budget X bg (forget_inline
                   (touch_index (\<lambda>_. bt_empty) s))))))) s)"

section \<open>Transactions\<close>

fun pending_of_staged :: "'t staged \<Rightarrow> pending" where
  "pending_of_staged (Staged_Put key payload v) = Pend_Put key payload"
| "pending_of_staged (Staged_Delete key) = Pend_Delete key"
| "pending_of_staged Staged_Clear = Pend_Clear"

definition merge_batches :: "pending list \<Rightarrow> 't staged list \<Rightarrow> pending list" where
  "merge_batches st tx = st @ map pending_of_staged tx"

fun index_staged :: "'t staged \<Rightarrow> key_set \<Rightarrow> key_set" where
  "index_staged (Staged_Put key payload v) i = ks_insert key i"
| "index_staged (Staged_Delete key) i = bt_remove key i"
| "index_staged Staged_Clear i = bt_empty"

fun event_of_staged :: "'t staged \<Rightarrow> event" where
  "event_of_staged (Staged_Put key payload v) = Ev_Put key"
| "event_of_staged (Staged_Delete key) = Ev_Deleted key"
| "event_of_staged Staged_Clear = Ev_Cleared"

type_synonym ('b, 't) closure = "'b \<Rightarrow> ('t staged list, error, unit) act"

definition lazy_transact :: "('b, 'q) ctx \<Rightarrow> ('b, 't) closure \<Rightarrow> (('b, 'q, 'z) resident_scheme, error, unit) act" where
  "lazy_transact X f =
     sbind ensure_open (\<lambda>_ s.
       case f (sh_store s) [] of
         (Inl e, entries) \<Rightarrow> (Inl e, s)
       | (Inr _, entries) \<Rightarrow>
           if entries = [] then (Inr (), s)
           else
             (case take_staged s of (staged_before, s) \<Rightarrow>
                sbind (commit_batch X TxLazy staged_before (merge_batches staged_before entries)) (\<lambda>bg.
                  smod (\<lambda>s. fold (\<lambda>e. announce X (event_of_staged e)) entries
                    (apply_budget X bg (forget_inline (touch_index (fold index_staged entries) s))))) s))"

definition put_all_closure :: "'t serde \<Rightarrow> (bytes \<times> 't) list \<Rightarrow> ('b, 't) closure" where
  "put_all_closure sd entries b = sbind (mapM_s (\<lambda>(key, v). tx_put sd key v) entries) (\<lambda>_. sret ())"

definition delete_all_closure :: "bytes list \<Rightarrow> ('b, 't) closure" where
  "delete_all_closure keys b = sbind (mapM_s tx_delete keys) (\<lambda>_. sret ())"

definition lazy_put_all :: "('b, 'q) ctx \<Rightarrow> 't serde \<Rightarrow> (bytes \<times> 't) list \<Rightarrow> (('b, 'q, 'z) resident_scheme, error, unit) act" where
  "lazy_put_all X sd entries = (if entries = [] then sret () else lazy_transact X (put_all_closure sd entries))"

definition lazy_delete_all :: "('b, 'q) ctx \<Rightarrow> bytes list \<Rightarrow> (('b, 'q, 'z) resident_scheme, error, unit) act" where
  "lazy_delete_all X keys =
     (if keys = [] then sret ()
      else lazy_transact X (delete_all_closure keys :: ('b, unit) closure))"

section \<open>Listings\<close>

datatype source = Src_Stored bytes | Src_Staged bytes

definition collect_visit :: "nat option \<Rightarrow> (bytes \<times> bytes) list \<Rightarrow> bytes \<Rightarrow> bytes option \<Rightarrow> (bytes \<times> bytes) list result" where
  "collect_visit cap stored key v =
     (if (case cap of Some n \<Rightarrow> length stored \<ge> n | None \<Rightarrow> False) then Inr stored
      else (case v of
          None \<Rightarrow> Inl (Corrupt (''backend omitted a value for key '' @ show_bytes key))
        | Some bs \<Rightarrow> Inr (stored @ [(key, bs)])))"

fun overlay_step :: "bytes bound \<Rightarrow> bytes bound \<Rightarrow> item \<Rightarrow> (bytes, source option) btree \<Rightarrow> (bytes, source option) btree" where
  "overlay_step st en (It_Put key payload) m =
     (if in_user_bounds st en key then bt_insert key (Some (Src_Staged payload)) m else m)"
| "overlay_step st en (It_Delete key) m = bt_remove key m"
| "overlay_step st en It_Clear m = m"

definition overlay :: "bytes bound \<Rightarrow> bytes bound \<Rightarrow> pending list \<Rightarrow> (bytes \<times> bytes) list \<Rightarrow> (bytes \<times> source) list" where
  "overlay st en staged stored =
     (case after_last_clear (map item_of_pending staged) of (found, after) \<Rightarrow>
        let stored = (if found then [] else stored);
            merged = fold (overlay_step st en) after
                       (bt_of_list (map (\<lambda>(key, bs). (key, Some (Src_Stored bs))) stored))
        in List.map_filter (\<lambda>(key, src). map_option (\<lambda>s. (key, s)) src) (bt_entries merged))"

fun decode_source :: "('b, 'q) ctx \<Rightarrow> 't serde \<Rightarrow> 'b \<Rightarrow> source \<Rightarrow> 't result" where
  "decode_source X sd b (Src_Stored bs) = decode_record X sd b bs"
| "decode_source X sd b (Src_Staged payload) = decode_payload sd payload"

definition lazy_collect :: "('b, 'q) ctx \<Rightarrow> 't serde \<Rightarrow> ('b, 'q, 'z) resident_scheme \<Rightarrow> bytes bound \<Rightarrow> bytes bound
    \<Rightarrow> bool \<Rightarrow> nat option \<Rightarrow> (bytes \<times> 't) list result" where
  "lazy_collect X sd s st en reverse limit =
     (let staged = rs_staged s; b = sh_store s;
          cap = (if staged = [] then limit else None) in
      rbind (walk (cx_backend X) b (cx_id X) st en reverse True (collect_visit cap) []) (\<lambda>stored.
        if staged = [] then
          mapM_r (\<lambda>(key, bs). rbind (decode_record X sd b bs) (\<lambda>v. Inr (key, v))) stored
        else
          let items = overlay st en staged stored;
              items = (if reverse then rev items else items);
              items = (case limit of Some n \<Rightarrow> take n items | None \<Rightarrow> items) in
          mapM_r (\<lambda>(key, src). rbind (decode_source X sd b src) (\<lambda>v. Inr (key, v))) items))"

definition utf8 :: "bytes \<Rightarrow> bytes option" where
  "utf8 k = (if utf8_valid k then Some k else None)"

definition utf8_entries :: "(bytes \<times> 'v) list \<Rightarrow> (bytes \<times> 'v) list" where
  "utf8_entries xs = List.map_filter (\<lambda>(k, v). map_option (\<lambda>k. (k, v)) (utf8 k)) xs"

definition lazy_range :: "('b, 'q) ctx \<Rightarrow> 't serde \<Rightarrow> ('b, 'q, 'z) resident_scheme \<Rightarrow> bytes bound \<Rightarrow> bytes bound
    \<Rightarrow> (bytes \<times> 't) list result" where
  "lazy_range X sd s st en = rbind (lazy_collect X sd s st en False None) (\<lambda>xs. Inr (utf8_entries xs))"

definition lazy_range_by :: "('b, 'q) ctx \<Rightarrow> 't serde \<Rightarrow> ('b, 'q, 'z) resident_scheme \<Rightarrow> bytes bound \<Rightarrow> bytes bound
    \<Rightarrow> (bytes \<times> 't) list result" where
  "lazy_range_by X sd s st en = lazy_collect X sd s st en False None"

definition lazy_range_rev :: "('b, 'q) ctx \<Rightarrow> 't serde \<Rightarrow> ('b, 'q, 'z) resident_scheme \<Rightarrow> bytes bound \<Rightarrow> bytes bound
    \<Rightarrow> (bytes \<times> 't) list result" where
  "lazy_range_rev X sd s st en = rbind (lazy_collect X sd s st en True None) (\<lambda>xs. Inr (utf8_entries xs))"

definition lazy_range_rev_by :: "('b, 'q) ctx \<Rightarrow> 't serde \<Rightarrow> ('b, 'q, 'z) resident_scheme \<Rightarrow> bytes bound \<Rightarrow> bytes bound
    \<Rightarrow> (bytes \<times> 't) list result" where
  "lazy_range_rev_by X sd s st en = lazy_collect X sd s st en True None"

definition lazy_latest :: "('b, 'q) ctx \<Rightarrow> 't serde \<Rightarrow> ('b, 'q, 'z) resident_scheme \<Rightarrow> nat \<Rightarrow> (bytes \<times> 't) list result" where
  "lazy_latest X sd s limit =
     rbind (lazy_collect X sd s Unbounded Unbounded True (Some limit)) (\<lambda>xs. Inr (utf8_entries xs))"

definition lazy_entries :: "('b, 'q) ctx \<Rightarrow> 't serde \<Rightarrow> ('b, 'q, 'z) resident_scheme \<Rightarrow> (bytes \<times> 't) list result" where
  "lazy_entries X sd s = lazy_range X sd s Unbounded Unbounded"

definition lazy_to_map :: "('b, 'q) ctx \<Rightarrow> 't serde \<Rightarrow> ('b, 'q, 'z) resident_scheme \<Rightarrow> (bytes, 't) btree result" where
  "lazy_to_map X sd s = rbind (lazy_entries X sd s) (\<lambda>xs. Inr (bt_of_list xs))"

section \<open>The resident keys\<close>

definition lazy_len :: "('b, 'q, 'z) resident_scheme \<Rightarrow> nat" where
  "lazy_len s = (case read_index bt_len s of Some n \<Rightarrow> n | None \<Rightarrow> 0)"

definition lazy_contains_key_by :: "('b, 'q, 'z) resident_scheme \<Rightarrow> bytes \<Rightarrow> bool" where
  "lazy_contains_key_by s key = (case read_index (\<lambda>i. bt_contains i key) s of Some c \<Rightarrow> c | None \<Rightarrow> False)"

definition lazy_keys_bytes :: "('b, 'q, 'z) resident_scheme \<Rightarrow> bytes list" where
  "lazy_keys_bytes s = (case read_index bt_keys s of Some ks \<Rightarrow> ks | None \<Rightarrow> [])"

definition lazy_keys :: "('b, 'q, 'z) resident_scheme \<Rightarrow> bytes list" where
  "lazy_keys s = (case read_index (\<lambda>i. List.map_filter utf8 (bt_keys i)) s of Some ks \<Rightarrow> ks | None \<Rightarrow> [])"

definition lazy_has_non_utf8_keys :: "('b, 'q, 'z) resident_scheme \<Rightarrow> bool" where
  "lazy_has_non_utf8_keys s =
     (case read_index (\<lambda>i. \<exists>k\<in>set (bt_keys i). \<not> utf8_valid k) s of Some c \<Rightarrow> c | None \<Rightarrow> False)"

text \<open>\<open>range(prefix..).take_while(starts_with)\<close> over sorted keys.\<close>

definition prefix_run :: "bytes \<Rightarrow> bytes list \<Rightarrow> bytes list" where
  "prefix_run p ks = takeWhile (prefix p) (filter (\<lambda>k. p \<le> k) ks)"

definition lazy_keys_with_prefix_by :: "('b, 'q, 'z) resident_scheme \<Rightarrow> bytes \<Rightarrow> bytes list" where
  "lazy_keys_with_prefix_by s p = (case read_index (\<lambda>i. prefix_run p (bt_keys i)) s of Some ks \<Rightarrow> ks | None \<Rightarrow> [])"

definition lazy_keys_with_prefix :: "('b, 'q, 'z) resident_scheme \<Rightarrow> bytes \<Rightarrow> bytes list" where
  "lazy_keys_with_prefix s p = List.map_filter utf8 (lazy_keys_with_prefix_by s p)"

section \<open>Eviction, closing, watching\<close>

definition lazy_evict_to :: "('b, 'q) ctx \<Rightarrow> u64 \<Rightarrow> (('b, 'q, 'z) resident_scheme, error, nat) act" where
  "lazy_evict_to X n = sbind ensure_open (\<lambda>_. evict_to X n)"

definition lazy_close :: "('b, 'q) ctx \<Rightarrow> (('b, 'q, 'z) resident_scheme, error, unit) act" where
  "lazy_close X s =
     (case resident_flush X s of (flushed, s) \<Rightarrow>
      let s = (case flushed of Inr _ \<Rightarrow> discard_staged s | Inl _ \<Rightarrow> s) in
      case flush_backend X s of (forced, s) \<Rightarrow>
        (result_and flushed forced, forget_inline (touch_index (\<lambda>_. bt_empty) (snd (mark_closed s)))))"

definition lazy_watch :: "(nat \<Rightarrow> 'q) \<Rightarrow> ('b, 'q, 'z) resident_scheme \<Rightarrow> ('b, 'q, 'z) resident_scheme" where
  "lazy_watch channel s = s\<lparr>in_watchers := subscribe channel None DEFAULT_CAPACITY (in_watchers s)\<rparr>"

definition lazy_watch_keys :: "(nat \<Rightarrow> 'q) \<Rightarrow> bytes list \<Rightarrow> ('b, 'q, 'z) resident_scheme \<Rightarrow> ('b, 'q, 'z) resident_scheme" where
  "lazy_watch_keys channel keys s =
     s\<lparr>in_watchers := subscribe channel (Some keys) DEFAULT_CAPACITY (in_watchers s)\<rparr>"

section \<open>Keys as strings, and what a locker tells of itself\<close>

definition lazy_get :: "('b, 'q) ctx \<Rightarrow> 't serde \<Rightarrow> string \<Rightarrow> (('b, 'q, 'z) resident_scheme, error, 't option) act" where
  "lazy_get X sd key = lazy_get_by X sd (as_bytes key)"

definition lazy_get_or :: "('b, 'q) ctx \<Rightarrow> 't serde \<Rightarrow> string \<Rightarrow> 't \<Rightarrow> (('b, 'q, 'z) resident_scheme, error, 't) act" where
  "lazy_get_or X sd key dflt = lazy_get_or_by X sd (as_bytes key) dflt"

definition lazy_put :: "('b, 'q) ctx \<Rightarrow> 't serde \<Rightarrow> string \<Rightarrow> 't \<Rightarrow> (('b, 'q, 'z) resident_scheme, error, unit) act" where
  "lazy_put X sd key v = lazy_put_by X sd (as_bytes key) v"

definition lazy_delete :: "('b, 'q) ctx \<Rightarrow> string \<Rightarrow> (('b, 'q, 'z) resident_scheme, error, unit) act" where
  "lazy_delete X key = lazy_delete_by X (as_bytes key)"

definition lazy_contains_key :: "('b, 'q, 'z) resident_scheme \<Rightarrow> string \<Rightarrow> bool" where
  "lazy_contains_key s key = lazy_contains_key_by s (as_bytes key)"

definition lazy_is_empty :: "('b, 'q, 'z) resident_scheme \<Rightarrow> bool" where
  "lazy_is_empty s \<longleftrightarrow> lazy_len s = 0"

definition lazy_pending :: "('b, 'q, 'z) resident_scheme \<Rightarrow> nat" where
  "lazy_pending s = pending_len s"

definition lazy_pending_bytes :: "('b, 'q, 'z) resident_scheme \<Rightarrow> u64" where
  "lazy_pending_bytes s = pending_bytes s"

definition lazy_budget_used :: "('b, 'q, 'z) resident_scheme \<Rightarrow> u64" where
  "lazy_budget_used s = budget_used s"

definition lazy_is_closed :: "('b, 'q, 'z) resident_scheme \<Rightarrow> bool" where
  "lazy_is_closed s = in_closed s"

definition lazy_corrupt_keys :: "('b, 'q, 'z) resident_scheme \<Rightarrow> bytes list" where
  "lazy_corrupt_keys s = corrupt_keys s"

definition lazy_watch_key :: "(nat \<Rightarrow> 'q) \<Rightarrow> string \<Rightarrow> ('b, 'q, 'z) resident_scheme \<Rightarrow> ('b, 'q, 'z) resident_scheme" where
  "lazy_watch_key channel key s =
     s\<lparr>in_watchers := subscribe channel (Some [as_bytes key]) DEFAULT_CAPACITY (in_watchers s)\<rparr>"

section \<open>News from another tab\<close>

definition lazy_sink_change :: "('b, 'q) ctx \<Rightarrow> change \<Rightarrow> ('b, 'q, 'z) resident_scheme \<Rightarrow> ('b, 'q, 'z) resident_scheme" where
  "lazy_sink_change X c s =
     (let s = touch_index (if cg_deleted c then bt_remove (cg_key c) else ks_insert (cg_key c)) s;
          s = note_inline (cg_key c) False s;
          n = (case cg_value c of
                 Some sealed \<Rightarrow> map_option (\<lambda>p. of_nat (length p)) (ok (chain_open (cx_chain X) sealed))
               | None \<Rightarrow> cg_bytes c);
          s = remote_budget (cg_key c) n (cg_deleted c) s
      in announce X (if cg_deleted c then Ev_Deleted (cg_key c) else Ev_Put (cg_key c)) s)"

definition lazy_sink_apply :: "('b, 'q) ctx \<Rightarrow> announcement \<Rightarrow> ('b, 'q, 'z) resident_scheme \<Rightarrow> ('b, 'q, 'z) resident_scheme" where
  "lazy_sink_apply X a s =
     (if in_closed s then s
      else
        let s = (if an_cleared a then
                   let s = remote_budget_clear (forget_inline (touch_index (\<lambda>_. bt_empty) s)) in
                   announce X Ev_Cleared (s\<lparr>in_epochs := forget_local (in_epochs s)\<rparr>)
                 else s)
        in fold (lazy_sink_change X) (an_changes a) s)"

end
