(* ===== verification/Eager_Locker.thy ===== *)
theory Eager_Locker
  imports Lazy_Locker
begin

text \<open>
  \<open>src/locker/eager.rs\<close>: whole values resident, read without awaiting. The state adds the resident map
  to the resident state; an \<open>Arc<T>\<close> is its value.
\<close>

record ('b, 'q, 't) eager = "('b, 'q) resident" +
  eg_values :: "(bytes, 't) btree"

section \<open>Opening\<close>

record 't eager_load =
  el_values :: "(bytes, 't) btree"
  el_corrupt :: "bytes list"
  el_loaded :: u64
  el_overflow :: "u64 option"

definition eager_visit :: "('b, 'q) ctx \<Rightarrow> 't serde \<Rightarrow> 't eager_load \<Rightarrow> bytes \<Rightarrow> bytes option \<Rightarrow> 't eager_load result" where
  "eager_visit X sd acc key raw =
     (case raw of
        None \<Rightarrow> Inl (Corrupt (''backend omitted a value for key '' @ show_bytes key))
      | Some bs \<Rightarrow>
          let loaded = sat_add (el_loaded acc) (of_nat (length bs));
              acc = acc\<lparr>el_loaded := loaded\<rparr> in
          if loaded > lc_eager_budget (cx_config X) then
            Inr (acc\<lparr>el_overflow := Some (case el_overflow acc of Some n \<Rightarrow> n | None \<Rightarrow> loaded)\<rparr>)
          else (case inner_open X sd bs of
              Inr v \<Rightarrow> Inr (acc\<lparr>el_values := bt_insert key v (el_values acc)\<rparr>)
            | Inl e \<Rightarrow>
                if lc_on_corrupt (cx_config X) = OC_Skip \<and> is_corruption e then
                  Inr (acc\<lparr>el_corrupt := el_corrupt acc @ [key]\<rparr>)
                else Inl e))"

definition eager_open :: "('b, 'q) ctx \<Rightarrow> 't serde \<Rightarrow> 'b shared \<Rightarrow> ('b, 'q, 't) eager result" where
  "eager_open X sd sh =
     (case lc_policy (cx_config X) of
        Evictable _ \<Rightarrow> Inl (InvalidConfig (''locker '' @ show_debug (cx_name X) @
          '' is eager, which cannot use an evictable policy; use a lazy locker instead''))
      | Precious \<Rightarrow>
          rbind (walk (cx_backend X) (sh_store sh) (cx_id X) Unbounded Unbounded False True (eager_visit X sd)
                   \<lparr>el_values = bt_empty, el_corrupt = [], el_loaded = 0, el_overflow = None\<rparr>) (\<lambda>acc.
            if el_overflow acc \<noteq> None then
              Inl (LockerTooLarge (el_loaded acc) (lc_eager_budget (cx_config X)))
            else
              let res = fold note_corrupt (el_corrupt acc) (resident_new TxEager None None (inner_new sh)) in
              Inr (resident.extend res \<lparr>eg_values = el_values acc\<rparr>)))"

section \<open>Writing\<close>

definition eg_insert :: "bytes \<Rightarrow> 't \<Rightarrow> ('b, 'q, 't) eager \<Rightarrow> ('b, 'q, 't) eager" where
  "eg_insert key v s = s\<lparr>eg_values := bt_insert key v (eg_values s)\<rparr>"

definition eg_remove :: "bytes \<Rightarrow> ('b, 'q, 't) eager \<Rightarrow> ('b, 'q, 't) eager" where
  "eg_remove key s = s\<lparr>eg_values := bt_remove key (eg_values s)\<rparr>"

definition eg_clear :: "('b, 'q, 't) eager \<Rightarrow> ('b, 'q, 't) eager" where
  "eg_clear s = s\<lparr>eg_values := bt_empty\<rparr>"

definition eager_put_by :: "('b, 'q) ctx \<Rightarrow> 't serde \<Rightarrow> bytes \<Rightarrow> 't \<Rightarrow> (('b, 'q, 't) eager, error, 't) act" where
  "eager_put_by X sd key v =
     sbind ensure_open (\<lambda>_.
     sbind (slift (inner_seal X sd v)) (\<lambda>sealed s.
       if length sealed > lc_max_inline (cx_config X) then
         (Inl (ValueTooLarge (length sealed) (lc_max_inline (cx_config X))), s)
       else if is_deferred X then
         (case sd_to_vec sd v of
            Inl e \<Rightarrow> (Inl (FilterFailed (''postcard serialisation failed: '' @ e)), s)
          | Inr payload \<Rightarrow>
              (case stage X (Pend_Put key payload) s of (full, s) \<Rightarrow>
                 sbind (flush_if X full) (\<lambda>_. sret v)
                   (announce X (Ev_Put key) (forget_dropped key (eg_insert key v s)))))
       else
         sbind (inner_commit X [Op_Put Records (encode_key X key) sealed]) (\<lambda>_.
         sbind (smod (\<lambda>s. announce X (Ev_Put key) (forget_dropped key (eg_insert key v s)))) (\<lambda>_.
           sret v)) s))"

definition eager_flush :: "('b, 'q) ctx \<Rightarrow> (('b, 'q, 't) eager, error, unit) act" where
  "eager_flush X s =
     (case resident_flush X s of (flushed, s) \<Rightarrow>
      case flush_backend X s of (forced, s) \<Rightarrow> (result_and flushed forced, s))"

text \<open>
  The loop that folds a committed write-set into the resident map; the flag says whether a delete
  removed anything.
\<close>

fun eager_fold :: "'t staged \<Rightarrow> ('b, 'q, 't) eager \<Rightarrow> bool \<times> ('b, 'q, 't) eager" where
  "eager_fold (Staged_Put key payload v) s = (True, eg_insert key v s)"
| "eager_fold (Staged_Delete key) s =
     (bt_contains (eg_values s) key \<or> stored_but_unheld s key, forget_dropped key (eg_remove key s))"
| "eager_fold Staged_Clear s = (True, forget_all_dropped (eg_clear s))"

fun eager_fold_all :: "'t staged list \<Rightarrow> ('b, 'q, 't) eager \<Rightarrow> bool list \<times> ('b, 'q, 't) eager" where
  "eager_fold_all [] s = ([], s)"
| "eager_fold_all (e # es) s =
     (case eager_fold e s of (r, s) \<Rightarrow> case eager_fold_all es s of (rs, s) \<Rightarrow> (r # rs, s))"

fun eager_announce :: "('b, 'q) ctx \<Rightarrow> 't staged \<times> bool \<Rightarrow> ('b, 'q, 't) eager \<Rightarrow> ('b, 'q, 't) eager" where
  "eager_announce X (Staged_Put key payload v, r) s = announce X (Ev_Put key) s"
| "eager_announce X (Staged_Delete key, r) s = (if r then announce X (Ev_Deleted key) s else s)"
| "eager_announce X (Staged_Clear, r) s = announce X Ev_Cleared s"

definition eager_transact :: "('b, 'q) ctx \<Rightarrow> ('b, 't) closure \<Rightarrow> (('b, 'q, 't) eager, error, unit) act" where
  "eager_transact X f =
     sbind ensure_open (\<lambda>_ s.
       case f (sh_store s) [] of
         (Inl e, entries) \<Rightarrow> (Inl e, s)
       | (Inr _, entries) \<Rightarrow>
           if entries = [] then (Inr (), s)
           else
             (case take_staged s of (staged_before, s) \<Rightarrow>
                sbind (or_restage staged_before
                         (ops_for_pending X (merge_batches staged_before entries) TxEager)) (\<lambda>ops.
                sbind (or_restage staged_before (inner_commit X ops)) (\<lambda>_.
                  smod (\<lambda>s. case eager_fold_all entries s of (rs, s) \<Rightarrow>
                    fold (eager_announce X) (zip entries rs) s))) s))"

definition eager_put_all :: "('b, 'q) ctx \<Rightarrow> 't serde \<Rightarrow> (bytes \<times> 't) list \<Rightarrow> (('b, 'q, 't) eager, error, unit) act" where
  "eager_put_all X sd entries = (if entries = [] then sret () else eager_transact X (put_all_closure sd entries))"

definition eager_delete_all :: "('b, 'q) ctx \<Rightarrow> bytes list \<Rightarrow> (('b, 'q, 't) eager, error, unit) act" where
  "eager_delete_all X keys = (if keys = [] then sret () else eager_transact X (delete_all_closure keys))"

definition eager_holds :: "('b, 'q, 't) eager \<Rightarrow> bytes \<Rightarrow> bool" where
  "eager_holds s key \<longleftrightarrow> bt_contains (eg_values s) key \<or> stored_but_unheld s key"

definition eager_delete_by :: "('b, 'q) ctx \<Rightarrow> bytes \<Rightarrow> (('b, 'q, 't) eager, error, unit) act" where
  "eager_delete_by X key =
     sbind ensure_open (\<lambda>_ s.
       let held = eager_holds s key; tell = (\<lambda>s. if held then announce X (Ev_Deleted key) s else s) in
       if \<not> held \<and> index_is_authoritative s then (Inr (), s)
       else if is_deferred X then
         (case stage X (Pend_Delete key) s of (full, s) \<Rightarrow>
            flush_if X full (tell (forget_dropped key (eg_remove key s))))
       else
         sbind (inner_commit X [delete_op X key]) (\<lambda>_.
           smod (\<lambda>s. tell (forget_dropped key (eg_remove key s)))) s)"

definition eager_clear :: "('b, 'q) ctx \<Rightarrow> (('b, 'q, 't) eager, error, unit) act" where
  "eager_clear X =
     sbind ensure_open (\<lambda>_ s.
       if is_deferred X then
         (case stage X Pend_Clear s of (full, s) \<Rightarrow>
            flush_if X full (announce X Ev_Cleared (forget_all_dropped (eg_clear s))))
       else
         sbind (inner_commit X [clear_op X]) (\<lambda>_.
           smod (\<lambda>s. announce X Ev_Cleared (forget_all_dropped (eg_clear s)))) s)"

section \<open>News from another tab\<close>

definition eager_sink_change :: "('b, 'q) ctx \<Rightarrow> 't serde \<Rightarrow> u64 \<Rightarrow> change \<Rightarrow> ('b, 'q, 't) eager \<Rightarrow> ('b, 'q, 't) eager" where
  "eager_sink_change X sd epoch c s =
     (if (case epoch_local (in_epochs s) (cg_key c) of Some mine \<Rightarrow> epoch \<le> mine | None \<Rightarrow> False) then s
      else
        let decoded = (if cg_deleted c then None
                       else (case cg_value c of Some sealed \<Rightarrow> ok (inner_open X sd sealed) | None \<Rightarrow> None));
            event = (case decoded of
                       Some _ \<Rightarrow> Ev_Put (cg_key c)
                     | None \<Rightarrow> if cg_deleted c then Ev_Deleted (cg_key c) else Ev_Stale (cg_key c));
            s = (case decoded of Some v \<Rightarrow> eg_insert (cg_key c) v s | None \<Rightarrow> eg_remove (cg_key c) s);
            s = (case event of Ev_Stale _ \<Rightarrow> note_dropped (cg_key c) s | _ \<Rightarrow> forget_dropped (cg_key c) s)
        in announce X event s)"

definition eager_sink_apply :: "('b, 'q) ctx \<Rightarrow> 't serde \<Rightarrow> announcement \<Rightarrow> ('b, 'q, 't) eager \<Rightarrow> ('b, 'q, 't) eager" where
  "eager_sink_apply X sd a s =
     (if in_closed s then s
      else if an_epoch a \<le> ep_applied (in_epochs s) then s
      else
        let s = s\<lparr>in_epochs := note_applied (an_epoch a) (in_epochs s)\<rparr>;
            s = (if an_cleared a then
                   let s = forget_all_dropped (eg_clear s) in
                   announce X Ev_Cleared (s\<lparr>in_epochs := forget_local (in_epochs s)\<rparr>)
                 else s)
        in fold (eager_sink_change X sd (an_epoch a)) (an_changes a) s)"

section \<open>Reading, closing\<close>

definition eager_close :: "('b, 'q) ctx \<Rightarrow> (('b, 'q, 't) eager, error, unit) act" where
  "eager_close X s =
     (case resident_flush X s of (flushed, s) \<Rightarrow>
      let s = (case flushed of Inr _ \<Rightarrow> discard_staged s | Inl _ \<Rightarrow> s) in
      case flush_backend X s of (forced, s) \<Rightarrow>
        (result_and flushed forced, eg_clear (snd (mark_closed s))))"

definition eager_get_by :: "('b, 'q, 't) eager \<Rightarrow> bytes \<Rightarrow> 't option" where
  "eager_get_by s key = bt_lookup (eg_values s) key"

definition eager_get_or :: "('b, 'q, 't) eager \<Rightarrow> bytes \<Rightarrow> 't \<Rightarrow> 't" where
  "eager_get_or s key dflt = (case eager_get_by s key of Some v \<Rightarrow> v | None \<Rightarrow> dflt)"

definition eager_with :: "('b, 'q, 't) eager \<Rightarrow> bytes \<Rightarrow> ('t \<Rightarrow> 'r) \<Rightarrow> 'r option" where
  "eager_with s key f = map_option f (eager_get_by s key)"

definition eager_contains_key_by :: "('b, 'q, 't) eager \<Rightarrow> bytes \<Rightarrow> bool" where
  "eager_contains_key_by s key = bt_contains (eg_values s) key"

definition eager_len :: "('b, 'q, 't) eager \<Rightarrow> nat" where
  "eager_len s = bt_len (eg_values s)"

definition eager_keys_bytes :: "('b, 'q, 't) eager \<Rightarrow> bytes list" where
  "eager_keys_bytes s = bt_keys (eg_values s)"

definition eager_keys :: "('b, 'q, 't) eager \<Rightarrow> bytes list" where
  "eager_keys s = List.map_filter utf8 (bt_keys (eg_values s))"

definition eager_has_non_utf8_keys :: "('b, 'q, 't) eager \<Rightarrow> bool" where
  "eager_has_non_utf8_keys s \<longleftrightarrow> (\<exists>k\<in>set (bt_keys (eg_values s)). \<not> utf8_valid k)"

definition eager_keys_with_prefix_by :: "('b, 'q, 't) eager \<Rightarrow> bytes \<Rightarrow> bytes list" where
  "eager_keys_with_prefix_by s p = prefix_run p (bt_keys (eg_values s))"

definition eager_keys_with_prefix :: "('b, 'q, 't) eager \<Rightarrow> bytes \<Rightarrow> bytes list" where
  "eager_keys_with_prefix s p = List.map_filter utf8 (eager_keys_with_prefix_by s p)"

definition eager_entries_bytes :: "('b, 'q, 't) eager \<Rightarrow> (bytes \<times> 't) list" where
  "eager_entries_bytes s = bt_entries (eg_values s)"

definition eager_entries :: "('b, 'q, 't) eager \<Rightarrow> (bytes \<times> 't) list" where
  "eager_entries s = utf8_entries (bt_entries (eg_values s))"

definition eager_to_map :: "('b, 'q, 't) eager \<Rightarrow> (bytes, 't) btree" where
  "eager_to_map s = bt_of_list (eager_entries s)"

definition eager_range :: "('b, 'q, 't) eager \<Rightarrow> bytes bound \<Rightarrow> bytes bound \<Rightarrow> (bytes \<times> 't) list" where
  "eager_range s st en =
     (if is_degenerate st en then []
      else utf8_entries (filter (\<lambda>(k, _). in_user_bounds st en k) (bt_entries (eg_values s))))"

section \<open>Keys as strings, watching, and what a locker tells of itself\<close>

definition eager_put :: "('b, 'q) ctx \<Rightarrow> 't serde \<Rightarrow> string \<Rightarrow> 't \<Rightarrow> (('b, 'q, 't) eager, error, 't) act" where
  "eager_put X sd key v = eager_put_by X sd (as_bytes key) v"

definition eager_delete :: "('b, 'q) ctx \<Rightarrow> string \<Rightarrow> (('b, 'q, 't) eager, error, unit) act" where
  "eager_delete X key = eager_delete_by X (as_bytes key)"

definition eager_get :: "('b, 'q, 't) eager \<Rightarrow> string \<Rightarrow> 't option" where
  "eager_get s key = eager_get_by s (as_bytes key)"

definition eager_contains_key :: "('b, 'q, 't) eager \<Rightarrow> string \<Rightarrow> bool" where
  "eager_contains_key s key = eager_contains_key_by s (as_bytes key)"

definition eager_is_empty :: "('b, 'q, 't) eager \<Rightarrow> bool" where
  "eager_is_empty s \<longleftrightarrow> eager_len s = 0"

definition eager_pending :: "('b, 'q, 't) eager \<Rightarrow> nat" where
  "eager_pending s = pending_len s"

definition eager_pending_bytes :: "('b, 'q, 't) eager \<Rightarrow> u64" where
  "eager_pending_bytes s = pending_bytes s"

definition eager_is_closed :: "('b, 'q, 't) eager \<Rightarrow> bool" where
  "eager_is_closed s = in_closed s"

definition eager_corrupt_keys :: "('b, 'q, 't) eager \<Rightarrow> bytes list" where
  "eager_corrupt_keys s = corrupt_keys s"

definition eager_watch :: "(nat \<Rightarrow> 'q) \<Rightarrow> ('b, 'q, 't) eager \<Rightarrow> ('b, 'q, 't) eager" where
  "eager_watch channel s = s\<lparr>in_watchers := subscribe channel None DEFAULT_CAPACITY (in_watchers s)\<rparr>"

definition eager_watch_keys :: "(nat \<Rightarrow> 'q) \<Rightarrow> string list \<Rightarrow> ('b, 'q, 't) eager \<Rightarrow> ('b, 'q, 't) eager" where
  "eager_watch_keys channel keys s =
     s\<lparr>in_watchers := subscribe channel (Some (map as_bytes keys)) DEFAULT_CAPACITY (in_watchers s)\<rparr>"

definition eager_watch_key :: "(nat \<Rightarrow> 'q) \<Rightarrow> string \<Rightarrow> ('b, 'q, 't) eager \<Rightarrow> ('b, 'q, 't) eager" where
  "eager_watch_key channel key s =
     s\<lparr>in_watchers := subscribe channel (Some [as_bytes key]) DEFAULT_CAPACITY (in_watchers s)\<rparr>"

end
