(* ===== verification/Bank.thy ===== *)
theory Bank
  imports Eager_Locker "HOL-Library.Char_ord"
begin

text \<open>
  \<open>src/bank.rs\<close>: names, ids, schemas, chains, the registry of open lockers, the byte interface behind
  \<open>BankHandle\<close>, and maintenance. A Rust \<open>String\<close> is its UTF-8 bytes as a \<open>string\<close>. The open lockers
  live in a heap of cells addressed by number: a \<open>Weak\<close> is an address, a cell without handles is gone.
  The values of an eager cell have one erased type \<open>'v\<close>, as behind \<open>dyn Any\<close>. Opening a file or an
  IndexedDB database is not modelled (third-party storage); \<open>assembled\<close> takes the backend.
\<close>

definition FORMAT_VERSION :: u32 where
  "FORMAT_VERSION = 1"

definition META_FORMAT_VERSION :: bytes where
  "META_FORMAT_VERSION = as_bytes ''format_version''"

definition META_NEXT_LOCKER_ID :: bytes where
  "META_NEXT_LOCKER_ID = as_bytes ''next_locker_id''"

definition META_LOCKER_PREFIX :: bytes where
  "META_LOCKER_PREFIX = as_bytes ''locker::''"

definition META_SCHEMA_PREFIX :: bytes where
  "META_SCHEMA_PREFIX = as_bytes ''schema::''"

definition META_CHAIN_PREFIX :: bytes where
  "META_CHAIN_PREFIX = as_bytes ''chain::''"

definition locker_key :: "string \<Rightarrow> bytes" where
  "locker_key name = META_LOCKER_PREFIX @ as_bytes name"

definition schema_key :: "locker_id \<Rightarrow> bytes" where
  "schema_key i = META_SCHEMA_PREFIX @ be32 i"

definition chain_key :: "locker_id \<Rightarrow> bytes" where
  "chain_key i = META_CHAIN_PREFIX @ be32 i"

definition u32_from :: "bytes \<Rightarrow> string \<Rightarrow> u32 result" where
  "u32_from bs what =
     (if length bs = 4 then Inr (from_be32 bs) else Inl (Corrupt (what @ '' is not a 4-byte integer'')))"

text \<open>\<open>String::from_utf8\<close> of stored bytes; the text of the standard library's error is left out.\<close>

definition as_string :: "bytes \<Rightarrow> string" where
  "as_string bs = map (\<lambda>b. char_of (unat b)) bs"

definition string_from_utf8 :: "string \<Rightarrow> bytes \<Rightarrow> string result" where
  "string_from_utf8 what bs =
     (if utf8_valid bs then Inr (as_string bs) else Inl (Corrupt (what @ '' is not UTF-8'')))"

section \<open>State\<close>

record ('b, 'q, 'v) cell =
  ce_ctx :: "('b, 'q) ctx"
  ce_state :: "('b, 'q, 'v) eager"
  ce_handles :: nat

record open_locker =
  ol_cell :: nat
  ol_has_values :: bool
  ol_kind :: tx_mode
  ol_type_tag :: string
  ol_config :: locker_config

record ('b, 'q, 'v) bank = "'b shared" +
  bn_chain :: filter_chain
  bn_registry :: "(string, locker_id) btree"
  bn_chains :: "(byte, filter_chain) btree"
  bn_open :: "(string, open_locker) btree"
  bn_residents :: "nat list"
  bn_cells :: "(nat, ('b, 'q, 'v) cell) btree"
  bn_closed :: bool

text \<open>What of the surroundings a bank needs: the backend's methods and the libraries.\<close>

record ('b, 'q) env =
  ev_backend :: "'b backend"
  ev_try_send :: "'q try_send"
  ev_vec_u8 :: "bytes serde"

section \<open>Assembling\<close>

definition check_or_write_format_version :: "('b, 'q) env \<Rightarrow> ('b, error, unit) act" where
  "check_or_write_format_version V b =
     (case bk_get (ev_backend V) b Meta META_FORMAT_VERSION of
        Inl e \<Rightarrow> (Inl e, b)
      | Inr (Some raw) \<Rightarrow>
          (rbind (u32_from raw ''format version'') (\<lambda>found.
             if found \<noteq> FORMAT_VERSION then
               Inl (UnsupportedVersion (ucast (min found 255)) (ucast FORMAT_VERSION))
             else Inr ()), b)
      | Inr None \<Rightarrow> bk_commit (ev_backend V) [Op_Put Meta META_FORMAT_VERSION (be32 FORMAT_VERSION)] b)"

definition bank_new :: "'b \<Rightarrow> filter_chain \<Rightarrow> coherence_state \<Rightarrow> ('b, 'q, 'v) bank" where
  "bank_new b ch coh =
     \<lparr>sh_store = b, sh_values = None, sh_ticks = ticks_default, sh_coherence = coh, bn_chain = ch,
      bn_registry = bt_empty, bn_chains = bt_empty, bn_open = bt_empty, bn_residents = [], bn_cells = bt_empty,
      bn_closed = False\<rparr>"

definition assembled :: "('b, 'q) env \<Rightarrow> 'b \<Rightarrow> filter_chain \<Rightarrow> coherence_state \<Rightarrow> ('b, 'q, 'v) bank result" where
  "assembled V b ch coh =
     (case check_or_write_format_version V b of
        (Inl e, b) \<Rightarrow> Inl e
      | (Inr _, b) \<Rightarrow> Inr (bank_new b ch coh))"

definition with_backend_and_chain :: "('b, 'q) env \<Rightarrow> 'b \<Rightarrow> filter_chain \<Rightarrow> ('b, 'q, 'v) bank result" where
  "with_backend_and_chain V b ch = assembled V b ch coherence_disabled"

definition bank_ensure_open :: "(('b, 'q, 'v) bank, error, unit) act" where
  "bank_ensure_open = sread (\<lambda>s. if bn_closed s then Inl Closed else Inr ())"

definition bank_usage :: "('b, 'q) env \<Rightarrow> (('b, 'q, 'v) bank, error, usage option) act" where
  "bank_usage V = sbind bank_ensure_open (\<lambda>_. sread (\<lambda>s. bk_usage (ev_backend V) (sh_store s)))"

text \<open>The native build.\<close>

definition bank_persist :: "(('b, 'q, 'v) bank, error, bool) act" where
  "bank_persist = sret True"

definition bank_is_persisted :: "(('b, 'q, 'v) bank, error, bool) act" where
  "bank_is_persisted = sbind bank_ensure_open (\<lambda>_. sret True)"

section \<open>Names and ids\<close>

definition cached :: "('b, 'q, 'v) bank \<Rightarrow> string \<Rightarrow> locker_id option" where
  "cached s name = bt_lookup (bn_registry s) name"

definition cache :: "string \<Rightarrow> locker_id \<Rightarrow> ('b, 'q, 'v) bank \<Rightarrow> ('b, 'q, 'v) bank" where
  "cache name i s = s\<lparr>bn_registry := bt_insert name i (bn_registry s)\<rparr>"

text \<open>The two \<open>pop().flatten()\<close> on the reply of \<open>get_many\<close>.\<close>

fun pop_flatten :: "'a option list \<Rightarrow> 'a option \<times> 'a option list" where
  "pop_flatten [] = (None, [])"
| "pop_flatten xs = (last xs, butlast xs)"

definition register_ops :: "string \<Rightarrow> locker_id \<Rightarrow> u32 \<Rightarrow> bop list" where
  "register_ops name i bumped =
     [Op_Put Meta (locker_key name) (be32 i), Op_Put Meta META_NEXT_LOCKER_ID (be32 bumped)]"

definition locker_id_of :: "('b, 'q) env \<Rightarrow> string \<Rightarrow> (('b, 'q, 'v) bank, error, locker_id) act" where
  "locker_id_of V name s =
     (case cached s name of
        Some i \<Rightarrow> (Inr i, s)
      | None \<Rightarrow>
          sbind (slift (bk_get_many (ev_backend V) (sh_store s) Meta [locker_key name, META_NEXT_LOCKER_ID]))
            (\<lambda>found.
              case pop_flatten found of (next_raw, found) \<Rightarrow>
              case pop_flatten found of (registered, _) \<Rightarrow>
              (case registered of
                 Some raw \<Rightarrow>
                   sbind (slift (u32_from raw ''locker id'')) (\<lambda>i. sbind (smod (cache name i)) (\<lambda>_. sret i))
               | None \<Rightarrow>
                   sbind (slift (case next_raw of Some raw \<Rightarrow> u32_from raw ''next locker id'' | None \<Rightarrow> Inr 0)) (\<lambda>nxt.
                   sbind (slift (case checked_succ nxt of Some j \<Rightarrow> Inr j
                            | None \<Rightarrow> Inl (Backend ''locker id space is exhausted''))) (\<lambda>bumped.
                   sbind (on_store (bk_commit (ev_backend V) (register_ops name nxt bumped))) (\<lambda>_.
                   sbind (smod (cache name nxt)) (\<lambda>_. sret nxt)))))) s)"

definition locker_exists :: "('b, 'q) env \<Rightarrow> ('b, 'q, 'v) bank \<Rightarrow> string \<Rightarrow> bool result" where
  "locker_exists V s name =
     (if cached s name \<noteq> None then Inr True
      else rbind (bk_get (ev_backend V) (sh_store s) Meta (locker_key name)) (\<lambda>raw. Inr (raw \<noteq> None)))"

section \<open>Schemas and chains\<close>

definition bind_schema :: "('b, 'q) env \<Rightarrow> locker_id \<Rightarrow> string \<Rightarrow> (('b, 'z) shared_scheme, error, unit) act" where
  "bind_schema V i tag s =
     (case bk_get (ev_backend V) (sh_store s) Meta (schema_key i) of
        Inl e \<Rightarrow> (Inl e, s)
      | Inr (Some raw) \<Rightarrow>
          (rbind (string_from_utf8 ''schema tag'' raw) (\<lambda>st.
             if st \<noteq> tag then Inl (SchemaMismatch st tag) else Inr ()), s)
      | Inr None \<Rightarrow> on_store (bk_commit (ev_backend V) [Op_Put Meta (schema_key i) (as_bytes tag)]) s)"

definition register_chain :: "filter_chain \<Rightarrow> ('b, 'q, 'v) bank \<Rightarrow> ('b, 'q, 'v) bank" where
  "register_chain ch s = s\<lparr>bn_chains := bt_insert (ch_id ch) ch (bn_chains s)\<rparr>"

definition chain_for :: "locker_config \<Rightarrow> ('b, 'q, 'v) bank \<Rightarrow> filter_chain \<times> ('b, 'q, 'v) bank" where
  "chain_for cfg s =
     (case lc_chain cfg of Some ch \<Rightarrow> (ch, register_chain ch s) | None \<Rightarrow> (bn_chain s, s))"

text \<open>The slice pattern \<open>[stored]\<close>.\<close>

definition chain_byte :: "bytes \<Rightarrow> byte result" where
  "chain_byte raw =
     (case raw of [st] \<Rightarrow> Inr st | _ \<Rightarrow> Inl (Corrupt ''a locker's filter chain id is not a single byte''))"

definition stored_chain_id :: "('b, 'q) env \<Rightarrow> 'b \<Rightarrow> locker_id \<Rightarrow> byte option result" where
  "stored_chain_id V b i =
     rbind (bk_get (ev_backend V) b Meta (chain_key i)) (\<lambda>raw.
       case raw of Some raw \<Rightarrow> rbind (chain_byte raw) (\<lambda>st. Inr (Some st)) | None \<Rightarrow> Inr None)"

definition locker_chain :: "('b, 'q) env \<Rightarrow> ('b, 'q, 'v) bank \<Rightarrow> locker_id \<Rightarrow> filter_chain option result" where
  "locker_chain V s i =
     rbind (stored_chain_id V (sh_store s) i) (\<lambda>st.
       case st of
         None \<Rightarrow> Inr (Some (bn_chain s))
       | Some st \<Rightarrow> if st = ch_id (bn_chain s) then Inr (Some (bn_chain s)) else Inr (bt_lookup (bn_chains s) st))"

definition locker_chain_or_bank :: "('b, 'q) env \<Rightarrow> ('b, 'q, 'v) bank \<Rightarrow> locker_id \<Rightarrow> filter_chain result" where
  "locker_chain_or_bank V s i =
     rbind (locker_chain V s i) (\<lambda>c. Inr (case c of Some c \<Rightarrow> c | None \<Rightarrow> bn_chain s))"

definition bind_chain :: "('b, 'q) env \<Rightarrow> locker_id \<Rightarrow> filter_chain \<Rightarrow> bool \<Rightarrow> (('b, 'q, 'v) bank, error, unit) act" where
  "bind_chain V i ch pre_existing s =
     (case bk_get (ev_backend V) (sh_store s) Meta (chain_key i) of
        Inl e \<Rightarrow> (Inl e, s)
      | Inr (Some raw) \<Rightarrow>
          (rbind (chain_byte raw) (\<lambda>st.
             if st \<noteq> ch_id ch then
               Inl (SchemaMismatch
                 (''filter chain '' @ show_nat (unat st) @ ''; this locker's values were sealed with it'')
                 (describe ch @ '' -- reopen the locker with the chain it was written under, or use a new locker name''))
             else Inr ()), s)
      | Inr None \<Rightarrow>
          if pre_existing \<and> ch_id ch \<noteq> ch_id (bn_chain s) then
            (Inl (SchemaMismatch
               (''no filter chain record; this locker predates per-locker chains, so its values were sealed with the bank chain ('' @
                describe (bn_chain s) @ '')'')
               (describe ch @ '' -- reopen it under the bank chain, which records the chain id from then on, or copy its values into a new locker name'')), s)
          else
            let adopted = (if pre_existing then ch_id (bn_chain s) else ch_id ch) in
            on_store (bk_commit (ev_backend V) [Op_Put Meta (chain_key i) [adopted]]) s)"

definition prepare :: "('b, 'q) env \<Rightarrow> string \<Rightarrow> string \<Rightarrow> filter_chain \<Rightarrow> (('b, 'q, 'v) bank, error, locker_id) act" where
  "prepare V tag name ch =
     sbind (sread (\<lambda>s. locker_exists V s name)) (\<lambda>pre_existing.
     sbind (locker_id_of V name) (\<lambda>i.
     sbind (bind_schema V i tag) (\<lambda>_.
     sbind (bind_chain V i ch pre_existing) (\<lambda>_.
       sret i))))"

section \<open>The registry of open lockers\<close>

text \<open>\<open>Weak::upgrade\<close>: the cell, while a handle keeps it.\<close>

definition upgrade :: "('b, 'q, 'v) bank \<Rightarrow> nat \<Rightarrow> ('b, 'q, 'v) cell option" where
  "upgrade s a = (case bt_lookup (bn_cells s) a of
     Some c \<Rightarrow> if ce_handles c > 0 then Some c else None
   | None \<Rightarrow> None)"

definition is_live :: "('b, 'q, 'v) bank \<Rightarrow> open_locker \<Rightarrow> bool" where
  "is_live s ol \<longleftrightarrow> (case upgrade s (ol_cell ol) of Some c \<Rightarrow> \<not> in_closed (ce_state c) | None \<Rightarrow> False)"

definition prune :: "('b, 'q, 'v) bank \<Rightarrow> ('b, 'q, 'v) bank" where
  "prune s = s\<lparr>bn_open := bt_filter (\<lambda>_ ol. is_live s ol) (bn_open s)\<rparr>"

definition open_locker_of :: "string \<Rightarrow> ('b, 'q, 'v) bank \<Rightarrow> open_locker option \<times> ('b, 'q, 'v) bank" where
  "open_locker_of name s =
     (let s = prune s in
      (case bt_lookup (bn_open s) name of
         Some ol \<Rightarrow> if is_live s ol then Some ol else None
       | None \<Rightarrow> None, s))"

definition is_locker_open :: "string \<Rightarrow> ('b, 'q, 'v) bank \<Rightarrow> bool \<times> ('b, 'q, 'v) bank" where
  "is_locker_open name s = (let s = prune s in (bt_contains (bn_open s) name, s))"

definition open_locker_names :: "('b, 'q, 'v) bank \<Rightarrow> string list \<times> ('b, 'q, 'v) bank" where
  "open_locker_names s = (let s = prune s in (bt_keys (bn_open s), s))"

definition on_cell :: "nat \<Rightarrow> (('b, 'q, 'v) cell \<Rightarrow> ('b, 'q, 'v) cell) \<Rightarrow> ('b, 'q, 'v) bank \<Rightarrow> ('b, 'q, 'v) bank" where
  "on_cell a f s =
     (case bt_lookup (bn_cells s) a of Some c \<Rightarrow> s\<lparr>bn_cells := bt_insert a (f c) (bn_cells s)\<rparr> | None \<Rightarrow> s)"

definition mark_cell_shared :: "nat \<Rightarrow> ('b, 'q, 'v) bank \<Rightarrow> ('b, 'q, 'v) bank" where
  "mark_cell_shared a = on_cell a (\<lambda>c. c\<lparr>ce_state := mark_name_shared (ce_state c)\<rparr>)"

text \<open>First to claim a name wins; a loser marks both and is told of the winner.\<close>

definition claim_open :: "string \<Rightarrow> open_locker \<Rightarrow> ('b, 'q, 'v) bank \<Rightarrow> open_locker option \<times> ('b, 'q, 'v) bank" where
  "claim_open name ol s =
     (let s = prune s in
      case bt_lookup (bn_open s) name of
        Some winner \<Rightarrow>
          if is_live s winner then
            (Some winner, mark_cell_shared (ol_cell ol) (mark_cell_shared (ol_cell winner) s))
          else (None, s\<lparr>bn_open := bt_insert name ol (bn_open s)\<rparr>)
      | None \<Rightarrow> (None, s\<lparr>bn_open := bt_insert name ol (bn_open s)\<rparr>))"

fun kind_word :: "tx_mode \<Rightarrow> string" where
  "kind_word TxEager = ''eager''"
| "kind_word TxLazy = ''lazy''"

definition config_conflict :: "locker_config \<Rightarrow> locker_config \<Rightarrow> string option" where
  "config_conflict a b =
     (if lc_max_inline a \<noteq> lc_max_inline b then Some ''max_inline''
      else if lc_eager_budget a \<noteq> lc_eager_budget b then Some ''eager_budget''
      else if lc_policy a \<noteq> lc_policy b then Some ''policy''
      else if lc_commit a \<noteq> lc_commit b then Some ''commit''
      else if lc_durability a \<noteq> lc_durability b then Some ''durability''
      else if lc_on_corrupt a \<noteq> lc_on_corrupt b then Some ''on_corrupt''
      else if lc_chunk_size a \<noteq> lc_chunk_size b then Some ''chunk_size''
      else if cfg_chain_id a \<noteq> cfg_chain_id b then Some ''filter chain''
      else None)"

definition check_shared :: "string \<Rightarrow> open_locker \<Rightarrow> tx_mode \<Rightarrow> string \<Rightarrow> locker_config \<Rightarrow> unit result" where
  "check_shared name ol kind requested cfg =
     (if ol_kind ol \<noteq> kind then
        Inl (SchemaMismatch (kind_word (ol_kind ol) @ '' locker '' @ show_debug name)
               (kind_word kind @ '' locker '' @ show_debug name))
      else if ol_type_tag ol \<noteq> requested then Inl (SchemaMismatch (ol_type_tag ol) requested)
      else (case config_conflict (ol_config ol) cfg of
          Some field \<Rightarrow> Inl (InvalidConfig (''locker '' @ show_debug name @ '' is already open with a different '' @
            field @ ''; every handle on one name shares its state, so they must be opened the same way. Close the open handle first, or open this one with the same config.''))
        | None \<Rightarrow> Inr ()))"

text \<open>One more handle on a cell; a new cell with its first handle.\<close>

definition add_handle :: "nat \<Rightarrow> ('b, 'q, 'v) bank \<Rightarrow> ('b, 'q, 'v) bank" where
  "add_handle a = on_cell a (\<lambda>c. c\<lparr>ce_handles := Suc (ce_handles c)\<rparr>)"

definition drop_handle :: "nat \<Rightarrow> ('b, 'q, 'v) bank \<Rightarrow> ('b, 'q, 'v) bank" where
  "drop_handle a = on_cell a (\<lambda>c. c\<lparr>ce_handles := ce_handles c - 1\<rparr>)"

definition fresh_cell :: "('b, 'q, 'v) bank \<Rightarrow> nat" where
  "fresh_cell s = Suc (fold max (bt_keys (bn_cells s)) 0)"

definition share_open :: "string \<Rightarrow> open_locker \<Rightarrow> tx_mode \<Rightarrow> string \<Rightarrow> locker_config
    \<Rightarrow> (('b, 'q, 'v) bank, error, nat) act" where
  "share_open name ol kind requested cfg =
     sbind (slift (check_shared name ol kind requested cfg)) (\<lambda>_.
     sbind (slift (if kind = TxEager \<and> \<not> ol_has_values ol then Inl (SchemaMismatch (ol_type_tag ol) requested)
                   else Inr ())) (\<lambda>_.
     sbind (smod (add_handle (ol_cell ol))) (\<lambda>_. sret (ol_cell ol))))"

definition register_resident :: "nat \<Rightarrow> ('b, 'q, 'v) bank \<Rightarrow> ('b, 'q, 'v) bank" where
  "register_resident a s =
     s\<lparr>bn_residents := filter (\<lambda>r. upgrade s r \<noteq> None) (bn_residents s) @ [a]\<rparr>"

definition locker_ctx :: "('b, 'q) env \<Rightarrow> filter_chain \<Rightarrow> locker_id \<Rightarrow> string \<Rightarrow> locker_config \<Rightarrow> ('b, 'q) ctx" where
  "locker_ctx V ch i name cfg =
     \<lparr>cx_backend = ev_backend V, cx_chain = ch, cx_id = i, cx_name = name, cx_config = cfg,
      cx_try_send = ev_try_send V, cx_vec_u8 = sd_to_vec (ev_vec_u8 V)\<rparr>"

text \<open>What both opens do with the locker they have built: put it in the heap, claim the name, or share.\<close>

definition install :: "string \<Rightarrow> tx_mode \<Rightarrow> string \<Rightarrow> locker_config \<Rightarrow> ('b, 'q) ctx \<Rightarrow> ('b, 'q, 'v) eager
    \<Rightarrow> (('b, 'q, 'v) bank, error, nat) act" where
  "install name kind tag cfg X st s =
     (let a = fresh_cell s;
          s = s\<lparr>bn_cells := bt_insert a \<lparr>ce_ctx = X, ce_state = st, ce_handles = 1\<rparr> (bn_cells s)\<rparr>;
          ol = \<lparr>ol_cell = a, ol_has_values = (kind = TxEager), ol_kind = kind, ol_type_tag = tag, ol_config = cfg\<rparr>
      in case claim_open name ol s of
           (Some winner, s) \<Rightarrow> share_open name winner kind tag cfg (drop_handle a s)
         | (None, s) \<Rightarrow> (Inr a, register_resident a s))"

definition on_shared :: "('b shared, error, 'a) act \<Rightarrow> (('b, 'z) shared_scheme, error, 'a) act" where
  "on_shared m s =
     (case m (shared.truncate s) of (r, sh) \<Rightarrow>
        (r, s\<lparr>sh_store := sh_store sh, sh_values := sh_values sh, sh_ticks := sh_ticks sh,
              sh_coherence := sh_coherence sh\<rparr>))"

definition locker_with :: "('b, 'q) env \<Rightarrow> 'v serde \<Rightarrow> string \<Rightarrow> locker_config \<Rightarrow> (('b, 'q, 'v) bank, error, nat) act" where
  "locker_with V sd name cfg =
     sbind bank_ensure_open (\<lambda>_ s.
       case chain_for cfg s of (ch, s) \<Rightarrow>
       case open_locker_of name s of
         (Some ol, s) \<Rightarrow> share_open name ol TxEager (type_tag sd) cfg s
       | (None, s) \<Rightarrow>
           sbind (prepare V (type_tag sd) name ch) (\<lambda>i s.
             let X = locker_ctx V ch i name cfg in
             case eager_open X sd (shared.truncate s) of
               Inl e \<Rightarrow> (Inl e, s)
             | Inr st \<Rightarrow> install name TxEager (type_tag sd) cfg X st s) s)"

definition lazy_locker_with :: "('b, 'q) env \<Rightarrow> 'v serde \<Rightarrow> string \<Rightarrow> locker_config \<Rightarrow> (('b, 'q, 'v) bank, error, nat) act" where
  "lazy_locker_with V sd name cfg =
     sbind bank_ensure_open (\<lambda>_ s.
       case chain_for cfg s of (ch, s) \<Rightarrow>
       case open_locker_of name s of
         (Some ol, s) \<Rightarrow> share_open name ol TxLazy (type_tag sd) cfg s
       | (None, s) \<Rightarrow>
           sbind (prepare V (type_tag sd) name ch) (\<lambda>i.
             let X = locker_ctx V ch i name cfg in
             sbind (on_shared (lazy_open X)) (\<lambda>st.
               install name TxLazy (type_tag sd) cfg X (resident.extend st \<lparr>eg_values = bt_empty\<rparr>))) s)"

section \<open>Flushing and closing\<close>

text \<open>The action of one locker on the state of the bank: its cell with the bank's shared part.\<close>

definition in_cell :: "nat \<Rightarrow> (('b, 'q) ctx \<Rightarrow> (('b, 'q, 'v) eager, error, 'a) act) \<Rightarrow> (('b, 'q, 'v) bank, error, 'a) act" where
  "in_cell a m s =
     (case bt_lookup (bn_cells s) a of
        None \<Rightarrow> (Inl (Panicked ''no such cell''), s)
      | Some c \<Rightarrow>
          (case m (ce_ctx c) ((ce_state c)\<lparr>sh_store := sh_store s, sh_values := sh_values s,
                    sh_ticks := sh_ticks s, sh_coherence := sh_coherence s\<rparr>) of
             (r, st) \<Rightarrow>
               (r, s\<lparr>sh_store := sh_store st, sh_values := sh_values st, sh_ticks := sh_ticks st,
                     sh_coherence := sh_coherence st,
                     bn_cells := bt_insert a (c\<lparr>ce_state := st\<rparr>) (bn_cells s)\<rparr>)))"

text \<open>Every resident in turn; the first error is kept, none stops the rest.\<close>

fun flush_residents :: "nat list \<Rightarrow> error option \<Rightarrow> ('b, 'q, 'v) bank \<Rightarrow> error option \<times> ('b, 'q, 'v) bank" where
  "flush_residents [] first s = (first, s)"
| "flush_residents (a # as) first s =
     (case in_cell a resident_flush s of
        (Inl e, s) \<Rightarrow> flush_residents as (Some (case first of Some f \<Rightarrow> f | None \<Rightarrow> e)) s
      | (Inr _, s) \<Rightarrow> flush_residents as first s)"

definition flush_all :: "('b, 'q) env \<Rightarrow> (('b, 'q, 'v) bank, error, unit) act" where
  "flush_all V =
     sbind bank_ensure_open (\<lambda>_ s.
       let s = s\<lparr>bn_residents := filter (\<lambda>r. upgrade s r \<noteq> None) (bn_residents s)\<rparr> in
       case flush_residents (bn_residents s) None s of (first, s) \<Rightarrow>
       case on_store (bk_flush (ev_backend V)) s of (flushed, s) \<Rightarrow>
         ((case first of Some e \<Rightarrow> Inl e | None \<Rightarrow> flushed), s))"

definition bank_close :: "('b, 'q) env \<Rightarrow> (('b, 'q, 'v) bank, error, unit) act" where
  "bank_close V s =
     (if bn_closed s then (Inr (), s)
      else
        case flush_all V s of (flushed, s) \<Rightarrow>
        let s = s\<lparr>bn_closed := True, sh_coherence := coherence_close (sh_coherence s)\<rparr> in
        case on_store (bk_close (ev_backend V)) s of (closed, s) \<Rightarrow> (result_and flushed closed, s))"

section \<open>The byte interface\<close>

definition raw_locker :: "('b, 'q) env \<Rightarrow> string \<Rightarrow> (('b, 'q, 'v) bank, error, locker_id) act" where
  "raw_locker V name s = prepare V (type_tag (ev_vec_u8 V)) name (bn_chain s) s"

definition decode_slot :: "('b, 'q) env \<Rightarrow> filter_chain \<Rightarrow> bytes option \<Rightarrow> bytes option result" where
  "decode_slot V ch slot =
     (case slot of
        Some st \<Rightarrow> rbind (value_decode (ev_vec_u8 V) st ch) (\<lambda>v. Inr (Some v))
      | None \<Rightarrow> Inr None)"

definition raw_get :: "('b, 'q) env \<Rightarrow> string \<Rightarrow> bytes \<Rightarrow> (('b, 'q, 'v) bank, error, bytes option) act" where
  "raw_get V name key =
     sbind (raw_locker V name) (\<lambda>i.
       sread (\<lambda>s. rbind (bk_get (ev_backend V) (sh_store s) Records (encode i key)) (decode_slot V (bn_chain s))))"

definition raw_put :: "('b, 'q) env \<Rightarrow> string \<Rightarrow> bytes \<Rightarrow> bytes \<Rightarrow> (('b, 'q, 'v) bank, error, unit) act" where
  "raw_put V name key v =
     sbind (raw_locker V name) (\<lambda>i.
     sbind (sread (\<lambda>s. value_encode (ev_vec_u8 V) v (bn_chain s))) (\<lambda>sealed.
       on_store (bk_commit (ev_backend V) [Op_Put Records (encode i key) sealed])))"

definition raw_delete :: "('b, 'q) env \<Rightarrow> string \<Rightarrow> bytes \<Rightarrow> (('b, 'q, 'v) bank, error, unit) act" where
  "raw_delete V name key =
     sbind (raw_locker V name) (\<lambda>i. on_store (bk_commit (ev_backend V) [Op_Delete Records (encode i key)]))"

definition raw_clear :: "('b, 'q) env \<Rightarrow> string \<Rightarrow> (('b, 'q, 'v) bank, error, unit) act" where
  "raw_clear V name =
     sbind (raw_locker V name) (\<lambda>i. on_store (bk_commit (ev_backend V) [Op_DeleteRange Records (locker_range i)]))"

definition raw_keys :: "('b, 'q) env \<Rightarrow> string \<Rightarrow> bytes \<Rightarrow> (('b, 'q, 'v) bank, error, bytes list) act" where
  "raw_keys V name p =
     sbind (raw_locker V name) (\<lambda>i. sread (\<lambda>s.
       page_loop (bk_fuel (ev_backend V) (sh_store s)) (ev_backend V) (sh_store s)
         \<lparr>rq_table = Records, rq_range = prefix_range i p, rq_reverse = False, rq_limit = 256, rq_want_values = False\<rparr>
         (\<lambda>keys (encoded, _). rbind (decode i encoded) (\<lambda>k. Inr (keys @ [k]))) []))"

definition raw_get_many :: "('b, 'q) env \<Rightarrow> string \<Rightarrow> bytes list \<Rightarrow> (('b, 'q, 'v) bank, error, bytes option list) act" where
  "raw_get_many V name keys =
     (if keys = [] then sret []
      else sbind (raw_locker V name) (\<lambda>i. sread (\<lambda>s.
        rbind (bk_get_many (ev_backend V) (sh_store s) Records (map (encode i) keys))
          (mapM_r (decode_slot V (bn_chain s))))))"

definition raw_put_all :: "('b, 'q) env \<Rightarrow> string \<Rightarrow> (bytes \<times> bytes) list \<Rightarrow> (('b, 'q, 'v) bank, error, unit) act" where
  "raw_put_all V name entries =
     (if entries = [] then sret ()
      else sbind (raw_locker V name) (\<lambda>i.
        sbind (sread (\<lambda>s. mapM_r (\<lambda>(key, v).
            rbind (value_encode (ev_vec_u8 V) v (bn_chain s)) (\<lambda>sealed. Inr (Op_Put Records (encode i key) sealed))) entries))
          (\<lambda>ops. on_store (bk_commit (ev_backend V) ops))))"

definition raw_delete_all :: "('b, 'q) env \<Rightarrow> string \<Rightarrow> bytes list \<Rightarrow> (('b, 'q, 'v) bank, error, unit) act" where
  "raw_delete_all V name keys =
     (if keys = [] then sret ()
      else sbind (raw_locker V name) (\<lambda>i.
        on_store (bk_commit (ev_backend V) (map (\<lambda>key. Op_Delete Records (encode i key)) keys))))"

definition raw_entry_visit :: "('b, 'q) env \<Rightarrow> filter_chain \<Rightarrow> locker_id \<Rightarrow> (bytes \<times> bytes) list \<Rightarrow> bytes \<times> bytes option
    \<Rightarrow> (bytes \<times> bytes) list result" where
  "raw_entry_visit V ch i acc item =
     (case item of (encoded, v) \<Rightarrow>
        rbind (decode i encoded) (\<lambda>key.
        rbind (case v of
                 None \<Rightarrow> Inl (Corrupt (''the backend returned no value for '' @ show_debug (as_string key) @
                   '' in a scan that asked for values''))
               | Some st \<Rightarrow> value_decode (ev_vec_u8 V) st ch) (\<lambda>v.
          Inr (acc @ [(key, v)]))))"

definition raw_entries :: "('b, 'q) env \<Rightarrow> string \<Rightarrow> bytes \<Rightarrow> (('b, 'q, 'v) bank, error, (bytes \<times> bytes) list) act" where
  "raw_entries V name p =
     sbind (raw_locker V name) (\<lambda>i. sread (\<lambda>s.
       page_loop (bk_fuel (ev_backend V) (sh_store s)) (ev_backend V) (sh_store s)
         \<lparr>rq_table = Records, rq_range = prefix_range i p, rq_reverse = False,
          rq_limit = bk_scan_page_size (ev_backend V), rq_want_values = True\<rparr>
         (raw_entry_visit V (bn_chain s) i) []))"

definition raw_contains_key :: "('b, 'q) env \<Rightarrow> string \<Rightarrow> bytes \<Rightarrow> (('b, 'q, 'v) bank, error, bool) act" where
  "raw_contains_key V name key =
     sbind (raw_locker V name) (\<lambda>i. sread (\<lambda>s.
       rbind (bk_get (ev_backend V) (sh_store s) Records (encode i key)) (\<lambda>v. Inr (v \<noteq> None))))"

definition raw_len :: "('b, 'q) env \<Rightarrow> string \<Rightarrow> (('b, 'q, 'v) bank, error, nat) act" where
  "raw_len V name =
     sbind (raw_locker V name) (\<lambda>i. sread (\<lambda>s.
       page_loop (bk_fuel (ev_backend V) (sh_store s)) (ev_backend V) (sh_store s)
         \<lparr>rq_table = Records, rq_range = locker_range i, rq_reverse = False,
          rq_limit = bk_scan_page_size (ev_backend V), rq_want_values = False\<rparr>
         (\<lambda>n _. Inr (Suc n)) 0))"

section \<open>Maintenance\<close>

definition locker_names :: "('b, 'q) env \<Rightarrow> ('b, 'q, 'v) bank \<Rightarrow> string list result" where
  "locker_names V s =
     page_loop (bk_fuel (ev_backend V) (sh_store s)) (ev_backend V) (sh_store s)
       \<lparr>rq_table = Meta, rq_range = kr_prefix META_LOCKER_PREFIX, rq_reverse = False, rq_limit = 256,
        rq_want_values = False\<rparr>
       (\<lambda>names (key, _).
          rbind (string_from_utf8 ''locker name'' (drop (length META_LOCKER_PREFIX) key)) (\<lambda>n. Inr (names @ [n]))) []"

text \<open>The throw-away \<open>Inner\<close> of the maintenance operations: the default configuration.\<close>

definition maintenance_ctx :: "('b, 'q) env \<Rightarrow> locker_id \<Rightarrow> string \<Rightarrow> filter_chain \<Rightarrow> ('b, 'q) ctx" where
  "maintenance_ctx V i name ch = locker_ctx V ch i name config_default"

definition chunk_bytes :: "('b, 'q) env \<Rightarrow> 'b \<Rightarrow> u64 \<Rightarrow> u64 result" where
  "chunk_bytes V b vid =
     page_loop (bk_fuel (ev_backend V) b) (ev_backend V) b
       \<lparr>rq_table = Chunks, rq_range = chunk_range vid, rq_reverse = False, rq_limit = 256, rq_want_values = True\<rparr>
       (\<lambda>n (_, v). Inr (case v of Some bs \<Rightarrow> sat_add n (of_nat (length bs)) | None \<Rightarrow> n)) 0"

definition bytes_visit :: "u64 \<times> u64 list \<Rightarrow> bytes \<Rightarrow> bytes option \<Rightarrow> (u64 \<times> u64 list) result" where
  "bytes_visit acc key v =
     (case acc of (n, chunked) \<Rightarrow>
      Inr (case v of
         None \<Rightarrow> (n, chunked)
       | Some raw \<Rightarrow>
           (sat_add n (of_nat (length raw)),
            if is_pointer raw then
              (case pointer_parse raw of Inr p \<Rightarrow> chunked @ [cp_value_id p] | Inl _ \<Rightarrow> chunked)
            else chunked)))"

definition locker_bytes :: "('b, 'q) env \<Rightarrow> string \<Rightarrow> (('b, 'q, 'v) bank, error, u64) act" where
  "locker_bytes V name =
     sbind (sread (\<lambda>s. locker_exists V s name)) (\<lambda>ex.
       if \<not> ex then sret 0
       else
         sbind (locker_id_of V name) (\<lambda>i.
         sbind (sread (\<lambda>s. locker_chain_or_bank V s i)) (\<lambda>ch.
         sread (\<lambda>s. let X = maintenance_ctx V i name ch in
           rbind (walk (cx_backend X) (sh_store s) (cx_id X) Unbounded Unbounded False True bytes_visit (0, []))
             (\<lambda>(n, chunked).
               foldM_r (\<lambda>n vid. rbind (chunk_bytes V (sh_store s) vid) (\<lambda>m. Inr (sat_add n m))) n chunked)))))"

definition verify_visit :: "filter_chain \<Rightarrow> bytes list \<times> (bytes \<times> chunk_pointer) list \<Rightarrow> bytes \<Rightarrow> bytes option
    \<Rightarrow> (bytes list \<times> (bytes \<times> chunk_pointer) list) result" where
  "verify_visit ch acc key v =
     (case acc of (bad, chunked) \<Rightarrow>
      Inr (case v of
         None \<Rightarrow> (bad @ [key], chunked)
       | Some raw \<Rightarrow>
           if is_pointer raw then
             (case pointer_parse raw of Inr p \<Rightarrow> (bad, chunked @ [(key, p)]) | Inl _ \<Rightarrow> (bad @ [key], chunked))
           else (case chain_open ch raw of Inl _ \<Rightarrow> (bad @ [key], chunked) | Inr _ \<Rightarrow> (bad, chunked))))"

definition bank_verify :: "('b, 'q) env \<Rightarrow> string \<Rightarrow> (('b, 'q, 'v) bank, error, bytes list) act" where
  "bank_verify V name =
     sbind (sread (\<lambda>s. locker_exists V s name)) (\<lambda>ex.
       if \<not> ex then sret []
       else
         sbind (locker_id_of V name) (\<lambda>i.
         sbind (sread (\<lambda>s. locker_chain V s i)) (\<lambda>ch.
         case ch of
           None \<Rightarrow>
             sread (\<lambda>s. rbind (stored_chain_id V (sh_store s) i) (\<lambda>st.
               Inl (SchemaMismatch
                 (''filter chain '' @ (case st of Some st \<Rightarrow> show_nat (unat st) | None \<Rightarrow> ''?'') @
                  ''; nothing in this process can open it'')
                 (''locker '' @ show_debug name @ '' cannot be verified without its chain -- register it with Bank::register_chain, or open the locker with it first''))))
         | Some ch \<Rightarrow>
             sread (\<lambda>s. let X = maintenance_ctx V i name ch in
               rbind (walk (cx_backend X) (sh_store s) (cx_id X) Unbounded Unbounded False True (verify_visit ch) ([], []))
                 (\<lambda>(bad, chunked).
                   Inr (sort (bad @ map fst (filter (\<lambda>(key, p).
                     (case read_chunks (cx_backend X) (sh_store s) (cx_chain X) p of Inl _ \<Rightarrow> True | Inr _ \<Rightarrow> False))
                     chunked))))))))"

text \<open>One round of the loop of \<open>quarantine\<close>: the operations and the count.\<close>

definition quarantine_step :: "('b, 'q) ctx \<Rightarrow> 'b \<Rightarrow> bop list \<times> nat \<Rightarrow> bytes \<Rightarrow> (bop list \<times> nat) result" where
  "quarantine_step X b acc key =
     (case acc of (ops, removed) \<Rightarrow>
        rbind (fetch X b key) (\<lambda>existing.
          case existing of
            None \<Rightarrow> Inr (ops, removed)
          | Some existing \<Rightarrow>
              Inr (ops @ (if is_pointer existing then
                            (case pointer_parse existing of Inr p \<Rightarrow> [gc_ops p] | Inl _ \<Rightarrow> [])
                          else [])
                       @ [delete_op X key], Suc removed)))"

definition quarantine :: "('b, 'q) env \<Rightarrow> string \<Rightarrow> bytes list \<Rightarrow> (('b, 'q, 'v) bank, error, nat) act" where
  "quarantine V name keys s =
     (case is_locker_open name s of (opened, s) \<Rightarrow>
        if opened then
          (Inl (InvalidConfig (''locker '' @ show_debug name @ '' is still open; close it before quarantining records'')), s)
        else if keys = [] then (Inr 0, s)
        else
          sbind (sread (\<lambda>s. locker_exists V s name)) (\<lambda>ex.
            if \<not> ex then sret 0
            else
              sbind (locker_id_of V name) (\<lambda>i.
              sbind (sread (\<lambda>s. locker_chain_or_bank V s i)) (\<lambda>ch.
              sbind (sread (\<lambda>s. foldM_r (quarantine_step (maintenance_ctx V i name ch) (sh_store s)) ([], 0) keys))
                (\<lambda>(ops, removed).
                  sbind (if ops \<noteq> [] then on_store (bk_commit (ev_backend V) ops) else sret ()) (\<lambda>_. sret removed))))) s)"

definition delete_locker :: "('b, 'q) env \<Rightarrow> string \<Rightarrow> (('b, 'q, 'v) bank, error, bool) act" where
  "delete_locker V name s =
     (case is_locker_open name s of (opened, s) \<Rightarrow>
        if opened then
          (Inl (InvalidConfig (''locker '' @ show_debug name @ '' is still open; close it before deleting it'')), s)
        else
          sbind (sread (\<lambda>s. locker_exists V s name)) (\<lambda>ex.
            if \<not> ex then sret False
            else
              sbind (locker_id_of V name) (\<lambda>i.
              sbind (sread (\<lambda>s. locker_chain_or_bank V s i)) (\<lambda>ch.
              sbind (sread (\<lambda>s. clear_value_ops (maintenance_ctx V i name ch) (sh_store s))) (\<lambda>ops.
              sbind (on_store (bk_commit (ev_backend V)
                       (ops @ [Op_Delete Meta (locker_key name), Op_Delete Meta (schema_key i)]))) (\<lambda>_.
              sbind (smod (\<lambda>s. s\<lparr>bn_registry := bt_remove name (bn_registry s), bn_open := bt_remove name (bn_open s)\<rparr>)) (\<lambda>_.
                sret True)))))) s)"

end
