(* ===== verification/Storage.thy ===== *)
theory Storage
  imports Transaction Alloc_Interleaving
begin

text \<open>
  What is stored under a key, and the invariants of storage that keep it readable: a chunk pointer owns its
  value id (\<open>owned\<close>), every id in use is below the stored counter (\<open>below\<close>), and no chunk is left
  without a pointer (\<open>no_orphans\<close>). The lemmas say what the operations built by \<open>Inner\<close> do to all three.
\<close>

section \<open>What is stored\<close>

abbreviation mem_of :: "tables \<Rightarrow> memory_backend" where
  "mem_of t \<equiv> \<lparr>mb_tables = t, mb_closed = False\<rparr>"

definition stored_payload :: "filter_chain \<Rightarrow> tables \<Rightarrow> bytes \<Rightarrow> bytes result" where
  "stored_payload ch t raw =
     (if is_pointer raw then rbind (pointer_parse raw) (read_chunks memory_backend_vt (mem_of t) ch)
      else chain_open ch raw)"

text \<open>A value as it is stored: whether its chunks are raw bytes of a stream, and its bytes.\<close>

type_synonym stored = "bool \<times> bytes"

abbreviation postcard :: "bytes \<Rightarrow> stored result" where
  "postcard p \<equiv> Inr (False, p)"

definition stored_raw :: "bytes \<Rightarrow> bool" where
  "stored_raw raw = (case pointer_parse raw of Inr p \<Rightarrow> cp_flags p = FLAG_RAW | Inl _ \<Rightarrow> False)"

definition stored_item :: "filter_chain \<Rightarrow> tables \<Rightarrow> bytes \<Rightarrow> stored result" where
  "stored_item ch t raw = rbind (stored_payload ch t raw) (\<lambda>p. Inr (stored_raw raw, p))"

definition payload_view :: "filter_chain \<Rightarrow> locker_id \<Rightarrow> tables \<Rightarrow> bytes \<Rightarrow> stored result option" where
  "payload_view ch l t key = map_option (stored_item ch t) (bt_lookup (tb_records t) (encode_bytes l key))"

definition points :: "tables \<Rightarrow> bytes \<Rightarrow> u64 \<Rightarrow> bool" where
  "points t x i \<longleftrightarrow> (\<exists>raw p. bt_lookup (tb_records t) x = Some raw \<and> pointer_parse raw = Inr p \<and> cp_value_id p = i)"

definition stored_counter :: "tables \<Rightarrow> u64" where
  "stored_counter t =
     (case bt_lookup (tb_meta t) next_value_id_key of
        Some bs \<Rightarrow> if length bs = 8 then from_be64 bs else 0
      | None \<Rightarrow> 0)"

definition owned :: "tables \<Rightarrow> bool" where
  "owned t \<longleftrightarrow> (\<forall>x y i. points t x i \<longrightarrow> points t y i \<longrightarrow> x = y)"

definition below :: "tables \<Rightarrow> u64 \<Rightarrow> bool" where
  "below t c \<longleftrightarrow> (\<forall>x i. points t x i \<longrightarrow> i < c)"

definition no_orphans :: "tables \<Rightarrow> bool" where
  "no_orphans t \<longleftrightarrow>
     (\<forall>k\<in>stored_chunk_keys t. \<exists>x i. points t x i \<and> kr_contains (chunk_range i) k)"

text \<open>The cursor is not behind the counter.\<close>

definition cursor_above :: "value_ids \<Rightarrow> u64 \<Rightarrow> bool" where
  "cursor_above nxt c \<longleftrightarrow> (\<forall>n. nxt = Some n \<longrightarrow> c \<le> n)"

definition vals_ok :: "value_ids \<Rightarrow> tables \<Rightarrow> bool" where
  "vals_ok nxt t \<longleftrightarrow> owned t \<and> below t (stored_counter t) \<and> cursor_above nxt (stored_counter t)"

section \<open>Reading depends on the chunks of one id\<close>

lemma is_pointer_parse: "pointer_parse raw = Inr p \<Longrightarrow> is_pointer raw"
  by (auto simp: pointer_parse_Inr_iff)

lemma mem_get_many:
  "bk_get_many memory_backend_vt (mem_of t) tab ks = Inr (map (bt_lookup (tables_get t tab)) ks)"
  by (simp add: memory_backend_vt_def memory_get_many_def with_tables_def)

lemma read_groups_cong:
  assumes "\<And>i. bt_lookup (tb_chunks t) (chunk_key (cp_value_id p) i) = bt_lookup (tb_chunks t') (chunk_key (cp_value_id p) i)"
  shows "read_groups memory_backend_vt (mem_of t) ch p sq out = read_groups memory_backend_vt (mem_of t') ch p sq out"
  using assms
proof (induction memory_backend_vt "mem_of t" ch p sq out rule: read_groups.induct)
  case (1 ch p sq out)
  have eq: "map (bt_lookup (tables_get t Chunks)) (map (\<lambda>i. chunk_key (cp_value_id p) (of_nat i)) is)
      = map (bt_lookup (tables_get t' Chunks)) (map (\<lambda>i. chunk_key (cp_value_id p) (of_nat i)) is)" for "is"
    using 1(2) by simp
  have IH: "read_groups memory_backend_vt (mem_of t) ch p (min (sat_add sq CHUNK_FETCH_GROUP) (cp_n_chunks p))
      = read_groups memory_backend_vt (mem_of t') ch p (min (sat_add sq CHUNK_FETCH_GROUP) (cp_n_chunks p))"
    if "sq < cp_n_chunks p"
    using 1(1) [OF that] 1(2) by (intro ext) blast
  show ?case
    by (subst (1 2) read_groups.simps) (simp only: Let_def mem_get_many rbind_Inr eq IH cong: if_cong)
qed

lemma read_chunks_cong:
  assumes "\<And>i. bt_lookup (tb_chunks t) (chunk_key (cp_value_id p) i) = bt_lookup (tb_chunks t') (chunk_key (cp_value_id p) i)"
  shows "read_chunks memory_backend_vt (mem_of t) ch p = read_chunks memory_backend_vt (mem_of t') ch p"
  by (simp only: read_chunks_def read_groups_cong [OF assms])

lemma stored_payload_cong:
  assumes "\<And>p i. pointer_parse raw = Inr p \<Longrightarrow>
    bt_lookup (tb_chunks t) (chunk_key (cp_value_id p) i) = bt_lookup (tb_chunks t') (chunk_key (cp_value_id p) i)"
  shows "stored_payload ch t raw = stored_payload ch t' raw"
proof (cases "pointer_parse raw")
  case (Inr p)
  then show ?thesis using read_chunks_cong [OF assms [OF Inr]] by (simp add: stored_payload_def)
qed (simp add: stored_payload_def)

section \<open>Reading back what was sealed\<close>

text \<open>The chunks of a value are in place: piece \<open>j\<close> is sealed under sequence number \<open>j\<close>.\<close>

definition chunks_hold :: "filter_chain \<Rightarrow> tables \<Rightarrow> u64 \<Rightarrow> bytes list \<Rightarrow> bool" where
  "chunks_hold ch t vid ps \<longleftrightarrow>
     (\<forall>j<length ps. \<exists>sealed. bt_lookup (tb_chunks t) (chunk_key vid (of_nat j)) = Some sealed
        \<and> chain_open ch sealed = Inr (ps ! j))"

lemma push_pieces:
  assumes "\<And>j. j < length xs \<Longrightarrow> \<exists>sealed. xs ! j = Some sealed \<and> chain_open ch sealed = Inr (ps ! j)"
    and "length ps = length xs" "length out + length (concat ps) \<le> unat (cp_total_len p)"
  shows "foldM_r (push_piece ch p sq) out (enumerate n xs) = Inr (out @ concat ps)"
  using assms
proof (induction xs arbitrary: out n ps)
  case (Cons x xs)
  obtain a as where ps: "ps = a # as" using Cons.prems(2) by (cases ps) auto
  obtain sealed where x: "x = Some sealed" "chain_open ch sealed = Inr a"
    using Cons.prems(1) [of 0] ps by auto
  have step: "push_piece ch p sq out (n, x) = Inr (out @ a)"
    using x Cons.prems(3) by (simp add: push_piece_def ps Let_def)
  have "foldM_r (push_piece ch p sq) (out @ a) (enumerate (Suc n) xs) = Inr ((out @ a) @ concat as)"
  proof (rule Cons.IH)
    show "\<exists>sealed. xs ! j = Some sealed \<and> chain_open ch sealed = Inr (as ! j)" if "j < length xs" for j
      using Cons.prems(1) [of "Suc j"] that by (simp add: ps)
  qed (use Cons.prems in \<open>simp_all add: ps\<close>)
  with step show ?case by (simp add: ps)
qed simp

lemma read_groups_back:
  assumes "chunks_hold ch t (cp_value_id p) ps" "length ps = unat (cp_n_chunks p)"
    and "length (concat ps) \<le> unat (cp_total_len p)" "sq \<le> cp_n_chunks p"
  shows "read_groups memory_backend_vt (mem_of t) ch p sq (concat (take (unat sq) ps)) = Inr (concat ps)"
  using assms
proof (induction memory_backend_vt "mem_of t" ch p sq "concat (take (unat sq) ps)" rule: read_groups.induct)
  case (1 ch p sq)
  show ?case
  proof (cases "sq < cp_n_chunks p")
    case False
    then have "unat sq = length ps" using 1 by (simp add: word_le_nat_alt word_less_nat_alt)
    with False show ?thesis by (subst read_groups.simps) simp
  next
    case True
    define upto where "upto = min (sat_add sq CHUNK_FETCH_GROUP) (cp_n_chunks p)"
    define xs where "xs = map (bt_lookup (tables_get t Chunks)) (map (\<lambda>i. chunk_key (cp_value_id p) (of_nat i)) [unat sq..<unat upto])"
    let ?qs = "take (unat upto - unat sq) (drop (unat sq) ps)"
    have up: "unat sq < unat upto" "unat upto \<le> length ps"
      using group_progress [OF True] 1(3) by (auto simp: upto_def word_le_nat_alt min_def)
    have step: "take (unat upto) ps = take (unat sq) ps @ ?qs"
      using up by (metis le_add_diff_inverse less_imp_le take_add)
    have "foldM_r (push_piece ch p sq) (concat (take (unat sq) ps)) (enumerate 0 xs)
        = Inr (concat (take (unat sq) ps) @ concat ?qs)"
    proof (rule push_pieces)
      show "length ?qs = length xs" using up by (simp add: xs_def)
      show "\<exists>sealed. xs ! j = Some sealed \<and> chain_open ch sealed = Inr (?qs ! j)" if "j < length xs" for j
        using that up 1(2) [unfolded chunks_hold_def, rule_format, of "unat sq + j"] by (simp add: xs_def)
      have "concat ps = concat (take (unat upto) ps) @ concat (drop (unat upto) ps)"
        by (metis append_take_drop_id concat_append)
      then have "length (concat (take (unat upto) ps)) \<le> length (concat ps)"
        by simp
      then show "length (concat (take (unat sq) ps)) + length (concat ?qs) \<le> unat (cp_total_len p)"
        using 1(4) by (simp add: step)
    qed
    then have fold: "foldM_r (push_piece ch p sq) (concat (take (unat sq) ps)) (enumerate 0 xs)
        = Inr (concat (take (unat upto) ps))"
      by (simp add: step)
    have "read_groups memory_backend_vt (mem_of t) ch p upto (concat (take (unat upto) ps)) = Inr (concat ps)"
      using 1(1) [OF True _ _, of upto "map (\<lambda>i. chunk_key (cp_value_id p) (of_nat i)) [unat sq..<unat upto]"]
        1(2-4) by (simp add: upto_def)
    with True fold show ?thesis
      by (subst read_groups.simps) (simp add: Let_def mem_get_many xs_def upto_def)
  qed
qed

lemma read_chunks_back:
  assumes "chunks_hold ch t (cp_value_id p) ps" "length ps = unat (cp_n_chunks p)"
    and "length (concat ps) = unat (cp_total_len p)"
  shows "read_chunks memory_backend_vt (mem_of t) ch p = Inr (concat ps)"
  using read_groups_back [OF assms(1,2), of 0] assms(3) by (simp add: read_chunks_def)

section \<open>Pieces\<close>

lemma concat_pieces: "0 < n \<Longrightarrow> concat (pieces n xs) = xs"
  by (induction n xs rule: pieces.induct) (subst pieces.simps, simp)

lemma pieces_nonempty: "p \<in> set (pieces n xs) \<Longrightarrow> p \<noteq> []"
  by (induction n xs rule: pieces.induct) (subst (asm) (2) pieces.simps, auto split: if_splits)

lemma length_pieces_le: "length (pieces n xs) \<le> length xs"
proof (induction n xs rule: pieces.induct)
  case (1 n xs)
  then show ?case by (cases xs) (subst pieces.simps, force)+
qed

lemma length_piece_le: "p \<in> set (pieces n xs) \<Longrightarrow> length p \<le> length xs"
  by (induction n xs rule: pieces.induct) (subst (asm) (2) pieces.simps, auto split: if_splits)

end
