(* ===== verification/Stored_Records.thy ===== *)
theory Stored_Records
  imports Storage
begin

text \<open>
  The effect of a list of operations on one key, the records of a locker as a sorted list, and what
  \<open>Inner\<close> reads over a live backend in those terms: \<open>walk\<close> is the fold of its visitor over the
  records in bounds, and \<open>load_payload\<close> depends on the stored tables alone.
\<close>

section \<open>Operations, key by key\<close>

lemma last_said_in: "last_said tab k ops = Some w \<Longrightarrow> \<exists>op\<in>set ops. op_says tab k op = Some w"
proof -
  assume a: "last_said tab k ops = Some w"
  then obtain ws where "List.map_filter (op_says tab k) (rev ops) = w # ws"
    by (auto simp: last_said_def split: list.splits)
  then have "w \<in> set (List.map_filter (op_says tab k) (rev ops))" by simp
  then show ?thesis by (force simp: List.map_filter_def)
qed

lemma map_filter_empty_iff: "List.map_filter f xs = [] \<longleftrightarrow> (\<forall>x\<in>set xs. f x = None)"
  by (simp add: List.map_filter_def filter_empty_conv)

lemma last_said_None: "last_said tab k ops = None \<longleftrightarrow> (\<forall>op\<in>set ops. op_says tab k op = None)"
  using map_filter_empty_iff [of "op_says tab k" "rev ops"]
  by (cases "List.map_filter (op_says tab k) (rev ops)") (simp_all add: last_said_def)

lemma lookup_silent:
  assumes "\<And>op. op \<in> set ops \<Longrightarrow> op_says tab k op = None"
  shows "bt_lookup (tables_get (apply_ops t ops) tab) k = bt_lookup (tables_get t tab) k"
proof -
  have "last_said tab k ops = None" using assms by (simp add: last_said_None)
  then show ?thesis by (simp add: lookup_apply_ops)
qed

lemma lookup_said:
  assumes "\<And>op. op \<in> set ops \<Longrightarrow> op_says tab k op \<in> {None, Some w}" "\<exists>op\<in>set ops. op_says tab k op = Some w"
  shows "bt_lookup (tables_get (apply_ops t ops) tab) k = w"
proof -
  obtain v where v: "last_said tab k ops = Some v"
    using assms(2) last_said_None [of tab k ops] by (cases "last_said tab k ops") auto
  then have "v = w" using last_said_in [OF v] assms(1) by fastforce
  with v show ?thesis by (simp add: lookup_apply_ops)
qed

section \<open>The records of one locker, in order\<close>

definition locker_records :: "locker_id \<Rightarrow> tables \<Rightarrow> (bytes \<times> bytes) list" where
  "locker_records l t =
     map (\<lambda>(x, v). (drop PREFIX_LEN x, v)) (filter (\<lambda>(x, v). kr_contains (locker_range l) x) (bt_entries (tb_records t)))"

definition range_records :: "locker_id \<Rightarrow> tables \<Rightarrow> bytes bound \<Rightarrow> bytes bound \<Rightarrow> bool \<Rightarrow> (bytes \<times> bytes) list" where
  "range_records l t s e reverse =
     (let xs = filter (\<lambda>(k, v). in_user_bounds s e k) (locker_records l t) in if reverse then rev xs else xs)"

lemma drop_prefix_encode [simp]: "drop PREFIX_LEN (encode_bytes l k) = k"
  by (simp add: encode_bytes_def PREFIX_LEN_def)

lemma locker_records_encode:
  "filter (\<lambda>(x, v). kr_contains (locker_range l) x) (bt_entries (tb_records t))
     = map (\<lambda>(k, v). (encode_bytes l k, v)) (locker_records l t)"
  by (auto simp: locker_records_def locker_range_contains comp_def intro!: map_idI [symmetric])

lemma locker_records_sorted: "sorted_wrt (<) (map fst (locker_records l t))"
proof -
  let ?xs = "filter (\<lambda>(x, v). kr_contains (locker_range l) x) (bt_entries (tb_records t))"
  have "map fst ?xs = map (encode_bytes l) (map fst (locker_records l t))"
    unfolding locker_records_encode by (simp add: case_prod_unfold)
  moreover have "sorted_wrt (<) (map fst ?xs)"
    by (rule al_sorted_filter) simp
  ultimately show ?thesis by (simp add: sorted_wrt_map)
qed

lemma locker_records_distinct: "distinct (map fst (locker_records l t))"
  using locker_records_sorted by (rule al_sorted_distinct)

lemma locker_records_mem:
  "(k, v) \<in> set (locker_records l t) \<longleftrightarrow> bt_lookup (tb_records t) (encode_bytes l k) = Some v"
proof -
  have "(k, v) \<in> set (locker_records l t) \<longleftrightarrow>
      (encode_bytes l k, v) \<in> set (map (\<lambda>(k, v). (encode_bytes l k, v)) (locker_records l t))"
    by force
  also have "\<dots> \<longleftrightarrow> (encode_bytes l k, v) \<in> set (bt_entries (tb_records t))"
    by (simp only: locker_records_encode [symmetric]) simp
  finally show ?thesis by (simp add: bt_mem_entries_iff)
qed

lemma locker_records_map_of: "map_of (locker_records l t) k = bt_lookup (tb_records t) (encode_bytes l k)"
  using locker_records_mem locker_records_distinct
  by (metis map_of_eq_Some_iff option.exhaust)

lemma scan_order_locker:
  "scan_order (tb_records t) (encode_range_bytes l s e) reverse
     = map (\<lambda>(k, v). (encode_bytes l k, v)) (range_records l t s e reverse)"
proof -
  have "tree_range (tb_records t) (encode_range_bytes l s e)
      = filter (\<lambda>(x, v). kr_contains (encode_range_bytes l s e) x)
          (filter (\<lambda>(x, v). kr_contains (locker_range l) x) (bt_entries (tb_records t)))"
    unfolding tree_range_def filter_filter
    by (rule filter_cong) (auto dest: encode_range_within_locker)
  also have "\<dots> = map (\<lambda>(k, v). (encode_bytes l k, v)) (filter (\<lambda>(k, v). in_user_bounds s e k) (locker_records l t))"
    unfolding locker_records_encode filter_map
    by (rule arg_cong [where f = "map _"], rule filter_cong) (auto simp: encode_range_on_locker)
  finally show ?thesis by (simp add: scan_order_def range_records_def rev_map Let_def)
qed

lemma encode_range_not_panicking:
  assumes "\<not> is_degenerate s e"
  shows "\<not> range_panics (kr_start (encode_range_bytes l s e)) (kr_end (encode_range_bytes l s e))"
proof -
  have low: "be32 l \<le> encode_bytes l k" for k by (simp add: encode_bytes_def)
  have top: "below_end (kr_end (locker_range l)) (encode_bytes l k)" for k
    using locker_range_encode [of l l k] by (simp add: kr_contains_def)
  have low': "be32 l = encode_bytes l []" by (simp add: encode_bytes_def)
  show ?thesis
    using assms top low
    by (cases s; cases e; cases rule: locker_range_cases [of l])
      (auto simp: encode_range_bytes_def Let_def not_less not_le low' less_imp_le)
qed

lemma degenerate_range_records: "is_degenerate s e \<Longrightarrow> range_records l t s e reverse = []"
  using degenerate_empty [of s e]
  by (simp add: range_records_def in_user_bounds_def Let_def filter_empty_conv case_prod_unfold)

section \<open>Over a live backend\<close>

context live_backend
begin

lemma read_groups_live:
  assumes "ready b"
  shows "read_groups B b ch p sq out = read_groups memory_backend_vt (mem_of (tabs b)) ch p sq out"
  using assms
proof (induction "unat (cp_n_chunks p) - unat sq" arbitrary: sq out rule: less_induct)
  case less
  show ?case
  proof (cases "sq < cp_n_chunks p")
    case True
    let ?upto = "min (sat_add sq CHUNK_FETCH_GROUP) (cp_n_chunks p)"
    have "unat (cp_n_chunks p) - unat ?upto < unat (cp_n_chunks p) - unat sq"
      using group_progress [OF True] True by (simp add: word_less_nat_alt)
    from less.hyps [OF this less.prems]
    have IH: "read_groups B b ch p ?upto = read_groups memory_backend_vt (mem_of (tabs b)) ch p ?upto"
      by (intro ext)
    from True show ?thesis
      by (subst (1 2) read_groups.simps) (simp add: Let_def mem_get_many get_many_live [OF less.prems] IH)
  qed (subst (1 2) read_groups.simps, simp)
qed

lemma read_chunks_live:
  "ready b \<Longrightarrow> read_chunks B b ch p = read_chunks memory_backend_vt (mem_of (tabs b)) ch p"
  by (simp add: read_chunks_def read_groups_live)

lemma load_payload_live:
  "ready b \<Longrightarrow> cx_backend X = B \<Longrightarrow> load_payload X b raw = stored_payload (cx_chain X) (tabs b) raw"
  by (cases "pointer_parse raw") (simp_all add: load_payload_def stored_payload_def read_chunks_live)

lemma walk_live:
  assumes "ready b"
  shows "walk B b l s e reverse want visit acc =
    foldM_r (\<lambda>a (k, v). visit a k (if want then Some v else None)) acc (range_records l (tabs b) s e reverse)"
proof (cases "is_degenerate s e")
  case False
  let ?rq = "\<lparr>rq_table = Records, rq_range = encode_range_bytes l s e, rq_reverse = reverse,
              rq_limit = bk_scan_page_size B, rq_want_values = want\<rparr>"
  have items: "foldM_r (walk_item l visit) acc (map (scan_item want) (map (\<lambda>(k, v). (encode_bytes l k, v)) xs))
      = foldM_r (\<lambda>a (k, v). visit a k (if want then Some v else None)) acc xs" for xs acc
    by (induction xs arbitrary: acc) (auto simp: walk_item_def scan_item_def)
  have "page_loop (bk_fuel B b) B b ?rq (walk_item l visit) acc =
      foldM_r (walk_item l visit) acc (map (scan_item want) (scan_order (tb_records (tabs b)) (encode_range_bytes l s e) reverse))"
    using page_loop_live [OF assms, of ?rq] page_size_spec encode_range_not_panicking [OF False] by simp
  with False show ?thesis by (simp only: walk_def scan_order_locker items if_False)
qed (simp add: walk_def degenerate_range_records)

end

end
