(* ===== verification/Writes.thy ===== *)
theory Writes
  imports Stored_Records
begin

text \<open>
  The specification of a write-set and the proof that the operations \<open>Inner\<close> builds for one key
  implement it. \<open>becomes ch t t' W\<close> says that the keys in \<open>W\<close> hold what \<open>W\<close> says, that every other
  key of every locker reads as before, and that the storage invariants survive; it composes
  (\<open>becomes_trans\<close>), so a commit is specified by the union of its writes.
\<close>

section \<open>Specification of a write-set\<close>

definition keeps :: "tables \<Rightarrow> tables \<Rightarrow> bytes \<Rightarrow> bool" where
  "keeps t t' y \<longleftrightarrow>
     bt_lookup (tb_records t') y = bt_lookup (tb_records t) y
     \<and> (\<forall>ch raw. bt_lookup (tb_records t) y = Some raw \<longrightarrow> stored_payload ch t' raw = stored_payload ch t raw)"

type_synonym write_map = "bytes \<Rightarrow> bytes option option"

definition holds :: "filter_chain \<Rightarrow> tables \<Rightarrow> bytes \<Rightarrow> bytes option \<Rightarrow> bool" where
  "holds ch t y w \<longleftrightarrow> map_option (stored_item ch t) (bt_lookup (tb_records t) y) = map_option postcard w"

definition derived :: "tables \<Rightarrow> tables \<Rightarrow> bool" where
  "derived t t' \<longleftrightarrow> (\<forall>y i. points t' y i \<longrightarrow> points t y i \<or> stored_counter t \<le> i)"

definition becomes :: "filter_chain \<Rightarrow> tables \<Rightarrow> tables \<Rightarrow> write_map \<Rightarrow> bool" where
  "becomes ch t t' W \<longleftrightarrow>
     (\<forall>y. case W y of None \<Rightarrow> keeps t t' y | Some w \<Rightarrow> holds ch t' y w)
     \<and> owned t' \<and> below t' (stored_counter t') \<and> stored_counter t \<le> stored_counter t' \<and> derived t t'
     \<and> (no_orphans t \<longrightarrow> no_orphans t')"

lemma keeps_refl [simp]: "keeps t t y"
  by (simp add: keeps_def)

lemma keeps_trans: "keeps t u y \<Longrightarrow> keeps u v y \<Longrightarrow> keeps t v y"
  by (simp add: keeps_def)

lemma holds_keeps: "holds ch t y w \<Longrightarrow> keeps t t' y \<Longrightarrow> holds ch t' y w"
  by (cases "bt_lookup (tb_records t) y") (auto simp: holds_def keeps_def stored_item_def)

lemma becomes_refl: "owned t \<Longrightarrow> below t (stored_counter t) \<Longrightarrow> becomes ch t t Map.empty"
  by (simp add: becomes_def derived_def)

lemma becomes_trans:
  assumes "becomes ch t u V" "becomes ch u v W"
  shows "becomes ch t v (V ++ W)"
proof -
  have "case (V ++ W) y of None \<Rightarrow> keeps t v y | Some w \<Rightarrow> holds ch v y w" for y
  proof (cases "W y")
    case None
    then have "keeps u v y" using assms(2) by (auto simp: becomes_def dest: spec [where x = y])
    moreover have "case V y of None \<Rightarrow> keeps t u y | Some w \<Rightarrow> holds ch u y w"
      using assms(1) by (simp add: becomes_def)
    ultimately show ?thesis
      using None by (auto simp: map_add_def intro: keeps_trans holds_keeps split: option.splits)
  next
    case (Some w)
    then show ?thesis using assms(2) by (auto simp: becomes_def map_add_def dest: spec [where x = y])
  qed
  moreover have "derived t v"
    using assms unfolding becomes_def derived_def by (meson order.trans)
  ultimately show ?thesis
    using assms by (auto simp: becomes_def)
qed

lemma becomes_view:
  assumes "becomes (cx_chain X) t t' W"
  shows "payload_view (cx_chain X) l t' k = (case W (encode_bytes l k) of
      None \<Rightarrow> payload_view (cx_chain X) l t k | Some w \<Rightarrow> map_option postcard w)"
proof -
  have "case W (encode_bytes l k) of None \<Rightarrow> keeps t t' (encode_bytes l k) | Some w \<Rightarrow> holds (cx_chain X) t' (encode_bytes l k) w"
    using assms by (simp add: becomes_def)
  then show ?thesis
    by (cases "bt_lookup (tb_records t) (encode_bytes l k)")
      (auto simp: payload_view_def holds_def keeps_def stored_item_def split: option.splits)
qed

lemma becomes_other:
  assumes "becomes ch t t' W" "W (encode_bytes l k) = None"
  shows "payload_view ch' l t' k = payload_view ch' l t k"
proof -
  have "keeps t t' (encode_bytes l k)"
    using assms by (auto simp: becomes_def dest: spec [where x = "encode_bytes l k"])
  then show ?thesis
    by (cases "bt_lookup (tb_records t) (encode_bytes l k)") (auto simp: payload_view_def keeps_def stored_item_def)
qed

section \<open>Effects of the operations on the tables\<close>

lemma op_says_gc [simp]:
  "op_says Records y (gc_ops p) = None"
  "op_says Meta y (gc_ops p) = None"
  "op_says Chunks (chunk_key v j) (gc_ops p) = (if v = cp_value_id p then Some None else None)"
  by (auto simp: gc_ops_def)

lemma op_says_counter [simp]:
  "op_says Records y (counter_op_for n) = None"
  "op_says Chunks y (counter_op_for n) = None"
  "op_says Meta y (counter_op_for n) = (if y = next_value_id_key then Some (Some (be64 n)) else None)"
  by (auto simp: counter_op_for_def)

lemma keeps_silent:
  assumes "\<And>op. op \<in> set ops \<Longrightarrow> op_says Records y op = None"
    and "\<And>i j op. points t y i \<Longrightarrow> op \<in> set ops \<Longrightarrow> op_says Chunks (chunk_key i j) op = None"
  shows "keeps t (apply_ops t ops) y"
proof -
  have "stored_payload ch (apply_ops t ops) raw = stored_payload ch t raw"
    if raw: "bt_lookup (tb_records t) y = Some raw" for ch raw
  proof (rule stored_payload_cong)
    fix p i
    assume "pointer_parse raw = Inr p"
    with raw have "points t y (cp_value_id p)" by (auto simp: points_def)
    with assms(2) show "bt_lookup (tb_chunks (apply_ops t ops)) (chunk_key (cp_value_id p) i)
        = bt_lookup (tb_chunks t) (chunk_key (cp_value_id p) i)"
      using lookup_silent [of ops Chunks "chunk_key (cp_value_id p) i" t] by simp
  qed
  moreover have "bt_lookup (tb_records (apply_ops t ops)) y = bt_lookup (tb_records t) y"
    using lookup_silent [of ops Records y t] assms(1) by simp
  ultimately show ?thesis by (simp add: keeps_def)
qed

lemma points_keeps: "keeps t t' y \<Longrightarrow> points t' y i \<longleftrightarrow> points t y i"
  by (simp add: keeps_def points_def)

lemma stored_counter_silent:
  "(\<And>op. op \<in> set ops \<Longrightarrow> op_says Meta next_value_id_key op = None)
     \<Longrightarrow> stored_counter (apply_ops t ops) = stored_counter t"
  using lookup_silent [of ops Meta next_value_id_key t] by (simp add: stored_counter_def)

lemma stored_counter_last:
  "stored_counter (apply_ops t (ops @ [counter_op_for n])) = n"
  using lookup_apply_put [of "apply_ops t ops" Meta next_value_id_key "be64 n" Meta]
  by (simp add: stored_counter_def counter_op_for_def)

text \<open>Operations that concern one key: what must hold for them to be a write of that key.\<close>

lemma becomes_single:
  assumes good: "owned t" "below t (stored_counter t)"
    and t': "t' = apply_ops t ops"
    and rec: "\<And>op y. op \<in> set ops \<Longrightarrow> y \<noteq> x \<Longrightarrow> op_says Records y op = None"
    and chunks: "\<And>op y i j. op \<in> set ops \<Longrightarrow> y \<noteq> x \<Longrightarrow> points t y i \<Longrightarrow> op_says Chunks (chunk_key i j) op = None"
    and held: "holds ch t' x w"
    and fresh: "\<And>i. points t' x i \<Longrightarrow> stored_counter t \<le> i \<and> i < stored_counter t'"
    and up: "stored_counter t \<le> stored_counter t'"
    and chunk_keys: "\<And>k. k \<in> stored_chunk_keys t' \<Longrightarrow>
      k \<in> stored_chunk_keys t \<and> (\<forall>i. points t x i \<longrightarrow> \<not> kr_contains (chunk_range i) k)
      \<or> (\<exists>i. points t' x i \<and> kr_contains (chunk_range i) k)"
  shows "becomes ch t t' [x \<mapsto> w]"
proof -
  have keep: "keeps t t' y" if "y \<noteq> x" for y
    unfolding t' using rec chunks that by (intro keeps_silent) blast+
  note pts = points_keeps [OF keep]
  have old: "i < stored_counter t" if "points t y i" for y i
    using good(2) that by (auto simp: below_def)
  have "owned t'"
    unfolding owned_def
  proof (intro allI impI)
    fix y z i
    assume p: "points t' y i" "points t' z i"
    show "y = z"
    proof (cases "y = x \<or> z = x")
      case True
      then show ?thesis using p pts fresh old by (metis leD)
    next
      case False
      then show ?thesis using p pts good(1) by (auto simp: owned_def)
    qed
  qed
  moreover have "below t' (stored_counter t')"
    unfolding below_def
  proof (intro allI impI)
    fix y i
    assume "points t' y i"
    then show "i < stored_counter t'"
      using fresh [of i] old [of y i] pts [of y i] up by (cases "y = x") auto
  qed
  moreover have "derived t t'"
    unfolding derived_def using fresh pts by metis
  moreover have "no_orphans t'" if orphans: "no_orphans t"
    unfolding no_orphans_def
  proof
    fix k
    assume k: "k \<in> stored_chunk_keys t'"
    show "\<exists>y i. points t' y i \<and> kr_contains (chunk_range i) k"
    proof (cases "\<exists>i. points t' x i \<and> kr_contains (chunk_range i) k")
      case False
      then have "k \<in> stored_chunk_keys t" and no: "\<forall>i. points t x i \<longrightarrow> \<not> kr_contains (chunk_range i) k"
        using chunk_keys [OF k] by (auto simp del: bt_mem_keys_iff)
      then obtain y i where "points t y i" "kr_contains (chunk_range i) k"
        using orphans unfolding no_orphans_def by blast
      then show ?thesis using no pts by metis
    qed blast
  qed
  ultimately show ?thesis
    using keep held up by (auto simp: becomes_def)
qed

section \<open>The three blocks of operations\<close>

text \<open>The collections a block starts with drop chunks that belong to its own key, and all of them.\<close>

definition collects :: "tables \<Rightarrow> bytes \<Rightarrow> chunk_pointer list \<Rightarrow> bool" where
  "collects t x ps \<longleftrightarrow>
     (\<forall>p\<in>set ps. \<forall>y. points t y (cp_value_id p) \<longrightarrow> y = x)
     \<and> (\<forall>p\<in>set ps. cp_value_id p < stored_counter t)
     \<and> (\<forall>i. points t x i \<longrightarrow> i \<in> cp_value_id ` set ps)"

lemma surviving_chunk:
  assumes "k \<in> stored_chunk_keys (apply_ops t (map gc_ops ps @ ops))"
    and "\<And>op. op \<in> set ops \<Longrightarrow> \<exists>w. op_says Chunks k op = Some (Some w) \<Longrightarrow> False"
  shows "k \<in> stored_chunk_keys t \<and> (\<forall>p\<in>set ps. \<not> kr_contains (chunk_range (cp_value_id p)) k)"
proof -
  let ?ops = "map gc_ops ps @ ops"
  have "last_said Chunks k ?ops = None"
  proof (rule ccontr)
    assume "last_said Chunks k ?ops \<noteq> None"
    then obtain w where w: "last_said Chunks k ?ops = Some w" by blast
    moreover have "bt_lookup (tables_get (apply_ops t ?ops) Chunks) k \<noteq> None"
      using assms(1) by simp
    ultimately have "w \<noteq> None" by (simp only: lookup_apply_ops) simp
    with last_said_in [OF w] assms(2) show False
      by (auto simp: gc_ops_def split: if_splits)
  qed
  then have silent: "\<forall>op\<in>set ?ops. op_says Chunks k op = None" by (simp only: last_said_None)
  then have "bt_lookup (tables_get (apply_ops t ?ops) Chunks) k = bt_lookup (tb_chunks t) k"
    using lookup_silent [of ?ops Chunks k t] by simp
  then have "k \<in> stored_chunk_keys t" using assms(1) by simp
  moreover have "\<not> kr_contains (chunk_range (cp_value_id p)) k" if "p \<in> set ps" for p
  proof -
    have "op_says Chunks k (gc_ops p) = None" using silent that by simp
    then show ?thesis by (simp add: gc_ops_def split: if_splits)
  qed
  ultimately show ?thesis by blast
qed

lemma collected_chunks:
  assumes "collects t x ps" "k \<in> stored_chunk_keys (apply_ops t (map gc_ops ps @ ops))"
    and "\<And>op. op \<in> set ops \<Longrightarrow> \<exists>w. op_says Chunks k op = Some (Some w) \<Longrightarrow> False"
  shows "k \<in> stored_chunk_keys t \<and> (\<forall>i. points t x i \<longrightarrow> \<not> kr_contains (chunk_range i) k)"
  using surviving_chunk [OF assms(2,3)] assms(1) unfolding collects_def by auto

lemma not_pointer_not_raw: "\<not> is_pointer raw \<Longrightarrow> \<not> stored_raw raw"
  by (auto simp: stored_raw_def dest: is_pointer_parse split: sum.splits)

lemma becomes_inline:
  assumes "owned t" "below t (stored_counter t)" "collects t x ps"
    and sealed: "\<not> is_pointer sealed" "chain_open ch sealed = Inr payload"
  shows "becomes ch t (apply_ops t (map gc_ops ps @ [Op_Put Records x sealed])) [x \<mapsto> Some payload]"
proof (rule becomes_single [OF assms(1,2) refl])
  let ?t' = "apply_ops t (map gc_ops ps @ [Op_Put Records x sealed])"
  have raw: "bt_lookup (tb_records ?t') x = Some sealed"
    using lookup_apply_put [of "apply_ops t (map gc_ops ps)" Records x sealed Records] by simp
  then show "holds ch ?t' x (Some payload)"
    using sealed by (simp add: holds_def stored_item_def stored_payload_def not_pointer_not_raw)
  show "stored_counter t \<le> i \<and> i < stored_counter ?t'" if "points ?t' x i" for i
    using that raw sealed(1) by (auto simp: points_def dest: is_pointer_parse)
  have "stored_counter ?t' = stored_counter t"
    by (rule stored_counter_silent) auto
  then show "stored_counter t \<le> stored_counter ?t'" by simp
  show "k \<in> stored_chunk_keys t \<and> (\<forall>i. points t x i \<longrightarrow> \<not> kr_contains (chunk_range i) k)
      \<or> (\<exists>i. points ?t' x i \<and> kr_contains (chunk_range i) k)" if "k \<in> stored_chunk_keys ?t'" for k
    using collected_chunks [OF assms(3) that] by auto
qed (use assms(3) in \<open>auto simp: collects_def\<close>)

lemma becomes_deleted:
  assumes "owned t" "below t (stored_counter t)" "collects t x ps"
  shows "becomes ch t (apply_ops t (map gc_ops ps @ [Op_Delete Records x])) [x \<mapsto> None]"
proof (rule becomes_single [OF assms(1,2) refl])
  let ?t' = "apply_ops t (map gc_ops ps @ [Op_Delete Records x])"
  have raw: "bt_lookup (tb_records ?t') x = None"
    using lookup_apply_delete [of "apply_ops t (map gc_ops ps)" Records x Records] by simp
  then show "holds ch ?t' x None" by (simp add: holds_def)
  show "stored_counter t \<le> i \<and> i < stored_counter ?t'" if "points ?t' x i" for i
    using that raw by (auto simp: points_def)
  have "stored_counter ?t' = stored_counter t"
    by (rule stored_counter_silent) auto
  then show "stored_counter t \<le> stored_counter ?t'" by simp
  show "k \<in> stored_chunk_keys t \<and> (\<forall>i. points t x i \<longrightarrow> \<not> kr_contains (chunk_range i) k)
      \<or> (\<exists>i. points ?t' x i \<and> kr_contains (chunk_range i) k)" if "k \<in> stored_chunk_keys ?t'" for k
    using collected_chunks [OF assms(3) that] by auto
qed (use assms(3) in \<open>auto simp: collects_def\<close>)

text \<open>The chunks of a value: one put per piece, under consecutive sequence numbers.\<close>

lemma piece_ops_spec:
  assumes "piece_ops ch vid sq ps = Inr (ops, n)"
  shows "unat n = unat sq + length ps
    \<and> (\<forall>op\<in>set ops. \<exists>j s. op = Op_Put Chunks (chunk_key vid j) s \<and> sq \<le> j)
    \<and> (\<forall>i<length ps. \<exists>s. seal ch (ps ! i) = Inr s
         \<and> last_said Chunks (chunk_key vid (of_nat (unat sq + i))) ops = Some (Some s))"
  using assms
proof (induction ch vid sq ps arbitrary: ops n rule: piece_ops.induct)
  case (2 ch vid sq piece rest)
  then obtain s nxt ops' where s: "seal ch piece = Inr s" and nxt: "checked_succ sq = Some nxt"
    and rest: "piece_ops ch vid nxt rest = Inr (ops', n)"
    and ops: "ops = Op_Put Chunks (chunk_key vid sq) s # ops'"
    by (auto simp: rbind_eq_Inr_iff seal_slice_def split: option.splits)
  have unxt: "unat nxt = Suc (unat sq)" by (rule unat_checked_succ [OF nxt])
  have less: "sq < nxt" by (rule checked_succ_less [OF nxt])
  have IH: "unat n = unat nxt + length rest"
    "\<forall>op\<in>set ops'. \<exists>j s. op = Op_Put Chunks (chunk_key vid j) s \<and> nxt \<le> j"
    "\<forall>i<length rest. \<exists>s. seal ch (rest ! i) = Inr s
         \<and> last_said Chunks (chunk_key vid (of_nat (unat nxt + i))) ops' = Some (Some s)"
    using 2(1) [OF rest] by simp_all
  have first: "last_said Chunks (chunk_key vid sq) ops' = None"
    using IH(2) less by (fastforce simp: last_said_None)
  have cons: "last_said Chunks k (op # ops') = (case last_said Chunks k ops' of Some w \<Rightarrow> Some w | None \<Rightarrow> op_says Chunks k op)" for k op
    by (auto simp: last_said_def List.map_filter_def split: list.splits option.splits)
  have "\<exists>s. seal ch ((piece # rest) ! i) = Inr s
         \<and> last_said Chunks (chunk_key vid (of_nat (unat sq + i))) ops = Some (Some s)"
    if "i < length (piece # rest)" for i
  proof (cases i)
    case 0
    then show ?thesis using s first by (simp add: ops cons)
  next
    case (Suc m)
    with that IH(3) have "\<exists>s. seal ch (rest ! m) = Inr s
         \<and> last_said Chunks (chunk_key vid (of_nat (unat nxt + m))) ops' = Some (Some s)"
      by simp
    then show ?thesis using Suc unxt by (auto simp: ops cons)
  qed
  moreover have "\<forall>op\<in>set ops. \<exists>j s. op = Op_Put Chunks (chunk_key vid j) s \<and> sq \<le> j"
    using IH(2) less by (auto simp: ops)
  ultimately show ?case using IH(1) unxt by simp
qed (simp add: last_said_def)

definition sound_chain :: "filter_chain \<Rightarrow> bool" where
  "sound_chain ch \<longleftrightarrow> (\<forall>p. length p \<le> MAX_DECODED_BYTES \<longrightarrow> chain_inverts (ch_filters ch) p)"

lemma sound_chain_open:
  "sound_chain ch \<Longrightarrow> length p \<le> MAX_DECODED_BYTES \<Longrightarrow> seal ch p = Inr s \<Longrightarrow> chain_open ch s = Inr p"
  by (auto simp: sound_chain_def intro: chain_open_seal)

lemma seal_not_pointer: "seal ch p = Inr s \<Longrightarrow> \<not> is_pointer s"
  by (auto simp: seal_def rbind_eq_Inr_iff)

lemma becomes_chunked:
  fixes payload :: bytes
  assumes good: "owned t" "below t (stored_counter t)" "collects t x ps"
    and chain: "sound_chain ch" "length payload \<le> MAX_DECODED_BYTES" "0 < size'" "payload \<noteq> []"
    and puts: "piece_ops ch vid 0 (pieces size' payload) = Inr (puts, n)"
    and vid: "stored_counter t \<le> vid" "checked_succ vid = Some nxt"
    and fl: "fl \<noteq> FLAG_RAW"
    and ptr: "ptr = \<lparr>cp_value_id = vid, cp_n_chunks = n, cp_total_len = of_nat (length payload), cp_flags = fl\<rparr>"
    and ops: "ops = map gc_ops ps @ puts @ [Op_Put Records x (pointer_encode ptr)] @ [counter_op_for nxt]"
  shows "becomes ch t (apply_ops t ops) [x \<mapsto> Some payload]"
proof (rule becomes_single [OF good(1,2) refl])
  let ?t' = "apply_ops t ops"
  have spec: "unat n = length (pieces size' payload)"
    and keys: "\<And>op. op \<in> set puts \<Longrightarrow> \<exists>j s. op = Op_Put Chunks (chunk_key vid j) s"
    and sealed: "\<And>i. i < length (pieces size' payload) \<Longrightarrow> \<exists>s. seal ch (pieces size' payload ! i) = Inr s
         \<and> last_said Chunks (chunk_key vid (of_nat i)) puts = Some (Some s)"
    using piece_ops_spec [OF puts] unfolding unsigned_0 add_0 by blast+
  have len: "length (pieces size' payload) \<le> length payload" by (rule length_pieces_le)
  have total: "unat (cp_total_len ptr) = length payload"
    using chain(2) by (simp add: ptr unat_of_nat MAX_DECODED_BYTES_def)
  have ok: "pointer_ok ptr"
    using chain(2) len spec total by (simp add: pointer_ok_def) (simp add: ptr)
  have old: "vid \<noteq> cp_value_id p" if "p \<in> set ps" for p
    using good(3) that vid(1) by (auto simp: collects_def)
  have puts_say: "op_says Records y op = None" "op_says Meta y op = None"
    "i \<noteq> vid \<Longrightarrow> op_says Chunks (chunk_key i j) op = None" if "op \<in> set puts" for op y i j
    using keys [OF that] by auto
  show "op_says Records y op = None" if "op \<in> set ops" "y \<noteq> x" for op y
    using that puts_say by (auto simp: ops)
  show "op_says Chunks (chunk_key i j) op = None" if "op \<in> set ops" "y \<noteq> x" "points t y i" for op y i j
  proof -
    have "i \<noteq> vid" using good(2) vid(1) that(3) leD unfolding below_def by blast
    moreover have "i \<noteq> cp_value_id p" if "p \<in> set ps" for p
      using good(3) that \<open>points t y i\<close> \<open>y \<noteq> x\<close> by (auto simp: collects_def)
    ultimately show ?thesis using that puts_say by (auto simp: ops)
  qed
  have "bt_lookup (tables_get ?t' Records) x = Some (pointer_encode ptr)"
    by (rule lookup_said) (use puts_say in \<open>auto simp: ops\<close>)
  then have raw: "bt_lookup (tb_records ?t') x = Some (pointer_encode ptr)" by simp
  have pts: "points ?t' x i \<longleftrightarrow> i = vid" for i
    using raw pointer_parse_encode [OF ok] by (auto simp: points_def ptr)
  have ctr: "stored_counter ?t' = nxt"
    using stored_counter_last [of t "map gc_ops ps @ puts @ [Op_Put Records x (pointer_encode ptr)]"]
    by (simp add: ops)
  show "stored_counter t \<le> stored_counter ?t'"
    using vid checked_succ_less [OF vid(2)] ctr by simp
  show "stored_counter t \<le> i \<and> i < stored_counter ?t'" if "points ?t' x i" for i
    using that pts vid checked_succ_less [OF vid(2)] ctr by simp
  have hold: "chunks_hold ch ?t' vid (pieces size' payload)"
    unfolding chunks_hold_def
  proof (intro allI impI)
    fix j
    assume j: "j < length (pieces size' payload)"
    let ?k = "chunk_key vid (of_nat j)"
    obtain s where s: "seal ch (pieces size' payload ! j) = Inr s" "last_said Chunks ?k puts = Some (Some s)"
      using sealed [OF j] by blast
    have quiet: "bt_lookup (tables_get (apply_ops u [Op_Put Records x (pointer_encode ptr), counter_op_for nxt]) Chunks) ?k
        = bt_lookup (tables_get u Chunks) ?k" for u
      by (rule lookup_silent) auto
    have "bt_lookup (tables_get ?t' Chunks) ?k = Some s"
      using quiet [of "apply_ops (apply_ops t (map gc_ops ps)) puts"] s(2)
      by (simp add: ops lookup_apply_ops del: tables_get.simps)
    moreover have "length (pieces size' payload ! j) \<le> MAX_DECODED_BYTES"
      using length_piece_le [of "pieces size' payload ! j" size' payload] j chain(2) by simp
    ultimately show "\<exists>sealed. bt_lookup (tb_chunks ?t') ?k = Some sealed \<and> chain_open ch sealed = Inr (pieces size' payload ! j)"
      using sound_chain_open [OF chain(1) _ s(1)] by simp
  qed
  have "read_chunks memory_backend_vt (mem_of ?t') ch ptr = Inr (concat (pieces size' payload))"
    by (rule read_chunks_back) (use hold spec total chain(3) in \<open>simp_all add: ptr concat_pieces\<close>)
  then show "holds ch ?t' x (Some payload)"
    using raw chain(3) pointer_parse_encode [OF ok] by (simp add: holds_def stored_item_def stored_payload_def stored_raw_def concat_pieces ptr fl)
  show "k \<in> stored_chunk_keys t \<and> (\<forall>i. points t x i \<longrightarrow> \<not> kr_contains (chunk_range i) k)
      \<or> (\<exists>i. points ?t' x i \<and> kr_contains (chunk_range i) k)" if k: "k \<in> stored_chunk_keys ?t'" for k
  proof (cases "\<exists>j. k = chunk_key vid j")
    case True
    then show ?thesis using pts by auto
  next
    case False
    have quiet: "op_says Chunks k op = None" if member: "op \<in> set puts" for op
    proof -
      obtain j s where "op = Op_Put Chunks (chunk_key vid j) s" using keys [OF member] by blast
      then show ?thesis using False by auto
    qed
    have "\<nexists>w. op_says Chunks k op = Some (Some w)"
      if "op \<in> set (puts @ [Op_Put Records x (pointer_encode ptr)] @ [counter_op_for nxt])" for op
      using that quiet by (auto simp: counter_op_for_def)
    then show ?thesis
      using collected_chunks [OF good(3) k [unfolded ops]] by blast
  qed
qed

end
