(* ===== verification/Batches.thy ===== *)
theory Batches
  imports Writes Resident
begin

text \<open>
  From the code's operations to the specification of \<open>Writes\<close>: the operations of one put, delete or
  clear, built over a live backend, and the operations of a whole write-set (\<open>ops_for_items\<close>), which
  are built against the tables before the commit and applied one block after the other.
\<close>

section \<open>What the code collects\<close>

definition parsed :: "bytes \<Rightarrow> chunk_pointer option" where
  "parsed raw = (case pointer_parse raw of Inr p \<Rightarrow> Some p | Inl _ \<Rightarrow> None)"

lemma parsed_eq_Some [simp]: "parsed raw = Some p \<longleftrightarrow> pointer_parse raw = Inr p"
  by (auto simp: parsed_def split: sum.split)

definition record_pointers :: "tables \<Rightarrow> bytes \<Rightarrow> chunk_pointer list" where
  "record_pointers t x = (case Option.bind (bt_lookup (tb_records t) x) parsed of Some p \<Rightarrow> [p] | None \<Rightarrow> [])"

lemma points_iff: "points t x i \<longleftrightarrow> i \<in> cp_value_id ` set (record_pointers t x)"
  by (cases "Option.bind (bt_lookup (tb_records t) x) parsed")
    (auto simp: points_def record_pointers_def Option.bind_eq_Some_conv parsed_eq_Some [symmetric]
      simp del: parsed_eq_Some split: bind_splits)

lemma record_pointers_owned:
  "owned t \<Longrightarrow> p \<in> set (record_pointers t x) \<Longrightarrow> points t y (cp_value_id p) \<Longrightarrow> y = x"
  using points_iff by (auto simp: owned_def)

definition prior_true :: "prior \<Rightarrow> tables \<Rightarrow> bytes \<Rightarrow> bool" where
  "prior_true pr t x \<longleftrightarrow> needs_read pr \<or> record_pointers t x = []"

text \<open>Tables part of the way through a commit built against \<open>t0\<close>.\<close>

definition batch_inv :: "tables \<Rightarrow> tables \<Rightarrow> value_ids \<Rightarrow> bytes set \<Rightarrow> bool" where
  "batch_inv t0 t nxt todo \<longleftrightarrow>
     owned t \<and> below t (stored_counter t) \<and> stored_counter t0 \<le> stored_counter t
     \<and> cursor_above nxt (stored_counter t) \<and> (nxt = None \<longrightarrow> stored_counter t = stored_counter t0)
     \<and> derived t0 t
     \<and> (\<forall>y\<in>todo. bt_lookup (tb_records t) y = bt_lookup (tb_records t0) y \<or> bt_lookup (tb_records t) y = None)"

lemma batch_inv_start: "vals_ok nxt t \<Longrightarrow> batch_inv t t nxt todo"
  by (simp add: batch_inv_def vals_ok_def derived_def)

lemma batch_inv_mono: "todo' \<subseteq> todo \<Longrightarrow> batch_inv t0 t nxt todo \<Longrightarrow> batch_inv t0 t nxt todo'"
  unfolding batch_inv_def by (elim conjE, intro conjI) (assumption | rule ballI, erule bspec, erule subsetD)+

lemma collects_batch:
  assumes "vals_ok n0 t0" "batch_inv t0 t nxt todo" "x \<in> todo"
  shows "collects t x (record_pointers t0 x)"
  unfolding collects_def
proof (intro conjI ballI allI impI)
  fix p y
  assume p: "p \<in> set (record_pointers t0 x)"
  then have "points t0 x (cp_value_id p)" by (auto simp: points_iff)
  with assms(1) have low: "cp_value_id p < stored_counter t0" by (auto simp: vals_ok_def below_def)
  then show "cp_value_id p < stored_counter t"
    using assms(2) by (auto simp: batch_inv_def)
  assume "points t y (cp_value_id p)"
  then have "points t0 y (cp_value_id p)"
    using assms(2) low by (auto simp: batch_inv_def derived_def dest: leD)
  then show "y = x" using record_pointers_owned p assms(1) by (auto simp: vals_ok_def)
next
  fix i
  assume "points t x i"
  then have "points t0 x i" using assms(2,3) by (auto simp: batch_inv_def points_def)
  then show "i \<in> cp_value_id ` set (record_pointers t0 x)" by (simp add: points_iff)
qed

lemma collects_none:
  assumes "record_pointers t0 x = []" "batch_inv t0 t nxt todo" "x \<in> todo"
  shows "collects t x []"
proof -
  have "\<not> points t0 x i" for i using assms(1) by (simp add: points_iff)
  moreover have "points t x i \<Longrightarrow> points t0 x i" for i
    using assms(2,3) by (auto simp: batch_inv_def points_def)
  ultimately show ?thesis by (auto simp: collects_def)
qed

text \<open>
  A write takes the batch one step further; a key that was given a value is done. (A key that was
  deleted may be deleted again.)
\<close>

definition puts_of :: "write_map \<Rightarrow> bytes set" where
  "puts_of W = {y. \<exists>p. W y = Some (Some p)}"

lemma puts_of_simps [simp]:
  "puts_of Map.empty = {}" "puts_of [x \<mapsto> None] = {}" "puts_of [x \<mapsto> Some p] = {x}"
  by (auto simp: puts_of_def)

lemma puts_of_single: "puts_of [x \<mapsto> w] \<subseteq> {x}"
  by (auto simp: puts_of_def split: if_splits)

lemma subset_Diff_single: "x \<notin> A \<Longrightarrow> A \<subseteq> S \<Longrightarrow> P \<subseteq> {x} \<Longrightarrow> A \<subseteq> S - P"
  by blast

lemma puts_of_add: "dom V \<inter> dom W = {} \<Longrightarrow> puts_of (V ++ W) = puts_of V \<union> puts_of W"
  by (auto simp: puts_of_def map_add_def split: option.splits)

lemma batch_inv_step:
  assumes inv: "batch_inv t0 t nxt todo" and b: "becomes ch t t' W"
    and cursor: "cursor_above nxt' (stored_counter t')"
      "nxt' = None \<Longrightarrow> nxt = None \<and> stored_counter t' = stored_counter t"
  shows "batch_inv t0 t' nxt' (todo - puts_of W)"
proof -
  have up: "stored_counter t0 \<le> stored_counter t" "stored_counter t \<le> stored_counter t'"
    using inv b by (auto simp: batch_inv_def becomes_def)
  have "derived t0 t'"
    using inv b up(1) unfolding batch_inv_def becomes_def derived_def by (meson order.trans)
  moreover have "bt_lookup (tb_records t') y = bt_lookup (tb_records t0) y \<or> bt_lookup (tb_records t') y = None"
    if "y \<in> todo - puts_of W" for y
  proof -
    have "case W y of None \<Rightarrow> keeps t t' y | Some w \<Rightarrow> holds ch t' y w" using b by (simp add: becomes_def)
    moreover have "W y \<in> {None, Some None}" using that by (cases "W y"; cases "the (W y)") (auto simp: puts_of_def)
    ultimately show ?thesis using that inv by (auto simp: batch_inv_def keeps_def holds_def)
  qed
  moreover have "owned t'" "below t' (stored_counter t')" using b by (simp_all add: becomes_def)
  ultimately show ?thesis
    using cursor inv up by (auto simp: batch_inv_def)
qed

section \<open>What a write-set writes\<close>

text \<open>What the operations of a collapsed write-set are to write.\<close>

fun action_value :: "action \<Rightarrow> bytes option" where
  "action_value (Act_Put payload) = Some payload"
| "action_value Act_Delete = None"

definition action_writes :: "locker_id \<Rightarrow> (bytes \<times> action) list \<Rightarrow> write_map" where
  "action_writes l acts = map_of (map (\<lambda>(k, a). (encode_bytes l k, action_value a)) acts)"

fun action_fits :: "action \<Rightarrow> bool" where
  "action_fits (Act_Put payload) \<longleftrightarrow> length payload \<le> MAX_DECODED_BYTES"
| "action_fits Act_Delete \<longleftrightarrow> True"

lemma encode_key_mem [simp]: "encode_key X k \<in> encode_key X ` A \<longleftrightarrow> k \<in> A"
  by (auto simp: encode_key_def)

lemma encode_key_eq: "encode_key X = encode_bytes (cx_id X)"
  by (simp add: encode_key_def fun_eq_iff)

lemma action_writes_Cons:
  "action_writes l ((k, a) # acts) = (action_writes l acts)(encode_bytes l k \<mapsto> action_value a)"
  by (simp add: action_writes_def)

lemma dom_action_writes: "dom (action_writes l acts) = encode_bytes l ` fst ` set acts"
  by (simp add: action_writes_def dom_map_of_conv_image_fst image_image case_prod_unfold)

lemma values_only_trans:
  assumes "u = s\<lparr>sh_values := sh_values u\<rparr>" "s' = u\<lparr>sh_values := sh_values s'\<rparr>"
  shows "s' = s\<lparr>sh_values := sh_values s'\<rparr>"
  by (subst assms(2), subst assms(1)) simp

section \<open>The allocator\<close>

context backend_contract
begin

lemma allocate_Inr:
  assumes "allocate B b nxt = (Inr vid, nxt')"
  shows "\<exists>j. nxt' = Some j \<and> checked_succ vid = Some j
    \<and> (case nxt of Some n \<Rightarrow> vid = n | None \<Rightarrow> stored_counter (tabs b) \<le> vid)"
proof (cases nxt)
  case (Some n)
  then show ?thesis
    using assms by (auto simp: allocate_def sbind_eq_Inr_iff vid_take_cases split: option.splits)
next
  case None
  then obtain f where f: "seed_floor B b = Inr f" and take': "seed_and_take f None = (Inr vid, nxt')"
    using assms by (auto simp: allocate_def vid_take_def split: sum.splits)
  obtain raw c where raw: "bk_get B b Meta next_value_id_key = Inr raw" and c: "parse_counter raw = Inr c" "c \<le> f"
    using f by (auto simp: seed_floor_def rbind_eq_Inr_iff split: option.splits)
  have "stored_counter (tabs b) = c"
    using get_spec [OF raw] c(1) by (auto simp: parse_counter_def stored_counter_def split: option.splits if_splits)
  then show ?thesis using take' c(2) None by (auto simp: seed_and_take_Inr_iff)
qed

lemma gc_existing_spec:
  assumes "gc_existing X b key pr = Inr gc" "cx_backend X = B"
  shows "gc = map gc_ops (if needs_read pr then record_pointers (tabs b) (encode_key X key) else [])"
proof (cases "needs_read pr")
  case True
  then obtain raw where raw: "bk_get B b Records (encode_key X key) = Inr raw"
    and rest: "(case raw of Some r \<Rightarrow> if is_pointer r then rbind (pointer_parse r) (\<lambda>p. Inr [gc_ops p]) else Inr [] | None \<Rightarrow> Inr []) = Inr gc"
    using assms by (auto simp: gc_existing_def fetch_def rbind_eq_Inr_iff)
  have "raw = bt_lookup (tb_records (tabs b)) (encode_key X key)"
    using get_spec [OF raw] by simp
  then show ?thesis
    using True rest
    by (auto simp: record_pointers_def parsed_def rbind_eq_Inr_iff dest: is_pointer_parse split: option.splits if_splits sum.splits)
qed (use assms in \<open>simp add: gc_existing_def\<close>)

lemma put_payload_ops_cases:
  assumes "put_payload_ops X key payload FLAG_POSTCARD pr s = (Inr ops, s')" "cx_backend X = B"
  obtains (inline) sealed where "seal (cx_chain X) payload = Inr sealed" "s' = s"
      "ops = map gc_ops (if needs_read pr then record_pointers (tabs (sh_store s)) (encode_key X key) else [])
        @ [Op_Put Records (encode_key X key) sealed]"
  | (chunked) vid j puts n where "lc_chunk_size (cx_config X) < length payload" "0 < lc_chunk_size (cx_config X)"
      "allocate B (sh_store s) (sh_values s) = (Inr vid, Some j)" "s' = s\<lparr>sh_values := Some j\<rparr>" "checked_succ vid = Some j"
      "piece_ops (cx_chain X) vid 0 (pieces (lc_chunk_size (cx_config X)) payload) = Inr (puts, n)"
      "ops = map gc_ops (if needs_read pr then record_pointers (tabs (sh_store s)) (encode_key X key) else [])
        @ puts @ [Op_Put Records (encode_key X key)
            (pointer_encode \<lparr>cp_value_id = vid, cp_n_chunks = n, cp_total_len = of_nat (length payload), cp_flags = FLAG_POSTCARD\<rparr>)]
        @ [counter_op_for j]"
proof -
  obtain gc where gc: "gc_existing X (sh_store s) key pr = Inr gc"
    using assms(1) by (auto simp: put_payload_ops_def sbind_eq_Inr_iff)
  note gc' = gc_existing_spec [OF gc assms(2)]
  show thesis
  proof (cases "stores_inline X (length payload) FLAG_POSTCARD")
    case True
    then show thesis
      using assms(1) gc gc' by (auto simp: put_payload_ops_def sbind_def rbind_eq_Inr_iff intro!: inline)
  next
    case False
    then obtain vid nx puts n where alloc: "allocate B (sh_store s) (sh_values s) = (Inr vid, nx)"
      and size': "lc_chunk_size (cx_config X) \<noteq> 0"
      and puts: "piece_ops (cx_chain X) vid 0 (pieces (lc_chunk_size (cx_config X)) payload) = Inr (puts, n)"
      and s': "s' = s\<lparr>sh_values := nx\<rparr>"
      and ops: "ops = gc @ puts @ [Op_Put Records (encode_key X key)
            (pointer_encode \<lparr>cp_value_id = vid, cp_n_chunks = n, cp_total_len = of_nat (length payload), cp_flags = FLAG_POSTCARD\<rparr>)]
        @ (case vid_counter_op nx of Some op \<Rightarrow> [op] | None \<Rightarrow> [])"
      using assms gc
      by (auto simp: put_payload_ops_def sbind_eq_Inr_iff next_value_id_def on_values_def value_counter_op_def
          split: prod.splits if_splits)
    obtain j where j: "nx = Some j" "checked_succ vid = Some j"
      using allocate_Inr [OF alloc] by blast
    show thesis
      by (rule chunked [OF _ _ alloc [unfolded j(1)] s' [unfolded j(1)] j(2) puts])
        (use False size' ops gc' j(1) in \<open>auto simp: stores_inline_def vid_counter_op_def\<close>)
  qed
qed

section \<open>One key of a batch\<close>

lemma put_payload_becomes:
  assumes put: "put_payload_ops X key payload FLAG_POSTCARD pr s = (Inr ops, s')" and B: "cx_backend X = B"
    and t0: "t0 = tabs (sh_store s)" "vals_ok n0 t0"
    and inv: "batch_inv t0 t (sh_values s) todo" "encode_key X key \<in> todo"
    and pr: "prior_true pr t0 (encode_key X key)"
    and chain: "sound_chain (cx_chain X)" "length payload \<le> MAX_DECODED_BYTES"
  shows "becomes (cx_chain X) t (apply_ops t ops) [encode_key X key \<mapsto> Some payload]
    \<and> batch_inv t0 (apply_ops t ops) (sh_values s') (todo - {encode_key X key})
    \<and> s' = s\<lparr>sh_values := sh_values s'\<rparr>"
proof -
  let ?x = "encode_key X key" and ?t' = "apply_ops t ops"
  define ps where "ps = (if needs_read pr then record_pointers t0 ?x else [])"
  have good: "owned t" "below t (stored_counter t)" and cur: "cursor_above (sh_values s) (stored_counter t)"
    using inv(1) by (simp_all add: batch_inv_def)
  have coll: "collects t ?x ps"
    using collects_batch [OF t0(2) inv] collects_none [OF _ inv] pr by (auto simp: ps_def prior_true_def)
  from put B show ?thesis
  proof (cases rule: put_payload_ops_cases)
    case (inline sealed)
    have ops: "ops = map gc_ops ps @ [Op_Put Records ?x sealed]" using inline(3) by (simp add: ps_def t0(1))
    have b: "becomes (cx_chain X) t ?t' [?x \<mapsto> Some payload]"
      unfolding ops using good coll seal_not_pointer [OF inline(1)] sound_chain_open [OF chain inline(1)]
      by (rule becomes_inline)
    have "stored_counter ?t' = stored_counter t"
      unfolding ops by (rule stored_counter_silent) auto
    then have "batch_inv t0 ?t' (sh_values s) (todo - {?x})"
      using batch_inv_step [OF inv(1) b, of "sh_values s"] cur by simp
    with b inline(2) show ?thesis by simp
  next
    case (chunked vid j puts n)
    let ?ptr = "\<lparr>cp_value_id = vid, cp_n_chunks = n, cp_total_len = of_nat (length payload), cp_flags = FLAG_POSTCARD\<rparr>"
    have ops: "ops = map gc_ops ps @ puts @ [Op_Put Records ?x (pointer_encode ?ptr)] @ [counter_op_for j]"
      using chunked(7) by (simp add: ps_def t0(1))
    have vid: "stored_counter t \<le> vid"
      using allocate_Inr [OF chunked(3)] cur inv(1)
      by (auto simp: cursor_above_def batch_inv_def t0(1) split: option.splits)
    have ne: "payload \<noteq> []" using chunked(1) by auto
    have b: "becomes (cx_chain X) t ?t' [?x \<mapsto> Some payload]"
      by (rule becomes_chunked [OF good coll chain chunked(2) ne chunked(6) vid chunked(5) _ refl ops])
        (simp add: FLAG_POSTCARD_def FLAG_RAW_def)
    have "stored_counter ?t' = j"
      using stored_counter_last [of t "map gc_ops ps @ puts @ [Op_Put Records ?x (pointer_encode ?ptr)]" j]
      by (simp add: ops)
    then have "batch_inv t0 ?t' (Some j) (todo - {?x})"
      using batch_inv_step [OF inv(1) b, of "Some j"] by (simp add: cursor_above_def)
    with b chunked(4) show ?thesis by simp
  qed
qed

lemma delete_becomes:
  assumes ops: "ops = map gc_ops (if needs_read pr then record_pointers t0 x else []) @ [Op_Delete Records x]"
    and t0: "vals_ok n0 t0" and inv: "batch_inv t0 t nxt todo" "x \<in> todo" and pr: "prior_true pr t0 x"
  shows "becomes ch t (apply_ops t ops) [x \<mapsto> None] \<and> batch_inv t0 (apply_ops t ops) nxt todo"
proof -
  have coll: "collects t x (if needs_read pr then record_pointers t0 x else [])"
    using collects_batch [OF t0 inv] collects_none [OF _ inv] pr by (auto simp: prior_true_def)
  have b: "becomes ch t (apply_ops t ops) [x \<mapsto> None]"
    unfolding ops using inv(1) coll by (intro becomes_deleted) (simp_all add: batch_inv_def)
  have "stored_counter (apply_ops t ops) = stored_counter t"
    unfolding ops by (rule stored_counter_silent) auto
  then have "batch_inv t0 (apply_ops t ops) nxt todo"
    using batch_inv_step [OF inv(1) b, of nxt] inv(1) by (simp add: batch_inv_def)
  with b show ?thesis by blast
qed

lemma eager_put_becomes:
  assumes ops: "ops = map gc_ops (record_pointers t0 x) @ [Op_Put Records x sealed]"
    and sealed: "seal ch payload = Inr sealed" "sound_chain ch" "length payload \<le> MAX_DECODED_BYTES"
    and t0: "vals_ok n0 t0" and inv: "batch_inv t0 t nxt todo" "x \<in> todo"
  shows "becomes ch t (apply_ops t ops) [x \<mapsto> Some payload] \<and> batch_inv t0 (apply_ops t ops) nxt (todo - {x})"
proof -
  have b: "becomes ch t (apply_ops t ops) [x \<mapsto> Some payload]"
    unfolding ops using inv(1) collects_batch [OF t0 inv] seal_not_pointer [OF sealed(1)] sound_chain_open [OF sealed(2,3,1)]
    by (intro becomes_inline) (simp_all add: batch_inv_def)
  have "stored_counter (apply_ops t ops) = stored_counter t"
    unfolding ops by (rule stored_counter_silent) auto
  then have "batch_inv t0 (apply_ops t ops) nxt (todo - {x})"
    using batch_inv_step [OF inv(1) b, of nxt] inv(1) by (simp add: batch_inv_def)
  with b show ?thesis by blast
qed

lemma eager_put_ops_spec:
  assumes "eager_put_ops X b key payload = Inr ops" "cx_backend X = B"
  shows "\<exists>sealed. seal (cx_chain X) payload = Inr sealed
    \<and> ops = map gc_ops (record_pointers (tabs b) (encode_key X key)) @ [Op_Put Records (encode_key X key) sealed]"
proof -
  obtain sealed raw where s: "seal (cx_chain X) payload = Inr sealed"
    and raw: "bk_get B b Records (encode_key X key) = Inr raw"
    and ops: "ops = (case raw of Some r \<Rightarrow> if is_pointer r then (case pointer_parse r of Inr p \<Rightarrow> [gc_ops p] | Inl _ \<Rightarrow> []) else []
        | None \<Rightarrow> []) @ [Op_Put Records (encode_key X key) sealed]"
    using assms by (auto simp: eager_put_ops_def seal_slice_def fetch_def rbind_eq_Inr_iff split: if_splits)
  have "raw = bt_lookup (tb_records (tabs b)) (encode_key X key)"
    using get_spec [OF raw] by simp
  then show ?thesis
    using s ops by (auto simp: record_pointers_def parsed_def dest: is_pointer_parse split: option.splits if_splits sum.splits)
qed

lemma action_becomes:
  assumes act: "action_ops X mode (key, a) s = (Inr ops, s')" and B: "cx_backend X = B"
    and t0: "t0 = tabs (sh_store s)" "vals_ok n0 t0"
    and inv: "batch_inv t0 t (sh_values s) todo" "encode_key X key \<in> todo"
    and chain: "sound_chain (cx_chain X)" "action_fits a"
  shows "becomes (cx_chain X) t (apply_ops t ops) [encode_key X key \<mapsto> action_value a]
    \<and> batch_inv t0 (apply_ops t ops) (sh_values s') (todo - puts_of [encode_key X key \<mapsto> action_value a])
    \<and> s' = s\<lparr>sh_values := sh_values s'\<rparr>"
proof (cases a)
  case Act_Delete
  then have d: "delete_value_ops X (sh_store s) key Prior_Unknown = Inr ops" and s': "s' = s"
    using act by (auto simp: action_ops_def)
  obtain gc where gc: "gc_existing X (sh_store s) key Prior_Unknown = Inr gc"
    and ops: "ops = gc @ [Op_Delete Records (encode_key X key)]"
    using d unfolding delete_value_ops_def delete_op_def rbind_eq_Inr_iff by blast
  have "ops = map gc_ops (if needs_read Prior_Unknown then record_pointers t0 (encode_key X key) else [])
      @ [Op_Delete Records (encode_key X key)]"
    using gc_existing_spec [OF gc B] by (simp add: ops t0(1))
  from delete_becomes [OF this t0(2) inv] show ?thesis
    unfolding Act_Delete s' by (simp add: prior_true_def needs_read_def)
next
  case (Act_Put payload)
  show ?thesis
  proof (cases mode)
    case TxLazy
    then have "put_payload_ops X key payload FLAG_POSTCARD Prior_Unknown s = (Inr ops, s')"
      using act Act_Put by (simp add: action_ops_def)
    from put_payload_becomes [OF this B t0 inv _ chain(1)] show ?thesis
      using chain(2) unfolding Act_Put by (simp add: prior_true_def needs_read_def)
  next
    case TxEager
    then have e: "eager_put_ops X (sh_store s) key payload = Inr ops" and s': "s' = s"
      using act Act_Put by (auto simp: action_ops_def)
    obtain sealed where sealed: "seal (cx_chain X) payload = Inr sealed"
      and ops: "ops = map gc_ops (record_pointers t0 (encode_key X key)) @ [Op_Put Records (encode_key X key) sealed]"
      using eager_put_ops_spec [OF e B] unfolding t0(1) by blast
    have "length payload \<le> MAX_DECODED_BYTES" using chain(2) Act_Put by simp
    from eager_put_becomes [OF ops sealed chain(1) this t0(2) inv] show ?thesis
      unfolding Act_Put action_value.simps s' by simp
  qed
qed

lemma actions_become:
  assumes "mapM_s (action_ops X mode) acts s = (Inr opss, s')" "cx_backend X = B"
    and "t0 = tabs (sh_store s)" "vals_ok n0 t0"
    and "batch_inv t0 t (sh_values s) todo" "encode_key X ` fst ` set acts \<subseteq> todo" "distinct (map fst acts)"
    and "sound_chain (cx_chain X)" "\<forall>(k, a)\<in>set acts. action_fits a"
  shows "becomes (cx_chain X) t (apply_ops t (concat opss)) (action_writes (cx_id X) acts)
    \<and> batch_inv t0 (apply_ops t (concat opss)) (sh_values s') (todo - puts_of (action_writes (cx_id X) acts))
    \<and> s' = s\<lparr>sh_values := sh_values s'\<rparr>"
  using assms
proof (induction acts arbitrary: s t opss todo)
  case Nil
  then show ?case
    by (auto simp: action_writes_def batch_inv_def puts_of_def intro!: becomes_refl)
next
  case (Cons ka acts)
  obtain k a where ka: "ka = (k, a)" by (cases ka)
  obtain ops rest u where ops: "action_ops X mode (k, a) s = (Inr ops, u)"
    and rest: "mapM_s (action_ops X mode) acts u = (Inr rest, s')" and opss: "opss = ops # rest"
    using Cons.prems(1) by (auto simp: sbind_eq_Inr_iff ka)
  let ?x = "encode_key X k" and ?V = "[encode_key X k \<mapsto> action_value a]"
  have x: "?x \<in> todo" "action_fits a" using Cons.prems(6,9) by (auto simp: ka)
  have step: "becomes (cx_chain X) t (apply_ops t ops) ?V"
    "batch_inv t0 (apply_ops t ops) (sh_values u) (todo - puts_of ?V)" "u = s\<lparr>sh_values := sh_values u\<rparr>"
    using action_becomes [OF ops Cons.prems(2-5) x(1) Cons.prems(8) x(2)] by blast+
  have store: "t0 = tabs (sh_store u)" using Cons.prems(3) by (subst step(3)) simp
  have "k \<notin> fst ` set acts" using Cons.prems(7) by (simp add: ka)
  then have away: "?x \<notin> encode_key X ` fst ` set acts" by simp
  moreover have "encode_key X ` fst ` set acts \<subseteq> todo" using Cons.prems(6) by simp
  ultimately have sub: "encode_key X ` fst ` set acts \<subseteq> todo - puts_of ?V"
    using puts_of_single by (rule subset_Diff_single)
  have dist: "distinct (map fst acts)" and fits: "\<forall>(k, a)\<in>set acts. action_fits a"
    using Cons.prems(7,9) by simp_all
  note IH = Cons.IH [OF rest Cons.prems(2) store Cons.prems(4) step(2) sub dist Cons.prems(8) fits]
  have disj: "?x \<notin> dom (action_writes (cx_id X) acts)"
    using away by (simp add: dom_action_writes encode_key_eq)
  have whole: "?V ++ action_writes (cx_id X) acts = action_writes (cx_id X) (ka # acts)"
  proof
    fix y
    show "(?V ++ action_writes (cx_id X) acts) y = action_writes (cx_id X) (ka # acts) y"
      using disj by (cases "y = ?x") (auto simp: action_writes_Cons ka encode_key_eq map_add_def domIff split: option.splits)
  qed
  have "puts_of (action_writes (cx_id X) (ka # acts)) = puts_of ?V \<union> puts_of (action_writes (cx_id X) acts)"
    unfolding whole [symmetric] by (rule puts_of_add) (use disj in simp)
  moreover have "becomes (cx_chain X) t (apply_ops t (concat opss)) (action_writes (cx_id X) (ka # acts))"
    using becomes_trans [OF step(1) conjunct1 [OF IH]] by (simp add: opss whole)
  moreover have "s' = s\<lparr>sh_values := sh_values s'\<rparr>"
    by (rule values_only_trans [OF step(3)]) (use IH in blast)
  ultimately show ?case
    using conjunct1 [OF conjunct2 [OF IH]] by (simp add: opss Diff_eq Int_assoc [symmetric] Compl_Un)
qed

text \<open>A walk that returns is the fold of its visitor over the records in bounds.\<close>

lemma walk_Inr:
  assumes "walk B b l s e reverse want visit acc = Inr r"
  shows "foldM_r (\<lambda>a (k, v). visit a k (if want then Some v else None)) acc (range_records l (tabs b) s e reverse) = Inr r"
proof (cases "is_degenerate s e")
  case False
  let ?rq = "\<lparr>rq_table = Records, rq_range = encode_range_bytes l s e, rq_reverse = reverse,
              rq_limit = bk_scan_page_size B, rq_want_values = want\<rparr>"
  have items: "foldM_r (walk_item l visit) acc (map (scan_item want) (map (\<lambda>(k, v). (encode_bytes l k, v)) xs))
      = foldM_r (\<lambda>a (k, v). visit a k (if want then Some v else None)) acc xs" for xs acc
    by (induction xs arbitrary: acc) (auto simp: walk_item_def scan_item_def)
  have "page_loop (bk_fuel B b) B b ?rq (walk_item l visit) acc = Inr r"
    using assms False by (simp add: walk_def)
  then have "foldM_r (walk_item l visit) acc (map (scan_item want) (scan_order (tb_records (tabs b)) (encode_range_bytes l s e) reverse)) = Inr r"
    using page_loop_cases [of ?rq b "bk_fuel B b" "walk_item l visit" acc] page_size_spec length_scan_order [of b Records]
    by simp
  then show ?thesis by (simp only: scan_order_locker items)
qed (use assms in \<open>simp add: walk_def degenerate_range_records\<close>)

lemma clear_value_ops_spec:
  assumes "clear_value_ops X b = Inr ops" "cx_backend X = B"
  shows "ops = map gc_ops (List.map_filter (\<lambda>(k, v). parsed v) (locker_records (cx_id X) (tabs b))) @ [clear_op X]"
proof -
  have fold: "foldM_r (\<lambda>a (k, v). gc_visit a k (if True then Some v else None)) acc xs
      = Inr (acc @ map gc_ops (List.map_filter (\<lambda>(k, v). parsed v) xs))" for acc xs
  proof (induction xs arbitrary: acc)
    case (Cons x xs)
    obtain k v where x: "x = (k, v)" by (cases x)
    show ?case
      by (cases "pointer_parse v")
        (use Cons in \<open>auto simp: x gc_visit_def parsed_def List.map_filter_simps dest: is_pointer_parse\<close>)
  qed (simp add: List.map_filter_simps)
  have all: "range_records l t Unbounded Unbounded False = locker_records l t" for l t
    by (simp add: range_records_def in_user_bounds_def Let_def case_prod_unfold)
  obtain r where r: "walk B b (cx_id X) Unbounded Unbounded False True gc_visit [] = Inr r" and ops: "ops = r @ [clear_op X]"
    using assms by (auto simp: clear_value_ops_def rbind_eq_Inr_iff)
  show ?thesis
    using walk_Inr [OF r] by (simp only: fold all ops) simp
qed

end

section \<open>Clearing a locker\<close>

definition clear_writes :: "locker_id \<Rightarrow> write_map" where
  "clear_writes l y = (if kr_contains (locker_range l) y then Some None else None)"

lemma becomes_cleared:
  assumes good: "owned t" "below t (stored_counter t)"
    and ps: "\<And>y i. kr_contains (locker_range l) y \<Longrightarrow> points t y i \<Longrightarrow> i \<in> cp_value_id ` set ps"
      "\<And>p. p \<in> set ps \<Longrightarrow> \<exists>y. kr_contains (locker_range l) y \<and> points t y (cp_value_id p)"
    and ops: "ops = map gc_ops ps @ [Op_DeleteRange Records (locker_range l)]"
  shows "becomes ch t (apply_ops t ops) (clear_writes l)" "stored_counter (apply_ops t ops) = stored_counter t"
proof -
  let ?t' = "apply_ops t ops"
  have keep: "keeps t ?t' y" if "\<not> kr_contains (locker_range l) y" for y
  proof (rule keeps_silent)
    show "op_says Records y op = None" if "op \<in> set ops" for op
      using that \<open>\<not> kr_contains (locker_range l) y\<close> by (auto simp: ops)
    show "op_says Chunks (chunk_key i j) op = None" if p: "points t y i" and op: "op \<in> set ops" for i j op
    proof -
      have "i \<noteq> cp_value_id p" if mem: "p \<in> set ps" for p
      proof
        assume "i = cp_value_id p"
        then obtain z where "kr_contains (locker_range l) z" "points t z i" using ps(2) [OF mem] by blast
        then show False using p good(1) \<open>\<not> kr_contains (locker_range l) y\<close> by (auto simp: owned_def)
      qed
      then show ?thesis using op by (auto simp: ops)
    qed
  qed
  have gone: "bt_lookup (tb_records ?t') y = None" if "kr_contains (locker_range l) y" for y
    using that lookup_apply_delete_range [of "apply_ops t (map gc_ops ps)" Records "locker_range l" Records y]
    by (simp add: ops)
  have pts: "points ?t' y i \<longleftrightarrow> points t y i \<and> \<not> kr_contains (locker_range l) y" for y i
  proof (cases "kr_contains (locker_range l) y")
    case True
    then show ?thesis using gone by (simp add: points_def)
  next
    case False
    then show ?thesis using points_keeps [OF keep] by simp
  qed
  show counter: "stored_counter ?t' = stored_counter t"
    by (rule stored_counter_silent) (auto simp: ops)
  have "no_orphans ?t'" if orphans: "no_orphans t"
    unfolding no_orphans_def
  proof
    fix k
    assume "k \<in> stored_chunk_keys ?t'"
    then have "k \<in> stored_chunk_keys t \<and> (\<forall>p\<in>set ps. \<not> kr_contains (chunk_range (cp_value_id p)) k)"
      unfolding ops by (rule surviving_chunk) auto
    then obtain y i where "points t y i" "kr_contains (chunk_range i) k" "i \<notin> cp_value_id ` set ps"
      using orphans unfolding no_orphans_def by (metis imageE)
    then show "\<exists>y i. points ?t' y i \<and> kr_contains (chunk_range i) k" using pts ps(1) by blast
  qed
  moreover have "case clear_writes l y of None \<Rightarrow> keeps t ?t' y | Some w \<Rightarrow> holds ch ?t' y w" for y
    using keep gone by (simp add: clear_writes_def holds_def)
  ultimately show "becomes ch t ?t' (clear_writes l)"
    using good counter pts by (auto simp: becomes_def owned_def below_def derived_def)
qed

lemma mem_map_filter: "y \<in> set (List.map_filter f xs) \<longleftrightarrow> (\<exists>x\<in>set xs. f x = Some y)"
  by (induction xs) (auto simp: List.map_filter_simps split: option.splits)

lemma record_pointers_mem:
  "p \<in> set (record_pointers t x) \<longleftrightarrow> Option.bind (bt_lookup (tb_records t) x) parsed = Some p"
  by (auto simp: record_pointers_def split: option.splits)

lemma locker_pointers:
  "p \<in> set (List.map_filter (\<lambda>(k, v). parsed v) (locker_records l t)) \<longleftrightarrow>
     (\<exists>y. kr_contains (locker_range l) y \<and> p \<in> set (record_pointers t y))"
proof -
  have "p \<in> set (List.map_filter (\<lambda>(k, v). parsed v) (locker_records l t)) \<longleftrightarrow>
      (\<exists>k v. (k, v) \<in> set (locker_records l t) \<and> parsed v = Some p)"
    by (simp add: mem_map_filter Bex_def del: parsed_eq_Some)
  also have "\<dots> \<longleftrightarrow> (\<exists>k. Option.bind (bt_lookup (tb_records t) (encode_bytes l k)) parsed = Some p)"
    by (auto simp: locker_records_mem Option.bind_eq_Some_conv)
  also have "\<dots> \<longleftrightarrow> (\<exists>y. kr_contains (locker_range l) y \<and> p \<in> set (record_pointers t y))"
    unfolding record_pointers_mem locker_range_contains by blast
  finally show ?thesis .
qed

context backend_contract
begin

lemma clear_becomes:
  assumes "clear_value_ops X b = Inr ops" "cx_backend X = B" "vals_ok nxt (tabs b)"
  shows "becomes ch (tabs b) (apply_ops (tabs b) ops) (clear_writes (cx_id X))
    \<and> batch_inv (tabs b) (apply_ops (tabs b) ops) nxt UNIV"
proof -
  let ?t = "tabs b" and ?ps = "List.map_filter (\<lambda>(k, v). parsed v) (locker_records (cx_id X) (tabs b))"
  have ops: "ops = map gc_ops ?ps @ [Op_DeleteRange Records (locker_range (cx_id X))]"
    using clear_value_ops_spec [OF assms(1,2)] by (simp add: clear_op_def)
  have good: "owned ?t" "below ?t (stored_counter ?t)" using assms(3) by (simp_all add: vals_ok_def)
  have ps: "kr_contains (locker_range (cx_id X)) y \<Longrightarrow> points ?t y i \<Longrightarrow> i \<in> cp_value_id ` set ?ps"
    "p \<in> set ?ps \<Longrightarrow> \<exists>y. kr_contains (locker_range (cx_id X)) y \<and> points ?t y (cp_value_id p)" for y i p
    unfolding points_iff image_iff Bex_def locker_pointers by blast+
  note c = becomes_cleared [OF good ps ops]
  have "batch_inv ?t (apply_ops ?t ops) nxt (UNIV - puts_of (clear_writes (cx_id X)))"
    using batch_inv_step [OF batch_inv_start [OF assms(3), of UNIV] c(1), where nxt' = nxt] assms(3) c(2)
    by (simp add: vals_ok_def)
  moreover have "puts_of (clear_writes l) = {}" for l by (auto simp: puts_of_def clear_writes_def)
  ultimately show ?thesis using c(1) by simp
qed

end

section \<open>A whole batch\<close>

definition batch_writes :: "locker_id \<Rightarrow> pending list \<Rightarrow> write_map" where
  "batch_writes l st x = (case decode_bytes l x of Inr k \<Rightarrow> staged_view st k | Inl _ \<Rightarrow> None)"

lemma batch_writes_encode [simp]: "batch_writes l st (encode_bytes l k) = staged_view st k"
  by (simp add: batch_writes_def)

lemma after_last_clear_snoc:
  "after_last_clear (xs @ [x]) =
     (if x = It_Clear then (True, []) else (fst (after_last_clear xs), snd (after_last_clear xs) @ [x]))"
  by (induction xs) (auto split: prod.splits bool.splits)

lemma actions_of_snoc: "actions_of (xs @ [x]) = action_step x (actions_of xs)"
  by (simp add: actions_of_def)

lemma staged_view_snoc:
  "staged_view [] k = None"
  "staged_view (st @ [Pend_Put k' p]) k = (if k' = k then Some (Some p) else staged_view st k)"
  "staged_view (st @ [Pend_Delete k']) k = (if k' = k then Some None else staged_view st k)"
  "staged_view (st @ [Pend_Clear]) k = Some None"
  by (simp_all add: staged_view_def)

text \<open>The collapsed write-set says of a key what the list of staged writes says.\<close>

lemma staged_view_collapsed:
  "staged_view st k =
     (case map_option action_value (bt_lookup (actions_of (snd (after_last_clear (map item_of_pending st)))) k) of
        Some w \<Rightarrow> Some w
      | None \<Rightarrow> if fst (after_last_clear (map item_of_pending st)) then Some None else None)"
proof (induction st rule: rev_induct)
  case Nil
  show ?case by (simp add: staged_view_def actions_of_def)
next
  case (snoc e st)
  then show ?case
    by (cases e) (auto simp: staged_view_snoc after_last_clear_snoc actions_of_snoc actions_of_def)
qed

lemma action_writes_lookup:
  "action_writes l (bt_entries m) x = (case decode_bytes l x of Inr k \<Rightarrow> map_option action_value (bt_lookup m k) | Inl _ \<Rightarrow> None)"
proof (cases "decode_bytes l x")
  case (Inl e)
  then have "x \<notin> dom (action_writes l (bt_entries m))" by (auto simp: dom_action_writes)
  with Inl show ?thesis by (simp add: domIff)
next
  case (Inr k)
  have "map_of (map (\<lambda>(k, a). (encode_bytes l k, action_value a)) xs) (encode_bytes l k)
      = map_option action_value (map_of xs k)" for xs
    by (induction xs) auto
  with Inr show ?thesis by (simp add: action_writes_def bt_lookup_def decode_bytes_Inr_iff)
qed

lemma batch_writes_collapsed:
  "batch_writes l st =
     (if fst (after_last_clear (map item_of_pending st)) then clear_writes l else Map.empty)
       ++ action_writes l (bt_entries (actions_of (snd (after_last_clear (map item_of_pending st)))))"
proof
  fix x
  have "kr_contains (locker_range l) x \<longleftrightarrow> (\<exists>k. decode_bytes l x = Inr k)"
    by (simp add: locker_range_contains decode_bytes_Inr_iff)
  then show "batch_writes l st x = ((if fst (after_last_clear (map item_of_pending st)) then clear_writes l else Map.empty)
       ++ action_writes l (bt_entries (actions_of (snd (after_last_clear (map item_of_pending st)))))) x"
    by (cases "decode_bytes l x")
      (auto simp: batch_writes_def staged_view_collapsed action_writes_lookup clear_writes_def map_add_def split: option.splits)
qed

fun pending_fits :: "pending \<Rightarrow> bool" where
  "pending_fits (Pend_Put key payload) \<longleftrightarrow> length payload \<le> MAX_DECODED_BYTES"
| "pending_fits _ \<longleftrightarrow> True"

lemma actions_of_Nil [simp]: "bt_lookup (actions_of []) k = None"
  by (simp add: actions_of_def)

lemma actions_fit:
  assumes "\<forall>e\<in>set st. pending_fits e"
  shows "bt_lookup (actions_of (snd (after_last_clear (map item_of_pending st)))) k = Some a \<Longrightarrow> action_fits a"
  using assms
proof (induction st rule: rev_induct)
  case (snoc e st)
  then show ?case
    by (cases e) (auto simp: after_last_clear_snoc actions_of_snoc split: if_splits)
qed simp

context backend_contract
begin

theorem batch_becomes:
  assumes ops: "ops_for_pending X st mode s = (Inr ops, s')" and B: "cx_backend X = B"
    and ok: "vals_ok (sh_values s) (tabs (sh_store s))"
    and chain: "sound_chain (cx_chain X)" "\<forall>e\<in>set st. pending_fits e"
  shows "becomes (cx_chain X) (tabs (sh_store s)) (apply_ops (tabs (sh_store s)) ops) (batch_writes (cx_id X) st)
    \<and> batch_inv (tabs (sh_store s)) (apply_ops (tabs (sh_store s)) ops) (sh_values s') (- puts_of (batch_writes (cx_id X) st))
    \<and> s' = s\<lparr>sh_values := sh_values s'\<rparr>"
proof -
  let ?t = "tabs (sh_store s)"
  obtain found rest where alc: "after_last_clear (map item_of_pending st) = (found, rest)" by fastforce
  let ?V = "if found then clear_writes (cx_id X) else Map.empty" and ?acts = "bt_entries (actions_of rest)"
  obtain pre opss where pre: "(if found then clear_value_ops X (sh_store s) else Inr []) = Inr pre"
    and opss: "mapM_s (action_ops X mode) ?acts s = (Inr opss, s')" and ops': "ops = pre @ concat opss"
    using ops by (auto simp: ops_for_pending_def ops_for_items_def alc sbind_eq_Inr_iff)
  have good: "owned ?t" "below ?t (stored_counter ?t)" using ok by (simp_all add: vals_ok_def)
  have pre': "becomes (cx_chain X) ?t (apply_ops ?t pre) ?V \<and> batch_inv ?t (apply_ops ?t pre) (sh_values s) UNIV"
  proof (cases found)
    case True
    then show ?thesis using clear_becomes [OF _ B ok] pre by simp
  next
    case False
    then show ?thesis using pre becomes_refl [OF good] batch_inv_start [OF ok] by simp
  qed
  have fits: "\<forall>(k, a)\<in>set ?acts. action_fits a"
    using actions_fit [OF chain(2)] by (auto simp: alc bt_mem_entries_iff)
  note acts = actions_become [OF opss B refl ok conjunct2 [OF pre'] subset_UNIV bt_entries_distinct chain(1) fits]
  have writes: "?V ++ action_writes (cx_id X) ?acts = batch_writes (cx_id X) st"
    by (simp add: batch_writes_collapsed alc)
  have "puts_of (batch_writes (cx_id X) st) = puts_of (action_writes (cx_id X) ?acts)"
    unfolding writes [symmetric] by (auto simp: puts_of_def clear_writes_def map_add_def split: option.splits if_splits)
  then show ?thesis
    using becomes_trans [OF conjunct1 [OF pre'] conjunct1 [OF acts]] acts
    unfolding writes ops' by (simp add: Compl_eq_Diff_UNIV)
qed

end

end
