(* ===== verification/Registry.thy ===== *)
theory Registry
  imports Bank Batches Lru
begin

text \<open>
  The registry of locker names against its contract: in every state that calls on a bank can reach, whatever
  the backend answers, distinct names have distinct ids below the counter, what the bank has cached is
  what is stored, and no record lies under an id that has not been given out. An id is never given out again.
\<close>

section \<open>Keys of the meta table\<close>

lemma unat_of_char: "unat (of_char c :: byte) = of_char c"
proof -
  have "(of_char c :: byte) = of_nat (of_char c :: nat)" by (simp only: of_nat_of_char)
  then show ?thesis using nat_of_char_less_256 [of c] by (simp only: unat_of_nat) simp
qed

lemma as_bytes_inject [simp]: "as_bytes s = as_bytes t \<longleftrightarrow> s = t"
proof -
  have "inj (of_char :: char \<Rightarrow> byte)"
    by (rule injI) (metis unat_of_char of_char_eq_iff)
  then show ?thesis by (simp add: as_bytes_def inj_map_eq_map)
qed

lemma locker_key_inject [simp]: "locker_key m = locker_key n \<longleftrightarrow> m = n"
  by (simp add: locker_key_def)

lemma registry_keys_apart [simp]:
  "locker_key n \<noteq> META_NEXT_LOCKER_ID" "META_NEXT_LOCKER_ID \<noteq> locker_key n"
  "locker_key n \<noteq> schema_key i" "schema_key i \<noteq> locker_key n"
  "META_NEXT_LOCKER_ID \<noteq> schema_key i" "schema_key i \<noteq> META_NEXT_LOCKER_ID"
  "locker_key n \<noteq> chain_key i" "chain_key i \<noteq> locker_key n"
  "META_NEXT_LOCKER_ID \<noteq> chain_key i" "chain_key i \<noteq> META_NEXT_LOCKER_ID"
  "META_FORMAT_VERSION \<noteq> locker_key n" "locker_key n \<noteq> META_FORMAT_VERSION"
  "META_FORMAT_VERSION \<noteq> META_NEXT_LOCKER_ID" "META_NEXT_LOCKER_ID \<noteq> META_FORMAT_VERSION"
  by (simp_all add: META_FORMAT_VERSION_def locker_key_def schema_key_def chain_key_def META_NEXT_LOCKER_ID_def META_LOCKER_PREFIX_def
      META_SCHEMA_PREFIX_def META_CHAIN_PREFIX_def as_bytes_def)

section \<open>What belongs where\<close>

text \<open>
  The form of what each table holds: records under locker ids, pieces under value ids, and in the meta
  table the counters, names, schemas, chains and accounting records, each of its own length.
\<close>

fun typed :: "table \<Rightarrow> bytes \<Rightarrow> bytes \<Rightarrow> bool" where
  "typed Records k v \<longleftrightarrow> (\<exists>l u. k = encode_bytes l u)"
| "typed Chunks k v \<longleftrightarrow> (\<exists>vid sq. k = chunk_key vid sq)"
| "typed Meta k v \<longleftrightarrow>
     k = META_FORMAT_VERSION \<and> length v = 4
     \<or> k = META_NEXT_LOCKER_ID \<and> length v = 4
     \<or> (\<exists>n. k = locker_key n \<and> length v = 4)
     \<or> (\<exists>i. k = schema_key i)
     \<or> (\<exists>i. k = chain_key i \<and> length v = 1)
     \<or> k = next_value_id_key \<and> length v = 8
     \<or> k = META_NEXT_TICK \<and> length v = 8
     \<or> (\<exists>i u. k = entry_key i u \<and> length v = RECORD_LEN)"

definition well_typed :: "tables \<Rightarrow> bool" where
  "well_typed t \<longleftrightarrow> (\<forall>tab k v. bt_lookup (tables_get t tab) k = Some v \<longrightarrow> typed tab k v)"

definition op_typed :: "bop \<Rightarrow> bool" where
  "op_typed op \<longleftrightarrow> (\<forall>tab k v. op_says tab k op = Some (Some v) \<longrightarrow> typed tab k v)"

lemma well_typed_apply:
  assumes "well_typed t" "\<And>op. op \<in> set ops \<Longrightarrow> op_typed op"
  shows "well_typed (apply_ops t ops)"
  unfolding well_typed_def
proof (intro allI impI)
  fix tab k v
  assume v: "bt_lookup (tables_get (apply_ops t ops) tab) k = Some v"
  show "typed tab k v"
  proof (cases "last_said tab k ops")
    case None
    then show ?thesis using v assms(1) by (simp add: lookup_apply_ops well_typed_def)
  next
    case (Some w)
    then have w: "w = Some v" using v by (simp add: lookup_apply_ops)
    obtain op where "op \<in> set ops" "op_says tab k op = Some w" using last_said_in [OF Some] by blast
    with assms(2) w show ?thesis unfolding op_typed_def by blast
  qed
qed

lemma op_typed_simps [simp]:
  "op_typed (Op_Delete tab k)" "op_typed (Op_DeleteRange tab r)" "op_typed (Op_Put tab k v) \<longleftrightarrow> typed tab k v"
  by (auto simp: op_typed_def split: if_splits)

lemma typed_meta [simp]:
  "typed Meta META_FORMAT_VERSION (be32 w)" "typed Meta META_NEXT_LOCKER_ID (be32 w)" "typed Meta (locker_key n) (be32 w)"
  "typed Meta (schema_key i) v" "typed Meta (chain_key i) [c]" "typed Meta next_value_id_key (be64 d)"
  "typed Meta META_NEXT_TICK (be64 d)" "typed Meta (entry_key i u) (encode_entry e)"
  "typed Records (encode_bytes l x) v" "typed Records (encode l x) v" "typed Chunks (chunk_key vid sq) v"
  by (auto simp: encode_entry_def RECORD_LEN_def encode_def)

declare typed.simps [simp del]

lemma well_typed_default [simp]: "well_typed tables_default"
proof -
  have "bt_lookup (tables_get tables_default tab) k = None" for tab k by (cases tab) (simp_all add: tables_default_def)
  then show ?thesis by (simp add: well_typed_def)
qed

section \<open>The stored registry\<close>

definition registry :: "tables \<Rightarrow> string \<Rightarrow> locker_id option" where
  "registry t name = map_option from_be32 (bt_lookup (tb_meta t) (locker_key name))"

definition next_locker :: "tables \<Rightarrow> locker_id" where
  "next_locker t = (case bt_lookup (tb_meta t) META_NEXT_LOCKER_ID of Some raw \<Rightarrow> from_be32 raw | None \<Rightarrow> 0)"

definition registry_ok :: "tables \<Rightarrow> bool" where
  "registry_ok t \<longleftrightarrow>
     (\<forall>n raw. bt_lookup (tb_meta t) (locker_key n) = Some raw \<longrightarrow> length raw = 4)
     \<and> (\<forall>raw. bt_lookup (tb_meta t) META_NEXT_LOCKER_ID = Some raw \<longrightarrow> length raw = 4)
     \<and> (\<forall>n i. registry t n = Some i \<longrightarrow> i < next_locker t)
     \<and> (\<forall>m n i. registry t m = Some i \<longrightarrow> registry t n = Some i \<longrightarrow> m = n)
     \<and> (\<forall>l k. next_locker t \<le> l \<longrightarrow> bt_lookup (tb_records t) (encode_bytes l k) = None)
     \<and> well_typed t"

text \<open>Ids only grow: what is new in the registry is at or above the old counter.\<close>

definition grows :: "tables \<Rightarrow> tables \<Rightarrow> bool" where
  "grows t t' \<longleftrightarrow> next_locker t \<le> next_locker t'
     \<and> (\<forall>n i. registry t' n = Some i \<longrightarrow> registry t n = Some i \<or> next_locker t \<le> i)"

lemma grows_refl [simp]: "grows t t"
  by (simp add: grows_def)

lemma grows_trans: "grows t u \<Longrightarrow> grows u v \<Longrightarrow> grows t v"
  unfolding grows_def by (meson order_trans)

text \<open>Operations that leave the registry alone and write only records of the given ids.\<close>

definition spares :: "locker_id set \<Rightarrow> bop \<Rightarrow> bool" where
  "spares L op \<longleftrightarrow> op_typed op \<and> op_says Meta META_NEXT_LOCKER_ID op = None \<and> (\<forall>n. op_says Meta (locker_key n) op = None)
     \<and> (\<forall>l k v. op_says Records (encode_bytes l k) op = Some (Some v) \<longrightarrow> l \<in> L)"

lemma records_apply:
  assumes "\<And>op v. op \<in> set ops \<Longrightarrow> op_says Records y op \<noteq> Some (Some v)" "bt_lookup (tb_records t) y = None"
  shows "bt_lookup (tb_records (apply_ops t ops)) y = None"
proof -
  have "last_said Records y ops \<in> {None, Some None}"
  proof (cases "last_said Records y ops")
    case (Some w)
    then obtain op where "op \<in> set ops" "op_says Records y op = Some w" using last_said_in by blast
    then show ?thesis using assms(1) Some by (cases w) auto
  qed simp
  then show ?thesis using lookup_apply_ops [of t ops Records y] assms(2) by auto
qed

lemma spared:
  assumes "\<And>op. op \<in> set ops \<Longrightarrow> spares L op"
  shows "registry (apply_ops t ops) = registry t" "next_locker (apply_ops t ops) = next_locker t"
    and "registry_ok t \<Longrightarrow> (\<And>l. l \<in> L \<Longrightarrow> l < next_locker t) \<Longrightarrow> registry_ok (apply_ops t ops)"
proof -
  have meta: "bt_lookup (tables_get (apply_ops t ops) Meta) (locker_key n) = bt_lookup (tables_get t Meta) (locker_key n)"
    "bt_lookup (tables_get (apply_ops t ops) Meta) META_NEXT_LOCKER_ID = bt_lookup (tables_get t Meta) META_NEXT_LOCKER_ID" for n
    by (rule lookup_silent; use assms in \<open>simp add: spares_def\<close>)+
  then show reg: "registry (apply_ops t ops) = registry t" and nxt: "next_locker (apply_ops t ops) = next_locker t"
    by (simp_all add: registry_def next_locker_def fun_eq_iff)
  assume ok: "registry_ok t" and L: "\<And>l. l \<in> L \<Longrightarrow> l < next_locker t"
  have "bt_lookup (tb_records (apply_ops t ops)) (encode_bytes l k) = None" if l: "next_locker t \<le> l" for l k
  proof (rule records_apply)
    show "op_says Records (encode_bytes l k) op \<noteq> Some (Some v)" if "op \<in> set ops" for op v
      using assms [OF that] l L [of l] unfolding spares_def by (meson leD)
    show "bt_lookup (tb_records t) (encode_bytes l k) = None" using ok l by (simp add: registry_ok_def)
  qed
  moreover have "well_typed (apply_ops t ops)"
    by (rule well_typed_apply) (use ok assms in \<open>auto simp: registry_ok_def spares_def\<close>)
  ultimately show "registry_ok (apply_ops t ops)" using ok meta by (simp add: registry_ok_def reg nxt)
qed

text \<open>The commit that registers a name.\<close>

lemma registered:
  assumes ok: "registry_ok t" and new: "registry t name = None" and j: "checked_succ (next_locker t) = Some j"
    and t': "t' = apply_ops t (register_ops name (next_locker t) j)"
  shows "registry t' = (registry t)(name \<mapsto> next_locker t)" "next_locker t' = j" "registry_ok t'" "grows t t'"
proof -
  have meta: "bt_lookup (tb_meta t') k = (if k = META_NEXT_LOCKER_ID then Some (be32 j)
      else if k = locker_key name then Some (be32 (next_locker t)) else bt_lookup (tb_meta t) k)" for k
    using lookup_apply_ops [of t "register_ops name (next_locker t) j" Meta k]
    by (simp add: t' register_ops_def last_said_def List.map_filter_simps)
  have recs: "bt_lookup (tb_records t') k = bt_lookup (tb_records t) k" for k
    using lookup_apply_ops [of t "register_ops name (next_locker t) j" Records k]
    by (simp add: t' register_ops_def last_said_def List.map_filter_simps)
  show reg: "registry t' = (registry t)(name \<mapsto> next_locker t)" by (auto simp: registry_def meta fun_eq_iff)
  show nxt: "next_locker t' = j" by (simp add: next_locker_def meta)
  have less: "next_locker t < j" by (rule checked_succ_less [OF j])
  have low: "i < next_locker t" if "registry t n = Some i" for n i using ok that by (simp add: registry_ok_def)
  show "registry_ok t'"
    unfolding registry_ok_def reg nxt
  proof (intro conjI allI impI)
    show "well_typed t'"
      unfolding t' by (rule well_typed_apply) (use ok in \<open>auto simp: registry_ok_def register_ops_def\<close>)
    show "length raw = 4" if "bt_lookup (tb_meta t') (locker_key n) = Some raw" for n raw
      using ok that by (auto simp: registry_ok_def meta split: if_splits)
    show "length raw = 4" if "bt_lookup (tb_meta t') META_NEXT_LOCKER_ID = Some raw" for raw using that by (auto simp: meta)
    show "i < j" if "((registry t)(name \<mapsto> next_locker t)) n = Some i" for n i
      using that less low [of n i] by (auto split: if_splits)
    show "m = n" if "((registry t)(name \<mapsto> next_locker t)) m = Some i" "((registry t)(name \<mapsto> next_locker t)) n = Some i" for m n i
      using that ok low [of m i] low [of n i] by (auto simp: registry_ok_def split: if_splits)
    show "bt_lookup (tb_records t') (encode_bytes l k) = None" if "j \<le> l" for l k
      using that less ok by (auto simp: recs registry_ok_def)
  qed
  show "grows t t'" using less by (auto simp: grows_def reg nxt split: if_splits)
qed

section \<open>Calls on a bank\<close>

definition bank_ok :: "('b \<Rightarrow> tables) \<Rightarrow> ('b, 'q, 'v) bank \<Rightarrow> bool" where
  "bank_ok tabs s \<longleftrightarrow> registry_ok (tabs (sh_store s))
     \<and> (\<forall>n i. cached s n = Some i \<longrightarrow> registry (tabs (sh_store s)) n = Some i)"

definition evolves :: "('b \<Rightarrow> tables) \<Rightarrow> ('b, 'q, 'v) bank \<Rightarrow> ('b, 'q, 'v) bank \<Rightarrow> bool" where
  "evolves tabs s s' \<longleftrightarrow> bank_ok tabs s' \<and> grows (tabs (sh_store s)) (tabs (sh_store s')) \<and> bn_cells s' = bn_cells s"

lemma evolves_trans: "evolves tabs s u \<Longrightarrow> evolves tabs u v \<Longrightarrow> evolves tabs s v"
  unfolding evolves_def using grows_trans by metis

lemma evolves_refl: "bank_ok tabs s \<Longrightarrow> evolves tabs s s"
  by (simp add: evolves_def)

lemma evolves_same:
  "bank_ok tabs s \<Longrightarrow> tabs (sh_store s') = tabs (sh_store s) \<Longrightarrow> bn_registry s' = bn_registry s
    \<Longrightarrow> bn_cells s' = bn_cells s \<Longrightarrow> evolves tabs s s'"
  by (simp add: evolves_def bank_ok_def cached_def)

text \<open>
  A call that keeps the order of the bank, whatever its outcome: from tables that satisfy \<open>P\<close>, and with
  \<open>Q\<close> of its result when it returns one.
\<close>

definition orderly :: "('b \<Rightarrow> tables) \<Rightarrow> (tables \<Rightarrow> bool) \<Rightarrow> (('b, 'q, 'v) bank, error, 'a) act \<Rightarrow> ('a \<Rightarrow> tables \<Rightarrow> bool) \<Rightarrow> bool" where
  "orderly tabs P m Q \<longleftrightarrow> (\<forall>s r s'. bank_ok tabs s \<longrightarrow> P (tabs (sh_store s)) \<longrightarrow> m s = (r, s') \<longrightarrow>
     evolves tabs s s' \<and> (\<forall>x. r = Inr x \<longrightarrow> Q x (tabs (sh_store s'))))"

abbreviation always :: "tables \<Rightarrow> bool" where
  "always \<equiv> (\<lambda>_. True)"

definition issued :: "locker_id \<Rightarrow> tables \<Rightarrow> bool" where
  "issued i t \<longleftrightarrow> i < next_locker t"

lemma issued_grows: "issued i t \<Longrightarrow> grows t t' \<Longrightarrow> issued i t'"
  by (auto simp: issued_def grows_def)

lemma orderlyI:
  "(\<And>s r s'. bank_ok tabs s \<Longrightarrow> P (tabs (sh_store s)) \<Longrightarrow> m s = (r, s') \<Longrightarrow>
     evolves tabs s s' \<and> (\<forall>x. r = Inr x \<longrightarrow> Q x (tabs (sh_store s')))) \<Longrightarrow> orderly tabs P m Q"
  by (simp add: orderly_def)

lemma orderlyD:
  "orderly tabs P m Q \<Longrightarrow> bank_ok tabs s \<Longrightarrow> P (tabs (sh_store s)) \<Longrightarrow> m s = (r, s') \<Longrightarrow>
     evolves tabs s s' \<and> (\<forall>x. r = Inr x \<longrightarrow> Q x (tabs (sh_store s')))"
  unfolding orderly_def by blast

lemma orderly_sbind:
  assumes "orderly tabs P m Q" "\<And>x. orderly tabs (Q x) (f x) R"
  shows "orderly tabs P (sbind m f) R"
proof (rule orderlyI)
  fix s r s'
  assume ok: "bank_ok tabs s" "P (tabs (sh_store s))" and run: "sbind m f s = (r, s')"
  obtain a u where m: "m s = (a, u)" by fastforce
  note u = orderlyD [OF assms(1) ok m]
  show "evolves tabs s s' \<and> (\<forall>x. r = Inr x \<longrightarrow> R x (tabs (sh_store s')))"
  proof (cases a)
    case (Inl e)
    then show ?thesis using run m u by auto
  next
    case (Inr x)
    have f: "f x u = (r, s')" using run m Inr by simp
    have "bank_ok tabs u" "Q x (tabs (sh_store u))" using u Inr by (simp_all add: evolves_def)
    from orderlyD [OF assms(2) this f] show ?thesis using evolves_trans u by blast
  qed
qed

lemma orderly_pure:
  "(\<And>x. Q x = always) \<Longrightarrow> orderly tabs P (slift e) Q" "(\<And>x. Q x = always) \<Longrightarrow> orderly tabs P (sread f) Q"
  by (auto simp: orderly_def evolves_refl)

lemma orderly_sret: "(\<And>t. P t \<Longrightarrow> Q x t) \<Longrightarrow> orderly tabs P (sret x) Q"
  by (auto simp: orderly_def evolves_refl)

lemma orderly_read: "orderly tabs P (sread f) (\<lambda>_. P)" "orderly tabs P (slift e) (\<lambda>_. P)"
  by (auto simp: orderly_def evolves_refl)

lemma orderly_done: "orderly tabs P (sread f) (\<lambda>_. always)" "orderly tabs P (sret x) (\<lambda>_. always)"
  by (auto simp: orderly_def evolves_refl)

lemma orderly_reads:
  assumes "\<And>s x. f s = Inr x \<Longrightarrow> R x" "\<And>x. R x \<Longrightarrow> orderly tabs P (g x) Q"
  shows "orderly tabs P (sbind (sread f) g) Q"
proof (rule orderlyI)
  fix s r s'
  assume ok: "bank_ok tabs s" "P (tabs (sh_store s))" and run: "sbind (sread f) g s = (r, s')"
  show "evolves tabs s s' \<and> (\<forall>x. r = Inr x \<longrightarrow> Q x (tabs (sh_store s')))"
  proof (cases "f s")
    case (Inr b)
    then have "g b s = (r, s')" using run by (simp add: sbind_def)
    from orderlyD [OF assms(2) [OF assms(1) [OF Inr]] ok this] show ?thesis .
  qed (use run ok in \<open>auto simp: sbind_def evolves_refl\<close>)
qed

lemma orderly_weaken:
  "orderly tabs P m Q \<Longrightarrow> (\<And>t. P' t \<Longrightarrow> P t) \<Longrightarrow> (\<And>x t. Q x t \<Longrightarrow> Q' x t) \<Longrightarrow> orderly tabs P' m Q'"
  unfolding orderly_def by blast

lemma orderly_frame:
  assumes "orderly tabs P m Q"
  shows "orderly tabs (\<lambda>t. issued i t \<and> P t) m (\<lambda>x t. issued i t \<and> Q x t)"
  using assms issued_grows unfolding orderly_def evolves_def by blast

context backend_contract
begin

lemma commit_orderly:
  assumes "ev_backend V = B" "\<And>op. op \<in> set ops \<Longrightarrow> spares L op"
  shows "orderly tabs (\<lambda>t. \<forall>l\<in>L. issued l t) (on_store (bk_commit (ev_backend V) ops)) (\<lambda>_. always)"
proof (rule orderlyI)
  fix s r s'
  assume ok: "bank_ok tabs s" and L: "\<forall>l\<in>L. issued l (tabs (sh_store s))" and run: "on_store (bk_commit (ev_backend V) ops) s = (r, s')"
  obtain b where b: "bk_commit B ops (sh_store s) = (r, b)" "s' = s\<lparr>sh_store := b\<rparr>"
    using run by (auto simp: on_store_def assms(1) split: prod.splits)
  show "evolves tabs s s' \<and> (\<forall>x. r = Inr x \<longrightarrow> always (tabs (sh_store s')))"
  proof (cases r)
    case (Inl e)
    then show ?thesis using plain_commit_error_spec b evolves_same [OF ok] by simp
  next
    case (Inr x)
    have t: "tabs b = apply_ops (tabs (sh_store s)) ops" using plain_commit_spec b(1) Inr by blast
    note sp = spared [of ops L "tabs (sh_store s)", OF assms(2)]
    have "registry_ok (tabs b)" unfolding t by (rule sp(3)) (use ok L in \<open>auto simp: bank_ok_def issued_def\<close>)
    then show ?thesis using ok by (simp add: evolves_def bank_ok_def b(2) cached_def grows_def t sp(1,2))
  qed
qed

lemma locker_id_orderly:
  assumes V: "ev_backend V = B"
  shows "orderly tabs always (locker_id_of V name) (\<lambda>i t. issued i t \<and> registry t name = Some i)"
proof (rule orderlyI)
  fix s r s'
  assume ok: "bank_ok tabs s" and run: "locker_id_of V name s = (r, s')"
  let ?t = "tabs (sh_store s)"
  let ?goal = "evolves tabs s s' \<and> (\<forall>x. r = Inr x \<longrightarrow> issued x (tabs (sh_store s')) \<and> registry (tabs (sh_store s')) name = Some x)"
  have low: "registry ?t n = Some i \<Longrightarrow> issued i ?t" for n i using ok by (auto simp: bank_ok_def registry_ok_def issued_def)
  show ?goal
  proof (cases "cached s name")
    case (Some i)
    then have "registry ?t name = Some i" using ok by (simp add: bank_ok_def)
    then show ?thesis using run Some ok low by (auto simp: locker_id_of_def evolves_refl)
  next
    case None
    show ?thesis
    proof (cases "bk_get_many B (sh_store s) Meta [locker_key name, META_NEXT_LOCKER_ID]")
      case (Inl e)
      then show ?thesis using run None V ok by (auto simp: locker_id_of_def sbind_def evolves_refl)
    next
      case (Inr vs)
      have vs: "vs = [bt_lookup (tb_meta ?t) (locker_key name), bt_lookup (tb_meta ?t) META_NEXT_LOCKER_ID]"
        using get_many_spec [OF Inr] by simp
      show ?thesis
      proof (cases "bt_lookup (tb_meta ?t) (locker_key name)")
        case (Some raw)
        then have len: "length raw = 4" and reg: "registry ?t name = Some (from_be32 raw)"
          using ok by (auto simp: bank_ok_def registry_ok_def registry_def)
        have "r = Inr (from_be32 raw)" "s' = cache name (from_be32 raw) s"
          using run None V Inr vs Some len by (simp_all add: locker_id_of_def sbind_def u32_from_def)
        then show ?thesis using ok reg low by (auto simp: evolves_def bank_ok_def cache_def cached_def)
      next
        case none: None
        let ?nxt = "next_locker ?t"
        have nxt: "(case bt_lookup (tb_meta ?t) META_NEXT_LOCKER_ID of Some raw \<Rightarrow> u32_from raw ''next locker id'' | None \<Rightarrow> Inr 0) = Inr ?nxt"
          using ok by (auto simp: bank_ok_def registry_ok_def next_locker_def u32_from_def split: option.split)
        show ?thesis
        proof (cases "checked_succ ?nxt")
          case full: None
          then show ?thesis using run None V Inr vs none nxt ok by (auto simp: locker_id_of_def sbind_def evolves_refl)
        next
          case (Some j)
          obtain a b where b: "bk_commit B (register_ops name ?nxt j) (sh_store s) = (a, b)" by fastforce
          show ?thesis
          proof (cases a)
            case bad: (Inl e)
            then have "r = Inl e" "s' = s\<lparr>sh_store := b\<rparr>"
              using run None V Inr vs none nxt Some b by (simp_all add: locker_id_of_def sbind_def on_store_def)
            then show ?thesis using plain_commit_error_spec b bad evolves_same [OF ok] by simp
          next
            case good: (Inr u)
            then have r: "r = Inr ?nxt" "s' = cache name ?nxt (s\<lparr>sh_store := b\<rparr>)"
              using run None V Inr vs none nxt Some b by (simp_all add: locker_id_of_def sbind_def on_store_def)
            have t: "tabs b = apply_ops ?t (register_ops name ?nxt j)" using plain_commit_spec b good by blast
            have ok': "registry_ok ?t" "registry ?t name = None" using ok none by (simp_all add: bank_ok_def registry_def)
            note reg = registered [OF ok' Some t]
            have "issued ?nxt (tabs b)" using checked_succ_less [OF Some] reg(2) by (simp add: issued_def)
            then show ?thesis using ok r reg by (auto simp: evolves_def bank_ok_def cache_def cached_def)
          qed
        qed
      qed
    qed
  qed
qed

lemma meta_put_orderly:
  assumes "ev_backend V = B" "k \<noteq> META_NEXT_LOCKER_ID" "\<And>n. k \<noteq> locker_key n" "typed Meta k v"
  shows "orderly tabs P (on_store (bk_commit (ev_backend V) [Op_Put Meta k v])) (\<lambda>_. always)"
  by (rule orderly_weaken [OF commit_orderly [OF assms(1), where L = "{}"]]) (use assms(2-) in \<open>auto simp: spares_def\<close>)

lemma bind_schema_orderly:
  fixes V :: "('b, 'q) env"
  shows "ev_backend V = B \<Longrightarrow> orderly tabs P (bind_schema V i tag :: (('b, 'q, 'v) bank, error, unit) act) (\<lambda>_. always)"
proof (rule orderlyI)
  fix s :: "('b, 'q, 'v) bank" and r s'
  assume V: "ev_backend V = B" and ok: "bank_ok tabs s" "P (tabs (sh_store s))" and run: "bind_schema V i tag s = (r, s')"
  show "evolves tabs s s' \<and> (\<forall>x. r = Inr x \<longrightarrow> always (tabs (sh_store s')))"
  proof (cases "bk_get (ev_backend V) (sh_store s) Meta (schema_key i) = Inr None")
    case True
    then have "on_store (bk_commit (ev_backend V) [Op_Put Meta (schema_key i) (as_bytes tag)]) s = (r, s')"
      using run by (simp add: bind_schema_def)
    from orderlyD [OF meta_put_orderly [OF V, where P = P] ok this] show ?thesis by simp
  next
    case False
    then have "s' = s" using run by (auto simp: bind_schema_def split: sum.splits option.splits)
    then show ?thesis using evolves_refl [OF ok(1)] by simp
  qed
qed

lemma bind_chain_orderly:
  fixes V :: "('b, 'q) env"
  shows "ev_backend V = B \<Longrightarrow> orderly tabs P (bind_chain V i ch pre) (\<lambda>_. always)"
proof (rule orderlyI)
  fix s :: "('b, 'q, 'v) bank" and r s'
  assume V: "ev_backend V = B" and ok: "bank_ok tabs s" "P (tabs (sh_store s))" and run: "bind_chain V i ch pre s = (r, s')"
  show "evolves tabs s s' \<and> (\<forall>x. r = Inr x \<longrightarrow> always (tabs (sh_store s')))"
  proof (cases "s' = s")
    case False
    then obtain adopted where "on_store (bk_commit (ev_backend V) [Op_Put Meta (chain_key i) [adopted]]) s = (r, s')"
      using run by (auto simp: bind_chain_def Let_def split: sum.splits option.splits if_splits)
    from orderlyD [OF meta_put_orderly [OF V, where P = P] ok this] show ?thesis by simp
  qed (use evolves_refl [OF ok(1)] in simp)
qed

text \<open>What every open and every call of the byte interface begins with.\<close>

lemma prepare_orderly:
  fixes V :: "('b, 'q) env"
  assumes V: "ev_backend V = B"
  shows "orderly tabs always (prepare V tag name ch :: (('b, 'q, 'v) bank, error, locker_id) act) issued"
proof -
  have schema: "orderly tabs (issued i) (bind_schema V i tag :: (('b, 'q, 'v) bank, error, unit) act) (\<lambda>_. issued i)" for i
    by (rule orderly_weaken [OF orderly_frame [OF bind_schema_orderly [OF V, where P = always], of i]]) simp_all
  have chain: "orderly tabs (issued i) (bind_chain V i ch pre :: (('b, 'q, 'v) bank, error, unit) act) (\<lambda>_. issued i)" for i pre
    by (rule orderly_weaken [OF orderly_frame [OF bind_chain_orderly [OF V, where P = always], of i]]) simp_all
  have "orderly tabs (issued i) (sbind (bind_schema V i tag)
      (\<lambda>_. sbind (bind_chain V i ch pre) (\<lambda>_. sret i)) :: (('b, 'q, 'v) bank, error, locker_id) act) issued" for i pre
    by (rule orderly_sbind [OF schema], rule orderly_sbind [OF chain], rule orderly_sret)
  moreover have "orderly tabs always (locker_id_of V name :: (('b, 'q, 'v) bank, error, locker_id) act) issued"
    by (rule orderly_weaken [OF locker_id_orderly [OF V]]) simp_all
  ultimately have "orderly tabs always (sbind (locker_id_of V name) (\<lambda>i. sbind (bind_schema V i tag)
      (\<lambda>_. sbind (bind_chain V i ch pre) (\<lambda>_. sret i))) :: (('b, 'q, 'v) bank, error, locker_id) act) issued" for pre
    by (rule orderly_sbind [rotated])
  then show ?thesis unfolding prepare_def by (rule orderly_sbind [OF orderly_read(1)])
qed

lemma raw_orderly:
  fixes V :: "('b, 'q) env" and f :: "locker_id \<Rightarrow> (('b, 'q, 'v) bank, error, 'a) act"
  assumes V: "ev_backend V = B" and f: "\<And>i. orderly tabs (issued i) (f i) (\<lambda>_. always)"
  shows "orderly tabs always (sbind (raw_locker V name) f) (\<lambda>_. always)"
proof (rule orderly_sbind [OF _ f])
  show "orderly tabs always (raw_locker V name) issued"
    using prepare_orderly [OF V, of "type_tag (ev_vec_u8 V)" name] unfolding orderly_def raw_locker_def by blast
qed

lemma commit_one_orderly:
  fixes V :: "('b, 'q) env"
  assumes V: "ev_backend V = B" and ops: "\<And>op. op \<in> set ops \<Longrightarrow> spares {i} op"
  shows "orderly tabs (issued i) (on_store (bk_commit (ev_backend V) ops)) (\<lambda>_. always)"
  by (rule orderly_weaken [OF commit_orderly [OF V ops]]) simp_all

lemma spares_records [simp]:
  "spares {i} (Op_Put Records (encode i k) v)" "spares {i} (Op_Delete Records k)" "spares {i} (Op_DeleteRange Records r)"
  "spares {i} (Op_DeleteRange Chunks r)"
  by (auto simp: spares_def encode_def)

lemma raw_calls_orderly:
  fixes V :: "('b, 'q) env"
  assumes V: "ev_backend V = B"
  shows "orderly tabs always (raw_get V name k :: (('b, 'q, 'v) bank, error, bytes option) act) (\<lambda>_. always)"
    and "orderly tabs always (raw_put V name k v :: (('b, 'q, 'v) bank, error, unit) act) (\<lambda>_. always)"
    and "orderly tabs always (raw_delete V name k :: (('b, 'q, 'v) bank, error, unit) act) (\<lambda>_. always)"
    and "orderly tabs always (raw_clear V name :: (('b, 'q, 'v) bank, error, unit) act) (\<lambda>_. always)"
    and "orderly tabs always (raw_keys V name p :: (('b, 'q, 'v) bank, error, bytes list) act) (\<lambda>_. always)"
    and "orderly tabs always (raw_get_many V name ks :: (('b, 'q, 'v) bank, error, bytes option list) act) (\<lambda>_. always)"
    and "orderly tabs always (raw_put_all V name es :: (('b, 'q, 'v) bank, error, unit) act) (\<lambda>_. always)"
    and "orderly tabs always (raw_delete_all V name ks :: (('b, 'q, 'v) bank, error, unit) act) (\<lambda>_. always)"
    and "orderly tabs always (raw_entries V name p :: (('b, 'q, 'v) bank, error, (bytes \<times> bytes) list) act) (\<lambda>_. always)"
    and "orderly tabs always (raw_contains_key V name k :: (('b, 'q, 'v) bank, error, bool) act) (\<lambda>_. always)"
    and "orderly tabs always (raw_len V name :: (('b, 'q, 'v) bank, error, nat) act) (\<lambda>_. always)"
  unfolding raw_get_def raw_put_def raw_delete_def raw_clear_def raw_keys_def raw_get_many_def raw_put_all_def
    raw_delete_all_def raw_entries_def raw_contains_key_def raw_len_def
proof -
  note read = raw_orderly [OF V orderly_done(1)] and commit = commit_one_orderly [OF V]
  show "orderly tabs always (sbind (raw_locker V name) (\<lambda>i. sbind (sread (\<lambda>s. value_encode (ev_vec_u8 V) v (bn_chain s)))
      (\<lambda>sealed. on_store (bk_commit (ev_backend V) [Op_Put Records (encode i k) sealed])))
      :: (('b, 'q, 'v) bank, error, unit) act) (\<lambda>_. always)"
    by (rule raw_orderly [OF V], rule orderly_reads [where R = "\<lambda>_. True"], simp, rule commit) auto
  show "orderly tabs always (if es = [] then sret () else sbind (raw_locker V name) (\<lambda>i.
        sbind (sread (\<lambda>s. mapM_r (\<lambda>(key, v).
            rbind (value_encode (ev_vec_u8 V) v (bn_chain s)) (\<lambda>sealed. Inr (Op_Put Records (encode i key) sealed))) es))
          (\<lambda>ops. on_store (bk_commit (ev_backend V) ops)))
      :: (('b, 'q, 'v) bank, error, unit) act) (\<lambda>_. always)"
  proof -
    have "orderly tabs (issued i) (sbind (sread (\<lambda>s. mapM_r (\<lambda>(key, v).
            rbind (value_encode (ev_vec_u8 V) v (bn_chain s)) (\<lambda>sealed. Inr (Op_Put Records (encode i key) sealed))) es))
          (\<lambda>ops. on_store (bk_commit (ev_backend V) ops)) :: (('b, 'q, 'v) bank, error, unit) act) (\<lambda>_. always)" for i
    proof (rule orderly_reads [where R = "\<lambda>ops. \<forall>op\<in>set ops. spares {i} op"])
      show "\<forall>op\<in>set ops. spares {i} op" if "mapM_r (\<lambda>(key, v).
            rbind (value_encode (ev_vec_u8 V) v (bn_chain s)) (\<lambda>sealed. Inr (Op_Put Records (encode i key) sealed))) es = Inr ops"
        for ops and s :: "('b, 'q, 'v) bank"
        using that by (induction es arbitrary: ops) (auto simp: rbind_eq_Inr_iff)
    qed (rule commit, blast)
    from raw_orderly [OF V this] show ?thesis by (auto intro: orderly_done(2))
  qed
qed (auto intro!: raw_orderly [OF V] orderly_done commit_one_orderly [OF V])

text \<open>Deleting a locker, and the rest of maintenance.\<close>

lemma forget_ops:
  assumes ok: "registry_ok t" and t': "t' = apply_ops t (ops @ [Op_Delete Meta (locker_key name), Op_Delete Meta (schema_key i)])"
    and ops: "\<And>op. op \<in> set ops \<Longrightarrow> spares {} op"
  shows "registry t' = (registry t)(name := None)" "next_locker t' = next_locker t" "registry_ok t'" "grows t t'"
proof -
  let ?u = "apply_ops t ops" and ?del = "[Op_Delete Meta (locker_key name), Op_Delete Meta (schema_key i)]"
  have t'': "t' = apply_ops ?u ?del" by (simp add: t' apply_ops_def)
  have u: "registry ?u = registry t" "next_locker ?u = next_locker t" "registry_ok ?u"
    using spared [of ops "{}" t, OF ops] ok by auto
  have meta: "bt_lookup (tb_meta t') k = (if k = locker_key name \<or> k = schema_key i then None else bt_lookup (tb_meta ?u) k)" for k
    using lookup_apply_ops [of ?u ?del Meta k] by (simp add: t'' last_said_def List.map_filter_simps)
  have recs: "bt_lookup (tb_records t') k = bt_lookup (tb_records ?u) k" for k
    using lookup_apply_ops [of ?u ?del Records k] by (simp add: t'' last_said_def List.map_filter_simps)
  show reg: "registry t' = (registry t)(name := None)" by (auto simp: u(1) [symmetric] registry_def meta fun_eq_iff)
  have "next_locker t' = next_locker ?u" by (simp add: next_locker_def meta)
  then show nxt: "next_locker t' = next_locker t" using u(2) by simp
  have "well_typed t'"
    unfolding t'' by (rule well_typed_apply) (use u(3) in \<open>auto simp: registry_ok_def\<close>)
  then show "registry_ok t'"
    using u(3) unfolding registry_ok_def reg nxt recs u(1,2) by (auto simp: meta split: if_splits)
  show "grows t t'" by (simp add: grows_def reg nxt)
qed

lemma clear_ops_spare:
  assumes "clear_value_ops X b = Inr ops" "cx_backend X = B" "op \<in> set ops"
  shows "spares {} op"
  using clear_value_ops_spec [OF assms(1,2)] assms(3) by (auto simp: spares_def gc_ops_def clear_op_def split: if_splits)

lemma prune_bank [simp]: "bank_ok tabs (prune s) = bank_ok tabs s" "sh_store (prune s) = sh_store s" "bn_registry (prune s) = bn_registry s"
  "bn_cells (prune s) = bn_cells s"
  by (simp_all add: prune_def bank_ok_def cached_def)

lemma forget_orderly:
  fixes V :: "('b, 'q) env"
  assumes V: "ev_backend V = B" and ops: "\<And>op. op \<in> set ops \<Longrightarrow> spares {} op"
  shows "orderly tabs always (sbind (on_store (bk_commit (ev_backend V)
      (ops @ [Op_Delete Meta (locker_key name), Op_Delete Meta (schema_key i)]))) (\<lambda>_.
    sbind (smod (\<lambda>s. s\<lparr>bn_registry := bt_remove name (bn_registry s), bn_open := bt_remove name (bn_open s)\<rparr>)) (\<lambda>_.
      sret True)) :: (('b, 'q, 'v) bank, error, bool) act) (\<lambda>_. always)"
proof (rule orderlyI)
  let ?ops = "ops @ [Op_Delete Meta (locker_key name), Op_Delete Meta (schema_key i)]"
  fix s :: "('b, 'q, 'v) bank" and r s'
  assume ok: "bank_ok tabs s" and run: "sbind (on_store (bk_commit (ev_backend V) ?ops)) (\<lambda>_.
    sbind (smod (\<lambda>s. s\<lparr>bn_registry := bt_remove name (bn_registry s), bn_open := bt_remove name (bn_open s)\<rparr>)) (\<lambda>_.
      sret True)) s = (r, s')"
  obtain c b where c: "bk_commit B ?ops (sh_store s) = (c, b)" by fastforce
  have "evolves tabs s s'"
  proof (cases c)
    case (Inl e)
    then have "s' = s\<lparr>sh_store := b\<rparr>" using run c V by (simp add: sbind_def on_store_def)
    then show ?thesis using evolves_same [OF ok, of s'] plain_commit_error_spec c Inl by simp
  next
    case (Inr x)
    then have s': "s' = s\<lparr>sh_store := b, bn_registry := bt_remove name (bn_registry s), bn_open := bt_remove name (bn_open s)\<rparr>"
      using run c V by (simp add: sbind_def on_store_def)
    have t: "tabs b = apply_ops (tabs (sh_store s)) ?ops" using plain_commit_spec c Inr by blast
    note f = forget_ops [OF _ t ops]
    show ?thesis using ok f by (auto simp: evolves_def bank_ok_def s' cached_def)
  qed
  then show "evolves tabs s s' \<and> (\<forall>x. r = Inr x \<longrightarrow> always (tabs (sh_store s')))" by simp
qed

lemma orderly_prune: "orderly tabs P m Q \<Longrightarrow> orderly tabs P (\<lambda>s. m (prune s)) Q"
proof (rule orderlyI)
  fix s r s'
  assume m: "orderly tabs P m Q" and ok: "bank_ok tabs s" "P (tabs (sh_store s))" and run: "m (prune s) = (r, s')"
  have "bank_ok tabs (prune s)" "P (tabs (sh_store (prune s)))" using ok by simp_all
  from orderlyD [OF m this run] show "evolves tabs s s' \<and> (\<forall>x. r = Inr x \<longrightarrow> Q x (tabs (sh_store s')))"
    by (simp add: evolves_def)
qed

lemma delete_locker_orderly:
  fixes V :: "('b, 'q) env"
  assumes V: "ev_backend V = B"
  shows "orderly tabs always (delete_locker V name :: (('b, 'q, 'v) bank, error, bool) act) (\<lambda>_. always)"
proof -
  let ?erase = "\<lambda>i. sbind (sread (\<lambda>s. locker_chain_or_bank V s i)) (\<lambda>ch.
      sbind (sread (\<lambda>s. clear_value_ops (maintenance_ctx V i name ch) (sh_store s))) (\<lambda>ops.
      sbind (on_store (bk_commit (ev_backend V) (ops @ [Op_Delete Meta (locker_key name), Op_Delete Meta (schema_key i)]))) (\<lambda>_.
      sbind (smod (\<lambda>s. s\<lparr>bn_registry := bt_remove name (bn_registry s), bn_open := bt_remove name (bn_open s)\<rparr>)) (\<lambda>_.
        sret True)))) :: (('b, 'q, 'v) bank, error, bool) act"
  have erase: "orderly tabs always (?erase i) (\<lambda>_. always)" for i
  proof (rule orderly_reads [where R = "\<lambda>_. True"], simp, rule orderly_reads [where R = "\<lambda>ops. \<forall>op\<in>set ops. spares {} op"])
    show "\<forall>op\<in>set ops. spares {} op" if "clear_value_ops (maintenance_ctx V i name ch) (sh_store s) = Inr ops" for s :: "('b, 'q, 'v) bank" and ch ops
      using clear_ops_spare [OF that] by (simp add: maintenance_ctx_def locker_ctx_def V)
  qed (rule forget_orderly [OF V], blast)
  have "orderly tabs always (sbind (sread (\<lambda>s. locker_exists V s name)) (\<lambda>ex.
      if \<not> ex then sret False else sbind (locker_id_of V name) ?erase) :: (('b, 'q, 'v) bank, error, bool) act) (\<lambda>_. always)"
  proof (rule orderly_reads [where R = "\<lambda>_. True"])
    show "orderly tabs always (if \<not> ex then sret False else sbind (locker_id_of V name) ?erase) (\<lambda>_. always)" for ex
      using orderly_sbind [OF orderly_weaken [OF locker_id_orderly [OF V], where P' = always and Q' = "\<lambda>_. always"] erase]
      by (auto intro: orderly_done)
  qed simp
  from orderly_prune [OF this] show ?thesis
    unfolding orderly_def delete_locker_def is_locker_open_def Let_def
    by (auto simp: evolves_same split: if_splits)
qed

end

end
