(* ===== verification/Budgets.thy ===== *)
theory Budgets
  imports Batches
begin

text \<open>
  The byte budget of a commit on top of its write-set: the accounting operations write the meta table
  only, and the operations that shed the victims delete exactly the victims. So a commit with a budget
  is its write-set followed by the deletion of the victims, none of which it writes.
\<close>

section \<open>Accounting operations\<close>

definition meta_only :: "bop \<Rightarrow> bool" where
  "meta_only op \<longleftrightarrow> (\<forall>y. op_says Records y op = None \<and> op_says Chunks y op = None)
     \<and> op_says Meta next_value_id_key op = None"

lemma entry_key_not_counter [simp]: "entry_key i k \<noteq> next_value_id_key"
  by (simp add: entry_key_def locker_prefix_def LRU_PREFIX_def next_value_id_key_def as_bytes_def)

lemma other_meta_keys [simp]:
  "META_NEXT_TICK \<noteq> next_value_id_key" "\<not> prefix (locker_prefix i) next_value_id_key"
  by (simp_all add: META_NEXT_TICK_def next_value_id_key_def as_bytes_def locker_prefix_def LRU_PREFIX_def)

lemma meta_only_simps [simp]:
  "meta_only (lru_put_op i k e)" "meta_only (lru_delete_op i k)" "meta_only (lru_clear_op i)"
  "meta_only (tick_counter_op t)"
  by (auto simp: meta_only_def lru_put_op_def lru_delete_op_def lru_clear_op_def tick_counter_op_def)

lemma becomes_meta:
  assumes "owned t" "below t (stored_counter t)" "\<forall>op\<in>set ops. meta_only op"
  shows "becomes ch t (apply_ops t ops) Map.empty" "stored_counter (apply_ops t ops) = stored_counter t"
proof -
  have keep: "keeps t (apply_ops t ops) y" for y
    by (rule keeps_silent) (use assms(3) in \<open>auto simp: meta_only_def\<close>)
  show counter: "stored_counter (apply_ops t ops) = stored_counter t"
    by (rule stored_counter_silent) (use assms(3) in \<open>auto simp: meta_only_def\<close>)
  have "bt_lookup (tables_get (apply_ops t ops) Chunks) k = bt_lookup (tables_get t Chunks) k" for k
    by (rule lookup_silent) (use assms(3) in \<open>auto simp: meta_only_def\<close>)
  then have "stored_chunk_keys (apply_ops t ops) = stored_chunk_keys t" by auto
  then have "no_orphans (apply_ops t ops) = no_orphans t"
    using points_keeps [OF keep] by (simp only: no_orphans_def)
  then show "becomes ch t (apply_ops t ops) Map.empty"
    using assms(1,2) keep counter points_keeps [OF keep]
    by (simp add: becomes_def owned_def below_def derived_def)
qed

lemma batch_meta:
  assumes "batch_inv t0 t nxt todo" "\<forall>op\<in>set ops. meta_only op"
  shows "becomes ch t (apply_ops t ops) Map.empty" "batch_inv t0 (apply_ops t ops) nxt todo"
proof -
  have good: "owned t" "below t (stored_counter t)" using assms(1) by (simp_all add: batch_inv_def)
  note m = becomes_meta [OF good assms(2)]
  show "becomes ch t (apply_ops t ops) Map.empty" by (rule m(1))
  show "batch_inv t0 (apply_ops t ops) nxt todo"
    using batch_inv_step [OF assms(1) m(1), where nxt' = nxt] m(2) assms by (simp add: batch_inv_def)
qed

lemma pending_ops_meta: "\<forall>op\<in>set (snd (pending_ops l i skip)). meta_only op"
proof -
  have step: "\<forall>op\<in>set (snd (pending_step i skip E acc p)). meta_only op" if "\<forall>op\<in>set (snd acc). meta_only op" for E acc p
    using that by (auto simp: pending_step_def split: prod.splits option.splits)
  have "\<forall>op\<in>set (snd (foldl (pending_step i skip E) acc ps)). meta_only op"
    if "\<forall>op\<in>set (snd acc). meta_only op" for E acc ps
    using that
  proof (induction ps arbitrary: acc)
    case (Cons p ps)
    show ?case using Cons.IH [OF step [OF Cons.prems]] by simp
  qed simp
  from this [of "([], [])"] show ?thesis
    by (simp add: pending_ops_def)
qed

section \<open>Victims\<close>

lemma plan_avoids_keep: "set (pl_victims (lru_plan s updates removals cleared budget keep)) \<inter> set keep = {}"
proof -
  have keys: "set (pl_victims (evict_loop bud tot vs cs)) \<subseteq> set vs \<union> (\<lambda>(t, k, n). k) ` set cs" for bud tot vs cs
    by (induction bud tot vs cs rule: evict_loop.induct) auto
  have "k \<notin> set keep" if "(t, k, n) \<in> set (plan_candidates s updates removals cleared keep)" for t k n
    using that by (auto simp: plan_candidates_def split: if_splits)
  then show ?thesis
    using keys [of budget "planned_total s updates removals cleared" "[]"]
    by (fastforce simp: lru_plan_def Let_def split: if_splits)
qed

definition evict_writes :: "locker_id \<Rightarrow> bytes list \<Rightarrow> write_map" where
  "evict_writes l vs x = (case decode_bytes l x of Inr k \<Rightarrow> if k \<in> set vs then Some None else None | Inl _ \<Rightarrow> None)"

lemma evict_writes_simps [simp]:
  "evict_writes l [] = Map.empty"
  "evict_writes l vs (encode_bytes l k) = (if k \<in> set vs then Some None else None)"
  "puts_of (evict_writes l vs) = {}"
  by (auto simp: evict_writes_def fun_eq_iff puts_of_def split: sum.splits if_splits)

lemma evict_writes_Cons: "[encode_bytes l v \<mapsto> None] ++ evict_writes l vs = evict_writes l (v # vs)"
proof
  fix x
  show "([encode_bytes l v \<mapsto> None] ++ evict_writes l vs) x = evict_writes l (v # vs) x"
    by (cases "decode_bytes l x") (auto simp: evict_writes_def map_add_def decode_bytes_Inr_iff)
qed

context backend_contract
begin

lemma victim_becomes:
  assumes ops: "delete_value_ops X b v Prior_Unknown = Inr ops" and B: "cx_backend X = B"
    and t0: "t0 = tabs b" "vals_ok n0 t0" and inv: "batch_inv t0 t nxt todo" "encode_key X v \<in> todo"
  shows "becomes ch t (apply_ops t (ops @ [lru_delete_op (cx_id X) v])) [encode_key X v \<mapsto> None]
    \<and> batch_inv t0 (apply_ops t (ops @ [lru_delete_op (cx_id X) v])) nxt todo"
proof -
  obtain gc where gc: "gc_existing X b v Prior_Unknown = Inr gc" and ops': "ops = gc @ [Op_Delete Records (encode_key X v)]"
    using ops unfolding delete_value_ops_def delete_op_def rbind_eq_Inr_iff by blast
  have "ops = map gc_ops (if needs_read Prior_Unknown then record_pointers t0 (encode_key X v) else [])
      @ [Op_Delete Records (encode_key X v)]"
    using gc_existing_spec [OF gc B] by (simp add: ops' t0(1))
  from delete_becomes [OF this t0(2) inv]
  have d: "becomes ch t (apply_ops t ops) [encode_key X v \<mapsto> None]" "batch_inv t0 (apply_ops t ops) nxt todo"
    by (simp_all add: prior_true_def needs_read_def)
  have only: "\<forall>op\<in>set [lru_delete_op (cx_id X) v]. meta_only op" by simp
  note m = batch_meta [OF d(2) only]
  show ?thesis
    using becomes_trans [OF d(1) m(1)] m(2) by simp
qed

lemma victims_become:
  assumes "mapM_r (\<lambda>v. rbind (delete_value_ops X b v Prior_Unknown) (\<lambda>ops. Inr (ops @ [lru_delete_op (cx_id X) v]))) vs = Inr opss"
    and "cx_backend X = B" "t0 = tabs b" "vals_ok n0 t0" "batch_inv t0 t nxt todo" "encode_key X ` set vs \<subseteq> todo"
  shows "becomes ch t (apply_ops t (concat opss)) (evict_writes (cx_id X) vs)
    \<and> batch_inv t0 (apply_ops t (concat opss)) nxt todo"
  using assms
proof (induction vs arbitrary: t opss)
  case Nil
  then show ?case by (auto simp: batch_inv_def intro: becomes_refl)
next
  case (Cons v vs)
  obtain ops rest where ops: "delete_value_ops X b v Prior_Unknown = Inr ops"
    and rest: "mapM_r (\<lambda>v. rbind (delete_value_ops X b v Prior_Unknown) (\<lambda>ops. Inr (ops @ [lru_delete_op (cx_id X) v]))) vs = Inr rest"
    and opss: "opss = (ops @ [lru_delete_op (cx_id X) v]) # rest"
    using Cons.prems(1) by (auto simp: rbind_eq_Inr_iff)
  have v: "encode_key X v \<in> todo" "encode_key X ` set vs \<subseteq> todo" using Cons.prems(6) by auto
  note step = victim_becomes [OF ops Cons.prems(2-5) v(1), where ch = ch]
  note IH = Cons.IH [OF rest Cons.prems(2-4) conjunct2 [OF step] v(2)]
  show ?case
    using becomes_trans [OF conjunct1 [OF step] conjunct1 [OF IH]] conjunct2 [OF IH]
    by (simp add: opss encode_key_eq evict_writes_Cons)
qed

end

section \<open>What a budget leaves alone\<close>

text \<open>Everything but the clock and the accounting.\<close>

definition same_core :: "('b, 'q, 'z) resident_scheme \<Rightarrow> ('b, 'q, 'z) resident_scheme \<Rightarrow> bool" where
  "same_core s s' \<longleftrightarrow> (\<exists>ticks lru. s' = s\<lparr>sh_ticks := ticks, rs_lru := lru\<rparr>)"

lemma same_core_updates:
  "same_core s (s\<lparr>sh_ticks := ticks\<rparr>)" "same_core s (on_lru f s)"
proof -
  have "s\<lparr>sh_ticks := ticks\<rparr> = s\<lparr>sh_ticks := ticks, rs_lru := rs_lru s\<rparr>" by simp
  then show "same_core s (s\<lparr>sh_ticks := ticks\<rparr>)" unfolding same_core_def by blast
  have "on_lru f s = s\<lparr>sh_ticks := sh_ticks s, rs_lru := map_option f (rs_lru s)\<rparr>" by (simp add: on_lru_def)
  then show "same_core s (on_lru f s)" unfolding same_core_def by blast
qed

lemma same_core_refl [simp]: "same_core s s"
  using same_core_updates(1) [of s "sh_ticks s"] by simp

lemma same_core_trans: "same_core s u \<Longrightarrow> same_core u v \<Longrightarrow> same_core s v"
  unfolding same_core_def by (elim exE) (simp, blast)

lemma same_core_fields:
  assumes "same_core s s'"
  shows "sh_store s' = sh_store s" "sh_values s' = sh_values s" "sh_coherence s' = sh_coherence s"
    "in_closed s' = in_closed s" "in_name_shared s' = in_name_shared s" "in_epochs s' = in_epochs s"
    "in_watchers s' = in_watchers s" "rs_mode s' = rs_mode s" "rs_index s' = rs_index s"
    "rs_staged s' = rs_staged s" "rs_known_inline s' = rs_known_inline s"
  using assms by (auto simp: same_core_def)

definition core_only :: "(('b, 'q, 'z) resident_scheme, error, 'a) act \<Rightarrow> bool" where
  "core_only m \<longleftrightarrow> (\<forall>s. same_core s (snd (m s)))"

lemma core_onlyI: "(\<And>s. same_core s (snd (m s))) \<Longrightarrow> core_only m"
  by (simp add: core_only_def)

lemma core_only_app: "core_only m \<Longrightarrow> same_core s (snd (m s))"
  by (simp add: core_only_def)

lemma core_only_sbind:
  assumes "core_only m" "\<And>x. core_only (f x)"
  shows "core_only (sbind m f)"
proof (rule core_onlyI)
  fix s
  have "same_core s (snd (m s))" using assms(1) by (simp add: core_only_def)
  moreover have "same_core u (snd (f x u))" for x u using assms(2) by (simp add: core_only_def)
  ultimately show "same_core s (snd (sbind m f s))"
    by (auto simp: sbind_def split: prod.splits sum.splits intro: same_core_trans)
qed

lemma core_only_simps [simp]:
  "core_only (smod (on_lru f))" "core_only (slift r)" "core_only (sret x)" "core_only (sread g)"
  by (simp_all add: core_only_def same_core_updates)

lemma core_only_on_ticks: "core_only (\<lambda>s. on_ticks (m s) s)"
  by (rule core_onlyI) (simp add: on_ticks_def same_core_updates split: prod.splits)

lemma core_only_next_tick [simp]: "core_only (next_tick X)"
  using core_only_on_ticks [of "\<lambda>s. tick_allocate (cx_backend X) (sh_store s)"] by (simp add: next_tick_def [abs_def])

lemma core_only_reload [simp]:
  fixes X :: "('b, 'q) ctx"
  shows "core_only (reload_lru_if_dirty X :: (('b, 'q, 'z) resident_scheme, error, unit) act)"
proof (rule core_onlyI)
  fix s :: "('b, 'q, 'z) resident_scheme"
  have "core_only (sbind (\<lambda>s. on_ticks (lru_load (cx_backend X) (sh_store s) (cx_id X) m) s)
      (\<lambda>loaded. smod (on_lru (adopt_loaded loaded))))" for m
    by (intro core_only_sbind core_only_on_ticks) simp
  then show "same_core s (snd (reload_lru_if_dirty X s))"
    by (auto simp: reload_lru_if_dirty_def core_only_def sbind_def split: option.splits)
qed

lemma core_only_note_read:
  fixes X :: "('b, 'q) ctx"
  shows "core_only (note_read X key :: (('b, 'q, 'z) resident_scheme, error, unit) act)"
proof (rule core_onlyI)
  fix s :: "('b, 'q, 'z) resident_scheme"
  have "core_only (sbind (next_tick X) (\<lambda>tick. smod (on_lru (touch key tick)))
      :: (('b, 'q, 'z) resident_scheme, error, unit) act)"
    by (intro core_only_sbind) simp_all
  then show "same_core s (snd (note_read X key s))"
    by (cases "rs_lru s = None") (simp_all add: note_read_def core_only_def)
qed

lemma core_only_budget:
  fixes X :: "('b, 'q) ctx"
  shows "core_only (budget_ops X ops updates removals cleared keep :: (('b, 'q, 'z) resident_scheme, error, budget \<times> bop list) act)"
proof (rule core_onlyI)
  fix s :: "('b, 'q, 'z) resident_scheme"
  show "same_core s (snd (budget_ops X ops updates removals cleared keep s))"
  proof (cases "rs_lru s = None")
    case False
    show ?thesis
      unfolding budget_ops_def if_not_P [OF False]
      by (rule core_only_app, intro core_only_sbind core_only_reload core_only_next_tick core_onlyI)
        (simp add: Let_def split: option.split prod.split)
  qed (simp add: budget_ops_def)
qed

lemma budget_ops_cases:
  assumes "budget_ops X ops updates removals cleared keep s = (Inr (bg, ops'), s')"
  obtains (unlimited) "bg = budget_default" "ops' = ops"
  | (limited) l us pre vops where "rs_lru s \<noteq> None"
      "bg_plan bg = lru_plan l us removals cleared (lr_max_bytes l) keep" "\<forall>op\<in>set pre. meta_only op"
      "victim_ops X (sh_store s) (pl_victims (bg_plan bg)) = Inr vops" "ops' = ops @ pre @ vops @ [tick_counter_op (sh_ticks s')]"
proof (cases "rs_lru s = None")
  case True
  then show thesis using assms by (intro unlimited) (simp_all add: budget_ops_def)
next
  case False
  obtain u s1 s2 tick where s1: "reload_lru_if_dirty X s = (Inr u, s1)" and s2: "next_tick X s1 = (Inr tick, s2)"
    and rest: "(case rs_lru s2 of
            None \<Rightarrow> (Inr (budget_default, ops), s2)
          | Some l \<Rightarrow>
              let updates = map (\<lambda>(key, n). (key, \<lparr>en_tick = tick, en_bytes = n\<rparr>)) updates;
                  p = lru_plan l updates removals cleared (lr_max_bytes l) keep;
                  (pend, pend_ops) =
                    (if cleared then ([], []) else pending_ops l (cx_id X) (map fst updates));
                  ops = ops @ (if cleared then [lru_clear_op (cx_id X)] else [])
                        @ map (\<lambda>(key, e). lru_put_op (cx_id X) key e) updates
                        @ pend_ops
                        @ map (lru_delete_op (cx_id X)) removals
              in (rbind (victim_ops X (sh_store s2) (pl_victims p)) (\<lambda>vops.
                    Inr (\<lparr>bg_updates = updates, bg_removals = removals, bg_cleared = cleared, bg_plan = p,
                          bg_pending = pend\<rparr>,
                         ops @ vops @ [tick_counter_op (sh_ticks s2)])), s2)) = (Inr (bg, ops'), s')"
    using assms unfolding budget_ops_def if_not_P [OF False] sbind_eq_Inr_iff by blast
  have "same_core s s1" "same_core s1 s2"
    using core_only_app [OF core_only_reload, of s X] core_only_app [OF core_only_next_tick, of s1 X] s1 s2 by simp_all
  then have store: "sh_store s2 = sh_store s" by (simp add: same_core_fields)
  show thesis
  proof (cases "rs_lru s2")
    case None
    then show thesis using rest by (intro unlimited) simp_all
  next
    case (Some l)
    let ?us = "map (\<lambda>(key, n). (key, \<lparr>en_tick = tick, en_bytes = n\<rparr>)) updates"
    obtain pend pend_ops where pend: "(if cleared then ([], []) else pending_ops l (cx_id X) (map fst ?us)) = (pend, pend_ops)"
      by fastforce
    let ?pre = "(if cleared then [lru_clear_op (cx_id X)] else []) @ map (\<lambda>(key, e). lru_put_op (cx_id X) key e) ?us
      @ pend_ops @ map (lru_delete_op (cx_id X)) removals"
    let ?p = "lru_plan l ?us removals cleared (lr_max_bytes l) keep"
    have eq: "(rbind (victim_ops X (sh_store s) (pl_victims ?p)) (\<lambda>vops.
                    Inr (\<lparr>bg_updates = ?us, bg_removals = removals, bg_cleared = cleared, bg_plan = ?p, bg_pending = pend\<rparr>,
                         (ops @ ?pre) @ vops @ [tick_counter_op (sh_ticks s2)])), s2) = (Inr (bg, ops'), s')"
      using rest unfolding Some store Let_def option.case pend prod.case .
    then obtain vops where v: "victim_ops X (sh_store s) (pl_victims ?p) = Inr vops"
      and bg: "bg = \<lparr>bg_updates = ?us, bg_removals = removals, bg_cleared = cleared, bg_plan = ?p, bg_pending = pend\<rparr>"
      and ops': "ops' = (ops @ ?pre) @ vops @ [tick_counter_op (sh_ticks s2)]" and s': "s2 = s'"
      unfolding prod.inject rbind_eq_Inr_iff sum.inject by blast
    have "\<forall>op\<in>set pend_ops. meta_only op"
      using pending_ops_meta [of l "cx_id X" "map fst ?us"] pend by (auto split: if_splits)
    then have pre: "\<forall>op\<in>set ?pre. meta_only op" by auto
    show thesis
      by (rule limited [OF False _ pre, of l ?us vops]) (use v ops' s' in \<open>simp_all add: bg\<close>)
  qed
qed

context backend_contract
begin

text \<open>What a budget adds to the write-set of its commit is the deletion of the victims.\<close>

lemma budget_becomes:
  assumes bud: "budget_ops X ops updates removals cleared keep s = (Inr (bg, ops'), s')" and B: "cx_backend X = B"
    and ok: "vals_ok n0 (tabs (sh_store s))"
    and inv: "batch_inv (tabs (sh_store s)) (apply_ops (tabs (sh_store s)) ops) nxt (- puts_of W)"
    and keep: "puts_of W \<subseteq> encode_key X ` set keep"
  shows "becomes ch (apply_ops (tabs (sh_store s)) ops) (apply_ops (tabs (sh_store s)) ops')
        (evict_writes (cx_id X) (pl_victims (bg_plan bg)))
    \<and> batch_inv (tabs (sh_store s)) (apply_ops (tabs (sh_store s)) ops') nxt {}
    \<and> set (pl_victims (bg_plan bg)) \<inter> set keep = {} \<and> (rs_lru s = None \<longrightarrow> bg = budget_default)"
  using bud
proof (cases rule: budget_ops_cases)
  case unlimited
  moreover have "becomes ch (apply_ops (tabs (sh_store s)) ops) (apply_ops (tabs (sh_store s)) ops) Map.empty"
    by (rule becomes_refl) (use inv in \<open>simp_all add: batch_inv_def\<close>)
  ultimately show ?thesis using batch_inv_mono [OF _ inv, of "{}"] by (simp add: budget_default_def)
next
  case (limited l us pre vops)
  let ?t = "tabs (sh_store s)" and ?vs = "pl_victims (bg_plan bg)"
  have apart: "set ?vs \<inter> set keep = {}" using limited(2) plan_avoids_keep by metis
  obtain opss where opss: "mapM_r (\<lambda>v. rbind (delete_value_ops X (sh_store s) v Prior_Unknown)
      (\<lambda>ops. Inr (ops @ [lru_delete_op (cx_id X) v]))) ?vs = Inr opss" and vops: "vops = concat opss"
    using limited(4) by (auto simp: victim_ops_def rbind_eq_Inr_iff)
  note m = batch_meta [OF inv limited(3)]
  have "encode_key X ` set ?vs \<inter> encode_key X ` set keep = {}" using apart by (auto simp: encode_key_def)
  then have sub: "encode_key X ` set ?vs \<subseteq> - puts_of W" using keep by blast
  note v = victims_become [OF opss B refl ok m(2) sub]
  have "\<forall>op\<in>set [tick_counter_op (sh_ticks s')]. meta_only op" by simp
  note last = batch_meta [OF conjunct2 [OF v] this]
  have "batch_inv ?t (apply_ops ?t ops') nxt {}"
    using batch_inv_mono [OF empty_subsetI last(2)] unfolding limited(5) vops by simp
  moreover have "becomes ch (apply_ops ?t ops) (apply_ops ?t ops') (evict_writes (cx_id X) ?vs)"
    using becomes_trans [OF becomes_trans [OF m(1) conjunct1 [OF v]] last(1)]
    unfolding limited(5) vops by simp
  ultimately show ?thesis using apart limited(1) by blast
qed

end

end
