(* ===== verification/Commits.thy ===== *)
theory Commits
  imports Budgets Lazy_Locker
begin

text \<open>
  A lazy locker against its specification. The specification of a locker is a map from keys to payloads
  (\<open>locker_view\<close>): what the staged writes say, and below them what is stored. \<open>lazy_ok\<close> is the
  invariant of the locker's state, \<open>effect\<close> says that an operation does to the map what the
  specification says, up to keys the budget sheds, and nothing to any other locker.
\<close>

section \<open>The specification\<close>

type_synonym view = "bytes \<Rightarrow> stored result option"

definition locker_view :: "filter_chain \<Rightarrow> locker_id \<Rightarrow> tables \<Rightarrow> pending list \<Rightarrow> view" where
  "locker_view ch l t st k =
     (case staged_view st k of Some w \<Rightarrow> map_option postcard w | None \<Rightarrow> payload_view ch l t k)"

abbreviation view_of :: "('b, 'q) ctx \<Rightarrow> tables \<Rightarrow> ('b, 'q, 'z) resident_scheme \<Rightarrow> view" where
  "view_of X t s \<equiv> locker_view (cx_chain X) (cx_id X) t (rs_staged s)"

definition without :: "bytes list \<Rightarrow> view \<Rightarrow> view" where
  "without vs f k = (if k \<in> set vs then None else f k)"

definition write_over :: "(bytes \<Rightarrow> bytes option option) \<Rightarrow> view \<Rightarrow> view" where
  "write_over w f k = (case w k of Some v \<Rightarrow> map_option postcard v | None \<Rightarrow> f k)"

lemma locker_view_eq: "locker_view ch l t st = write_over (staged_view st) (payload_view ch l t)"
  by (simp add: fun_eq_iff locker_view_def write_over_def)

lemma staged_view_Nil [simp]: "staged_view [] k = None"
  by (simp add: staged_view_def)

lemma locker_view_Nil: "locker_view ch l t [] = payload_view ch l t"
  by (simp add: fun_eq_iff locker_view_def)

lemma without_Nil [simp]: "without [] f = f"
  by (simp add: fun_eq_iff without_def)

text \<open>The index holds the keys of the map; a key known to be stored inline owns no chunks.\<close>

definition index_exact :: "key_set option \<Rightarrow> view \<Rightarrow> bool" where
  "index_exact idx f \<longleftrightarrow> (\<exists>i. idx = Some i \<and> (\<forall>k. bt_contains i k \<longleftrightarrow> f k \<noteq> None))"

definition inline_exact :: "('b, 'q) ctx \<Rightarrow> tables \<Rightarrow> pending list \<Rightarrow> key_set option \<Rightarrow> bool" where
  "inline_exact X t st known \<longleftrightarrow> (\<forall>m k. known = Some m \<longrightarrow> bt_contains m k \<longrightarrow>
     record_pointers t (encode_key X k) = [] \<and> (\<nexists>p. staged_view st k = Some (Some p)))"

definition lazy_ok :: "('b, 'q) ctx \<Rightarrow> tables \<Rightarrow> ('b, 'q, 'z) resident_scheme \<Rightarrow> bool" where
  "lazy_ok X t s \<longleftrightarrow>
     vals_ok (sh_values s) t \<and> (\<forall>e\<in>set (rs_staged s). pending_fits e)
     \<and> (\<not> is_deferred X \<longrightarrow> rs_staged s = [])
     \<and> index_exact (rs_index s) (view_of X t s) \<and> inline_exact X t (rs_staged s) (rs_known_inline s)"

definition effect :: "('b, 'q) ctx \<Rightarrow> tables \<Rightarrow> ('b, 'q, 'z) resident_scheme \<Rightarrow> tables \<Rightarrow> ('b, 'q, 'z) resident_scheme
    \<Rightarrow> bytes set \<Rightarrow> (view \<Rightarrow> view) \<Rightarrow> bool" where
  "effect X t s t' s' kept g \<longleftrightarrow>
     lazy_ok X t' s' \<and> (no_orphans t \<longrightarrow> no_orphans t')
     \<and> (\<forall>ch l k. l \<noteq> cx_id X \<longrightarrow> payload_view ch l t' k = payload_view ch l t k)
     \<and> (\<exists>vs. (rs_lru s = None \<longrightarrow> vs = []) \<and> set vs \<inter> kept = {}
          \<and> view_of X t' s' = without vs (g (view_of X t s)))"

section \<open>After a commit\<close>

lemma record_pointers_kept:
  assumes "becomes ch t t' W" "W x \<in> {None, Some None}" "record_pointers t x = []"
  shows "record_pointers t' x = []"
proof -
  have "case W x of None \<Rightarrow> keeps t t' x | Some w \<Rightarrow> holds ch t' x w" using assms(1) by (simp add: becomes_def)
  then show ?thesis using assms(2,3) by (auto simp: keeps_def holds_def record_pointers_def)
qed

lemma view_after:
  assumes "becomes (cx_chain X) t t1 W" "becomes (cx_chain X) t1 t' (evict_writes (cx_id X) vs)"
  shows "payload_view (cx_chain X) (cx_id X) t' = without vs (write_over (\<lambda>k. W (encode_key X k)) (payload_view (cx_chain X) (cx_id X) t))"
  using becomes_view [OF assms(1), of "cx_id X"] becomes_view [OF assms(2), of "cx_id X"]
  by (auto simp: fun_eq_iff without_def write_over_def encode_key_eq split: option.splits)

lemma other_after:
  assumes "becomes (cx_chain X) t t1 W" "becomes (cx_chain X) t1 t' (evict_writes (cx_id X) vs)"
    and "\<And>l k. l \<noteq> cx_id X \<Longrightarrow> W (encode_bytes l k) = None" "l \<noteq> cx_id X"
  shows "payload_view ch l t' k = payload_view ch l t k"
proof -
  have "decode_bytes (cx_id X) (encode_bytes l k) \<noteq> Inr k'" for k'
    using assms(4) by (auto simp: decode_bytes_Inr_iff)
  then have "evict_writes (cx_id X) vs (encode_bytes l k) = None"
    by (cases "decode_bytes (cx_id X) (encode_bytes l k)") (auto simp: evict_writes_def)
  then show ?thesis
    using becomes_other [OF assms(1) assms(3) [OF assms(4)]] becomes_other [OF assms(2)] by metis
qed

text \<open>A commit leaves nothing staged: its effect, from what it does to the tables and to the index.\<close>

lemma effect_commit:
  assumes b: "becomes (cx_chain X) t t1 W" "becomes (cx_chain X) t1 t' (evict_writes (cx_id X) vs)"
    and own: "\<And>l k. l \<noteq> cx_id X \<Longrightarrow> W (encode_bytes l k) = None"
    and vs: "rs_lru s = None \<longrightarrow> vs = []" "set vs \<inter> kept = {}"
    and s': "rs_staged s' = []" "cursor_above (sh_values s') (stored_counter t')"
    and g: "g (view_of X t s) = write_over (\<lambda>k. W (encode_key X k)) (payload_view (cx_chain X) (cx_id X) t)"
    and idx: "rs_index s' = Some i'" "\<And>k. bt_contains i' k \<longleftrightarrow> k \<notin> set vs \<and> g (view_of X t s) k \<noteq> None"
    and known: "\<And>m k. rs_known_inline s' = Some m \<Longrightarrow> bt_contains m k \<Longrightarrow> k \<notin> set vs \<Longrightarrow>
      record_pointers t1 (encode_key X k) = []"
  shows "effect X t s t' s' kept g"
proof -
  have view: "view_of X t' s' = without vs (g (view_of X t s))"
    using view_after [OF b] by (simp only: g s'(1) locker_view_Nil)
  have gone: "record_pointers t' (encode_key X k) = []" if "k \<in> set vs" for k
  proof -
    have "evict_writes (cx_id X) vs (encode_key X k) = Some None" using that by (simp add: encode_key_eq)
    then have "holds (cx_chain X) t' (encode_key X k) None"
      using b(2) by (auto simp: becomes_def dest: spec [where x = "encode_key X k"])
    then show ?thesis by (auto simp: holds_def record_pointers_def)
  qed
  have "inline_exact X t' [] (rs_known_inline s')"
    unfolding inline_exact_def
  proof (intro allI impI conjI)
    fix m k
    assume m: "rs_known_inline s' = Some m" "bt_contains m k"
    show "record_pointers t' (encode_key X k) = []"
    proof (cases "k \<in> set vs")
      case False
      then show ?thesis
        using record_pointers_kept [OF b(2) _ known [OF m False]] by (simp add: encode_key_eq)
    qed (rule gone)
  qed simp
  moreover have "index_exact (rs_index s') (view_of X t' s')"
    unfolding index_exact_def view using idx by (auto simp: without_def)
  moreover have "vals_ok (sh_values s') t'" using b(2) s'(2) by (simp add: vals_ok_def becomes_def)
  ultimately have "lazy_ok X t' s'" by (simp add: lazy_ok_def s'(1))
  moreover have "no_orphans t \<longrightarrow> no_orphans t'" using b by (simp add: becomes_def)
  moreover have "\<forall>ch l k. l \<noteq> cx_id X \<longrightarrow> payload_view ch l t' k = payload_view ch l t k"
    by (intro allI impI) (rule other_after [OF b own])
  ultimately show ?thesis
    unfolding effect_def using view vs by (intro conjI exI [of _ vs])
qed

section \<open>What a budget and an announcement change\<close>

lemma announce_fields [simp]:
  "sh_store (announce X ev s) = sh_store s" "sh_values (announce X ev s) = sh_values s"
  "in_closed (announce X ev s) = in_closed s"
  by (simp_all add: announce_def)

lemma announce_resident [simp]:
  fixes s :: "('b, 'q, 'z) resident_scheme"
  shows "rs_staged (announce X ev s) = rs_staged s" "rs_index (announce X ev s) = rs_index s"
    "rs_known_inline (announce X ev s) = rs_known_inline s" "rs_lru (announce X ev s) = rs_lru s"
  by (simp_all add: announce_def)

lemma resident_updates [simp]:
  fixes s :: "('b, 'q, 'z) resident_scheme"
  shows "sh_store (touch_index f s) = sh_store s" "sh_values (touch_index f s) = sh_values s"
    "rs_staged (touch_index f s) = rs_staged s" "rs_index (touch_index f s) = map_option f (rs_index s)"
    "rs_known_inline (touch_index f s) = rs_known_inline s" "rs_lru (touch_index f s) = rs_lru s"
    "sh_store (note_inline k b s) = sh_store s" "sh_values (note_inline k b s) = sh_values s"
    "rs_staged (note_inline k b s) = rs_staged s" "rs_index (note_inline k b s) = rs_index s"
    "rs_lru (note_inline k b s) = rs_lru s"
    "sh_store (forget_inline s) = sh_store s" "sh_values (forget_inline s) = sh_values s"
    "rs_staged (forget_inline s) = rs_staged s" "rs_index (forget_inline s) = rs_index s"
    "rs_lru (forget_inline s) = rs_lru s"
  by (simp_all add: touch_index_def note_inline_def forget_inline_def)

lemma note_inline_known [simp]:
  "rs_known_inline (note_inline k b s) = map_option (\<lambda>m. if b then ks_insert k m else bt_remove k m) (rs_known_inline s)"
  "rs_known_inline (forget_inline s) = map_option (\<lambda>_. bt_empty) (rs_known_inline s)"
  by (simp_all add: note_inline_def forget_inline_def)

lemma ks_contains [simp]:
  "bt_contains (ks_insert k m) k' \<longleftrightarrow> k' = k \<or> bt_contains m k'"
  by (auto simp: ks_insert_def)

lemma fold_remove_contains [simp]: "bt_contains (fold bt_remove ks m) k \<longleftrightarrow> k \<notin> set ks \<and> bt_contains m k"
  by (induction ks arbitrary: m) auto

lemma fold_announce:
  fixes s :: "('b, 'q, 'z) resident_scheme"
  shows "sh_store (fold (\<lambda>e. announce X (f e)) es s) = sh_store s" "sh_values (fold (\<lambda>e. announce X (f e)) es s) = sh_values s"
    "rs_staged (fold (\<lambda>e. announce X (f e)) es s) = rs_staged s" "rs_index (fold (\<lambda>e. announce X (f e)) es s) = rs_index s"
    "rs_known_inline (fold (\<lambda>e. announce X (f e)) es s) = rs_known_inline s"
    "rs_lru (fold (\<lambda>e. announce X (f e)) es s) = rs_lru s"
  by (induction es arbitrary: s) simp_all

lemma fold_note_inline:
  fixes s :: "('b, 'q, 'z) resident_scheme"
  shows "sh_store (fold (\<lambda>v. note_inline v False) vs s) = sh_store s" "sh_values (fold (\<lambda>v. note_inline v False) vs s) = sh_values s"
    "rs_staged (fold (\<lambda>v. note_inline v False) vs s) = rs_staged s" "rs_index (fold (\<lambda>v. note_inline v False) vs s) = rs_index s"
    "rs_known_inline (fold (\<lambda>v. note_inline v False) vs s) = map_option (fold bt_remove vs) (rs_known_inline s)"
  by (induction vs arbitrary: s) (simp_all add: option.map_comp comp_def option.map_id id_def [symmetric])

lemma apply_budget_fields:
  fixes s :: "('b, 'q, 'z) resident_scheme"
  shows "sh_store (apply_budget X bg s) = sh_store s" "sh_values (apply_budget X bg s) = sh_values s"
    "rs_staged (apply_budget X bg s) = rs_staged s"
    "rs_index (apply_budget X bg s) = map_option (fold bt_remove (pl_victims (bg_plan bg))) (rs_index s)"
    "rs_known_inline (apply_budget X bg s) = map_option (fold bt_remove (pl_victims (bg_plan bg))) (rs_known_inline s)"
  by (simp_all add: apply_budget_def fold_announce fold_note_inline on_lru_def Let_def option.map_id)

section \<open>Actions that fail\<close>

text \<open>What an action may have changed when it fails before its commit has landed.\<close>

context backend_contract
begin

definition unharmed :: "('b, 'q, 'z) resident_scheme \<Rightarrow> ('b, 'q, 'z) resident_scheme \<Rightarrow> bool" where
  "unharmed s s' \<longleftrightarrow> (\<exists>b v ticks lru. s' = s\<lparr>sh_store := b, sh_values := v, sh_ticks := ticks, rs_lru := lru\<rparr>
     \<and> tabs b = tabs (sh_store s)
     \<and> (cursor_above (sh_values s) (stored_counter (tabs b)) \<longrightarrow> cursor_above v (stored_counter (tabs b))))"

lemma unharmed_fields:
  assumes "unharmed s s'"
  shows "tabs (sh_store s') = tabs (sh_store s)" "rs_staged s' = rs_staged s" "rs_index s' = rs_index s"
    "rs_known_inline s' = rs_known_inline s" "rs_mode s' = rs_mode s" "in_name_shared s' = in_name_shared s"
    "in_closed s' = in_closed s"
    "cursor_above (sh_values s) (stored_counter (tabs (sh_store s))) \<Longrightarrow> cursor_above (sh_values s') (stored_counter (tabs (sh_store s)))"
  using assms by (auto simp: unharmed_def)

lemma unharmed_trans: "unharmed s u \<Longrightarrow> unharmed u v \<Longrightarrow> unharmed s v"
  unfolding unharmed_def by (elim exE conjE) (simp, metis)

lemma unharmed_core: "same_core s s' \<Longrightarrow> unharmed s s'"
proof -
  assume "same_core s s'"
  then obtain a l where "s' = s\<lparr>sh_ticks := a, rs_lru := l\<rparr>" unfolding same_core_def by blast
  then have "s' = s\<lparr>sh_store := sh_store s, sh_values := sh_values s, sh_ticks := a, rs_lru := l\<rparr>" by simp
  then show ?thesis unfolding unharmed_def by blast
qed

lemma unharmed_refl [simp]: "unharmed s s"
  by (simp add: unharmed_core)

lemma lazy_ok_unharmed:
  assumes "unharmed s s'" "lazy_ok X (tabs (sh_store s)) s"
  shows "lazy_ok X (tabs (sh_store s')) s'"
  using assms(2) unharmed_fields [OF assms(1)] by (simp add: lazy_ok_def vals_ok_def)

definition harmless :: "(('b, 'q, 'z) resident_scheme, error, 'a) act \<Rightarrow> bool" where
  "harmless m \<longleftrightarrow> (\<forall>s. unharmed s (snd (m s)))"

lemma harmless_app: "harmless m \<Longrightarrow> unharmed s (snd (m s))"
  by (simp add: harmless_def)

lemma harmless_core: "core_only m \<Longrightarrow> harmless m"
  by (simp add: harmless_def core_only_def unharmed_core)

lemma harmless_sbind: "harmless m \<Longrightarrow> (\<And>x. harmless (f x)) \<Longrightarrow> harmless (sbind m f)"
  unfolding harmless_def sbind_def by (auto split: prod.splits sum.splits intro: unharmed_trans)

lemma harmless_mapM: "(\<And>x. harmless (f x)) \<Longrightarrow> harmless (mapM_s f xs)"
  by (induction xs) (auto intro!: harmless_sbind simp: harmless_core)

lemma allocate_cursor:
  assumes "allocate B b nxt = (r, nxt')" "cursor_above nxt (stored_counter (tabs b))"
  shows "cursor_above nxt' (stored_counter (tabs b))"
proof (cases r)
  case (Inr vid)
  then obtain j where j: "nxt' = Some j" "checked_succ vid = Some j"
    and low: "case nxt of Some n \<Rightarrow> vid = n | None \<Rightarrow> stored_counter (tabs b) \<le> vid"
    using allocate_Inr assms(1) by blast
  have "stored_counter (tabs b) \<le> vid" using low assms(2) by (cases nxt) (auto simp: cursor_above_def)
  then show ?thesis using checked_succ_less [OF j(2)] j(1) by (simp add: cursor_above_def)
next
  case (Inl e)
  then have "nxt' = nxt"
    using assms(1) by (auto simp: allocate_def vid_take_def seed_and_take_def sbind_def advance_def sread_def
        split: option.splits sum.splits prod.splits)
  with assms(2) show ?thesis by simp
qed

lemma harmless_allocate [simp]:
  fixes X :: "('b, 'q) ctx"
  assumes "cx_backend X = B"
  shows "harmless (next_value_id X :: (('b, 'q, 'z) resident_scheme, error, u64) act)"
  unfolding harmless_def
proof
  fix s :: "('b, 'q, 'z) resident_scheme"
  obtain r v where a: "allocate B (sh_store s) (sh_values s) = (r, v)" by fastforce
  have "unharmed s (s\<lparr>sh_values := v\<rparr>)"
    unfolding unharmed_def
    by (rule exI [of _ "sh_store s"], rule exI [of _ v], rule exI [of _ "sh_ticks s"], rule exI [of _ "rs_lru s"])
      (use allocate_cursor [OF a] in simp)
  then show "unharmed s (snd (next_value_id X s))" using a assms by (simp add: next_value_id_def on_values_def)
qed

lemma harmless_simple [simp]: "harmless (slift r)" "harmless (sret x)" "harmless (sread g)"
  by (simp_all add: harmless_core)

lemma harmless_if: "harmless m \<Longrightarrow> harmless n \<Longrightarrow> harmless (if c then m else n)"
  by simp

lemma harmless_put_payload:
  fixes X :: "('b, 'q) ctx"
  assumes "cx_backend X = B"
  shows "harmless (put_payload_ops X key payload flags pr :: (('b, 'q, 'z) resident_scheme, error, bop list) act)"
  unfolding put_payload_ops_def
  by (intro harmless_sbind harmless_if harmless_allocate [OF assms] harmless_simple) (simp split: prod.split)

lemma harmless_ops:
  fixes X :: "('b, 'q) ctx"
  assumes "cx_backend X = B"
  shows "harmless (ops_for_pending X st mode :: (('b, 'q, 'z) resident_scheme, error, bop list) act)"
proof -
  have act: "harmless (action_ops X mode ka :: (('b, 'q, 'z) resident_scheme, error, bop list) act)" for ka
    by (cases ka; cases "snd ka"; cases mode) (simp_all add: action_ops_def harmless_put_payload [OF assms])
  show ?thesis
    unfolding ops_for_pending_def ops_for_items_def
    by (cases "after_last_clear (map item_of_pending st)")
      (simp, intro harmless_sbind harmless_mapM act harmless_simple)
qed

lemma inner_commit_Inl:
  assumes "inner_commit X ops s = (Inl e, s')" "cx_backend X = B"
  shows "unharmed s s'"
proof -
  obtain b where c: "bk_commit_with B ops \<lparr>co_durability = lc_durability (cx_config X)\<rparr> (sh_store s) = (Inl e, b)"
    and s': "s' = s\<lparr>sh_store := b\<rparr>"
    using assms by (auto simp: inner_commit_def sbind_eq_Inl_iff on_store_def Let_def split: prod.splits)
  show ?thesis
    unfolding unharmed_def
    by (rule exI [of _ b], rule exI [of _ "sh_values s"], rule exI [of _ "sh_ticks s"], rule exI [of _ "rs_lru s"])
      (use s' commit_error_spec [OF c] in simp)
qed

lemma inner_commit_Inr:
  fixes s :: "('b, 'q, 'z) resident_scheme"
  assumes "inner_commit X ops s = (Inr u, s')" "cx_backend X = B"
  shows "tabs (sh_store s') = apply_ops (tabs (sh_store s)) ops" "sh_values s' = sh_values s"
    "rs_staged s' = rs_staged s" "rs_index s' = rs_index s" "rs_known_inline s' = rs_known_inline s" "rs_lru s' = rs_lru s"
proof -
  obtain v b news where c: "bk_commit_with B ops \<lparr>co_durability = lc_durability (cx_config X)\<rparr> (sh_store s) = (Inr v, b)"
    and s': "s' = (case news of Some a \<Rightarrow> post_news a (s\<lparr>sh_store := b\<rparr>) | None \<Rightarrow> s\<lparr>sh_store := b\<rparr>)"
    using assms by (auto simp: inner_commit_def sbind_eq_Inr_iff on_store_def Let_def split: prod.splits)
  then show "tabs (sh_store s') = apply_ops (tabs (sh_store s)) ops" "sh_values s' = sh_values s"
    "rs_staged s' = rs_staged s" "rs_index s' = rs_index s" "rs_known_inline s' = rs_known_inline s" "rs_lru s' = rs_lru s"
    using commit_spec [OF c] by (simp_all add: post_news_def Let_def split: option.splits)
qed

lemma or_restage_Inr: "or_restage back m s = (Inr x, s') \<longleftrightarrow> m s = (Inr x, s')"
  by (auto simp: or_restage_def split: prod.splits sum.splits)

lemma or_restage_Inl: "or_restage back m s = (Inl e, s') \<longleftrightarrow> (\<exists>u. m s = (Inl e, u) \<and> s' = restage back u)"
  by (auto simp: or_restage_def split: prod.splits sum.splits)

end

lemma accounting_snoc: "accounting (st @ [e]) = accounting_step e (accounting st)"
  by (simp add: accounting_def)

text \<open>The keys a batch keeps from the budget are those it gives a value.\<close>

lemma accounting_keys: "fst ` set (fst (accounting st)) = {k. \<exists>p. staged_view st k = Some (Some p)}"
proof (induction st rule: rev_induct)
  case Nil
  show ?case by (simp add: accounting_def)
next
  case (snoc e st)
  obtain us rs cl where a: "accounting st = (us, rs, cl)" by (cases "accounting st")
  have filtered: "fst ` {x \<in> set us. case x of (k, _) \<Rightarrow> k \<noteq> k'} = fst ` set us - {k'}" for k' by force
  show ?case
    using snoc by (cases e) (auto simp: accounting_snoc a staged_view_snoc filtered split: if_splits)
qed

lemma puts_of_batch: "puts_of (batch_writes l st) = encode_bytes l ` {k. \<exists>p. staged_view st k = Some (Some p)}"
proof -
  have "y \<in> puts_of (batch_writes l st) \<longleftrightarrow> (\<exists>k p. y = encode_bytes l k \<and> staged_view st k = Some (Some p))" for y
    by (cases "decode_bytes l y") (auto simp: puts_of_def batch_writes_def decode_bytes_Inr_iff)
  then show ?thesis by blast
qed

context backend_contract
begin

lemma commit_batch_Inl:
  fixes X :: "('b, 'q) ctx" and s :: "('b, 'q, 'z) resident_scheme"
  assumes "commit_batch X mode back batch s = (Inl e, s')" "cx_backend X = B"
  obtains u where "unharmed s u" "s' = restage back u"
proof -
  have h: "unharmed s (snd (ops_for_pending X batch mode s))" for s :: "('b, 'q, 'z) resident_scheme"
    by (rule harmless_app [OF harmless_ops [OF assms(2)]])
  have g: "unharmed s (snd (budget_ops X ops us rs cl keep s))" for s :: "('b, 'q, 'z) resident_scheme" and ops us rs cl keep
    using core_only_app [OF core_only_budget] by (rule unharmed_core)
  obtain us rs cl where a: "accounting batch = (us, rs, cl)" by (cases "accounting batch")
  consider u where "ops_for_pending X batch mode s = (Inl e, u)" "s' = restage back u"
    | ops u v where "ops_for_pending X batch mode s = (Inr ops, u)"
        "budget_ops X ops us rs cl (map fst us) u = (Inl e, v)" "s' = restage back v"
    | ops u bg ops' v w where "ops_for_pending X batch mode s = (Inr ops, u)"
        "budget_ops X ops us rs cl (map fst us) u = (Inr (bg, ops'), v)" "inner_commit X ops' v = (Inl e, w)" "s' = restage back w"
    using assms(1) by (auto simp: commit_batch_def a sbind_eq_Inl_iff or_restage_Inr or_restage_Inl)
  then show thesis
  proof cases
    case 1
    then show ?thesis using that h [of s] by simp
  next
    case 2
    have "unharmed s v" using unharmed_trans [of s u v] h [of s] g [of u ops us rs cl "map fst us"] 2 by simp
    then show ?thesis using that 2(3) by blast
  next
    case 3
    have "unharmed s v" using unharmed_trans [of s u v] h [of s] g [of u ops us rs cl "map fst us"] 3 by simp
    then show ?thesis using that unharmed_trans inner_commit_Inl [OF 3(3) assms(2)] 3(4) by blast
  qed
qed

text \<open>From the operations of a write-set to the state after its commit.\<close>

lemma budgeted_commit:
  fixes X :: "('b, 'q) ctx" and s :: "('b, 'q, 'z) resident_scheme"
  assumes bud: "budget_ops X ops us rs cl keep u = (Inr (bg, ops'), v)" and com: "inner_commit X ops' v = (Inr x, s')"
    and B: "cx_backend X = B" and u: "u = s\<lparr>sh_values := sh_values u\<rparr>"
    and ok: "vals_ok (sh_values s) (tabs (sh_store s))"
    and inv: "batch_inv (tabs (sh_store s)) (apply_ops (tabs (sh_store s)) ops) (sh_values u) (- puts_of W)"
    and keep: "puts_of W \<subseteq> encode_key X ` set keep"
  shows "becomes (cx_chain X) (apply_ops (tabs (sh_store s)) ops) (tabs (sh_store s')) (evict_writes (cx_id X) (pl_victims (bg_plan bg)))"
    and "cursor_above (sh_values s') (stored_counter (tabs (sh_store s')))"
    and "set (pl_victims (bg_plan bg)) \<inter> set keep = {}"
    and "rs_lru s = None \<longrightarrow> pl_victims (bg_plan bg) = []"
    and "rs_staged s' = rs_staged s" "rs_index s' = rs_index s" "rs_known_inline s' = rs_known_inline s"
proof -
  obtain w where w: "u = s\<lparr>sh_values := w\<rparr>" using u by blast
  have v: "same_core u v" using core_only_app [OF core_only_budget, of u X ops us rs cl keep] bud by simp
  have inv': "batch_inv (tabs (sh_store u)) (apply_ops (tabs (sh_store u)) ops) (sh_values u) (- puts_of W)"
    using inv by (simp add: w)
  have ok': "vals_ok (sh_values s) (tabs (sh_store u))" using ok by (simp add: w)
  note bu = budget_becomes [OF bud B ok' inv' keep, where ch = "cx_chain X"]
  note ic = inner_commit_Inr [OF com B]
  have tabs': "tabs (sh_store s') = apply_ops (tabs (sh_store s)) ops'"
    using ic(1) same_core_fields(1) [OF v] by (simp add: w)
  show "becomes (cx_chain X) (apply_ops (tabs (sh_store s)) ops) (tabs (sh_store s')) (evict_writes (cx_id X) (pl_victims (bg_plan bg)))"
    using bu by (simp add: w tabs')
  show "cursor_above (sh_values s') (stored_counter (tabs (sh_store s')))"
    using bu ic(2) same_core_fields(2) [OF v] by (simp add: w tabs' batch_inv_def)
  show "set (pl_victims (bg_plan bg)) \<inter> set keep = {}" using bu by blast
  show "rs_lru s = None \<longrightarrow> pl_victims (bg_plan bg) = []" using bu by (auto simp: w budget_default_def)
  show "rs_staged s' = rs_staged s" "rs_index s' = rs_index s" "rs_known_inline s' = rs_known_inline s"
    using ic(3-5) same_core_fields(8-11) [OF v] by (simp_all add: w)
qed

lemma commit_batch_Inr:
  fixes X :: "('b, 'q) ctx" and s :: "('b, 'q, 'z) resident_scheme"
  assumes c: "commit_batch X mode back batch s = (Inr bg, s')" and B: "cx_backend X = B"
    and ok: "vals_ok (sh_values s) (tabs (sh_store s))"
    and chain: "sound_chain (cx_chain X)" "\<forall>e\<in>set batch. pending_fits e"
  obtains t1 where "becomes (cx_chain X) (tabs (sh_store s)) t1 (batch_writes (cx_id X) batch)"
    "becomes (cx_chain X) t1 (tabs (sh_store s')) (evict_writes (cx_id X) (pl_victims (bg_plan bg)))"
    "cursor_above (sh_values s') (stored_counter (tabs (sh_store s')))"
    "set (pl_victims (bg_plan bg)) \<inter> {k. \<exists>p. staged_view batch k = Some (Some p)} = {}"
    "rs_lru s = None \<longrightarrow> pl_victims (bg_plan bg) = []"
    "rs_staged s' = rs_staged s" "rs_index s' = rs_index s" "rs_known_inline s' = rs_known_inline s"
proof -
  obtain us rs cl where a: "accounting batch = (us, rs, cl)" by (cases "accounting batch")
  obtain ops u ops' v where ops: "ops_for_pending X batch mode s = (Inr ops, u)"
    and bud: "budget_ops X ops us rs cl (map fst us) u = (Inr (bg, ops'), v)" and com: "inner_commit X ops' v = (Inr (), s')"
    using c by (auto simp: commit_batch_def a sbind_eq_Inr_iff or_restage_Inr)
  note bb = batch_becomes [OF ops B ok chain]
  have keys: "set (map fst us) = {k. \<exists>p. staged_view batch k = Some (Some p)}"
    using accounting_keys [of batch] by (simp add: a)
  have keep: "puts_of (batch_writes (cx_id X) batch) \<subseteq> encode_key X ` set (map fst us)"
    by (simp only: puts_of_batch encode_key_eq keys)
  note bc = budgeted_commit [OF bud com B conjunct2 [OF conjunct2 [OF bb]] ok conjunct1 [OF conjunct2 [OF bb]] keep]
  show thesis
    by (rule that [OF conjunct1 [OF bb] bc(1,2)]) (use bc(3-7) in \<open>simp_all only: keys\<close>)
qed

end

section \<open>Staging\<close>

lemma staged_view_append:
  "staged_view (st @ st') k = (case staged_view st' k of Some w \<Rightarrow> Some w | None \<Rightarrow> staged_view st k)"
proof (induction st' rule: rev_induct)
  case (snoc e st')
  then show ?case
    by (cases e) (simp_all add: staged_view_snoc append_assoc [symmetric] del: append_assoc)
qed simp

lemma locker_view_append: "locker_view ch l t (st @ st') = write_over (staged_view st') (locker_view ch l t st)"
  by (auto simp: fun_eq_iff locker_view_def write_over_def staged_view_append split: option.splits)

lemma write_over_single:
  "write_over (staged_view [Pend_Put k p]) f = f(k \<mapsto> postcard p)"
  "write_over (staged_view [Pend_Delete k]) f = f(k := None)"
  "write_over (staged_view [Pend_Clear]) f = Map.empty"
  by (auto simp: fun_eq_iff write_over_def staged_view_def)

lemma effect_stage:
  assumes ok: "lazy_ok X t s" and def: "is_deferred X" "pending_fits e"
    and s': "sh_values s' = sh_values s" "rs_staged s' = rs_staged s @ [e]"
    and idx: "rs_index s' = map_option f (rs_index s)"
      "\<And>i k. bt_contains (f i) k \<longleftrightarrow> (case staged_view [e] k of Some w \<Rightarrow> w \<noteq> None | None \<Rightarrow> bt_contains i k)"
    and known: "rs_known_inline s' = map_option h (rs_known_inline s)"
      "\<And>m k. bt_contains (h m) k \<Longrightarrow> bt_contains m k \<and> (\<nexists>p. staged_view [e] k = Some (Some p))"
  shows "effect X t s t s' UNIV (write_over (staged_view [e]))"
proof -
  have view: "view_of X t s' = write_over (staged_view [e]) (view_of X t s)"
    by (simp only: s'(2) locker_view_append)
  have "index_exact (rs_index s') (view_of X t s')"
    using ok idx unfolding lazy_ok_def index_exact_def view
    by (auto simp: write_over_def split: option.splits)
  moreover have "inline_exact X t (rs_staged s') (rs_known_inline s')"
    unfolding inline_exact_def s'(2) staged_view_append
  proof (intro allI impI)
    fix m k
    assume "rs_known_inline s' = Some m" "bt_contains m k"
    then obtain m0 where "rs_known_inline s = Some m0" "bt_contains m0 k" "\<nexists>p. staged_view [e] k = Some (Some p)"
      using known by auto
    then show "record_pointers t (encode_key X k) = []
        \<and> (\<nexists>p. (case staged_view [e] k of Some w \<Rightarrow> Some w | None \<Rightarrow> staged_view (rs_staged s) k) = Some (Some p))"
      using ok by (auto simp: lazy_ok_def inline_exact_def split: option.splits)
  qed
  ultimately have "lazy_ok X t s'" using ok def s' by (simp add: lazy_ok_def)
  then show ?thesis
    unfolding effect_def using view by (intro conjI exI [of _ "[]"]) simp_all
qed

lemma effect_refl: "lazy_ok X t s \<Longrightarrow> effect X t s t s UNIV (\<lambda>f. f)"
  unfolding effect_def by (intro conjI exI [of _ "[]"]) simp_all

lemma effect_unharmed:
  "effect X t s t s' UNIV g \<Longrightarrow> effect X t s t s' kept g"
  by (auto simp: effect_def)

lemma effect_then:
  assumes "effect X t s u s1 UNIV g" "effect X u s1 t' s' kept (\<lambda>f. f)" "rs_lru s1 = rs_lru s"
  shows "effect X t s t' s' kept g"
  using assms unfolding effect_def by auto

end
