(* ===== verification/Eager_Commits.thy ===== *)
theory Eager_Commits
  imports Commits Eager_Locker
begin

text \<open>
  An eager locker against its specification. The specification is the map of \<open>Commits\<close>; the resident
  values must agree with it (\<open>values_agree\<close>), except for keys known to be stored but not held. An eager
  locker has no index and no byte budget, and stores every value inline (\<open>inline_only\<close>), so its batches
  allocate no value ids and its state changes only in the fields \<open>commit_fields\<close> names.
\<close>

section \<open>The specification\<close>

definition values_agree :: "'t serde \<Rightarrow> view \<Rightarrow> ('b, 'q, 't) eager \<Rightarrow> bool" where
  "values_agree sd f s \<longleftrightarrow>
     (\<forall>k. case bt_lookup (eg_values s) k of
        Some v \<Rightarrow> \<exists>p. f k = Some (postcard p) \<and> decode_payload sd p = Inr v
      | None \<Rightarrow> f k = None \<or> stored_but_unheld s k)"

definition inline_only :: "('b, 'q) ctx \<Rightarrow> tables \<Rightarrow> bool" where
  "inline_only X t \<longleftrightarrow> (\<forall>k. record_pointers t (encode_key X k) = [])"

definition eager_ok :: "('b, 'q) ctx \<Rightarrow> 't serde \<Rightarrow> tables \<Rightarrow> ('b, 'q, 't) eager \<Rightarrow> bool" where
  "eager_ok X sd t s \<longleftrightarrow>
     vals_ok (sh_values s) t \<and> (\<forall>e\<in>set (rs_staged s). pending_fits e) \<and> (\<not> is_deferred X \<longrightarrow> rs_staged s = [])
     \<and> rs_mode s = TxEager \<and> rs_lru s = None \<and> inline_only X t \<and> values_agree sd (view_of X t s) s"

definition eager_effect :: "('b, 'q) ctx \<Rightarrow> 't serde \<Rightarrow> tables \<Rightarrow> ('b, 'q, 't) eager \<Rightarrow> tables \<Rightarrow> ('b, 'q, 't) eager
    \<Rightarrow> (view \<Rightarrow> view) \<Rightarrow> bool" where
  "eager_effect X sd t s t' s' g \<longleftrightarrow>
     eager_ok X sd t' s' \<and> (no_orphans t \<longrightarrow> no_orphans t')
     \<and> (\<forall>ch l k. l \<noteq> cx_id X \<longrightarrow> payload_view ch l t' k = payload_view ch l t k)
     \<and> view_of X t' s' = g (view_of X t s)"

lemma eager_effect_refl: "eager_ok X sd t s \<Longrightarrow> eager_effect X sd t s t s (\<lambda>f. f)"
  by (simp add: eager_effect_def)

lemma eager_effect_then:
  assumes "eager_effect X sd t s u s1 g" "eager_effect X sd u s1 t' s' (\<lambda>f. f)"
  shows "eager_effect X sd t s t' s' g"
  using assms by (simp add: eager_effect_def)

lemma other_lockers:
  assumes "becomes ch t t' W" "\<And>l k. l \<noteq> i \<Longrightarrow> W (encode_bytes l k) = None" "l \<noteq> i"
  shows "payload_view ch' l t' k = payload_view ch' l t k"
  by (rule becomes_other [OF assms(1) assms(2) [OF assms(3)]])

text \<open>From a commit that has landed.\<close>

lemma eager_effect_commit:
  assumes b: "becomes (cx_chain X) t t' W" and own: "\<And>l k. l \<noteq> cx_id X \<Longrightarrow> W (encode_bytes l k) = None"
    and s': "rs_staged s' = []" "cursor_above (sh_values s') (stored_counter t')" "rs_mode s' = TxEager" "rs_lru s' = None"
    and inl: "inline_only X t'"
    and g: "g (view_of X t s) = write_over (\<lambda>k. W (encode_key X k)) (payload_view (cx_chain X) (cx_id X) t)"
    and agree: "values_agree sd (g (view_of X t s)) s'"
  shows "eager_effect X sd t s t' s' g"
proof -
  have view: "view_of X t' s' = g (view_of X t s)"
    using becomes_view [OF b, of "cx_id X"] by (simp add: s'(1) locker_view_Nil g encode_key_eq fun_eq_iff write_over_def)
  have "vals_ok (sh_values s') t'" using b s'(2) by (simp add: vals_ok_def becomes_def)
  moreover have "values_agree sd (view_of X t' s') s'" unfolding view by (rule agree)
  ultimately have "eager_ok X sd t' s'" using s' inl by (simp add: eager_ok_def)
  moreover have "no_orphans t \<longrightarrow> no_orphans t'" using b by (simp add: becomes_def)
  moreover have "\<forall>ch l k. l \<noteq> cx_id X \<longrightarrow> payload_view ch l t' k = payload_view ch l t k"
    by (intro allI impI) (rule other_lockers [OF b own])
  ultimately show ?thesis using view by (simp add: eager_effect_def)
qed

text \<open>From a write that is only staged.\<close>

lemma eager_effect_stage:
  assumes ok: "eager_ok X sd t s" and def: "is_deferred X" "pending_fits e"
    and s': "sh_values s' = sh_values s" "rs_staged s' = rs_staged s @ [e]" "rs_mode s' = rs_mode s" "rs_lru s' = rs_lru s"
    and agree: "values_agree sd (write_over (staged_view [e]) (view_of X t s)) s'"
  shows "eager_effect X sd t s t s' (write_over (staged_view [e]))"
  using assms by (simp add: eager_effect_def eager_ok_def locker_view_append)

section \<open>The resident values\<close>

lemma eager_updates [simp]:
  fixes s :: "('b, 'q, 't) eager"
  shows "eg_values (announce X ev s) = eg_values s" "stored_but_unheld (announce X ev s) k = stored_but_unheld s k"
    "eg_values (forget_dropped k s) = eg_values s" "eg_values (forget_all_dropped s) = eg_values s"
    "eg_values (eg_insert k v s) = bt_insert k v (eg_values s)" "eg_values (eg_remove k s) = bt_remove k (eg_values s)"
    "eg_values (eg_clear s) = bt_empty" "stored_but_unheld (eg_insert k' v s) k = stored_but_unheld s k"
    "stored_but_unheld (eg_remove k' s) k = stored_but_unheld s k" "stored_but_unheld (eg_clear s) k = stored_but_unheld s k"
  by (simp_all add: announce_def forget_dropped_def forget_all_dropped_def eg_insert_def eg_remove_def eg_clear_def
      stored_but_unheld_def is_corrupt_def)

lemma eager_fields [simp]:
  fixes s :: "('b, 'q, 't) eager"
  shows "sh_store (eg_insert k v s) = sh_store s" "sh_values (eg_insert k v s) = sh_values s"
    "rs_staged (eg_insert k v s) = rs_staged s" "rs_mode (eg_insert k v s) = rs_mode s" "rs_lru (eg_insert k v s) = rs_lru s"
    "sh_store (eg_remove k s) = sh_store s" "sh_values (eg_remove k s) = sh_values s"
    "rs_staged (eg_remove k s) = rs_staged s" "rs_mode (eg_remove k s) = rs_mode s" "rs_lru (eg_remove k s) = rs_lru s"
    "sh_store (eg_clear s) = sh_store s" "sh_values (eg_clear s) = sh_values s"
    "rs_staged (eg_clear s) = rs_staged s" "rs_mode (eg_clear s) = rs_mode s" "rs_lru (eg_clear s) = rs_lru s"
    "sh_store (forget_dropped k s) = sh_store s" "sh_values (forget_dropped k s) = sh_values s"
    "rs_staged (forget_dropped k s) = rs_staged s" "rs_mode (forget_dropped k s) = rs_mode s" "rs_lru (forget_dropped k s) = rs_lru s"
    "sh_store (forget_all_dropped s) = sh_store s" "sh_values (forget_all_dropped s) = sh_values s"
    "rs_staged (forget_all_dropped s) = rs_staged s" "rs_mode (forget_all_dropped s) = rs_mode s" "rs_lru (forget_all_dropped s) = rs_lru s"
    "rs_mode (announce X ev s) = rs_mode s"
  by (simp_all add: eg_insert_def eg_remove_def eg_clear_def forget_dropped_def forget_all_dropped_def announce_def)

lemma unheld_forget_dropped: "k \<noteq> k' \<Longrightarrow> stored_but_unheld (forget_dropped k' s) k = stored_but_unheld s k"
  by (simp add: stored_but_unheld_def is_corrupt_def forget_dropped_def)

lemma agree_announce [simp]: "values_agree sd f (announce X ev s) \<longleftrightarrow> values_agree sd f s"
  by (simp add: values_agree_def cong: option.case_cong)

lemma agree_staged [simp]: "values_agree sd f (s\<lparr>rs_staged := st\<rparr>) \<longleftrightarrow> values_agree sd f s"
proof -
  have "stored_but_unheld (s\<lparr>rs_staged := st\<rparr>) k = stored_but_unheld s k" for k
    by (simp add: stored_but_unheld_def is_corrupt_def)
  then show ?thesis by (simp add: values_agree_def cong: option.case_cong)
qed

lemma agree_insert:
  assumes "values_agree sd f s" "decode_payload sd p = Inr v"
  shows "values_agree sd (f(key \<mapsto> postcard p)) (eg_insert key v s)"
  using assms by (simp add: values_agree_def cong: option.case_cong)

lemma agree_put:
  assumes "values_agree sd f s" "decode_payload sd p = Inr v"
  shows "values_agree sd (f(key \<mapsto> postcard p)) (forget_dropped key (eg_insert key v s))"
  using assms by (simp add: values_agree_def unheld_forget_dropped cong: option.case_cong)

lemma agree_delete:
  assumes "values_agree sd f s"
  shows "values_agree sd (f(key := None)) (forget_dropped key (eg_remove key s))"
  using assms by (simp add: values_agree_def unheld_forget_dropped cong: option.case_cong)

lemma agree_clear: "values_agree sd Map.empty (forget_all_dropped (eg_clear s))"
  by (simp add: values_agree_def)

section \<open>The fields a commit changes\<close>

definition commit_fields :: "('b, 'q, 'z) inner_state_scheme \<Rightarrow> ('b, 'q, 'z) inner_state_scheme \<Rightarrow> bool" where
  "commit_fields s s' \<longleftrightarrow> (\<exists>b ep co. s' = s\<lparr>sh_store := b, in_epochs := ep, sh_coherence := co\<rparr>)"

lemma commit_fields_refl [simp]: "commit_fields s s"
proof -
  have "s = s\<lparr>sh_store := sh_store s, in_epochs := in_epochs s, sh_coherence := sh_coherence s\<rparr>" by simp
  then show ?thesis unfolding commit_fields_def by blast
qed

lemma inner_commit_fields: "commit_fields s (snd (inner_commit X ops s))"
proof -
  obtain r b where c: "bk_commit_with (cx_backend X) ops \<lparr>co_durability = lc_durability (cx_config X)\<rparr> (sh_store s) = (r, b)"
    by fastforce
  have "snd (inner_commit X ops s) = s\<lparr>sh_store := b, in_epochs := in_epochs (snd (inner_commit X ops s)),
      sh_coherence := sh_coherence (snd (inner_commit X ops s))\<rparr>"
    using c by (cases r) (auto simp: inner_commit_def on_store_def sbind_def post_news_def Let_def split: option.splits)
  then show ?thesis unfolding commit_fields_def by blast
qed

lemma commit_fields_same:
  fixes s :: "('b, 'q, 't) eager"
  assumes "commit_fields s s'"
  shows "sh_values s' = sh_values s" "rs_staged s' = rs_staged s" "rs_mode s' = rs_mode s" "rs_lru s' = rs_lru s"
    "eg_values s' = eg_values s" "stored_but_unheld s' k = stored_but_unheld s k" "in_closed s' = in_closed s"
  using assms by (auto simp: commit_fields_def stored_but_unheld_def is_corrupt_def)

lemma agree_commit_fields:
  fixes s :: "('b, 'q, 't) eager"
  shows "commit_fields s s' \<Longrightarrow> values_agree sd f s' \<longleftrightarrow> values_agree sd f s"
  by (simp only: values_agree_def commit_fields_same)

section \<open>The operations of an eager batch\<close>

lemma mapM_sread: "mapM_s (\<lambda>x. sread (g x)) xs s = (mapM_r (\<lambda>x. g x s) xs, s)"
proof (induction xs)
  case (Cons x xs)
  then show ?case
    by (cases "g x s"; cases "mapM_r (\<lambda>x. g x s) xs") (simp_all add: sbind_def)
qed simp

definition eager_action :: "('b, 'q) ctx \<Rightarrow> bytes \<times> action \<Rightarrow> ('b, 'z) shared_scheme \<Rightarrow> bop list result" where
  "eager_action X ka s =
     (case ka of (key, Act_Delete) \<Rightarrow> delete_value_ops X (sh_store s) key Prior_Unknown
       | (key, Act_Put payload) \<Rightarrow> eager_put_ops X (sh_store s) key payload)"

lemma action_ops_eager: "action_ops X TxEager = (\<lambda>ka. sread (eager_action X ka))"
  by (simp add: fun_eq_iff action_ops_def eager_action_def split: prod.split action.split)

lemma eager_ops_state: "snd (ops_for_pending X batch TxEager s) = s"
  by (simp add: ops_for_pending_def ops_for_items_def action_ops_eager mapM_sread sbind_def
      split: prod.split sum.split)

text \<open>No operation of an eager batch stores a pointer.\<close>

fun stores_pointer :: "bop \<Rightarrow> bool" where
  "stores_pointer (Op_Put Records x v) \<longleftrightarrow> parsed v \<noteq> None"
| "stores_pointer op \<longleftrightarrow> False"

lemma stores_pointer_simps [simp]:
  "\<not> stores_pointer (gc_ops p)" "\<not> stores_pointer (clear_op X)" "\<not> stores_pointer (delete_op X key)"
  by (simp_all add: gc_ops_def clear_op_def delete_op_def)

lemma seal_stores_no_pointer: "seal ch p = Inr sealed \<Longrightarrow> \<not> stores_pointer (Op_Put Records x sealed)"
  using seal_not_pointer [of ch p sealed] by (auto simp: parsed_def dest: is_pointer_parse split: sum.splits)

lemma inline_only_ops:
  assumes "inline_only X t" "\<forall>op\<in>set ops. \<not> stores_pointer op"
  shows "inline_only X (apply_ops t ops)"
  unfolding inline_only_def
proof
  fix k
  let ?x = "encode_key X k"
  show "record_pointers (apply_ops t ops) ?x = []"
  proof (cases "last_said Records ?x ops")
    case None
    then have "bt_lookup (tables_get (apply_ops t ops) Records) ?x = bt_lookup (tables_get t Records) ?x"
      by (simp add: lookup_apply_ops del: tables_get.simps)
    then show ?thesis using assms(1) by (simp add: inline_only_def record_pointers_def)
  next
    case (Some w)
    then have l: "bt_lookup (tables_get (apply_ops t ops) Records) ?x = w"
      by (simp add: lookup_apply_ops del: tables_get.simps)
    obtain op where op: "op \<in> set ops" "op_says Records ?x op = Some w" using last_said_in [OF Some] by blast
    have "Option.bind w parsed = None"
    proof (cases w)
      case (Some v)
      then show ?thesis
        using bspec [OF assms(2) op(1)] op(2) by (cases op rule: stores_pointer.cases) (auto simp del: parsed_eq_Some split: if_splits)
    qed simp
    then show ?thesis using l by (simp add: record_pointers_def)
  qed
qed

context backend_contract
begin

lemma eager_action_inline:
  assumes "eager_action X ka s = Inr ops" "cx_backend X = B"
  shows "\<forall>op\<in>set ops. \<not> stores_pointer op"
proof (cases "snd ka")
  case (Act_Put payload)
  obtain sealed where "seal (cx_chain X) payload = Inr sealed"
    "ops = map gc_ops (record_pointers (tabs (sh_store s)) (encode_key X (fst ka))) @ [Op_Put Records (encode_key X (fst ka)) sealed]"
    using assms(1) Act_Put by (cases ka) (auto simp: eager_action_def dest!: eager_put_ops_spec [OF _ assms(2)])
  then show ?thesis using seal_stores_no_pointer by (auto simp del: stores_pointer.simps)
next
  case Act_Delete
  then show ?thesis
    using assms(1)
    by (cases ka) (auto simp: eager_action_def delete_value_ops_def rbind_eq_Inr_iff dest!: gc_existing_spec [OF _ assms(2)])
qed

lemma eager_ops_inline:
  assumes "ops_for_pending X batch TxEager s = (Inr ops, s')" "cx_backend X = B"
  shows "\<forall>op\<in>set ops. \<not> stores_pointer op"
proof -
  obtain found rest where alc: "after_last_clear (map item_of_pending batch) = (found, rest)" by fastforce
  obtain pre opss where pre: "(if found then clear_value_ops X (sh_store s) else Inr []) = Inr pre"
    and opss: "mapM_r (\<lambda>ka. eager_action X ka s) (bt_entries (actions_of rest)) = Inr opss" and ops: "ops = pre @ concat opss"
    using assms(1) by (auto simp: ops_for_pending_def ops_for_items_def alc sbind_eq_Inr_iff action_ops_eager mapM_sread)
  have "\<forall>op\<in>set pre. \<not> stores_pointer op"
    using pre by (cases found) (auto dest!: clear_value_ops_spec [OF _ assms(2)])
  moreover have "\<forall>op\<in>set os. \<not> stores_pointer op" if mem: "os \<in> set opss" for os
  proof -
    obtain i where i: "i < length opss" "opss ! i = os" using mem by (auto simp: in_set_conv_nth)
    then have "eager_action X (bt_entries (actions_of rest) ! i) s = Inr os"
      using opss by (simp add: mapM_r_Inr_iff list_all2_conv_all_nth)
    then show ?thesis by (rule eager_action_inline [OF _ assms(2)])
  qed
  ultimately show ?thesis by (auto simp: ops)
qed

text \<open>A landed batch.\<close>

lemma eager_batch_commit:
  fixes s :: "('b, 'q, 't) eager"
  assumes ops: "ops_for_pending X batch TxEager s = (Inr ops, u)" and com: "inner_commit X ops u = (Inr x, w)"
    and B: "cx_backend X = B" and ok: "vals_ok (sh_values s) (tabs (sh_store s))" "inline_only X (tabs (sh_store s))"
    and chain: "sound_chain (cx_chain X)" "\<forall>e\<in>set batch. pending_fits e"
  shows "becomes (cx_chain X) (tabs (sh_store s)) (tabs (sh_store w)) (batch_writes (cx_id X) batch)"
    "inline_only X (tabs (sh_store w))" "cursor_above (sh_values w) (stored_counter (tabs (sh_store w)))" "commit_fields s w"
proof -
  have u: "u = s" using eager_ops_state [of X batch s] ops by simp
  note bb = batch_becomes [OF ops B ok(1) chain]
  have t: "tabs (sh_store w) = apply_ops (tabs (sh_store s)) ops" "sh_values w = sh_values s"
    using inner_commit_Inr [OF com B] u by simp_all
  show "becomes (cx_chain X) (tabs (sh_store s)) (tabs (sh_store w)) (batch_writes (cx_id X) batch)"
    using bb by (simp add: t)
  show "inline_only X (tabs (sh_store w))"
    unfolding t by (rule inline_only_ops [OF ok(2) eager_ops_inline [OF ops B]])
  show "cursor_above (sh_values w) (stored_counter (tabs (sh_store w)))"
    using bb by (simp add: t u batch_inv_def)
  show "commit_fields s w" using inner_commit_fields [of s X ops] com u by simp
qed

text \<open>A commit that fails.\<close>

lemma inner_commit_failed:
  assumes "inner_commit X ops s = (Inl e, s')" "cx_backend X = B"
  shows "tabs (sh_store s') = tabs (sh_store s)" "commit_fields s s'"
proof -
  show "commit_fields s s'" using inner_commit_fields [of s X ops] assms(1) by simp
  obtain b where c: "bk_commit_with B ops \<lparr>co_durability = lc_durability (cx_config X)\<rparr> (sh_store s) = (Inl e, b)"
    and s': "s' = s\<lparr>sh_store := b\<rparr>"
    using assms by (auto simp: inner_commit_def sbind_eq_Inl_iff on_store_def Let_def split: prod.splits)
  show "tabs (sh_store s') = tabs (sh_store s)" using commit_error_spec [OF c] s' by simp
qed

lemma eager_effect_failed:
  fixes s :: "('b, 'q, 't) eager"
  assumes "commit_fields s s'" "tabs (sh_store s') = tabs (sh_store s)" "eager_ok X sd (tabs (sh_store s)) s"
  shows "eager_effect X sd (tabs (sh_store s)) s (tabs (sh_store s')) s' (\<lambda>f. f)"
  using assms commit_fields_same [OF assms(1)] agree_commit_fields [OF assms(1)]
  by (simp add: eager_effect_def eager_ok_def)

end

end
