(* ===== verification/Streaming_Io.thy ===== *)
theory Streaming_Io
  imports Lazy_Locker
begin

text \<open>
  \<open>src/locker/io.rs\<close>: the streaming writer and reader of a \<open>LazyLocker<Vec<u8>>\<close>. A writer commits
  piece by piece; \<open>write_loop\<close> has fuel, because with a chunk size of 0 (a struct literal can have it)
  the loop of \<open>write_chunk\<close> does not end.
\<close>

record writer =
  wr_key :: bytes
  wr_value_id :: u64
  wr_seq :: u32
  wr_total_len :: u64
  wr_buf :: bytes
  wr_finished :: bool

definition writer_start :: "('b, 'q) ctx \<Rightarrow> bytes \<Rightarrow> (('b, 'q, 'z) inner_state_scheme, error, writer) act" where
  "writer_start X key =
     sbind (next_value_id X) (\<lambda>vid.
     sbind (\<lambda>s. case value_counter_op s of Some op \<Rightarrow> inner_commit X [op] s | None \<Rightarrow> (Inr (), s)) (\<lambda>_.
       sret \<lparr>wr_key = key, wr_value_id = vid, wr_seq = 0, wr_total_len = 0, wr_buf = [], wr_finished = False\<rparr>))"

text \<open>
  The methods of a writer change it and the locker's state; a failure leaves both as they then are.
\<close>

definition flush_piece :: "('b, 'q) ctx \<Rightarrow> bytes \<Rightarrow> (('b, 'q, 'z) inner_state_scheme \<times> writer, error, unit) act" where
  "flush_piece X piece sw =
     (case sw of (s, w) \<Rightarrow>
      (case seal_slice (cx_chain X) piece of
         Inl e \<Rightarrow> (Inl e, (s, w))
       | Inr sealed \<Rightarrow>
           (case inner_commit X [Op_Put Chunks (chunk_key (wr_value_id w) (wr_seq w)) sealed] s of
              (Inl e, s) \<Rightarrow> (Inl e, (s, w))
            | (Inr _, s) \<Rightarrow> (Inr (), (s, w\<lparr>wr_seq := wr_seq w + 1\<rparr>)))))"

primrec write_loop :: "nat \<Rightarrow> ('b, 'q) ctx \<Rightarrow> (('b, 'q, 'z) inner_state_scheme \<times> writer, error, unit) act" where
  "write_loop 0 X = slift (Inl Diverged)"
| "write_loop (Suc n) X =
     (\<lambda>(s, w).
       let chunk_size = lc_chunk_size (cx_config X) in
       if length (wr_buf w) \<ge> chunk_size then
         sbind (flush_piece X (take chunk_size (wr_buf w))) (\<lambda>_. write_loop n X)
           (s, w\<lparr>wr_buf := drop chunk_size (wr_buf w)\<rparr>)
       else (Inr (), (s, w)))"

definition write_chunk :: "('b, 'q) ctx \<Rightarrow> bytes \<Rightarrow> (('b, 'q, 'z) inner_state_scheme \<times> writer, error, unit) act" where
  "write_chunk X bs sw =
     (case sw of (s, w) \<Rightarrow>
       let w = w\<lparr>wr_buf := wr_buf w @ bs, wr_total_len := wr_total_len w + of_nat (length bs)\<rparr> in
       write_loop (Suc (length (wr_buf w))) X (s, w))"

definition writer_pointer :: "writer \<Rightarrow> u64 \<Rightarrow> chunk_pointer" where
  "writer_pointer w len =
     \<lparr>cp_value_id = wr_value_id w, cp_n_chunks = wr_seq w, cp_total_len = len, cp_flags = FLAG_RAW\<rparr>"

text \<open>\<open>finish\<close> flushes what is left, then publishes: one commit collects the old value and puts the pointer.\<close>

definition writer_publish :: "('b, 'q) ctx \<Rightarrow> writer \<Rightarrow> (('b, 'q, 'z) resident_scheme, error, unit) act" where
  "writer_publish X w =
     sbind (sread (\<lambda>s. gc_existing X (sh_store s) (wr_key w) Prior_Unknown)) (\<lambda>gc.
     sbind (inner_commit X (gc @ [Op_Put Records (encode_key X (wr_key w))
                                   (pointer_encode (writer_pointer w (wr_total_len w)))])) (\<lambda>_.
       smod (\<lambda>s. announce X (Ev_Put (wr_key w)) (note_inline (wr_key w) False
               (touch_index (ks_insert (wr_key w)) s)))))"

definition writer_finish :: "('b, 'q) ctx \<Rightarrow> writer \<Rightarrow> (('b, 'q, 'z) resident_scheme, error, unit) act" where
  "writer_finish X w s =
     (case (if wr_buf w \<noteq> [] then flush_piece X (wr_buf w) (s, w\<lparr>wr_buf := []\<rparr>) else (Inr (), (s, w))) of
        (Inl e, (s, w)) \<Rightarrow> (Inl e, s)
      | (Inr _, (s, w)) \<Rightarrow> writer_publish X w s)"

definition writer_abort :: "('b, 'q) ctx \<Rightarrow> writer \<Rightarrow> (('b, 'q, 'z) inner_state_scheme, error, unit) act" where
  "writer_abort X w = inner_commit X [gc_ops (writer_pointer w 0)]"

record reader =
  rd_pointer :: "chunk_pointer option"
  rd_seq :: u32
  rd_inline :: "bytes option"

definition from_pointer :: "chunk_pointer \<Rightarrow> reader" where
  "from_pointer p = \<lparr>rd_pointer = Some p, rd_seq = 0, rd_inline = None\<rparr>"

definition from_inline :: "bytes \<Rightarrow> reader" where
  "from_inline payload =
     \<lparr>rd_pointer = Some \<lparr>cp_value_id = 0, cp_n_chunks = 0, cp_total_len = of_nat (length payload), cp_flags = FLAG_RAW\<rparr>,
      rd_seq = 0, rd_inline = Some payload\<rparr>"

definition reader_len :: "reader \<Rightarrow> u64" where
  "reader_len r = (case rd_pointer r of Some p \<Rightarrow> cp_total_len p | None \<Rightarrow> 0)"

definition next_chunk :: "('b, 'q) ctx \<Rightarrow> 'b \<Rightarrow> (reader, error, bytes option) act" where
  "next_chunk X b r =
     (case rd_inline r of
        Some payload \<Rightarrow> (Inr (Some payload), r\<lparr>rd_inline := None\<rparr>)
      | None \<Rightarrow>
          (case rd_pointer r of
             None \<Rightarrow> (Inr None, r)
           | Some p \<Rightarrow>
               if rd_seq r \<ge> cp_n_chunks p then (Inr None, r)
               else
                 (case bk_get (cx_backend X) b Chunks (chunk_key (cp_value_id p) (rd_seq r)) of
                    Inl e \<Rightarrow> (Inl e, r)
                  | Inr None \<Rightarrow> (Inl (Corrupt (''missing chunk '' @ show_nat (unat (rd_seq r)) @ '' of '' @
                      show_nat (unat (cp_value_id p)))), r)
                  | Inr (Some sealed) \<Rightarrow>
                      (map_sum id Some (chain_open (cx_chain X) sealed), r\<lparr>rd_seq := rd_seq r + 1\<rparr>))))"

definition lazy_writer :: "('b, 'q) ctx \<Rightarrow> bytes \<Rightarrow> (('b, 'q, 'z) inner_state_scheme, error, writer) act" where
  "lazy_writer X key = sbind ensure_open (\<lambda>_. writer_start X key)"

definition lazy_reader :: "('b, 'q) ctx \<Rightarrow> bytes \<Rightarrow> (('b, 'q, 'z) inner_state_scheme, error, reader option) act" where
  "lazy_reader X key =
     sbind ensure_open (\<lambda>_.
       sread (\<lambda>s.
         rbind (fetch X (sh_store s) key) (\<lambda>raw.
           case raw of
             None \<Rightarrow> Inr None
           | Some raw \<Rightarrow>
               if is_pointer raw then rbind (pointer_parse raw) (\<lambda>p. Inr (Some (from_pointer p)))
               else rbind (chain_open (cx_chain X) raw) (\<lambda>payload. Inr (Some (from_inline payload))))))"

end
