(* ===== verification/Locker_Footprint.thy ===== *)
theory Locker_Footprint
  imports Registry Eager_Commits Streaming_Io
begin

text \<open>
  What the calls of an open locker write: only records of its own id, chunks, and the counters and
  accounting entries of the meta table, whatever the mode of the locker and whatever the backend answers.
  So no call of a locker touches the registry or another locker's records.
\<close>

section \<open>Operations of one locker\<close>

definition local_op :: "('b, 'q) ctx \<Rightarrow> bop \<Rightarrow> bool" where
  "local_op X op \<longleftrightarrow> op_typed op \<and>
     (\<forall>k. op_says Meta k op \<noteq> None \<longrightarrow> k = next_value_id_key \<or> k = META_NEXT_TICK \<or> prefix (locker_prefix (cx_id X)) k)
     \<and> (\<forall>l k. l \<noteq> cx_id X \<longrightarrow> op_says Records (encode_bytes l k) op = None)"

abbreviation local_ops :: "('b, 'q) ctx \<Rightarrow> bop list \<Rightarrow> bool" where
  "local_ops X \<equiv> list_all (local_op X)"

lemma registry_keys_other [simp]:
  "locker_key n \<noteq> next_value_id_key" "META_NEXT_LOCKER_ID \<noteq> next_value_id_key"
  "next_value_id_key \<noteq> locker_key n" "next_value_id_key \<noteq> META_NEXT_LOCKER_ID"
  "locker_key n \<noteq> META_NEXT_TICK" "META_NEXT_LOCKER_ID \<noteq> META_NEXT_TICK"
  "META_NEXT_TICK \<noteq> locker_key n" "META_NEXT_TICK \<noteq> META_NEXT_LOCKER_ID"
  "entry_key i k \<noteq> locker_key n" "entry_key i k \<noteq> META_NEXT_LOCKER_ID"
  "\<not> prefix (locker_prefix i) (locker_key n)" "\<not> prefix (locker_prefix i) META_NEXT_LOCKER_ID"
  by (simp_all add: locker_key_def META_LOCKER_PREFIX_def META_NEXT_LOCKER_ID_def next_value_id_key_def META_NEXT_TICK_def
      entry_key_def locker_prefix_def LRU_PREFIX_def as_bytes_def)

lemma local_spares: "local_op X op \<Longrightarrow> spares {cx_id X} op"
  unfolding local_op_def spares_def by (auto 0 3 dest: spec [of _ META_NEXT_LOCKER_ID] spec [of _ "locker_key _"])

lemma entry_key_prefix [simp]: "prefix (locker_prefix i) (entry_key i k)"
  by (simp add: entry_key_def)

lemma local_simps [simp]:
  "local_op X (Op_Put Records (encode_key X k) v)" "local_op X (delete_op X k)" "local_op X (clear_op X)"
  "local_op X (gc_ops p)" "local_op X (Op_Put Chunks (chunk_key vid sq) v)" "local_op X (counter_op_for n)"
  "local_op X (lru_put_op (cx_id X) k e)" "local_op X (lru_delete_op (cx_id X) k)" "local_op X (lru_clear_op (cx_id X))"
  "local_op X (tick_counter_op t)"
  by (auto simp: local_op_def encode_key_eq delete_op_def clear_op_def gc_ops_def counter_op_for_def lru_put_op_def lru_delete_op_def
      lru_clear_op_def tick_counter_op_def split: if_splits)

lemma gc_existing_local: "gc_existing X b key pr = Inr gc \<Longrightarrow> local_ops X gc"
  by (auto simp: gc_existing_def rbind_eq_Inr_iff split: if_splits option.splits)

lemma delete_ops_local: "delete_value_ops X b key pr = Inr ops \<Longrightarrow> local_ops X ops"
  by (auto simp: delete_value_ops_def rbind_eq_Inr_iff dest: gc_existing_local)

lemma page_loop_inv:
  assumes "page_loop n B b rq visit acc = Inr r" "I acc" "\<And>a x a'. visit a x = Inr a' \<Longrightarrow> I a \<Longrightarrow> I a'"
  shows "I r"
proof -
  have fold: "foldM_r visit a xs = Inr a' \<Longrightarrow> I a \<Longrightarrow> I a'" for a a' xs
    by (induction xs arbitrary: a) (auto simp: rbind_eq_Inr_iff dest: assms(3))
  from assms(1,2) show ?thesis
    by (induction n arbitrary: rq acc) (auto simp: rbind_eq_Inr_iff dest: fold split: option.splits)
qed

lemma clear_ops_local: "clear_value_ops X b = Inr ops \<Longrightarrow> local_ops X ops"
proof -
  assume "clear_value_ops X b = Inr ops"
  then obtain pre where w: "walk (cx_backend X) b (cx_id X) Unbounded Unbounded False True gc_visit [] = Inr pre" and ops: "ops = pre @ [clear_op X]"
    by (auto simp: clear_value_ops_def rbind_eq_Inr_iff)
  have step: "local_ops X a'" if "walk_item (cx_id X) gc_visit a x = Inr a'" "local_ops X a" for a x a'
    using that by (auto simp: walk_item_def gc_visit_def rbind_eq_Inr_iff split: prod.splits option.splits if_splits sum.splits)
  from w have "local_ops X pre"
    unfolding walk_def is_degenerate.simps if_False by (rule page_loop_inv [OF _ _ step]) simp
  then show ?thesis by (simp add: ops)
qed

lemma eager_put_ops_local:
  assumes "eager_put_ops X b key payload = Inr ops"
  shows "local_ops X ops"
proof -
  obtain sealed existing where "ops = (case existing of
        Some existing \<Rightarrow> if is_pointer existing then (case pointer_parse existing of Inr p \<Rightarrow> [gc_ops p] | Inl _ \<Rightarrow> []) else []
      | None \<Rightarrow> []) @ [Op_Put Records (encode_key X key) sealed]"
    using assms by (simp add: eager_put_ops_def rbind_eq_Inr_iff split: if_splits) blast
  then show ?thesis by (simp split: option.splits sum.splits)
qed

lemma piece_ops_local: "piece_ops ch vid sq ps = Inr (ops, n) \<Longrightarrow> local_ops X ops"
  by (induction ch vid sq ps arbitrary: ops n rule: piece_ops.induct) (auto simp: rbind_eq_Inr_iff split: option.splits prod.splits)

lemma victim_ops_local:
  assumes "victim_ops X b vs = Inr ops"
  shows "local_ops X ops"
proof -
  obtain opss where opss: "mapM_r (\<lambda>v. rbind (delete_value_ops X b v Prior_Unknown) (\<lambda>ops. Inr (ops @ [lru_delete_op (cx_id X) v]))) vs = Inr opss"
    and ops: "ops = concat opss" using assms by (auto simp: victim_ops_def rbind_eq_Inr_iff)
  from opss have "list_all (local_ops X) opss"
    by (induction vs arbitrary: opss) (auto simp: rbind_eq_Inr_iff dest: delete_ops_local)
  then show ?thesis by (auto simp: ops list_all_iff)
qed

lemma pending_ops_local: "local_ops X (snd (pending_ops l (cx_id X) skip))"
proof -
  have step: "local_ops X (snd (pending_step (cx_id X) skip E acc p))" if "local_ops X (snd acc)" for E acc p
    using that by (auto simp: pending_step_def split: prod.splits option.splits if_splits)
  have "local_ops X (snd (foldl (pending_step (cx_id X) skip E) acc xs))" if "local_ops X (snd acc)" for E acc xs
    using that step by (induction xs arbitrary: acc) simp_all
  then show ?thesis by (simp add: pending_ops_def)
qed

section \<open>Actions that write operations of one locker\<close>

definition writes_within :: "('b \<Rightarrow> tables) \<Rightarrow> ('b, 'q) ctx \<Rightarrow> 'b \<Rightarrow> 'b \<Rightarrow> bool" where
  "writes_within tabs X b b' \<longleftrightarrow> (\<exists>ops. local_ops X ops \<and> tabs b' = apply_ops (tabs b) ops)"

lemma within_same: "tabs b' = tabs b \<Longrightarrow> writes_within tabs X b b'"
  by (rule exI [of _ "[]", THEN writes_within_def [THEN iffD2]]) simp

lemma within_refl [simp]: "writes_within tabs X b b"
  by (rule within_same) simp

lemma within_trans: "writes_within tabs X b c \<Longrightarrow> writes_within tabs X c d \<Longrightarrow> writes_within tabs X b d"
proof -
  assume "writes_within tabs X b c" "writes_within tabs X c d"
  then obtain ops ops' where "local_ops X (ops @ ops')" "tabs d = apply_ops (tabs b) (ops @ ops')"
    unfolding writes_within_def by (auto simp: apply_ops_def)
  then show ?thesis unfolding writes_within_def by blast
qed

text \<open>An action that keeps within its locker, with a property of its results.\<close>

definition within :: "('b \<Rightarrow> tables) \<Rightarrow> ('b, 'q) ctx \<Rightarrow> (('b, 'z) shared_scheme, error, 'a) act \<Rightarrow> ('a \<Rightarrow> bool) \<Rightarrow> bool" where
  "within tabs X m R \<longleftrightarrow> (\<forall>s r s'. m s = (r, s') \<longrightarrow> writes_within tabs X (sh_store s) (sh_store s') \<and> (\<forall>x. r = Inr x \<longrightarrow> R x))"

abbreviation stays :: "('b \<Rightarrow> tables) \<Rightarrow> ('b, 'q) ctx \<Rightarrow> (('b, 'z) shared_scheme, error, 'a) act \<Rightarrow> bool" where
  "stays tabs X m \<equiv> within tabs X m (\<lambda>_. True)"

named_theorems keeping \<open>actions that keep within their locker\<close>

lemma withinD: "within tabs X m R \<Longrightarrow> m s = (r, s') \<Longrightarrow> writes_within tabs X (sh_store s) (sh_store s') \<and> (\<forall>x. r = Inr x \<longrightarrow> R x)"
  unfolding within_def by blast

lemma within_sbind:
  assumes m: "within tabs X m R" and f: "\<And>x. R x \<Longrightarrow> within tabs X (f x) Q"
  shows "within tabs X (sbind m f) Q"
  unfolding within_def
proof (intro allI impI)
  fix s r s'
  assume run: "sbind m f s = (r, s')"
  obtain a u where a: "m s = (a, u)" by fastforce
  show "writes_within tabs X (sh_store s) (sh_store s') \<and> (\<forall>x. r = Inr x \<longrightarrow> Q x)"
  proof (cases a)
    case (Inl e)
    then show ?thesis using run a withinD [OF m a] by auto
  next
    case (Inr x)
    then have "f x u = (r, s')" using run a by simp
    moreover have "R x" and u: "writes_within tabs X (sh_store s) (sh_store u)" using withinD [OF m a] Inr by auto
    ultimately have "writes_within tabs X (sh_store u) (sh_store s') \<and> (\<forall>x. r = Inr x \<longrightarrow> Q x)" using withinD [OF f] by blast
    then show ?thesis using within_trans [OF u] by blast
  qed
qed

lemma within_pure:
  "(\<And>x. e = Inr x \<Longrightarrow> R x) \<Longrightarrow> within tabs X (slift e) R"
  "(\<And>s x. g s = Inr x \<Longrightarrow> R x) \<Longrightarrow> within tabs X (sread g) R"
  "R y \<Longrightarrow> within tabs X (sret y) R"
  by (auto simp: within_def)

lemma within_smod: "(\<And>s. sh_store (f s) = sh_store s) \<Longrightarrow> stays tabs X (smod f)"
  by (simp add: within_def)

lemma within_same_store: "(\<And>s. sh_store (snd (m s)) = sh_store s) \<Longrightarrow> stays tabs X m"
  unfolding within_def by (metis snd_conv within_refl)

lemma within_at: "(\<And>s0. within tabs X (f s0) R) \<Longrightarrow> within tabs X (\<lambda>s. f s s) R"
  by (simp add: within_def)

lemma within_after: "within tabs X m R \<Longrightarrow> (\<And>s. sh_store (g s) = sh_store s) \<Longrightarrow> within tabs X (\<lambda>s. m (g s)) R"
  unfolding within_def by metis

lemma within_cases:
  "within tabs X m R \<Longrightarrow> within tabs X m' R \<Longrightarrow> within tabs X (\<lambda>s. if c s then m s else m' s) R"
  "within tabs X m R \<Longrightarrow> (\<And>x. within tabs X (f x) R) \<Longrightarrow> within tabs X (\<lambda>s. case o' s of None \<Rightarrow> m s | Some x \<Rightarrow> f x s) R"
  "(\<And>x. e s0 = Inr x \<Longrightarrow> R x) \<Longrightarrow> within tabs X (\<lambda>s. (e s0, s)) R"
  "(\<And>s x. e' s = Inr x \<Longrightarrow> R x) \<Longrightarrow> within tabs X (\<lambda>s. (e' s, s)) R"
  by (auto simp: within_def split: option.splits)

lemma within_weaken: "within tabs X m R \<Longrightarrow> (\<And>x. R x \<Longrightarrow> Q x) \<Longrightarrow> within tabs X m Q"
  unfolding within_def by blast

context backend_contract
begin

lemma within_commit [keeping]:
  assumes "cx_backend X = B" "local_ops X ops"
  shows "stays tabs X (inner_commit X ops)"
  unfolding within_def
proof (intro allI impI conjI)
  fix s r s'
  assume run: "inner_commit X ops s = (r, s')"
  let ?opts = "\<lparr>co_durability = lc_durability (cx_config X)\<rparr>"
  obtain c b where c: "bk_commit_with B ops ?opts (sh_store s) = (c, b)" by fastforce
  have s': "sh_store s' = b"
    using run c assms(1) by (auto simp: inner_commit_def sbind_def on_store_def Let_def post_news_def split: sum.splits option.splits)
  show "writes_within tabs X (sh_store s) (sh_store s')"
  proof (cases c)
    case (Inl e)
    then show ?thesis using within_same commit_error_spec c s' by metis
  next
    case (Inr u)
    then show ?thesis using commit_spec c s' assms(2) unfolding writes_within_def by metis
  qed
qed simp

lemma within_flush_backend [keeping]: "cx_backend X = B \<Longrightarrow> stays tabs X (flush_backend X)"
  unfolding within_def by (auto simp: flush_backend_def on_store_def split: prod.splits if_splits intro: within_same flush_spec)

lemma put_ops_within: "cx_backend X = B \<Longrightarrow> within tabs X (put_payload_ops X key payload flags pr) (local_ops X)"
  unfolding put_payload_ops_def
proof (rule within_sbind [OF within_pure(2) [where R = "local_ops X"]])
  fix gc
  assume B: "cx_backend X = B" and gc: "local_ops X gc"
  show "within tabs X (if stores_inline X (length payload) flags
      then slift (rbind (seal (cx_chain X) payload) (\<lambda>sealed. Inr (gc @ [Op_Put Records (encode_key X key) sealed])))
      else sbind (next_value_id X) (\<lambda>vid.
        if lc_chunk_size (cx_config X) = 0 then slift (Inl (Panicked ''chunk size must be non-zero''))
        else sbind (slift (piece_ops (cx_chain X) vid 0 (pieces (lc_chunk_size (cx_config X)) payload)))
          (\<lambda>(ops, n). sread (\<lambda>s. let pointer = \<lparr>cp_value_id = vid, cp_n_chunks = n, cp_total_len = of_nat (length payload), cp_flags = flags\<rparr>
             in Inr (gc @ ops @ [Op_Put Records (encode_key X key) (pointer_encode pointer)] @
                  (case value_counter_op s of Some op \<Rightarrow> [op] | None \<Rightarrow> [])))))) (local_ops X)"
  proof (cases "stores_inline X (length payload) flags")
    case True
    then show ?thesis using gc by (auto intro!: within_pure(1) simp: rbind_eq_Inr_iff)
  next
    case False
    have "stays tabs X (next_value_id X :: (('b, 'z) shared_scheme, error, u64) act)"
      by (rule within_same_store) (simp add: next_value_id_def on_values_def split: prod.split)
    then show ?thesis
      using False gc
      by (auto intro!: within_sbind [where R = "\<lambda>_. True"] within_sbind [where R = "\<lambda>(ops, n). local_ops X ops"] within_pure
          simp: Let_def value_counter_op_def vid_counter_op_def dest: piece_ops_local split: option.splits)
  qed
qed (rule gc_existing_local)

lemma action_ops_within: "cx_backend X = B \<Longrightarrow> within tabs X (action_ops X mode ka) (local_ops X)"
  by (auto simp: action_ops_def split: prod.split action.split tx_mode.split
      intro!: within_pure put_ops_within dest: delete_ops_local eager_put_ops_local)

lemma items_within: "cx_backend X = B \<Longrightarrow> within tabs X (ops_for_items X items mode) (local_ops X)"
proof -
  assume B: "cx_backend X = B"
  have acts: "within tabs X (mapM_s (action_ops X mode) kas) (list_all (local_ops X))" for kas
  proof (induction kas)
    case (Cons ka kas)
    then show ?case
      by (auto intro!: within_sbind [OF action_ops_within [OF B]] within_sbind [where R = "list_all (local_ops X)"] within_pure)
  qed (simp add: within_def)
  obtain found rest where "after_last_clear items = (found, rest)" by fastforce
  moreover have "local_ops X ops" if "(if found then clear_value_ops X b else Inr []) = Inr ops" for b ops
    using that clear_ops_local by (auto split: if_splits)
  ultimately show ?thesis
    by (auto simp: ops_for_items_def list_all_iff intro!: within_sbind [where R = "local_ops X"] within_sbind [OF acts] within_pure)
qed

lemma within_or_restage:
  fixes m :: "(('b, 'q, 'z) resident_scheme, error, 'a) act"
  shows "within tabs X m R \<Longrightarrow> within tabs X (or_restage es m) R"
  unfolding within_def or_restage_def by (fastforce simp: restage_def split: prod.splits sum.splits)

lemma budget_within:
  assumes "cx_backend X = B" "local_ops X ops"
  shows "within tabs X (budget_ops X ops us rs cl keep :: (('b, 'q, 'z) resident_scheme, error, budget \<times> bop list) act) (\<lambda>(bg, ops). local_ops X ops)"
proof -
  have tick: "stays tabs X (next_tick X :: (('b, 'q, 'z) resident_scheme, error, u64) act)"
    by (rule within_same_store) (simp add: next_tick_def on_ticks_def split: prod.split)
  have reload: "stays tabs X (reload_lru_if_dirty X :: (('b, 'q, 'z) resident_scheme, error, unit) act)"
    by (rule within_same_store)
      (auto simp: reload_lru_if_dirty_def sbind_def on_ticks_def on_lru_def split: option.split prod.split sum.split)
  have core: "within tabs X (\<lambda>s :: ('b, 'q, 'z) resident_scheme. case rs_lru s of None \<Rightarrow> (Inr (budget_default, ops), s)
      | Some l \<Rightarrow>
          let updates = map (\<lambda>(key, n). (key, \<lparr>en_tick = tick, en_bytes = n\<rparr>)) us;
              p = lru_plan l updates rs cl (lr_max_bytes l) keep;
              (pend, pend_ops) = (if cl then ([], []) else pending_ops l (cx_id X) (map fst updates));
              ops = ops @ (if cl then [lru_clear_op (cx_id X)] else []) @ map (\<lambda>(key, e). lru_put_op (cx_id X) key e) updates
                    @ pend_ops @ map (lru_delete_op (cx_id X)) rs
          in (rbind (victim_ops X (sh_store s) (pl_victims p)) (\<lambda>vops.
                Inr (\<lparr>bg_updates = updates, bg_removals = rs, bg_cleared = cl, bg_plan = p, bg_pending = pend\<rparr>,
                     ops @ vops @ [tick_counter_op (sh_ticks s)])), s)) (\<lambda>(bg, ops). local_ops X ops)" for tick
  proof (rule within_cases(2))
    fix l
    have pend: "local_ops X (snd (if cl then ([], []) else pending_ops l (cx_id X) skip))" for skip
      using pending_ops_local [of X l skip] by simp
    have ups: "local_ops X (map (\<lambda>p. lru_put_op (cx_id X) (fst p) \<lparr>en_tick = tick, en_bytes = snd p\<rparr>) xs)" "local_ops X (map (lru_delete_op (cx_id X)) ys)" for xs ys
      by (auto simp: list_all_iff)
    show "within tabs X (\<lambda>s :: ('b, 'q, 'z) resident_scheme.
          let updates = map (\<lambda>(key, n). (key, \<lparr>en_tick = tick, en_bytes = n\<rparr>)) us;
              p = lru_plan l updates rs cl (lr_max_bytes l) keep;
              (pend, pend_ops) = (if cl then ([], []) else pending_ops l (cx_id X) (map fst updates));
              ops = ops @ (if cl then [lru_clear_op (cx_id X)] else []) @ map (\<lambda>(key, e). lru_put_op (cx_id X) key e) updates
                    @ pend_ops @ map (lru_delete_op (cx_id X)) rs
          in (rbind (victim_ops X (sh_store s) (pl_victims p)) (\<lambda>vops.
                Inr (\<lparr>bg_updates = updates, bg_removals = rs, bg_cleared = cl, bg_plan = p, bg_pending = pend\<rparr>,
                     ops @ vops @ [tick_counter_op (sh_ticks s)])), s)) (\<lambda>(bg, ops). local_ops X ops)"
      using pend [of "map fst (map (\<lambda>(key, n). (key, \<lparr>en_tick = tick, en_bytes = n\<rparr>)) us)"] assms(2) ups
      by (auto simp: within_def Let_def rbind_eq_Inr_iff case_prod_unfold comp_def intro: victim_ops_local)
  qed (use assms(2) in \<open>simp add: within_def\<close>)
  show ?thesis
    unfolding budget_ops_def
    by (rule within_cases(1), use assms(2) in \<open>simp add: within_def\<close>, rule within_sbind [OF reload], rule within_sbind [OF tick], rule core)
qed

lemma batch_within:
  fixes X :: "('b, 'q) ctx"
  assumes "cx_backend X = B"
  shows "stays tabs X (commit_batch X mode back batch :: (('b, 'q, 'z) resident_scheme, error, budget) act)"
proof -
  have items: "within tabs X (ops_for_pending X batch mode :: (('b, 'q, 'z) resident_scheme, error, bop list) act) (local_ops X)"
    unfolding ops_for_pending_def by (rule items_within [OF assms])
  show ?thesis
  unfolding commit_batch_def
proof (rule within_sbind [OF within_or_restage [OF items]])
  fix ops
  assume ops: "local_ops X ops"
  obtain us rs cl where acc: "accounting batch = (us, rs, cl)" by (metis surj_pair)
  have "stays tabs X (sbind (or_restage back (budget_ops X ops us rs cl (map fst us))) (\<lambda>(bg, ops).
         sbind (or_restage back (inner_commit X ops)) (\<lambda>_. sret bg)) :: (('b, 'q, 'z) resident_scheme, error, budget) act)"
  proof (rule within_sbind [OF within_or_restage [OF budget_within [OF assms ops]]], clarify)
    fix bg ops'
    assume "local_ops X ops'"
    then show "stays tabs X (sbind (or_restage back (inner_commit X ops')) (\<lambda>_. sret bg) :: (('b, 'q, 'z) resident_scheme, error, budget) act)"
      using within_sbind [OF within_or_restage [OF within_commit [OF assms]] within_pure(3)] by fastforce
  qed
  then show "stays tabs X ((case accounting batch of (us, rs, cl) \<Rightarrow> sbind (or_restage back (budget_ops X ops us rs cl (map fst us))) (\<lambda>(bg, ops).
         sbind (or_restage back (inner_commit X ops)) (\<lambda>_. sret bg))) :: (('b, 'q, 'z) resident_scheme, error, budget) act)"
    by (simp add: acc)
qed
qed

section \<open>The calls of a locker\<close>

lemma flush_locked_within [keeping]:
  fixes X :: "('b, 'q) ctx"
  assumes "cx_backend X = B"
  shows "stays tabs X (flush_locked X :: (('b, 'q, 'z) resident_scheme, error, unit) act)"
proof -
  have "stays tabs X (sbind (commit_batch X m es es) (\<lambda>bg. smod (apply_budget X bg)) :: (('b, 'q, 'z) resident_scheme, error, unit) act)" for m es
    by (rule within_sbind [OF batch_within [OF assms] within_smod]) (simp add: apply_budget_fields)
  from withinD [OF this] show ?thesis
    unfolding within_def by (fastforce simp: flush_locked_def take_staged_def split: if_splits)
qed

lemma resident_flush_within [keeping]:
  fixes X :: "('b, 'q) ctx"
  shows "cx_backend X = B \<Longrightarrow> stays tabs X (resident_flush X :: (('b, 'q, 'z) resident_scheme, error, unit) act)"
  using flush_locked_within unfolding within_def by (auto simp: resident_flush_def split: if_splits)

lemma flush_if_within:
  fixes X :: "('b, 'q) ctx"
  shows "cx_backend X = B \<Longrightarrow> stays tabs X (flush_if X c :: (('b, 'q, 'z) resident_scheme, error, unit) act)"
  by (simp add: flush_if_def flush_locked_within within_pure)

lemma staged_within:
  fixes X :: "('b, 'q) ctx" and g :: "('b, 'q, 'z) resident_scheme \<Rightarrow> ('b, 'q, 'z) resident_scheme"
  assumes "cx_backend X = B" "\<And>s. sh_store (g s) = sh_store s"
  shows "stays tabs X (\<lambda>s. case stage X p s of (full, s) \<Rightarrow> flush_if X full (g s))"
  using flush_if_within [OF assms(1)] assms(2) unfolding within_def stage_def by (fastforce simp: Let_def)

lemma ensure_within:
  assumes "stays tabs X m"
  shows "stays tabs X (sbind ensure_open (\<lambda>_. m))"
  by (rule within_sbind [where R = "\<lambda>_. True"], unfold ensure_open_def, rule within_pure, simp, rule assms)

lemma note_read_within: "stays tabs X (note_read X k :: (('b, 'q, 'z) resident_scheme, error, unit) act)"
  by (rule within_same_store)
    (simp add: note_read_def next_tick_def on_ticks_def on_lru_def sbind_def split: prod.split sum.split)

text \<open>A budget and a commit, as the immediate writes of a lazy locker end.\<close>

lemma budgeted_within:
  fixes X :: "('b, 'q) ctx" and g :: "budget \<Rightarrow> ('b, 'q, 'z) resident_scheme \<Rightarrow> ('b, 'q, 'z) resident_scheme"
  assumes "cx_backend X = B" "local_ops X ops" "\<And>bg s. sh_store (g bg s) = sh_store s"
  shows "stays tabs X (sbind (budget_ops X ops us rs cl keep) (\<lambda>(bg, ops). sbind (inner_commit X ops) (\<lambda>_. smod (g bg))))"
  by (rule within_sbind [OF budget_within [OF assms(1,2)]], clarify,
      rule within_sbind [OF within_commit [OF assms(1)]], assumption, rule within_smod, rule assms(3))

lemma branch_within:
  "(c \<Longrightarrow> stays tabs X m) \<Longrightarrow> (\<not> c \<Longrightarrow> stays tabs X m') \<Longrightarrow> stays tabs X (\<lambda>s. if c then m s else m' s)"
  "(c \<Longrightarrow> stays tabs X m) \<Longrightarrow> (\<not> c \<Longrightarrow> stays tabs X m') \<Longrightarrow> stays tabs X (if c then m else m')"
  by (cases c; simp)+

lemma lazy_put_within:
  fixes X :: "('b, 'q) ctx"
  assumes B: "cx_backend X = B"
  shows "stays tabs X (lazy_put_by X sd k v :: (('b, 'q, 'z) resident_scheme, error, unit) act)"
proof -
  have "stays tabs X (\<lambda>s :: ('b, 'q, 'z) resident_scheme. sbind (put_payload_ops X k payload FLAG_POSTCARD (prior_of s k)) (\<lambda>ops.
      sbind (budget_ops X ops [(k, of_nat (length payload))] [] False [k]) (\<lambda>(bg, ops).
      sbind (inner_commit X ops) (\<lambda>_. smod (\<lambda>s. announce X (Ev_Put k) (apply_budget X bg
        (note_inline k (stores_inline X (length payload) FLAG_POSTCARD) (touch_index (ks_insert k) s))))))) s)" for payload
    by (rule within_at, rule within_sbind [OF put_ops_within [OF B]], rule budgeted_within [OF B])
      (simp_all add: apply_budget_fields)
  moreover have "stays tabs X (\<lambda>s :: ('b, 'q, 'z) resident_scheme. case stage X (Pend_Put k payload) s of (full, s) \<Rightarrow>
      flush_if X full (announce X (Ev_Put k) (note_inline k False (touch_index (ks_insert k) s))))" for payload
    by (rule staged_within [OF B]) simp
  ultimately show ?thesis
    unfolding lazy_put_by_def
    by (cases "sd_to_vec sd v") (auto simp: Let_def intro!: ensure_within branch_within within_cases(3))
qed

lemma lazy_delete_within:
  fixes X :: "('b, 'q) ctx"
  assumes B: "cx_backend X = B"
  shows "stays tabs X (lazy_delete_by X k :: (('b, 'q, 'z) resident_scheme, error, unit) act)"
  unfolding lazy_delete_by_def
proof (rule ensure_within, rule branch_within)
  show "stays tabs X (\<lambda>s :: ('b, 'q, 'z) resident_scheme. case stage X (Pend_Delete k) s of (full, s) \<Rightarrow>
      flush_if X full (announce X (Ev_Deleted k) (note_inline k False (touch_index (bt_remove k) s))))"
    by (rule staged_within [OF B]) simp
  show "stays tabs X (sbind (sread (\<lambda>s :: ('b, 'q, 'z) resident_scheme. delete_value_ops X (sh_store s) k (prior_of s k))) (\<lambda>ops.
      sbind (budget_ops X ops [] [k] False []) (\<lambda>(bg, ops). sbind (inner_commit X ops) (\<lambda>_.
        smod (\<lambda>s. announce X (Ev_Deleted k) (apply_budget X bg (note_inline k False (touch_index (bt_remove k) s))))))))"
    by (rule within_sbind [where R = "local_ops X"], rule within_pure, erule delete_ops_local,
        rule budgeted_within [OF B]) (simp_all add: apply_budget_fields)
qed

lemma lazy_clear_within:
  fixes X :: "('b, 'q) ctx"
  assumes B: "cx_backend X = B"
  shows "stays tabs X (lazy_clear X :: (('b, 'q, 'z) resident_scheme, error, unit) act)"
  unfolding lazy_clear_def
proof (rule ensure_within, rule branch_within)
  show "stays tabs X (\<lambda>s :: ('b, 'q, 'z) resident_scheme. case stage X Pend_Clear s of (full, s) \<Rightarrow>
      flush_if X full (announce X Ev_Cleared (forget_inline (touch_index (\<lambda>_. bt_empty) s))))"
    by (rule staged_within [OF B]) simp
  show "stays tabs X (sbind (sread (\<lambda>s :: ('b, 'q, 'z) resident_scheme. clear_value_ops X (sh_store s))) (\<lambda>ops.
      sbind (budget_ops X ops [] [] True []) (\<lambda>(bg, ops). sbind (inner_commit X ops) (\<lambda>_.
        smod (\<lambda>s. announce X Ev_Cleared (apply_budget X bg (forget_inline (touch_index (\<lambda>_. bt_empty) s))))))))"
    by (rule within_sbind [where R = "local_ops X"], rule within_pure, erule clear_ops_local,
        rule budgeted_within [OF B]) (simp_all add: apply_budget_fields)
qed

lemma lazy_transact_within:
  fixes X :: "('b, 'q) ctx"
  assumes B: "cx_backend X = B"
  shows "stays tabs X (lazy_transact X f :: (('b, 'q, 'z) resident_scheme, error, unit) act)"
  unfolding lazy_transact_def
proof (rule ensure_within)
  have go: "stays tabs X (sbind (commit_batch X TxLazy old batch) (\<lambda>bg. smod (\<lambda>s. fold (\<lambda>e. announce X (event_of_staged e)) es
      (apply_budget X bg (forget_inline (touch_index g s))))) :: (('b, 'q, 'z) resident_scheme, error, unit) act)" for old batch es g
    by (rule within_sbind [OF batch_within [OF B] within_smod]) (simp add: apply_budget_fields fold_announce)
  show "stays tabs X (\<lambda>s :: ('b, 'q, 'z) resident_scheme. case f (sh_store s) [] of
         (Inl e, entries) \<Rightarrow> (Inl e, s)
       | (Inr _, entries) \<Rightarrow>
           if entries = [] then (Inr (), s)
           else
             (case take_staged s of (staged_before, s) \<Rightarrow>
                sbind (commit_batch X TxLazy staged_before (merge_batches staged_before entries)) (\<lambda>bg.
                  smod (\<lambda>s. fold (\<lambda>e. announce X (event_of_staged e)) entries
                    (apply_budget X bg (forget_inline (touch_index (fold index_staged entries) s))))) s))"
    unfolding within_def
    using withinD [OF go] by (fastforce simp: take_staged_def split: prod.splits sum.splits if_splits)
qed

lemma flush_both_within:
  fixes X :: "('b, 'q) ctx" and g :: "unit result \<Rightarrow> ('b, 'q, 'z) resident_scheme \<Rightarrow> ('b, 'q, 'z) resident_scheme"
  assumes B: "cx_backend X = B" and g: "\<And>r s. sh_store (g r s) = sh_store s" and h: "\<And>s. sh_store (h s) = sh_store s"
  shows "stays tabs X (\<lambda>s. case resident_flush X s of (flushed, s) \<Rightarrow>
      case flush_backend X (g flushed s) of (forced, s) \<Rightarrow> (result_and flushed forced, h s))"
  unfolding within_def
proof (intro allI impI conjI)
  fix s r s'
  assume run: "(case resident_flush X s of (flushed, s) \<Rightarrow>
      case flush_backend X (g flushed s) of (forced, s) \<Rightarrow> (result_and flushed forced, h s)) = (r, s')"
  obtain a u where a: "resident_flush X s = (a, u)" by fastforce
  obtain c v where c: "flush_backend X (g a u) = (c, v)" by fastforce
  have s': "s' = h v" using run a c by simp
  have "writes_within tabs X (sh_store s) (sh_store u)" using withinD [OF resident_flush_within [OF B] a] by blast
  moreover have "writes_within tabs X (sh_store u) (sh_store v)" using withinD [OF within_flush_backend [OF B] c] g by simp
  ultimately show "writes_within tabs X (sh_store s) (sh_store s')" using within_trans h s' by metis
qed simp

lemma lazy_flush_within:
  fixes X :: "('b, 'q) ctx"
  shows "cx_backend X = B \<Longrightarrow> stays tabs X (lazy_flush X :: (('b, 'q, 'z) resident_scheme, error, unit) act)"
  using flush_both_within [of X "\<lambda>_ s. s" "\<lambda>s. s"] unfolding lazy_flush_def [abs_def] by simp

lemma lazy_close_within:
  fixes X :: "('b, 'q) ctx"
  shows "cx_backend X = B \<Longrightarrow> stays tabs X (lazy_close X :: (('b, 'q, 'z) resident_scheme, error, unit) act)"
  unfolding lazy_close_def [abs_def] Let_def
  by (erule flush_both_within) (simp_all add: discard_staged_def mark_closed_def split: sum.split)

lemma lazy_get_within:
  fixes X :: "('b, 'q) ctx"
  assumes B: "cx_backend X = B"
  shows "stays tabs X (lazy_get_by X sd k :: (('b, 'q, 'z) resident_scheme, error, 't option) act)"
  unfolding lazy_get_by_def
proof (rule ensure_within)
  have note_it: "stays tabs X (sbind (note_read X k) (\<lambda>_. slift found) :: (('b, 'q, 'z) resident_scheme, error, 't option) act)" for found
    by (rule within_sbind [OF note_read_within]) (simp add: within_pure)
  show "stays tabs X (\<lambda>s :: ('b, 'q, 'z) resident_scheme. case staged_view (rs_staged s) k of
         Some view \<Rightarrow> (view_value sd view, s)
       | None \<Rightarrow>
           (case load_and_note X sd k s of (found, s) \<Rightarrow>
              (case found of
                 Inr (Some v) \<Rightarrow> sbind (note_read X k) (\<lambda>_. slift found) s
               | _ \<Rightarrow> (found, s))))"
    unfolding within_def load_and_note_def using withinD [OF note_it]
    by (fastforce simp: note_corrupt_def split: option.splits sum.splits if_splits)
qed

lemma evict_within:
  fixes X :: "('b, 'q) ctx"
  assumes B: "cx_backend X = B"
  shows "stays tabs X (lazy_evict_to X n :: (('b, 'q, 'z) resident_scheme, error, nat) act)"
  unfolding lazy_evict_to_def
proof (rule ensure_within)
  have go: "stays tabs X (sbind (slift (victim_ops X b vs)) (\<lambda>ops. sbind (inner_commit X ops) (\<lambda>_.
      sbind (smod (apply_budget X bg)) (\<lambda>_. sret m))) :: (('b, 'q, 'z) resident_scheme, error, nat) act)" for b vs bg m
  proof (rule within_sbind [where R = "local_ops X"], rule within_pure, erule victim_ops_local)
    show "stays tabs X (sbind (inner_commit X ops) (\<lambda>_. sbind (smod (apply_budget X bg)) (\<lambda>_. sret m))
        :: (('b, 'q, 'z) resident_scheme, error, nat) act)" if "local_ops X ops" for ops
      by (rule within_sbind [OF within_commit [OF B that]], rule within_sbind [OF within_smod])
        (simp_all add: apply_budget_fields within_pure)
  qed
  show "stays tabs X (evict_to X n :: (('b, 'q, 'z) resident_scheme, error, nat) act)"
    unfolding within_def
  proof (intro allI impI conjI)
    fix s :: "('b, 'q, 'z) resident_scheme" and r s'
    assume "evict_to X n s = (r, s')"
    then show "writes_within tabs X (sh_store s) (sh_store s')"
      using withinD [OF go] by (auto simp: evict_to_def Let_def split: option.splits if_splits)
  qed simp
qed

lemma eager_put_within:
  fixes X :: "('b, 'q) ctx"
  assumes B: "cx_backend X = B"
  shows "stays tabs X (eager_put_by X sd k v :: (('b, 'q, 't) eager, error, 't) act)"
proof -
  let ?keep = "\<lambda>s. announce X (Ev_Put k) (forget_dropped k (eg_insert k v s))"
  have direct: "stays tabs X (sbind (inner_commit X [Op_Put Records (encode_key X k) sealed]) (\<lambda>_.
      sbind (smod ?keep) (\<lambda>_. sret v)))" for sealed
    by (rule within_sbind [OF within_commit [OF B]], simp, rule within_sbind [OF within_smod]) (simp_all add: within_pure)
  have later: "stays tabs X (\<lambda>s. case stage X (Pend_Put k payload) s of (full, s) \<Rightarrow> sbind (flush_if X full) (\<lambda>_. sret v) (?keep s))" for payload
  proof -
    have "stays tabs X (sbind (flush_if X full) (\<lambda>_. sret v) :: (('b, 'q, 't) eager, error, 't) act)" for full
      by (rule within_sbind [OF flush_if_within [OF B]]) (simp add: within_pure)
    from withinD [OF this] show ?thesis unfolding within_def stage_def by (fastforce simp: Let_def)
  qed
  have "stays tabs X (\<lambda>s. if length sealed > lc_max_inline (cx_config X) then
         (Inl (ValueTooLarge (length sealed) (lc_max_inline (cx_config X))), s)
       else if is_deferred X then
         (case sd_to_vec sd v of
            Inl e \<Rightarrow> (Inl (FilterFailed (''postcard serialisation failed: '' @ e)), s)
          | Inr payload \<Rightarrow>
              (case stage X (Pend_Put k payload) s of (full, s) \<Rightarrow> sbind (flush_if X full) (\<lambda>_. sret v) (?keep s)))
       else sbind (inner_commit X [Op_Put Records (encode_key X k) sealed]) (\<lambda>_. sbind (smod ?keep) (\<lambda>_. sret v)) s)" for sealed
    by (cases "sd_to_vec sd v") (auto intro!: branch_within direct later within_cases(3))
  then show ?thesis
    unfolding eager_put_by_def
    by (intro ensure_within within_sbind [where R = "\<lambda>_. True"] within_pure) simp
qed

lemma eager_delete_within:
  fixes X :: "('b, 'q) ctx"
  assumes B: "cx_backend X = B"
  shows "stays tabs X (eager_delete_by X k :: (('b, 'q, 't) eager, error, unit) act)"
  unfolding eager_delete_by_def
proof (rule ensure_within)
  have kept: "sh_store (if held then announce X (Ev_Deleted k) (forget_dropped k (eg_remove k s)) else forget_dropped k (eg_remove k s)) = sh_store s"
    for held and s :: "('b, 'q, 't) eager" by simp
  have "stays tabs X (\<lambda>s. case stage X (Pend_Delete k) s of (full, s) \<Rightarrow> flush_if X full
      (if held then announce X (Ev_Deleted k) (forget_dropped k (eg_remove k s)) else forget_dropped k (eg_remove k (s :: ('b, 'q, 't) eager))))" for held
    by (rule staged_within [OF B kept])
  moreover have "stays tabs X (sbind (inner_commit X [delete_op X k]) (\<lambda>_. smod (\<lambda>s :: ('b, 'q, 't) eager.
      if held then announce X (Ev_Deleted k) (forget_dropped k (eg_remove k s)) else forget_dropped k (eg_remove k s))))" for held
    by (rule within_sbind [OF within_commit [OF B] within_smod [OF kept]]) simp
  ultimately show "stays tabs X (\<lambda>s :: ('b, 'q, 't) eager.
       let held = eager_holds s k; tell = (\<lambda>s. if held then announce X (Ev_Deleted k) s else s) in
       if \<not> held \<and> index_is_authoritative s then (Inr (), s)
       else if is_deferred X then
         (case stage X (Pend_Delete k) s of (full, s) \<Rightarrow>
            flush_if X full (tell (forget_dropped k (eg_remove k s))))
       else
         sbind (inner_commit X [delete_op X k]) (\<lambda>_.
           smod (\<lambda>s. tell (forget_dropped k (eg_remove k s)))) s)"
    unfolding Let_def
    by (intro within_at [where f = "\<lambda>s0 s. if \<not> eager_holds s0 k \<and> index_is_authoritative s0 then (Inr (), s) else _ s0 s"])
      (auto intro!: branch_within within_cases(3))
qed

lemma eager_clear_within:
  fixes X :: "('b, 'q) ctx"
  assumes B: "cx_backend X = B"
  shows "stays tabs X (eager_clear X :: (('b, 'q, 't) eager, error, unit) act)"
  unfolding eager_clear_def
  by (intro ensure_within branch_within staged_within [OF B] within_sbind [OF within_commit [OF B] within_smod]) simp_all

lemma eager_folds_store: "sh_store (snd (eager_fold_all es s)) = sh_store s"
proof (induction es arbitrary: s)
  case (Cons e es)
  show ?case using Cons.IH [of "snd (eager_fold e s)"] by (cases e) (auto split: prod.splits)
qed simp

lemma eager_tells_store: "sh_store (fold (eager_announce X) rs s) = sh_store s"
proof (induction rs arbitrary: s)
  case (Cons r rs)
  show ?case by (cases r; cases "fst r") (simp_all add: Cons.IH)
qed simp

lemma eager_transact_within:
  fixes X :: "('b, 'q) ctx"
  assumes B: "cx_backend X = B"
  shows "stays tabs X (eager_transact X f :: (('b, 'q, 't) eager, error, unit) act)"
  unfolding eager_transact_def
proof (rule ensure_within)
  have go: "stays tabs X (sbind (or_restage old (ops_for_pending X batch TxEager)) (\<lambda>ops.
      sbind (or_restage old (inner_commit X ops)) (\<lambda>_.
        smod (\<lambda>s. case eager_fold_all entries s of (rs, s) \<Rightarrow> fold (eager_announce X) (zip entries rs) s)))
      :: (('b, 'q, 't) eager, error, unit) act)" for old batch entries
    unfolding ops_for_pending_def
    by (rule within_sbind [OF within_or_restage [OF items_within [OF B]]],
        rule within_sbind [OF within_or_restage [OF within_commit [OF B]]], assumption, rule within_smod)
      (simp add: eager_tells_store eager_folds_store split: prod.split, metis eager_folds_store snd_conv)
  show "stays tabs X (\<lambda>s :: ('b, 'q, 't) eager. case f (sh_store s) [] of
         (Inl e, entries) \<Rightarrow> (Inl e, s)
       | (Inr _, entries) \<Rightarrow>
           if entries = [] then (Inr (), s)
           else
             (case take_staged s of (staged_before, s) \<Rightarrow>
                sbind (or_restage staged_before
                         (ops_for_pending X (merge_batches staged_before entries) TxEager)) (\<lambda>ops.
                sbind (or_restage staged_before (inner_commit X ops)) (\<lambda>_.
                  smod (\<lambda>s. case eager_fold_all entries s of (rs, s) \<Rightarrow>
                    fold (eager_announce X) (zip entries rs) s))) s))"
    unfolding within_def
    using withinD [OF go] by (fastforce simp: take_staged_def split: prod.splits sum.splits if_splits)
qed

lemma eager_flush_within:
  fixes X :: "('b, 'q) ctx"
  shows "cx_backend X = B \<Longrightarrow> stays tabs X (eager_flush X :: (('b, 'q, 't) eager, error, unit) act)"
  using flush_both_within [of X "\<lambda>_ s. s" "\<lambda>s. s"] unfolding eager_flush_def [abs_def] by simp

lemma eager_close_within:
  fixes X :: "('b, 'q) ctx"
  shows "cx_backend X = B \<Longrightarrow> stays tabs X (eager_close X :: (('b, 'q, 't) eager, error, unit) act)"
  unfolding eager_close_def [abs_def] Let_def
  by (erule flush_both_within) (simp_all add: discard_staged_def mark_closed_def split: sum.split)

end

end
