(* ===== verification/Handle.thy ===== *)
theory Handle
  imports Bank
begin

text \<open>
  \<open>src/handle.rs\<close>: the job queue between \<open>BankHandle\<close>s and the one task that serves them. A job carries
  no reply channel here; what is sent on it is the \<open>reply\<close> that \<open>serve\<close> returns. Sending on a
  \<open>oneshot\<close> whose receiver is gone is ignored by the code, so a reply changes no state.
\<close>

definition JOB_QUEUE :: nat where
  "JOB_QUEUE = 128"

datatype job =
    Job_Get string bytes
  | Job_Put string bytes bytes
  | Job_Delete string bytes
  | Job_Keys string bytes
  | Job_Clear string
  | Job_GetMany string "bytes list"
  | Job_PutAll string "(bytes \<times> bytes) list"
  | Job_DeleteAll string "bytes list"
  | Job_Entries string bytes
  | Job_ContainsKey string bytes
  | Job_Len string
  | Job_LockerExists string
  | Job_LockerNames
  | Job_DeleteLocker string
  | Job_FlushAll
  | Job_Persist
  | Job_IsPersisted
  | Job_ReportUsage

datatype reply =
    Rep_Unit "unit result"
  | Rep_Value "bytes option result"
  | Rep_Values "bytes option list result"
  | Rep_Keys "bytes list result"
  | Rep_Entries "(bytes \<times> bytes) list result"
  | Rep_Bool "bool result"
  | Rep_Nat "nat result"
  | Rep_Names "string list result"
  | Rep_Usage "usage option result"

definition answer :: "('a result \<Rightarrow> reply) \<Rightarrow> 'a result \<times> 's \<Rightarrow> reply \<times> 's" where
  "answer f rs = (f (fst rs), snd rs)"

fun serve :: "('b, 'q) env \<Rightarrow> job \<Rightarrow> ('b, 'q, 'v) bank \<Rightarrow> reply \<times> ('b, 'q, 'v) bank" where
  "serve V (Job_Get l k) s = answer Rep_Value (raw_get V l k s)"
| "serve V (Job_Put l k v) s = answer Rep_Unit (raw_put V l k v s)"
| "serve V (Job_Delete l k) s = answer Rep_Unit (raw_delete V l k s)"
| "serve V (Job_Keys l p) s = answer Rep_Keys (raw_keys V l p s)"
| "serve V (Job_Clear l) s = answer Rep_Unit (raw_clear V l s)"
| "serve V (Job_GetMany l ks) s = answer Rep_Values (raw_get_many V l ks s)"
| "serve V (Job_PutAll l es) s = answer Rep_Unit (raw_put_all V l es s)"
| "serve V (Job_DeleteAll l ks) s = answer Rep_Unit (raw_delete_all V l ks s)"
| "serve V (Job_Entries l p) s = answer Rep_Entries (raw_entries V l p s)"
| "serve V (Job_ContainsKey l k) s = answer Rep_Bool (raw_contains_key V l k s)"
| "serve V (Job_Len l) s = answer Rep_Nat (raw_len V l s)"
| "serve V (Job_LockerExists n) s = (Rep_Bool (locker_exists V s n), s)"
| "serve V Job_LockerNames s = (Rep_Names (locker_names V s), s)"
| "serve V (Job_DeleteLocker n) s = answer Rep_Bool (delete_locker V n s)"
| "serve V Job_FlushAll s = answer Rep_Unit (flush_all V s)"
| "serve V Job_Persist s = answer Rep_Bool (bank_persist s)"
| "serve V Job_IsPersisted s = answer Rep_Bool (bank_is_persisted s)"
| "serve V Job_ReportUsage s = answer Rep_Usage (bank_usage V s)"

text \<open>\<open>into_service\<close>: the jobs in the order they were queued.\<close>

fun into_service :: "('b, 'q) env \<Rightarrow> job list \<Rightarrow> ('b, 'q, 'v) bank \<Rightarrow> reply list \<times> ('b, 'q, 'v) bank" where
  "into_service V [] s = ([], s)"
| "into_service V (j # js) s =
     (case serve V j s of (r, s) \<Rightarrow> case into_service V js s of (rs, s) \<Rightarrow> (r # rs, s))"

text \<open>
  \<open>dispatch\<close>: a job that finds the queue closed or full is refused at once; otherwise the answer is what
  comes back on its reply channel, or nothing when the service is gone.
\<close>

definition dispatch :: "send_result \<Rightarrow> 'a result option \<Rightarrow> 'a result" where
  "dispatch sent answered =
     (case sent of
        Send_Disconnected \<Rightarrow> Inl Closed
      | Send_Full \<Rightarrow> Inl (Backend ''the bank's job queue is full'')
      | Sent \<Rightarrow> (case answered of None \<Rightarrow> Inl Closed | Some r \<Rightarrow> r))"

lemma into_service_append:
  "into_service V (js @ ks) s =
     (case into_service V js s of (rs, s) \<Rightarrow> case into_service V ks s of (rs', s) \<Rightarrow> (rs @ rs', s))"
  by (induction js arbitrary: s) (auto split: prod.splits)

end
