(* ===== verification/Remote.thy ===== *)
theory Remote
  imports Handle
begin

text \<open>
  \<open>src/handle.rs\<close>: the methods of \<open>BankHandle\<close> and the service they reach. A method builds a job, posts
  it and reads its own reply; the typed \<open>oneshot\<close> channel of a job is the constructor of the reply it
  expects. What the queue does with a post and whether an answer ever comes back is an argument of the
  methods. The queue itself, a channel of the \<open>futures\<close> crate, is a parameter of the service.
\<close>

section \<open>The methods of a handle\<close>

type_synonym post = "job \<Rightarrow> send_result \<times> reply option"





























section \<open>The channel\<close>

text \<open>
  \<open>mpsc::Receiver::next\<close> yields a message, ends, or waits. The operations of a channel are those the code calls:
  \<open>try_send\<close> on a sender, \<open>next\<close> on the receiver, the clone and the drop of a sender, the drop of the receiver.
\<close>

datatype 'm polled = Got 'm | Ended | Waits

record ('c, 'm) channel =
  cn_try_send :: "'m \<Rightarrow> 'c \<Rightarrow> send_result \<times> 'c"
  cn_next :: "'c \<Rightarrow> 'm polled \<times> 'c"
  cn_clone_sender :: "'c \<Rightarrow> 'c"
  cn_drop_sender :: "'c \<Rightarrow> 'c"
  cn_drop_receiver :: "'c \<Rightarrow> 'c"

text \<open>What its documentation promises: messages come out in the order they went in, and a receiver ends only when every sender is gone.\<close>

locale queue_channel =
  fixes C :: "('c, nat \<times> job) channel"
    and waiting :: "'c \<Rightarrow> (nat \<times> job) list"
    and senders :: "'c \<Rightarrow> nat"
  assumes sent: "cn_try_send C m c = (Sent, c') \<Longrightarrow> waiting c' = waiting c @ [m] \<and> senders c' = senders c"
    and refused: "cn_try_send C m c = (a, c') \<Longrightarrow> a \<noteq> Sent \<Longrightarrow> waiting c' = waiting c \<and> senders c' = senders c"
    and got: "cn_next C c = (Got m, c') \<Longrightarrow> waiting c = m # waiting c' \<and> senders c' = senders c"
    and ended: "cn_next C c = (Ended, c') \<Longrightarrow> senders c = 0 \<and> waiting c = [] \<and> c' = c"
    and waits: "cn_next C c = (Waits, c') \<Longrightarrow> waiting c = [] \<and> waiting c' = [] \<and> senders c' = senders c"
    and cloned: "waiting (cn_clone_sender C c) = waiting c" "senders (cn_clone_sender C c) = Suc (senders c)"
    and dropped: "waiting (cn_drop_sender C c) = waiting c" "senders (cn_drop_sender C c) = senders c - 1"
    and hung_up: "waiting (cn_drop_receiver C c) = []" "senders (cn_drop_receiver C c) = senders c"

section \<open>The service\<close>

text \<open>
  A call is known by the number of its reply channel: \<open>se_asked\<close> are the calls made so far with what
  \<open>try_send\<close> answered, \<open>se_replies\<close> the answers sent, in order. \<open>se_receiver\<close> says whether the bank still has
  the receiver, \<open>se_workers\<close> are the runs of \<open>into_service\<close> that took it, and \<open>se_handles\<close> counts the handles.
\<close>

datatype worker = Idle | Busy nat job | Completed

record ('b, 'q, 'v, 'c) service =
  se_bank :: "('b, 'q, 'v) bank"
  se_jobs :: 'c
  se_receiver :: bool
  se_workers :: "worker list"
  se_handles :: nat
  se_asked :: "(nat \<times> job \<times> send_result) list"
  se_replies :: "(nat \<times> reply) list"

definition service_of :: "('b, 'q, 'v) bank \<Rightarrow> 'c \<Rightarrow> ('b, 'q, 'v, 'c) service" where
  "service_of s c = \<lparr>se_bank = s, se_jobs = c, se_receiver = True, se_workers = [], se_handles = 0, se_asked = [], se_replies = []\<rparr>"

text \<open>\<open>Bank::handle\<close>, or a clone of a handle.\<close>

definition make_handle :: "('c, nat \<times> job) channel \<Rightarrow> ('b, 'q, 'v, 'c) service \<Rightarrow> ('b, 'q, 'v, 'c) service" where
  "make_handle C e = e\<lparr>se_jobs := cn_clone_sender C (se_jobs e), se_handles := Suc (se_handles e)\<rparr>"

definition drop_a_handle :: "('c, nat \<times> job) channel \<Rightarrow> ('b, 'q, 'v, 'c) service \<Rightarrow> ('b, 'q, 'v, 'c) service" where
  "drop_a_handle C e =
     (if se_handles e = 0 then e
      else e\<lparr>se_jobs := cn_drop_sender C (se_jobs e), se_handles := se_handles e - 1\<rparr>)"

text \<open>The first half of \<open>dispatch\<close>: the job goes to a clone of the handle's sender, which lives as long as the call.\<close>

definition ask_job :: "('c, nat \<times> job) channel \<Rightarrow> job \<Rightarrow> ('b, 'q, 'v, 'c) service \<Rightarrow> ('b, 'q, 'v, 'c) service" where
  "ask_job C j e =
     (if se_handles e = 0 then e
      else
        let n = length (se_asked e) in
        (case cn_try_send C (n, j) (cn_clone_sender C (se_jobs e)) of
           (a, c) \<Rightarrow> e\<lparr>se_jobs := cn_drop_sender C c, se_asked := se_asked e @ [(n, j, a)]\<rparr>))"

definition take_job_receiver :: "('b, 'q, 'v, 'c) service \<Rightarrow> bool \<times> ('b, 'q, 'v, 'c) service" where
  "take_job_receiver e = (se_receiver e, e\<lparr>se_receiver := False\<rparr>)"

text \<open>\<open>into_service\<close>: a run that gets no receiver returns at once.\<close>

definition start_service :: "('b, 'q, 'v, 'c) service \<Rightarrow> ('b, 'q, 'v, 'c) service" where
  "start_service e =
     (case take_job_receiver e of
        (taken, e) \<Rightarrow> if taken then e\<lparr>se_workers := se_workers e @ [Idle]\<rparr> else e)"

text \<open>The head of its loop and the body, at the two awaits of a round.\<close>

definition next_job :: "('c, nat \<times> job) channel \<Rightarrow> nat \<Rightarrow> ('b, 'q, 'v, 'c) service \<Rightarrow> ('b, 'q, 'v, 'c) service" where
  "next_job C i e =
     (if i < length (se_workers e) \<and> se_workers e ! i = Idle then
        (case cn_next C (se_jobs e) of
           (Got (n, j), c) \<Rightarrow> e\<lparr>se_jobs := c, se_workers := (se_workers e)[i := Busy n j]\<rparr>
         | (Ended, c) \<Rightarrow> e\<lparr>se_jobs := c, se_workers := (se_workers e)[i := Completed]\<rparr>
         | (Waits, c) \<Rightarrow> e\<lparr>se_jobs := c\<rparr>)
      else e)"

definition serve_job :: "('b, 'q) env \<Rightarrow> nat \<Rightarrow> ('b, 'q, 'v, 'c) service \<Rightarrow> ('b, 'q, 'v, 'c) service" where
  "serve_job V i e =
     (if i < length (se_workers e) then
        (case se_workers e ! i of
           Busy n j \<Rightarrow>
             (case serve V j (se_bank e) of
                (r, s) \<Rightarrow> e\<lparr>se_bank := s, se_workers := (se_workers e)[i := Idle], se_replies := se_replies e @ [(n, r)]\<rparr>)
         | _ \<Rightarrow> e)
      else e)"

text \<open>The future of a service that is dropped takes the receiver and the job in hand with it.\<close>

definition drop_service :: "('c, nat \<times> job) channel \<Rightarrow> nat \<Rightarrow> ('b, 'q, 'v, 'c) service \<Rightarrow> ('b, 'q, 'v, 'c) service" where
  "drop_service C i e =
     (if i < length (se_workers e) \<and> se_workers e ! i \<noteq> Completed then
        e\<lparr>se_jobs := cn_drop_receiver C (se_jobs e), se_workers := take i (se_workers e) @ drop (Suc i) (se_workers e)\<rparr>
      else e)"

datatype service_event = Handled | Released | Asked job | Started | Polled nat | Served nat | Aborted nat

fun service_step :: "('b, 'q) env \<Rightarrow> ('c, nat \<times> job) channel \<Rightarrow> service_event \<Rightarrow> ('b, 'q, 'v, 'c) service \<Rightarrow> ('b, 'q, 'v, 'c) service" where
  "service_step V C Handled e = make_handle C e"
| "service_step V C Released e = drop_a_handle C e"
| "service_step V C (Asked j) e = ask_job C j e"
| "service_step V C Started e = start_service e"
| "service_step V C (Polled i) e = next_job C i e"
| "service_step V C (Served i) e = serve_job V i e"
| "service_step V C (Aborted i) e = drop_service C i e"

definition service_run :: "('b, 'q) env \<Rightarrow> ('c, nat \<times> job) channel \<Rightarrow> service_event list \<Rightarrow> ('b, 'q, 'v, 'c) service
    \<Rightarrow> ('b, 'q, 'v, 'c) service" where
  "service_run V C evs e = fold (service_step V C) evs e"

text \<open>The calls the queue has taken, in order, and what a call sees: what \<open>try_send\<close> said, and its reply.\<close>

definition accepted :: "('b, 'q, 'v, 'c) service \<Rightarrow> (nat \<times> job) list" where
  "accepted e = map (\<lambda>(n, j, a). (n, j)) (filter (\<lambda>(n, j, a). a = Sent) (se_asked e))"

definition seen_by :: "('b, 'q, 'v, 'c) service \<Rightarrow> nat \<Rightarrow> post" where
  "seen_by e n j = (snd (the (map_of (se_asked e) n)), map_of (se_replies e) n)"

section \<open>The service answers in order\<close>

lemma into_service_snoc:
  "into_service V (js @ [j]) s =
     (case into_service V js s of (rs, s) \<Rightarrow> case serve V j s of (r, s) \<Rightarrow> (rs @ [r], s))"
  by (simp add: into_service_append split: prod.splits)

lemma into_service_length: "length (fst (into_service V js s)) = length js"
  by (induction js arbitrary: s) (auto split: prod.splits, metis fst_conv)

fun in_hand :: "worker list \<Rightarrow> (nat \<times> job) list" where
  "in_hand [] = []"
| "in_hand (Busy n j # ws) = (n, j) # in_hand ws"
| "in_hand (_ # ws) = in_hand ws"

text \<open>
  What has been answered is what \<open>into_service\<close> answers on the calls served so far; the rest of the accepted calls
  is in the hands of the one service there can be, or in the queue.
\<close>

definition in_order :: "('b, 'q) env \<Rightarrow> ('b, 'q, 'v) bank \<Rightarrow> (nat \<times> job) list \<Rightarrow> ('b, 'q, 'v, 'c) service \<Rightarrow> bool" where
  "in_order V s past e \<longleftrightarrow>
     se_replies e = zip (map fst past) (fst (into_service V (map snd past) s)) \<and> se_bank e = snd (into_service V (map snd past) s)"

lemma in_order_step:
  assumes "in_order V s past e" "serve V j (se_bank e) = (r, t)"
  shows "in_order V s (past @ [(n, j)]) (e\<lparr>se_bank := t, se_workers := w, se_replies := se_replies e @ [(n, r)]\<rparr>)"
proof -
  obtain rs u where i: "into_service V (map snd past) s = (rs, u)" by fastforce
  have "length rs = length past" using into_service_length [of V "map snd past" s] i by simp
  then show ?thesis using assms i by (simp add: in_order_def into_service_snoc)
qed

context queue_channel
begin

lemma senders_kept:
  "cn_try_send C m (cn_clone_sender C c) = (a, c') \<Longrightarrow> senders (cn_drop_sender C c') = senders c"
  "cn_try_send C m (cn_clone_sender C c) = (a, c') \<Longrightarrow> waiting (cn_drop_sender C c') = waiting c @ (if a = Sent then [m] else [])"
  using sent [of m "cn_clone_sender C c" c'] refused [of m "cn_clone_sender C c" a c'] cloned [of c] dropped [of c']
  by (cases "a = Sent"; simp)+

text \<open>What every event keeps.\<close>

definition service_inv :: "('b, 'q) env \<Rightarrow> ('b, 'q, 'v) bank \<Rightarrow> ('b, 'q, 'v, 'c) service \<Rightarrow> bool" where
  "service_inv V s e \<longleftrightarrow>
     (se_workers e = [] \<or> (\<exists>w. se_workers e = [w] \<and> w \<noteq> Completed \<and> \<not> se_receiver e))
     \<and> senders (se_jobs e) = Suc (se_handles e) \<and> map fst (se_asked e) = [0..<length (se_asked e)]
     \<and> (\<exists>past rest. in_order V s past e \<and> accepted e = past @ rest
          \<and> (se_receiver e \<or> se_workers e \<noteq> [] \<longrightarrow> rest = in_hand (se_workers e) @ waiting (se_jobs e)))"

lemma inv_start: "waiting c = [] \<Longrightarrow> senders c = 1 \<Longrightarrow> service_inv V s (service_of s c)"
  by (simp add: service_inv_def service_of_def in_order_def accepted_def)

lemma inv_ask:
  assumes "service_inv V s e"
  shows "service_inv V s (ask_job C j e)"
proof (cases "se_handles e = 0")
  case False
  obtain a c where c: "cn_try_send C (length (se_asked e), j) (cn_clone_sender C (se_jobs e)) = (a, c)" by fastforce
  note kept = senders_kept [OF c]
  have acc: "accepted (e\<lparr>se_jobs := d, se_asked := se_asked e @ [(n, j, a)]\<rparr>) = accepted e @ (if a = Sent then [(n, j)] else [])" for d n
    by (simp add: accepted_def)
  have "in_order V s past (e\<lparr>se_jobs := d, se_asked := x\<rparr>) = in_order V s past e" for past d x by (simp add: in_order_def)
  with assms False kept show ?thesis
    unfolding service_inv_def by (auto simp: ask_job_def Let_def c acc)
qed (use assms in \<open>simp add: ask_job_def\<close>)

lemma inv_next:
  assumes inv: "service_inv V s e"
  shows "service_inv V s (next_job C i e)"
proof (cases "i < length (se_workers e) \<and> se_workers e ! i = Idle")
  case True
  then have w: "se_workers e = [Idle]" "i = 0" using inv by (auto simp: service_inv_def)
  obtain r c where c: "cn_next C (se_jobs e) = (r, c)" by fastforce
  have same: "in_order V s past (e\<lparr>se_jobs := d, se_workers := x\<rparr>) = in_order V s past e"
      "accepted (e\<lparr>se_jobs := d, se_workers := x\<rparr>) = accepted e"
      "in_order V s past (e\<lparr>se_jobs := d\<rparr>) = in_order V s past e" "accepted (e\<lparr>se_jobs := d\<rparr>) = accepted e" for past d x
    by (simp_all add: in_order_def accepted_def)
  show ?thesis
  proof (cases r)
    case (Got m)
    obtain n j where m: "m = (n, j)" by fastforce
    from got [of "se_jobs e" m c] c Got inv w show ?thesis
      by (auto simp: service_inv_def next_job_def same m)
  next
    case Ended
    then show ?thesis using ended [of "se_jobs e" c] c inv by (auto simp: service_inv_def)
  next
    case Waits
    with waits [of "se_jobs e" c] c inv w show ?thesis
      by (auto simp: service_inv_def next_job_def same)
  qed
qed (use inv in \<open>auto simp: next_job_def\<close>)

lemma inv_serve:
  assumes inv: "service_inv V s e"
  shows "service_inv V s (serve_job V i e)"
proof (cases "\<exists>n j. i < length (se_workers e) \<and> se_workers e ! i = Busy n j")
  case True
  then obtain n j where w: "se_workers e = [Busy n j]" "i = 0" using inv by (auto simp: service_inv_def)
  obtain r t where j: "serve V j (se_bank e) = (r, t)" by fastforce
  obtain past rest where d: "in_order V s past e" "accepted e = past @ (n, j) # waiting (se_jobs e)"
    using inv w by (auto simp: service_inv_def)
  have "accepted (serve_job V i e) = accepted e" by (simp add: serve_job_def w j accepted_def)
  with in_order_step [OF d(1) j, of n "[Idle]"] d(2) inv w show ?thesis
    by (auto simp: service_inv_def serve_job_def j intro!: exI [of _ "past @ [(n, j)]"])
next
  case False
  then have "serve_job V i e = e" by (auto simp: serve_job_def split: worker.split)
  then show ?thesis using inv by simp
qed

lemma inv_rest:
  assumes inv: "service_inv V s e"
  shows "service_inv V s (make_handle C e)" "service_inv V s (drop_a_handle C e)" "service_inv V s (start_service e)"
    "service_inv V s (drop_service C i e)"
proof -
  have same: "in_order V s past (e\<lparr>se_jobs := d, se_handles := h\<rparr>) = in_order V s past e"
      "accepted (e\<lparr>se_jobs := d, se_handles := h\<rparr>) = accepted e"
      "in_order V s past (e\<lparr>se_receiver := b\<rparr>) = in_order V s past e" "accepted (e\<lparr>se_receiver := b\<rparr>) = accepted e"
      "in_order V s past (e\<lparr>se_receiver := b, se_workers := x\<rparr>) = in_order V s past e"
      "accepted (e\<lparr>se_receiver := b, se_workers := x\<rparr>) = accepted e"
      "in_order V s past (e\<lparr>se_jobs := d, se_workers := x\<rparr>) = in_order V s past e"
      "accepted (e\<lparr>se_jobs := d, se_workers := x\<rparr>) = accepted e" for past d h b x
    by (simp_all add: in_order_def accepted_def)
  show "service_inv V s (make_handle C e)" "service_inv V s (drop_a_handle C e)"
    using inv by (auto simp: service_inv_def make_handle_def drop_a_handle_def same cloned dropped)
  show "service_inv V s (start_service e)"
    using inv by (auto simp: service_inv_def start_service_def take_job_receiver_def same)
  show "service_inv V s (drop_service C i e)"
    using inv by (auto simp: service_inv_def drop_service_def same hung_up)
qed

lemma inv_run: "service_inv V s e \<Longrightarrow> service_inv V s (service_run V C evs e)"
proof (induction evs arbitrary: e)
  case (Cons ev evs)
  have "service_inv V s (service_step V C ev e)"
    using Cons.prems by (cases ev) (simp_all add: inv_ask inv_next inv_serve inv_rest)
  then show ?case using Cons.IH by (simp add: service_run_def)
qed (simp add: service_run_def)

end

section \<open>The answer of a call\<close>

lemma reply_at:
  assumes "distinct (map fst (before @ (n, j) # after))"
  shows "map_of (zip (map fst (before @ (n, j) # after)) (fst (into_service V (map snd (before @ (n, j) # after)) s))) n
     = Some (fst (serve V j (snd (into_service V (map snd before) s))))"
proof -
  obtain rs t where b: "into_service V (map snd before) s = (rs, t)" by fastforce
  obtain r u where j: "serve V j t = (r, u)" by fastforce
  have len: "length rs = length before" using into_service_length [of V "map snd before" s] b by simp
  then have "map_of (zip (map fst before) rs) n = None"
    using assms by (auto simp: map_of_eq_None_iff dest!: set_zip_leftD)
  then have "map_of (zip (map fst before) rs @ (n, r) # xs) n = Some r" for xs by (simp add: map_add_def)
  then show ?thesis using b j len by (simp add: into_service_append case_prod_unfold)
qed

lemma accepted_Sent: "(n, j) \<in> set (accepted e) \<longleftrightarrow> (n, j, Sent) \<in> set (se_asked e)"
  by (force simp: accepted_def)

lemma accepted_distinct: "map fst (se_asked e) = [0..<length (se_asked e)] \<Longrightarrow> distinct (map fst (accepted e))"
proof -
  assume "map fst (se_asked e) = [0..<length (se_asked e)]"
  then have "distinct (map fst (se_asked e))" by simp
  then have "distinct (map fst (filter (\<lambda>(n, j, a). a = Sent) (se_asked e)))" by (rule distinct_map_filter)
  moreover have "map fst (accepted e) = map fst (filter (\<lambda>(n, j, a). a = Sent) (se_asked e))"
    by (simp add: accepted_def comp_def case_prod_unfold)
  ultimately show ?thesis by simp
qed

context queue_channel
begin

lemma answered:
  assumes inv: "service_inv V s e" and n: "(n, j, a) \<in> set (se_asked e)" "n \<in> fst ` set (se_replies e)"
  shows "\<exists>before after. accepted e = before @ (n, j) # after
     \<and> seen_by e n j = (Sent, Some (fst (serve V j (snd (into_service V (map snd before) s)))))"
proof -
  obtain past rest where p: "in_order V s past e" "accepted e = past @ rest" using inv by (auto simp: service_inv_def)
  have asked: "distinct (map fst (se_asked e))" "distinct (map fst (accepted e))"
    using inv accepted_distinct [of e] by (simp_all add: service_inv_def)
  have "n \<in> fst ` set past" using n(2) p(1) by (auto simp: in_order_def dest!: set_zip_leftD)
  then obtain j' where j': "(n, j') \<in> set past" by auto
  then have "(n, j', Sent) \<in> set (se_asked e)" using p(2) by (simp add: accepted_Sent [symmetric])
  then have same: "j' = j" "a = Sent" "map_of (se_asked e) n = Some (j, Sent)"
    using n(1) asked(1) map_of_is_SomeI by (metis option.inject prod.inject)+
  from j' obtain before after where split: "past = before @ (n, j) # after" using same(1) by (meson split_list)
  have "distinct (map fst (before @ (n, j) # after))" using p(2) asked(2) split by auto
  from reply_at [OF this, of V s] have "map_of (se_replies e) n = Some (fst (serve V j (snd (into_service V (map snd before) s))))"
    using p(1) split by (simp only: in_order_def)
  then show ?thesis using p(2) split same(3) by (auto simp: seen_by_def)
qed

end

section \<open>A channel in memory\<close>

record line =
  ln_items :: "(nat \<times> job) list"
  ln_senders :: nat
  ln_receiver :: bool

definition line_channel :: "(line, nat \<times> job) channel" where
  "line_channel =
     \<lparr>cn_try_send = (\<lambda>m c. if \<not> ln_receiver c then (Send_Disconnected, c)
        else if length (ln_items c) \<ge> JOB_QUEUE + ln_senders c then (Send_Full, c)
        else (Sent, c\<lparr>ln_items := ln_items c @ [m]\<rparr>)),
      cn_next = (\<lambda>c. case ln_items c of
          m # ms \<Rightarrow> (Got m, c\<lparr>ln_items := ms\<rparr>)
        | [] \<Rightarrow> if ln_senders c = 0 then (Ended, c) else (Waits, c)),
      cn_clone_sender = (\<lambda>c. c\<lparr>ln_senders := Suc (ln_senders c)\<rparr>),
      cn_drop_sender = (\<lambda>c. c\<lparr>ln_senders := ln_senders c - 1\<rparr>),
      cn_drop_receiver = (\<lambda>c. c\<lparr>ln_items := [], ln_receiver := False\<rparr>)\<rparr>"

definition line_new :: line where
  "line_new = \<lparr>ln_items = [], ln_senders = 1, ln_receiver = True\<rparr>"

interpretation line: queue_channel line_channel ln_items ln_senders
  by unfold_locales (auto simp: line_channel_def split: if_splits list.splits)

section \<open>Properties\<close>

text \<open>
  C33: Calls through handles, made at any time and from any number of handles, while services are started, work and are
  dropped: at most one service has the queue; it serves the calls the queue accepted one at a time and in the
  order they were accepted, each on the bank as the calls before it left it, and answers each once; a call
  the queue refused never reaches the bank; while the service lives no accepted call is lost: what is not answered is
  in its hands or in the queue; and it never completes, not even when every handle has been dropped, since the
  bank it owns keeps a sender of its own.
\<close>

theorem service_serves_in_order:
  fixes s :: "('b, 'q, 'v) bank"
  assumes "queue_channel C waiting senders" "waiting c = []" "senders c = 1"
    and e: "e = service_run V C evs (service_of s c)"
  shows "length (se_workers e) \<le> 1 \<and> Completed \<notin> set (se_workers e) \<and> distinct (map fst (accepted e))
    \<and> (\<exists>past rest. accepted e = past @ rest
        \<and> se_replies e = zip (map fst past) (fst (into_service V (map snd past) s))
        \<and> se_bank e = snd (into_service V (map snd past) s)
        \<and> (se_receiver e \<or> se_workers e \<noteq> [] \<longrightarrow> rest = in_hand (se_workers e) @ waiting (se_jobs e)))"
proof -
  note inv = queue_channel.inv_run [OF assms(1) queue_channel.inv_start [OF assms(1-3)], of V s evs, folded e]
  then have "distinct (map fst (accepted e))" by (intro accepted_distinct) (simp add: queue_channel.service_inv_def [OF assms(1)])
  then show ?thesis using inv unfolding queue_channel.service_inv_def [OF assms(1)] in_order_def by force
qed

definition sample_env :: "(memory_backend, unit) env" where
  "sample_env = \<lparr>ev_backend = memory_backend_vt, ev_try_send = (\<lambda>ev q. (Send_Full, q)),
     ev_vec_u8 = \<lparr>sd_to_vec = Inr, sd_from_bytes = Inr, sd_type_name = ''alloc::vec::Vec<u8>''\<rparr>\<rparr>"

definition sample_bank :: "(memory_backend, unit, unit) bank" where
  "sample_bank = bank_new memory_new chain_raw coherence_disabled"

text \<open>Two calls, the first of which is served.\<close>

definition sample_served :: "(memory_backend, unit, unit, line) service" where
  "sample_served = service_run sample_env line_channel
     [Handled, Asked (Job_Put ''a'' [1] [2]), Asked (Job_Get ''a'' [1]), Started, Started, Polled 0, Polled 1, Served 0]
     (service_of sample_bank line_new)"

lemma sample_served_calls:
  "accepted sample_served = [(0, Job_Put ''a'' [1] [2]), (1, Job_Get ''a'' [1])]" "map fst (se_replies sample_served) = [0]"
  "se_workers sample_served = [Idle]" "ln_items (se_jobs sample_served) = [(1, Job_Get ''a'' [1])]"
  "(0, Job_Put ''a'' [1] [2], Sent) \<in> set (se_asked sample_served)"
  by code_simp+

lemma line_fresh: "ln_items line_new = []" "ln_senders line_new = 1"
  by (simp_all add: line_new_def)

theorem service_serves_in_order_witness:
  "se_bank sample_served = snd (into_service sample_env [Job_Put ''a'' [1] [2]] sample_bank)
   \<and> Completed \<notin> set (se_workers (service_run sample_env line_channel [Handled, Started, Released, Polled 0] (service_of sample_bank line_new)))"
proof
  obtain past rest where "accepted sample_served = past @ rest"
    "se_bank sample_served = snd (into_service sample_env (map snd past) sample_bank)"
    "rest = in_hand (se_workers sample_served) @ ln_items (se_jobs sample_served)"
    using service_serves_in_order [OF line.queue_channel_axioms line_fresh sample_served_def] sample_served_calls(3) by fastforce
  moreover from this have "past = [(0, Job_Put ''a'' [1] [2])]" using sample_served_calls by simp
  ultimately show "se_bank sample_served = snd (into_service sample_env [Job_Put ''a'' [1] [2]] sample_bank)" by simp
  show "Completed \<notin> set (se_workers (service_run sample_env line_channel [Handled, Started, Released, Polled 0] (service_of sample_bank line_new)))"
    using service_serves_in_order [OF line.queue_channel_axioms line_fresh refl] by blast
qed



end
