(* ===== verification/Bank_Runs.thy ===== *)
theory Bank_Runs
  imports Locker_Footprint Remote
begin

text \<open>
  A bank in use, as a step relation: opens of lockers, calls on the lockers that are open and on their
  streams, jobs of the service, maintenance, handles that are dropped, and a bank opened again over what
  the last one stored. The invariant of the registry holds in every state these reach, whatever the backend
  answers, and a locker never writes outside its own records. A step is a whole call: calls on the bank run one
  after another. Two first uses of a name that overlap are the subject of \<open>Id_Interleaving\<close>.

  Closing a bank is not a step: what a closed backend still holds is up to the backend (the memory backend
  forgets everything). A close followed by an open is a flush of all lockers and a \<open>Reopen\<close>.
\<close>

section \<open>What the calls of one locker leave alone\<close>

definition undisturbed :: "locker_id \<Rightarrow> tables \<Rightarrow> tables \<Rightarrow> bool" where
  "undisturbed i t t' \<longleftrightarrow>
     (\<forall>l k. l \<noteq> i \<longrightarrow> bt_lookup (tb_records t') (encode_bytes l k) = bt_lookup (tb_records t) (encode_bytes l k))
     \<and> (\<forall>k. k \<noteq> next_value_id_key \<and> k \<noteq> META_NEXT_TICK \<and> \<not> prefix (locker_prefix i) k \<longrightarrow>
           bt_lookup (tb_meta t') k = bt_lookup (tb_meta t) k)"

lemma undisturbed_refl [simp]: "undisturbed i t t"
  by (simp add: undisturbed_def)

lemma writes_within_effect:
  assumes "writes_within tabs X b b'"
  shows "undisturbed (cx_id X) (tabs b) (tabs b')" "registry (tabs b') = registry (tabs b)"
    "next_locker (tabs b') = next_locker (tabs b)"
    "registry_ok (tabs b) \<Longrightarrow> issued (cx_id X) (tabs b) \<Longrightarrow> registry_ok (tabs b')"
proof -
  obtain ops where ops: "local_ops X ops" "tabs b' = apply_ops (tabs b) ops" using assms by (auto simp: writes_within_def)
  have op: "local_op X op" if "op \<in> set ops" for op using ops(1) that by (simp add: list_all_iff)
  have sp: "spares {cx_id X} op" if "op \<in> set ops" for op using op [OF that] by (rule local_spares)
  show "registry (tabs b') = registry (tabs b)" "next_locker (tabs b') = next_locker (tabs b)"
    using spared(1,2) [of ops "{cx_id X}", OF sp] ops(2) by simp_all
  show "registry_ok (tabs b')" if "registry_ok (tabs b)" "issued (cx_id X) (tabs b)"
    using spared(3) [of ops "{cx_id X}", OF sp that(1)] that(2) ops(2) by (simp add: issued_def)
  have "bt_lookup (tables_get (tabs b') Records) (encode_bytes l k) = bt_lookup (tables_get (tabs b) Records) (encode_bytes l k)"
    if "l \<noteq> cx_id X" for l k
    unfolding ops(2) by (rule lookup_silent) (use op that in \<open>auto simp: local_op_def\<close>)
  moreover have "bt_lookup (tables_get (tabs b') Meta) k = bt_lookup (tables_get (tabs b) Meta) k"
    if "k \<noteq> next_value_id_key" "k \<noteq> META_NEXT_TICK" "\<not> prefix (locker_prefix (cx_id X)) k" for k
    unfolding ops(2) by (rule lookup_silent) (use op that in \<open>metis local_op_def\<close>)
  ultimately show "undisturbed (cx_id X) (tabs b) (tabs b')" by (simp add: undisturbed_def)
qed

section \<open>The calls\<close>

text \<open>The calls on an open locker, with the values of their results left out, and the calls of its writers.\<close>

definition tell :: "('s, error, 'a) act \<Rightarrow> ('s, error, unit) act" where
  "tell m = sbind m (\<lambda>_. sret ())"

definition with_writer :: "writer \<Rightarrow> ('s \<times> writer, error, unit) act \<Rightarrow> ('s, error, unit) act" where
  "with_writer w m s = (case m (s, w) of (r, (s', _)) \<Rightarrow> (r, s'))"

inductive locker_call :: "(('b, 'q) ctx \<Rightarrow> (('b, 'q, 'v) eager, error, unit) act) \<Rightarrow> bool" where
  Lazy_Put: "locker_call (\<lambda>X. lazy_put_by X (sd :: 'v serde) k v)"
| Lazy_Delete: "locker_call (\<lambda>X. lazy_delete_by X k)"
| Lazy_Clear: "locker_call lazy_clear"
| Lazy_Transact: "locker_call (\<lambda>X. lazy_transact X (f :: ('b, 'v) closure))"
| Lazy_Get: "locker_call (\<lambda>X. tell (lazy_get_by X (sd :: 'v serde) k))"
| Lazy_Evict: "locker_call (\<lambda>X. tell (lazy_evict_to X n))"
| Lazy_Flush: "locker_call lazy_flush"
| Lazy_Close: "locker_call lazy_close"
| Lazy_Writer: "locker_call (\<lambda>X. tell (lazy_writer X k))"
| Write_Chunk: "locker_call (\<lambda>X. with_writer w (write_chunk X bs))"
| Writer_Finish: "locker_call (\<lambda>X. writer_finish X w)"
| Writer_Abort: "locker_call (\<lambda>X. writer_abort X w)"
| Eager_Put: "locker_call (\<lambda>X. tell (eager_put_by X sd k v))"
| Eager_Delete: "locker_call (\<lambda>X. eager_delete_by X k)"
| Eager_Clear: "locker_call eager_clear"
| Eager_Transact: "locker_call (\<lambda>X. eager_transact X g)"
| Eager_Flush: "locker_call eager_flush"
| Eager_Close: "locker_call eager_close"

inductive bank_step :: "('b, 'q) env \<Rightarrow> ('b, 'q, 'v) bank \<Rightarrow> ('b, 'q, 'v) bank \<Rightarrow> bool" for V where
  Serve: "serve V j s = (reply, s') \<Longrightarrow> bank_step V s s'"
| Quarantine: "quarantine V name keys s = (r, s') \<Longrightarrow> bank_step V s s'"
| Measure: "locker_bytes V name s = (u, s') \<Longrightarrow> bank_step V s s'"
| Verify: "bank_verify V name s = (bad, s') \<Longrightarrow> bank_step V s s'"
| Open_Eager: "locker_with V sd name cfg s = (a, s') \<Longrightarrow> bank_step V s s'"
| Open_Lazy: "lazy_locker_with V sd name cfg s = (a, s') \<Longrightarrow> bank_step V s s'"
| Call: "locker_call m \<Longrightarrow> in_cell cell m s = (r, s') \<Longrightarrow> bank_step V s s'"
| Drop: "bank_step V s (drop_handle cell s)"
| Chain: "bank_step V s (register_chain ch s)"
| Reopen: "assembled V (sh_store s) ch coh = Inr s' \<Longrightarrow> bank_step V s s'"

section \<open>The invariant of a bank in use\<close>

text \<open>Every locker there is runs on the bank's backend under an id that has been issued.\<close>

definition homed :: "('b \<Rightarrow> tables) \<Rightarrow> ('b, 'q) env \<Rightarrow> ('b, 'q, 'v) bank \<Rightarrow> bool" where
  "homed tabs V s \<longleftrightarrow> (\<forall>a c. bt_lookup (bn_cells s) a = Some c \<longrightarrow>
     cx_backend (ce_ctx c) = ev_backend V \<and> issued (cx_id (ce_ctx c)) (tabs (sh_store s)))"

definition bank_inv :: "('b \<Rightarrow> tables) \<Rightarrow> ('b, 'q) env \<Rightarrow> ('b, 'q, 'v) bank \<Rightarrow> bool" where
  "bank_inv tabs V s \<longleftrightarrow> bank_ok tabs s \<and> homed tabs V s"

definition advances :: "('b \<Rightarrow> tables) \<Rightarrow> ('b, 'q) env \<Rightarrow> ('b, 'q, 'v) bank \<Rightarrow> ('b, 'q, 'v) bank \<Rightarrow> bool" where
  "advances tabs V s s' \<longleftrightarrow> bank_inv tabs V s' \<and> grows (tabs (sh_store s)) (tabs (sh_store s'))"

lemma advances_trans: "advances tabs V s u \<Longrightarrow> advances tabs V u s' \<Longrightarrow> advances tabs V s s'"
  unfolding advances_def using grows_trans by blast

lemma advances_refl: "bank_inv tabs V s \<Longrightarrow> advances tabs V s s"
  by (simp add: advances_def)

text \<open>
  What both opens are, but for the building of the locker: prepare the name, build, install.
\<close>

definition opens :: "('b, 'q) env \<Rightarrow> tx_mode \<Rightarrow> string \<Rightarrow> string \<Rightarrow> locker_config
    \<Rightarrow> (('b, 'q) ctx \<Rightarrow> (('b, 'q, 'v) bank, error, ('b, 'q, 'v) eager) act) \<Rightarrow> (('b, 'q, 'v) bank, error, nat) act" where
  "opens V kind tag name cfg build =
     sbind bank_ensure_open (\<lambda>_ s.
       case chain_for cfg s of (ch, s) \<Rightarrow>
       case open_locker_of name s of
         (Some ol, s) \<Rightarrow> share_open name ol kind tag cfg s
       | (None, s) \<Rightarrow>
           sbind (prepare V tag name ch) (\<lambda>i.
             sbind (build (locker_ctx V ch i name cfg)) (\<lambda>st.
               install name kind tag cfg (locker_ctx V ch i name cfg) st)) s)"

lemma opens_both:
  "locker_with V sd name cfg = opens V TxEager (type_tag sd) name cfg (\<lambda>X. sread (\<lambda>s. eager_open X sd (shared.truncate s)))"
  "lazy_locker_with V sd name cfg = opens V TxLazy (type_tag sd) name cfg
     (\<lambda>X. sbind (on_shared (lazy_open X)) (\<lambda>st. sret (resident.extend st \<lparr>eg_values = bt_empty\<rparr>)))"
  unfolding locker_with_def lazy_locker_with_def opens_def Let_def
  by (auto simp: sbind_def fun_eq_iff split: sum.split prod.split option.split)

section \<open>The calls stay within their locker\<close>

lemma tell_within: "stays tabs X m \<Longrightarrow> stays tabs X (tell m)"
  unfolding tell_def by (rule within_sbind [OF _ within_pure(3)]) simp_all

context backend_contract
begin

lemma flush_piece_within:
  fixes s :: "('b, 'q, 'z) inner_state_scheme"
  assumes "cx_backend X = B" "flush_piece X piece (s, w) = (r, (s', w'))"
  shows "writes_within tabs X (sh_store s) (sh_store s')"
proof (cases "seal_slice (cx_chain X) piece")
  case (Inl e)
  then show ?thesis using assms by (simp add: flush_piece_def)
next
  case (Inr sealed)
  obtain c u where c: "inner_commit X [Op_Put Chunks (chunk_key (wr_value_id w) (wr_seq w)) sealed] s = (c, u)" by fastforce
  then have "writes_within tabs X (sh_store s) (sh_store u)"
    using withinD [OF within_commit [OF assms(1), where ops = "[Op_Put Chunks (chunk_key (wr_value_id w) (wr_seq w)) sealed]"] c] by simp
  moreover have "s' = u" using assms(2) Inr c by (auto simp: flush_piece_def split: sum.splits)
  ultimately show ?thesis by simp
qed

lemma write_loop_within:
  fixes s :: "('b, 'q, 'z) inner_state_scheme"
  assumes "cx_backend X = B" "write_loop n X (s, w) = (r, (s', w'))"
  shows "writes_within tabs X (sh_store s) (sh_store s')"
  using assms(2)
proof (induction n arbitrary: s w)
  case (Suc n)
  let ?w = "w\<lparr>wr_buf := drop (lc_chunk_size (cx_config X)) (wr_buf w)\<rparr>"
  obtain c u v where f: "flush_piece X (take (lc_chunk_size (cx_config X)) (wr_buf w)) (s, ?w) = (c, (u, v))" by (metis surj_pair)
  note one = flush_piece_within [OF assms(1) f]
  show ?case
  proof (cases "lc_chunk_size (cx_config X) \<le> length (wr_buf w)")
    case True
    show ?thesis
    proof (cases c)
      case (Inl e)
      then show ?thesis using Suc.prems True f one by (simp add: sbind_def Let_def)
    next
      case (Inr x)
      then have "write_loop n X (u, v) = (r, (s', w'))" using Suc.prems True f by (simp add: sbind_def Let_def)
      from Suc.IH [OF this] show ?thesis by (rule within_trans [OF one])
    qed
  qed (use Suc.prems in \<open>auto simp: Let_def\<close>)
qed simp

lemma locker_call_within:
  fixes m :: "('b, 'q) ctx \<Rightarrow> (('b, 'q, 'v) eager, error, unit) act"
  assumes "locker_call m" and B: "cx_backend X = B"
  shows "stays tabs X (m X)"
  using assms(1)
proof cases
  case (Write_Chunk w bs)
  have "writes_within tabs X (sh_store s) (sh_store s')" if "with_writer w (write_chunk X bs) s = (r, s')" for s r and s' :: "('b, 'q, 'v) eager"
    using that write_loop_within [OF B] by (auto simp: with_writer_def write_chunk_def Let_def simp del: write_loop.simps split: prod.splits)
  then show ?thesis unfolding Write_Chunk within_def by blast
next
  case (Writer_Finish w)
  have publish: "stays tabs X (writer_publish X u :: (('b, 'q, 'v) eager, error, unit) act)" for u
    unfolding writer_publish_def
    by (rule within_sbind [where R = "local_ops X"], rule within_pure, erule gc_existing_local,
        rule within_sbind [OF within_commit [OF B] within_smod]) (simp_all add: list_all_append)
  have "writes_within tabs X (sh_store s) (sh_store s')" if "writer_finish X w s = (r, s')" for s r and s' :: "('b, 'q, 'v) eager"
    using that withinD [OF publish] flush_piece_within [OF B]
    by (auto simp: writer_finish_def split: prod.splits sum.splits if_splits) (blast, rule within_trans, blast, blast)
  then show ?thesis unfolding Writer_Finish within_def by blast
next
  case (Writer_Abort w)
  then show ?thesis using within_commit [OF B, of "[gc_ops (writer_pointer w 0)]"] by (simp add: writer_abort_def)
next
  case (Lazy_Writer k)
  have "stays tabs X (next_value_id X :: (('b, 'q, 'v) eager, error, u64) act)"
    by (rule within_same_store) (simp add: next_value_id_def on_values_def split: prod.split)
  moreover have "stays tabs X (\<lambda>s :: ('b, 'q, 'v) eager. case value_counter_op s of Some op \<Rightarrow> inner_commit X [op] s | None \<Rightarrow> (Inr (), s))"
    unfolding within_def
  proof (intro allI impI)
    fix s r and s' :: "('b, 'q, 'v) eager"
    assume run: "(case value_counter_op s of Some op \<Rightarrow> inner_commit X [op] s | None \<Rightarrow> (Inr (), s)) = (r, s')"
    show "writes_within tabs X (sh_store s) (sh_store s') \<and> (\<forall>x. r = Inr x \<longrightarrow> True)"
    proof (cases "value_counter_op s")
      case (Some op)
      then have "local_ops X [op]" by (auto simp: value_counter_op_def vid_counter_op_def split: option.splits)
      from withinD [OF within_commit [OF B this]] show ?thesis using run Some by auto
    qed (use run in auto)
  qed
  ultimately have "stays tabs X (writer_start X k :: (('b, 'q, 'v) eager, error, writer) act)"
    unfolding writer_start_def by (intro within_sbind [where R = "\<lambda>_. True"] within_pure) auto
  then show ?thesis unfolding Lazy_Writer lazy_writer_def by (intro tell_within ensure_within)
qed (simp_all add: B tell_within lazy_put_within lazy_delete_within lazy_clear_within lazy_transact_within lazy_get_within
    evict_within lazy_flush_within lazy_close_within eager_put_within eager_delete_within eager_clear_within
    eager_transact_within eager_flush_within eager_close_within)

lemma evolves_advances: "bank_inv tabs V s \<Longrightarrow> evolves tabs s s' \<Longrightarrow> advances tabs V s s'"
  unfolding bank_inv_def advances_def evolves_def homed_def by (auto intro: issued_grows)

text \<open>Steps that leave the storage and the registry as they are and keep every context.\<close>

lemma same_store_advances:
  assumes "bank_inv tabs V s" "tabs (sh_store s') = tabs (sh_store s)" "bn_registry s' = bn_registry s"
    and "\<And>a c'. bt_lookup (bn_cells s') a = Some c' \<Longrightarrow> \<exists>c. bt_lookup (bn_cells s) a = Some c \<and> ce_ctx c' = ce_ctx c"
  shows "advances tabs V s s'"
proof -
  have "homed tabs V s'" using assms(1,2,4) unfolding bank_inv_def homed_def by metis
  then show ?thesis using assms(1-3) by (simp add: advances_def bank_inv_def bank_ok_def cached_def)
qed

lemma on_cell_advances:
  assumes "bank_inv tabs V s" "\<And>c. ce_ctx (f c) = ce_ctx c"
  shows "advances tabs V s (on_cell a f s)"
  by (rule same_store_advances [OF assms(1)]) (auto simp: on_cell_def assms(2) split: option.splits if_splits)

lemma in_cell_advances:
  fixes s :: "('b, 'q, 'v) bank"
  assumes V: "ev_backend V = B" and ok: "bank_inv tabs V s" and run: "in_cell a m s = (r, s')"
    and m: "\<And>X :: ('b, 'q) ctx. cx_backend X = B \<Longrightarrow> stays tabs X (m X)"
  shows "advances tabs V s s'"
proof (cases "bt_lookup (bn_cells s) a")
  case None
  then show ?thesis using run ok by (simp add: in_cell_def advances_refl)
next
  case (Some c)
  let ?X = "ce_ctx c"
  let ?st = "(ce_state c)\<lparr>sh_store := sh_store s, sh_values := sh_values s, sh_ticks := sh_ticks s, sh_coherence := sh_coherence s\<rparr>"
  obtain q st where st: "m ?X ?st = (q, st)" by fastforce
  have home: "cx_backend ?X = B" "issued (cx_id ?X) (tabs (sh_store s))"
    using ok Some V by (auto simp: bank_inv_def homed_def)
  have w: "writes_within tabs ?X (sh_store s) (sh_store st)" using withinD [OF m [OF home(1)] st] by simp
  note eff = writes_within_effect [OF w]
  have s': "s' = s\<lparr>sh_store := sh_store st, sh_values := sh_values st, sh_ticks := sh_ticks st,
      sh_coherence := sh_coherence st, bn_cells := bt_insert a (c\<lparr>ce_state := st\<rparr>) (bn_cells s)\<rparr>"
    using run Some st by (simp add: in_cell_def)
  have g: "grows (tabs (sh_store s)) (tabs (sh_store st))" by (simp add: grows_def eff(2,3))
  have "homed tabs V s'"
    using ok Some issued_grows [OF _ g] by (auto simp: s' homed_def bank_inv_def split: if_splits)
  moreover have "bank_ok tabs s'" using ok eff(4) [OF _ home(2)] by (simp add: s' bank_inv_def bank_ok_def cached_def eff(2))
  ultimately show ?thesis using g by (simp add: advances_def bank_inv_def s')
qed

lemma flush_residents_advances:
  fixes s :: "('b, 'q, 'v) bank"
  assumes V: "ev_backend V = B"
  shows "bank_inv tabs V s \<Longrightarrow> flush_residents as first s = (e, s') \<Longrightarrow> advances tabs V s s'"
proof (induction as arbitrary: first s)
  case (Cons a as)
  obtain c u where c: "in_cell a resident_flush s = (c, u)" by fastforce
  have u: "advances tabs V s u" by (rule in_cell_advances [OF V Cons.prems(1) c resident_flush_within])
  then have "bank_inv tabs V u" by (simp add: advances_def)
  moreover have "\<exists>f. flush_residents as f u = (e, s')" using Cons.prems(2) c by (cases c) auto
  ultimately have "advances tabs V u s'" using Cons.IH by blast
  with u show ?case by (rule advances_trans)
qed (simp add: advances_refl)

lemma flush_all_advances:
  fixes s :: "('b, 'q, 'v) bank"
  assumes V: "ev_backend V = B" and ok: "bank_inv tabs V s" and run: "flush_all V s = (r, s')"
  shows "advances tabs V s s'"
proof (cases "bn_closed s")
  case False
  let ?s = "s\<lparr>bn_residents := filter (\<lambda>r. upgrade s r \<noteq> None) (bn_residents s)\<rparr>"
  obtain e u where u: "flush_residents (bn_residents ?s) None ?s = (e, u)" by fastforce
  obtain f b where f: "bk_flush B (sh_store u) = (f, b)" by fastforce
  have s: "advances tabs V s ?s" by (rule same_store_advances [OF ok]) simp_all
  then have "bank_inv tabs V ?s" by (simp add: advances_def)
  from flush_residents_advances [OF V this u] have su: "advances tabs V s u" by (rule advances_trans [OF s])
  have s': "s' = u\<lparr>sh_store := b\<rparr>"
    using run False u f V by (simp add: flush_all_def bank_ensure_open_def sbind_def on_store_def)
  have "advances tabs V u s'"
    using su flush_spec [OF f] by (intro same_store_advances) (simp_all add: advances_def s')
  with su show ?thesis by (rule advances_trans)
qed (use run ok in \<open>simp add: flush_all_def bank_ensure_open_def advances_refl\<close>)

section \<open>Maintenance\<close>

lemma quarantine_ops:
  assumes "foldM_r (quarantine_step X b) (ops0, n0) keys = Inr (ops, n)" "list_all (spares {}) ops0"
  shows "list_all (spares {}) ops"
  using assms
proof (induction keys arbitrary: ops0 n0)
  case (Cons k keys)
  obtain ops1 n1 where one: "quarantine_step X b (ops0, n0) k = Inr (ops1, n1)" "foldM_r (quarantine_step X b) (ops1, n1) keys = Inr (ops, n)"
    using Cons.prems(1) by (auto simp: rbind_eq_Inr_iff)
  have sp: "spares {} (delete_op X k)" "spares {} (gc_ops p)" for p
    by (simp_all add: spares_def delete_op_def gc_ops_def)
  obtain found where found: "fetch X b k = Inr found" using one(1) by (auto simp: quarantine_step_def rbind_eq_Inr_iff)
  have "list_all (spares {}) ops1"
  proof (cases found)
    case (Some raw)
    then have "ops1 = ops0 @ (if is_pointer raw then (case pointer_parse raw of Inr p \<Rightarrow> [gc_ops p] | Inl _ \<Rightarrow> []) else [])
        @ [delete_op X k]"
      using one(1) found by (simp add: quarantine_step_def)
    then show ?thesis using Cons.prems(2) sp by (simp split: sum.split)
  qed (use one(1) found Cons.prems(2) in \<open>simp add: quarantine_step_def\<close>)
  from Cons.IH [OF one(2) this] show ?case .
qed simp

lemma quarantine_orderly:
  fixes V :: "('b, 'q) env"
  assumes V: "ev_backend V = B"
  shows "orderly tabs always (quarantine V name keys :: (('b, 'q, 'v) bank, error, nat) act) (\<lambda>_. always)"
proof -
  let ?sweep = "\<lambda>i. sbind (sread (\<lambda>s. locker_chain_or_bank V s i)) (\<lambda>ch.
      sbind (sread (\<lambda>s. foldM_r (quarantine_step (maintenance_ctx V i name ch) (sh_store s)) ([], 0) keys))
        (\<lambda>(ops, removed). sbind (if ops \<noteq> [] then on_store (bk_commit (ev_backend V) ops) else sret ()) (\<lambda>_. sret removed)))
      :: (('b, 'q, 'v) bank, error, nat) act"
  have store: "orderly tabs (issued i) (sbind (if ops \<noteq> [] then on_store (bk_commit (ev_backend V) ops) else sret ()) (\<lambda>_. sret removed)
      :: (('b, 'q, 'v) bank, error, nat) act) (\<lambda>_. always)" if "list_all (spares {}) ops" for i ops and removed :: nat
    using commit_orderly [OF V, of ops "{}"] that
    by (intro orderly_sbind [OF _ orderly_done(2)]) (auto simp: list_all_iff intro: orderly_done(2) elim: orderly_weaken)
  have sweep: "orderly tabs (issued i) (?sweep i) (\<lambda>_. always)" for i
  proof (rule orderly_reads [where R = "\<lambda>_. True"], simp, rule orderly_reads [where R = "\<lambda>(ops, n). list_all (spares {}) ops"])
    show "case x of (ops, n) \<Rightarrow> list_all (spares {}) ops"
      if "foldM_r (quarantine_step (maintenance_ctx V i name ch) (sh_store s)) ([], 0) keys = Inr x" for s :: "('b, 'q, 'v) bank" and ch x
      using quarantine_ops that by (cases x) fastforce
    show "orderly tabs (issued i) ((case x of (ops, removed) \<Rightarrow> sbind (if ops \<noteq> [] then on_store (bk_commit (ev_backend V) ops) else sret ())
        (\<lambda>_. sret removed)) :: (('b, 'q, 'v) bank, error, nat) act) (\<lambda>_. always)" if "case x of (ops, n) \<Rightarrow> list_all (spares {}) ops" for x
      using that store by (cases x) simp
  qed
  have id: "orderly tabs always (locker_id_of V name :: (('b, 'q, 'v) bank, error, locker_id) act) issued"
    by (rule orderly_weaken [OF locker_id_orderly [OF V]]) simp_all
  have "orderly tabs always (sbind (sread (\<lambda>s. locker_exists V s name)) (\<lambda>ex.
      if \<not> ex then sret 0 else sbind (locker_id_of V name) ?sweep) :: (('b, 'q, 'v) bank, error, nat) act) (\<lambda>_. always)"
    by (rule orderly_reads [where R = "\<lambda>_. True"], simp) (auto intro: orderly_done orderly_sbind [OF id sweep])
  from orderly_prune [OF this] show ?thesis
    unfolding orderly_def quarantine_def is_locker_open_def Let_def
    by (auto simp: evolves_same split: if_splits)
qed

lemma measures_orderly:
  fixes V :: "('b, 'q) env"
  assumes V: "ev_backend V = B"
  shows "orderly tabs always (locker_bytes V name :: (('b, 'q, 'v) bank, error, u64) act) (\<lambda>_. always)"
    and "orderly tabs always (bank_verify V name :: (('b, 'q, 'v) bank, error, bytes list) act) (\<lambda>_. always)"
proof -
  have id: "orderly tabs always (locker_id_of V name :: (('b, 'q, 'v) bank, error, locker_id) act) (\<lambda>_. always)"
    by (rule orderly_weaken [OF locker_id_orderly [OF V]]) simp_all
  show "orderly tabs always (locker_bytes V name :: (('b, 'q, 'v) bank, error, u64) act) (\<lambda>_. always)"
    unfolding locker_bytes_def
    by (rule orderly_reads [where R = "\<lambda>_. True"], simp)
      (auto intro!: orderly_done orderly_sbind [OF id] orderly_reads [where R = "\<lambda>_. True"])
  show "orderly tabs always (bank_verify V name :: (('b, 'q, 'v) bank, error, bytes list) act) (\<lambda>_. always)"
    unfolding bank_verify_def
    by (rule orderly_reads [where R = "\<lambda>_. True"], simp)
      (auto intro!: orderly_done orderly_sbind [OF id] orderly_reads [where R = "\<lambda>_. True"] split: option.split)
qed

lemma orderly_advances:
  fixes m :: "(('b, 'q, 'v) bank, error, 'a) act"
  assumes "orderly tabs always m Q" "bank_inv tabs V s" "m s = (r, s')"
  shows "advances tabs V s s'"
  using orderlyD [OF assms(1) _ _ assms(3)] assms(2) by (intro evolves_advances) (simp_all add: bank_inv_def)

section \<open>Opening a locker\<close>

lemma prune_advances: "bank_inv tabs V s \<Longrightarrow> advances tabs V s (prune s)"
  by (rule same_store_advances) simp_all

lemma share_advances:
  assumes "bank_inv tabs V s" "share_open name ol kind tag cfg s = (r, s')"
  shows "advances tabs V s s'"
proof (cases "s' = s")
  case False
  then have "s' = add_handle (ol_cell ol) s"
    using assms(2) by (auto simp: share_open_def sbind_def split: sum.splits if_splits)
  then show ?thesis using on_cell_advances [OF assms(1)] by (simp add: add_handle_def)
qed (simp add: assms(1) advances_refl)

lemma claim_advances:
  assumes "bank_inv tabs V s" "claim_open name ol s = (w, s')"
  shows "advances tabs V s s'"
proof -
  note p = prune_advances [OF assms(1)]
  then have ok: "bank_inv tabs V (prune s)" by (simp add: advances_def)
  have put: "advances tabs V s ((prune s)\<lparr>bn_open := t\<rparr>)" for t
    by (rule advances_trans [OF p], rule same_store_advances [OF ok]) simp_all
  have mark: "advances tabs V u (mark_cell_shared a u)" if "bank_inv tabs V u" for a u
    unfolding mark_cell_shared_def by (rule on_cell_advances [OF that]) simp
  have "advances tabs V s (mark_cell_shared a (mark_cell_shared a' (prune s)))" for a a'
  proof -
    have one: "advances tabs V s (mark_cell_shared a' (prune s))" by (rule advances_trans [OF p mark [OF ok]])
    then have "bank_inv tabs V (mark_cell_shared a' (prune s))" by (simp add: advances_def)
    from mark [OF this] show ?thesis by (rule advances_trans [OF one])
  qed
  with put show ?thesis using assms(2) by (auto simp: claim_open_def Let_def split: option.splits if_splits)
qed

lemma install_advances:
  assumes ok: "bank_inv tabs V s" and X: "cx_backend X = ev_backend V" "issued (cx_id X) (tabs (sh_store s))"
    and run: "install name kind tag cfg X st s = (r, s')"
  shows "advances tabs V s s'"
proof -
  let ?a = "fresh_cell s"
  let ?s = "s\<lparr>bn_cells := bt_insert ?a \<lparr>ce_ctx = X, ce_state = st, ce_handles = 1\<rparr> (bn_cells s)\<rparr>"
  let ?ol = "\<lparr>ol_cell = ?a, ol_has_values = (kind = TxEager), ol_kind = kind, ol_type_tag = tag, ol_config = cfg\<rparr>"
  obtain w u where w: "claim_open name ?ol ?s = (w, u)" by fastforce
  have "bank_inv tabs V ?s" using ok X by (auto simp: bank_inv_def bank_ok_def cached_def homed_def split: if_splits)
  then have s: "advances tabs V s ?s" by (simp add: advances_def)
  have u: "advances tabs V s u" by (rule advances_trans [OF s claim_advances [OF _ w]]) (use s in \<open>simp add: advances_def\<close>)
  then have inv: "bank_inv tabs V u" by (simp add: advances_def)
  show ?thesis
  proof (cases w)
    case None
    then have "s' = register_resident ?a u" using run w by (simp add: install_def Let_def)
    then have "advances tabs V u s'" by (intro same_store_advances [OF inv]) (simp_all add: register_resident_def)
    with u show ?thesis by (rule advances_trans)
  next
    case (Some winner)
    have d: "advances tabs V u (drop_handle ?a u)" unfolding drop_handle_def by (rule on_cell_advances [OF inv]) simp
    then have "bank_inv tabs V (drop_handle ?a u)" by (simp add: advances_def)
    moreover have "share_open name winner kind tag cfg (drop_handle ?a u) = (r, s')"
      using run w Some by (simp add: install_def Let_def)
    ultimately have "advances tabs V (drop_handle ?a u) s'" by (rule share_advances)
    with advances_trans [OF u d] show ?thesis by (rule advances_trans)
  qed
qed

lemma chain_for_advances: "bank_inv tabs V s \<Longrightarrow> chain_for cfg s = (ch, s') \<Longrightarrow> advances tabs V s s'"
  by (rule same_store_advances) (auto simp: chain_for_def register_chain_def split: option.splits)

lemma find_advances: "bank_inv tabs V s \<Longrightarrow> open_locker_of name s = (ol, s') \<Longrightarrow> advances tabs V s s'"
  using prune_advances by (auto simp: open_locker_of_def Let_def)

lemma opens_advances:
  assumes V: "ev_backend V = B" and ok: "bank_inv tabs V s" and run: "opens V kind tag name cfg build s = (r, s')"
    and build: "\<And>X s q s'. bank_inv tabs V s \<Longrightarrow> build X s = (q, s') \<Longrightarrow> advances tabs V s s'"
  shows "advances tabs V s s'"
proof (cases "bn_closed s")
  case True
  then show ?thesis using run ok by (simp add: opens_def bank_ensure_open_def advances_refl)
next
  case False
  obtain ch u where u: "chain_for cfg s = (ch, u)" by fastforce
  obtain ol w where w: "open_locker_of name u = (ol, w)" by fastforce
  have su: "advances tabs V s u" by (rule chain_for_advances [OF ok u])
  then have "bank_inv tabs V u" by (simp add: advances_def)
  from advances_trans [OF su find_advances [OF this w]] have sw: "advances tabs V s w" .
  then have inv: "bank_inv tabs V w" by (simp add: advances_def)
  show ?thesis
  proof (cases ol)
    case (Some ol)
    then have "share_open name ol kind tag cfg w = (r, s')"
      using run False u w by (simp add: opens_def bank_ensure_open_def)
    from advances_trans [OF sw share_advances [OF inv this]] show ?thesis .
  next
    case None
    obtain i x where p: "prepare V tag name ch w = (i, x)" by fastforce
    have "bank_ok tabs w" using inv by (simp add: bank_inv_def)
    from orderlyD [OF prepare_orderly [OF V] this _ p]
    have x: "evolves tabs w x" "\<forall>l. i = Inr l \<longrightarrow> issued l (tabs (sh_store x))" by blast+
    note sx = advances_trans [OF sw evolves_advances [OF inv x(1)]]
    then have invx: "bank_inv tabs V x" by (simp add: advances_def)
    have rest: "(case i of Inl e \<Rightarrow> (Inl e, x) | Inr l \<Rightarrow> sbind (build (locker_ctx V ch l name cfg))
        (\<lambda>st. install name kind tag cfg (locker_ctx V ch l name cfg) st) x) = (r, s')"
      using run False u w p None by (cases i) (simp_all add: opens_def bank_ensure_open_def sbind_def)
    show ?thesis
    proof (cases i)
      case (Inl e)
      then show ?thesis using rest sx by simp
    next
      case (Inr l)
      let ?X = "locker_ctx V ch l name cfg"
      obtain q y where y: "build ?X x = (q, y)" by fastforce
      have xy: "advances tabs V x y" by (rule build [OF invx y])
      note sy = advances_trans [OF sx xy]
      then have invy: "bank_inv tabs V y" by (simp add: advances_def)
      show ?thesis
      proof (cases q)
        case (Inl e)
        then show ?thesis using rest y sy \<open>i = Inr l\<close> by simp
      next
        case (Inr st)
        have "issued l (tabs (sh_store y))"
          using x(2) \<open>i = Inr l\<close> issued_grows xy unfolding advances_def by blast
        moreover have "install name kind tag cfg ?X st y = (r, s')" using rest y Inr \<open>i = Inr l\<close> by simp
        ultimately have "advances tabs V y s'"
          using install_advances [OF invy, of ?X] by (simp add: locker_ctx_def)
        with sy show ?thesis by (rule advances_trans)
      qed
    qed
  qed
qed

lemma lazy_open_store: "sh_store (snd (lazy_open X sh)) = sh_store sh"
  by (auto simp: lazy_open_def open_lru_def on_ticks_def sbind_def split: sum.split policy.split prod.split)

lemma open_steps:
  fixes s :: "('b, 'q, 'v) bank"
  assumes V: "ev_backend V = B" and ok: "bank_inv tabs V s"
  shows "locker_with V sd name cfg s = (r, s') \<Longrightarrow> advances tabs V s s'"
    and "lazy_locker_with V sd name cfg s = (r, s') \<Longrightarrow> advances tabs V s s'"
proof -
  show "advances tabs V s s'" if "locker_with V sd name cfg s = (r, s')"
    using that unfolding opens_both(1) by (rule opens_advances [OF V ok]) (auto intro: advances_refl)
  show "advances tabs V s s'" if "lazy_locker_with V sd name cfg s = (r, s')"
    using that unfolding opens_both(2)
  proof (rule opens_advances [OF V ok])
    fix X :: "('b, 'q) ctx" and u u' :: "('b, 'q, 'v) bank" and q
    assume u: "bank_inv tabs V u"
      and run: "sbind (on_shared (lazy_open X)) (\<lambda>st. sret (resident.extend st \<lparr>eg_values = bt_empty\<rparr>)) u = (q, u')"
    obtain p sh where o: "lazy_open X (shared.truncate u) = (p, sh)" by fastforce
    have "sh_store sh = sh_store u" using lazy_open_store [of X "shared.truncate u"] o by (simp add: shared.truncate_def)
    moreover have "u' = u\<lparr>sh_store := sh_store sh, sh_values := sh_values sh, sh_ticks := sh_ticks sh, sh_coherence := sh_coherence sh\<rparr>"
      using run o by (cases p) (auto simp: on_shared_def sbind_def)
    ultimately show "advances tabs V u u'" by (intro same_store_advances [OF u]) simp_all
  qed
qed

section \<open>Steps\<close>

lemma serve_advances:
  fixes s :: "('b, 'q, 'v) bank"
  assumes V: "ev_backend V = B" and ok: "bank_inv tabs V s" and run: "serve V j s = (reply, s')"
  shows "advances tabs V s s'"
proof -
  have by_order: "advances tabs V s s'"
    if "orderly tabs always m Q" "answer f (m s) = (reply, s')" for f m and Q :: "'a \<Rightarrow> tables \<Rightarrow> bool"
    using that(2) orderly_advances [OF that(1) ok] by (cases "m s") (auto simp: answer_def)
  note raw = raw_calls_orderly [OF V]
  have closing: "bank_persist s = (q, u) \<Longrightarrow> u = s" "bank_is_persisted s = (q', u') \<Longrightarrow> u' = s" "bank_usage V s = (q'', u'') \<Longrightarrow> u'' = s"
    for q q' q'' u u' u''
    by (auto simp: bank_persist_def bank_is_persisted_def bank_usage_def bank_ensure_open_def sbind_def split: sum.splits if_splits)
  show ?thesis
  proof (cases j)
    case Job_FlushAll
    then show ?thesis using run flush_all_advances [OF V ok] by (cases "flush_all V s") (auto simp: answer_def)
  next
    case Job_Persist
    then show ?thesis using run closing(1) advances_refl [OF ok] by (cases "bank_persist s") (auto simp: answer_def)
  next
    case Job_IsPersisted
    then show ?thesis using run closing(2) advances_refl [OF ok] by (cases "bank_is_persisted s") (auto simp: answer_def)
  next
    case Job_ReportUsage
    then show ?thesis using run closing(3) advances_refl [OF ok] by (cases "bank_usage V s") (auto simp: answer_def)
  next
    case (Job_DeleteLocker name)
    then show ?thesis using run by_order [OF delete_locker_orderly [OF V]] by simp
  qed (use run advances_refl [OF ok] in \<open>simp_all add: by_order [OF raw(1)] by_order [OF raw(2)] by_order [OF raw(3)] by_order [OF raw(4)]
      by_order [OF raw(5)] by_order [OF raw(6)] by_order [OF raw(7)] by_order [OF raw(8)] by_order [OF raw(9)]
      by_order [OF raw(10)] by_order [OF raw(11)]\<close>)
qed

lemma reopen_advances:
  fixes s s' :: "('b, 'q, 'v) bank"
  assumes V: "ev_backend V = B" and ok: "bank_inv tabs V s" and run: "assembled V (sh_store s) ch coh = Inr s'"
  shows "advances tabs V s s'"
proof -
  obtain b where b: "check_or_write_format_version V (sh_store s) = (Inr (), b)" "s' = bank_new b ch coh"
    using run by (auto simp: assembled_def split: prod.splits sum.splits)
  have meta: "registry (tabs b) = registry (tabs (sh_store s)) \<and> next_locker (tabs b) = next_locker (tabs (sh_store s))
      \<and> registry_ok (tabs b)"
  proof (cases "b = sh_store s")
    case True
    then show ?thesis using ok by (simp add: bank_inv_def bank_ok_def)
  next
    case False
    then have c: "bk_commit B [Op_Put Meta META_FORMAT_VERSION (be32 FORMAT_VERSION)] (sh_store s) = (Inr (), b)"
      using b(1) V by (auto simp: check_or_write_format_version_def split: sum.splits option.splits)
    have sp: "spares {} op" if "op \<in> set [Op_Put Meta META_FORMAT_VERSION (be32 FORMAT_VERSION)]" for op
      using that by (simp add: spares_def)
    have t: "tabs b = apply_ops (tabs (sh_store s)) [Op_Put Meta META_FORMAT_VERSION (be32 FORMAT_VERSION)]"
      using plain_commit_spec [OF c] .
    from spared [of "[Op_Put Meta META_FORMAT_VERSION (be32 FORMAT_VERSION)]" "{}" "tabs (sh_store s)", OF sp] ok
    show ?thesis by (simp add: t bank_inv_def bank_ok_def)
  qed
  then show ?thesis
    by (simp add: advances_def bank_inv_def bank_ok_def homed_def b(2) bank_new_def cached_def grows_def)
qed

lemma bank_step_advances:
  fixes s s' :: "('b, 'q, 'v) bank"
  assumes "bank_step V s s'" and V: "ev_backend V = B" and ok: "bank_inv tabs V s"
  shows "advances tabs V s s'"
  using assms(1)
proof cases
  case (Call m cell r)
  then show ?thesis using in_cell_advances [OF V ok Call(2) locker_call_within [OF Call(1)]] by blast
next
  case (Drop cell)
  then show ?thesis using on_cell_advances [OF ok] by (simp add: drop_handle_def)
next
  case (Chain ch)
  then show ?thesis by (intro same_store_advances [OF ok]) (simp_all add: register_chain_def)
next
  case (Serve j reply)
  then show ?thesis by (rule serve_advances [OF V ok])
next
  case (Quarantine name keys r)
  then show ?thesis by (rule orderly_advances [OF quarantine_orderly [OF V] ok])
next
  case (Measure name u)
  then show ?thesis by (rule orderly_advances [OF measures_orderly(1) [OF V] ok])
next
  case (Verify name bad)
  then show ?thesis by (rule orderly_advances [OF measures_orderly(2) [OF V] ok])
next
  case (Open_Eager sd name cfg a)
  then show ?thesis by (rule open_steps(1) [OF V ok])
next
  case (Open_Lazy sd name cfg a)
  then show ?thesis by (rule open_steps(2) [OF V ok])
next
  case (Reopen ch coh)
  then show ?thesis by (rule reopen_advances [OF V ok])
qed

lemma bank_steps_advance:
  fixes s s' :: "('b, 'q, 'v) bank"
  assumes "(bank_step V)\<^sup>*\<^sup>* s s'" and V: "ev_backend V = B" and ok: "bank_inv tabs V s"
  shows "advances tabs V s s'"
  using assms(1)
proof (induction rule: rtranclp_induct)
  case (step u s')
  then have "bank_inv tabs V u" by (simp add: advances_def)
  with step show ?case using bank_step_advances [OF _ V] advances_trans by blast
qed (rule advances_refl [OF ok])

end

section \<open>Properties\<close>

lemma assembled_inv:
  fixes s :: "('b, 'q, 'v) bank"
  assumes "backend_contract (ev_backend V) tabs" "registry_ok (tabs b)" "assembled V b ch coh = Inr s"
  shows "bank_inv tabs V s"
proof -
  have "bank_inv tabs V (bank_new b ch coh :: ('b, 'q, 'v) bank)"
    using assms(2) by (simp add: bank_inv_def bank_ok_def homed_def bank_new_def cached_def)
  from backend_contract.reopen_advances [OF assms(1) refl this] assms(3)
  show ?thesis by (simp add: advances_def bank_new_def)
qed

text \<open>A bank over memory: just made, after a put into a locker \<open>a\<close>, and with a lazy locker \<open>b\<close> open in cell 1.\<close>

definition sample_fresh :: "(memory_backend, unit, unit) bank" where
  "sample_fresh = projr (assembled sample_env memory_new chain_raw coherence_disabled)"

definition sample_named :: "(memory_backend, unit, unit) bank" where
  "sample_named = snd (serve sample_env (Job_Put ''a'' [1] [2]) sample_fresh)"

definition sample_unit :: "unit serde" where
  "sample_unit = \<lparr>sd_to_vec = (\<lambda>_. Inr []), sd_from_bytes = (\<lambda>_. Inr ()), sd_type_name = ''()''\<rparr>"

definition sample_config :: locker_config where
  "sample_config = \<lparr>lc_max_inline = 2, lc_eager_budget = 100, lc_policy = Precious, lc_commit = Commit_Immediate,
     lc_durability = Dur_Immediate, lc_on_corrupt = OC_Fail, lc_chunk_size = 2, lc_chain = None\<rparr>"

definition sample_two :: "(memory_backend, unit, unit) bank" where
  "sample_two = snd (lazy_locker_with sample_env sample_unit ''b'' sample_config sample_named)"

lemma sample_assembled: "assembled sample_env memory_new chain_raw coherence_disabled = Inr sample_fresh"
proof -
  have "\<not> isl (assembled sample_env memory_new chain_raw coherence_disabled :: (memory_backend, unit, unit) bank result)"
    by code_simp
  then show ?thesis by (simp add: sample_fresh_def)
qed

lemma sample_start: "backend_contract (ev_backend sample_env) mb_tables" "registry_ok (mb_tables memory_new)"
  using mem.backend_contract_axioms
  by (simp_all add: sample_env_def registry_ok_def registry_def memory_new_def) (simp_all add: tables_default_def)

lemma sample_steps:
  "(bank_step sample_env)\<^sup>*\<^sup>* sample_fresh sample_named" "(bank_step sample_env)\<^sup>*\<^sup>* sample_fresh sample_two"
proof -
  show named: "(bank_step sample_env)\<^sup>*\<^sup>* sample_fresh sample_named"
    unfolding sample_named_def by (rule r_into_rtranclp, rule bank_step.Serve, rule prod.collapse [symmetric])
  show "(bank_step sample_env)\<^sup>*\<^sup>* sample_fresh sample_two"
    unfolding sample_two_def by (rule rtranclp.rtrancl_into_rtrancl [OF named], rule bank_step.Open_Lazy, rule prod.collapse [symmetric])
qed

text \<open>
  C6: In every state that opens, calls on lockers and their streams, jobs of the service, maintenance and
  reopening, each run to its end before the next, can reach, whatever the backend answers, the names of the bank have distinct ids below the
  counter and the ids the bank has cached are those stored; no record is stored under an id that was not
  given out; and a name has at any later time the id it had, or one that was not given out before: no id of
  a deleted locker is used again.
\<close>

theorem bank_ids_unique:
  fixes s0 s1 s2 :: "('b, 'q, 'v) bank"
  assumes "backend_contract (ev_backend V) tabs" "registry_ok (tabs b)" "assembled V b ch coh = Inr s0"
    and "(bank_step V)\<^sup>*\<^sup>* s0 s1" "(bank_step V)\<^sup>*\<^sup>* s1 s2"
  shows "registry_ok (tabs (sh_store s2))
    \<and> (\<forall>n i. cached s2 n = Some i \<longrightarrow> registry (tabs (sh_store s2)) n = Some i)
    \<and> (\<forall>n i. registry (tabs (sh_store s2)) n = Some i \<longrightarrow>
         registry (tabs (sh_store s1)) n = Some i \<or> next_locker (tabs (sh_store s1)) \<le> i)"
proof -
  note steps = backend_contract.bank_steps_advance [OF assms(1) _ refl]
  have "bank_inv tabs V s1" using steps [OF assms(4) assembled_inv [OF assms(1-3)]] by (simp add: advances_def)
  from steps [OF assms(5) this] show ?thesis by (simp add: advances_def bank_inv_def bank_ok_def grows_def)
qed

theorem bank_ids_unique_witness:
  "registry_ok (mb_tables (sh_store (snd (serve sample_env (Job_DeleteLocker ''a'') sample_named))))
    \<and> registry (mb_tables (sh_store sample_named)) ''a'' = Some 0"
proof -
  have "(bank_step sample_env)\<^sup>*\<^sup>* sample_named (snd (serve sample_env (Job_DeleteLocker ''a'') sample_named))"
    by (rule r_into_rtranclp, rule bank_step.Serve, rule prod.collapse [symmetric])
  from bank_ids_unique [OF sample_start sample_assembled sample_steps(1) this] have
    "registry_ok (mb_tables (sh_store (snd (serve sample_env (Job_DeleteLocker ''a'') sample_named))))" by blast
  moreover have "registry (mb_tables (sh_store sample_named)) ''a'' = Some 0" by code_simp
  ultimately show ?thesis by blast
qed

text \<open>
  C30: The storage is well typed in every state a bank in use can reach: its records lie under issued locker
  ids, its pieces under value ids, and every entry of the meta table is of one of the eight forms, with the
  length of its form, that the code reads there.
\<close>

theorem storage_typed:
  fixes s0 s :: "('b, 'q, 'v) bank"
  assumes "backend_contract (ev_backend V) tabs" "registry_ok (tabs b)" "assembled V b ch coh = Inr s0"
    and "(bank_step V)\<^sup>*\<^sup>* s0 s" "bt_lookup (tables_get (tabs (sh_store s)) tab) x = Some v"
  shows "typed tab x v \<and> (tab = Records \<longrightarrow> (\<exists>l u. x = encode_bytes l u \<and> l < next_locker (tabs (sh_store s))))"
proof -
  have ok: "registry_ok (tabs (sh_store s))"
    using backend_contract.bank_steps_advance [OF assms(1,4) refl assembled_inv [OF assms(1-3)]]
    by (simp add: advances_def bank_inv_def bank_ok_def)
  then have ty: "typed tab x v" using assms(5) by (simp add: registry_ok_def well_typed_def)
  moreover have "\<exists>l u. x = encode_bytes l u \<and> l < next_locker (tabs (sh_store s))" if "tab = Records"
  proof -
    have "typed Records x v" using ty that by simp
    then obtain l u where "x = encode_bytes l u" by (auto simp: typed.simps)
    then show ?thesis using assms(5) that ok by (auto simp: registry_ok_def not_le [symmetric])
  qed
  ultimately show ?thesis by blast
qed

theorem storage_typed_witness:
  "typed Meta META_NEXT_LOCKER_ID (be32 1)
    \<and> bt_lookup (tables_get (mb_tables (sh_store sample_named)) Meta) META_NEXT_LOCKER_ID = Some (be32 1)"
proof -
  have "bt_lookup (tables_get (mb_tables (sh_store sample_named)) Meta) META_NEXT_LOCKER_ID = Some (be32 1)" by code_simp
  with storage_typed [OF sample_start sample_assembled sample_steps(1) this] show ?thesis by blast
qed

text \<open>
  C7: A call on an open locker, whatever it is and however it ends, leaves every record of every other
  locker as it was, and in the meta table changes nothing but the two counters and the locker's own
  accounting: no name, schema, chain or budget of another locker.
\<close>

theorem lockers_isolated:
  fixes s0 s s' :: "('b, 'q, 'v) bank"
  assumes "backend_contract (ev_backend V) tabs" "registry_ok (tabs b)" "assembled V b ch coh = Inr s0"
    and "(bank_step V)\<^sup>*\<^sup>* s0 s" "locker_call m" "bt_lookup (bn_cells s) a = Some c" "in_cell a m s = (r, s')"
  shows "undisturbed (cx_id (ce_ctx c)) (tabs (sh_store s)) (tabs (sh_store s'))"
proof -
  have "bank_inv tabs V s"
    using backend_contract.bank_steps_advance [OF assms(1,4) refl assembled_inv [OF assms(1-3)]] by (simp add: advances_def)
  then have "cx_backend (ce_ctx c) = ev_backend V" using assms(6) by (auto simp: bank_inv_def homed_def)
  from backend_contract.locker_call_within [OF assms(1,5) this]
  have "stays tabs (ce_ctx c) (m (ce_ctx c))" .
  moreover obtain q st where st: "m (ce_ctx c) ((ce_state c)\<lparr>sh_store := sh_store s, sh_values := sh_values s,
      sh_ticks := sh_ticks s, sh_coherence := sh_coherence s\<rparr>) = (q, st)" by fastforce
  ultimately have "writes_within tabs (ce_ctx c) (sh_store s) (sh_store st)" using withinD by fastforce
  moreover have "sh_store s' = sh_store st" using assms(6,7) st by (auto simp: in_cell_def)
  ultimately show ?thesis using writes_within_effect(1) by fastforce
qed

theorem lockers_isolated_witness:
  "undisturbed 1 (mb_tables (sh_store sample_two))
     (mb_tables (sh_store (snd (in_cell 1 (\<lambda>X. lazy_put_by X sample_unit [1] ()) sample_two))))"
proof -
  have "map_option (\<lambda>c. cx_id (ce_ctx c)) (bt_lookup (bn_cells sample_two) 1) = Some 1" by code_simp
  then obtain c where c: "bt_lookup (bn_cells sample_two) 1 = Some c" "cx_id (ce_ctx c) = 1" by auto
  from lockers_isolated [OF sample_start sample_assembled sample_steps(2) locker_call.Lazy_Put c(1) prod.collapse [symmetric]] c(2)
  show ?thesis by simp
qed

end
