(* ===== verification/Id_Interleaving.thy ===== *)
theory Id_Interleaving
  imports Bank_Runs
begin

text \<open>
  \<open>Bank::locker_id\<close> (\<open>src/bank.rs\<close>) at its two awaits. The definitions of \<open>Bank\<close> and the properties of \<open>Bank_Runs\<close>
  take it, as they take every call on the bank, in one piece; here two first uses of different names overlap.
\<close>

section \<open>Up to the first await, and from there on\<close>

text \<open>What a call knows once its \<open>get_many\<close> has answered: the id in the cache, the id in the storage, or a new id.\<close>

datatype id_plan = Cached_Id locker_id | Stored_Id locker_id | New_Id locker_id u32

definition id_read :: "('b, 'q) env \<Rightarrow> string \<Rightarrow> ('b, 'q, 'v) bank \<Rightarrow> id_plan result" where
  "id_read V name s =
     (case cached s name of
        Some i \<Rightarrow> Inr (Cached_Id i)
      | None \<Rightarrow>
          rbind (bk_get_many (ev_backend V) (sh_store s) Meta [locker_key name, META_NEXT_LOCKER_ID]) (\<lambda>found.
            case pop_flatten found of (next_raw, found) \<Rightarrow>
            case pop_flatten found of (registered, _) \<Rightarrow>
            (case registered of
               Some raw \<Rightarrow> rbind (u32_from raw ''locker id'') (\<lambda>i. Inr (Stored_Id i))
             | None \<Rightarrow>
                 rbind (case next_raw of Some raw \<Rightarrow> u32_from raw ''next locker id'' | None \<Rightarrow> Inr 0) (\<lambda>nxt.
                 rbind (case checked_succ nxt of Some j \<Rightarrow> Inr j
                        | None \<Rightarrow> Inl (Backend ''locker id space is exhausted'')) (\<lambda>bumped.
                   Inr (New_Id nxt bumped))))))"

definition id_finish :: "('b, 'q) env \<Rightarrow> string \<Rightarrow> id_plan \<Rightarrow> (('b, 'q, 'v) bank, error, locker_id) act" where
  "id_finish V name plan =
     (case plan of
        Cached_Id i \<Rightarrow> sret i
      | Stored_Id i \<Rightarrow> sbind (smod (cache name i)) (\<lambda>_. sret i)
      | New_Id nxt bumped \<Rightarrow>
          sbind (on_store (bk_commit (ev_backend V) (register_ops name nxt bumped))) (\<lambda>_.
          sbind (smod (cache name nxt)) (\<lambda>_. sret nxt)))"

text \<open>Nothing in between: the call in one piece.\<close>

lemma locker_id_of_split:
  "locker_id_of V name s = (case id_read V name s of Inl e \<Rightarrow> (Inl e, s) | Inr plan \<Rightarrow> id_finish V name plan s)"
  by (auto simp: locker_id_of_def id_read_def id_finish_def sbind_def rbind_def split: option.split sum.split prod.split)

text \<open>A plan that is still what a read would find when it is carried out is as good as new.\<close>

lemma plan_still_good:
  "id_read V name s = Inr plan \<Longrightarrow> id_finish V name plan s = locker_id_of V name s"
  by (simp add: locker_id_of_split)

section \<open>Two first uses at once\<close>

lemma registered_name:
  "registry (apply_ops t (register_ops name i bumped)) n = (if n = name then Some i else registry t n)"
proof -
  have "bt_lookup (tb_meta (apply_ops t (register_ops name i bumped))) k = (if k = META_NEXT_LOCKER_ID then Some (be32 bumped)
      else if k = locker_key name then Some (be32 i) else bt_lookup (tb_meta t) k)" for k
    using lookup_apply_ops [of t "register_ops name i bumped" Meta k]
    by (simp add: register_ops_def last_said_def List.map_filter_simps)
  then show ?thesis by (simp add: registry_def)
qed

context backend_contract
begin

lemma id_read_new:
  assumes "ev_backend V = B" "bank_ok tabs s" "registry (tabs (sh_store s)) name = None" "id_read V name s = Inr plan"
  shows "\<exists>bumped. plan = New_Id (next_locker (tabs (sh_store s))) bumped"
proof -
  let ?t = "tabs (sh_store s)"
  have c: "cached s name = None" using assms(2,3) by (cases "cached s name") (auto simp: bank_ok_def)
  obtain vs where vs: "bk_get_many B (sh_store s) Meta [locker_key name, META_NEXT_LOCKER_ID] = Inr vs"
    using assms(1,4) c by (auto simp: id_read_def rbind_eq_Inr_iff)
  have "bt_lookup (tb_meta ?t) (locker_key name) = None" using assms(3) by (simp add: registry_def)
  then have "vs = [None, bt_lookup (tb_meta ?t) META_NEXT_LOCKER_ID]" using get_many_spec [OF vs] by simp
  moreover have "(case bt_lookup (tb_meta ?t) META_NEXT_LOCKER_ID of Some raw \<Rightarrow> u32_from raw ''next locker id'' | None \<Rightarrow> Inr 0) = Inr (next_locker ?t)"
    using assms(2) by (auto simp: bank_ok_def registry_ok_def next_locker_def u32_from_def split: option.split)
  ultimately show ?thesis using assms(1,4) c vs by (auto simp: id_read_def rbind_eq_Inr_iff)
qed

lemma id_finish_new:
  assumes "ev_backend V = B" "id_finish V name (New_Id i bumped) s = (Inr j, s')"
  shows "j = i \<and> tabs (sh_store s') = apply_ops (tabs (sh_store s)) (register_ops name i bumped) \<and> cached s' name = Some i"
proof -
  obtain b where b: "bk_commit B (register_ops name i bumped) (sh_store s) = (Inr (), b)" "j = i" "s' = cache name i (s\<lparr>sh_store := b\<rparr>)"
    using assms by (auto simp: id_finish_def sbind_eq_Inr_iff on_store_def split: prod.splits)
  then show ?thesis using plain_commit_spec [OF b(1)] by (simp add: cache_def cached_def)
qed

end

text \<open>
  C35: In any state a bank in use can reach, when two first uses of different names both read the registry before either
  commits, and both succeed, they are given the same id: both names stand for it in the storage and in the cache
  from then on, and the invariant of the registry is broken. (That each call alone keeps it is \<open>bank_ids_unique\<close>.)
\<close>

theorem overlapping_first_uses_collide:
  fixes s0 s s1 s2 :: "('b, 'q, 'v) bank"
  assumes "backend_contract (ev_backend V) tabs" "registry_ok (tabs b)" "assembled V b ch coh = Inr s0" "(bank_step V)\<^sup>*\<^sup>* s0 s"
    and "registry (tabs (sh_store s)) m = None" "registry (tabs (sh_store s)) n = None" "m \<noteq> n"
    and "id_read V m s = Inr p" "id_read V n s = Inr q" "id_finish V m p s = (Inr i, s1)" "id_finish V n q s1 = (Inr j, s2)"
  shows "j = i \<and> registry (tabs (sh_store s2)) m = Some i \<and> registry (tabs (sh_store s2)) n = Some i
    \<and> cached s2 n = Some i \<and> \<not> registry_ok (tabs (sh_store s2))"
proof -
  have ok: "bank_ok tabs s"
    using backend_contract.bank_steps_advance [OF assms(1,4) refl assembled_inv [OF assms(1-3)]]
    by (simp add: advances_def bank_inv_def)
  let ?l = "next_locker (tabs (sh_store s))"
  obtain x y where p: "p = New_Id ?l x" and q: "q = New_Id ?l y"
    using backend_contract.id_read_new [OF assms(1) refl ok assms(5,8)] backend_contract.id_read_new [OF assms(1) refl ok assms(6,9)] by blast
  note f = backend_contract.id_finish_new [OF assms(1) refl assms(10) [unfolded p]]
    backend_contract.id_finish_new [OF assms(1) refl assms(11) [unfolded q]]
  then have "registry (tabs (sh_store s2)) m = Some i" "registry (tabs (sh_store s2)) n = Some i"
    using assms(7) by (simp_all add: registered_name)
  moreover from this have "\<not> registry_ok (tabs (sh_store s2))" using assms(7) unfolding registry_ok_def by blast
  ultimately show ?thesis using f by simp
qed

text \<open>Two names new to the bank with the locker \<open>a\<close>.\<close>

definition sample_first :: "(memory_backend, unit, unit) bank" where
  "sample_first = snd (id_finish sample_env ''x'' (New_Id 1 2) sample_named)"

definition sample_second :: "(memory_backend, unit, unit) bank" where
  "sample_second = snd (id_finish sample_env ''y'' (New_Id 1 2) sample_first)"

lemma sample_race:
  "id_read sample_env ''x'' sample_named = Inr (New_Id 1 2)" "id_read sample_env ''y'' sample_named = Inr (New_Id 1 2)"
  "fst (id_finish sample_env ''x'' (New_Id 1 2) sample_named) = Inr 1" "fst (id_finish sample_env ''y'' (New_Id 1 2) sample_first) = Inr 1"
  "registry (mb_tables (sh_store sample_named)) ''x'' = None" "registry (mb_tables (sh_store sample_named)) ''y'' = None"
  by code_simp+

theorem overlapping_first_uses_collide_witness:
  "registry (mb_tables (sh_store sample_second)) ''x'' = Some 1 \<and> registry (mb_tables (sh_store sample_second)) ''y'' = Some 1"
proof -
  have "id_finish sample_env ''x'' (New_Id 1 2) sample_named = (Inr 1, sample_first)"
    "id_finish sample_env ''y'' (New_Id 1 2) sample_first = (Inr 1, sample_second)"
    using sample_race(3,4) by (simp_all add: sample_first_def sample_second_def prod_eq_iff)
  from overlapping_first_uses_collide [OF sample_start sample_assembled sample_steps(1) sample_race(5,6) _ sample_race(1,2) this]
  show ?thesis by simp
qed

end
