(* ===== verification/Fault.thy ===== *)
theory Fault
  imports Memory_Backend Paging
begin

text \<open>
  \<open>crossbank-conformance/src/fault.rs\<close>: the decorator that injects one fault into the commits of a
  backend and passes everything else through. Whatever it is armed with, a commit is applied whole, applied
  with one damaged value, or refused whole.
\<close>

unbundle bit_operations_syntax

datatype injection = Inj_Abort | Inj_Io | Inj_Quota | Inj_Truncate nat | Inj_Corrupt nat

record fault_plan =
  fp_at_op :: nat
  fp_injection :: injection

record 'b fault =
  ft_inner :: 'b
  ft_plan :: "fault_plan option"
  ft_ops :: nat

definition fault_new :: "'b \<Rightarrow> 'b fault" where
  "fault_new b = \<lparr>ft_inner = b, ft_plan = None, ft_ops = 0\<rparr>"

definition arm :: "fault_plan \<Rightarrow> 'b fault \<Rightarrow> 'b fault" where
  "arm p f = f\<lparr>ft_plan := Some p, ft_ops := 0\<rparr>"

definition fired :: "'b fault \<Rightarrow> bool" where
  "fired f \<longleftrightarrow> ft_plan f = None"

fun op_bytes :: "bop \<Rightarrow> nat" where
  "op_bytes (Op_Put tab key v) = length key + length v"
| "op_bytes (Op_Delete tab key) = length key"
| "op_bytes (Op_DeleteRange tab r) = 0"

definition ops_bytes :: "bop list \<Rightarrow> nat" where
  "ops_bytes ops = sum_list (map op_bytes ops)"

fun is_put :: "bop \<Rightarrow> bool" where
  "is_put (Op_Put tab key v) = True"
| "is_put _ = False"

fun damage :: "injection \<Rightarrow> bop \<Rightarrow> bop" where
  "damage (Inj_Truncate n) (Op_Put tab key v) = Op_Put tab key (take n v)"
| "damage (Inj_Corrupt n) (Op_Put tab key v) =
     (if v \<noteq> [] then Op_Put tab key (v[n mod length v := (v ! (n mod length v)) XOR 0xFF]) else Op_Put tab key v)"
| "damage i op = op"

text \<open>What the commit that a plan refuses fails with.\<close>

fun refusal :: "injection \<Rightarrow> bop list \<Rightarrow> error option" where
  "refusal Inj_Abort ops = Some (Backend ''fault: the commit was aborted before it reached storage'')"
| "refusal Inj_Io ops = Some (Backend ''fault: the device reported an I/O error'')"
| "refusal Inj_Quota ops = Some (QuotaExceeded (of_nat (ops_bytes ops)) None)"
| "refusal _ ops = None"

text \<open>\<open>(from..end).find(..)\<close>, on indices counted over all commits since the plan was armed.\<close>

definition first_put :: "bop list \<Rightarrow> nat \<Rightarrow> nat \<Rightarrow> nat \<Rightarrow> nat option" where
  "first_put ops start low end' = List.find (\<lambda>i. is_put (ops ! (i - start))) [low..<end']"

definition intercept :: "bop list \<Rightarrow> ('b fault, error, bop list) act" where
  "intercept ops f =
     (let start = ft_ops f; end' = start + length ops; f = f\<lparr>ft_ops := end'\<rparr> in
      case ft_plan f of
        None \<Rightarrow> (Inr ops, f)
      | Some p \<Rightarrow>
          (case refusal (fp_injection p) ops of
             Some e \<Rightarrow> if fp_at_op p \<ge> end' then (Inr ops, f) else (Inl e, f\<lparr>ft_plan := None\<rparr>)
           | None \<Rightarrow>
               (case first_put ops start (max (fp_at_op p) start) end' of
                  None \<Rightarrow> (Inr ops, f)
                | Some index \<Rightarrow>
                    (Inr (ops[index - start := damage (fp_injection p) (ops ! (index - start))]),
                     f\<lparr>ft_plan := None\<rparr>))))"

text \<open>A commit of the inner backend on its part of the state.\<close>

definition on_inner :: "('b, error, 'a) act \<Rightarrow> ('b fault, error, 'a) act" where
  "on_inner m f = (case m (ft_inner f) of (r, b) \<Rightarrow> (r, f\<lparr>ft_inner := b\<rparr>))"

definition fault_backend :: "'b backend \<Rightarrow> 'b fault backend" where
  "fault_backend B =
     \<lparr>bk_get = (\<lambda>f. bk_get B (ft_inner f)), bk_get_many = (\<lambda>f. bk_get_many B (ft_inner f)),
      bk_scan = (\<lambda>f. bk_scan B (ft_inner f)), bk_scan_page_size = bk_scan_page_size B,
      bk_commit = (\<lambda>ops. sbind (intercept ops) (\<lambda>ops. on_inner (bk_commit B ops))),
      bk_commit_with = (\<lambda>ops opts. sbind (intercept ops) (\<lambda>ops. on_inner (bk_commit_with B ops opts))),
      bk_usage = (\<lambda>f. bk_usage B (ft_inner f)), bk_flush = on_inner (bk_flush B),
      bk_close = on_inner (bk_close B), bk_fuel = (\<lambda>f. bk_fuel B (ft_inner f))\<rparr>"

section \<open>What a fault can do\<close>

lemma intercept_inner: "ft_inner (snd (intercept ops f)) = ft_inner f"
  unfolding intercept_def Let_def by (simp split: option.split)

lemma intercept_unarmed: "ft_plan f = None \<Longrightarrow> intercept ops f = (Inr ops, f\<lparr>ft_ops := ft_ops f + length ops\<rparr>)"
  by (simp add: intercept_def Let_def)

text \<open>A failed commit of a faulty backend leaves what is stored as it was.\<close>

lemma fault_commit_error:
  assumes "\<And>ops b e b'. bk_commit_with B ops opts b = (Inl e, b') \<Longrightarrow> tabs b' = tabs b"
    and "bk_commit_with (fault_backend B) ops opts f = (Inl e, f')"
  shows "tabs (ft_inner f') = tabs (ft_inner f)"
proof -
  obtain r g where g: "intercept ops f = (r, g)" by (cases "intercept ops f")
  have same: "ft_inner g = ft_inner f" using intercept_inner [of ops f] by (simp add: g)
  show ?thesis
  proof (cases r)
    case (Inl e')
    then show ?thesis using assms(2) g same by (simp add: fault_backend_def)
  next
    case (Inr ops')
    obtain q b where c: "bk_commit_with B ops' opts (ft_inner g) = (q, b)"
      by (cases "bk_commit_with B ops' opts (ft_inner g)")
    with Inr have "q = Inl e" "ft_inner f' = b"
      using assms(2) g by (auto simp: fault_backend_def on_inner_def)
    with c assms(1) same show ?thesis by metis
  qed
qed

end
