(* ===== verification/Held_Commits.thy ===== *)
theory Held_Commits
  imports Fault
begin

text \<open>
  The rest of \<open>crossbank-conformance/src/fault.rs\<close>: \<open>Shared\<close>, a backend that passes everything on, and \<open>Hold\<close>,
  the decorator that catches one commit and keeps it waiting while other calls go on. A oneshot channel is a number.
  Its gate opens when the key is sent or dropped, which is when the decorator no longer has it.
\<close>

section \<open>Shared\<close>

definition shared_backend :: "'b backend \<Rightarrow> 'b backend" where
  "shared_backend B =
     \<lparr>bk_get = bk_get B, bk_get_many = bk_get_many B, bk_scan = bk_scan B, bk_scan_page_size = bk_scan_page_size B,
      bk_commit = bk_commit B, bk_commit_with = bk_commit_with B, bk_usage = bk_usage B, bk_flush = bk_flush B,
      bk_close = bk_close B, bk_fuel = bk_fuel B\<rparr>"

lemma shared_is_inner: "shared_backend B = B"
  by (simp add: shared_backend_def)

section \<open>Hold\<close>

text \<open>\<open>hd_next\<close> is the number of the next channel.\<close>

record 'b hold =
  hd_inner :: 'b
  hd_caught :: "nat option"
  hd_gate :: "nat option"
  hd_key :: "nat option"
  hd_next :: nat

definition hold_new :: "'b \<Rightarrow> 'b hold" where
  "hold_new b = \<lparr>hd_inner = b, hd_caught = None, hd_gate = None, hd_key = None, hd_next = 0\<rparr>"

definition hold_arm :: "'b hold \<Rightarrow> 'b hold" where
  "hold_arm h = h\<lparr>hd_caught := Some (hd_next h), hd_gate := Some (hd_next h), hd_key := Some (hd_next h), hd_next := hd_next h + 1\<rparr>"

definition hold_release :: "'b hold \<Rightarrow> 'b hold" where
  "hold_release h = h\<lparr>hd_key := None\<rparr>"

definition hold_claim :: "'b hold \<Rightarrow> (nat \<times> nat) option \<times> 'b hold" where
  "hold_claim h =
     (case (hd_caught h, hd_gate h) of
        (Some c, Some g) \<Rightarrow> (Some (c, g), h\<lparr>hd_caught := None, hd_gate := None\<rparr>)
      | _ \<Rightarrow> (None, h))"

definition gate_open :: "nat \<Rightarrow> 'b hold \<Rightarrow> bool" where
  "gate_open g h \<longleftrightarrow> hd_key h \<noteq> Some g"

text \<open>A commit returns at once, or waits at a gate until that is open.\<close>

record waiting =
  wt_gate :: nat
  wt_ops :: "bop list"
  wt_options :: commit_options

definition hold_land :: "'b backend \<Rightarrow> bop list \<Rightarrow> commit_options \<Rightarrow> ('b hold, error, unit) act" where
  "hold_land B ops options h = (case bk_commit_with B ops options (hd_inner h) of (r, b) \<Rightarrow> (r, h\<lparr>hd_inner := b\<rparr>))"

definition hold_commit_with :: "'b backend \<Rightarrow> bop list \<Rightarrow> commit_options \<Rightarrow> 'b hold \<Rightarrow> (waiting + unit result) \<times> 'b hold" where
  "hold_commit_with B ops options h =
     (case hold_claim h of
        (Some (_, g), h) \<Rightarrow> (Inl \<lparr>wt_gate = g, wt_ops = ops, wt_options = options\<rparr>, h)
      | (None, h) \<Rightarrow> (case hold_land B ops options h of (r, h) \<Rightarrow> (Inr r, h)))"

definition hold_commit :: "'b backend \<Rightarrow> bop list \<Rightarrow> 'b hold \<Rightarrow> (waiting + unit result) \<times> 'b hold" where
  "hold_commit B ops h = hold_commit_with B ops co_immediate h"

section \<open>Commits that land late\<close>

text \<open>
  A backend under a hold, with the commits that wait and those that have landed, oldest first. A waiting commit
  lands some time after its gate has opened, or never, when its caller gives up.
\<close>

record 'b held =
  he_hold :: "'b hold"
  he_waiting :: "waiting list"
  he_landed :: "bop list list"

definition landed :: "bop list \<Rightarrow> unit result \<Rightarrow> bop list list" where
  "landed ops r = (case r of Inr _ \<Rightarrow> [ops] | Inl _ \<Rightarrow> [])"

inductive held_step :: "'b backend \<Rightarrow> 'b held \<Rightarrow> 'b held \<Rightarrow> bool" for B where
  Held_Arm: "held_step B s (s\<lparr>he_hold := hold_arm (he_hold s)\<rparr>)"
| Held_Release: "held_step B s (s\<lparr>he_hold := hold_release (he_hold s)\<rparr>)"
| Held_Waits: "hold_commit_with B ops options (he_hold s) = (Inl w, h)
    \<Longrightarrow> held_step B s (s\<lparr>he_hold := h, he_waiting := he_waiting s @ [w]\<rparr>)"
| Held_Returns: "hold_commit_with B ops options (he_hold s) = (Inr r, h)
    \<Longrightarrow> held_step B s (s\<lparr>he_hold := h, he_landed := he_landed s @ landed ops r\<rparr>)"
| Held_Lands: "he_waiting s = xs @ w # ys \<Longrightarrow> gate_open (wt_gate w) (he_hold s)
    \<Longrightarrow> hold_land B (wt_ops w) (wt_options w) (he_hold s) = (r, h)
    \<Longrightarrow> held_step B s (s\<lparr>he_hold := h, he_waiting := xs @ ys, he_landed := he_landed s @ landed (wt_ops w) r\<rparr>)"
| Held_Dropped: "he_waiting s = xs @ w # ys \<Longrightarrow> held_step B s (s\<lparr>he_waiting := xs @ ys\<rparr>)"

text \<open>At most one commit waits at each gate, and the armed gate has none yet.\<close>

definition gates_right :: "'b held \<Rightarrow> bool" where
  "gates_right s \<longleftrightarrow>
     distinct (map wt_gate (he_waiting s)) \<and> (\<forall>w\<in>set (he_waiting s). wt_gate w < hd_next (he_hold s) \<and> hd_gate (he_hold s) \<noteq> Some (wt_gate w))
     \<and> hd_caught (he_hold s) = hd_gate (he_hold s) \<and> (\<forall>g. hd_gate (he_hold s) = Some g \<longrightarrow> g < hd_next (he_hold s))"

lemma hold_land_keeps:
  "hold_land B ops options h = (r, h') \<Longrightarrow> hd_caught h' = hd_caught h \<and> hd_gate h' = hd_gate h \<and> hd_key h' = hd_key h \<and> hd_next h' = hd_next h"
  by (auto simp: hold_land_def split: prod.splits)

lemma gates_step:
  assumes "held_step B s s'" "gates_right s"
  shows "gates_right s'"
  using assms
proof (induction rule: held_step.induct)
  case (Held_Waits ops options s w h)
  then obtain g where "hd_gate (he_hold s) = Some g" "wt_gate w = g" "h = (he_hold s)\<lparr>hd_caught := None, hd_gate := None\<rparr>"
    by (auto simp: hold_commit_with_def hold_claim_def split: prod.splits option.splits)
  with Held_Waits(2) show ?case by (auto simp: gates_right_def)
next
  case (Held_Returns ops options s r h)
  then have "hd_caught h = hd_caught (he_hold s) \<and> hd_gate h = hd_gate (he_hold s) \<and> hd_next h = hd_next (he_hold s)"
    by (auto simp: hold_commit_with_def hold_claim_def split: prod.splits option.splits dest!: hold_land_keeps)
  with Held_Returns(2) show ?case by (simp add: gates_right_def)
next
  case (Held_Lands s xs w ys r h)
  with hold_land_keeps [OF Held_Lands(3)] show ?case by (auto simp: gates_right_def)
qed (auto simp: gates_right_def hold_arm_def hold_release_def)

context backend_contract
begin

lemma landed_tables:
  assumes "bk_commit_with B ops options b = (r, b')" "tabs b = foldl apply_ops t cs"
  shows "tabs b' = foldl apply_ops t (cs @ landed ops r)"
  using assms commit_spec commit_error_spec by (cases r) (auto simp: landed_def)

text \<open>Whatever is held back and whenever it lands, what is stored is the commits that landed, in that order.\<close>

lemma held_tables:
  assumes "held_step B s s'" "tabs (hd_inner (he_hold s)) = foldl apply_ops t (he_landed s)"
  shows "tabs (hd_inner (he_hold s')) = foldl apply_ops t (he_landed s')"
  using assms
proof (induction rule: held_step.induct)
  case (Held_Waits ops options s w h)
  then have "hd_inner h = hd_inner (he_hold s)" by (auto simp: hold_commit_with_def hold_claim_def split: prod.splits option.splits)
  with Held_Waits(2) show ?case by simp
next
  case (Held_Returns ops options s r h)
  then have "bk_commit_with B ops options (hd_inner (he_hold s)) = (r, hd_inner h)"
    by (auto simp: hold_commit_with_def hold_claim_def hold_land_def split: prod.splits option.splits)
  with Held_Returns(2) show ?case by (simp add: landed_tables)
next
  case (Held_Lands s xs w ys r h)
  then have "bk_commit_with B (wt_ops w) (wt_options w) (hd_inner (he_hold s)) = (r, hd_inner h)"
    by (auto simp: hold_land_def split: prod.splits)
  with Held_Lands(4) show ?case by (simp add: landed_tables)
qed (simp_all add: hold_arm_def hold_release_def)

lemma held_run:
  assumes "(held_step B)\<^sup>*\<^sup>* \<lparr>he_hold = hold_new b, he_waiting = [], he_landed = []\<rparr> s"
  shows "tabs (hd_inner (he_hold s)) = foldl apply_ops (tabs b) (he_landed s) \<and> gates_right s"
  using assms
proof (induction rule: rtranclp_induct)
  case base
  then show ?case by (simp add: hold_new_def gates_right_def)
next
  case (step s s')
  then show ?case using held_tables [OF step(2)] gates_step [OF step(2)] by simp
qed

end

end
