(* ===== verification/Lazy_Refinement.thy ===== *)
theory Lazy_Refinement
  imports Commits
begin

text \<open>
  The operations of a lazy locker against the specification of \<open>Commits\<close>: put, delete, clear, flush and
  transact do to the map of the locker what their names say, whether they commit at once or stage, and a
  failure leaves the map as the specification says and the storage as it was.
\<close>

section \<open>Flushing\<close>

lemma restage_nothing: "s\<lparr>rs_staged := rs_staged s\<rparr> = s" for s :: "('b, 'q, 'z) resident_scheme"
  by simp

lemma effect_same: "lazy_ok X t s' \<Longrightarrow> rs_staged s' = rs_staged s \<Longrightarrow> effect X t s t s' UNIV (\<lambda>f. f)"
  unfolding effect_def by (intro conjI exI [of _ "[]"]) simp_all

lemma effectE:
  assumes "effect X t s t' s' kept g"
  obtains vs where "rs_lru s = None \<longrightarrow> vs = []" "set vs \<inter> kept = {}"
    "view_of X t' s' = without vs (g (view_of X t s))"
  using assms unfolding effect_def by (elim conjE exE) (rule that)

lemma effect_mono:
  assumes "effect X t s t' s' kept g" "kept' \<subseteq> kept"
  shows "effect X t s t' s' kept' g"
proof (rule effectE [OF assms(1)])
  fix vs
  assume vs: "rs_lru s = None \<longrightarrow> vs = []" "set vs \<inter> kept = {}" "view_of X t' s' = without vs (g (view_of X t s))"
  moreover have "set vs \<inter> kept' = {}" using vs(2) assms(2) by blast
  ultimately show ?thesis
    using assms(1) unfolding effect_def by (intro conjI exI [of _ vs]) simp_all
qed

context backend_contract
begin

lemma flush_Inr:
  fixes X :: "('b, 'q) ctx" and s :: "('b, 'q, 'z) resident_scheme"
  assumes f: "flush_locked X s = (Inr u, s')" and B: "cx_backend X = B" and chain: "sound_chain (cx_chain X)"
    and ok: "lazy_ok X (tabs (sh_store s)) s"
  shows "effect X (tabs (sh_store s)) s (tabs (sh_store s')) s' {k. \<exists>p. staged_view (rs_staged s) k = Some (Some p)} (\<lambda>f. f)
    \<and> rs_staged s' = []"
proof (cases "rs_staged s = []")
  case True
  then have "s\<lparr>rs_staged := []\<rparr> = s" using restage_nothing [of s] by simp
  moreover have "s' = s\<lparr>rs_staged := []\<rparr>" using f True by (auto simp: flush_locked_def take_staged_def)
  ultimately have "s' = s" by (rule trans [rotated])
  then show ?thesis using True effect_unharmed [OF effect_refl [OF ok]] by simp
next
  case False
  let ?st = "rs_staged s" and ?s = "s\<lparr>rs_staged := []\<rparr>"
  obtain bg v where c: "commit_batch X (rs_mode s) ?st ?st ?s = (Inr bg, v)" and s': "s' = apply_budget X bg v"
    using f False by (auto simp: flush_locked_def take_staged_def sbind_eq_Inr_iff)
  have ok': "vals_ok (sh_values ?s) (tabs (sh_store ?s))" and fits: "\<forall>e\<in>set ?st. pending_fits e"
    using ok by (simp_all add: lazy_ok_def)
  from commit_batch_Inr [OF c B ok' chain fits] obtain t1 where
    b: "becomes (cx_chain X) (tabs (sh_store s)) t1 (batch_writes (cx_id X) ?st)"
      "becomes (cx_chain X) t1 (tabs (sh_store v)) (evict_writes (cx_id X) (pl_victims (bg_plan bg)))"
    and cur: "cursor_above (sh_values v) (stored_counter (tabs (sh_store v)))"
    and vs: "set (pl_victims (bg_plan bg)) \<inter> {k. \<exists>p. staged_view ?st k = Some (Some p)} = {}"
      "rs_lru s = None \<longrightarrow> pl_victims (bg_plan bg) = []"
    and v: "rs_staged v = []" "rs_index v = rs_index s" "rs_known_inline v = rs_known_inline s"
    by auto
  obtain i where i: "rs_index s = Some i" "\<And>k. bt_contains i k \<longleftrightarrow> view_of X (tabs (sh_store s)) s k \<noteq> None"
    using ok by (auto simp: lazy_ok_def index_exact_def)
  have "effect X (tabs (sh_store s)) s (tabs (sh_store s')) s' {k. \<exists>p. staged_view ?st k = Some (Some p)} (\<lambda>f. f)"
  proof (rule effect_commit [OF b(1)])
    show "becomes (cx_chain X) t1 (tabs (sh_store s')) (evict_writes (cx_id X) (pl_victims (bg_plan bg)))"
      "cursor_above (sh_values s') (stored_counter (tabs (sh_store s')))" "rs_staged s' = []"
      using b(2) cur v by (simp_all add: s' apply_budget_fields)
    show "batch_writes (cx_id X) ?st (encode_bytes l k) = None" if "l \<noteq> cx_id X" for l k
      using that by (cases "decode_bytes (cx_id X) (encode_bytes l k)") (auto simp: batch_writes_def decode_bytes_Inr_iff)
    show "view_of X (tabs (sh_store s)) s = write_over (\<lambda>k. batch_writes (cx_id X) ?st (encode_key X k))
        (payload_view (cx_chain X) (cx_id X) (tabs (sh_store s)))"
      by (simp add: locker_view_eq encode_key_eq)
    show "rs_index s' = Some (fold bt_remove (pl_victims (bg_plan bg)) i)"
      by (simp add: s' apply_budget_fields v i)
    show "record_pointers t1 (encode_key X k) = []"
      if m: "rs_known_inline s' = Some m" "bt_contains m k" "k \<notin> set (pl_victims (bg_plan bg))" for m k
    proof -
      obtain m0 where "rs_known_inline s = Some m0" "bt_contains m0 k"
        using m by (auto simp: s' apply_budget_fields v)
      then have "record_pointers (tabs (sh_store s)) (encode_key X k) = []" "\<nexists>p. staged_view ?st k = Some (Some p)"
        using ok by (auto simp: lazy_ok_def inline_exact_def)
      moreover from this(2) have "staged_view ?st k \<in> {None, Some None}"
        by (cases "staged_view ?st k"; cases "the (staged_view ?st k)") auto
      ultimately show ?thesis
        using record_pointers_kept [OF b(1), of "encode_key X k"] by (simp add: encode_key_eq)
    qed
  qed (use vs i in auto)
  then show ?thesis using v by (simp add: s' apply_budget_fields)
qed

lemma unharmed_effect:
  assumes u: "unharmed s s'" and ok: "lazy_ok X (tabs (sh_store s)) s"
  shows "effect X (tabs (sh_store s)) s (tabs (sh_store s')) s' kept (\<lambda>f. f)"
proof -
  have "lazy_ok X (tabs (sh_store s')) s'" by (rule lazy_ok_unharmed [OF u ok])
  then have "lazy_ok X (tabs (sh_store s)) s'" by (simp only: unharmed_fields(1) [OF u])
  from effect_unharmed [OF effect_same [OF this unharmed_fields(2) [OF u]]] show ?thesis
    by (simp only: unharmed_fields(1) [OF u])
qed

lemma flush_Inl:
  fixes X :: "('b, 'q) ctx" and s :: "('b, 'q, 'z) resident_scheme"
  assumes f: "flush_locked X s = (Inl e, s')" and B: "cx_backend X = B"
  shows "unharmed s s'"
proof -
  let ?st = "rs_staged s" and ?s = "s\<lparr>rs_staged := []\<rparr>"
  have c: "commit_batch X (rs_mode s) ?st ?st ?s = (Inl e, s')"
    using f by (auto simp: flush_locked_def take_staged_def sbind_eq_Inl_iff split: if_splits)
  obtain u where u: "unharmed ?s u" "s' = restage ?st u"
    by (rule commit_batch_Inl [OF c B])
  then obtain b v tk lru where h: "u = ?s\<lparr>sh_store := b, sh_values := v, sh_ticks := tk, rs_lru := lru\<rparr>" "tabs b = tabs (sh_store s)"
    "cursor_above (sh_values s) (stored_counter (tabs b)) \<longrightarrow> cursor_above v (stored_counter (tabs b))"
    unfolding unharmed_def by auto
  then have "s' = s\<lparr>sh_store := b, sh_values := v, sh_ticks := tk, rs_lru := lru\<rparr>"
    using u(2) by (simp add: restage_def)
  then show ?thesis using h unfolding unharmed_def by blast
qed

text \<open>Both outcomes: a failed flush leaves the batch staged and the map as it was.\<close>

lemma flush_effect:
  fixes X :: "('b, 'q) ctx" and s :: "('b, 'q, 'z) resident_scheme"
  assumes "flush_locked X s = (r, s')" "cx_backend X = B" "sound_chain (cx_chain X)" "lazy_ok X (tabs (sh_store s)) s"
  shows "effect X (tabs (sh_store s)) s (tabs (sh_store s')) s' {k. \<exists>p. staged_view (rs_staged s) k = Some (Some p)} (\<lambda>f. f)"
proof (cases r)
  case (Inl e)
  then have "unharmed s s'" using flush_Inl assms(1,2) by blast
  then show ?thesis using assms(4) by (rule unharmed_effect)
next
  case (Inr x)
  then show ?thesis using flush_Inr assms by blast
qed

lemma flush_if_effect:
  fixes X :: "('b, 'q) ctx" and s :: "('b, 'q, 'z) resident_scheme"
  assumes "effect X (tabs (sh_store s)) s (tabs (sh_store s)) s1 UNIV g" "rs_lru s1 = rs_lru s" "sh_store s1 = sh_store s"
    and "flush_if X full s1 = (r, s')" "cx_backend X = B" "sound_chain (cx_chain X)"
    and "kept \<subseteq> {k. \<exists>p. staged_view (rs_staged s1) k = Some (Some p)}"
  shows "effect X (tabs (sh_store s)) s (tabs (sh_store s')) s' kept g"
proof (cases full)
  case True
  have ok: "lazy_ok X (tabs (sh_store s1)) s1" using assms(1,3) by (simp add: effect_def)
  have f: "flush_locked X s1 = (r, s')" using assms(4) True by (simp add: flush_if_def)
  have "effect X (tabs (sh_store s1)) s1 (tabs (sh_store s')) s' kept (\<lambda>f. f)"
    by (rule effect_mono [OF flush_effect [OF f assms(5,6) ok] assms(7)])
  then show ?thesis using effect_then [OF assms(1)] assms(2,3) by simp
next
  case False
  then have "s' = s1" using assms(4) by (simp add: flush_if_def)
  then show ?thesis using effect_unharmed [OF assms(1)] assms(3) by simp
qed

end

section \<open>What the index proves\<close>

lemma prior_sound:
  assumes "lazy_ok X t s"
  shows "prior_true (prior_of s key) t (encode_key X key)"
proof (cases "rs_staged s = []")
  case False
  then show ?thesis by (simp add: prior_of_def prior_true_def needs_read_def)
next
  case True
  obtain i where i: "rs_index s = Some i" "bt_contains i key \<longleftrightarrow> payload_view (cx_chain X) (cx_id X) t key \<noteq> None"
    using assms by (auto simp: lazy_ok_def index_exact_def True locker_view_Nil)
  have absent: "record_pointers t (encode_key X key) = []" if "\<not> bt_contains i key"
    using i(2) that by (auto simp: payload_view_def record_pointers_def encode_key_eq)
  have known: "record_pointers t (encode_key X key) = []" if "rs_known_inline s = Some m" "bt_contains m key" for m
    using assms that by (simp add: lazy_ok_def inline_exact_def)
  show ?thesis
    using absent known i(1)
    by (auto simp: prior_of_def prior_true_def needs_read_def read_index_def True split: option.splits)
qed

text \<open>A write the budget accompanies, committed at once.\<close>

context backend_contract
begin

lemma direct_effect:
  fixes X :: "('b, 'q) ctx" and s :: "('b, 'q, 'z) resident_scheme"
  assumes bud: "budget_ops X ops us rs cl keep u = (Inr (bg, ops'), v)" and com: "inner_commit X ops' v = (Inr x, w)"
    and B: "cx_backend X = B" and u: "u = s\<lparr>sh_values := sh_values u\<rparr>"
    and ok: "lazy_ok X (tabs (sh_store s)) s" "rs_staged s = []"
    and b: "becomes (cx_chain X) (tabs (sh_store s)) (apply_ops (tabs (sh_store s)) ops) W"
    and inv: "batch_inv (tabs (sh_store s)) (apply_ops (tabs (sh_store s)) ops) (sh_values u) (- puts_of W)"
    and keep: "puts_of W \<subseteq> encode_key X ` set keep"
    and own: "\<And>l k. l \<noteq> cx_id X \<Longrightarrow> W (encode_bytes l k) = None"
    and s': "tabs (sh_store s') = tabs (sh_store w)" "sh_values s' = sh_values w" "rs_staged s' = rs_staged w"
      "rs_index s' = map_option (fold bt_remove (pl_victims (bg_plan bg))) (map_option f (rs_index w))"
      "rs_known_inline s' = map_option (fold bt_remove (pl_victims (bg_plan bg))) (map_option h (rs_known_inline w))"
    and idx: "\<And>i k. bt_contains (f i) k \<longleftrightarrow> (case W (encode_key X k) of Some y \<Rightarrow> y \<noteq> None | None \<Rightarrow> bt_contains i k)"
    and known: "\<And>m k. bt_contains (h m) k \<Longrightarrow> record_pointers (apply_ops (tabs (sh_store s)) ops) (encode_key X k) = []
      \<or> bt_contains m k \<and> W (encode_key X k) \<in> {None, Some None}"
  shows "effect X (tabs (sh_store s)) s (tabs (sh_store s')) s' (set keep) (write_over (\<lambda>k. W (encode_key X k)))"
proof -
  have ok': "vals_ok (sh_values s) (tabs (sh_store s))" using ok(1) by (simp add: lazy_ok_def)
  note bc = budgeted_commit [OF bud com B u ok' inv keep]
  obtain i where i: "rs_index s = Some i" "\<And>k. bt_contains i k \<longleftrightarrow> view_of X (tabs (sh_store s)) s k \<noteq> None"
    using ok(1) by (auto simp: lazy_ok_def index_exact_def)
  show ?thesis
  proof (rule effect_commit [OF b _ own])
    show "becomes (cx_chain X) (apply_ops (tabs (sh_store s)) ops) (tabs (sh_store s')) (evict_writes (cx_id X) (pl_victims (bg_plan bg)))"
      "cursor_above (sh_values s') (stored_counter (tabs (sh_store s')))"
      using bc(1,2) by (simp_all add: s'(1,2))
    show "rs_staged s' = []" using bc(5) ok(2) by (simp add: s'(3))
    show "write_over (\<lambda>k. W (encode_key X k)) (view_of X (tabs (sh_store s)) s)
      = write_over (\<lambda>k. W (encode_key X k)) (payload_view (cx_chain X) (cx_id X) (tabs (sh_store s)))"
      by (simp add: ok(2) locker_view_Nil)
    show "rs_index s' = Some (fold bt_remove (pl_victims (bg_plan bg)) (f i))"
      by (simp add: s'(4) bc(6) i(1))
    show "bt_contains (fold bt_remove (pl_victims (bg_plan bg)) (f i)) k \<longleftrightarrow>
        k \<notin> set (pl_victims (bg_plan bg)) \<and> write_over (\<lambda>k. W (encode_key X k)) (view_of X (tabs (sh_store s)) s) k \<noteq> None" for k
      using i(2) by (auto simp: idx write_over_def split: option.splits)
    show "record_pointers (apply_ops (tabs (sh_store s)) ops) (encode_key X k) = []"
      if m: "rs_known_inline s' = Some m" "bt_contains m k" for m k
    proof -
      obtain m0 where m0: "rs_known_inline s = Some m0" "bt_contains (h m0) k"
        using m by (auto simp: s'(5) bc(7))
      have "record_pointers (tabs (sh_store s)) (encode_key X k) = []" if "bt_contains m0 k"
        using ok(1) m0(1) that by (simp add: lazy_ok_def inline_exact_def)
      then show ?thesis using known [OF m0(2)] record_pointers_kept [OF b] by blast
    qed
  qed (use bc(3,4) in auto)
qed

lemma put_payload_inline:
  assumes "put_payload_ops X key payload FLAG_POSTCARD pr s = (Inr ops, s')" "cx_backend X = B"
    and "stores_inline X (length payload) FLAG_POSTCARD"
  shows "record_pointers (apply_ops t ops) (encode_key X key) = []"
  using assms(1,2)
proof (cases rule: put_payload_ops_cases)
  case (inline sealed)
  have "\<not> is_pointer sealed" using inline(1) by (rule seal_not_pointer)
  then have "parsed sealed = None" by (auto simp: parsed_def dest: is_pointer_parse split: sum.splits)
  moreover have "bt_lookup (tables_get (apply_ops t ops) Records) (encode_key X key) = Some sealed"
    unfolding inline(3) by (simp del: tables_get.simps)
  ultimately show ?thesis by (simp add: record_pointers_def)
next
  case chunked
  then show ?thesis using assms(3) by (simp add: stores_inline_def)
qed

lemma direct_Inl:
  fixes X :: "('b, 'q) ctx" and s :: "('b, 'q, 'z) resident_scheme"
  assumes "sbind P (\<lambda>ops. sbind (budget_ops X ops us rs cl keep) (\<lambda>(bg, ops). sbind (inner_commit X ops) (\<lambda>_. smod (F bg)))) s = (Inl e, s')"
    and "cx_backend X = B" "\<And>s. unharmed s (snd (P s))"
  shows "unharmed s s'"
proof -
  have g: "unharmed u (snd (budget_ops X ops us rs cl keep u))" for u :: "('b, 'q, 'z) resident_scheme" and ops
    using core_only_app [OF core_only_budget] by (rule unharmed_core)
  consider "P s = (Inl e, s')"
    | ops u where "P s = (Inr ops, u)" "budget_ops X ops us rs cl keep u = (Inl e, s')"
    | ops u bg ops' v where "P s = (Inr ops, u)" "budget_ops X ops us rs cl keep u = (Inr (bg, ops'), v)"
        "inner_commit X ops' v = (Inl e, s')"
    using assms(1) by (auto simp: sbind_eq_Inl_iff)
  then show ?thesis
  proof cases
    case 1
    then show ?thesis using assms(3) [of s] by simp
  next
    case (2 ops u)
    then show ?thesis using unharmed_trans [of s u s'] assms(3) [of s] g [of u ops] by simp
  next
    case (3 ops u bg ops' v)
    have "unharmed s v" using unharmed_trans [of s u v] assms(3) [of s] g [of u ops] 3 by simp
    then show ?thesis using unharmed_trans inner_commit_Inl [OF 3(3) assms(2)] by blast
  qed
qed

end

section \<open>Put\<close>

lemma write_over_key:
  "write_over (\<lambda>k. [encode_key X key \<mapsto> Some p] (encode_key X k)) = (\<lambda>f. f(key \<mapsto> postcard p))"
  "write_over (\<lambda>k. [encode_key X key \<mapsto> None] (encode_key X k)) = (\<lambda>f. f(key := None))"
  by (auto simp: fun_eq_iff write_over_def encode_key_eq)

context backend_contract
begin

lemma put_staged_effect:
  fixes X :: "('b, 'q) ctx" and s :: "('b, 'q, 'z) resident_scheme"
  assumes "cx_backend X = B" "sound_chain (cx_chain X)" "lazy_ok X (tabs (sh_store s)) s" "is_deferred X"
    and fits: "length payload \<le> MAX_DECODED_BYTES"
    and st: "stage X (Pend_Put key payload) s = (full, s0)"
    and fl: "flush_if X full (announce X (Ev_Put key) (note_inline key False (touch_index (ks_insert key) s0))) = (r, s')"
  shows "effect X (tabs (sh_store s)) s (tabs (sh_store s')) s' {key} (\<lambda>f. f(key \<mapsto> postcard payload))"
proof -
  have s0: "s0 = s\<lparr>rs_staged := rs_staged s @ [Pend_Put key payload]\<rparr>" using st by (auto simp: stage_def Let_def)
  let ?s1 = "announce X (Ev_Put key) (note_inline key False (touch_index (ks_insert key) s0))"
  have "effect X (tabs (sh_store s)) s (tabs (sh_store s)) ?s1 UNIV (write_over (staged_view [Pend_Put key payload]))"
    by (rule effect_stage [OF assms(3,4), where f = "ks_insert key" and h = "bt_remove key"])
      (auto simp: fits s0 staged_view_def split: if_splits)
  then show ?thesis
    unfolding write_over_single
    by (rule flush_if_effect [OF _ _ _ fl assms(1,2)]) (simp_all add: s0 staged_view_snoc)
qed

lemma put_direct_effect:
  fixes X :: "('b, 'q) ctx" and s :: "('b, 'q, 'z) resident_scheme"
  assumes B: "cx_backend X = B" and chain: "sound_chain (cx_chain X)" and ok: "lazy_ok X (tabs (sh_store s)) s" "rs_staged s = []"
    and fits: "length payload \<le> MAX_DECODED_BYTES"
    and ops: "put_payload_ops X key payload FLAG_POSTCARD (prior_of s key) s = (Inr ops, u)"
    and bud: "budget_ops X ops us [] False [key] u = (Inr (bg, ops'), v)" and com: "inner_commit X ops' v = (Inr x, w)"
    and s': "s' = announce X (Ev_Put key) (apply_budget X bg (note_inline key (stores_inline X (length payload) FLAG_POSTCARD)
              (touch_index (ks_insert key) w)))"
  shows "effect X (tabs (sh_store s)) s (tabs (sh_store s')) s' {key} (\<lambda>f. f(key \<mapsto> postcard payload))"
proof -
  let ?t = "tabs (sh_store s)" and ?x = "encode_key X key" and ?inline = "stores_inline X (length payload) FLAG_POSTCARD"
  have vok: "vals_ok (sh_values s) ?t" using ok(1) by (simp add: lazy_ok_def)
  note p = put_payload_becomes [OF ops B refl vok batch_inv_start [OF vok] UNIV_I prior_sound [OF ok(1)] chain fits]
  have inv: "batch_inv ?t (apply_ops ?t ops) (sh_values u) (- puts_of [?x \<mapsto> Some payload])"
    using p by (simp add: Compl_eq_Diff_UNIV)
  have inl: "record_pointers (apply_ops ?t ops) ?x = []" if ?inline
    by (rule put_payload_inline [OF ops B that])
  have "effect X ?t s (tabs (sh_store s')) s' (set [key]) (write_over (\<lambda>k. [?x \<mapsto> Some payload] (encode_key X k)))"
  proof (rule direct_effect [OF bud com B _ ok, where W = "[?x \<mapsto> Some payload]" and f = "ks_insert key"
        and h = "\<lambda>m. if ?inline then ks_insert key m else bt_remove key m"])
    show "record_pointers (apply_ops ?t ops) (encode_key X k) = [] \<or> bt_contains m k \<and> [?x \<mapsto> Some payload] (encode_key X k) \<in> {None, Some None}"
      if "bt_contains (if ?inline then ks_insert key m else bt_remove key m) k" for m k
      using that inl by (cases "k = key") (auto simp: encode_key_eq split: if_splits)
  qed (use p inv in \<open>auto simp: s' apply_budget_fields encode_key_eq\<close>)
  then show ?thesis unfolding write_over_key by simp
qed

lemma lazy_put_effect:
  fixes X :: "('b, 'q) ctx" and s :: "('b, 'q, 'z) resident_scheme"
  assumes "cx_backend X = B" "sound_chain (cx_chain X)" "lazy_ok X (tabs (sh_store s)) s" "\<not> in_closed s"
    and payload: "sd_to_vec sd v = Inr payload" "length payload \<le> MAX_DECODED_BYTES"
    and put: "lazy_put_by X sd key v s = (r, s')"
  shows "effect X (tabs (sh_store s)) s (tabs (sh_store s')) s' {key}
    (if is_deferred X \<or> r = Inr () then (\<lambda>f. f(key \<mapsto> postcard payload)) else (\<lambda>f. f))"
proof (cases "is_deferred X")
  case True
  obtain full s0 where st: "stage X (Pend_Put key payload) s = (full, s0)" by fastforce
  have fl: "flush_if X full (announce X (Ev_Put key) (note_inline key False (touch_index (ks_insert key) s0))) = (r, s')"
    using put True assms(4) payload(1) st by (simp add: lazy_put_by_def ensure_open_def sbind_def)
  show ?thesis
    using put_staged_effect [OF assms(1-3) True payload(2) st fl] True by simp
next
  case False
  let ?inline = "stores_inline X (length payload) FLAG_POSTCARD"
  let ?F = "\<lambda>bg s. announce X (Ev_Put key) (apply_budget X bg (note_inline key ?inline (touch_index (ks_insert key) s)))"
  have run: "sbind (put_payload_ops X key payload FLAG_POSTCARD (prior_of s key)) (\<lambda>ops.
      sbind (budget_ops X ops [(key, of_nat (length payload))] [] False [key]) (\<lambda>(bg, ops).
      sbind (inner_commit X ops) (\<lambda>_. smod (?F bg)))) s = (r, s')"
    using put False assms(4) payload(1) by (simp add: lazy_put_by_def ensure_open_def sbind_def [of "sread _"] Let_def)
  have st: "rs_staged s = []" using assms(3) False by (simp add: lazy_ok_def)
  show ?thesis
  proof (cases r)
    case (Inl e)
    have "unharmed s s'"
      by (rule direct_Inl [OF run [unfolded Inl] assms(1)]) (rule harmless_app [OF harmless_put_payload [OF assms(1)]])
    then show ?thesis using unharmed_effect [OF _ assms(3)] False Inl by simp
  next
    case (Inr y)
    obtain ops u bg ops' v x w where "put_payload_ops X key payload FLAG_POSTCARD (prior_of s key) s = (Inr ops, u)"
      "budget_ops X ops [(key, of_nat (length payload))] [] False [key] u = (Inr (bg, ops'), v)"
      "inner_commit X ops' v = (Inr x, w)" "s' = ?F bg w"
      using run unfolding Inr by (auto simp: sbind_eq_Inr_iff)
    from put_direct_effect [OF assms(1-3) st payload(2) this] show ?thesis using Inr by simp
  qed
qed

end

section \<open>Delete and clear\<close>

lemma write_over_clear:
  "write_over (\<lambda>k. clear_writes (cx_id X) (encode_key X k)) = (\<lambda>f. Map.empty)"
  by (auto simp: fun_eq_iff write_over_def clear_writes_def encode_key_eq locker_range_contains)

lemma clear_writes_own: "l \<noteq> i \<Longrightarrow> clear_writes i (encode_bytes l k) = None"
  by (auto simp: clear_writes_def locker_range_contains)

context backend_contract
begin

lemma delete_direct_effect:
  fixes X :: "('b, 'q) ctx" and s :: "('b, 'q, 'z) resident_scheme"
  assumes B: "cx_backend X = B" and chain: "sound_chain (cx_chain X)" and ok: "lazy_ok X (tabs (sh_store s)) s" "rs_staged s = []"
    and ops: "delete_value_ops X (sh_store s) key (prior_of s key) = Inr ops"
    and bud: "budget_ops X ops [] [key] False [] s = (Inr (bg, ops'), v)" and com: "inner_commit X ops' v = (Inr x, w)"
    and s': "s' = announce X (Ev_Deleted key) (apply_budget X bg (note_inline key False (touch_index (bt_remove key) w)))"
  shows "effect X (tabs (sh_store s)) s (tabs (sh_store s')) s' {} (\<lambda>f. f(key := None))"
proof -
  let ?t = "tabs (sh_store s)" and ?x = "encode_key X key"
  have vok: "vals_ok (sh_values s) ?t" using ok(1) by (simp add: lazy_ok_def)
  obtain gc where gc: "gc_existing X (sh_store s) key (prior_of s key) = Inr gc" and ops': "ops = gc @ [Op_Delete Records ?x]"
    using ops unfolding delete_value_ops_def delete_op_def rbind_eq_Inr_iff by blast
  have "ops = map gc_ops (if needs_read (prior_of s key) then record_pointers ?t ?x else []) @ [Op_Delete Records ?x]"
    using gc_existing_spec [OF gc B] by (simp add: ops')
  note d = delete_becomes [OF this vok batch_inv_start [OF vok] UNIV_I prior_sound [OF ok(1)], where ch = "cx_chain X"]
  have "effect X ?t s (tabs (sh_store s')) s' (set []) (write_over (\<lambda>k. [?x \<mapsto> None] (encode_key X k)))"
    by (rule direct_effect [OF bud com B _ ok, where W = "[?x \<mapsto> None]" and f = "bt_remove key" and h = "bt_remove key"])
      (use d in \<open>auto simp: s' apply_budget_fields encode_key_eq split: if_splits\<close>)
  then show ?thesis unfolding write_over_key by simp
qed

lemma clear_direct_effect:
  fixes X :: "('b, 'q) ctx" and s :: "('b, 'q, 'z) resident_scheme"
  assumes B: "cx_backend X = B" and ok: "lazy_ok X (tabs (sh_store s)) s" "rs_staged s = []"
    and ops: "clear_value_ops X (sh_store s) = Inr ops"
    and bud: "budget_ops X ops [] [] True [] s = (Inr (bg, ops'), v)" and com: "inner_commit X ops' v = (Inr x, w)"
    and s': "s' = announce X Ev_Cleared (apply_budget X bg (forget_inline (touch_index (\<lambda>_. bt_empty) w)))"
  shows "effect X (tabs (sh_store s)) s (tabs (sh_store s')) s' {} (\<lambda>f. Map.empty)"
proof -
  let ?t = "tabs (sh_store s)"
  have vok: "vals_ok (sh_values s) ?t" using ok(1) by (simp add: lazy_ok_def)
  note c = clear_becomes [OF ops B vok, where ch = "cx_chain X"]
  have puts: "puts_of (clear_writes l) = {}" for l by (auto simp: puts_of_def clear_writes_def)
  have "effect X ?t s (tabs (sh_store s')) s' (set []) (write_over (\<lambda>k. clear_writes (cx_id X) (encode_key X k)))"
    by (rule direct_effect [OF bud com B _ ok, where W = "clear_writes (cx_id X)" and f = "\<lambda>_. bt_empty" and h = "\<lambda>_. bt_empty"])
      (use c puts in \<open>auto simp: s' apply_budget_fields clear_writes_own encode_key_eq clear_writes_def locker_range_contains\<close>)
  then show ?thesis unfolding write_over_clear by simp
qed

lemma lazy_delete_effect:
  fixes X :: "('b, 'q) ctx" and s :: "('b, 'q, 'z) resident_scheme"
  assumes "cx_backend X = B" "sound_chain (cx_chain X)" "lazy_ok X (tabs (sh_store s)) s" "\<not> in_closed s"
    and del: "lazy_delete_by X key s = (r, s')"
  shows "effect X (tabs (sh_store s)) s (tabs (sh_store s')) s' {}
    (if is_deferred X \<or> r = Inr () then (\<lambda>f. f(key := None)) else (\<lambda>f. f))"
proof (cases "is_deferred X")
  case True
  let ?s0 = "s\<lparr>rs_staged := rs_staged s @ [Pend_Delete key]\<rparr>"
  let ?s1 = "announce X (Ev_Deleted key) (note_inline key False (touch_index (bt_remove key) ?s0))"
  obtain full where st: "stage X (Pend_Delete key) s = (full, ?s0)" by (simp add: stage_def Let_def)
  have fl: "flush_if X full ?s1 = (r, s')"
    using del True assms(4) st by (simp add: lazy_delete_by_def ensure_open_def sbind_def)
  have "effect X (tabs (sh_store s)) s (tabs (sh_store s)) ?s1 UNIV (write_over (staged_view [Pend_Delete key]))"
    by (rule effect_stage [OF assms(3) True, where f = "bt_remove key" and h = "bt_remove key"])
      (auto simp: staged_view_def split: if_splits)
  then have "effect X (tabs (sh_store s)) s (tabs (sh_store s')) s' {} (\<lambda>f. f(key := None))"
    unfolding write_over_single by (rule flush_if_effect [OF _ _ _ fl assms(1,2)]) simp_all
  then show ?thesis using True by simp
next
  case False
  let ?F = "\<lambda>bg s. announce X (Ev_Deleted key) (apply_budget X bg (note_inline key False (touch_index (bt_remove key) s)))"
  let ?P = "sread (\<lambda>s. delete_value_ops X (sh_store s) key (prior_of s key))"
  have run: "sbind ?P (\<lambda>ops. sbind (budget_ops X ops [] [key] False []) (\<lambda>(bg, ops).
      sbind (inner_commit X ops) (\<lambda>_. smod (?F bg)))) s = (r, s')"
    using del False assms(4) by (simp add: lazy_delete_by_def ensure_open_def sbind_def [of "sread (\<lambda>s. if _ then _ else _)"])
  have st: "rs_staged s = []" using assms(3) False by (simp add: lazy_ok_def)
  show ?thesis
  proof (cases r)
    case (Inl e)
    have "unharmed s s'" by (rule direct_Inl [OF run [unfolded Inl] assms(1)]) simp
    then show ?thesis using unharmed_effect [OF _ assms(3)] False Inl by simp
  next
    case (Inr y)
    obtain ops bg ops' v x w where "delete_value_ops X (sh_store s) key (prior_of s key) = Inr ops"
      "budget_ops X ops [] [key] False [] s = (Inr (bg, ops'), v)"
      "inner_commit X ops' v = (Inr x, w)" "s' = ?F bg w"
      using run unfolding Inr by (auto simp: sbind_eq_Inr_iff)
    from delete_direct_effect [OF assms(1-3) st this] show ?thesis using Inr by simp
  qed
qed

lemma lazy_clear_effect:
  fixes X :: "('b, 'q) ctx" and s :: "('b, 'q, 'z) resident_scheme"
  assumes "cx_backend X = B" "sound_chain (cx_chain X)" "lazy_ok X (tabs (sh_store s)) s" "\<not> in_closed s"
    and clr: "lazy_clear X s = (r, s')"
  shows "effect X (tabs (sh_store s)) s (tabs (sh_store s')) s' {}
    (if is_deferred X \<or> r = Inr () then (\<lambda>f. Map.empty) else (\<lambda>f. f))"
proof (cases "is_deferred X")
  case True
  let ?s0 = "s\<lparr>rs_staged := rs_staged s @ [Pend_Clear]\<rparr>"
  let ?s1 = "announce X Ev_Cleared (forget_inline (touch_index (\<lambda>_. bt_empty) ?s0))"
  obtain full where st: "stage X Pend_Clear s = (full, ?s0)" by (simp add: stage_def Let_def)
  have fl: "flush_if X full ?s1 = (r, s')"
    using clr True assms(4) st by (simp add: lazy_clear_def ensure_open_def sbind_def)
  have "effect X (tabs (sh_store s)) s (tabs (sh_store s)) ?s1 UNIV (write_over (staged_view [Pend_Clear]))"
    by (rule effect_stage [OF assms(3) True, where f = "\<lambda>_. bt_empty" and h = "\<lambda>_. bt_empty"])
      (auto simp: staged_view_def)
  then have "effect X (tabs (sh_store s)) s (tabs (sh_store s')) s' {} (\<lambda>f. Map.empty)"
    unfolding write_over_single by (rule flush_if_effect [OF _ _ _ fl assms(1,2)]) simp_all
  then show ?thesis using True by simp
next
  case False
  let ?F = "\<lambda>bg s. announce X Ev_Cleared (apply_budget X bg (forget_inline (touch_index (\<lambda>_. bt_empty) s)))"
  let ?P = "sread (\<lambda>s. clear_value_ops X (sh_store s))"
  have run: "sbind ?P (\<lambda>ops. sbind (budget_ops X ops [] [] True []) (\<lambda>(bg, ops).
      sbind (inner_commit X ops) (\<lambda>_. smod (?F bg)))) s = (r, s')"
    using clr False assms(4) by (simp add: lazy_clear_def ensure_open_def sbind_def [of "sread (\<lambda>s. if _ then _ else _)"])
  have st: "rs_staged s = []" using assms(3) False by (simp add: lazy_ok_def)
  show ?thesis
  proof (cases r)
    case (Inl e)
    have "unharmed s s'" by (rule direct_Inl [OF run [unfolded Inl] assms(1)]) simp
    then show ?thesis using unharmed_effect [OF _ assms(3)] False Inl by simp
  next
    case (Inr y)
    obtain ops bg ops' v x w where "clear_value_ops X (sh_store s) = Inr ops"
      "budget_ops X ops [] [] True [] s = (Inr (bg, ops'), v)"
      "inner_commit X ops' v = (Inr x, w)" "s' = ?F bg w"
      using run unfolding Inr by (auto simp: sbind_eq_Inr_iff)
    from clear_direct_effect [OF assms(1,3) st this] show ?thesis using Inr by simp
  qed
qed

end

end
