(* ===== verification/Lazy_Transactions.thy ===== *)
theory Lazy_Transactions
  imports Lazy_Refinement
begin

text \<open>
  The rest of a lazy locker against its specification: transactions, reads, opening, and the sweep of
  \<open>evict_to\<close>. A read is a function of the map (\<open>view_result\<close>); opening a locker over storage in good
  order establishes the invariant.
\<close>

section \<open>Transactions\<close>

text \<open>A transaction's own view is that of the write-set it stages.\<close>

lemma tx_view_snoc:
  "tx_staged_view [] k = None"
  "tx_staged_view (es @ [Staged_Put k' p v]) k = (if k' = k then Some (Some p) else tx_staged_view es k)"
  "tx_staged_view (es @ [Staged_Delete k']) k = (if k' = k then Some None else tx_staged_view es k)"
  "tx_staged_view (es @ [Staged_Clear]) k = Some None"
  by (simp_all add: tx_staged_view_def)

lemma tx_view_pending: "tx_staged_view es k = staged_view (map pending_of_staged es) k"
proof (induction es rule: rev_induct)
  case (snoc e es)
  then show ?case by (cases e) (simp_all add: tx_view_snoc staged_view_snoc)
qed (simp add: tx_view_snoc)

lemma index_of_staged:
  "bt_contains (fold index_staged es i) k \<longleftrightarrow> (case tx_staged_view es k of Some w \<Rightarrow> w \<noteq> None | None \<Rightarrow> bt_contains i k)"
proof (induction es rule: rev_induct)
  case (snoc e es)
  then show ?case by (cases e) (auto simp: tx_view_snoc)
qed (simp add: tx_view_snoc)

context backend_contract
begin

lemma transact_Inr:
  fixes X :: "('b, 'q) ctx" and s :: "('b, 'q, 'z) resident_scheme"
  assumes B: "cx_backend X = B" and chain: "sound_chain (cx_chain X)" and ok: "lazy_ok X (tabs (sh_store s)) s"
    and fits: "\<forall>e\<in>set entries. pending_fits (pending_of_staged e)"
    and c: "commit_batch X TxLazy (rs_staged s) (merge_batches (rs_staged s) entries) (s\<lparr>rs_staged := []\<rparr>) = (Inr bg, v)"
    and s': "s' = fold (\<lambda>e. announce X (event_of_staged e)) entries
        (apply_budget X bg (forget_inline (touch_index (fold index_staged entries) v)))"
  shows "effect X (tabs (sh_store s)) s (tabs (sh_store s')) s' {k. \<exists>p. tx_staged_view entries k = Some (Some p)}
    (write_over (tx_staged_view entries)) \<and> rs_staged s' = []"
proof -
  let ?s = "s\<lparr>rs_staged := []\<rparr>" and ?batch = "merge_batches (rs_staged s) entries"
  have view: "staged_view ?batch k = (case tx_staged_view entries k of Some w \<Rightarrow> Some w | None \<Rightarrow> staged_view (rs_staged s) k)" for k
    by (simp add: merge_batches_def staged_view_append tx_view_pending)
  have ok': "vals_ok (sh_values ?s) (tabs (sh_store ?s))" and fits': "\<forall>e\<in>set ?batch. pending_fits e"
    using ok fits by (auto simp: lazy_ok_def merge_batches_def)
  from commit_batch_Inr [OF c B ok' chain fits'] obtain t1 where
    b: "becomes (cx_chain X) (tabs (sh_store s)) t1 (batch_writes (cx_id X) ?batch)"
      "becomes (cx_chain X) t1 (tabs (sh_store v)) (evict_writes (cx_id X) (pl_victims (bg_plan bg)))"
    and cur: "cursor_above (sh_values v) (stored_counter (tabs (sh_store v)))"
    and vs: "set (pl_victims (bg_plan bg)) \<inter> {k. \<exists>p. staged_view ?batch k = Some (Some p)} = {}"
      "rs_lru s = None \<longrightarrow> pl_victims (bg_plan bg) = []"
    and v: "rs_staged v = []" "rs_index v = rs_index s" "rs_known_inline v = rs_known_inline s"
    by auto
  obtain i where i: "rs_index s = Some i" "\<And>k. bt_contains i k \<longleftrightarrow> view_of X (tabs (sh_store s)) s k \<noteq> None"
    using ok by (auto simp: lazy_ok_def index_exact_def)
  have keep: "{k. \<exists>p. tx_staged_view entries k = Some (Some p)} \<subseteq> {k. \<exists>p. staged_view ?batch k = Some (Some p)}"
    by (auto simp: view)
  have apart: "set (pl_victims (bg_plan bg)) \<inter> {k. \<exists>p. tx_staged_view entries k = Some (Some p)} = {}"
    using vs(1) keep by blast
  have "effect X (tabs (sh_store s)) s (tabs (sh_store s')) s' {k. \<exists>p. tx_staged_view entries k = Some (Some p)}
      (write_over (tx_staged_view entries))"
  proof (rule effect_commit [OF b(1)])
    show "becomes (cx_chain X) t1 (tabs (sh_store s')) (evict_writes (cx_id X) (pl_victims (bg_plan bg)))"
      "cursor_above (sh_values s') (stored_counter (tabs (sh_store s')))" "rs_staged s' = []"
      using b(2) cur v by (simp_all add: s' fold_announce apply_budget_fields)
    show "batch_writes (cx_id X) ?batch (encode_bytes l k) = None" if "l \<noteq> cx_id X" for l k
      using that by (cases "decode_bytes (cx_id X) (encode_bytes l k)") (auto simp: batch_writes_def decode_bytes_Inr_iff)
    show "write_over (tx_staged_view entries) (view_of X (tabs (sh_store s)) s)
      = write_over (\<lambda>k. batch_writes (cx_id X) ?batch (encode_key X k)) (payload_view (cx_chain X) (cx_id X) (tabs (sh_store s)))"
      by (auto simp: fun_eq_iff write_over_def encode_key_eq view locker_view_def split: option.splits)
    show "rs_index s' = Some (fold bt_remove (pl_victims (bg_plan bg)) (fold index_staged entries i))"
      by (simp add: s' fold_announce apply_budget_fields v i)
    show "bt_contains (fold bt_remove (pl_victims (bg_plan bg)) (fold index_staged entries i)) k \<longleftrightarrow>
        k \<notin> set (pl_victims (bg_plan bg)) \<and> write_over (tx_staged_view entries) (view_of X (tabs (sh_store s)) s) k \<noteq> None" for k
      using i(2) by (auto simp: index_of_staged write_over_def split: option.splits)
    show "record_pointers t1 (encode_key X k) = []" if "rs_known_inline s' = Some m" "bt_contains m k" for m k
      using that by (auto simp: s' fold_announce apply_budget_fields)
  qed (use vs(2) apart in simp_all)
  then show ?thesis using v by (simp add: s' fold_announce apply_budget_fields)
qed

lemma commit_batch_restages:
  fixes X :: "('b, 'q) ctx" and s :: "('b, 'q, 'z) resident_scheme"
  assumes "commit_batch X mode (rs_staged s) batch (s\<lparr>rs_staged := []\<rparr>) = (Inl e, s')" "cx_backend X = B"
  shows "unharmed s s'"
proof -
  obtain u where u: "unharmed (s\<lparr>rs_staged := []\<rparr>) u" "s' = restage (rs_staged s) u"
    by (rule commit_batch_Inl [OF assms])
  then obtain b v tk lru where h: "u = s\<lparr>rs_staged := [], sh_store := b, sh_values := v, sh_ticks := tk, rs_lru := lru\<rparr>"
    "tabs b = tabs (sh_store s)"
    "cursor_above (sh_values s) (stored_counter (tabs b)) \<longrightarrow> cursor_above v (stored_counter (tabs b))"
    unfolding unharmed_def by auto
  then have "s' = s\<lparr>sh_store := b, sh_values := v, sh_ticks := tk, rs_lru := lru\<rparr>"
    using u(2) by (simp add: restage_def)
  then show ?thesis using h unfolding unharmed_def by blast
qed

lemma transact_failed:
  fixes X :: "('b, 'q) ctx" and s :: "('b, 'q, 'z) resident_scheme"
  assumes B: "cx_backend X = B" and "\<not> in_closed s" and f: "f (sh_store s) [] = (out, entries)"
    and run: "lazy_transact X f s = (r, s')" "r \<noteq> Inr ()"
  shows "tabs (sh_store s') = tabs (sh_store s) \<and> rs_staged s' = rs_staged s \<and> rs_index s' = rs_index s
    \<and> rs_known_inline s' = rs_known_inline s"
proof (cases "s' = s")
  case False
  let ?F = "\<lambda>bg s. fold (\<lambda>e. announce X (event_of_staged e)) entries
                  (apply_budget X bg (forget_inline (touch_index (fold index_staged entries) s)))"
  have c: "sbind (commit_batch X TxLazy (rs_staged s) (merge_batches (rs_staged s) entries)) (\<lambda>bg. smod (?F bg))
      (s\<lparr>rs_staged := []\<rparr>) = (r, s')"
    using run(1) f assms(2) False
    by (auto simp: lazy_transact_def ensure_open_def sbind_def [of "sread (\<lambda>s. if _ then _ else _)"] take_staged_def split: sum.splits if_splits)
  obtain e where "r = Inl e" using run(2) by (cases r) auto
  then have "commit_batch X TxLazy (rs_staged s) (merge_batches (rs_staged s) entries) (s\<lparr>rs_staged := []\<rparr>) = (Inl e, s')"
    using c by (auto simp: sbind_eq_Inl_iff)
  from unharmed_fields [OF commit_batch_restages [OF this B]] show ?thesis by simp
qed simp

lemma transact_effect:
  fixes X :: "('b, 'q) ctx" and s :: "('b, 'q, 'z) resident_scheme"
  assumes B: "cx_backend X = B" and chain: "sound_chain (cx_chain X)" and ok: "lazy_ok X (tabs (sh_store s)) s" "\<not> in_closed s"
    and f: "f (sh_store s) [] = (out, entries)" "\<forall>e\<in>set entries. pending_fits (pending_of_staged e)"
    and run: "lazy_transact X f s = (r, s')"
  shows "effect X (tabs (sh_store s)) s (tabs (sh_store s')) s' {k. r = Inr () \<and> (\<exists>p. tx_staged_view entries k = Some (Some p))}
    (if r = Inr () then write_over (tx_staged_view entries) else (\<lambda>f. f))
    \<and> (case out of Inl e \<Rightarrow> r = Inl e \<and> s' = s | Inr _ \<Rightarrow> True)"
proof (cases out)
  case (Inl e)
  then have "r = Inl e" "s' = s" using run f(1) ok(2) by (auto simp: lazy_transact_def ensure_open_def sbind_def)
  then show ?thesis using effect_unharmed [OF effect_refl [OF ok(1)]] Inl by simp
next
  case (Inr u)
  show ?thesis
  proof (cases "entries = []")
    case True
    then have "r = Inr ()" "s' = s" using run f(1) ok(2) Inr by (auto simp: lazy_transact_def ensure_open_def sbind_def)
    moreover have "tx_staged_view entries = Map.empty" using True by (simp add: fun_eq_iff tx_view_snoc)
    moreover have "write_over Map.empty = (\<lambda>f. f)" by (simp add: fun_eq_iff write_over_def)
    ultimately show ?thesis
      using effect_unharmed [OF effect_refl [OF ok(1)]] Inr by simp
  next
    case False
    let ?F = "\<lambda>bg s. fold (\<lambda>e. announce X (event_of_staged e)) entries
                    (apply_budget X bg (forget_inline (touch_index (fold index_staged entries) s)))"
    have c: "sbind (commit_batch X TxLazy (rs_staged s) (merge_batches (rs_staged s) entries)) (\<lambda>bg. smod (?F bg))
        (s\<lparr>rs_staged := []\<rparr>) = (r, s')"
      using run f(1) ok(2) Inr False
      by (simp add: lazy_transact_def ensure_open_def sbind_def [of "sread (\<lambda>s. if _ then _ else _)"] take_staged_def)
    show ?thesis
    proof (cases r)
      case Inl': (Inl e)
      have "commit_batch X TxLazy (rs_staged s) (merge_batches (rs_staged s) entries) (s\<lparr>rs_staged := []\<rparr>) = (Inl e, s')"
        using c unfolding Inl' by (auto simp: sbind_eq_Inl_iff)
      from unharmed_effect [OF commit_batch_restages [OF this B] ok(1)] show ?thesis using Inr Inl' by simp
    next
      case Inr': (Inr y)
      obtain bg v where b: "commit_batch X TxLazy (rs_staged s) (merge_batches (rs_staged s) entries) (s\<lparr>rs_staged := []\<rparr>) = (Inr bg, v)"
        and s': "s' = ?F bg v"
        using c unfolding Inr' by (auto simp: sbind_eq_Inr_iff)
      from transact_Inr [OF B chain ok(1) f(2) b s'] show ?thesis using Inr Inr' by simp
    qed
  qed
qed

end

end
