(* ===== verification/Lazy_Reads.thy ===== *)
theory Lazy_Reads
  imports Lazy_Transactions
begin

text \<open>
  Reads of a lazy locker as functions of its map: a get is the value of its key, a listing is the
  sequence of the values of the keys in bounds, in order, whatever is staged. Opening a locker over
  storage in good order establishes \<open>lazy_ok\<close>.
\<close>

section \<open>The value of a stored item\<close>

definition item_value :: "('b, 'q) ctx \<Rightarrow> 't serde \<Rightarrow> stored \<Rightarrow> 't result" where
  "item_value X sd it =
     (case it of (raw, p) \<Rightarrow>
        if raw then
          (case cx_vec_u8 X p of
             Inl e \<Rightarrow> Inl (FilterFailed (''postcard wrap of raw chunks failed: '' @ e))
           | Inr wrapped \<Rightarrow>
               (case sd_from_bytes sd wrapped of
                  Inl e \<Rightarrow> Inl (Corrupt (''raw chunk reconstruct failed: '' @ e))
                | Inr v \<Rightarrow> Inr v))
        else decode_payload sd p)"

definition key_value :: "('b, 'q) ctx \<Rightarrow> 't serde \<Rightarrow> view \<Rightarrow> bytes \<Rightarrow> 't option result" where
  "key_value X sd f key =
     (case f key of None \<Rightarrow> Inr None | Some it \<Rightarrow> rbind (rbind it (item_value X sd)) (\<lambda>v. Inr (Some v)))"

context live_backend
begin

lemma decode_record_live:
  assumes "ready b" "cx_backend X = B"
  shows "decode_record X sd b raw = rbind (stored_item (cx_chain X) (tabs b) raw) (item_value X sd)"
proof (cases "stored_payload (cx_chain X) (tabs b) raw")
  case (Inr p)
  have flag: "(if is_pointer raw then map_sum id (\<lambda>p. cp_flags p = FLAG_RAW) (pointer_parse raw) else Inr False) = Inr (stored_raw raw)"
    using Inr not_pointer_not_raw [of raw]
    by (cases "pointer_parse raw") (auto simp: stored_payload_def stored_raw_def dest: is_pointer_parse split: if_splits)
  show ?thesis
    using Inr flag
    by (simp add: decode_record_def load_payload_live [OF assms] stored_item_def item_value_def decode_payload_def)
qed (simp add: decode_record_def load_payload_live [OF assms] stored_item_def)

lemma load_value_live:
  assumes "ready b" "cx_backend X = B"
  shows "load_value X sd b key = key_value X sd (payload_view (cx_chain X) (cx_id X) (tabs b)) key"
  using assms get_live [OF assms(1), of Records "encode_key X key"]
  by (cases "bt_lookup (tb_records (tabs b)) (encode_key X key)")
    (simp_all add: load_value_def fetch_def key_value_def payload_view_def encode_key_eq decode_record_live)

text \<open>What a get returns: the value of the key. Noting the read for the budget may fail afterwards.\<close>

lemma lazy_get_live:
  assumes "ready (sh_store s)" "cx_backend X = B" "\<not> in_closed s"
    and get: "lazy_get_by X sd key s = (r, s')"
  shows "(case r of Inl e \<Rightarrow> key_value X sd (view_of X (tabs (sh_store s)) s) key = Inl e \<or> rs_lru s \<noteq> None
      | Inr v \<Rightarrow> key_value X sd (view_of X (tabs (sh_store s)) s) key = Inr v)
    \<and> (\<exists>u. same_core s u \<and> (s' = u \<or> s' = note_corrupt key u))"
proof (cases "staged_view (rs_staged s) key")
  case (Some w)
  have "key_value X sd (view_of X (tabs (sh_store s)) s) key = view_value sd w"
    by (cases w) (simp_all add: key_value_def locker_view_def Some view_value_def item_value_def)
  moreover have "r = view_value sd w" "s' = s"
    using get assms(3) Some by (auto simp: lazy_get_by_def ensure_open_def sbind_def)
  moreover have "\<exists>u. same_core s u \<and> (s = u \<or> s = note_corrupt key u)" by (rule exI [of _ s]) simp
  ultimately show ?thesis by (cases "view_value sd w") auto
next
  case None
  let ?kv = "key_value X sd (view_of X (tabs (sh_store s)) s) key"
  have kv: "load_value X sd (sh_store s) key = ?kv"
    using load_value_live [OF assms(1,2)] by (simp add: key_value_def locker_view_def None)
  show ?thesis
  proof (cases ?kv)
    case (Inl e)
    then have "r = Inl e" "s' = s \<or> s' = note_corrupt key s"
      using get assms(3) None kv
      by (auto simp: lazy_get_by_def ensure_open_def sbind_def load_and_note_def split: if_splits)
    moreover from this(2) have "\<exists>u. same_core s u \<and> (s' = u \<or> s' = note_corrupt key u)"
      by (intro exI [of _ s] conjI same_core_refl)
    ultimately show ?thesis using Inl by simp
  next
    case (Inr v)
    show ?thesis
    proof (cases v)
      case None': None
      then have "r = Inr None" "s' = s"
        using get assms(3) None kv Inr by (auto simp: lazy_get_by_def ensure_open_def sbind_def load_and_note_def)
      moreover from this(2) have "\<exists>u. same_core s u \<and> (s' = u \<or> s' = note_corrupt key u)"
        by (intro exI [of _ s] conjI same_core_refl disjI1)
      ultimately show ?thesis using Inr None' by simp
    next
      case (Some x)
      obtain out u where n: "note_read X key s = (out, u)" by fastforce
      have core: "same_core s u" using core_only_app [OF core_only_note_read, of s X key] n by simp
      have res: "r = (case out of Inl e \<Rightarrow> Inl e | Inr _ \<Rightarrow> Inr v)" "s' = u"
        using get assms(3) None kv Inr Some n
        by (auto simp: lazy_get_by_def ensure_open_def sbind_def load_and_note_def split: sum.splits)
      have "rs_lru s = None \<Longrightarrow> out = Inr ()" using n by (simp add: note_read_def)
      then show ?thesis using core res Inr by (cases out) auto
    qed
  qed
qed

end

section \<open>Listings\<close>

text \<open>What the merge of stored and staged holds at a key in bounds.\<close>

lemma overlay_base: "distinct (map fst xs) \<Longrightarrow> bt_lookup (bt_of_list xs) k = map_of xs k"
  by (simp add: bt_of_list_def fold_insert_lookup split: option.split)

abbreviation overlay_map :: "bytes bound \<Rightarrow> bytes bound \<Rightarrow> pending list \<Rightarrow> (bytes, source option) btree \<Rightarrow> (bytes, source option) btree" where
  "overlay_map st en staged base \<equiv>
     fold (overlay_step st en) (snd (after_last_clear (map item_of_pending staged)))
       (if fst (after_last_clear (map item_of_pending staged)) then bt_empty else base)"

lemma overlay_merge:
  assumes "\<And>k. bt_lookup base k \<noteq> None \<Longrightarrow> in_user_bounds st en k"
  shows "bt_lookup (overlay_map st en staged base) k =
     (if in_user_bounds st en k then
        (case staged_view staged k of Some w \<Rightarrow> map_option (\<lambda>p. Some (Src_Staged p)) w | None \<Rightarrow> bt_lookup base k)
      else None)"
proof (induction staged rule: rev_induct)
  case Nil
  have "\<not> in_user_bounds st en k \<Longrightarrow> bt_lookup base k = None" using assms by blast
  then show ?case by simp
next
  case (snoc e es)
  then show ?case
    by (cases e) (auto simp: after_last_clear_snoc staged_view_snoc split: option.splits)
qed

text \<open>The keys of the map in bounds, in order.\<close>

definition keys_in :: "view \<Rightarrow> bytes bound \<Rightarrow> bytes bound \<Rightarrow> bytes set" where
  "keys_in f st en = {k. in_user_bounds st en k \<and> f k \<noteq> None}"

lemma sorted_keys_unique:
  "sorted_wrt (<) ks \<Longrightarrow> set ks = A \<Longrightarrow> ks = sorted_list_of_set A" for ks :: "bytes list"
  using sorted_list_of_set.idem_if_sorted_distinct [of ks] by (simp add: strict_sorted_iff)

lemma range_records_set:
  "(k, v) \<in> set (range_records l t st en reverse) \<longleftrightarrow> in_user_bounds st en k \<and> bt_lookup (tb_records t) (encode_bytes l k) = Some v"
  by (auto simp: range_records_def Let_def locker_records_mem)

lemma mem_fst_image: "k \<in> fst ` A \<longleftrightarrow> (\<exists>v. (k, v) \<in> A)"
  by force

lemma range_records_keys:
  "map fst (range_records l t st en False) = sorted_list_of_set (keys_in (payload_view ch l t) st en)"
proof (rule sorted_keys_unique)
  show "sorted_wrt (<) (map fst (range_records l t st en False))"
    using al_sorted_filter [OF locker_records_sorted [of l t]] by (simp add: range_records_def Let_def)
  show "set (map fst (range_records l t st en False)) = keys_in (payload_view ch l t) st en"
    by (auto simp: keys_in_def payload_view_def mem_fst_image range_records_set)
qed

definition capped :: "nat option \<Rightarrow> 'a list \<Rightarrow> 'a list" where
  "capped limit xs = (case limit of Some n \<Rightarrow> take n xs | None \<Rightarrow> xs)"

definition listed :: "view \<Rightarrow> bytes bound \<Rightarrow> bytes bound \<Rightarrow> bool \<Rightarrow> nat option \<Rightarrow> bytes list" where
  "listed f st en reverse limit =
     capped limit ((if reverse then rev else id) (sorted_list_of_set (keys_in f st en)))"

definition value_at :: "('b, 'q) ctx \<Rightarrow> 't serde \<Rightarrow> view \<Rightarrow> bytes \<Rightarrow> (bytes \<times> 't) result" where
  "value_at X sd f k = rbind (rbind (the (f k)) (item_value X sd)) (\<lambda>v. Inr (k, v))"

lemma mapM_r_cong: "(\<And>x. x \<in> set xs \<Longrightarrow> f x = g (h x)) \<Longrightarrow> mapM_r f xs = mapM_r g (map h xs)"
  by (induction xs) simp_all

lemma in_capped: "x \<in> set (capped limit xs) \<Longrightarrow> x \<in> set xs"
  by (auto simp: capped_def dest: in_set_takeD split: option.splits)

lemma map_capped: "map f (capped limit xs) = capped limit (map f xs)"
  by (simp add: capped_def take_map split: option.split)

lemma collect_all:
  "foldM_r (\<lambda>a (k, v). collect_visit cap a k (if True then Some v else None)) acc xs
     = Inr (acc @ (case cap of Some n \<Rightarrow> take (n - length acc) xs | None \<Rightarrow> xs))"
proof (induction xs arbitrary: acc)
  case (Cons x xs)
  obtain k v where x: "x = (k, v)" by (cases x)
  show ?case
  proof (cases cap)
    case (Some n)
    show ?thesis
    proof (cases "length acc \<ge> n")
      case True
      then show ?thesis using Cons.IH [of acc] by (simp add: x collect_visit_def Some)
    next
      case False
      then have "n - length acc = Suc (n - Suc (length acc))" by linarith
      then show ?thesis using Cons.IH [of "acc @ [(k, v)]"] False by (simp add: x collect_visit_def Some)
    qed
  qed (use Cons.IH [of "acc @ [(k, v)]"] in \<open>simp add: x collect_visit_def\<close>)
qed (simp split: option.split)

lemma range_records_listed:
  "map fst (capped limit (range_records l t st en reverse)) = listed (payload_view ch l t) st en reverse limit"
proof -
  have "range_records l t st en reverse = (if reverse then rev else id) (range_records l t st en False)"
    by (simp add: range_records_def Let_def)
  then show ?thesis
    by (simp add: listed_def map_capped range_records_keys [symmetric] rev_map)
qed

lemma range_records_distinct: "distinct (map fst (range_records l t st en reverse))"
proof -
  have "distinct (map fst (range_records l t st en False))"
    using range_records_keys [of l t st en undefined] by simp
  then show ?thesis by (cases reverse) (simp_all add: range_records_def Let_def rev_map [symmetric])
qed

lemma range_records_map_of:
  "map_of (range_records l t st en reverse) k
     = (if in_user_bounds st en k then bt_lookup (tb_records t) (encode_bytes l k) else None)"
proof (cases "in_user_bounds st en k \<and> bt_lookup (tb_records t) (encode_bytes l k) \<noteq> None")
  case True
  then obtain v where "(k, v) \<in> set (range_records l t st en reverse)" "bt_lookup (tb_records t) (encode_bytes l k) = Some v"
    by (auto simp: range_records_set)
  then show ?thesis using True map_of_is_SomeI [OF range_records_distinct] by simp
next
  case False
  then have "k \<notin> fst ` set (range_records l t st en reverse)"
    by (auto simp: mem_fst_image range_records_set)
  then show ?thesis using False by (auto simp: map_of_eq_None_iff [symmetric])
qed

lemma mem_map_filter_snd:
  "(k, s) \<in> set (List.map_filter (\<lambda>(key, src). map_option (\<lambda>s. (key, s)) src) xs) \<longleftrightarrow> (k, Some s) \<in> set xs"
  by (induction xs) (auto simp: List.map_filter_simps split: option.splits)

lemma sorted_map_filter:
  "sorted_wrt (<) (map fst xs) \<Longrightarrow> sorted_wrt (<) (map fst (List.map_filter (\<lambda>(key, src). map_option (\<lambda>s. (key, s)) src) xs))"
  for xs :: "('k::linorder \<times> 'v option) list"
proof (induction xs)
  case (Cons x xs)
  obtain a b where x: "x = (a, b)" by (cases x)
  have "a < k" if "(k, s) \<in> set (List.map_filter (\<lambda>(key, src). map_option (\<lambda>s. (key, s)) src) xs)" for k s
    using that Cons.prems by (auto simp: x mem_map_filter_snd)
  then show ?case using Cons by (cases b) (auto simp: x List.map_filter_simps)
qed (simp add: List.map_filter_simps)

lemma overlay_entries:
  "overlay st en staged stored = List.map_filter (\<lambda>(key, src). map_option (\<lambda>s. (key, s)) src)
     (bt_entries (overlay_map st en staged (bt_of_list (map (\<lambda>(key, bs). (key, Some (Src_Stored bs))) stored))))"
  by (cases "after_last_clear (map item_of_pending staged)") (simp add: overlay_def bt_of_list_def)

lemma overlay_spec:
  "(k, src) \<in> set (overlay st en staged (range_records l t st en reverse)) \<longleftrightarrow> in_user_bounds st en k \<and>
     (case staged_view staged k of Some w \<Rightarrow> map_option Src_Staged w
       | None \<Rightarrow> map_option Src_Stored (bt_lookup (tb_records t) (encode_bytes l k))) = Some src"
proof -
  let ?stored = "map (\<lambda>(key, bs). (key, Some (Src_Stored bs))) (range_records l t st en reverse)"
  let ?merged = "overlay_map st en staged (bt_of_list ?stored)"
  have "distinct (map fst ?stored)"
    using range_records_distinct [of l t st en reverse] by (simp add: case_prod_unfold comp_def)
  then have base: "bt_lookup (bt_of_list ?stored) k = (if in_user_bounds st en k
      then map_option (\<lambda>bs. Some (Src_Stored bs)) (bt_lookup (tb_records t) (encode_bytes l k)) else None)" for k
    using range_records_map_of [of l t st en reverse k] map_of_map [of "\<lambda>bs. Some (Src_Stored bs)" "range_records l t st en reverse"]
    by (simp add: overlay_base)
  have "(k, src) \<in> set (overlay st en staged (range_records l t st en reverse)) \<longleftrightarrow> bt_lookup ?merged k = Some (Some src)"
    unfolding overlay_entries mem_map_filter_snd bt_mem_entries_iff ..
  also have "\<dots> \<longleftrightarrow> in_user_bounds st en k \<and>
     (case staged_view staged k of Some w \<Rightarrow> map_option Src_Staged w
       | None \<Rightarrow> map_option Src_Stored (bt_lookup (tb_records t) (encode_bytes l k))) = Some src"
    by (subst overlay_merge) (auto simp: base split: option.splits if_splits)
  finally show ?thesis .
qed

lemma overlay_keys:
  "map fst (overlay st en staged (range_records l t st en reverse)) = listed (locker_view ch l t staged) st en False None"
proof -
  have "sorted_wrt (<) (map fst (overlay st en staged (range_records l t st en reverse)))"
    unfolding overlay_entries by (rule sorted_map_filter) simp
  moreover have "set (map fst (overlay st en staged (range_records l t st en reverse))) = keys_in (locker_view ch l t staged) st en"
    by (auto simp: mem_fst_image overlay_spec keys_in_def locker_view_def payload_view_def split: option.splits)
  ultimately show ?thesis
    using sorted_keys_unique by (simp add: listed_def capped_def)
qed

text \<open>A listing is the values of the keys in bounds, in order: staged writes included, capped last.\<close>

context live_backend
begin

lemma lazy_collect_live:
  assumes "ready (sh_store s)" "cx_backend X = B"
  shows "lazy_collect X sd s st en reverse limit =
    mapM_r (value_at X sd (view_of X (tabs (sh_store s)) s)) (listed (view_of X (tabs (sh_store s)) s) st en reverse limit)"
proof -
  let ?t = "tabs (sh_store s)" and ?f = "view_of X (tabs (sh_store s)) s" and ?b = "sh_store s"
  have walked: "walk B ?b (cx_id X) st en reverse True (collect_visit cap) []
      = Inr (capped cap (range_records (cx_id X) ?t st en reverse))" for cap
    by (subst walk_live [OF assms(1)], subst collect_all) (simp add: capped_def split: option.split)
  show ?thesis
  proof (cases "rs_staged s = []")
    case True
    have view: "?f = payload_view (cx_chain X) (cx_id X) ?t" by (simp add: True locker_view_Nil)
    have "mapM_r (\<lambda>(key, bs). rbind (decode_record X sd ?b bs) (\<lambda>v. Inr (key, v))) (capped limit (range_records (cx_id X) ?t st en reverse))
        = mapM_r (value_at X sd ?f) (map fst (capped limit (range_records (cx_id X) ?t st en reverse)))"
    proof (rule mapM_r_cong)
      fix x
      assume "x \<in> set (capped limit (range_records (cx_id X) ?t st en reverse))"
      then have "x \<in> set (range_records (cx_id X) ?t st en reverse)" by (rule in_capped)
      moreover obtain k v where "x = (k, v)" by (cases x)
      ultimately show "(case x of (key, bs) \<Rightarrow> rbind (decode_record X sd ?b bs) (\<lambda>v. Inr (key, v))) = value_at X sd ?f (fst x)"
        by (simp add: value_at_def view payload_view_def range_records_set decode_record_live [OF assms])
    qed
    then show ?thesis
      by (simp add: lazy_collect_def assms(2) walked True range_records_listed [where ch = "cx_chain X"] Let_def locker_view_Nil)
  next
    case False
    let ?items = "overlay st en (rs_staged s) (range_records (cx_id X) ?t st en reverse)"
    let ?cut = "capped limit (if reverse then rev ?items else ?items)"
    have "map fst (overlay st en (rs_staged s) (range_records (cx_id X) ?t st en rv)) = sorted_list_of_set (keys_in ?f st en)" for rv
      using overlay_keys [of st en "rs_staged s" "cx_id X" ?t rv "cx_chain X"] by (simp add: listed_def capped_def)
    then have keys: "map fst ?cut = listed ?f st en reverse limit"
      by (simp add: map_capped listed_def rev_map [symmetric])
    have "mapM_r (\<lambda>(key, src). rbind (decode_source X sd ?b src) (\<lambda>v. Inr (key, v))) ?cut = mapM_r (value_at X sd ?f) (map fst ?cut)"
    proof (rule mapM_r_cong)
      fix x
      assume "x \<in> set ?cut"
      then have mem: "x \<in> set (if reverse then rev ?items else ?items)" by (rule in_capped)
      obtain k src where k: "x = (k, src)" by (cases x)
      with mem have x: "x = (k, src)" "(k, src) \<in> set ?items" by (simp_all split: if_splits)
      have "decode_source X sd ?b src = rbind (the (?f k)) (item_value X sd)"
        using x(2) by (auto simp: overlay_spec locker_view_def payload_view_def decode_record_live [OF assms] item_value_def
            split: option.splits)
      then show "(case x of (key, src) \<Rightarrow> rbind (decode_source X sd ?b src) (\<lambda>v. Inr (key, v))) = value_at X sd ?f (fst x)"
        by (simp add: x value_at_def)
    qed
    moreover have "capped None xs = xs" for xs :: "(bytes \<times> bytes) list" by (simp add: capped_def)
    ultimately show ?thesis
      using False keys by (simp add: lazy_collect_def assms(2) walked Let_def capped_def)
  qed
qed

end

section \<open>Opening\<close>

lemma index_fold: "foldM_r (\<lambda>a (k, v). index_visit a k w) acc xs = Inr (fold (\<lambda>(k, v). ks_insert k) xs acc)"
  by (induction xs arbitrary: acc) (auto simp: index_visit_def)

lemma index_fold_contains: "bt_contains (fold (\<lambda>(k, v). ks_insert k) xs acc) key \<longleftrightarrow> key \<in> fst ` set xs \<or> bt_contains acc key"
  by (induction xs arbitrary: acc) auto

context backend_contract
begin

lemma lazy_open_ok:
  assumes "lazy_open X sh = (Inr s, sh')" "cx_backend X = B" "vals_ok (sh_values sh) (tabs (sh_store sh))"
  shows "lazy_ok X (tabs (sh_store sh)) s \<and> sh_store s = sh_store sh \<and> rs_staged s = []"
proof -
  obtain index lru where w: "walk B (sh_store sh) (cx_id X) Unbounded Unbounded False False index_visit bt_empty = Inr index"
    and l: "open_lru X index sh = (Inr lru, sh')" and s: "s = resident_new TxLazy (Some index) lru (inner_new sh')"
    using assms(1,2) by (auto simp: lazy_open_def split: sum.splits prod.splits)
  have sh': "sh_store sh' = sh_store sh" "sh_values sh' = sh_values sh"
    using l by (auto simp: open_lru_def on_ticks_def sbind_def split: policy.splits prod.splits sum.splits)
  have "index = fold (\<lambda>(k, v). ks_insert k) (range_records (cx_id X) (tabs (sh_store sh)) Unbounded Unbounded False) bt_empty"
    using walk_Inr [OF w] by (simp add: index_fold)
  then have idx: "bt_contains index k \<longleftrightarrow> payload_view (cx_chain X) (cx_id X) (tabs (sh_store sh)) k \<noteq> None" for k
    by (auto simp: index_fold_contains mem_fst_image range_records_set in_user_bounds_def payload_view_def)
  have fields: "rs_staged s = []" "rs_index s = Some index" "rs_known_inline s = Some bt_empty" "sh_store s = sh_store sh"
    "sh_values s = sh_values sh"
    by (simp_all add: s resident_new_def resident.defs inner_new_def inner_state.defs shared.defs sh')
  then show ?thesis
    using assms(3) idx by (simp add: lazy_ok_def index_exact_def inline_exact_def locker_view_Nil)
qed

section \<open>Eviction on demand\<close>

text \<open>With nothing staged, a sweep deletes what it evicts and leaves the rest of the map.\<close>

lemma evict_effect:
  fixes X :: "('b, 'q) ctx" and s :: "('b, 'q, 'z) resident_scheme"
  assumes B: "cx_backend X = B" and ok: "lazy_ok X (tabs (sh_store s)) s" "rs_staged s = []"
    and run: "evict_to X n s = (r, s')"
  shows "effect X (tabs (sh_store s)) s (tabs (sh_store s')) s' {} (\<lambda>f. f)"
proof (cases "rs_lru s")
  case None
  then have "s' = s" using run by (simp add: evict_to_def)
  then show ?thesis using effect_unharmed [OF effect_refl [OF ok(1)]] by simp
next
  case (Some l)
  let ?p = "lru_plan l [] [] False n []" and ?t = "tabs (sh_store s)"
  show ?thesis
  proof (cases "pl_victims ?p = []")
    case True
    then have "s' = s" using run Some by (simp add: evict_to_def Let_def)
    then show ?thesis using effect_unharmed [OF effect_refl [OF ok(1)]] by simp
  next
    case False
    let ?F = "apply_budget X (budget_default\<lparr>bg_plan := ?p\<rparr>)"
    have c: "sbind (slift (victim_ops X (sh_store s) (pl_victims ?p))) (\<lambda>ops. sbind (inner_commit X ops) (\<lambda>_.
        sbind (smod ?F) (\<lambda>_. sret (length (pl_victims ?p))))) s = (r, s')"
      using run Some False by (simp add: evict_to_def Let_def)
    show ?thesis
    proof (cases r)
      case (Inl e)
      then have "unharmed s s'"
        using c inner_commit_Inl [OF _ B] by (auto simp: sbind_eq_Inl_iff)
      then show ?thesis using ok(1) by (rule unharmed_effect)
    next
      case (Inr y)
      obtain ops u w where v: "victim_ops X (sh_store s) (pl_victims ?p) = Inr ops" and com: "inner_commit X ops s = (Inr u, w)"
        and s': "s' = ?F w"
        using c unfolding Inr by (auto simp: sbind_eq_Inr_iff)
      obtain opss where opss: "mapM_r (\<lambda>v. rbind (delete_value_ops X (sh_store s) v Prior_Unknown)
          (\<lambda>ops. Inr (ops @ [lru_delete_op (cx_id X) v]))) (pl_victims ?p) = Inr opss" and ops: "ops = concat opss"
        using v by (auto simp: victim_ops_def rbind_eq_Inr_iff)
      have vok: "vals_ok (sh_values s) ?t" using ok(1) by (simp add: lazy_ok_def)
      note vb = victims_become [OF opss B refl vok batch_inv_start [OF vok] subset_UNIV, where ch = "cx_chain X"]
      note ic = inner_commit_Inr [OF com B]
      obtain i where i: "rs_index s = Some i" "\<And>k. bt_contains i k \<longleftrightarrow> view_of X ?t s k \<noteq> None"
        using ok by (auto simp: lazy_ok_def index_exact_def)
      have tw: "tabs (sh_store w) = apply_ops ?t ops" by (rule ic(1))
      show ?thesis
      proof (rule effect_commit [where W = Map.empty])
        show "becomes (cx_chain X) ?t ?t Map.empty" using vok by (intro becomes_refl) (simp_all add: vals_ok_def)
        show "becomes (cx_chain X) ?t (tabs (sh_store s')) (evict_writes (cx_id X) (pl_victims ?p))"
          "cursor_above (sh_values s') (stored_counter (tabs (sh_store s')))"
          using vb ic(2) by (simp_all add: s' apply_budget_fields tw ops batch_inv_def)
        show "rs_staged s' = []" using ic(3) ok(2) by (simp add: s' apply_budget_fields)
        show "view_of X ?t s = write_over (\<lambda>k. Map.empty (encode_key X k)) (payload_view (cx_chain X) (cx_id X) ?t)"
          by (simp add: ok(2) locker_view_Nil write_over_def fun_eq_iff)
        show "rs_index s' = Some (fold bt_remove (pl_victims ?p) i)"
          by (simp add: s' apply_budget_fields ic(4) i)
        show "record_pointers ?t (encode_key X k) = []" if "rs_known_inline s' = Some m" "bt_contains m k" for m k
          using that ok(1) by (auto simp: s' apply_budget_fields ic(5) lazy_ok_def inline_exact_def)
      qed (use i Some in simp_all)
    qed
  qed
qed

end

end
