(* ===== verification/Lazy_Progress.thy ===== *)
theory Lazy_Progress
  imports Lazy_Reads
begin

text \<open>
  Progress: over a live backend, what a lazy locker without a byte budget needs for a put to return. The
  key's present value has to be readable (its chunks have to be found to be dropped), the filters have to
  take the payload, and a chunked value needs a value id.
\<close>

lemma piece_ops_succeeds:
  "(\<And>p. p \<in> set ps \<Longrightarrow> \<exists>s. seal ch p = Inr s) \<Longrightarrow> unat sq + length ps < 2 ^ 32 \<Longrightarrow> \<exists>r. piece_ops ch vid sq ps = Inr r"
proof (induction ch vid sq ps rule: piece_ops.induct)
  case (2 ch vid sq piece rest)
  obtain s where s: "seal ch piece = Inr s" using 2(2) by auto
  have "sq \<noteq> - 1"
    using 2(3) unat_minus_one_word [where 'a = 32] by auto
  then obtain nxt where n: "checked_succ sq = Some nxt" by (simp add: checked_succ_def)
  have less: "unat nxt + length rest < 2 ^ 32" using 2(3) unat_checked_succ [OF n] by simp
  have all: "p \<in> set rest \<Longrightarrow> \<exists>s. seal ch p = Inr s" for p using 2(2) by simp
  obtain ops sq' where r: "piece_ops ch vid nxt rest = Inr (ops, sq')"
    using 2(1) [OF all less] by (auto simp: split_paired_Ex)
  show ?case
    by (rule exI [of _ "(Op_Put Chunks (chunk_key vid sq) s # ops, sq')"]) (simp add: seal_slice_def s n r)
qed simp

definition readable :: "stored result option \<Rightarrow> bool" where
  "readable x \<longleftrightarrow> (case x of Some (Inl _) \<Rightarrow> False | _ \<Rightarrow> True)"

context live_backend
begin

lemma gc_existing_live:
  assumes "ready b" "cx_backend X = B" "readable (payload_view (cx_chain X) (cx_id X) (tabs b) key)"
  shows "\<exists>gc. gc_existing X b key pr = Inr gc"
proof (cases "bt_lookup (tb_records (tabs b)) (encode_key X key)")
  case None
  then show ?thesis using get_live [OF assms(1), of Records] by (simp add: gc_existing_def fetch_def assms(2))
next
  case (Some raw)
  have "is_pointer raw \<Longrightarrow> \<exists>p. pointer_parse raw = Inr p"
    using assms(3) Some
    by (cases "pointer_parse raw") (auto simp: readable_def payload_view_def encode_key_eq stored_item_def stored_payload_def)
  then show ?thesis using Some get_live [OF assms(1), of Records] by (auto simp: gc_existing_def fetch_def assms(2))
qed

lemma put_payload_ops_live:
  assumes "ready (sh_store s)" "cx_backend X = B"
    and old: "readable (payload_view (cx_chain X) (cx_id X) (tabs (sh_store s)) key)"
    and seals: "\<And>p. length p \<le> length payload \<Longrightarrow> \<exists>s. seal (cx_chain X) p = Inr s"
    and room: "length payload < 2 ^ 32" "0 < lc_chunk_size (cx_config X)"
      "\<not> stores_inline X (length payload) flags \<Longrightarrow> \<exists>vid nxt. allocate B (sh_store s) (sh_values s) = (Inr vid, nxt)"
  shows "\<exists>ops v. put_payload_ops X key payload flags pr s = (Inr ops, s\<lparr>sh_values := v\<rparr>)"
proof -
  obtain gc where gc: "gc_existing X (sh_store s) key pr = Inr gc" using gc_existing_live [OF assms(1,2) old] by blast
  show ?thesis
  proof (cases "stores_inline X (length payload) flags")
    case True
    obtain sealed where "seal (cx_chain X) payload = Inr sealed" using seals [of payload] by auto
    then have "put_payload_ops X key payload flags pr s = (Inr (gc @ [Op_Put Records (encode_key X key) sealed]), s\<lparr>sh_values := sh_values s\<rparr>)"
      by (simp add: put_payload_ops_def sbind_def gc True)
    then show ?thesis by blast
  next
    case False
    obtain vid nxt where a: "allocate B (sh_store s) (sh_values s) = (Inr vid, nxt)" using room(3) [OF False] by blast
    let ?ps = "pieces (lc_chunk_size (cx_config X)) payload"
    have "\<exists>s. seal (cx_chain X) p = Inr s" if "p \<in> set ?ps" for p using seals length_piece_le [OF that] by blast
    moreover have "unat (0 :: u32) + length ?ps < 2 ^ 32" using length_pieces_le [of "lc_chunk_size (cx_config X)" payload] room(1) by simp
    ultimately obtain ops n where "piece_ops (cx_chain X) vid 0 ?ps = Inr (ops, n)"
      using piece_ops_succeeds [of ?ps "cx_chain X" 0 vid] by (auto simp: split_paired_Ex)
    then show ?thesis
      using gc a room(2) False
      by (auto simp: put_payload_ops_def sbind_def next_value_id_def on_values_def assms(2) Let_def)
  qed
qed

lemma inner_commit_live:
  assumes "ready (sh_store s)" "cx_backend X = B"
  shows "\<exists>s'. inner_commit X ops s = (Inr (), s') \<and> ready (sh_store s')"
proof -
  obtain b where "bk_commit_with B ops \<lparr>co_durability = lc_durability (cx_config X)\<rparr> (sh_store s) = (Inr (), b)" "ready b"
    by (rule commit_live [OF assms(1)])
  then show ?thesis
    by (auto simp: inner_commit_def sbind_def on_store_def Let_def assms(2) post_news_def split: option.split)
qed

lemma lazy_put_live:
  fixes X :: "('b, 'q) ctx" and s :: "('b, 'q, 'z) resident_scheme"
  assumes "ready (sh_store s)" "cx_backend X = B" "\<not> in_closed s" "\<not> is_deferred X" "rs_lru s = None"
    and payload: "sd_to_vec sd v = Inr payload" "length payload < 2 ^ 32"
    and old: "readable (payload_view (cx_chain X) (cx_id X) (tabs (sh_store s)) key)"
    and seals: "\<And>p. length p \<le> length payload \<Longrightarrow> \<exists>s. seal (cx_chain X) p = Inr s"
    and room: "0 < lc_chunk_size (cx_config X)"
      "lc_chunk_size (cx_config X) < length payload \<Longrightarrow> \<exists>vid nxt. allocate B (sh_store s) (sh_values s) = (Inr vid, nxt)"
  shows "\<exists>s'. lazy_put_by X sd key v s = (Inr (), s') \<and> ready (sh_store s')"
proof -
  have room': "\<not> stores_inline X (length payload) FLAG_POSTCARD \<Longrightarrow> \<exists>vid nxt. allocate B (sh_store s) (sh_values s) = (Inr vid, nxt)"
    using room(2) by (simp add: stores_inline_def)
  obtain ops w where ops: "put_payload_ops X key payload FLAG_POSTCARD (prior_of s key) s = (Inr ops, s\<lparr>sh_values := w\<rparr>)"
    using put_payload_ops_live [OF assms(1,2) old seals payload(2) room(1) room'] by blast
  have bud: "budget_ops X ops us rs cl keep (s\<lparr>sh_values := w\<rparr>) = (Inr (budget_default, ops), s\<lparr>sh_values := w\<rparr>)" for us rs cl keep
    using assms(5) by (simp add: budget_ops_def)
  obtain u where com: "inner_commit X ops (s\<lparr>sh_values := w\<rparr>) = (Inr (), u)" "ready (sh_store u)"
    using inner_commit_live [of "s\<lparr>sh_values := w\<rparr>" X ops] assms(1,2) by auto
  show ?thesis
    using assms(3,4) com
    by (simp add: lazy_put_by_def ensure_open_def sbind_def payload(1) Let_def ops bud apply_budget_fields)
qed

end

end
