(* ===== verification/Lazy_Properties.thy ===== *)
theory Lazy_Properties
  imports Lazy_Progress
begin

text \<open>
  The contract of a lazy locker over any backend that keeps the contract of \<open>backend_contract\<close>:
  each operation against the map the locker stands for, reads as functions of that map, and the invariant
  over every sequence of operations. The instances at the end of each property run a fresh locker over
  the memory backend.
\<close>

section \<open>An instance\<close>

definition sample_sd :: "bytes serde" where
  "sample_sd = \<lparr>sd_to_vec = Inr, sd_from_bytes = Inr, sd_type_name = ''bytes''\<rparr>"

definition sample_ctx :: "commit_mode \<Rightarrow> (memory_backend, unit) ctx" where
  "sample_ctx m =
     \<lparr>cx_backend = memory_backend_vt, cx_chain = chain_raw, cx_id = 3, cx_name = ''notes'',
      cx_config = config_default\<lparr>lc_commit := m\<rparr>, cx_try_send = (\<lambda>ev q. (Send_Full, q)), cx_vec_u8 = (\<lambda>bs. Inr bs)\<rparr>"

definition sample_shared :: "memory_backend shared" where
  "sample_shared = \<lparr>sh_store = memory_new, sh_values = None, sh_ticks = ticks_default, sh_coherence = coherence_disabled\<rparr>"

definition sample_state :: "(memory_backend, unit) resident" where
  "sample_state = resident_new TxLazy (Some bt_empty) None (inner_new sample_shared)"

lemma sample_ctx_simps [simp]:
  "cx_backend (sample_ctx m) = memory_backend_vt" "cx_chain (sample_ctx m) = chain_raw"
  "cx_id (sample_ctx m) = 3" "lc_commit (cx_config (sample_ctx m)) = m"
  "lc_durability (cx_config (sample_ctx m)) = Dur_Immediate"
  by (simp_all add: sample_ctx_def config_default_def)

lemma sample_chain [simp]: "sound_chain chain_raw"
  by (simp add: sound_chain_def chain_raw_def chain_new_def)

lemma sample_state_fields [simp]:
  "sh_store sample_state = memory_new" "sh_values sample_state = None" "in_closed sample_state = False"
  "rs_staged sample_state = []" "rs_index sample_state = Some bt_empty" "rs_lru sample_state = None"
  "rs_known_inline sample_state = Some bt_empty" "rs_mode sample_state = TxLazy"
  "in_name_shared sample_state = False"
  by (simp_all add: sample_state_def resident_new_def resident.defs inner_new_def inner_state.defs shared.defs sample_shared_def)

lemma empty_lookup [simp]: "bt_lookup (tables_get (mb_tables memory_new) tab) k = None"
  by (cases tab) (simp_all add: memory_new_def tables_default_def)

lemma empty_vals_ok [simp]: "vals_ok None (mb_tables memory_new)"
  using empty_lookup [of Records] by (simp add: vals_ok_def owned_def below_def points_def cursor_above_def)

lemma sample_ok [simp]: "lazy_ok (sample_ctx m) (mb_tables memory_new) sample_state"
  using empty_lookup [of Records]
  by (simp add: lazy_ok_def index_exact_def inline_exact_def locker_view_Nil payload_view_def)

lemma sample_deferred [simp]:
  "\<not> is_deferred (sample_ctx Commit_Immediate)" "is_deferred (sample_ctx (Commit_Deferred 5))"
  by (simp_all add: is_deferred_def deferred_after_def)

lemma sample_store_open [simp]: "\<not> mb_closed memory_new"
  by (simp add: memory_new_def)

lemma sample_sd_simps [simp]: "sd_to_vec sample_sd v = Inr v" "sd_from_bytes sample_sd v = Inr v"
  by (simp_all add: sample_sd_def)

lemma sample_payload_view [simp]: "payload_view ch l (mb_tables memory_new) k = None"
  using empty_lookup [of Records] by (simp add: payload_view_def)

text \<open>The same locker with two writes staged.\<close>

definition sample_staged :: "(memory_backend, unit) resident" where
  "sample_staged = sample_state\<lparr>rs_staged := [Pend_Put [7] [1, 2], Pend_Put [8] [3]],
     rs_index := Some (ks_insert [8] (ks_insert [7] bt_empty))\<rparr>"

lemma sample_staged_fields [simp]:
  "sh_store sample_staged = memory_new" "sh_values sample_staged = None" "in_closed sample_staged = False"
  "rs_staged sample_staged = [Pend_Put [7] [1, 2], Pend_Put [8] [3]]" "rs_lru sample_staged = None"
  "rs_index sample_staged = Some (ks_insert [8] (ks_insert [7] bt_empty))" "rs_known_inline sample_staged = Some bt_empty"
  "rs_mode sample_staged = TxLazy"
  by (simp_all add: sample_staged_def)

abbreviation sample_deferred_ctx :: "(memory_backend, unit) ctx" where
  "sample_deferred_ctx \<equiv> sample_ctx (Commit_Deferred 5)"

lemma sample_staged_view:
  "staged_view [Pend_Put [7] [1, 2], Pend_Put [8] [3]] k = (if k = [8] then Some (Some [3]) else if k = [7] then Some (Some [1, 2]) else None)"
  by (auto simp: staged_view_def)

lemma sample_staged_ok [simp]: "lazy_ok sample_deferred_ctx (mb_tables memory_new) sample_staged"
  by (auto simp: lazy_ok_def index_exact_def inline_exact_def locker_view_def sample_staged_view MAX_DECODED_BYTES_def split: if_splits)

section \<open>Writes\<close>

text \<open>
  C2: a put of a lazy locker, committed at once or staged, whatever the backend answers. The locker's map
  has the new payload under the key (up to keys the budget sheds, never the key itself) when the put
  returns or has staged, and is as before when it fails. No other locker changes, and the storage
  invariants survive: no chunk is left without an owner.
\<close>

theorem lazy_put_refines:
  assumes "backend_contract (cx_backend X) tabs" "sound_chain (cx_chain X)" "lazy_ok X (tabs (sh_store s)) s" "\<not> in_closed s"
    and "sd_to_vec sd v = Inr payload" "length payload \<le> MAX_DECODED_BYTES" "lazy_put_by X sd key v s = (r, s')"
  shows "effect X (tabs (sh_store s)) s (tabs (sh_store s')) s' {key}
    (if is_deferred X \<or> r = Inr () then (\<lambda>f. f(key \<mapsto> postcard payload)) else (\<lambda>f. f))"
  by (rule backend_contract.lazy_put_effect [OF assms(1) refl assms(2-7)])

definition sample_put :: "(error + unit) \<times> (memory_backend, unit) resident" where
  "sample_put = lazy_put_by (sample_ctx Commit_Immediate) sample_sd [7] [1, 2] sample_state"

lemma sample_put_result: "fst sample_put = Inr ()"
proof -
  have "\<exists>s'. lazy_put_by (sample_ctx Commit_Immediate) sample_sd [7] [1, 2] sample_state = (Inr (), s') \<and> \<not> mb_closed (sh_store s')"
    by (rule mem.lazy_put_live [where payload = "[1, 2]"])
      (simp_all add: readable_def seal_def chain_raw_def chain_new_def
        sample_ctx_def config_default_def is_deferred_def deferred_after_def is_pointer_def header_def)
  then show ?thesis by (auto simp: sample_put_def)
qed

theorem lazy_put_refines_witness:
  "fst sample_put = Inr ()
   \<and> effect (sample_ctx Commit_Immediate) (mb_tables memory_new) sample_state (mb_tables (sh_store (snd sample_put))) (snd sample_put)
       {[7]} (\<lambda>f. f([7] \<mapsto> postcard [1, 2]))"
  using lazy_put_refines [where X = "sample_ctx Commit_Immediate" and tabs = mb_tables and s = sample_state and sd = sample_sd
      and v = "[1, 2]" and payload = "[1, 2]" and key = "[7]" and r = "fst sample_put" and s' = "snd sample_put"]
    mem.backend_contract_axioms sample_put_result
  by (simp add: MAX_DECODED_BYTES_def sample_put_def)

text \<open>
  A delete of a lazy locker takes the key out of the map when it returns or has staged, and changes
  nothing else: the chunks of the old value go, no others, and no other locker is touched.
\<close>

theorem lazy_delete_refines:
  assumes "backend_contract (cx_backend X) tabs" "sound_chain (cx_chain X)" "lazy_ok X (tabs (sh_store s)) s" "\<not> in_closed s"
    and "lazy_delete_by X key s = (r, s')"
  shows "effect X (tabs (sh_store s)) s (tabs (sh_store s')) s' {}
    (if is_deferred X \<or> r = Inr () then (\<lambda>f. f(key := None)) else (\<lambda>f. f))"
  by (rule backend_contract.lazy_delete_effect [OF assms(1) refl assms(2-5)])

theorem lazy_delete_refines_witness:
  "effect sample_deferred_ctx (mb_tables memory_new) sample_staged
     (mb_tables (sh_store (snd (lazy_delete_by sample_deferred_ctx [7] sample_staged))))
     (snd (lazy_delete_by sample_deferred_ctx [7] sample_staged)) {} (\<lambda>f. f([7] := None))"
  using lazy_delete_refines [where X = sample_deferred_ctx and tabs = mb_tables and s = sample_staged and key = "[7]"
      and r = "fst (lazy_delete_by sample_deferred_ctx [7] sample_staged)"
      and s' = "snd (lazy_delete_by sample_deferred_ctx [7] sample_staged)"] mem.backend_contract_axioms
  by simp

text \<open>
  A clear of a lazy locker empties its map when it returns or has staged, and touches no other
  locker.
\<close>

theorem lazy_clear_refines:
  assumes "backend_contract (cx_backend X) tabs" "sound_chain (cx_chain X)" "lazy_ok X (tabs (sh_store s)) s" "\<not> in_closed s"
    and "lazy_clear X s = (r, s')"
  shows "effect X (tabs (sh_store s)) s (tabs (sh_store s')) s' {}
    (if is_deferred X \<or> r = Inr () then (\<lambda>f. Map.empty) else (\<lambda>f. f))"
  by (rule backend_contract.lazy_clear_effect [OF assms(1) refl assms(2-5)])

theorem lazy_clear_refines_witness:
  "effect sample_deferred_ctx (mb_tables memory_new) sample_staged
     (mb_tables (sh_store (snd (lazy_clear sample_deferred_ctx sample_staged))))
     (snd (lazy_clear sample_deferred_ctx sample_staged)) {} (\<lambda>f. Map.empty)"
  using lazy_clear_refines [where X = sample_deferred_ctx and tabs = mb_tables and s = sample_staged
      and r = "fst (lazy_clear sample_deferred_ctx sample_staged)" and s' = "snd (lazy_clear sample_deferred_ctx sample_staged)"]
    mem.backend_contract_axioms
  by simp

text \<open>
  C4: a transaction is atomic. When it returns, the locker's map is the map before overlaid with the
  write-set the closure staged, in the order it staged it, with everything that was staged before it
  committed too (keys the byte budget sheds apart, none of which the transaction puts); when it fails, at whatever
  point, everything stored, the staged writes, the index and the inline markers are as they were; and when the
  closure fails the state does not change at all.
\<close>

theorem lazy_transact_refines:
  assumes "backend_contract (cx_backend X) tabs" "sound_chain (cx_chain X)" "lazy_ok X (tabs (sh_store s)) s" "\<not> in_closed s"
    and "f (sh_store s) [] = (out, entries)" "\<forall>e\<in>set entries. pending_fits (pending_of_staged e)"
    and "lazy_transact X f s = (r, s')"
  shows "effect X (tabs (sh_store s)) s (tabs (sh_store s')) s' {k. r = Inr () \<and> (\<exists>p. tx_staged_view entries k = Some (Some p))}
      (if r = Inr () then write_over (tx_staged_view entries) else (\<lambda>f. f))
    \<and> (case out of Inl e \<Rightarrow> r = Inl e \<and> s' = s | Inr _ \<Rightarrow> True)
    \<and> (r \<noteq> Inr () \<longrightarrow> tabs (sh_store s') = tabs (sh_store s) \<and> rs_staged s' = rs_staged s \<and> rs_index s' = rs_index s
        \<and> rs_known_inline s' = rs_known_inline s)"
  using backend_contract.transact_effect [OF assms(1) refl assms(2-7)]
    backend_contract.transact_failed [OF assms(1) refl assms(4-5,7)] by blast

definition sample_closure :: "(memory_backend, bytes) closure" where
  "sample_closure b entries = (Inr (), [Staged_Clear, Staged_Put [9] [4] [4]])"

theorem lazy_transact_refines_witness:
  "case lazy_transact sample_deferred_ctx sample_closure sample_staged of (r, s') \<Rightarrow>
     effect sample_deferred_ctx (mb_tables memory_new) sample_staged (mb_tables (sh_store s')) s'
       {k. r = Inr () \<and> (\<exists>p. tx_staged_view [Staged_Clear, Staged_Put [9] [4] ([4] :: bytes)] k = Some (Some p))}
       (if r = Inr () then write_over (tx_staged_view [Staged_Clear, Staged_Put [9] [4] ([4] :: bytes)]) else (\<lambda>f. f))"
proof -
  obtain r s' where run: "lazy_transact sample_deferred_ctx sample_closure sample_staged = (r, s')" by fastforce
  show ?thesis
    using lazy_transact_refines [where X = sample_deferred_ctx and tabs = mb_tables and s = sample_staged and f = sample_closure
        and out = "Inr ()" and entries = "[Staged_Clear, Staged_Put [9] [4] [4]]" and r = r and s' = s']
      mem.backend_contract_axioms run
    by (simp add: sample_closure_def MAX_DECODED_BYTES_def)
qed

text \<open>
  C10: flushing a batch of staged writes commits exactly what the locker already showed: the map is the
  same before and after (up to keys the budget sheds, none of which the batch writes), and after a flush
  that returns nothing is staged.
\<close>

theorem flush_refines:
  assumes "backend_contract (cx_backend X) tabs" "sound_chain (cx_chain X)" "lazy_ok X (tabs (sh_store s)) s"
    and "flush_locked X s = (r, s')"
  shows "effect X (tabs (sh_store s)) s (tabs (sh_store s')) s' {k. \<exists>p. staged_view (rs_staged s) k = Some (Some p)} (\<lambda>f. f)
    \<and> rs_staged s' = (if r = Inr () then [] else rs_staged s)"
proof -
  have "rs_staged s' = (if r = Inr () then [] else rs_staged s)"
  proof (cases r)
    case (Inl e)
    then show ?thesis
      using backend_contract.unharmed_fields(2) [OF assms(1) backend_contract.flush_Inl [OF assms(1) _ refl]] assms(4) by simp
  next
    case (Inr x)
    then show ?thesis using backend_contract.flush_Inr [OF assms(1) _ refl assms(2,3)] assms(4) by simp
  qed
  then show ?thesis using backend_contract.flush_effect [OF assms(1,4) refl assms(2,3)] by simp
qed

theorem flush_refines_witness:
  "case flush_locked sample_deferred_ctx sample_staged of (r, s') \<Rightarrow>
     effect sample_deferred_ctx (mb_tables memory_new) sample_staged (mb_tables (sh_store s')) s'
       {k. \<exists>p. staged_view [Pend_Put [7] [1, 2], Pend_Put [8] [3]] k = Some (Some p)} (\<lambda>f. f)
     \<and> rs_staged s' = (if r = Inr () then [] else [Pend_Put [7] [1, 2], Pend_Put [8] [3]])"
proof -
  obtain r s' where run: "flush_locked sample_deferred_ctx sample_staged = (r, s')" by fastforce
  show ?thesis
    using flush_refines [where X = sample_deferred_ctx and tabs = mb_tables and s = sample_staged and r = r and s' = s']
      mem.backend_contract_axioms run
    by simp
qed

text \<open>
  C11: a flush that fails leaves the storage as it was and the whole batch staged, with the index and the
  inline markers it had: nothing is lost and a later flush can retry.
\<close>

theorem flush_failure_restages:
  assumes "backend_contract (cx_backend X) tabs" "flush_locked X s = (Inl e, s')"
  shows "tabs (sh_store s') = tabs (sh_store s) \<and> rs_staged s' = rs_staged s \<and> rs_index s' = rs_index s
    \<and> rs_known_inline s' = rs_known_inline s"
  using backend_contract.unharmed_fields(1-4) [OF assms(1) backend_contract.flush_Inl [OF assms(1,2) refl]] by simp

definition sample_broken :: "(memory_backend, unit) resident" where
  "sample_broken = sample_staged\<lparr>sh_store := memory_new\<lparr>mb_closed := True\<rparr>\<rparr>"

lemma sample_flush_fails: "fst (flush_locked sample_deferred_ctx sample_broken) = Inl Closed"
  by (simp add: flush_locked_def take_staged_def sample_broken_def sbind_def commit_batch_def or_restage_def
      ops_for_pending_def ops_for_items_def actions_of_def action_ops_def put_payload_ops_def gc_existing_def needs_read_def
      fetch_def memory_backend_vt_def memory_get_def with_tables_def)

theorem flush_failure_restages_witness:
  "rs_staged (snd (flush_locked sample_deferred_ctx sample_broken)) = rs_staged sample_broken"
  using flush_failure_restages [where X = sample_deferred_ctx and tabs = mb_tables and s = sample_broken and e = Closed
      and s' = "snd (flush_locked sample_deferred_ctx sample_broken)"] mem.backend_contract_axioms sample_flush_fails
  by (simp add: prod_eq_iff)

section \<open>Reads\<close>

text \<open>
  C19: a get returns the value of its key in the locker's map: the staged write if there is one, else
  the stored value, reassembled and decoded. Only noting the read for the byte budget can add a failure,
  and a get leaves storage, index and staged writes alone.
\<close>

theorem lazy_get_exact:
  assumes "live_backend (cx_backend X) tabs ready" "ready (sh_store s)" "\<not> in_closed s" "lazy_get_by X sd key s = (r, s')"
  shows "(case r of
      Inl e \<Rightarrow> key_value X sd (view_of X (tabs (sh_store s)) s) key = Inl e \<or> rs_lru s \<noteq> None
    | Inr v \<Rightarrow> key_value X sd (view_of X (tabs (sh_store s)) s) key = Inr v)
    \<and> (\<exists>u. same_core s u \<and> (s' = u \<or> s' = note_corrupt key u))"
  by (rule live_backend.lazy_get_live [OF assms(1,2) refl assms(3,4)])

theorem lazy_get_exact_witness:
  "key_value sample_deferred_ctx sample_sd (view_of sample_deferred_ctx (mb_tables memory_new) sample_staged) [7] = Inr (Some [1, 2])
   \<and> fst (lazy_get_by sample_deferred_ctx sample_sd [7] sample_staged) = Inr (Some [1, 2])"
proof -
  have "lazy_get_by sample_deferred_ctx sample_sd [7] sample_staged = (Inr (Some [1, 2]), sample_staged)"
    by (simp add: lazy_get_by_def ensure_open_def sbind_def sample_staged_view view_value_def decode_payload_def)
  then show ?thesis
    using lazy_get_exact [where X = sample_deferred_ctx and tabs = mb_tables and ready = "\<lambda>m. \<not> mb_closed m" and s = sample_staged
        and sd = sample_sd and key = "[7]" and r = "Inr (Some [1, 2])" and s' = sample_staged] mem.live_backend_axioms
    by simp
qed

text \<open>
  C20: a listing, in either direction and with or without a limit, is equivalent to the reference: take
  the keys of the locker's map in bounds in sorted order, reverse them if asked, cut at the limit, and read
  each. It does not matter which writes are staged and which stored, nor how the storage pages its scans.
\<close>

theorem lazy_listing_exact:
  assumes "live_backend (cx_backend X) tabs ready" "ready (sh_store s)"
  shows "lazy_collect X sd s st en reverse limit =
    mapM_r (value_at X sd (view_of X (tabs (sh_store s)) s)) (listed (view_of X (tabs (sh_store s)) s) st en reverse limit)"
  by (rule live_backend.lazy_collect_live [OF assms refl])

theorem lazy_listing_exact_witness:
  "lazy_collect sample_deferred_ctx sample_sd sample_staged Unbounded Unbounded True None =
    mapM_r (value_at sample_deferred_ctx sample_sd (view_of sample_deferred_ctx (mb_tables memory_new) sample_staged))
      (listed (view_of sample_deferred_ctx (mb_tables memory_new) sample_staged) Unbounded Unbounded True None)"
  using lazy_listing_exact [where X = sample_deferred_ctx and tabs = mb_tables and ready = "\<lambda>m. \<not> mb_closed m" and s = sample_staged]
    mem.live_backend_axioms
  by simp

text \<open>
  C21: opening a lazy locker over storage in good order succeeds in a state that satisfies the invariant,
  with an index of exactly the stored keys.
\<close>

theorem lazy_open_establishes:
  assumes "backend_contract (cx_backend X) tabs" "vals_ok (sh_values sh) (tabs (sh_store sh))" "lazy_open X sh = (Inr s, sh')"
  shows "lazy_ok X (tabs (sh_store sh)) s \<and> sh_store s = sh_store sh \<and> rs_staged s = []"
  by (rule backend_contract.lazy_open_ok [OF assms(1,3) refl assms(2)])

lemma sample_walk: "walk memory_backend_vt memory_new 3 Unbounded Unbounded False want visit acc = Inr acc"
proof -
  have "range_records 3 (mb_tables memory_new) Unbounded Unbounded False = []"
    by (simp add: range_records_def locker_records_def memory_new_def tables_default_def)
  then show ?thesis by (subst mem.walk_live) simp_all
qed

lemma sample_opened: "lazy_open (sample_ctx m) sample_shared = (Inr sample_state, sample_shared)"
proof -
  have "lc_policy (cx_config (sample_ctx m)) = Precious" by (simp add: sample_ctx_def config_default_def)
  moreover have "sh_store sample_shared = memory_new" by (simp add: sample_shared_def)
  ultimately show ?thesis by (simp add: lazy_open_def open_lru_def sample_state_def sample_walk)
qed

theorem lazy_open_establishes_witness:
  "lazy_ok (sample_ctx Commit_Immediate) (mb_tables (sh_store sample_shared)) sample_state"
  using lazy_open_establishes [OF _ _ sample_opened, of Commit_Immediate mb_tables] mem.backend_contract_axioms
  by (simp add: sample_shared_def)

section \<open>The index and the write-set\<close>

text \<open>
  C3: the operations computed for a write-set, in either mode, implement it: applied to the tables they
  were computed against, they leave every key of the locker as the write-set says (the last write of a key
  wins, a clear drops what came before), every other key as it was, and the storage in good order with
  no chunk orphaned.
\<close>

theorem write_set_refines:
  assumes "backend_contract (cx_backend X) tabs" "vals_ok (sh_values s) (tabs (sh_store s))"
    and "sound_chain (cx_chain X)" "\<forall>e\<in>set st. pending_fits e" "ops_for_pending X st mode s = (Inr ops, s')"
  shows "payload_view (cx_chain X) l (apply_ops (tabs (sh_store s)) ops) k =
      (if l = cx_id X then write_over (staged_view st) (payload_view (cx_chain X) l (tabs (sh_store s))) k
       else payload_view (cx_chain X) l (tabs (sh_store s)) k)
    \<and> vals_ok (sh_values s') (apply_ops (tabs (sh_store s)) ops)
    \<and> (no_orphans (tabs (sh_store s)) \<longrightarrow> no_orphans (apply_ops (tabs (sh_store s)) ops))"
proof -
  note b = backend_contract.batch_becomes [OF assms(1,5) refl assms(2-4)]
  have "batch_writes (cx_id X) st (encode_bytes l k) = (if l = cx_id X then staged_view st k else None)"
    by (cases "l = cx_id X"; cases "decode_bytes (cx_id X) (encode_bytes l k)") (auto simp: batch_writes_def decode_bytes_Inr_iff)
  then show ?thesis
    using b becomes_view [OF conjunct1 [OF b], of l k]
    by (auto simp: write_over_def vals_ok_def batch_inv_def becomes_def split: option.splits)
qed

theorem write_set_refines_witness:
  "case ops_for_pending sample_deferred_ctx [Pend_Clear, Pend_Delete [7]] TxLazy sample_state of (r, s') \<Rightarrow>
     (case r of Inl _ \<Rightarrow> False
      | Inr ops \<Rightarrow> payload_view chain_raw 3 (apply_ops (mb_tables memory_new) ops) [7] = None
          \<and> vals_ok (sh_values s') (apply_ops (mb_tables memory_new) ops))"
proof -
  have "clear_value_ops sample_deferred_ctx memory_new = Inr [clear_op sample_deferred_ctx]"
    by (simp add: clear_value_ops_def sample_walk)
  moreover have "bk_get memory_backend_vt memory_new Records k = Inr None" for k
    using empty_lookup [of Records] by (simp add: mem.get_live)
  ultimately have "ops_for_pending sample_deferred_ctx [Pend_Clear, Pend_Delete [7]] TxLazy sample_state
      = (Inr [clear_op sample_deferred_ctx, delete_op sample_deferred_ctx [7]], sample_state)"
    by (simp add: ops_for_pending_def ops_for_items_def sbind_def actions_of_def action_ops_def delete_value_ops_def
        gc_existing_def needs_read_def fetch_def)
  then show ?thesis
    using write_set_refines [where X = sample_deferred_ctx and tabs = mb_tables and s = sample_state
        and st = "[Pend_Clear, Pend_Delete [7]]" and mode = TxLazy and l = 3 and k = "[7]"] mem.backend_contract_axioms
    by (simp add: write_over_def staged_view_def)
qed

section \<open>Progress\<close>

text \<open>
  C23: over a live backend a put into a lazy locker that commits at once and has no byte budget returns,
  if the key's present value is readable, the filters take the payload, and a value too long for one record
  finds a value id.
\<close>

theorem lazy_put_returns:
  fixes X :: "('b, 'q) ctx" and s :: "('b, 'q, 'z) resident_scheme"
  assumes "live_backend (cx_backend X) tabs ready" "ready (sh_store s)" "\<not> in_closed s" "\<not> is_deferred X" "rs_lru s = None"
    and "sd_to_vec sd v = Inr payload" "length payload < 2 ^ 32"
    and "readable (payload_view (cx_chain X) (cx_id X) (tabs (sh_store s)) key)"
    and "\<And>p. length p \<le> length payload \<Longrightarrow> \<exists>s. seal (cx_chain X) p = Inr s"
    and "0 < lc_chunk_size (cx_config X)"
    and "lc_chunk_size (cx_config X) < length payload \<Longrightarrow>
      \<exists>vid nxt. allocate (cx_backend X) (sh_store s) (sh_values s) = (Inr vid, nxt)"
  shows "\<exists>s'. lazy_put_by X sd key v s = (Inr (), s') \<and> ready (sh_store s')"
  by (rule live_backend.lazy_put_live [OF assms(1,2) refl assms(3-11)])

theorem lazy_put_returns_witness:
  "\<exists>s'. lazy_put_by (sample_ctx Commit_Immediate) sample_sd [7] [1, 2, 3] sample_state = (Inr (), s') \<and> \<not> mb_closed (sh_store s')"
  by (rule lazy_put_returns [where tabs = mb_tables and payload = "[1, 2, 3]"])
    (use mem.live_backend_axioms in \<open>simp_all add: readable_def seal_def chain_raw_def chain_new_def
      sample_ctx_def config_default_def is_deferred_def deferred_after_def is_pointer_def header_def\<close>)

end
