(* ===== verification/Frames.thy ===== *)
theory Frames
  imports Prelude
begin

text \<open>
  Framing: an action leaves a part of the state alone when it is the same before and after, whatever the action answers.
\<close>

definition leaves :: "('s \<Rightarrow> 'c) \<Rightarrow> ('s, 'e, 'a) act \<Rightarrow> bool" where
  "leaves f m \<longleftrightarrow> (\<forall>s. f (snd (m s)) = f s)"

named_theorems leaving \<open>actions that leave a part of the state alone\<close>

lemma leavesD: "leaves f m \<Longrightarrow> m s = (r, s') \<Longrightarrow> f s' = f s"
  unfolding leaves_def by (metis snd_conv)

lemma leaves_app: "leaves f m \<Longrightarrow> f (snd (m s)) = f s"
  by (simp add: leaves_def)

lemma leavesI: "(\<And>s r s'. m s = (r, s') \<Longrightarrow> f s' = f s) \<Longrightarrow> leaves f m"
  unfolding leaves_def by (metis prod.collapse)

lemma leaves_pure [leaving]: "leaves f (slift e)" "leaves f (sread g)" "leaves f (sret x)"
  by (simp_all add: leaves_def)

lemma leaves_smod: "(\<And>s. f (g s) = f s) \<Longrightarrow> leaves f (smod g)"
  by (simp add: leaves_def)

lemma leaves_sbind [leaving]:
  assumes "leaves f m" "\<And>x. leaves f (g x)"
  shows "leaves f (sbind m g)"
proof (rule leavesI)
  fix s r s'
  assume run: "sbind m g s = (r, s')"
  obtain a u where a: "m s = (a, u)" by fastforce
  then have u: "f u = f s" by (rule leavesD [OF assms(1)])
  show "f s' = f s"
  proof (cases a)
    case (Inl e)
    then show ?thesis using run a u by simp
  next
    case (Inr x)
    then have "g x u = (r, s')" using run a by simp
    from leavesD [OF assms(2) this] u show ?thesis by simp
  qed
qed

lemma leaves_mapM [leaving]: "(\<And>x. leaves f (g x)) \<Longrightarrow> leaves f (mapM_s g xs)"
  by (induction xs) (auto intro!: leaving)

lemma leaves_cases:
  "leaves f m \<Longrightarrow> leaves f m' \<Longrightarrow> leaves f (if b then m else m')"
  "leaves f m \<Longrightarrow> leaves f m' \<Longrightarrow> leaves f (\<lambda>s. if c s then m s else m' s)"
  "(\<And>x. leaves f (h x)) \<Longrightarrow> leaves f m \<Longrightarrow> leaves f (\<lambda>s. case o' s of None \<Rightarrow> m s | Some x \<Rightarrow> h x s)"
  "(\<And>s. snd (m'' s) = s) \<Longrightarrow> leaves f m''"
  by (auto simp: leaves_def split: option.split)

end
