(* ===== verification/Closed_Flag.thy ===== *)
theory Closed_Flag
  imports Eager_Locker Frames
begin

text \<open>
  Only \<open>close\<close> sets the closed flag of a locker: every other call leaves it as it finds it, whatever its
  outcome.
\<close>

abbreviation flag_kept :: "(('b, 'q, 'z) inner_state_scheme, error, 'a) act \<Rightarrow> bool" where
  "flag_kept \<equiv> leaves in_closed"

named_theorems flag \<open>actions that leave the closed flag alone\<close>

lemmas flag_keptD = leavesD [where f = in_closed]
lemmas flag_pure [flag] = leaves_pure [where f = in_closed]
lemmas flag_smod = leaves_smod [where f = in_closed]
lemmas flag_sbind [flag] = leaves_sbind [where f = in_closed]
lemmas flag_app = leaves_app [where f = in_closed]
lemmas flag_mapM [flag] = leaves_mapM [where f = in_closed]

lemma flag_ensure [flag]: "flag_kept ensure_open"
  by (simp add: leaves_def ensure_open_def)

lemma flag_after: "flag_kept m \<Longrightarrow> in_closed (g s) = in_closed s \<Longrightarrow> in_closed (snd (m (g s))) = in_closed s"
  by (simp add: leaves_def)

lemma flag_on [flag]: "flag_kept (on_store m)" "flag_kept (on_ticks m')" "flag_kept (on_values m'')"
  by (simp_all add: leaves_def on_store_def on_ticks_def on_values_def split: prod.split)

lemma flag_or_restage [flag]: "flag_kept m \<Longrightarrow> flag_kept (or_restage es m)"
  by (simp add: leaves_def or_restage_def restage_def split: prod.split sum.split) (metis snd_conv)

section \<open>Updates of the other fields\<close>

lemma closed_updates [simp]:
  "in_closed (announce X ev s) = in_closed s" "in_closed (post_news a s) = in_closed s"
  "in_closed (note_inline k b r) = in_closed r" "in_closed (forget_inline r) = in_closed r"
  "in_closed (touch_index f r) = in_closed r" "in_closed (on_lru g r) = in_closed r"
  "in_closed (forget_dropped k r) = in_closed r" "in_closed (forget_all_dropped r) = in_closed r"
  "in_closed (note_dropped k r) = in_closed r" "in_closed (note_corrupt k r) = in_closed r"
  "in_closed (snd (stage X e r)) = in_closed r" "in_closed (discard_staged r) = in_closed r"
  "in_closed (eg_insert k v e') = in_closed e'" "in_closed (eg_remove k e') = in_closed e'" "in_closed (eg_clear e') = in_closed e'"
  by (simp_all add: announce_def post_news_def Let_def note_inline_def forget_inline_def touch_index_def on_lru_def forget_dropped_def
      forget_all_dropped_def note_dropped_def note_corrupt_def stage_def discard_staged_def eg_insert_def eg_remove_def eg_clear_def)

lemma closed_folds [simp]:
  "in_closed (fold (\<lambda>v. announce X (f v)) vs s) = in_closed s"
  "in_closed (fold (\<lambda>v. note_inline v b) ks r) = in_closed r"
  by (induction vs arbitrary: s, simp_all) (induction ks arbitrary: r, simp_all)

lemma closed_note_corrupts [simp]: "in_closed (fold note_corrupt ks r) = in_closed r"
  by (induction ks arbitrary: r) simp_all

lemma closed_budget [simp]: "in_closed (apply_budget X bg s) = in_closed s"
  by (simp add: apply_budget_def Let_def)

lemma closed_eager_fold: "in_closed (snd (eager_fold_all es s)) = in_closed s"
proof (induction es arbitrary: s)
  case (Cons e es)
  have "in_closed (snd (eager_fold e s)) = in_closed s" by (cases e) simp_all
  then show ?case using Cons by (simp split: prod.split) (metis snd_conv)
qed simp

lemma closed_eager_announce: "in_closed (fold (eager_announce X) xs s) = in_closed s"
proof (induction xs arbitrary: s)
  case (Cons x xs)
  have "in_closed (eager_announce X x s) = in_closed s" by (cases "(X, x, s)" rule: eager_announce.cases) simp_all
  then show ?case using Cons by simp
qed simp

section \<open>A locker is opened open\<close>

lemma lazy_opens_open: "lazy_open X sh = (Inr s, sh') \<Longrightarrow> \<not> in_closed s"
  by (auto simp: lazy_open_def resident_new_def resident.defs inner_new_def inner_state.defs shared.defs split: sum.splits prod.splits)

lemma eager_opens_open: "eager_open X sd sh = Inr s \<Longrightarrow> \<not> in_closed s"
  by (auto simp: eager_open_def rbind_eq_Inr_iff Let_def resident_new_def resident.defs inner_new_def inner_state.defs shared.defs
      split: policy.splits if_splits)

section \<open>The shared actions\<close>

lemma flag_commit [flag]: "flag_kept (inner_commit X ops)"
proof -
  have "flag_kept (sbind (on_store m) (\<lambda>_. smod (\<lambda>s. case news of Some a \<Rightarrow> post_news a s | None \<Rightarrow> s)))" for m news
    by (intro flag flag_smod) (simp split: option.split)
  then show ?thesis unfolding leaves_def inner_commit_def Let_def by blast
qed

lemma flag_flush_backend [flag]: "flag_kept (flush_backend X)"
  by (simp add: flush_backend_def flag)

lemma flag_next_tick [flag]: "flag_kept (next_tick X)"
  using flag_on(2) unfolding leaves_def next_tick_def by blast

lemma flag_next_value_id [flag]: "flag_kept (next_value_id X)"
  using flag_on(3) unfolding leaves_def next_value_id_def by blast

lemma flag_tick_then: "flag_kept (sbind (next_tick X) (\<lambda>tick. smod (on_lru (f tick))))"
  by (intro flag flag_smod) simp

lemma flag_note_read [flag]: "flag_kept (note_read X key)"
  by (simp add: leaves_def note_read_def flag_app [OF flag_tick_then])

lemma flag_loaded_then: "flag_kept (sbind (on_ticks m) (\<lambda>loaded. smod (on_lru (f loaded))))"
  by (intro flag flag_smod) simp

lemma flag_reload [flag]: "flag_kept (reload_lru_if_dirty X)"
  by (simp add: leaves_def reload_lru_if_dirty_def flag_app [OF flag_loaded_then] split: option.split)

lemma flag_answer: "(\<And>s. snd (m s) = s) \<Longrightarrow> flag_kept m"
  by (simp add: leaves_def)

lemma flag_budget_then:
  "(\<And>tick s. snd (f tick s) = s) \<Longrightarrow> flag_kept (sbind (reload_lru_if_dirty X) (\<lambda>_. sbind (next_tick X) f))"
  by (intro flag flag_answer)

lemma flag_budget [flag]: "flag_kept (budget_ops X ops us rs cl keep)"
  unfolding leaves_def budget_ops_def
  by (auto simp: Let_def split: option.split prod.split intro!: flag_app [OF flag_budget_then])

lemma flag_put_ops [flag]: "flag_kept (put_payload_ops X key payload flags pr)"
  unfolding put_payload_ops_def by (auto intro!: flag split: prod.split)

lemma flag_action_ops [flag]: "flag_kept (action_ops X mode ka)"
  by (auto simp: action_ops_def intro!: flag split: prod.split action.split tx_mode.split)

lemma flag_ops_for_pending [flag]: "flag_kept (ops_for_pending X entries mode)"
  unfolding ops_for_pending_def ops_for_items_def by (auto intro!: flag split: prod.split)

lemma flag_commit_batch [flag]: "flag_kept (commit_batch X mode back batch)"
  unfolding commit_batch_def by (auto intro!: flag split: prod.split)

lemma flag_batch_then: "flag_kept (sbind (commit_batch X mode es es') (\<lambda>bg. smod (apply_budget X bg)))"
  by (intro flag flag_smod) simp

lemma flag_flush_locked [flag]: "flag_kept (flush_locked X)"
  unfolding leaves_def flush_locked_def take_staged_def
  by (simp add: flag_app [OF flag_batch_then])

lemma flag_resident_flush [flag]: "flag_kept (resident_flush X)"
  by (simp add: leaves_def resident_flush_def flag_app [OF flag_flush_locked])

lemma flag_flush_if [flag]: "flag_kept (flush_if X full)"
  by (simp add: flush_if_def flag)

lemma flag_sweep:
  "flag_kept (sbind (slift e) (\<lambda>ops. sbind (inner_commit X ops) (\<lambda>_. sbind (smod (apply_budget X bg)) (\<lambda>_. sret m))))"
  by (intro flag flag_smod) simp

lemma flag_evict [flag]: "flag_kept (evict_to X n)"
  by (simp add: leaves_def evict_to_def Let_def flag_app [OF flag_sweep] split: option.split)

text \<open>A staged write, flushed when the batch is full.\<close>

lemma flag_staged:
  assumes "\<And>s. in_closed (g s) = in_closed s"
  shows "in_closed (snd (case stage X e s of (full, s) \<Rightarrow> flush_if X full (g s))) = in_closed s"
  by (simp add: assms flag_app [OF flag_flush_if] case_prod_unfold)

section \<open>The calls of a lazy locker\<close>

text \<open>Operations, budget, commit, and what follows a commit.\<close>

lemma flag_direct:
  assumes "flag_kept m" "\<And>bg s. in_closed (h bg s) = in_closed s"
  shows "in_closed (snd (sbind m (\<lambda>ops. sbind (budget_ops X ops us rs cl keep) (\<lambda>(bg, ops). sbind (inner_commit X ops)
     (\<lambda>_. smod (h bg)))) s)) = in_closed s"
proof (rule flag_app)
  have "flag_kept (smod (h bg))" for bg by (rule flag_smod [OF assms(2)])
  then show "flag_kept (sbind m (\<lambda>ops. sbind (budget_ops X ops us rs cl keep) (\<lambda>(bg, ops). sbind (inner_commit X ops) (\<lambda>_. smod (h bg)))))"
    using assms(1) by (auto intro!: flag)
qed

lemma flag_call: "(\<And>s. in_closed (snd (f s)) = in_closed s) \<Longrightarrow> flag_kept (sbind ensure_open (\<lambda>_. f))"
  by (intro flag) (simp add: leaves_def)

lemma flag_lazy_put [flag]: "flag_kept (lazy_put_by X sd key v)"
  unfolding lazy_put_by_def Let_def
  by (rule flag_call) (simp add: flag_staged flag_direct flag_put_ops split: sum.split)

lemma flag_lazy_delete [flag]: "flag_kept (lazy_delete_by X key)"
  unfolding lazy_delete_by_def by (rule flag_call) (simp add: flag_staged flag_direct flag_pure)

lemma flag_lazy_clear [flag]: "flag_kept (lazy_clear X)"
  unfolding lazy_clear_def by (rule flag_call) (simp add: flag_staged flag_direct flag_pure)

lemma flag_batch:
  assumes "\<And>bg s. in_closed (h bg s) = in_closed s"
  shows "in_closed (snd (sbind (commit_batch X mode es es') (\<lambda>bg. smod (h bg)) s)) = in_closed s"
  by (intro flag_app flag flag_smod assms)

lemma flag_lazy_transact [flag]: "flag_kept (lazy_transact X f)"
  unfolding lazy_transact_def
  by (rule flag_call) (simp add: take_staged_def flag_batch split: prod.split sum.split)

lemma flag_read_then: "in_closed (snd (sbind (note_read X key) (\<lambda>_. slift e) s)) = in_closed s"
  by (intro flag_app flag)

lemma flag_lazy_get [flag]: "flag_kept (lazy_get_by X sd key)"
  unfolding lazy_get_by_def load_and_note_def
  by (intro flag_call) (simp add: flag_read_then split: sum.split option.split prod.split)

lemma flag_lazy_evict [flag]: "flag_kept (lazy_evict_to X n)"
  unfolding lazy_evict_to_def by (intro flag)

lemma flag_lazy_flush [flag]: "flag_kept (lazy_flush X)"
  by (simp add: leaves_def lazy_flush_def case_prod_unfold flag_app [OF flag_flush_backend] flag_app [OF flag_resident_flush])

section \<open>The calls of an eager locker\<close>

lemma flag_eager_commit:
  assumes "\<And>s. in_closed (h s) = in_closed s"
  shows "in_closed (snd (sbind (inner_commit X ops) (\<lambda>_. smod h) s)) = in_closed s"
    "in_closed (snd (sbind (inner_commit X ops) (\<lambda>_. sbind (smod h) (\<lambda>_. sret v)) s)) = in_closed s"
  by (intro flag_app flag flag_smod assms)+

lemma flag_full_then: "in_closed (snd (sbind (flush_if X full) (\<lambda>_. sret v) s)) = in_closed s"
  by (intro flag_app flag)

lemma flag_eager_staged:
  assumes "\<And>s. in_closed (g s) = in_closed s"
  shows "in_closed (snd (case stage X e s of (full, s) \<Rightarrow> sbind (flush_if X full) (\<lambda>_. sret v) (g s))) = in_closed s"
  by (simp add: assms case_prod_unfold flag_full_then)

lemma flag_eager_put [flag]: "flag_kept (eager_put_by X sd key v)"
  unfolding eager_put_by_def
  by (intro flag_call [OF flag_app] flag_sbind flag_pure) (simp add: leaves_def flag_eager_commit flag_eager_staged split: sum.split)

lemma flag_eager_delete [flag]: "flag_kept (eager_delete_by X key)"
  unfolding eager_delete_by_def Let_def
  by (rule flag_call) (simp add: flag_staged flag_eager_commit)

lemma flag_eager_clear [flag]: "flag_kept (eager_clear X)"
  unfolding eager_clear_def
  by (rule flag_call) (simp add: flag_staged flag_eager_commit)

lemma flag_write_set_then:
  "in_closed (snd (sbind (or_restage es (ops_for_pending X batch mode)) (\<lambda>ops.
      sbind (or_restage es (inner_commit X ops)) (\<lambda>_. smod (\<lambda>s. case eager_fold_all entries s of (rs, s) \<Rightarrow>
        fold (eager_announce X) (zip entries rs) s))) s)) = in_closed s"
  by (intro flag_app flag flag_smod) (simp add: case_prod_unfold closed_eager_announce closed_eager_fold)

lemma flag_eager_transact [flag]: "flag_kept (eager_transact X f)"
  unfolding eager_transact_def
  by (intro flag_call) (simp add: take_staged_def flag_write_set_then split: prod.split sum.split)

lemma flag_eager_flush [flag]: "flag_kept (eager_flush X)"
  by (simp add: leaves_def eager_flush_def case_prod_unfold flag_app [OF flag_flush_backend] flag_app [OF flag_resident_flush])

end
