(* ===== verification/Lazy_Runs.thy ===== *)
theory Lazy_Runs
  imports Lazy_Properties Closed_Flag
begin

text \<open>
  A lazy locker as a state machine: one step is one call of its map interface, whatever its outcome, or a
  close that returns. The invariant holds in every state such calls can reach until the locker is closed, a
  closed one holds nothing more, and no call changes what another locker stores. Three limits: a value
  encodes to at most \<open>MAX_DECODED_BYTES\<close>, a sweep runs while nothing is staged (see \<open>evict_staged\<close>), and
  the streams, which write behind the staged batch, are not steps (see \<open>Stream_Properties\<close>).
\<close>

inductive lazy_step :: "('b, 'q) ctx \<Rightarrow> 't serde \<Rightarrow> ('b, 'q, 'z) resident_scheme \<Rightarrow> ('b, 'q, 'z) resident_scheme \<Rightarrow> bool"
  for X sd where
  step_put: "sd_to_vec sd v = Inr payload \<Longrightarrow> length payload \<le> MAX_DECODED_BYTES \<Longrightarrow> lazy_put_by X sd key v s = (r, s') \<Longrightarrow> lazy_step X sd s s'"
| step_delete: "lazy_delete_by X key s = (r, s') \<Longrightarrow> lazy_step X sd s s'"
| step_clear: "lazy_clear X s = (r, s') \<Longrightarrow> lazy_step X sd s s'"
| step_transact: "f (sh_store s) [] = (out, entries) \<Longrightarrow> \<forall>e\<in>set entries. pending_fits (pending_of_staged e)
    \<Longrightarrow> lazy_transact X (f :: ('b, 't) closure) s = (r, s') \<Longrightarrow> lazy_step X sd s s'"
| step_flush: "lazy_flush X s = (r, s') \<Longrightarrow> lazy_step X sd s s'"
| step_get: "lazy_get_by X sd key s = (r, s') \<Longrightarrow> lazy_step X sd s s'"
| step_evict: "rs_staged s = [] \<Longrightarrow> lazy_evict_to X n s = (r, s') \<Longrightarrow> lazy_step X sd s s'"
| step_close: "lazy_close X s = (Inr (), s') \<Longrightarrow> lazy_step X sd s s'"

text \<open>What every step keeps.\<close>

definition lazy_shut :: "('b, 'q, 'z) resident_scheme \<Rightarrow> bool" where
  "lazy_shut s \<longleftrightarrow> in_closed s \<and> rs_staged s = [] \<and> rs_index s = Some bt_empty"

definition others_kept :: "('b, 'q) ctx \<Rightarrow> tables \<Rightarrow> tables \<Rightarrow> bool" where
  "others_kept X t t' \<longleftrightarrow> (no_orphans t \<longrightarrow> no_orphans t') \<and> (\<forall>ch l k. l \<noteq> cx_id X \<longrightarrow> payload_view ch l t' k = payload_view ch l t k)"

definition keeps_order :: "('b, 'q) ctx \<Rightarrow> tables \<Rightarrow> tables \<Rightarrow> ('b, 'q, 'z) resident_scheme \<Rightarrow> bool" where
  "keeps_order X t t' s' \<longleftrightarrow> (if in_closed s' then lazy_shut s' else lazy_ok X t' s') \<and> others_kept X t t'"

lemma others_kept_refl [simp]: "others_kept X t t"
  by (simp add: others_kept_def)

lemma others_kept_trans: "others_kept X t u \<Longrightarrow> others_kept X u v \<Longrightarrow> others_kept X t v"
  by (simp add: others_kept_def)

lemma keeps_order_effect: "effect X t s t' s' kept g \<Longrightarrow> lazy_ok X t' s' \<and> others_kept X t t'"
  by (simp add: effect_def others_kept_def)

lemma closed_refuses:
  assumes "in_closed s"
  shows "lazy_put_by X sd key v s = (Inl Closed, s)" "lazy_delete_by X key s = (Inl Closed, s)" "lazy_clear X s = (Inl Closed, s)"
    "lazy_transact X f s = (Inl Closed, s)" "lazy_get_by X sd key s = (Inl Closed, s)" "lazy_evict_to X n s = (Inl Closed, s)"
  using assms
  by (simp_all add: lazy_put_by_def lazy_delete_by_def lazy_clear_def lazy_transact_def lazy_get_by_def lazy_evict_to_def
      ensure_open_def sbind_def)

context backend_contract
begin

lemma flush_backend_unharmed:
  assumes "flush_backend X s = (r, s')" "cx_backend X = B"
  shows "unharmed s s'"
proof (cases "is_eventual (cx_config X)")
  case True
  then obtain b where b: "bk_flush B (sh_store s) = (r, b)" "s' = s\<lparr>sh_store := b\<rparr>"
    using assms by (auto simp: flush_backend_def on_store_def split: prod.splits)
  show ?thesis
    unfolding unharmed_def
    by (rule exI [of _ b], rule exI [of _ "sh_values s"], rule exI [of _ "sh_ticks s"], rule exI [of _ "rs_lru s"])
      (use b flush_spec [OF b(1)] in simp)
qed (use assms in \<open>simp add: flush_backend_def\<close>)

lemma resident_flush_keeps:
  fixes X :: "('b, 'q) ctx" and s :: "('b, 'q, 'z) resident_scheme"
  assumes "resident_flush X s = (r, u)" "cx_backend X = B" "sound_chain (cx_chain X)" "lazy_ok X (tabs (sh_store s)) s"
  shows "lazy_ok X (tabs (sh_store u)) u \<and> others_kept X (tabs (sh_store s)) (tabs (sh_store u))"
proof (cases "pending_len s = 0")
  case True
  then show ?thesis using assms(1,4) by (simp add: resident_flush_def)
next
  case False
  then have "flush_locked X s = (r, u)" using assms(1) by (simp add: resident_flush_def)
  from keeps_order_effect [OF flush_effect [OF this assms(2-4)]] show ?thesis .
qed

lemma lazy_flush_keeps:
  fixes X :: "('b, 'q) ctx" and s :: "('b, 'q, 'z) resident_scheme"
  assumes "lazy_flush X s = (r, s')" "cx_backend X = B" "sound_chain (cx_chain X)" "lazy_ok X (tabs (sh_store s)) s"
  shows "lazy_ok X (tabs (sh_store s')) s' \<and> others_kept X (tabs (sh_store s)) (tabs (sh_store s'))"
proof -
  obtain r1 u r2 where f: "resident_flush X s = (r1, u)" and b: "flush_backend X u = (r2, s')"
    using assms(1) by (auto simp: lazy_flush_def split: prod.splits)
  note h = flush_backend_unharmed [OF b assms(2)]
  show ?thesis
    using resident_flush_keeps [OF f assms(2-4)] lazy_ok_unharmed [OF h] unharmed_fields(1) [OF h] by simp
qed

lemma lazy_close_keeps:
  fixes X :: "('b, 'q) ctx" and s :: "('b, 'q, 'z) resident_scheme"
  assumes "lazy_close X s = (Inr (), s')" "cx_backend X = B" "sound_chain (cx_chain X)" "lazy_ok X (tabs (sh_store s)) s"
  shows "lazy_shut s' \<and> others_kept X (tabs (sh_store s)) (tabs (sh_store s'))"
proof -
  obtain u r2 w where f: "resident_flush X s = (Inr (), u)" and b: "flush_backend X (discard_staged u) = (r2, w)"
    and s': "s' = forget_inline (touch_index (\<lambda>_. bt_empty) (snd (mark_closed w)))"
    using assms(1) by (auto simp: lazy_close_def result_and_def Let_def split: prod.splits sum.splits)
  note k = resident_flush_keeps [OF f assms(2-4)]
  note h = unharmed_fields [OF flush_backend_unharmed [OF b assms(2)]]
  obtain i where "rs_index u = Some i" using k by (auto simp: lazy_ok_def index_exact_def)
  then have "rs_index w = Some i" "rs_staged w = []" using h by (simp_all add: discard_staged_def)
  then show ?thesis
    using k h(1) by (simp add: s' lazy_shut_def mark_closed_def touch_index_def forget_inline_def discard_staged_def)
qed

lemma shut_stays:
  fixes X :: "('b, 'q) ctx" and s :: "('b, 'q, 'z) resident_scheme"
  assumes "lazy_step X sd s s'" "cx_backend X = B" "lazy_shut s"
  shows "lazy_shut s' \<and> tabs (sh_store s') = tabs (sh_store s)"
proof -
  have c: "in_closed s" "pending_len s = 0" "discard_staged s = s" using assms(3) by (simp_all add: lazy_shut_def pending_len_def discard_staged_def)
  from assms(1) have "s' = s \<or> (\<exists>r. lazy_flush X s = (r, s')) \<or> lazy_close X s = (Inr (), s')"
    by cases (auto simp: closed_refuses [OF c(1)])
  then have "s' = s \<or> (\<exists>r w. flush_backend X s = (r, w) \<and> (s' = w \<or> s' = forget_inline (touch_index (\<lambda>_. bt_empty) (snd (mark_closed w)))))"
    using c by (auto simp: lazy_flush_def lazy_close_def resident_flush_def Let_def split: prod.splits)
  then obtain w where w: "unharmed s w" "s' = w \<or> s' = forget_inline (touch_index (\<lambda>_. bt_empty) (snd (mark_closed w)))"
    using flush_backend_unharmed assms(2) unharmed_refl by blast
  show ?thesis
    using unharmed_fields [OF w(1)] w(2) assms(3) by (auto simp: lazy_shut_def mark_closed_def touch_index_def forget_inline_def)
qed

lemma lazy_get_keeps:
  fixes X :: "('b, 'q) ctx" and s :: "('b, 'q, 'z) resident_scheme"
  assumes "lazy_get_by X sd key s = (r, s')" "lazy_ok X (tabs (sh_store s)) s"
  shows "lazy_ok X (tabs (sh_store s')) s' \<and> others_kept X (tabs (sh_store s)) (tabs (sh_store s'))"
proof -
  have "\<exists>u. same_core s u \<and> (s' = u \<or> s' = note_corrupt key u)"
  proof -
    obtain out v where n: "note_read X key s = (out, v)" by fastforce
    have "same_core s v" using core_only_app [OF core_only_note_read, of s X key] n by simp
    moreover have "s' \<in> {s, v, note_corrupt key s}"
      using assms(1) n
      by (auto simp: lazy_get_by_def ensure_open_def sbind_def load_and_note_def slift_def sread_def
          split: if_splits option.splits sum.splits prod.splits)
    ultimately show ?thesis using same_core_refl by blast
  qed
  then obtain u where u: "same_core s u" "s' = u \<or> s' = note_corrupt key u" by blast
  have ok: "lazy_ok X (tabs (sh_store u)) u" by (rule lazy_ok_unharmed [OF unharmed_core [OF u(1)] assms(2)])
  have "lazy_ok X (tabs (sh_store u)) s'"
    using ok u(2) by (auto simp: lazy_ok_def note_corrupt_def)
  moreover have "sh_store s' = sh_store s" using u same_core_fields(1) [OF u(1)] by (auto simp: note_corrupt_def)
  ultimately show ?thesis using same_core_fields(1) [OF u(1)] by simp
qed

lemma lazy_step_ok:
  fixes X :: "('b, 'q) ctx" and s :: "('b, 'q, 'z) resident_scheme"
  assumes "lazy_step X sd s s'" "cx_backend X = B" "sound_chain (cx_chain X)" "lazy_ok X (tabs (sh_store s)) s" "\<not> in_closed s"
  shows "lazy_close X s = (Inr (), s') \<or> lazy_ok X (tabs (sh_store s')) s' \<and> others_kept X (tabs (sh_store s)) (tabs (sh_store s'))"
  using assms(1)
proof cases
  case step_put
  from keeps_order_effect [OF lazy_put_effect [OF assms(2-5) step_put]] show ?thesis by blast
next
  case step_delete
  from keeps_order_effect [OF lazy_delete_effect [OF assms(2-5) step_delete]] show ?thesis by blast
next
  case step_clear
  from keeps_order_effect [OF lazy_clear_effect [OF assms(2-5) step_clear]] show ?thesis by blast
next
  case step_transact
  from keeps_order_effect [OF conjunct1 [OF transact_effect [OF assms(2-5) step_transact]]] show ?thesis by blast
next
  case step_flush
  from lazy_flush_keeps [OF step_flush assms(2-4)] show ?thesis by blast
next
  case step_get
  from lazy_get_keeps [OF step_get assms(4)] show ?thesis by blast
next
  case (step_evict n r)
  then have "evict_to X n s = (r, s')" using assms(5) by (simp add: lazy_evict_to_def ensure_open_def sbind_def)
  from keeps_order_effect [OF evict_effect [OF assms(2,4) step_evict(1) this]] show ?thesis by blast
qed blast

lemma lazy_step_flag: "lazy_step X sd s s' \<Longrightarrow> lazy_close X s = (Inr (), s') \<or> in_closed s' = in_closed s"
  by (induction rule: lazy_step.induct) (auto dest: flag_keptD [rotated] intro: flag)

lemma lazy_step_keeps:
  fixes X :: "('b, 'q) ctx" and s :: "('b, 'q, 'z) resident_scheme"
  assumes "lazy_step X sd s s'" "cx_backend X = B" "sound_chain (cx_chain X)" "lazy_ok X (tabs (sh_store s)) s" "\<not> in_closed s"
  shows "keeps_order X (tabs (sh_store s)) (tabs (sh_store s')) s'"
proof (cases "lazy_close X s = (Inr (), s')")
  case True
  then show ?thesis using lazy_close_keeps [OF _ assms(2-4)] by (simp add: keeps_order_def lazy_shut_def)
next
  case False
  then show ?thesis using lazy_step_ok [OF assms] lazy_step_flag [OF assms(1)] assms(5) by (simp add: keeps_order_def)
qed

lemma lazy_run_keeps:
  fixes X :: "('b, 'q) ctx" and s :: "('b, 'q, 'z) resident_scheme"
  assumes "(lazy_step X sd)\<^sup>*\<^sup>* s s'" "cx_backend X = B" "sound_chain (cx_chain X)" "lazy_ok X (tabs (sh_store s)) s" "\<not> in_closed s"
  shows "keeps_order X (tabs (sh_store s)) (tabs (sh_store s')) s'"
  using assms(1)
proof (induction rule: rtranclp_induct)
  case base
  show ?case using assms(4,5) by (simp add: keeps_order_def)
next
  case (step u v)
  show ?case
  proof (cases "in_closed u")
    case False
    then have "lazy_ok X (tabs (sh_store u)) u" using step.IH by (simp add: keeps_order_def)
    from lazy_step_keeps [OF step.hyps(2) assms(2,3) this False] step.IH show ?thesis
      using others_kept_trans unfolding keeps_order_def by blast
  next
    case True
    then have "lazy_shut u" using step.IH by (simp add: keeps_order_def)
    from shut_stays [OF step.hyps(2) assms(2) this] step.IH show ?thesis by (simp add: keeps_order_def lazy_shut_def)
  qed
qed

end

text \<open>
  C5: from the opening of a lazy locker on, over storage whose value ids are in order, in every state that
  puts (of values encoding to at most 256 MiB), deletes, clears, transactions, gets, flushes, sweeps with
  nothing staged, and closes that return can reach, in any number and order and with any outcomes of the
  storage: unless the locker is closed, its index holds exactly the keys of its map, value ids are owned by one key
  each and below the stored counter, and the inline markers are true; once closed it holds no key and no staged
  write; and nothing of any other locker has changed, nor has a chunk lost its owner. (Streams, larger values and
  the news of other tabs are not among the calls.)
\<close>

theorem lazy_runs_keep_order:
  assumes "backend_contract (cx_backend X) tabs" "sound_chain (cx_chain X)" "vals_ok (sh_values sh) (tabs (sh_store sh))"
    and "lazy_open X sh = (Inr s, sh')" "(lazy_step X sd)\<^sup>*\<^sup>* s s'"
  shows "(if in_closed s' then rs_staged s' = [] \<and> rs_index s' = Some bt_empty else lazy_ok X (tabs (sh_store s')) s')
    \<and> (no_orphans (tabs (sh_store sh)) \<longrightarrow> no_orphans (tabs (sh_store s')))
    \<and> (\<forall>ch l k. l \<noteq> cx_id X \<longrightarrow> payload_view ch l (tabs (sh_store s')) k = payload_view ch l (tabs (sh_store sh)) k)"
proof -
  have s: "lazy_ok X (tabs (sh_store s)) s" "sh_store s = sh_store sh"
    using backend_contract.lazy_open_ok [OF assms(1,4) refl assms(3)] by simp_all
  then show ?thesis
    using backend_contract.lazy_run_keeps [OF assms(1,5) refl assms(2)] lazy_opens_open [OF assms(4)]
    by (auto simp: keeps_order_def others_kept_def lazy_shut_def)
qed

theorem lazy_runs_keep_order_witness:
  "case lazy_put_by sample_deferred_ctx sample_sd [9] [4] sample_state of (r, s1) \<Rightarrow>
   case lazy_flush sample_deferred_ctx s1 of (r', s2) \<Rightarrow>
     if in_closed s2 then rs_staged s2 = [] \<and> rs_index s2 = Some bt_empty else lazy_ok sample_deferred_ctx (mb_tables (sh_store s2)) s2"
proof -
  obtain r s1 where 1: "lazy_put_by sample_deferred_ctx sample_sd [9] [4] sample_state = (r, s1)" by fastforce
  obtain r' s2 where 2: "lazy_flush sample_deferred_ctx s1 = (r', s2)" by fastforce
  have "lazy_step sample_deferred_ctx sample_sd sample_state s1"
    by (rule step_put [OF _ _ 1, where payload = "[4]"]) (simp_all add: MAX_DECODED_BYTES_def)
  moreover have "lazy_step sample_deferred_ctx sample_sd s1 s2" by (rule step_flush [OF 2])
  ultimately have steps: "(lazy_step sample_deferred_ctx sample_sd)\<^sup>*\<^sup>* sample_state s2"
    by (rule converse_rtranclp_into_rtranclp [OF _ r_into_rtranclp])
  show ?thesis
    using lazy_runs_keep_order [OF _ _ _ sample_opened steps, of mb_tables] mem.backend_contract_axioms 1 2
    by (simp add: sample_shared_def)
qed

section \<open>A sweep while writes are staged\<close>

text \<open>
  \<open>evict_to\<close> plans its victims from the accounting alone. A victim with a staged put leaves the index
  although the locker still holds it: a get returns it, the flush will store it, and \<open>contains_key\<close>
  denies it.
\<close>

theorem evict_staged:
  fixes X :: "('b, 'q) ctx" and s :: "('b, 'q, 'z) resident_scheme"
  assumes "backend_contract (cx_backend X) tabs" "rs_lru s = Some l"
    and "key \<in> set (pl_victims (lru_plan l [] [] False n []))" "staged_view (rs_staged s) key = Some (Some p)"
    and "evict_to X n s = (Inr m, s')"
  shows "view_of X t s' key = Some (postcard p) \<and> \<not> lazy_contains_key_by s' key"
proof -
  let ?p = "lru_plan l [] [] False n []"
  have ne: "pl_victims ?p \<noteq> []" using assms(3) by auto
  obtain ops u w where com: "inner_commit X ops s = (Inr u, w)" and s': "s' = apply_budget X (budget_default\<lparr>bg_plan := ?p\<rparr>) w"
    using assms(2,5) ne by (auto simp: evict_to_def Let_def sbind_eq_Inr_iff)
  note ic = backend_contract.inner_commit_Inr [OF assms(1) com refl]
  have "rs_staged s' = rs_staged s" using ic(3) by (simp add: s' apply_budget_fields)
  moreover have "rs_index s' = map_option (fold bt_remove (pl_victims ?p)) (rs_index s)"
    using ic(4) by (simp add: s' apply_budget_fields)
  ultimately show ?thesis
    using assms(3,4) by (cases "rs_index s") (simp_all add: locker_view_def lazy_contains_key_by_def read_index_def)
qed

section \<open>What lets a write skip the old record\<close>




end
