(* ===== verification/Eager_Refinement.thy ===== *)
theory Eager_Refinement
  imports Eager_Commits Lazy_Transactions
begin

text \<open>
  The operations of an eager locker against the specification of \<open>Eager_Commits\<close>: put, delete, clear,
  flush and transact change the map as their names say and keep the resident values in agreement with it,
  whether they commit at once or stage, and whatever the storage answers.
\<close>

section \<open>Flushing\<close>

lemma commit_batch_eager:
  fixes s :: "('b, 'q, 't) eager"
  assumes "rs_lru s = None"
  shows "commit_batch X TxEager back batch s =
    (case ops_for_pending X batch TxEager s of
       (Inl e, u) \<Rightarrow> (Inl e, restage back u)
     | (Inr ops, u) \<Rightarrow> (case inner_commit X ops u of
          (Inl e, w) \<Rightarrow> (Inl e, restage back w) | (Inr _, w) \<Rightarrow> (Inr budget_default, w)))"
proof -
  obtain us rs cl where a: "accounting batch = (us, rs, cl)" by (cases "accounting batch")
  obtain r u where o: "ops_for_pending X batch TxEager s = (r, u)" by fastforce
  then have "u = s" using eager_ops_state [of X batch s] by simp
  with assms o show ?thesis
    by (cases r) (simp_all add: commit_batch_def a or_restage_def sbind_def budget_ops_def split: prod.split sum.split)
qed

lemma apply_no_budget:
  fixes s :: "('b, 'q, 't) eager"
  shows "rs_lru s = None \<Longrightarrow> apply_budget X budget_default s = s"
  by (simp add: apply_budget_def budget_default_def on_lru_def)

lemma batch_writes_own: "l \<noteq> i \<Longrightarrow> batch_writes i st (encode_bytes l k) = None"
  by (cases "decode_bytes i (encode_bytes l k)") (auto simp: batch_writes_def decode_bytes_Inr_iff)

context backend_contract
begin

lemma eager_flush_effect:
  fixes s :: "('b, 'q, 't) eager"
  assumes f: "flush_locked X s = (r, s')" and B: "cx_backend X = B" and chain: "sound_chain (cx_chain X)"
    and ok: "eager_ok X sd (tabs (sh_store s)) s"
  shows "eager_effect X sd (tabs (sh_store s)) s (tabs (sh_store s')) s' (\<lambda>f. f)
    \<and> rs_staged s' = (if r = Inr () then [] else rs_staged s)"
proof (cases "rs_staged s = []")
  case True
  then have "s\<lparr>rs_staged := []\<rparr> = s" using restage_nothing [of s] by simp
  moreover have "s' = s\<lparr>rs_staged := []\<rparr>" using f True by (auto simp: flush_locked_def take_staged_def)
  ultimately have "s' = s" by (rule trans [rotated])
  then show ?thesis using True eager_effect_refl [OF ok] by simp
next
  case False
  let ?st = "rs_staged s" and ?s = "s\<lparr>rs_staged := []\<rparr>"
  have s: "rs_lru ?s = None" "rs_mode s = TxEager" "vals_ok (sh_values ?s) (tabs (sh_store ?s))"
    "inline_only X (tabs (sh_store ?s))" "\<forall>e\<in>set ?st. pending_fits e"
    "values_agree sd (view_of X (tabs (sh_store s)) s) s"
    using ok by (simp_all add: eager_ok_def)
  have run: "sbind (commit_batch X TxEager ?st ?st) (\<lambda>bg. smod (apply_budget X bg)) ?s = (r, s')"
    using f False s(2) by (simp add: flush_locked_def take_staged_def)
  obtain q u where o: "ops_for_pending X ?st TxEager ?s = (q, u)" by fastforce
  then have u: "u = ?s" using eager_ops_state [of X ?st ?s] by simp
  show ?thesis
  proof (cases q)
    case (Inl e)
    then have "r = Inl e \<and> s' = restage ?st ?s" using run o u by (simp add: commit_batch_eager [OF s(1)] sbind_def)
    then show ?thesis using eager_effect_refl [OF ok] by (simp add: restage_def)
  next
    case (Inr ops)
    obtain c w where com: "inner_commit X ops ?s = (c, w)" by fastforce
    show ?thesis
    proof (cases c)
      case Inl': (Inl e)
      have fails: "tabs (sh_store w) = tabs (sh_store s)" "commit_fields ?s w"
        using inner_commit_failed [OF com [unfolded Inl'] B] by simp_all
      have r: "r = Inl e" "s' = restage ?st w"
        using run o u Inr com Inl' by (simp_all add: commit_batch_eager [OF s(1)] sbind_def)
      obtain b ep co where "w = ?s\<lparr>sh_store := b, in_epochs := ep, sh_coherence := co\<rparr>"
        using fails(2) unfolding commit_fields_def by blast
      then have "s' = s\<lparr>sh_store := b, in_epochs := ep, sh_coherence := co\<rparr>" "tabs b = tabs (sh_store s)"
        using r fails(1) by (simp_all add: restage_def)
      then have "commit_fields s s'" "tabs (sh_store s') = tabs (sh_store s)"
        unfolding commit_fields_def by auto
      from eager_effect_failed [OF this ok] commit_fields_same(2) [OF this(1)] show ?thesis using r by simp
    next
      case Inr': (Inr x)
      note bc = eager_batch_commit [OF o [unfolded Inr] com [unfolded Inr' u [symmetric]] B s(3,4) chain s(5)]
      have "rs_lru w = None" using commit_fields_same(4) [OF bc(4)] s(1) by simp
      then have r: "r = Inr ()" "s' = w"
        using run o u Inr com Inr' by (simp_all add: commit_batch_eager [OF s(1)] sbind_def apply_no_budget)
      have "eager_effect X sd (tabs (sh_store s)) s (tabs (sh_store w)) w (\<lambda>f. f)"
      proof (rule eager_effect_commit [where W = "batch_writes (cx_id X) ?st"])
        show "becomes (cx_chain X) (tabs (sh_store s)) (tabs (sh_store w)) (batch_writes (cx_id X) ?st)" using bc(1) by simp
        show "values_agree sd (view_of X (tabs (sh_store s)) s) w"
          unfolding agree_commit_fields [OF bc(4)]
          using s(6) by simp
      qed (use bc(2,3) commit_fields_same [OF bc(4)] s(1,2) batch_writes_own in
          \<open>simp_all add: locker_view_eq encode_key_eq\<close>)
      then show ?thesis using r commit_fields_same(2) [OF bc(4)] by simp
    qed
  qed
qed

lemma eager_flush_if_effect:
  fixes s :: "('b, 'q, 't) eager"
  assumes "eager_effect X sd (tabs (sh_store s)) s (tabs (sh_store s)) s1 g" "sh_store s1 = sh_store s"
    and "flush_if X full s1 = (r, s')" "cx_backend X = B" "sound_chain (cx_chain X)"
  shows "eager_effect X sd (tabs (sh_store s)) s (tabs (sh_store s')) s' g"
proof (cases full)
  case True
  have ok: "eager_ok X sd (tabs (sh_store s1)) s1" using assms(1,2) by (simp add: eager_effect_def)
  have "eager_effect X sd (tabs (sh_store s1)) s1 (tabs (sh_store s')) s' (\<lambda>f. f)"
    using eager_flush_effect [OF _ assms(4,5) ok] assms(3) True by (simp add: flush_if_def)
  then show ?thesis using eager_effect_then [OF assms(1)] assms(2) by simp
next
  case False
  then have "s' = s1" using assms(3) by (simp add: flush_if_def)
  then show ?thesis using assms(1,2) by simp
qed

end

section \<open>Put, delete, clear\<close>

definition eager_accepts :: "('b, 'q) ctx \<Rightarrow> 't serde \<Rightarrow> 't \<Rightarrow> bool" where
  "eager_accepts X sd v \<longleftrightarrow> (\<exists>sealed. inner_seal X sd v = Inr sealed \<and> length sealed \<le> lc_max_inline (cx_config X))"

context backend_contract
begin

text \<open>One operation on one key or on the whole locker, committed on its own.\<close>

lemma eager_direct_effect:
  fixes s :: "('b, 'q, 't) eager"
  assumes com: "inner_commit X [op] s = (Inr x, w)" and B: "cx_backend X = B"
    and ok: "eager_ok X sd (tabs (sh_store s)) s" "\<not> is_deferred X"
    and b: "becomes (cx_chain X) (tabs (sh_store s)) (apply_ops (tabs (sh_store s)) [op]) W"
      "stored_counter (apply_ops (tabs (sh_store s)) [op]) = stored_counter (tabs (sh_store s))"
    and own: "\<And>l k. l \<noteq> cx_id X \<Longrightarrow> W (encode_bytes l k) = None" and op: "\<not> stores_pointer op"
    and s': "sh_store s' = sh_store w" "sh_values s' = sh_values w" "rs_staged s' = rs_staged w" "rs_mode s' = rs_mode w"
      "rs_lru s' = rs_lru w"
    and g: "\<And>f. g f = write_over (\<lambda>k. W (encode_key X k)) f"
    and agree: "\<And>f. values_agree sd f w \<Longrightarrow> values_agree sd (g f) s'"
  shows "eager_effect X sd (tabs (sh_store s)) s (tabs (sh_store s')) s' g"
proof -
  have c: "commit_fields s w" using inner_commit_fields [of s X "[op]"] com by simp
  have t: "tabs (sh_store w) = apply_ops (tabs (sh_store s)) [op]" using inner_commit_Inr(1) [OF com B] .
  show ?thesis
  proof (rule eager_effect_commit [where W = W])
    show "inline_only X (tabs (sh_store s'))"
      unfolding s' t by (rule inline_only_ops) (use ok op in \<open>simp_all add: eager_ok_def\<close>)
    show "values_agree sd (g (view_of X (tabs (sh_store s)) s)) s'"
      by (rule agree, unfold agree_commit_fields [OF c]) (use ok(1) in \<open>simp only: eager_ok_def\<close>)
    show "g (view_of X (tabs (sh_store s)) s) = write_over (\<lambda>k. W (encode_key X k)) (payload_view (cx_chain X) (cx_id X) (tabs (sh_store s)))"
      using ok by (simp add: g eager_ok_def locker_view_Nil)
    show "cursor_above (sh_values s') (stored_counter (tabs (sh_store s')))"
      unfolding s' t b(2) commit_fields_same [OF c] using ok(1) by (simp add: eager_ok_def vals_ok_def)
  qed (use b own ok s' t commit_fields_same [OF c] in \<open>auto simp: eager_ok_def\<close>)
qed

lemma eager_single_becomes:
  assumes ok: "vals_ok nxt t" "record_pointers t x = []"
  shows "seal ch p = Inr sealed \<Longrightarrow> sound_chain ch \<Longrightarrow> length p \<le> MAX_DECODED_BYTES \<Longrightarrow>
      becomes ch t (apply_ops t [Op_Put Records x sealed]) [x \<mapsto> Some p]"
    and "becomes ch t (apply_ops t [Op_Delete Records x]) [x \<mapsto> None]"
  using eager_put_becomes [of "[Op_Put Records x sealed]" t x sealed ch p, OF _ _ _ _ ok(1) batch_inv_start [OF ok(1)] UNIV_I]
    delete_becomes [of "[Op_Delete Records x]" Prior_Unknown t x, OF _ ok(1) batch_inv_start [OF ok(1)] UNIV_I] ok(2)
  by (simp_all add: needs_read_def prior_true_def)

lemma eager_put_effect:
  fixes s :: "('b, 'q, 't) eager"
  assumes B: "cx_backend X = B" and chain: "sound_chain (cx_chain X)" and ok: "eager_ok X sd (tabs (sh_store s)) s" "\<not> in_closed s"
    and sd: "sd_to_vec sd v = Inr payload" "sd_from_bytes sd payload = Inr v" "length payload \<le> MAX_DECODED_BYTES"
    and run: "eager_put_by X sd key v s = (r, s')"
  shows "eager_effect X sd (tabs (sh_store s)) s (tabs (sh_store s')) s'
      (if r = Inr v \<or> is_deferred X \<and> eager_accepts X sd v then (\<lambda>f. f(key \<mapsto> postcard payload)) else (\<lambda>f. f))"
proof -
  have dec: "decode_payload sd payload = Inr v" by (simp add: decode_payload_def sd)
  have seal: "inner_seal X sd v = seal (cx_chain X) payload" by (simp add: inner_seal_def value_encode_def sd)
  show ?thesis
  proof (cases "eager_accepts X sd v")
    case False
    then have "s' = s" "r \<noteq> Inr v"
      using run ok(2) by (auto simp: eager_put_by_def ensure_open_def eager_accepts_def sbind_def split: sum.splits if_splits)
    then show ?thesis using eager_effect_refl [OF ok(1)] False by simp
  next
    case True
    then obtain sealed where sealed: "seal (cx_chain X) payload = Inr sealed" "length sealed \<le> lc_max_inline (cx_config X)"
      by (auto simp: eager_accepts_def seal)
    show ?thesis
    proof (cases "is_deferred X")
      case True
      obtain full s0 where st: "stage X (Pend_Put key payload) s = (full, s0)" by fastforce
      then have s0: "s0 = s\<lparr>rs_staged := rs_staged s @ [Pend_Put key payload]\<rparr>" by (auto simp: stage_def Let_def)
      let ?s1 = "announce X (Ev_Put key) (forget_dropped key (eg_insert key v s0))"
      obtain q where fl: "flush_if X full ?s1 = (q, s')"
        using run ok(2) sealed True st by (auto simp: eager_put_by_def ensure_open_def sbind_def seal sd split: prod.splits sum.splits)
      have agree: "values_agree sd (view_of X (tabs (sh_store s)) s) s0"
        using ok(1) by (simp add: eager_ok_def s0)
      have "eager_effect X sd (tabs (sh_store s)) s (tabs (sh_store s)) ?s1 (write_over (staged_view [Pend_Put key payload]))"
        by (rule eager_effect_stage [OF ok(1) True]) (use sd(3) agree_put [OF agree dec] in \<open>simp_all add: s0 write_over_single\<close>)
      then have "eager_effect X sd (tabs (sh_store s)) s (tabs (sh_store s')) s' (\<lambda>f. f(key \<mapsto> postcard payload))"
        unfolding write_over_single by (rule eager_flush_if_effect [OF _ _ fl B chain]) (simp add: s0)
      then show ?thesis using True \<open>eager_accepts X sd v\<close> by simp
    next
      case False
      let ?op = "Op_Put Records (encode_key X key) sealed"
      obtain c w where com: "inner_commit X [?op] s = (c, w)" by fastforce
      show ?thesis
      proof (cases c)
        case (Inl e)
        then have "r = Inl e" "s' = w" using run ok(2) sealed False com by (auto simp: eager_put_by_def ensure_open_def sbind_def seal)
        then show ?thesis
          using eager_effect_failed [OF inner_commit_failed(2,1) [OF com [unfolded Inl] B] ok(1)] False by simp
      next
        case (Inr x)
        let ?s' = "announce X (Ev_Put key) (forget_dropped key (eg_insert key v w))"
        have r: "r = Inr v" "s' = ?s'" using run ok(2) sealed False com Inr by (auto simp: eager_put_by_def ensure_open_def sbind_def seal)
        have o: "vals_ok (sh_values s) (tabs (sh_store s))" "record_pointers (tabs (sh_store s)) (encode_key X key) = []"
          using ok(1) by (simp_all add: eager_ok_def inline_only_def)
        have "eager_effect X sd (tabs (sh_store s)) s (tabs (sh_store ?s')) ?s' (\<lambda>f. f(key \<mapsto> postcard payload))"
        proof (rule eager_direct_effect [OF com [unfolded Inr] B ok(1) False
              eager_single_becomes(1) [OF o sealed(1) chain sd(3)]])
          show "stored_counter (apply_ops (tabs (sh_store s)) [?op]) = stored_counter (tabs (sh_store s))"
            by (rule stored_counter_silent) auto
          show "\<not> stores_pointer ?op" by (rule seal_stores_no_pointer [OF sealed(1)])
        qed (simp_all add: encode_key_eq agree_put [OF _ dec] fun_eq_iff write_over_def)
        then show ?thesis using r by simp
      qed
    qed
  qed
qed

lemma eager_delete_effect:
  fixes s :: "('b, 'q, 't) eager"
  assumes B: "cx_backend X = B" and chain: "sound_chain (cx_chain X)" and ok: "eager_ok X sd (tabs (sh_store s)) s" "\<not> in_closed s"
    and run: "eager_delete_by X key s = (r, s')"
  shows "eager_effect X sd (tabs (sh_store s)) s (tabs (sh_store s')) s'
      (if r = Inr () \<or> is_deferred X then (\<lambda>f. f(key := None)) else (\<lambda>f. f))"
proof -
  let ?held = "eager_holds s key"
  let ?tell = "\<lambda>s. if ?held then announce X (Ev_Deleted key) s else s"
  have agree: "values_agree sd (view_of X (tabs (sh_store s)) s) s" using ok(1) by (simp add: eager_ok_def)
  consider "\<not> ?held" "index_is_authoritative s" | "is_deferred X" "\<not> (\<not> ?held \<and> index_is_authoritative s)"
    | "\<not> is_deferred X" "\<not> (\<not> ?held \<and> index_is_authoritative s)" by blast
  then show ?thesis
  proof cases
    case 1
    then have "r = Inr ()" "s' = s" using run ok(2) by (simp_all add: eager_delete_by_def ensure_open_def sbind_def)
    moreover have "view_of X (tabs (sh_store s)) s key = None"
      using agree 1(1) by (auto simp: values_agree_def eager_holds_def bt_contains_def dest: spec [where x = key])
    ultimately show ?thesis using eager_effect_refl [OF ok(1)] by (simp add: eager_effect_def fun_upd_idem)
  next
    case 2
    obtain full s0 where st: "stage X (Pend_Delete key) s = (full, s0)" by fastforce
    then have s0: "s0 = s\<lparr>rs_staged := rs_staged s @ [Pend_Delete key]\<rparr>" by (auto simp: stage_def Let_def)
    let ?s1 = "?tell (forget_dropped key (eg_remove key s0))"
    have fl: "flush_if X full ?s1 = (r, s')"
      using run ok(2) 2 st by (auto simp: eager_delete_by_def ensure_open_def sbind_def Let_def)
    have "values_agree sd ((view_of X (tabs (sh_store s)) s)(key := None)) ?s1"
      using agree_delete [of sd _ s0 key] agree by (simp add: s0)
    then have "eager_effect X sd (tabs (sh_store s)) s (tabs (sh_store s)) ?s1 (write_over (staged_view [Pend_Delete key]))"
      by (intro eager_effect_stage [OF ok(1) 2(1)]) (simp_all add: s0 write_over_single)
    then have "eager_effect X sd (tabs (sh_store s)) s (tabs (sh_store s')) s' (\<lambda>f. f(key := None))"
      unfolding write_over_single by (rule eager_flush_if_effect [OF _ _ fl B chain]) (simp add: s0)
    then show ?thesis using 2 by simp
  next
    case 3
    obtain c w where com: "inner_commit X [delete_op X key] s = (c, w)" by fastforce
    show ?thesis
    proof (cases c)
      case (Inl e)
      then have "r = Inl e" "s' = w" using run ok(2) 3 com by (auto simp: eager_delete_by_def ensure_open_def sbind_def Let_def)
      then show ?thesis
        using eager_effect_failed [OF inner_commit_failed(2,1) [OF com [unfolded Inl] B] ok(1)] 3 by simp
    next
      case (Inr x)
      let ?s' = "?tell (forget_dropped key (eg_remove key w))"
      have r: "r = Inr ()" "s' = ?s'" using run ok(2) 3 com Inr by (auto simp: eager_delete_by_def ensure_open_def sbind_def Let_def)
      have o: "vals_ok (sh_values s) (tabs (sh_store s))" "record_pointers (tabs (sh_store s)) (encode_key X key) = []"
        using ok(1) by (simp_all add: eager_ok_def inline_only_def)
      have "eager_effect X sd (tabs (sh_store s)) s (tabs (sh_store ?s')) ?s' (\<lambda>f. f(key := None))"
      proof (rule eager_direct_effect [OF com [unfolded Inr] B ok(1) 3(1)
            eager_single_becomes(2) [OF o, folded delete_op_def]])
        show "stored_counter (apply_ops (tabs (sh_store s)) [delete_op X key]) = stored_counter (tabs (sh_store s))"
          by (rule stored_counter_silent) (auto simp: delete_op_def)
      qed (simp_all add: encode_key_eq agree_delete fun_eq_iff write_over_def)
      then show ?thesis using r by simp
    qed
  qed
qed

lemma eager_clear_effect:
  fixes s :: "('b, 'q, 't) eager"
  assumes B: "cx_backend X = B" and chain: "sound_chain (cx_chain X)" and ok: "eager_ok X sd (tabs (sh_store s)) s" "\<not> in_closed s"
    and run: "eager_clear X s = (r, s')"
  shows "eager_effect X sd (tabs (sh_store s)) s (tabs (sh_store s')) s'
      (if r = Inr () \<or> is_deferred X then (\<lambda>f. Map.empty) else (\<lambda>f. f))"
proof (cases "is_deferred X")
  case True
  obtain full s0 where st: "stage X Pend_Clear s = (full, s0)" by fastforce
  then have s0: "s0 = s\<lparr>rs_staged := rs_staged s @ [Pend_Clear]\<rparr>" by (auto simp: stage_def Let_def)
  let ?s1 = "announce X Ev_Cleared (forget_all_dropped (eg_clear s0))"
  have fl: "flush_if X full ?s1 = (r, s')"
    using run ok(2) True st by (auto simp: eager_clear_def ensure_open_def sbind_def)
  have "eager_effect X sd (tabs (sh_store s)) s (tabs (sh_store s)) ?s1 (write_over (staged_view [Pend_Clear]))"
    by (rule eager_effect_stage [OF ok(1) True]) (simp_all add: s0 write_over_single agree_clear)
  then have "eager_effect X sd (tabs (sh_store s)) s (tabs (sh_store s')) s' (\<lambda>f. Map.empty)"
    unfolding write_over_single by (rule eager_flush_if_effect [OF _ _ fl B chain]) (simp add: s0)
  then show ?thesis using True by simp
next
  case False
  obtain c w where com: "inner_commit X [clear_op X] s = (c, w)" by fastforce
  show ?thesis
  proof (cases c)
    case (Inl e)
    then have "r = Inl e" "s' = w" using run ok(2) False com by (auto simp: eager_clear_def ensure_open_def sbind_def)
    then show ?thesis
      using eager_effect_failed [OF inner_commit_failed(2,1) [OF com [unfolded Inl] B] ok(1)] False by simp
  next
    case (Inr x)
    let ?s' = "announce X Ev_Cleared (forget_all_dropped (eg_clear w))"
    have r: "r = Inr ()" "s' = ?s'" using run ok(2) False com Inr by (auto simp: eager_clear_def ensure_open_def sbind_def)
    have good: "owned (tabs (sh_store s))" "below (tabs (sh_store s)) (stored_counter (tabs (sh_store s)))"
      using ok(1) by (simp_all add: eager_ok_def vals_ok_def)
    have none: "i \<in> cp_value_id ` set ([] :: chunk_pointer list)"
      if y: "kr_contains (locker_range (cx_id X)) y" "points (tabs (sh_store s)) y i" for y i
    proof -
      obtain k where "y = encode_bytes (cx_id X) k" using y(1) by (auto simp: locker_range_contains)
      then show ?thesis using y(2) ok(1) by (simp add: points_iff eager_ok_def inline_only_def encode_key_eq)
    qed
    have bc: "becomes (cx_chain X) (tabs (sh_store s)) (apply_ops (tabs (sh_store s)) [clear_op X]) (clear_writes (cx_id X))"
      "stored_counter (apply_ops (tabs (sh_store s)) [clear_op X]) = stored_counter (tabs (sh_store s))"
      using becomes_cleared [OF good none] by (simp_all add: clear_op_def)
    have "eager_effect X sd (tabs (sh_store s)) s (tabs (sh_store ?s')) ?s' (\<lambda>f. Map.empty)"
    proof (rule eager_direct_effect [OF com [unfolded Inr] B ok(1) False bc])
      show "clear_writes (cx_id X) (encode_bytes l k) = None" if "l \<noteq> cx_id X" for l k
        using that by (simp add: clear_writes_def)
    qed (simp_all add: clear_op_def encode_key_eq agree_clear fun_eq_iff write_over_def clear_writes_def)
    then show ?thesis using r by simp
  qed
qed

section \<open>Transactions\<close>

end

text \<open>What the closure staged is what \<open>tx_put\<close> stages: the payload of each value, within bounds.\<close>

fun staged_sound :: "'t serde \<Rightarrow> 't staged \<Rightarrow> bool" where
  "staged_sound sd (Staged_Put key p v) \<longleftrightarrow> decode_payload sd p = Inr v \<and> length p \<le> MAX_DECODED_BYTES"
| "staged_sound sd e \<longleftrightarrow> True"

lemma write_over_append:
  "write_over (tx_staged_view (e # es)) f = write_over (tx_staged_view es) (write_over (tx_staged_view [e]) f)"
proof -
  have "tx_staged_view (e # es) k = (case tx_staged_view es k of Some w \<Rightarrow> Some w | None \<Rightarrow> tx_staged_view [e] k)" for k
    using staged_view_append [of "map pending_of_staged [e]" "map pending_of_staged es" k]
    unfolding tx_view_pending by simp
  then show ?thesis by (auto simp: fun_eq_iff write_over_def split: option.splits)
qed

lemma write_over_staged:
  "write_over (tx_staged_view [Staged_Put k p v]) f = f(k \<mapsto> postcard p)"
  "write_over (tx_staged_view [Staged_Delete k]) f = f(k := None)"
  "write_over (tx_staged_view [Staged_Clear]) f = Map.empty"
  using write_over_single by (simp_all add: tx_view_pending fun_eq_iff write_over_def)

lemma eager_fold_snd: "snd (eager_fold_all (e # es) s) = snd (eager_fold_all es (snd (eager_fold e s)))"
  by (simp add: case_prod_beta)

lemma agree_fold:
  assumes "values_agree sd f s" "\<forall>e\<in>set es. staged_sound sd e"
  shows "values_agree sd (write_over (tx_staged_view es) f) (snd (eager_fold_all es s))"
  using assms
proof (induction es arbitrary: f s)
  case Nil
  then show ?case by (simp add: write_over_def tx_view_snoc(1) [abs_def] tx_staged_view_def)
next
  case (Cons e es)
  have "values_agree sd (write_over (tx_staged_view [e]) f) (snd (eager_fold e s))"
    using Cons.prems by (cases e) (simp_all add: write_over_staged agree_insert agree_delete agree_clear)
  from Cons.IH [OF this] Cons.prems(2) show ?case
    unfolding write_over_append [of e es] eager_fold_snd by simp
qed

lemma eager_fold_fields:
  fixes s :: "('b, 'q, 't) eager"
  shows "sh_store (snd (eager_fold_all es s)) = sh_store s \<and> sh_values (snd (eager_fold_all es s)) = sh_values s
    \<and> rs_staged (snd (eager_fold_all es s)) = rs_staged s \<and> rs_mode (snd (eager_fold_all es s)) = rs_mode s
    \<and> rs_lru (snd (eager_fold_all es s)) = rs_lru s"
proof (induction es arbitrary: s)
  case (Cons e es)
  let ?u = "snd (eager_fold e s)"
  have "sh_store ?u = sh_store s \<and> sh_values ?u = sh_values s \<and> rs_staged ?u = rs_staged s \<and> rs_mode ?u = rs_mode s \<and> rs_lru ?u = rs_lru s"
    by (cases e) auto
  then show ?case unfolding eager_fold_snd using Cons.IH [of ?u] by simp
qed simp

lemma fold_eager_announce:
  fixes s :: "('b, 'q, 't) eager"
  shows "sh_store (fold (eager_announce X) es s) = sh_store s \<and> sh_values (fold (eager_announce X) es s) = sh_values s
    \<and> rs_staged (fold (eager_announce X) es s) = rs_staged s \<and> rs_mode (fold (eager_announce X) es s) = rs_mode s
    \<and> rs_lru (fold (eager_announce X) es s) = rs_lru s
    \<and> (values_agree sd f (fold (eager_announce X) es s) \<longleftrightarrow> values_agree sd f s)"
proof (induction es arbitrary: s)
  case (Cons e es)
  have "(\<exists>ev. eager_announce X e s = announce X ev s) \<or> eager_announce X e s = s"
    by (cases e; cases "fst e") auto
  then show ?case using Cons.IH [of "eager_announce X e s"] by auto
qed simp

context backend_contract
begin

lemma eager_transact_effect:
  fixes s :: "('b, 'q, 't) eager"
  assumes B: "cx_backend X = B" and chain: "sound_chain (cx_chain X)" and ok: "eager_ok X sd (tabs (sh_store s)) s" "\<not> in_closed s"
    and f: "f (sh_store s) [] = (out, entries)" "\<forall>e\<in>set entries. staged_sound sd e"
    and run: "eager_transact X f s = (r, s')"
  shows "eager_effect X sd (tabs (sh_store s)) s (tabs (sh_store s')) s'
      (if r = Inr () then write_over (tx_staged_view entries) else (\<lambda>f. f))
    \<and> (case out of Inl e \<Rightarrow> r = Inl e \<and> s' = s | Inr _ \<Rightarrow> True)"
proof (cases out)
  case (Inl e)
  then have "r = Inl e" "s' = s" using run f(1) ok(2) by (auto simp: eager_transact_def ensure_open_def sbind_def)
  then show ?thesis using eager_effect_refl [OF ok(1)] Inl by simp
next
  case (Inr y)
  show ?thesis
  proof (cases "entries = []")
    case True
    then have "r = Inr ()" "s' = s" using run f(1) ok(2) Inr by (auto simp: eager_transact_def ensure_open_def sbind_def)
    moreover have "write_over (tx_staged_view entries) = (\<lambda>f. f)" using True by (simp add: fun_eq_iff write_over_def tx_view_snoc)
    ultimately show ?thesis using eager_effect_refl [OF ok(1)] Inr by simp
  next
    case False
    let ?st = "rs_staged s" and ?s = "s\<lparr>rs_staged := []\<rparr>"
    let ?batch = "merge_batches ?st entries"
    let ?F = "\<lambda>s. case eager_fold_all entries s of (rs, s) \<Rightarrow> fold (eager_announce X) (zip entries rs) s"
    have s: "vals_ok (sh_values ?s) (tabs (sh_store ?s))" "inline_only X (tabs (sh_store ?s))"
      "values_agree sd (view_of X (tabs (sh_store s)) s) s" "rs_mode s = TxEager" "rs_lru s = None"
      using ok(1) by (simp_all add: eager_ok_def)
    have fits: "\<forall>e\<in>set ?batch. pending_fits e"
    proof -
      have "pending_fits (pending_of_staged e)" if "e \<in> set entries" for e
        using bspec [OF f(2) that] by (cases e) simp_all
      then show ?thesis using ok(1) by (auto simp: eager_ok_def merge_batches_def)
    qed
    have body: "sbind (or_restage ?st (ops_for_pending X ?batch TxEager)) (\<lambda>ops.
        sbind (or_restage ?st (inner_commit X ops)) (\<lambda>_. smod ?F)) ?s = (r, s')"
      using run f(1) ok(2) Inr False
      by (simp add: eager_transact_def ensure_open_def sbind_def [of "sread (\<lambda>s. if _ then _ else _)"] take_staged_def)
    obtain q u where o: "ops_for_pending X ?batch TxEager ?s = (q, u)" by fastforce
    then have u: "u = ?s" using eager_ops_state [of X ?batch ?s] by simp
    show ?thesis
    proof (cases q)
      case Inl': (Inl e)
      then have "r = Inl e \<and> s' = restage ?st ?s" using body o u by (simp add: sbind_def or_restage_def)
      then show ?thesis using eager_effect_refl [OF ok(1)] Inr by (simp add: restage_def)
    next
      case Inr': (Inr ops)
      obtain c w where com: "inner_commit X ops ?s = (c, w)" by fastforce
      show ?thesis
      proof (cases c)
        case Inl'': (Inl e)
        have fails: "tabs (sh_store w) = tabs (sh_store s)" "commit_fields ?s w"
          using inner_commit_failed [OF com [unfolded Inl''] B] by simp_all
        have r: "r = Inl e" "s' = restage ?st w"
          using body o u Inr' com Inl'' by (simp_all add: sbind_def or_restage_def)
        obtain b ep co where "w = ?s\<lparr>sh_store := b, in_epochs := ep, sh_coherence := co\<rparr>"
          using fails(2) unfolding commit_fields_def by blast
        then have "s' = s\<lparr>sh_store := b, in_epochs := ep, sh_coherence := co\<rparr>" "tabs b = tabs (sh_store s)"
          using r fails(1) by (simp_all add: restage_def)
        then have "commit_fields s s'" "tabs (sh_store s') = tabs (sh_store s)"
          unfolding commit_fields_def by auto
        from eager_effect_failed [OF this ok(1)] show ?thesis using r Inr by simp
      next
        case Inr'': (Inr x)
        note bc = eager_batch_commit [OF o [unfolded Inr'] com [unfolded Inr'' u [symmetric]] B s(1,2) chain fits]
        have r: "r = Inr ()" "s' = ?F w" using body o u Inr' com Inr'' by (simp_all add: sbind_def or_restage_def)
        have s': "sh_store s' = sh_store w" "sh_values s' = sh_values w" "rs_staged s' = rs_staged w" "rs_mode s' = rs_mode w"
          "rs_lru s' = rs_lru w" "values_agree sd g s' \<longleftrightarrow> values_agree sd g (snd (eager_fold_all entries w))" for g
          by (simp_all add: r(2) case_prod_beta eager_fold_fields fold_eager_announce)
        have "eager_effect X sd (tabs (sh_store s)) s (tabs (sh_store s')) s' (write_over (tx_staged_view entries))"
        proof (rule eager_effect_commit [where W = "batch_writes (cx_id X) ?batch"])
          show "becomes (cx_chain X) (tabs (sh_store s)) (tabs (sh_store s')) (batch_writes (cx_id X) ?batch)" using bc(1) s'(1) by simp
          have "values_agree sd (view_of X (tabs (sh_store s)) s) w"
            unfolding agree_commit_fields [OF bc(4)] using s(3) by simp
          from agree_fold [OF this f(2)] show "values_agree sd (write_over (tx_staged_view entries) (view_of X (tabs (sh_store s)) s)) s'"
            by (simp add: s'(6))
          show "write_over (tx_staged_view entries) (view_of X (tabs (sh_store s)) s)
              = write_over (\<lambda>k. batch_writes (cx_id X) ?batch (encode_key X k)) (payload_view (cx_chain X) (cx_id X) (tabs (sh_store s)))"
            by (auto simp: fun_eq_iff write_over_def encode_key_eq merge_batches_def staged_view_append tx_view_pending
                locker_view_def split: option.splits)
        qed (use bc(2,3) s' commit_fields_same [OF bc(4)] s(4,5) batch_writes_own in simp_all)
        then show ?thesis using r Inr by simp
      qed
    qed
  qed
qed

end

section \<open>Opening\<close>

text \<open>What a load that stays within the budget has loaded.\<close>

lemma eager_visit_fold:
  assumes "foldM_r (\<lambda>a (k, v). eager_visit X sd a k (if True then Some v else None)) acc xs = Inr acc'"
    and "el_overflow acc' = None" "distinct (map fst xs)"
  shows "bt_lookup (el_values acc') k =
      (case Option.bind (map_of xs k) (\<lambda>raw. ok (inner_open X sd raw)) of Some v \<Rightarrow> Some v | None \<Rightarrow> bt_lookup (el_values acc) k)
    \<and> el_overflow acc = None
    \<and> (k \<in> set (el_corrupt acc') \<longleftrightarrow> k \<in> set (el_corrupt acc) \<or> (\<exists>raw. map_of xs k = Some raw \<and> ok (inner_open X sd raw) = None))"
  using assms
proof (induction xs arbitrary: acc)
  case (Cons x xs)
  obtain k' raw where x: "x = (k', raw)" by (cases x)
  obtain a where a: "eager_visit X sd acc k' (Some raw) = Inr a"
    and rest: "foldM_r (\<lambda>a (k, v). eager_visit X sd a k (if True then Some v else None)) a xs = Inr acc'"
    using Cons.prems(1) by (auto simp: x rbind_eq_Inr_iff)
  have new: "map_of xs k' = None" using Cons.prems(3) by (force simp: x map_of_eq_None_iff)
  note IH = Cons.IH [OF rest Cons.prems(2)]
  have "distinct (map fst xs)" using Cons.prems(3) by simp
  note IH = IH [OF this]
  then have "el_overflow a = None" by blast
  then have fits: "\<not> sat_add (el_loaded acc) (of_nat (length raw)) > lc_eager_budget (cx_config X)" "el_overflow acc = None"
    using a by (auto simp: eager_visit_def Let_def split: if_splits sum.splits option.splits)
  have "(el_values a = (case ok (inner_open X sd raw) of Some v \<Rightarrow> bt_insert k' v (el_values acc) | None \<Rightarrow> el_values acc))
      \<and> set (el_corrupt a) = (if ok (inner_open X sd raw) = None then insert k' (set (el_corrupt acc)) else set (el_corrupt acc))"
    using a fits(1) by (auto simp: eager_visit_def ok_def Let_def split: if_splits sum.splits)
  then show ?case
    using IH fits(2) new by (cases "ok (inner_open X sd raw)"; cases "k = k'") (auto simp: x split: option.splits)
qed simp

lemma opened_record:
  assumes "inner_open X sd raw = Inr v"
  shows "\<exists>p. stored_item (cx_chain X) t raw = postcard p \<and> decode_payload sd p = Inr v"
proof -
  obtain p where p: "chain_open (cx_chain X) raw = Inr p" "decode_payload sd p = Inr v"
    using assms unfolding inner_open_def value_decode_def decode_payload_def rbind_eq_Inr_iff by blast
  have "\<not> is_pointer raw" using p(1) by (auto elim: chain_open_header_only)
  then have "stored_item (cx_chain X) t raw = postcard p"
    using p(1) not_pointer_not_raw by (simp add: stored_item_def stored_payload_def)
  with p(2) show ?thesis by blast
qed

lemma fold_note_corrupt:
  "fold note_corrupt ks s = s\<lparr>rs_corrupt := fold ks_insert ks (rs_corrupt s)\<rparr>"
  by (induction ks arbitrary: s) (simp_all add: note_corrupt_def)

lemma fold_ks_insert [simp]: "bt_contains (fold ks_insert ks m) k \<longleftrightarrow> k \<in> set ks \<or> bt_contains m k"
  by (induction ks arbitrary: m) auto

context backend_contract
begin

lemma eager_open_ok:
  assumes run: "eager_open X sd sh = Inr s" and B: "cx_backend X = B"
    and ok: "vals_ok (sh_values sh) (tabs (sh_store sh))" "inline_only X (tabs (sh_store sh))"
  shows "eager_ok X sd (tabs (sh_store sh)) s \<and> sh_store s = sh_store sh \<and> rs_staged s = [] \<and> rs_dropped s = bt_empty"
proof -
  let ?t = "tabs (sh_store sh)" and ?rs = "locker_records (cx_id X) (tabs (sh_store sh))"
  obtain acc where w: "walk B (sh_store sh) (cx_id X) Unbounded Unbounded False True (eager_visit X sd)
        \<lparr>el_values = bt_empty, el_corrupt = [], el_loaded = 0, el_overflow = None\<rparr> = Inr acc"
    and over: "el_overflow acc = None"
    and s: "s = resident.extend (fold note_corrupt (el_corrupt acc) (resident_new TxEager None None (inner_new sh)))
        \<lparr>eg_values = el_values acc\<rparr>"
    using run B by (auto simp: eager_open_def rbind_eq_Inr_iff Let_def split: policy.splits if_splits)
  have all: "range_records (cx_id X) ?t Unbounded Unbounded False = ?rs"
    by (simp add: range_records_def in_user_bounds_def Let_def case_prod_unfold)
  note load = eager_visit_fold [OF walk_Inr [OF w, unfolded all] over locker_records_distinct]
  have fields: "rs_staged s = []" "rs_mode s = TxEager" "rs_lru s = None" "sh_store s = sh_store sh" "sh_values s = sh_values sh"
    "eg_values s = el_values acc" "rs_corrupt s = fold ks_insert (el_corrupt acc) bt_empty" "rs_dropped s = bt_empty"
    by (simp_all add: s resident_new_def resident.defs inner_new_def inner_state.defs shared.defs fold_note_corrupt)
  have "values_agree sd (payload_view (cx_chain X) (cx_id X) ?t) s"
    unfolding values_agree_def
  proof
    fix k
    have view: "payload_view (cx_chain X) (cx_id X) ?t k = map_option (stored_item (cx_chain X) ?t) (map_of ?rs k)"
      by (simp add: payload_view_def locker_records_map_of)
    show "case bt_lookup (eg_values s) k of Some v \<Rightarrow> \<exists>p. payload_view (cx_chain X) (cx_id X) ?t k = Some (postcard p) \<and> decode_payload sd p = Inr v
        | None \<Rightarrow> payload_view (cx_chain X) (cx_id X) ?t k = None \<or> stored_but_unheld s k"
    proof (cases "map_of ?rs k")
      case None
      then show ?thesis using load [of k] by (simp add: fields view)
    next
      case (Some raw)
      show ?thesis
      proof (cases "inner_open X sd raw")
        case (Inl e)
        then have "k \<in> set (el_corrupt acc)" "bt_lookup (eg_values s) k = None" using load [of k] Some by (simp_all add: fields ok_def)
        then show ?thesis by (simp add: stored_but_unheld_def is_corrupt_def fields)
      next
        case (Inr v)
        then have "bt_lookup (eg_values s) k = Some v" using load [of k] Some by (simp add: fields ok_def)
        then show ?thesis using opened_record [OF Inr, of ?t] Some by (simp add: view)
      qed
    qed
  qed
  then show ?thesis using ok fields by (simp add: eager_ok_def locker_view_Nil)
qed

end

end
