(* ===== verification/Eager_Properties.thy ===== *)
theory Eager_Properties
  imports Eager_Refinement Lazy_Properties Closed_Flag
begin

text \<open>
  The contract of an eager locker over any backend that keeps the contract of \<open>backend_contract\<close>: writes
  against the map the locker stands for, and, over every sequence of calls from its opening on, what its
  synchronous reads return. The instances run over the memory backend.
\<close>

section \<open>An instance\<close>

definition sample_eager_ctx :: "commit_mode \<Rightarrow> (memory_backend, unit) ctx" where
  "sample_eager_ctx m = (sample_ctx m)\<lparr>cx_config := config_default\<lparr>lc_commit := m\<rparr>\<rparr>"

definition sample_eager :: "(memory_backend, unit, bytes) eager" where
  "sample_eager = resident.extend (resident_new TxEager None None (inner_new sample_shared)) \<lparr>eg_values = bt_empty\<rparr>"

lemma sample_eager_fields [simp]:
  "sh_store sample_eager = memory_new" "sh_values sample_eager = None" "in_closed sample_eager = False"
  "rs_staged sample_eager = []" "rs_mode sample_eager = TxEager" "rs_lru sample_eager = None" "eg_values sample_eager = bt_empty"
  "rs_corrupt sample_eager = bt_empty" "rs_dropped sample_eager = bt_empty"
  by (simp_all add: sample_eager_def resident_new_def resident.defs inner_new_def inner_state.defs shared.defs sample_shared_def)

lemma sample_inline_only [simp]: "inline_only X (mb_tables memory_new)"
  using empty_lookup [of Records] by (simp add: inline_only_def record_pointers_def)

lemma sample_eager_ok [simp]: "eager_ok (sample_ctx m) sample_sd (mb_tables memory_new) sample_eager"
  by (simp add: eager_ok_def values_agree_def locker_view_Nil)

section \<open>Writes\<close>

text \<open>
  C24: a put of an eager locker, committed at once or staged and with any answer of the backend, puts the
  value into the map of the locker when it returns or was accepted into the batch, and otherwise changes
  nothing; the values held in memory stay in agreement with the map, and no other locker is touched.
\<close>

theorem eager_put_refines:
  assumes "backend_contract (cx_backend X) tabs" "sound_chain (cx_chain X)" "eager_ok X sd (tabs (sh_store s)) s" "\<not> in_closed s"
    and "sd_to_vec sd v = Inr payload" "sd_from_bytes sd payload = Inr v" "length payload \<le> MAX_DECODED_BYTES"
    and "eager_put_by X sd key v s = (r, s')"
  shows "eager_effect X sd (tabs (sh_store s)) s (tabs (sh_store s')) s'
    (if r = Inr v \<or> is_deferred X \<and> eager_accepts X sd v then (\<lambda>f. f(key \<mapsto> postcard payload)) else (\<lambda>f. f))"
  by (rule backend_contract.eager_put_effect [OF assms(1) refl assms(2-8)])

theorem eager_put_refines_witness:
  "case eager_put_by (sample_ctx Commit_Immediate) sample_sd [7] [1, 2] sample_eager of (r, s') \<Rightarrow>
     eager_effect (sample_ctx Commit_Immediate) sample_sd (mb_tables memory_new) sample_eager (mb_tables (sh_store s')) s'
       (if r = Inr [1, 2] then (\<lambda>f. f([7] \<mapsto> postcard [1, 2])) else (\<lambda>f. f))"
proof -
  obtain r s' where "eager_put_by (sample_ctx Commit_Immediate) sample_sd [7] [1, 2] sample_eager = (r, s')" by fastforce
  then show ?thesis
    using eager_put_refines [where X = "sample_ctx Commit_Immediate" and tabs = mb_tables and s = sample_eager and sd = sample_sd
        and v = "[1, 2]" and payload = "[1, 2]" and key = "[7]" and r = r and s' = s'] mem.backend_contract_axioms
    by (simp add: MAX_DECODED_BYTES_def)
qed

text \<open>
  C25: a transaction on an eager locker is atomic: when it returns, the map is the map before overlaid
  with the write-set in order and the values in memory agree with it; when the commit or the closure fails,
  neither the map nor any value in memory has changed.
\<close>

theorem eager_transact_refines:
  assumes "backend_contract (cx_backend X) tabs" "sound_chain (cx_chain X)" "eager_ok X sd (tabs (sh_store s)) s" "\<not> in_closed s"
    and "f (sh_store s) [] = (out, entries)" "\<forall>e\<in>set entries. staged_sound sd e"
    and "eager_transact X f s = (r, s')"
  shows "eager_effect X sd (tabs (sh_store s)) s (tabs (sh_store s')) s'
      (if r = Inr () then write_over (tx_staged_view entries) else (\<lambda>f. f))
    \<and> (case out of Inl e \<Rightarrow> r = Inl e \<and> s' = s | Inr _ \<Rightarrow> True)"
  by (rule backend_contract.eager_transact_effect [OF assms(1) refl assms(2-7)])

theorem eager_transact_refines_witness:
  "case eager_transact sample_deferred_ctx sample_closure sample_eager of (r, s') \<Rightarrow>
     eager_effect sample_deferred_ctx sample_sd (mb_tables memory_new) sample_eager (mb_tables (sh_store s')) s'
       (if r = Inr () then write_over (tx_staged_view [Staged_Clear, Staged_Put [9] [4] ([4] :: bytes)]) else (\<lambda>f. f))"
proof -
  obtain r s' where run: "eager_transact sample_deferred_ctx sample_closure sample_eager = (r, s')" by fastforce
  show ?thesis
    using eager_transact_refines [where X = sample_deferred_ctx and tabs = mb_tables and s = sample_eager and sd = sample_sd
        and f = sample_closure and out = "Inr ()" and entries = "[Staged_Clear, Staged_Put [9] [4] [4]]" and r = r and s' = s']
      mem.backend_contract_axioms run
    by (simp add: sample_closure_def MAX_DECODED_BYTES_def decode_payload_def)
qed

section \<open>Every sequence of calls\<close>

inductive eager_step :: "('b, 'q) ctx \<Rightarrow> 't serde \<Rightarrow> ('b, 'q, 't) eager \<Rightarrow> ('b, 'q, 't) eager \<Rightarrow> bool"
  for X :: "('b, 'q) ctx" and sd :: "'t serde" where
  step_put: "eager_put_by X sd key v s = (r, s') \<Longrightarrow> sd_to_vec sd v = Inr payload \<Longrightarrow> sd_from_bytes sd payload = Inr v
    \<Longrightarrow> length payload \<le> MAX_DECODED_BYTES \<Longrightarrow> eager_step X sd s s'"
| step_delete: "eager_delete_by X key s = (r, s') \<Longrightarrow> eager_step X sd s s'"
| step_clear: "eager_clear X s = (r, s') \<Longrightarrow> eager_step X sd s s'"
| step_transact: "eager_transact X f s = (r, s') \<Longrightarrow> f (sh_store s) [] = (out, entries)
    \<Longrightarrow> \<forall>e\<in>set entries. staged_sound sd e \<Longrightarrow> eager_step X sd s s'"
| step_flush: "eager_flush X s = (r, s') \<Longrightarrow> eager_step X sd s s'"
| step_close: "eager_close X s = (Inr (), s') \<Longrightarrow> eager_step X sd s s'"

text \<open>What a sequence of calls keeps: the invariant, or, once closed, an empty locker.\<close>

definition eager_keeps :: "('b, 'q) ctx \<Rightarrow> 't serde \<Rightarrow> tables \<Rightarrow> tables \<Rightarrow> ('b, 'q, 't) eager \<Rightarrow> bool" where
  "eager_keeps X sd t t' s' \<longleftrightarrow>
     eager_ok X sd t' s' \<and> (no_orphans t \<longrightarrow> no_orphans t')
     \<and> (\<forall>ch l k. l \<noteq> cx_id X \<longrightarrow> payload_view ch l t' k = payload_view ch l t k)"

lemma eager_keeps_effect: "eager_effect X sd t s t' s' g \<Longrightarrow> eager_keeps X sd t t' s'"
  by (simp add: eager_effect_def eager_keeps_def)

definition eager_shut :: "('b, 'q, 't) eager \<Rightarrow> bool" where
  "eager_shut s \<longleftrightarrow> in_closed s \<and> rs_staged s = [] \<and> eg_values s = bt_empty"

definition eager_leaves :: "('b, 'q) ctx \<Rightarrow> 't serde \<Rightarrow> tables \<Rightarrow> tables \<Rightarrow> ('b, 'q, 't) eager \<Rightarrow> bool" where
  "eager_leaves X sd t t' s' \<longleftrightarrow>
     (if in_closed s' then eager_shut s' else eager_ok X sd t' s') \<and> (no_orphans t \<longrightarrow> no_orphans t')
     \<and> (\<forall>ch l k. l \<noteq> cx_id X \<longrightarrow> payload_view ch l t' k = payload_view ch l t k)"

lemma eager_keeps_trans:
  "eager_keeps X sd t u v \<Longrightarrow> eager_keeps X sd u t' s' \<Longrightarrow> eager_keeps X sd t t' s'"
  by (simp add: eager_keeps_def)

context backend_contract
begin

lemma flush_backend_tables:
  fixes u :: "('b, 'q, 'z) resident_scheme"
  assumes "flush_backend X u = (r, s')" "cx_backend X = B"
  shows "tabs (sh_store s') = tabs (sh_store u) \<and> commit_fields u s'"
proof -
  obtain r' b where b: "bk_flush B (sh_store u) = (r', b)" by fastforce
  have "s' = u \<or> s' = u\<lparr>sh_store := b\<rparr>"
    using assms b by (auto simp: flush_backend_def on_store_def split: if_splits)
  moreover have "commit_fields u (u\<lparr>sh_store := b\<rparr>)"
    unfolding commit_fields_def
    by (intro exI [of _ b] exI [of _ "in_epochs u"] exI [of _ "sh_coherence u"]) simp
  ultimately show ?thesis using flush_spec [OF b] commit_fields_refl by auto
qed

lemma eager_staged_keeps:
  fixes s :: "('b, 'q, 't) eager"
  assumes "resident_flush X s = (q, u)" "cx_backend X = B" "sound_chain (cx_chain X)" "eager_ok X sd (tabs (sh_store s)) s"
  shows "eager_keeps X sd (tabs (sh_store s)) (tabs (sh_store u)) u"
proof (cases "pending_len s = 0")
  case True
  then show ?thesis using assms(1) eager_keeps_effect [OF eager_effect_refl [OF assms(4)]] by (simp add: resident_flush_def)
next
  case False
  then show ?thesis using assms(1) eager_keeps_effect [OF conjunct1 [OF eager_flush_effect [OF _ assms(2-4)]]] by (simp add: resident_flush_def)
qed

lemma eager_flush_keeps:
  fixes s :: "('b, 'q, 't) eager"
  assumes "eager_flush X s = (r, s')" "cx_backend X = B" "sound_chain (cx_chain X)" "eager_ok X sd (tabs (sh_store s)) s"
  shows "eager_keeps X sd (tabs (sh_store s)) (tabs (sh_store s')) s'"
proof -
  obtain q u where f: "resident_flush X s = (q, u)" by fastforce
  note u = eager_staged_keeps [OF f assms(2-4)]
  obtain w where w: "flush_backend X u = (w, s')" using assms(1) f by (auto simp: eager_flush_def split: prod.splits)
  note h = flush_backend_tables [OF w assms(2)]
  from eager_effect_failed [OF conjunct2 [OF h] conjunct1 [OF h]] u show ?thesis
    using eager_keeps_trans eager_keeps_effect by (metis eager_keeps_def)
qed

lemma eager_close_leaves:
  fixes s :: "('b, 'q, 't) eager"
  assumes "eager_close X s = (Inr (), s')" "cx_backend X = B" "sound_chain (cx_chain X)" "eager_ok X sd (tabs (sh_store s)) s"
  shows "eager_leaves X sd (tabs (sh_store s)) (tabs (sh_store s')) s'"
proof -
  obtain u r2 w where f: "resident_flush X s = (Inr (), u)" and b: "flush_backend X (discard_staged u) = (r2, w)"
    and s': "s' = eg_clear (snd (mark_closed w))"
    using assms(1) by (auto simp: eager_close_def result_and_def Let_def split: prod.splits sum.splits)
  have h: "tabs (sh_store w) = tabs (sh_store u)" "rs_staged w = []"
    using flush_backend_tables [OF b assms(2)] by (auto simp: discard_staged_def commit_fields_def)
  then show ?thesis
    using eager_staged_keeps [OF f assms(2-4)]
    by (simp add: s' eager_leaves_def eager_keeps_def eager_shut_def mark_closed_def eg_clear_def)
qed

lemma eager_shut_stays:
  fixes s :: "('b, 'q, 't) eager"
  assumes "eager_step X sd s s'" "cx_backend X = B" "eager_shut s"
  shows "eager_shut s' \<and> tabs (sh_store s') = tabs (sh_store s)"
proof -
  have c: "in_closed s" "pending_len s = 0" "discard_staged s = s" using assms(3) by (simp_all add: eager_shut_def pending_len_def discard_staged_def)
  from assms(1) have "s' = s \<or> (\<exists>r. eager_flush X s = (r, s')) \<or> eager_close X s = (Inr (), s')"
    by cases (use c(1) in \<open>auto simp: eager_put_by_def eager_delete_by_def eager_clear_def eager_transact_def ensure_open_def sbind_def\<close>)
  then have "s' = s \<or> (\<exists>r w. flush_backend X s = (r, w) \<and> (s' = w \<or> s' = eg_clear (snd (mark_closed w))))"
    using c by (auto simp: eager_flush_def eager_close_def resident_flush_def Let_def split: prod.splits)
  then obtain w where w: "tabs (sh_store w) = tabs (sh_store s) \<and> commit_fields s w" "s' = w \<or> s' = eg_clear (snd (mark_closed w))"
    using flush_backend_tables [OF _ assms(2)] commit_fields_refl by blast
  then show ?thesis using assms(3) by (auto simp: eager_shut_def mark_closed_def eg_clear_def commit_fields_def)
qed

lemma eager_step_ok:
  fixes s :: "('b, 'q, 't) eager"
  assumes "eager_step X sd s s'" "cx_backend X = B" "sound_chain (cx_chain X)" "eager_ok X sd (tabs (sh_store s)) s" "\<not> in_closed s"
  shows "eager_close X s = (Inr (), s') \<or> eager_keeps X sd (tabs (sh_store s)) (tabs (sh_store s')) s'"
  using assms(1)
proof cases
  case step_put
  from eager_keeps_effect [OF eager_put_effect [OF assms(2-5) step_put(2-4,1)]] show ?thesis by blast
next
  case step_delete
  from eager_keeps_effect [OF eager_delete_effect [OF assms(2-5) step_delete]] show ?thesis by blast
next
  case step_clear
  from eager_keeps_effect [OF eager_clear_effect [OF assms(2-5) step_clear]] show ?thesis by blast
next
  case step_transact
  from eager_keeps_effect [OF conjunct1 [OF eager_transact_effect [OF assms(2-5) step_transact(2,3,1)]]] show ?thesis by blast
next
  case step_flush
  from eager_flush_keeps [OF this assms(2-4)] show ?thesis by blast
qed blast

lemma eager_step_flag: "eager_step X sd s s' \<Longrightarrow> eager_close X s = (Inr (), s') \<or> in_closed s' = in_closed s"
  by (induction rule: eager_step.induct) (auto dest: flag_keptD [rotated] intro: flag)

lemma eager_step_leaves:
  fixes s :: "('b, 'q, 't) eager"
  assumes "eager_step X sd s s'" "cx_backend X = B" "sound_chain (cx_chain X)" "eager_ok X sd (tabs (sh_store s)) s" "\<not> in_closed s"
  shows "eager_leaves X sd (tabs (sh_store s)) (tabs (sh_store s')) s'"
proof (cases "eager_close X s = (Inr (), s')")
  case True
  then show ?thesis by (rule eager_close_leaves [OF _ assms(2-4)])
next
  case False
  then show ?thesis
    using eager_step_ok [OF assms] eager_step_flag [OF assms(1)] assms(5) by (simp add: eager_leaves_def eager_keeps_def)
qed

lemma eager_run_leaves:
  fixes s :: "('b, 'q, 't) eager"
  assumes "(eager_step X sd)\<^sup>*\<^sup>* s s'" "cx_backend X = B" "sound_chain (cx_chain X)" "eager_ok X sd (tabs (sh_store s)) s" "\<not> in_closed s"
  shows "eager_leaves X sd (tabs (sh_store s)) (tabs (sh_store s')) s'"
  using assms(1)
proof (induction rule: rtranclp_induct)
  case base
  show ?case using assms(4,5) by (simp add: eager_leaves_def)
next
  case (step u v)
  show ?case
  proof (cases "in_closed u")
    case False
    then have "eager_ok X sd (tabs (sh_store u)) u" using step.IH by (simp add: eager_leaves_def)
    from eager_step_leaves [OF step.hyps(2) assms(2,3) this False] step.IH show ?thesis
      by (simp add: eager_leaves_def)
  next
    case True
    then have "eager_shut u" using step.IH by (simp add: eager_leaves_def)
    from eager_shut_stays [OF step.hyps(2) assms(2) this] step.IH True show ?thesis
      by (simp add: eager_leaves_def eager_shut_def)
  qed
qed

end

text \<open>
  C26: from its opening on, over storage in good order where the locker has no chunked values, and after any
  number of puts, deletes, clears, transactions and flushes with any outcomes, a synchronous get of an eager
  locker returns exactly the value its key has in the map of the locker, staged writes included; it returns
  nothing for a key without a value, and it may return nothing for one the locker has recorded as stored but
  not held (a record that did not decode, or a value it dropped). After a close that returns, every get
  returns nothing. Nothing of any other locker has changed. (The news of other tabs is not among the calls.)
\<close>

theorem eager_reads_exact:
  assumes "backend_contract (cx_backend X) tabs" "sound_chain (cx_chain X)" "eager_open X sd sh = Inr s0"
    and "vals_ok (sh_values sh) (tabs (sh_store sh))" "inline_only X (tabs (sh_store sh))" "(eager_step X sd)\<^sup>*\<^sup>* s0 s"
  shows "(if in_closed s then eager_get_by s key = None
     else (case eager_get_by s key of
        Some v \<Rightarrow> \<exists>p. view_of X (tabs (sh_store s)) s key = Some (postcard p) \<and> decode_payload sd p = Inr v
      | None \<Rightarrow> view_of X (tabs (sh_store s)) s key = None \<or> stored_but_unheld s key))
    \<and> (\<forall>ch l k. payload_view ch l (tabs (sh_store s)) k = payload_view ch l (tabs (sh_store sh)) k \<or> l = cx_id X)"
proof -
  have o: "eager_ok X sd (tabs (sh_store sh)) s0" "sh_store s0 = sh_store sh"
    using backend_contract.eager_open_ok [OF assms(1,3) refl assms(4,5)] by simp_all
  then have "eager_ok X sd (tabs (sh_store s0)) s0" by simp
  from backend_contract.eager_run_leaves [OF assms(1,6) refl assms(2) this eager_opens_open [OF assms(3)]]
  have k: "eager_leaves X sd (tabs (sh_store sh)) (tabs (sh_store s)) s" by (simp add: o(2))
  then have "if in_closed s then eg_values s = bt_empty else values_agree sd (view_of X (tabs (sh_store s)) s) s"
    by (auto simp: eager_leaves_def eager_shut_def eager_ok_def)
  moreover have "payload_view ch l (tabs (sh_store s)) k = payload_view ch l (tabs (sh_store sh)) k \<or> l = cx_id X" for ch l k
    using k by (auto simp: eager_leaves_def)
  ultimately show ?thesis unfolding values_agree_def eager_get_by_def
    by simp
qed

lemma sample_eager_opened: "eager_open (sample_ctx m) sample_sd sample_shared = Inr sample_eager"
  by (simp add: eager_open_def sample_walk sample_shared_def sample_ctx_def config_default_def sample_eager_def)

theorem eager_reads_exact_witness:
  "case eager_put_by sample_deferred_ctx sample_sd [7] [1, 2] sample_eager of (r, s) \<Rightarrow>
     (case eager_get_by s [7] of
        Some v \<Rightarrow> \<exists>p. view_of sample_deferred_ctx (mb_tables (sh_store s)) s [7] = Some (postcard p) \<and> decode_payload sample_sd p = Inr v
      | None \<Rightarrow> view_of sample_deferred_ctx (mb_tables (sh_store s)) s [7] = None \<or> stored_but_unheld s [7])"
proof -
  obtain r s where run: "eager_put_by sample_deferred_ctx sample_sd [7] [1, 2] sample_eager = (r, s)" by fastforce
  have "eager_step sample_deferred_ctx sample_sd sample_eager s"
    by (rule step_put [OF run, where payload = "[1, 2]"]) (simp_all add: MAX_DECODED_BYTES_def)
  then have steps: "(eager_step sample_deferred_ctx sample_sd)\<^sup>*\<^sup>* sample_eager s" by (rule r_into_rtranclp)
  have contract: "backend_contract (cx_backend sample_deferred_ctx) mb_tables"
    using mem.backend_contract_axioms by simp
  from eager_reads_exact [OF contract _ sample_eager_opened _ _ steps, of "[7]"] show ?thesis
    using run flag_keptD [OF flag_eager_put run] by (simp add: sample_shared_def)
qed

end
