(* ===== verification/Streams.thy ===== *)
theory Streams
  imports Streaming_Io Eager_Commits Lazy_Transactions
begin

text \<open>
  What a stream does to storage. While pieces are written they lie under a value id no record points to
  (\<open>streaming\<close>), so every key of every locker reads as before; the commit of \<open>finish\<close> makes the key
  point to them, collects what it pointed to before and leaves no chunk without an owner.
\<close>

section \<open>Pieces under a fresh value id\<close>

definition streaming :: "filter_chain \<Rightarrow> tables \<Rightarrow> tables \<Rightarrow> u64 \<Rightarrow> bytes list \<Rightarrow> bool" where
  "streaming ch t t' vid ps \<longleftrightarrow>
     (\<forall>y. bt_lookup (tb_records t') y = bt_lookup (tb_records t) y)
     \<and> (\<forall>k. (\<nexists>j. k = chunk_key vid j) \<longrightarrow> bt_lookup (tb_chunks t') k = bt_lookup (tb_chunks t) k)
     \<and> stored_counter t \<le> vid \<and> checked_succ vid = Some (stored_counter t') \<and> chunks_hold ch t' vid ps"

lemma streaming_points: "streaming ch t t' vid ps \<Longrightarrow> points t' y i \<longleftrightarrow> points t y i"
  by (simp add: streaming_def points_def)

lemma streaming_pointers: "streaming ch t t' vid ps \<Longrightarrow> record_pointers t' y = record_pointers t y"
  by (simp add: streaming_def record_pointers_def)

lemma streaming_low: "streaming ch t t' vid ps \<Longrightarrow> below t (stored_counter t) \<Longrightarrow> points t y i \<Longrightarrow> i < vid"
  unfolding streaming_def below_def by (meson less_le_trans)

lemma streaming_counter: "streaming ch t t' vid ps \<Longrightarrow> vid < stored_counter t'"
  by (simp add: streaming_def checked_succ_less)

lemma streaming_keeps:
  assumes s: "streaming ch t t' vid ps" and low: "below t (stored_counter t)"
  shows "keeps t t' y"
proof -
  have "stored_payload ch' t' raw = stored_payload ch' t raw" if raw: "bt_lookup (tb_records t) y = Some raw" for ch' raw
  proof (rule stored_payload_cong)
    fix p i
    assume "pointer_parse raw = Inr p"
    then have "points t y (cp_value_id p)" using raw by (auto simp: points_def)
    then have "cp_value_id p \<noteq> vid" using streaming_low [OF s low] by blast
    then show "bt_lookup (tb_chunks t') (chunk_key (cp_value_id p) i) = bt_lookup (tb_chunks t) (chunk_key (cp_value_id p) i)"
      using s by (simp add: streaming_def)
  qed
  then show ?thesis using s by (simp add: keeps_def streaming_def)
qed

lemma streaming_start:
  assumes "stored_counter t \<le> vid" "checked_succ vid = Some nxt"
  shows "streaming ch t (apply_ops t [counter_op_for nxt]) vid []"
  using lookup_silent [of "[counter_op_for nxt]" Records _ t] lookup_silent [of "[counter_op_for nxt]" Chunks _ t]
    stored_counter_last [of t "[]" nxt] assms
  by (simp add: streaming_def chunks_hold_def)

lemma streaming_piece:
  assumes s: "streaming ch t t' vid ps" and chain: "sound_chain ch" "seal ch piece = Inr sealed" "length piece \<le> MAX_DECODED_BYTES"
    and few: "length ps < 2 ^ 32"
  shows "streaming ch t (apply_ops t' [Op_Put Chunks (chunk_key vid (of_nat (length ps))) sealed]) vid (ps @ [piece])"
proof -
  let ?op = "Op_Put Chunks (chunk_key vid (of_nat (length ps))) sealed"
  have rec: "bt_lookup (tables_get (apply_ops t' [?op]) Records) y = bt_lookup (tables_get t' Records) y" for y
    by (rule lookup_silent) simp
  have ctr: "stored_counter (apply_ops t' [?op]) = stored_counter t'" by (rule stored_counter_silent) simp
  have other: "bt_lookup (tables_get (apply_ops t' [?op]) Chunks) k = bt_lookup (tables_get t' Chunks) k"
    if "k \<noteq> chunk_key vid (of_nat (length ps))" for k
    by (rule lookup_silent) (use that in simp)
  have this': "bt_lookup (tables_get (apply_ops t' [?op]) Chunks) (chunk_key vid (of_nat (length ps))) = Some sealed"
    by (rule lookup_said) auto
  have "chunks_hold ch (apply_ops t' [?op]) vid (ps @ [piece])"
    unfolding chunks_hold_def
  proof (intro allI impI)
    fix j
    assume j: "j < length (ps @ [piece])"
    show "\<exists>sealed. bt_lookup (tb_chunks (apply_ops t' [?op])) (chunk_key vid (of_nat j)) = Some sealed
        \<and> chain_open ch sealed = Inr ((ps @ [piece]) ! j)"
    proof (cases "j = length ps")
      case True
      then show ?thesis using this' sound_chain_open [OF chain(1,3,2)] by simp
    next
      case False
      then have less: "j < length ps" using j by simp
      have "(of_nat j :: u32) \<noteq> of_nat (length ps)"
      proof
        assume "(of_nat j :: u32) = of_nat (length ps)"
        then have "unat (of_nat j :: u32) = unat (of_nat (length ps) :: u32)" by simp
        then show False using less few by (simp add: unat_of_nat)
      qed
      then have "bt_lookup (tb_chunks (apply_ops t' [?op])) (chunk_key vid (of_nat j)) = bt_lookup (tb_chunks t') (chunk_key vid (of_nat j))"
        using other [of "chunk_key vid (of_nat j)"] by simp
      then show ?thesis using s less by (simp add: streaming_def chunks_hold_def nth_append)
    qed
  qed
  moreover have "bt_lookup (tb_chunks (apply_ops t' [?op])) k = bt_lookup (tb_chunks t) k" if "\<nexists>j. k = chunk_key vid j" for k
  proof -
    have "k \<noteq> chunk_key vid (of_nat (length ps))" using that by blast
    then show ?thesis using other [of k] s that by (simp add: streaming_def)
  qed
  ultimately show ?thesis using s rec ctr by (simp add: streaming_def)
qed

section \<open>The commit that finishes a stream\<close>

lemma streaming_finish:
  assumes s: "streaming ch t t1 vid ps" and good: "owned t" "below t (stored_counter t)"
    and few: "length ps \<le> length (concat ps)" "length (concat ps) \<le> MAX_DECODED_BYTES"
    and ptr: "ptr = \<lparr>cp_value_id = vid, cp_n_chunks = of_nat (length ps), cp_total_len = of_nat (length (concat ps)), cp_flags = FLAG_RAW\<rparr>"
    and t': "t' = apply_ops t1 (map gc_ops (record_pointers t1 x) @ [Op_Put Records x (pointer_encode ptr)])"
  shows "y \<noteq> x \<Longrightarrow> keeps t t' y"
    and "map_option (stored_item ch t') (bt_lookup (tb_records t') x) = Some (Inr (True, concat ps))"
    and "owned t'" "below t' (stored_counter t')" "stored_counter t' = stored_counter t1" "no_orphans t \<longrightarrow> no_orphans t'"
proof -
  let ?ops = "map gc_ops (record_pointers t1 x) @ [Op_Put Records x (pointer_encode ptr)]"
  have len: "unat (cp_total_len ptr) = length (concat ps)" "unat (cp_n_chunks ptr) = length ps"
    using few by (simp_all add: ptr unat_of_nat MAX_DECODED_BYTES_def)
  have ok: "pointer_ok ptr" using len few by (simp add: pointer_ok_def)
  note pts1 = streaming_points [OF s]
  have own1: "owned t1" using good(1) pts1 by (simp add: owned_def)
  have low: "points t1 y i \<Longrightarrow> i < vid" for y i
    using streaming_low [OF s good(2)] pts1 by blast
  show ctr: "stored_counter t' = stored_counter t1"
    unfolding t' by (rule stored_counter_silent) (auto simp: gc_ops_def)
  have coll: "collects t1 x (record_pointers t1 x)"
  proof -
    have "cp_value_id p < stored_counter t1" if "p \<in> set (record_pointers t1 x)" for p
    proof -
      have "points t1 x (cp_value_id p)" using that by (auto simp: points_iff)
      then show ?thesis using low streaming_counter [OF s] less_trans by blast
    qed
    then show ?thesis
      using record_pointers_owned [OF own1] by (auto simp: collects_def points_iff)
  qed
  have keep1: "keeps t1 t' y" if y: "y \<noteq> x" for y
    unfolding t'
  proof (rule keeps_silent)
    show "op_says Records y op = None" if "op \<in> set ?ops" for op
      using that y by auto
    show "op_says Chunks (chunk_key i j) op = None" if p: "points t1 y i" and op: "op \<in> set ?ops" for i j op
    proof -
      have "i \<noteq> cp_value_id q" if q: "q \<in> set (record_pointers t1 x)" for q
        using record_pointers_owned [OF own1 q, of y] p y by auto
      then show ?thesis using op by auto
    qed
  qed
  show keep: "keeps t t' y" if "y \<noteq> x" for y
    by (rule keeps_trans [OF streaming_keeps [OF s good(2)] keep1 [OF that]])
  have "bt_lookup (tables_get t' Records) x = Some (pointer_encode ptr)"
    unfolding t' by (rule lookup_said) auto
  then have raw: "bt_lookup (tb_records t') x = Some (pointer_encode ptr)" by simp
  have pts: "points t' x i \<longleftrightarrow> i = vid" for i
    using raw pointer_parse_encode [OF ok] by (auto simp: points_def ptr)
  have hold: "chunks_hold ch t' vid ps"
  proof -
    have "bt_lookup (tables_get t' Chunks) (chunk_key vid j) = bt_lookup (tables_get t1 Chunks) (chunk_key vid j)" for j
      unfolding t'
    proof (rule lookup_silent)
      fix op assume op: "op \<in> set ?ops"
      have "vid \<noteq> cp_value_id q" if q: "q \<in> set (record_pointers t1 x)" for q
        using low [of x "cp_value_id q"] q by (auto simp: points_iff)
      then show "op_says Chunks (chunk_key vid j) op = None" using op by auto
    qed
    then show ?thesis using s by (simp add: streaming_def chunks_hold_def)
  qed
  have "read_chunks memory_backend_vt (mem_of t') ch ptr = Inr (concat ps)"
    by (rule read_chunks_back) (use hold len in \<open>simp_all add: ptr\<close>)
  then show "map_option (stored_item ch t') (bt_lookup (tb_records t') x) = Some (Inr (True, concat ps))"
    using raw pointer_parse_encode [OF ok] by (simp add: stored_item_def stored_payload_def stored_raw_def ptr)
  have pts': "points t' y i \<longleftrightarrow> (if y = x then i = vid else points t y i)" for y i
    using pts points_keeps [OF keep] by simp
  show "owned t'" "below t' (stored_counter t')"
    using good(1) low streaming_counter [OF s] pts1 unfolding owned_def below_def pts' ctr
    by (auto split: if_splits) fastforce+
  show "no_orphans t \<longrightarrow> no_orphans t'"
    unfolding no_orphans_def
  proof (intro impI ballI)
    fix k
    assume orphans: "\<forall>k\<in>stored_chunk_keys t. \<exists>x i. points t x i \<and> kr_contains (chunk_range i) k" and k: "k \<in> stored_chunk_keys t'"
    show "\<exists>y i. points t' y i \<and> kr_contains (chunk_range i) k"
    proof (cases "\<exists>j. k = chunk_key vid j")
      case True
      then show ?thesis using pts by (intro exI [of _ x] exI [of _ vid]) auto
    next
      case False
      have "k \<in> stored_chunk_keys t1 \<and> (\<forall>i. points t1 x i \<longrightarrow> \<not> kr_contains (chunk_range i) k)"
        by (rule collected_chunks [OF coll k [unfolded t']]) auto
      moreover from this have "k \<in> stored_chunk_keys t"
        using s False by (simp add: streaming_def bt_mem_keys_iff)
      ultimately obtain y i where "points t y i" "kr_contains (chunk_range i) k" "y \<noteq> x"
        using orphans pts1 by metis
      then show ?thesis using pts' by metis
    qed
  qed
qed

section \<open>A writer at work\<close>

text \<open>
  What holds between the calls on a writer: the bytes given so far are the pieces under its value id and
  the buffer, in this order.
\<close>

definition writer_ok :: "filter_chain \<Rightarrow> tables \<Rightarrow> tables \<Rightarrow> bytes \<Rightarrow> writer \<Rightarrow> bool" where
  "writer_ok ch t t' given w \<longleftrightarrow>
     (\<exists>ps. streaming ch t t' (wr_value_id w) ps \<and> unat (wr_seq w) = length ps \<and> (\<forall>p\<in>set ps. p \<noteq> [])
       \<and> concat ps @ wr_buf w = given \<and> wr_total_len w = of_nat (length given))"

lemma length_le_concat: "(\<forall>p\<in>set ps. p \<noteq> []) \<Longrightarrow> length ps \<le> length (concat ps)"
proof (induction ps)
  case (Cons p ps)
  then show ?case by (cases p) auto
qed simp

lemma commit_fields_trans: "commit_fields s u \<Longrightarrow> commit_fields u v \<Longrightarrow> commit_fields s v"
  unfolding commit_fields_def by (elim exE) (simp, metis)

context backend_contract
begin

lemma flush_piece_ok:
  fixes s :: "('b, 'q, 'z) resident_scheme"
  assumes run: "flush_piece X piece (s, w) = (r, (s', w'))" and B: "cx_backend X = B" and chain: "sound_chain (cx_chain X)"
    and st: "streaming (cx_chain X) t (tabs (sh_store s)) (wr_value_id w) ps" "unat (wr_seq w) = length ps"
    and few: "length piece \<le> MAX_DECODED_BYTES" "Suc (length ps) < 2 ^ 32"
  shows "commit_fields s s' \<and> (case r of
      Inl e \<Rightarrow> w' = w \<and> tabs (sh_store s') = tabs (sh_store s)
    | Inr _ \<Rightarrow> w' = w\<lparr>wr_seq := wr_seq w + 1\<rparr> \<and> unat (wr_seq w') = length (ps @ [piece])
        \<and> streaming (cx_chain X) t (tabs (sh_store s')) (wr_value_id w) (ps @ [piece]))"
proof (cases "seal_slice (cx_chain X) piece")
  case (Inl e)
  then show ?thesis using run by (auto simp: flush_piece_def)
next
  case (Inr sealed)
  have sq: "wr_seq w = of_nat (length ps)" unfolding st(2) [symmetric] by simp
  let ?op = "Op_Put Chunks (chunk_key (wr_value_id w) (wr_seq w)) sealed"
  obtain c v where com: "inner_commit X [?op] s = (c, v)" by fastforce
  have f: "commit_fields s v" using inner_commit_fields [of s X "[?op]"] com by simp
  show ?thesis
  proof (cases c)
    case Inl': (Inl e)
    then have "r = Inl e" "s' = v" "w' = w" using run Inr com by (auto simp: flush_piece_def)
    then show ?thesis using f inner_commit_failed(1) [OF com [unfolded Inl'] B] by simp
  next
    case Inr': (Inr u)
    then have r: "r = Inr ()" "s' = v" "w' = w\<lparr>wr_seq := wr_seq w + 1\<rparr>" using run Inr com by (auto simp: flush_piece_def)
    have "tabs (sh_store v) = apply_ops (tabs (sh_store s)) [?op]" by (rule inner_commit_Inr(1) [OF com [unfolded Inr'] B])
    moreover have "streaming (cx_chain X) t (apply_ops (tabs (sh_store s)) [?op]) (wr_value_id w) (ps @ [piece])"
      unfolding sq by (rule streaming_piece [OF st(1) chain]) (use Inr few in \<open>simp_all add: seal_slice_def\<close>)
    moreover have "unat (wr_seq w + 1) = Suc (length ps)"
      using few(2) by (simp add: sq unat_word_ariths unat_of_nat)
    ultimately show ?thesis using f r by simp
  qed
qed

text \<open>The loop of \<open>write_chunk\<close>: it stops, and where it stops less than a piece is buffered.\<close>

lemma write_loop_ok:
  fixes s :: "('b, 'q, 'z) resident_scheme"
  assumes "length (wr_buf w) < n" "write_loop n X (s, w) = (r, (s', w'))" "cx_backend X = B" "sound_chain (cx_chain X)"
    "0 < lc_chunk_size (cx_config X)" "writer_ok (cx_chain X) t (tabs (sh_store s)) given w" "length given \<le> MAX_DECODED_BYTES"
  shows "commit_fields s s' \<and> wr_value_id w' = wr_value_id w \<and> wr_key w' = wr_key w
    \<and> (\<exists>ps. streaming (cx_chain X) t (tabs (sh_store s')) (wr_value_id w) ps)
    \<and> (r = Inr () \<longrightarrow> writer_ok (cx_chain X) t (tabs (sh_store s')) given w' \<and> length (wr_buf w') < lc_chunk_size (cx_config X))"
  using assms
proof (induction n arbitrary: s w)
  case (Suc n)
  let ?size = "lc_chunk_size (cx_config X)" and ?piece = "take (lc_chunk_size (cx_config X)) (wr_buf w)"
  let ?w = "w\<lparr>wr_buf := drop ?size (wr_buf w)\<rparr>"
  obtain ps where ps: "streaming (cx_chain X) t (tabs (sh_store s)) (wr_value_id w) ps" "unat (wr_seq w) = length ps"
    "\<forall>p\<in>set ps. p \<noteq> []" "concat ps @ wr_buf w = given" "wr_total_len w = of_nat (length given)"
    using Suc.prems(6) by (auto simp: writer_ok_def)
  show ?case
  proof (cases "?size \<le> length (wr_buf w)")
    case False
    then have "r = Inr ()" "s' = s" "w' = w" using Suc.prems(2) by (simp_all add: Let_def)
    then show ?thesis using False Suc.prems(6) ps(1) by auto
  next
    case True
    have "length ps \<le> length (concat ps)" by (rule length_le_concat [OF ps(3)])
    then have few: "length ?piece \<le> MAX_DECODED_BYTES" "Suc (length ps) < 2 ^ 32"
      using Suc.prems(7) ps(4) by (auto simp: MAX_DECODED_BYTES_def)
    obtain c u v where f: "flush_piece X ?piece (s, ?w) = (c, (u, v))" by (metis surj_pair)
    have st: "streaming (cx_chain X) t (tabs (sh_store s)) (wr_value_id ?w) ps" "unat (wr_seq ?w) = length ps"
      using ps by simp_all
    note fp = flush_piece_ok [OF f Suc.prems(3,4) st few]
    show ?thesis
    proof (cases c)
      case (Inl e)
      then have "r = Inl e" "s' = u" "w' = v" using Suc.prems(2) True f by (simp_all add: Let_def sbind_def)
      then show ?thesis using fp Inl ps(1) by auto
    next
      case (Inr x)
      then have rest: "write_loop n X (u, v) = (r, (s', w'))" using Suc.prems(2) True f by (simp add: Let_def sbind_def)
      have v: "wr_buf v = drop ?size (wr_buf w)" "wr_value_id v = wr_value_id w" "wr_key v = wr_key w" "wr_total_len v = wr_total_len w"
        using fp Inr by simp_all
      have "concat (ps @ [?piece]) @ wr_buf v = given" using ps(4) v(1) by simp
      moreover have "?piece \<noteq> []" using True Suc.prems(5) by auto
      ultimately have "writer_ok (cx_chain X) t (tabs (sh_store u)) given v"
        unfolding writer_ok_def using fp Inr ps(3,5) v by (intro exI [of _ "ps @ [?piece]"]) auto
      moreover have "length (wr_buf v) < n" using Suc.prems(1,5) True v(1) by simp
      ultimately show ?thesis
        using Suc.IH [OF _ rest Suc.prems(3-5) _ Suc.prems(7)] fp commit_fields_trans v by auto
    qed
  qed
qed simp

lemma write_chunk_ok:
  fixes s :: "('b, 'q, 'z) resident_scheme"
  assumes run: "write_chunk X bs (s, w) = (r, (s', w'))" and B: "cx_backend X = B" and chain: "sound_chain (cx_chain X)"
    and size: "0 < lc_chunk_size (cx_config X)" "length (given @ bs) \<le> MAX_DECODED_BYTES"
    and ok: "writer_ok (cx_chain X) t (tabs (sh_store s)) given w"
  shows "commit_fields s s' \<and> wr_value_id w' = wr_value_id w \<and> wr_key w' = wr_key w
    \<and> (\<exists>ps. streaming (cx_chain X) t (tabs (sh_store s')) (wr_value_id w) ps)
    \<and> (r = Inr () \<longrightarrow> writer_ok (cx_chain X) t (tabs (sh_store s')) (given @ bs) w' \<and> length (wr_buf w') < lc_chunk_size (cx_config X))"
proof -
  let ?w = "w\<lparr>wr_buf := wr_buf w @ bs, wr_total_len := wr_total_len w + of_nat (length bs)\<rparr>"
  have "write_loop (Suc (length (wr_buf ?w))) X (s, ?w) = (r, (s', w'))" using run by (simp add: write_chunk_def Let_def del: write_loop.simps)
  moreover have "writer_ok (cx_chain X) t (tabs (sh_store s)) (given @ bs) ?w"
    using ok by (auto simp: writer_ok_def)
  ultimately show ?thesis using write_loop_ok [OF lessI _ B chain size(1) _ size(2)] by fastforce
qed

end

end
