(* ===== verification/Stream_Runs.thy ===== *)
theory Stream_Runs
  imports Streams Lazy_Progress
begin

text \<open>
  A whole stream, from \<open>writer\<close> to \<open>finish\<close>: what each call leaves behind, what a reader drains,
  and when the loop of \<open>write_chunk\<close> stops.
\<close>

section \<open>A whole stream\<close>

primrec write_all :: "('b, 'q) ctx \<Rightarrow> bytes list \<Rightarrow> (('b, 'q, 'z) inner_state_scheme \<times> writer, error, unit) act" where
  "write_all X [] = sret ()"
| "write_all X (bs # bss) = sbind (write_chunk X bs) (\<lambda>_. write_all X bss)"

definition stream_put :: "('b, 'q) ctx \<Rightarrow> bytes \<Rightarrow> bytes list \<Rightarrow> (('b, 'q, 'z) resident_scheme, error, unit) act" where
  "stream_put X key bss s =
     (case lazy_writer X key s of
        (Inl e, s) \<Rightarrow> (Inl e, s)
      | (Inr w, s) \<Rightarrow>
          (case write_all X bss (s, w) of
             (Inl e, (s, w)) \<Rightarrow> (Inl e, s)
           | (Inr _, (s, w)) \<Rightarrow> writer_finish X w s))"

lemma commit_fields_resident:
  fixes s :: "('b, 'q, 'z) resident_scheme"
  assumes "commit_fields s s'"
  shows "sh_values s' = sh_values s" "rs_staged s' = rs_staged s" "rs_index s' = rs_index s"
    "rs_known_inline s' = rs_known_inline s" "rs_lru s' = rs_lru s" "in_closed s' = in_closed s"
  using assms by (auto simp: commit_fields_def)

text \<open>States that look the same to every reader.\<close>

lemma lazy_ok_same_view:
  fixes s :: "('b, 'q, 'z) resident_scheme"
  assumes ok: "lazy_ok X t s" and keep: "\<And>y. keeps t t' y" and vals: "vals_ok (sh_values s') t'"
    and s': "rs_staged s' = rs_staged s" "rs_index s' = rs_index s" "rs_known_inline s' = rs_known_inline s"
  shows "lazy_ok X t' s' \<and> view_of X t' s' = view_of X t s \<and> (\<forall>ch l k. payload_view ch l t' k = payload_view ch l t k)"
proof -
  have item: "payload_view ch l t' k = payload_view ch l t k" for ch l k
    using keep [of "encode_bytes l k"] by (cases "bt_lookup (tb_records t) (encode_bytes l k)")
      (auto simp: keeps_def payload_view_def stored_item_def)
  then have "payload_view ch l t' = payload_view ch l t" for ch l by (simp add: fun_eq_iff)
  then have view: "view_of X t' s' = view_of X t s" by (simp only: locker_view_eq s'(1))
  have "record_pointers t' y = record_pointers t y" for y using keep [of y] by (simp add: keeps_def record_pointers_def)
  then show ?thesis using ok vals item view s' by (simp add: lazy_ok_def inline_exact_def)
qed

text \<open>The effect of a stream on a locker: all of it or, to a reader, nothing.\<close>

definition streamed :: "('b, 'q) ctx \<Rightarrow> tables \<Rightarrow> ('b, 'q, 'z) resident_scheme \<Rightarrow> tables \<Rightarrow> ('b, 'q, 'z) resident_scheme
    \<Rightarrow> bytes \<Rightarrow> bytes option \<Rightarrow> bool" where
  "streamed X t s t' s' key done \<longleftrightarrow>
     lazy_ok X t' s' \<and> rs_staged s' = rs_staged s \<and> in_closed s' = in_closed s
     \<and> (\<forall>ch l k. l \<noteq> cx_id X \<longrightarrow> payload_view ch l t' k = payload_view ch l t k)
     \<and> (case done of
          Some bs \<Rightarrow> view_of X t' s' = (view_of X t s)(key \<mapsto> Inr (True, bs)) \<and> (no_orphans t \<longrightarrow> no_orphans t')
        | None \<Rightarrow> view_of X t' s' = view_of X t s)"

context backend_contract
begin

text \<open>Between two calls on the writer, and after one that failed.\<close>

lemma streaming_same_view:
  fixes s :: "('b, 'q, 'z) resident_scheme"
  assumes st: "streaming (cx_chain X) (tabs (sh_store s)) (tabs (sh_store s')) vid ps" and ok: "lazy_ok X (tabs (sh_store s)) s"
    and s': "commit_fields (s\<lparr>sh_values := Some n\<rparr>) s'" "checked_succ vid = Some n"
  shows "lazy_ok X (tabs (sh_store s')) s' \<and> view_of X (tabs (sh_store s')) s' = view_of X (tabs (sh_store s)) s
    \<and> (\<forall>ch l k. payload_view ch l (tabs (sh_store s')) k = payload_view ch l (tabs (sh_store s)) k)"
proof (rule lazy_ok_same_view [OF ok])
  have good: "owned (tabs (sh_store s))" "below (tabs (sh_store s)) (stored_counter (tabs (sh_store s)))"
    using ok by (simp_all add: lazy_ok_def vals_ok_def)
  show "keeps (tabs (sh_store s)) (tabs (sh_store s')) y" for y by (rule streaming_keeps [OF st good(2)])
  have "below (tabs (sh_store s')) (stored_counter (tabs (sh_store s')))"
    using streaming_low [OF st good(2)] streaming_counter [OF st] streaming_points [OF st] less_trans
    unfolding below_def by blast
  moreover have "n = stored_counter (tabs (sh_store s'))" using st s'(2) by (simp add: streaming_def)
  ultimately show "vals_ok (sh_values s') (tabs (sh_store s'))"
    using good(1) streaming_points [OF st] commit_fields_resident(1) [OF s'(1)]
    by (simp add: vals_ok_def owned_def cursor_above_def)
qed (use commit_fields_resident [OF s'(1)] in simp_all)

lemma write_all_ok:
  fixes s :: "('b, 'q, 'z) resident_scheme"
  assumes "write_all X bss (s, w) = (r, (s', w'))" "cx_backend X = B" "sound_chain (cx_chain X)" "0 < lc_chunk_size (cx_config X)"
    "length (given @ concat bss) \<le> MAX_DECODED_BYTES" "writer_ok (cx_chain X) t (tabs (sh_store s)) given w"
    "length (wr_buf w) < lc_chunk_size (cx_config X)"
  shows "commit_fields s s' \<and> wr_key w' = wr_key w \<and> wr_value_id w' = wr_value_id w
    \<and> (\<exists>ps. streaming (cx_chain X) t (tabs (sh_store s')) (wr_value_id w) ps)
    \<and> (r = Inr () \<longrightarrow> writer_ok (cx_chain X) t (tabs (sh_store s')) (given @ concat bss) w' \<and> length (wr_buf w') < lc_chunk_size (cx_config X))"
  using assms
proof (induction bss arbitrary: s w given)
  case Nil
  then show ?case by (auto simp: writer_ok_def)
next
  case (Cons bs bss)
  obtain c u v where c: "write_chunk X bs (s, w) = (c, (u, v))" by (metis surj_pair)
  have len: "length (given @ bs) \<le> MAX_DECODED_BYTES" using Cons.prems(5) by simp
  note wc = write_chunk_ok [OF c Cons.prems(2-4) len Cons.prems(6)]
  show ?case
  proof (cases c)
    case (Inl e)
    then have "r = Inl e" "s' = u" "w' = v" using Cons.prems(1) c by (simp_all add: sbind_def)
    then show ?thesis using wc by auto
  next
    case (Inr x)
    then have rest: "write_all X bss (u, v) = (r, (s', w'))" using Cons.prems(1) c by (simp add: sbind_def)
    have v: "writer_ok (cx_chain X) t (tabs (sh_store u)) (given @ bs) v" "length (wr_buf v) < lc_chunk_size (cx_config X)"
      using wc Inr by simp_all
    have "length ((given @ bs) @ concat bss) \<le> MAX_DECODED_BYTES" using Cons.prems(5) by simp
    from Cons.IH [OF rest Cons.prems(2-4) this v] show ?thesis
      using wc commit_fields_trans [of s u s'] by auto
  qed
qed

lemma lazy_writer_ok:
  fixes s :: "('b, 'q, 'z) resident_scheme"
  assumes run: "lazy_writer X key s = (r, s')" and B: "cx_backend X = B" and ok: "lazy_ok X (tabs (sh_store s)) s"
  shows "case r of
      Inl e \<Rightarrow> unharmed s s'
    | Inr w \<Rightarrow> wr_key w = key \<and> wr_buf w = [] \<and> writer_ok (cx_chain X) (tabs (sh_store s)) (tabs (sh_store s')) [] w
        \<and> (\<exists>n. checked_succ (wr_value_id w) = Some n \<and> commit_fields (s\<lparr>sh_values := Some n\<rparr>) s')"
proof (cases "in_closed s")
  case True
  then have "r = Inl Closed" "s' = s" using run by (simp_all add: lazy_writer_def ensure_open_def sbind_def)
  then show ?thesis by simp
next
  case False
  obtain a v where a: "allocate B (sh_store s) (sh_values s) = (a, v)" by fastforce
  have start: "writer_start X key s = (r, s')" using run False by (simp add: lazy_writer_def ensure_open_def sbind_def)
  have nid: "next_value_id X s = (a, s\<lparr>sh_values := v\<rparr>)" using a B by (simp add: next_value_id_def on_values_def)
  have harm: "unharmed s (s\<lparr>sh_values := v\<rparr>)" using harmless_app [OF harmless_allocate [OF B], of s] nid by simp
  show ?thesis
  proof (cases a)
    case (Inl e)
    then have "r = Inl e" "s' = s\<lparr>sh_values := v\<rparr>" using start nid by (simp_all add: writer_start_def sbind_def)
    then show ?thesis using harm by simp
  next
    case (Inr vid)
    obtain n where n: "v = Some n" "checked_succ vid = Some n"
      and low: "case sh_values s of Some m \<Rightarrow> vid = m | None \<Rightarrow> stored_counter (tabs (sh_store s)) \<le> vid"
      using allocate_Inr [OF a [unfolded Inr]] by blast
    have ge: "stored_counter (tabs (sh_store s)) \<le> vid"
      using low ok by (cases "sh_values s") (auto simp: lazy_ok_def vals_ok_def cursor_above_def)
    obtain c u where com: "inner_commit X [counter_op_for n] (s\<lparr>sh_values := Some n\<rparr>) = (c, u)" by fastforce
    show ?thesis
    proof (cases c)
      case Inl': (Inl e)
      then have "r = Inl e" "s' = u"
        using start nid Inr n com by (simp_all add: writer_start_def sbind_def value_counter_op_def vid_counter_op_def)
      then show ?thesis using unharmed_trans [OF harm] inner_commit_Inl [OF com [unfolded Inl'] B] n by simp
    next
      case Inr': (Inr x)
      then have r: "s' = u"
        "r = Inr \<lparr>wr_key = key, wr_value_id = vid, wr_seq = 0, wr_total_len = 0, wr_buf = [], wr_finished = False\<rparr>"
        using start nid Inr n com by (simp_all add: writer_start_def sbind_def value_counter_op_def vid_counter_op_def)
      have "tabs (sh_store u) = apply_ops (tabs (sh_store s)) [counter_op_for n]"
        using inner_commit_Inr(1) [OF com [unfolded Inr'] B] by simp
      then have "streaming (cx_chain X) (tabs (sh_store s)) (tabs (sh_store u)) vid []"
        using streaming_start [OF ge n(2)] by simp
      then have "writer_ok (cx_chain X) (tabs (sh_store s)) (tabs (sh_store u)) []
          \<lparr>wr_key = key, wr_value_id = vid, wr_seq = 0, wr_total_len = 0, wr_buf = [], wr_finished = False\<rparr>"
        unfolding writer_ok_def by (intro exI [of _ "[]"]) simp
      then show ?thesis
        using r n inner_commit_fields [of "s\<lparr>sh_values := Some n\<rparr>" X "[counter_op_for n]"] com by auto
    qed
  qed
qed

lemma streaming_unfinished:
  fixes s :: "('b, 'q, 'z) resident_scheme"
  assumes "streaming (cx_chain X) (tabs (sh_store s)) (tabs (sh_store s')) vid ps" "lazy_ok X (tabs (sh_store s)) s"
    and "commit_fields (s\<lparr>sh_values := Some n\<rparr>) s'" "checked_succ vid = Some n"
  shows "streamed X (tabs (sh_store s)) s (tabs (sh_store s')) s' key None"
  using streaming_same_view [OF assms] commit_fields_resident [OF assms(3)] by (simp add: streamed_def)

lemma finish_commit_ok:
  fixes s :: "('b, 'q, 'z) resident_scheme"
  assumes ok: "lazy_ok X (tabs (sh_store s)) s" "staged_view (rs_staged s) key = None" and B: "cx_backend X = B"
    and u: "commit_fields (s\<lparr>sh_values := Some n\<rparr>) u" "checked_succ (wr_value_id w) = Some n"
    and w: "writer_ok (cx_chain X) (tabs (sh_store s)) (tabs (sh_store u)) given w" "wr_buf w = []" "wr_key w = key"
      "length given \<le> MAX_DECODED_BYTES"
    and com: "inner_commit X (map gc_ops (record_pointers (tabs (sh_store u)) (encode_key X key))
        @ [Op_Put Records (encode_key X key) (pointer_encode (writer_pointer w (wr_total_len w)))]) u = (Inr x, v)"
    and s': "s' = announce X ev (note_inline key False (touch_index (ks_insert key) v))"
  shows "streamed X (tabs (sh_store s)) s (tabs (sh_store s')) s' key (Some given)"
proof -
  let ?t = "tabs (sh_store s)" and ?t' = "tabs (sh_store s')" and ?x = "encode_key X key"
  obtain ps where ps: "streaming (cx_chain X) ?t (tabs (sh_store u)) (wr_value_id w) ps" "unat (wr_seq w) = length ps"
    "\<forall>p\<in>set ps. p \<noteq> []" "concat ps = given" "wr_total_len w = of_nat (length given)"
    using w(1,2) by (auto simp: writer_ok_def)
  have vals: "owned ?t" "below ?t (stored_counter ?t)" using ok(1) by (simp_all add: lazy_ok_def vals_ok_def)
  have sq: "wr_seq w = of_nat (length ps)" unfolding ps(2) [symmetric] by simp
  have ptr: "writer_pointer w (wr_total_len w)
      = \<lparr>cp_value_id = wr_value_id w, cp_n_chunks = of_nat (length ps), cp_total_len = of_nat (length (concat ps)), cp_flags = FLAG_RAW\<rparr>"
    by (simp add: writer_pointer_def sq ps(4,5))
  have t': "?t' = apply_ops (tabs (sh_store u)) (map gc_ops (record_pointers (tabs (sh_store u)) ?x)
      @ [Op_Put Records ?x (pointer_encode (writer_pointer w (wr_total_len w)))])"
    using inner_commit_Inr(1) [OF com B] by (simp add: s')
  have few: "length ps \<le> length (concat ps)" "length (concat ps) \<le> MAX_DECODED_BYTES"
    using length_le_concat [OF ps(3)] w(4) ps(4) by simp_all
  note fin = streaming_finish [OF ps(1) vals few ptr t']
  have fields: "sh_values s' = Some n" "rs_staged s' = rs_staged s"
    "rs_index s' = map_option (ks_insert key) (rs_index s)" "rs_known_inline s' = map_option (bt_remove key) (rs_known_inline s)"
    using inner_commit_Inr(2-5) [OF com B] commit_fields_resident [OF u(1)] by (simp_all add: s')
  have same: "payload_view ch l ?t' k = payload_view ch l ?t k" if "encode_bytes l k \<noteq> ?x" for ch l k
    using fin(1) [OF that] by (cases "bt_lookup (tb_records ?t) (encode_bytes l k)") (auto simp: keeps_def payload_view_def stored_item_def)
  have new: "payload_view (cx_chain X) (cx_id X) ?t' key = Some (Inr (True, given))"
    using fin(2) ps(4) by (simp add: payload_view_def encode_key_eq)
  have view: "view_of X ?t' s' = (view_of X ?t s)(key \<mapsto> Inr (True, given))"
    using same new ok(2) by (auto simp: fun_eq_iff locker_view_def fields encode_key_eq split: option.splits)
  have "n = stored_counter ?t'" using ps(1) u(2) fin(5) by (simp add: streaming_def)
  then have "vals_ok (sh_values s') ?t'" using fin(3,4) by (simp add: vals_ok_def fields cursor_above_def)
  moreover have "index_exact (rs_index s') (view_of X ?t' s')"
    unfolding view fields(3) using ok(1) by (auto simp: lazy_ok_def index_exact_def)
  moreover have "inline_exact X ?t' (rs_staged s') (rs_known_inline s')"
    using ok(1) fin(1) by (auto simp: lazy_ok_def inline_exact_def fields encode_key_eq keeps_def record_pointers_def)
  ultimately have "lazy_ok X ?t' s'" using ok(1) by (simp add: lazy_ok_def fields)
  moreover have "encode_bytes l k \<noteq> ?x" if "l \<noteq> cx_id X" for l k using that by (auto simp: encode_key_eq)
  moreover have "in_closed s' = in_closed s"
  proof -
    have "commit_fields u v" using inner_commit_fields [of u X] com by (metis snd_conv)
    then have "in_closed v = in_closed s" using commit_fields_resident(6) [of u v] commit_fields_resident(6) [OF u(1)] by simp
    then show ?thesis by (simp add: s' announce_def note_inline_def touch_index_def)
  qed
  ultimately show ?thesis using same view fin(6) fields(2) by (simp add: streamed_def)
qed

lemma writer_publish_ok:
  fixes s :: "('b, 'q, 'z) resident_scheme"
  assumes run: "writer_publish X w u = (r, s')" and B: "cx_backend X = B"
    and ok: "lazy_ok X (tabs (sh_store s)) s" "staged_view (rs_staged s) (wr_key w) = None"
    and u: "commit_fields (s\<lparr>sh_values := Some n\<rparr>) u" "checked_succ (wr_value_id w) = Some n"
    and w: "writer_ok (cx_chain X) (tabs (sh_store s)) (tabs (sh_store u)) given w" "wr_buf w = []" "length given \<le> MAX_DECODED_BYTES"
  shows "streamed X (tabs (sh_store s)) s (tabs (sh_store s')) s' (wr_key w) (if r = Inr () then Some given else None)"
proof -
  let ?x = "encode_key X (wr_key w)"
  obtain ps where st: "streaming (cx_chain X) (tabs (sh_store s)) (tabs (sh_store u)) (wr_value_id w) ps"
    using w(1) by (auto simp: writer_ok_def)
  note unfinished = streaming_unfinished [OF _ ok(1) _ u(2), where key = "wr_key w"]
  show ?thesis
  proof (cases "gc_existing X (sh_store u) (wr_key w) Prior_Unknown")
    case (Inl e)
    then have "r = Inl e" "s' = u" using run by (simp_all add: writer_publish_def sbind_def)
    then show ?thesis using unfinished [OF st u(1)] by simp
  next
    case (Inr gc)
    have gc: "gc = map gc_ops (record_pointers (tabs (sh_store u)) ?x)"
      using gc_existing_spec [OF Inr B] by (simp add: needs_read_def)
    let ?ops = "gc @ [Op_Put Records ?x (pointer_encode (writer_pointer w (wr_total_len w)))]"
    obtain c z where com: "inner_commit X ?ops u = (c, z)" by fastforce
    show ?thesis
    proof (cases c)
      case Inl': (Inl e)
      then have "r = Inl e" "s' = z" using run Inr com by (simp_all add: writer_publish_def sbind_def)
      then show ?thesis
        using unfinished [of z, OF _ commit_fields_trans [OF u(1)]] inner_commit_failed [OF com [unfolded Inl'] B] st by simp
    next
      case Inr': (Inr x)
      then have "r = Inr ()"
        and s': "s' = announce X (Ev_Put (wr_key w)) (note_inline (wr_key w) False (touch_index (ks_insert (wr_key w)) z))"
        using run Inr com by (simp_all add: writer_publish_def sbind_def)
      then show ?thesis using finish_commit_ok [OF ok B u w(1,2) refl w(3) com [unfolded gc Inr'] s'] by simp
    qed
  qed
qed

lemma writer_finish_ok:
  fixes s :: "('b, 'q, 'z) resident_scheme"
  assumes run: "writer_finish X w u = (r, s')" and B: "cx_backend X = B" and chain: "sound_chain (cx_chain X)"
    and ok: "lazy_ok X (tabs (sh_store s)) s" "staged_view (rs_staged s) (wr_key w) = None"
    and u: "commit_fields (s\<lparr>sh_values := Some n\<rparr>) u" "checked_succ (wr_value_id w) = Some n"
    and w: "writer_ok (cx_chain X) (tabs (sh_store s)) (tabs (sh_store u)) given w" "length given \<le> MAX_DECODED_BYTES"
  shows "streamed X (tabs (sh_store s)) s (tabs (sh_store s')) s' (wr_key w) (if r = Inr () then Some given else None)"
proof (cases "wr_buf w = []")
  case True
  with run have "writer_publish X w u = (r, s')" by (simp add: writer_finish_def)
  from writer_publish_ok [OF this B ok u w(1) True w(2)] show ?thesis .
next
  case False
  let ?w = "w\<lparr>wr_buf := []\<rparr>"
  obtain ps where ps: "streaming (cx_chain X) (tabs (sh_store s)) (tabs (sh_store u)) (wr_value_id w) ps" "unat (wr_seq w) = length ps"
    "\<forall>p\<in>set ps. p \<noteq> []" "concat ps @ wr_buf w = given" "wr_total_len w = of_nat (length given)"
    using w(1) by (auto simp: writer_ok_def)
  obtain c u' v where f: "flush_piece X (wr_buf w) (u, ?w) = (c, (u', v))" by (metis surj_pair)
  have few: "length (wr_buf w) \<le> MAX_DECODED_BYTES" "Suc (length ps) < 2 ^ 32"
    using length_le_concat [OF ps(3)] ps(4) w(2) by (auto simp: MAX_DECODED_BYTES_def)
  have st: "streaming (cx_chain X) (tabs (sh_store s)) (tabs (sh_store u)) (wr_value_id ?w) ps" "unat (wr_seq ?w) = length ps"
    using ps by simp_all
  note fp = flush_piece_ok [OF f B chain st few]
  have u': "commit_fields (s\<lparr>sh_values := Some n\<rparr>) u'" using fp commit_fields_trans [OF u(1)] by blast
  show ?thesis
  proof (cases c)
    case (Inl e)
    then have "r = Inl e" "s' = u'" using run False f by (simp_all add: writer_finish_def)
    then show ?thesis using streaming_unfinished [OF _ ok(1) u' u(2)] fp Inl ps(1) by simp
  next
    case (Inr x)
    have v: "wr_buf v = []" "wr_key v = wr_key w" "wr_value_id v = wr_value_id w" "wr_total_len v = wr_total_len w"
      using fp Inr by simp_all
    have "writer_ok (cx_chain X) (tabs (sh_store s)) (tabs (sh_store u')) given v"
      unfolding writer_ok_def using fp Inr False ps(3-5) v by (intro exI [of _ "ps @ [wr_buf w]"]) auto
    moreover have "writer_publish X v u' = (r, s')" using run False f Inr by (simp add: writer_finish_def)
    ultimately show ?thesis using writer_publish_ok [OF _ B ok(1) _ u'] ok(2) u(2) v w(2) by metis
  qed
qed

lemma stream_put_ok:
  fixes s :: "('b, 'q, 'z) resident_scheme"
  assumes run: "stream_put X key bss s = (r, s')" and B: "cx_backend X = B" and chain: "sound_chain (cx_chain X)"
    and ok: "lazy_ok X (tabs (sh_store s)) s" "staged_view (rs_staged s) key = None"
    and size: "0 < lc_chunk_size (cx_config X)" "length (concat bss) \<le> MAX_DECODED_BYTES"
  shows "streamed X (tabs (sh_store s)) s (tabs (sh_store s')) s' key (if r = Inr () then Some (concat bss) else None)"
proof -
  obtain a u where start: "lazy_writer X key s = (a, u)" by fastforce
  note lw = lazy_writer_ok [OF start B ok(1)]
  show ?thesis
  proof (cases a)
    case (Inl e)
    then have r: "r = Inl e" "s' = u" using run start by (simp_all add: stream_put_def)
    have "tabs (sh_store u) = tabs (sh_store s)" "lazy_ok X (tabs (sh_store u)) u" "rs_staged u = rs_staged s" "in_closed u = in_closed s"
      using lw Inl unharmed_fields(1,2,7) [of s u] unharmed_effect [of s u X] ok(1) by (auto simp: effect_def)
    then show ?thesis by (simp add: streamed_def r)
  next
    case (Inr w)
    obtain n where w: "wr_key w = key" "wr_buf w = []" "writer_ok (cx_chain X) (tabs (sh_store s)) (tabs (sh_store u)) [] w"
      and n: "checked_succ (wr_value_id w) = Some n" "commit_fields (s\<lparr>sh_values := Some n\<rparr>) u"
      using lw Inr by auto
    obtain c v w' where wr: "write_all X bss (u, w) = (c, (v, w'))" by (metis surj_pair)
    have len: "length ([] @ concat bss) \<le> MAX_DECODED_BYTES" "length (wr_buf w) < lc_chunk_size (cx_config X)" using size w(2) by simp_all
    note wa = write_all_ok [OF wr B chain size(1) len(1) w(3) len(2)]
    have v: "commit_fields (s\<lparr>sh_values := Some n\<rparr>) v" using commit_fields_trans [OF n(2)] wa by blast
    show ?thesis
    proof (cases c)
      case Inl': (Inl e)
      then have "r = Inl e" "s' = v" using run start Inr wr by (simp_all add: stream_put_def)
      then show ?thesis using streaming_unfinished [OF _ ok(1) v n(1)] wa by fastforce
    next
      case Inr': (Inr x)
      then have fin: "writer_finish X w' v = (r, s')" using run start Inr wr by (simp add: stream_put_def)
      have w': "wr_key w' = key" "wr_value_id w' = wr_value_id w"
        "writer_ok (cx_chain X) (tabs (sh_store s)) (tabs (sh_store v)) (concat bss) w'"
        using wa w(1) Inr' by simp_all
      show ?thesis
        using writer_finish_ok [OF fin B chain ok(1) _ v _ w'(3) size(2)] ok(2) n(1) by (simp add: w')
    qed
  qed
qed

end

section \<open>Reading a stream\<close>

text \<open>What a whole-value read went through, piece by piece.\<close>

lemma push_piece_Inr:
  "push_piece ch p sq out (n, x) = Inr out' \<Longrightarrow> \<exists>sealed a. x = Some sealed \<and> chain_open ch sealed = Inr a \<and> out' = out @ a"
  by (auto simp: push_piece_def rbind_eq_Inr_iff Let_def split: option.splits if_splits)

lemma push_pieces_held:
  assumes "foldM_r (push_piece ch p sq) out (enumerate n xs) = Inr out'"
  shows "\<exists>ps. length ps = length xs \<and> out' = out @ concat ps
    \<and> (\<forall>j<length xs. \<exists>sealed. xs ! j = Some sealed \<and> chain_open ch sealed = Inr (ps ! j))"
  using assms
proof (induction xs arbitrary: n out)
  case (Cons x xs)
  obtain sealed a where x: "x = Some sealed" "chain_open ch sealed = Inr a"
    and rest: "foldM_r (push_piece ch p sq) (out @ a) (enumerate (Suc n) xs) = Inr out'"
    using Cons.prems by (auto simp: rbind_eq_Inr_iff dest: push_piece_Inr)
  obtain ps where ps: "length ps = length xs" "out' = (out @ a) @ concat ps"
    "\<forall>j<length xs. \<exists>sealed. xs ! j = Some sealed \<and> chain_open ch sealed = Inr (ps ! j)"
    using Cons.IH [OF rest] by blast
  then show ?case using x by (intro exI [of _ "a # ps"]) (auto simp: nth_Cons split: nat.splits)
qed simp

lemma read_groups_held:
  assumes "read_groups memory_backend_vt (mem_of t) ch p sq out = Inr out'" "sq \<le> cp_n_chunks p"
  shows "\<exists>ps. length ps = unat (cp_n_chunks p) - unat sq \<and> out' = out @ concat ps
    \<and> (\<forall>j<length ps. \<exists>sealed. bt_lookup (tb_chunks t) (chunk_key (cp_value_id p) (of_nat (unat sq + j))) = Some sealed
          \<and> chain_open ch sealed = Inr (ps ! j))"
  using assms
proof (induction "unat (cp_n_chunks p) - unat sq" arbitrary: sq out rule: less_induct)
  case less
  show ?case
  proof (cases "sq < cp_n_chunks p")
    case False
    then have "out' = out" using less.prems(1) by (subst (asm) read_groups.simps) simp
    then show ?thesis using False less.prems(2) by (intro exI [of _ "[]"]) simp
  next
    case True
    define upto where "upto = min (sat_add sq CHUNK_FETCH_GROUP) (cp_n_chunks p)"
    define xs where "xs = map (\<lambda>i. bt_lookup (tb_chunks t) (chunk_key (cp_value_id p) (of_nat i))) [unat sq..<unat upto]"
    have up: "unat sq < unat upto" "unat upto \<le> unat (cp_n_chunks p)" "upto \<le> cp_n_chunks p"
      using group_progress [OF True] by (auto simp: upto_def min_def word_le_nat_alt)
    obtain mid where mid: "foldM_r (push_piece ch p sq) out (enumerate 0 xs) = Inr mid"
      and rest: "read_groups memory_backend_vt (mem_of t) ch p upto mid = Inr out'"
      using less.prems(1) True
      by (subst (asm) read_groups.simps) (auto simp: Let_def mem_get_many rbind_eq_Inr_iff xs_def upto_def comp_def)
    obtain qs where qs: "length qs = length xs" "mid = out @ concat qs"
      "\<forall>j<length xs. \<exists>sealed. xs ! j = Some sealed \<and> chain_open ch sealed = Inr (qs ! j)"
      using push_pieces_held [OF mid] by blast
    have "unat (cp_n_chunks p) - unat upto < unat (cp_n_chunks p) - unat sq" using up(1,2) by linarith
    from less.hyps [OF this rest up(3)] obtain rs where rs: "length rs = unat (cp_n_chunks p) - unat upto" "out' = mid @ concat rs"
      "\<forall>j<length rs. \<exists>sealed. bt_lookup (tb_chunks t) (chunk_key (cp_value_id p) (of_nat (unat upto + j))) = Some sealed
          \<and> chain_open ch sealed = Inr (rs ! j)" by blast
    have len: "length qs = unat upto - unat sq" using qs(1) by (simp add: xs_def)
    have "\<exists>sealed. bt_lookup (tb_chunks t) (chunk_key (cp_value_id p) (of_nat (unat sq + j))) = Some sealed
          \<and> chain_open ch sealed = Inr ((qs @ rs) ! j)" if "j < length (qs @ rs)" for j
    proof (cases "j < length qs")
      case True
      then show ?thesis using qs(1,3) len by (auto simp: nth_append xs_def)
    next
      case False
      then have "unat sq + j = unat upto + (j - length qs)" using len up(1) by linarith
      then show ?thesis using rs(3) [rule_format, of "j - length qs"] that False by (simp add: nth_append)
    qed
    then show ?thesis using qs(2) rs(1,2) len up(1,2) by (intro exI [of _ "qs @ rs"]) auto
  qed
qed

lemma read_chunks_held:
  assumes "read_chunks memory_backend_vt (mem_of t) ch p = Inr bs"
  shows "\<exists>ps. length ps = unat (cp_n_chunks p) \<and> bs = concat ps \<and> length bs = unat (cp_total_len p)
    \<and> chunks_hold ch t (cp_value_id p) ps"
proof -
  have "read_groups memory_backend_vt (mem_of t) ch p 0 [] = Inr bs" "length bs = unat (cp_total_len p)"
    using assms by (auto simp: read_chunks_def rbind_eq_Inr_iff split: if_splits)
  then show ?thesis using read_groups_held [of t ch p 0 "[]" bs] by (auto simp: chunks_hold_def)
qed

text \<open>Draining a reader: the calls of a caller until \<open>next_chunk\<close> returns none.\<close>

primrec drain :: "nat \<Rightarrow> ('b, 'q) ctx \<Rightarrow> 'b \<Rightarrow> (reader, error, bytes list) act" where
  "drain 0 X b = slift (Inl Diverged)"
| "drain (Suc n) X b = sbind (next_chunk X b) (\<lambda>c. case c of None \<Rightarrow> sret [] | Some p \<Rightarrow> sbind (drain n X b) (\<lambda>ps. sret (p # ps)))"

context live_backend
begin

lemma drain_pointer:
  assumes "ready b" "cx_backend X = B" "chunks_hold (cx_chain X) (tabs b) (cp_value_id p) ps" "length ps = unat (cp_n_chunks p)"
    and "unat sq \<le> length ps" "length ps - unat sq < n"
  shows "\<exists>rd. drain n X b \<lparr>rd_pointer = Some p, rd_seq = sq, rd_inline = None\<rparr> = (Inr (drop (unat sq) ps), rd)"
  using assms(5,6)
proof (induction n arbitrary: sq)
  case (Suc n)
  show ?case
  proof (cases "sq < cp_n_chunks p")
    case False
    then have "drop (unat sq) ps = []" using assms(4) by (simp add: word_less_nat_alt)
    then show ?thesis using False by (simp add: sbind_def next_chunk_def not_less)
  next
    case True
    then have less: "unat sq < length ps" using assms(4) by (simp add: word_less_nat_alt)
    then obtain sealed where s: "bt_lookup (tb_chunks (tabs b)) (chunk_key (cp_value_id p) sq) = Some sealed"
      "chain_open (cx_chain X) sealed = Inr (ps ! unat sq)"
      using assms(3) [unfolded chunks_hold_def, rule_format, of "unat sq"] by auto
    have "Suc (unat sq) < 2 ^ 32" using less assms(4) unat_lt2p [of "cp_n_chunks p"] by simp
    then have next': "unat (sq + 1) = Suc (unat sq)" by (simp add: unat_word_ariths)
    then obtain rd where rd: "drain n X b \<lparr>rd_pointer = Some p, rd_seq = sq + 1, rd_inline = None\<rparr> = (Inr (drop (Suc (unat sq)) ps), rd)"
      using Suc.IH [of "sq + 1"] less Suc.prems(2) by (fastforce simp: less_diff_conv2)
    have "next_chunk X b \<lparr>rd_pointer = Some p, rd_seq = sq, rd_inline = None\<rparr>
        = (Inr (Some (ps ! unat sq)), \<lparr>rd_pointer = Some p, rd_seq = sq + 1, rd_inline = None\<rparr>)"
      using True s get_live [OF assms(1), of Chunks] by (simp add: next_chunk_def assms(2))
    then show ?thesis using rd Cons_nth_drop_Suc [OF less] by (simp add: sbind_def)
  qed
qed simp

text \<open>A reader yields the value a whole read returns, and says its length.\<close>

lemma reader_yields:
  assumes "ready (sh_store s)" "cx_backend X = B" "\<not> in_closed s"
    and "payload_view (cx_chain X) (cx_id X) (tabs (sh_store s)) key = Some (Inr (raw, bs))" "length bs < 2 ^ 64"
  shows "\<exists>rd ps. lazy_reader X key s = (Inr (Some rd), s) \<and> unat (reader_len rd) = length bs
    \<and> concat ps = bs \<and> (\<forall>n > length ps. fst (drain n X (sh_store s) rd) = Inr ps)"
proof -
  obtain raw' where r: "bt_lookup (tb_records (tabs (sh_store s))) (encode_key X key) = Some raw'"
    "stored_payload (cx_chain X) (tabs (sh_store s)) raw' = Inr bs"
    using assms(4) by (auto simp: payload_view_def stored_item_def rbind_eq_Inr_iff encode_key_eq)
  have f: "fetch X (sh_store s) key = Inr (Some raw')" using r(1) get_live [OF assms(1), of Records] by (simp add: fetch_def assms(2))
  show ?thesis
  proof (cases "is_pointer raw'")
    case False
    have ld: "lazy_reader X key s = (Inr (Some (from_inline bs)), s)"
      using f False r(2) assms(3) by (simp add: lazy_reader_def ensure_open_def sbind_def stored_payload_def)
    have "fst (drain n X (sh_store s) (from_inline bs)) = Inr [bs]" if "n > length [bs]" for n
    proof -
      have n: "n = Suc (Suc (n - 2))" using that by simp
      show ?thesis by (subst n) (simp add: sbind_def next_chunk_def from_inline_def)
    qed
    moreover have "unat (reader_len (from_inline bs)) = length bs"
      using assms(5) by (simp add: reader_len_def from_inline_def unat_of_nat)
    ultimately show ?thesis using ld by (intro exI [of _ "from_inline bs"] exI [of _ "[bs]"]) auto
  next
    case True
    then obtain p where p: "pointer_parse raw' = Inr p" "read_chunks memory_backend_vt (mem_of (tabs (sh_store s))) (cx_chain X) p = Inr bs"
      using r(2) by (auto simp: stored_payload_def rbind_eq_Inr_iff)
    obtain ps where ps: "length ps = unat (cp_n_chunks p)" "bs = concat ps" "length bs = unat (cp_total_len p)"
      "chunks_hold (cx_chain X) (tabs (sh_store s)) (cp_value_id p) ps" using read_chunks_held [OF p(2)] by blast
    have "fst (drain n X (sh_store s) (from_pointer p)) = Inr ps" if "n > length ps" for n
      using drain_pointer [OF assms(1,2) ps(4,1), of 0 n] that by (auto simp: from_pointer_def)
    moreover have "lazy_reader X key s = (Inr (Some (from_pointer p)), s)"
      using f True p(1) assms(3) by (simp add: lazy_reader_def ensure_open_def sbind_def)
    ultimately show ?thesis using ps(2,3)
      by (intro exI [of _ "from_pointer p"] exI [of _ ps]) (auto simp: reader_len_def from_pointer_def)
  qed
qed

end

section \<open>The loop of \<open>write_chunk\<close>\<close>

lemma flush_piece_buf: "wr_buf (snd (snd (flush_piece X piece (s, w)))) = wr_buf w"
  by (simp add: flush_piece_def split: sum.split prod.split)

lemma write_loop_step:
  "write_loop (Suc n) X (s, w) =
     (if lc_chunk_size (cx_config X) \<le> length (wr_buf w) then
        (case flush_piece X (take (lc_chunk_size (cx_config X)) (wr_buf w)) (s, w\<lparr>wr_buf := drop (lc_chunk_size (cx_config X)) (wr_buf w)\<rparr>) of
           (Inl e, sw) \<Rightarrow> (Inl e, sw)
         | (Inr _, sw) \<Rightarrow> write_loop n X sw)
      else (Inr (), (s, w)))"
  by (simp add: Let_def sbind_def)

lemma write_loop_enough:
  fixes s :: "('b, 'q, 'z) inner_state_scheme"
  assumes "0 < lc_chunk_size (cx_config X)" "length (wr_buf w) < n" "length (wr_buf w) < m"
  shows "write_loop n X (s, w) = write_loop m X (s, w)
    \<and> (case write_loop n X (s, w) of
         (Inr _, (_, w')) \<Rightarrow> length (wr_buf w') < lc_chunk_size (cx_config X)
       | (Inl e, _) \<Rightarrow> \<exists>piece (u :: ('b, 'q, 'z) inner_state_scheme) v. fst (flush_piece X piece (u, v)) = Inl e)"
  using assms(2,3)
proof (induction n arbitrary: m s w)
  case (Suc n)
  let ?k = "lc_chunk_size (cx_config X)"
  obtain j where m: "m = Suc j" using Suc.prems(2) by (cases m) auto
  obtain c u v where f: "flush_piece X (take ?k (wr_buf w)) (s, w\<lparr>wr_buf := drop ?k (wr_buf w)\<rparr>) = (c, (u, v))" by (metis surj_pair)
  have v: "wr_buf v = drop ?k (wr_buf w)" using flush_piece_buf [of X "take ?k (wr_buf w)" s "w\<lparr>wr_buf := drop ?k (wr_buf w)\<rparr>"] f by simp
  show ?case
  proof (cases "?k \<le> length (wr_buf w)")
    case True
    have less: "length (wr_buf v) < n" "length (wr_buf v) < j" using Suc.prems assms(1) True v m by simp_all
    show ?thesis
    proof (cases c)
      case (Inl e)
      then have "fst (flush_piece X (take ?k (wr_buf w)) (s, w\<lparr>wr_buf := drop ?k (wr_buf w)\<rparr>)) = Inl e" using f by simp
      then have "\<exists>piece (u :: ('b, 'q, 'z) inner_state_scheme) v. fst (flush_piece X piece (u, v)) = Inl e" by blast
      then show ?thesis unfolding m write_loop_step f using True Inl by simp
    next
      case (Inr x)
      from Suc.IH [OF less, of u] have "write_loop n X (u, v) = write_loop j X (u, v)" by blast
      with Suc.IH [OF less, of u] show ?thesis unfolding m write_loop_step f using True Inr by (simp del: split_paired_Ex)
    qed
  next
    case False
    then show ?thesis unfolding m write_loop_step by simp
  qed
qed simp

lemma write_loop_empty_pieces:
  "lc_chunk_size (cx_config X) = 0 \<Longrightarrow> fst (write_loop n X (s, w)) \<noteq> Inr ()"
proof (induction n arbitrary: s w)
  case (Suc n)
  obtain c u v where f: "flush_piece X (take 0 (wr_buf w)) (s, w\<lparr>wr_buf := drop 0 (wr_buf w)\<rparr>) = (c, (u, v))" by (metis surj_pair)
  then show ?case unfolding write_loop_step using Suc by (cases c) auto
qed simp

section \<open>Progress\<close>

context live_backend
begin

lemma flush_piece_live:
  assumes "ready (sh_store s)" "cx_backend X = B" "seal (cx_chain X) piece = Inr sealed"
  shows "\<exists>s'. flush_piece X piece (s, w) = (Inr (), (s', w\<lparr>wr_seq := wr_seq w + 1\<rparr>)) \<and> ready (sh_store s')"
proof -
  obtain u where "inner_commit X [Op_Put Chunks (chunk_key (wr_value_id w) (wr_seq w)) sealed] s = (Inr (), u)" "ready (sh_store u)"
    using inner_commit_live [OF assms(1,2)] by blast
  then show ?thesis by (simp add: flush_piece_def seal_slice_def assms(3))
qed

lemma write_loop_live:
  assumes "length (wr_buf w) < n" "ready (sh_store s)" "cx_backend X = B" "0 < lc_chunk_size (cx_config X)"
    and "\<And>p. length p \<le> lc_chunk_size (cx_config X) \<Longrightarrow> \<exists>sealed. seal (cx_chain X) p = Inr sealed"
  shows "\<exists>s' w'. write_loop n X (s, w) = (Inr (), (s', w')) \<and> ready (sh_store s')"
  using assms(1,2)
proof (induction n arbitrary: s w)
  case (Suc n)
  let ?k = "lc_chunk_size (cx_config X)"
  show ?case
  proof (cases "?k \<le> length (wr_buf w)")
    case True
    obtain sealed where "seal (cx_chain X) (take ?k (wr_buf w)) = Inr sealed" using assms(5) [of "take ?k (wr_buf w)"] by auto
    then obtain u where f: "flush_piece X (take ?k (wr_buf w)) (s, w\<lparr>wr_buf := drop ?k (wr_buf w)\<rparr>)
        = (Inr (), (u, w\<lparr>wr_buf := drop ?k (wr_buf w), wr_seq := wr_seq w + 1\<rparr>))" "ready (sh_store u)"
      using flush_piece_live [OF Suc.prems(2) assms(3), of _ _ "w\<lparr>wr_buf := drop ?k (wr_buf w)\<rparr>"] by auto
    have "length (wr_buf (w\<lparr>wr_buf := drop ?k (wr_buf w), wr_seq := wr_seq w + 1\<rparr>)) < n" using Suc.prems(1) True assms(4) by simp
    from Suc.IH [OF this f(2)] show ?thesis unfolding write_loop_step using True f(1) by simp
  qed (use Suc.prems write_loop_step in auto)
qed simp

lemma write_all_live:
  assumes "ready (sh_store s)" "cx_backend X = B" "0 < lc_chunk_size (cx_config X)"
    and "\<And>p. length p \<le> lc_chunk_size (cx_config X) \<Longrightarrow> \<exists>sealed. seal (cx_chain X) p = Inr sealed"
  shows "\<exists>s' w'. write_all X bss (s, w) = (Inr (), (s', w')) \<and> ready (sh_store s')"
  using assms(1)
proof (induction bss arbitrary: s w)
  case (Cons bs bss)
  let ?w = "w\<lparr>wr_buf := wr_buf w @ bs, wr_total_len := wr_total_len w + of_nat (length bs)\<rparr>"
  obtain u v where u: "write_loop (Suc (length (wr_buf ?w))) X (s, ?w) = (Inr (), (u, v))" "ready (sh_store u)"
    using write_loop_live [OF lessI Cons.prems assms(2-4)] by blast
  then have "write_chunk X bs (s, w) = (Inr (), (u, v))" by (simp add: write_chunk_def Let_def del: write_loop.simps)
  then show ?case using Cons.IH [OF u(2)] by (simp add: sbind_def)
qed simp

lemma lazy_writer_live:
  assumes "ready (sh_store s)" "cx_backend X = B" "\<not> in_closed s" "\<exists>vid nxt. allocate B (sh_store s) (sh_values s) = (Inr vid, nxt)"
  shows "\<exists>w s'. lazy_writer X key s = (Inr w, s') \<and> ready (sh_store s')"
proof -
  obtain vid nxt where a: "allocate B (sh_store s) (sh_values s) = (Inr vid, nxt)" using assms(4) by blast
  obtain n where n: "nxt = Some n" using allocate_Inr [OF a] by blast
  obtain u where "inner_commit X [counter_op_for n] (s\<lparr>sh_values := Some n\<rparr>) = (Inr (), u)" "ready (sh_store u)"
    using inner_commit_live [of "s\<lparr>sh_values := Some n\<rparr>" X] assms(1,2) by auto
  then show ?thesis
    using a n assms(2,3)
    by (simp add: lazy_writer_def ensure_open_def writer_start_def sbind_def next_value_id_def on_values_def value_counter_op_def vid_counter_op_def)
qed

lemma writer_finish_live:
  fixes s :: "('b, 'q, 'z) resident_scheme"
  assumes "ready (sh_store s)" "cx_backend X = B" "\<exists>sealed. seal (cx_chain X) (wr_buf w) = Inr sealed"
    and old: "\<And>s' w'. flush_piece X (wr_buf w) (s, w\<lparr>wr_buf := []\<rparr>) = (Inr (), (s', w')) \<Longrightarrow>
        readable (payload_view (cx_chain X) (cx_id X) (tabs (sh_store s')) (wr_key w))"
      "readable (payload_view (cx_chain X) (cx_id X) (tabs (sh_store s)) (wr_key w))"
  shows "\<exists>s'. writer_finish X w s = (Inr (), s') \<and> ready (sh_store s')"
proof -
  have publish: "\<exists>s'. writer_publish X v u = (Inr (), s') \<and> ready (sh_store s')"
    if u: "ready (sh_store u)" "readable (payload_view (cx_chain X) (cx_id X) (tabs (sh_store u)) (wr_key v))"
    for v and u :: "('b, 'q, 'z) resident_scheme"
  proof -
    obtain gc where "gc_existing X (sh_store u) (wr_key v) Prior_Unknown = Inr gc" using gc_existing_live [OF u(1) assms(2) u(2)] by blast
    moreover obtain z where "inner_commit X (gc @ [Op_Put Records (encode_key X (wr_key v)) (pointer_encode (writer_pointer v (wr_total_len v)))]) u
        = (Inr (), z)" "ready (sh_store z)" using inner_commit_live [OF u(1) assms(2)] by blast
    ultimately show ?thesis by (simp add: writer_publish_def sbind_def)
  qed
  show ?thesis
  proof (cases "wr_buf w = []")
    case True
    then show ?thesis using publish [OF assms(1) old(2)] by (simp add: writer_finish_def)
  next
    case False
    obtain u where f: "flush_piece X (wr_buf w) (s, w\<lparr>wr_buf := []\<rparr>) = (Inr (), (u, w\<lparr>wr_buf := [], wr_seq := wr_seq w + 1\<rparr>))"
      "ready (sh_store u)" using flush_piece_live [OF assms(1,2), of _ _ "w\<lparr>wr_buf := []\<rparr>"] assms(3) by auto
    then show ?thesis using publish [OF f(2), of "w\<lparr>wr_buf := [], wr_seq := wr_seq w + 1\<rparr>"] old(1) [OF f(1)] False
      by (simp add: writer_finish_def)
  qed
qed

lemma stream_put_live:
  fixes s :: "('b, 'q, 'z) resident_scheme"
  assumes ready: "ready (sh_store s)" and B: "cx_backend X = B" and chain: "sound_chain (cx_chain X)"
    and ok: "lazy_ok X (tabs (sh_store s)) s" "\<not> in_closed s"
    and size: "0 < lc_chunk_size (cx_config X)" "length (concat bss) \<le> MAX_DECODED_BYTES"
    and seals: "\<And>p. length p \<le> lc_chunk_size (cx_config X) \<Longrightarrow> \<exists>sealed. seal (cx_chain X) p = Inr sealed"
    and room: "\<exists>vid nxt. allocate B (sh_store s) (sh_values s) = (Inr vid, nxt)"
    and old: "readable (payload_view (cx_chain X) (cx_id X) (tabs (sh_store s)) key)"
  shows "\<exists>s'. stream_put X key bss s = (Inr (), s') \<and> ready (sh_store s')"
proof -
  obtain w u where w: "lazy_writer X key s = (Inr w, u)" "ready (sh_store u)" using lazy_writer_live [OF ready B ok(2) room] by blast
  obtain n where w': "wr_key w = key" "wr_buf w = []" "writer_ok (cx_chain X) (tabs (sh_store s)) (tabs (sh_store u)) [] w"
    and n: "checked_succ (wr_value_id w) = Some n" "commit_fields (s\<lparr>sh_values := Some n\<rparr>) u"
    using lazy_writer_ok [OF w(1) B ok(1)] by auto
  obtain v x where v: "write_all X bss (u, w) = (Inr (), (v, x))" "ready (sh_store v)"
    using write_all_live [OF w(2) B size(1) seals] by blast
  have len: "length ([] @ concat bss) \<le> MAX_DECODED_BYTES" "length (wr_buf w) < lc_chunk_size (cx_config X)" using size w'(2) by simp_all
  note wa = write_all_ok [OF v(1) B chain size(1) len(1) w'(3) len(2)]
  have cv: "commit_fields (s\<lparr>sh_values := Some n\<rparr>) v" using commit_fields_trans [OF n(2)] wa by blast
  obtain ps where ps: "streaming (cx_chain X) (tabs (sh_store s)) (tabs (sh_store v)) (wr_value_id x) ps" "unat (wr_seq x) = length ps"
    "\<forall>p\<in>set ps. p \<noteq> []" "concat ps @ wr_buf x = concat bss" using wa by (auto simp: writer_ok_def)
  have x: "checked_succ (wr_value_id x) = Some n" "wr_key x = key" using wa n(1) w'(1) by simp_all
  have "\<exists>s'. writer_finish X x v = (Inr (), s') \<and> ready (sh_store s')"
  proof (rule writer_finish_live [OF v(2) B])
    show "\<exists>sealed. seal (cx_chain X) (wr_buf x) = Inr sealed" using seals wa by simp
    show "readable (payload_view (cx_chain X) (cx_id X) (tabs (sh_store v)) (wr_key x))"
      using streaming_same_view [OF ps(1) ok(1) cv x(1)] old x(2) by simp
    fix s' w'
    assume f: "flush_piece X (wr_buf x) (v, x\<lparr>wr_buf := []\<rparr>) = (Inr (), (s', w'))"
    have few: "length (wr_buf x) \<le> MAX_DECODED_BYTES" "Suc (length ps) < 2 ^ 32"
      using length_le_concat [OF ps(3)] ps(4) size(2) by (auto simp: MAX_DECODED_BYTES_def dest: arg_cong [of _ _ length])
    have st: "streaming (cx_chain X) (tabs (sh_store s)) (tabs (sh_store v)) (wr_value_id (x\<lparr>wr_buf := []\<rparr>)) ps"
      "unat (wr_seq (x\<lparr>wr_buf := []\<rparr>)) = length ps" using ps by simp_all
    note fp = flush_piece_ok [OF f B chain st few]
    then have "streaming (cx_chain X) (tabs (sh_store s)) (tabs (sh_store s')) (wr_value_id x) (ps @ [wr_buf x])" by simp
    moreover have "commit_fields (s\<lparr>sh_values := Some n\<rparr>) s'" using fp commit_fields_trans [OF cv] by blast
    ultimately show "readable (payload_view (cx_chain X) (cx_id X) (tabs (sh_store s')) (wr_key x))"
      using streaming_same_view [OF _ ok(1) _ x(1)] old x(2) by simp
  qed
  then show ?thesis using w(1) v(1) by (simp add: stream_put_def)
qed

end

end
