(* ===== verification/Stream_Properties.thy ===== *)
theory Stream_Properties
  imports Stream_Runs Lazy_Properties
begin

text \<open>
  The contract of the streaming interface: a stream becomes visible all at once, when \<open>finish\<close> returns,
  and until then, or if it fails, no key of any locker reads differently; what a reader then drains is what
  was written, however the bytes were cut into calls and pieces.
\<close>

section \<open>Writing a stream\<close>

text \<open>
  C27: a stream is all or nothing. Over any backend that keeps the contract, if \<open>finish\<close> returns then the
  key has the bytes given, in order, and every other key of this and of every other locker is as before,
  with no chunk orphaned; if any call fails, no key of any locker reads differently.
\<close>

theorem stream_refines:
  assumes "backend_contract (cx_backend X) tabs" "sound_chain (cx_chain X)" "lazy_ok X (tabs (sh_store s)) s"
    and "staged_view (rs_staged s) key = None" "0 < lc_chunk_size (cx_config X)" "length (concat bss) \<le> MAX_DECODED_BYTES"
    and "stream_put X key bss s = (r, s')"
  shows "streamed X (tabs (sh_store s)) s (tabs (sh_store s')) s' key (if r = Inr () then Some (concat bss) else None)"
  by (rule backend_contract.stream_put_ok [OF assms(1,7) refl assms(2-6)])

text \<open>An instance: pieces of two bytes over the memory backend.\<close>

definition sample_stream_ctx :: "(memory_backend, unit) ctx" where
  "sample_stream_ctx = (sample_ctx Commit_Immediate)\<lparr>cx_config := config_default\<lparr>lc_chunk_size := 2\<rparr>\<rparr>"

lemma sample_stream_simps [simp]:
  "cx_backend sample_stream_ctx = memory_backend_vt" "cx_chain sample_stream_ctx = chain_raw" "cx_id sample_stream_ctx = 3"
  "lc_chunk_size (cx_config sample_stream_ctx) = 2"
  by (simp_all add: sample_stream_ctx_def)

lemma sample_stream_ok [simp]: "lazy_ok sample_stream_ctx (mb_tables memory_new) sample_state"
  by (simp add: lazy_ok_def index_exact_def inline_exact_def locker_view_Nil)

theorem stream_refines_witness:
  "case stream_put sample_stream_ctx [7] [[1, 2, 3], [4, 5]] sample_state of (r, s') \<Rightarrow>
     streamed sample_stream_ctx (mb_tables memory_new) sample_state (mb_tables (sh_store s')) s' [7]
       (if r = Inr () then Some [1, 2, 3, 4, 5] else None)"
proof -
  obtain r s' where run: "stream_put sample_stream_ctx [7] [[1, 2, 3], [4, 5]] sample_state = (r, s')" by fastforce
  then show ?thesis
    using stream_refines [where X = sample_stream_ctx and tabs = mb_tables and s = sample_state and key = "[7]"
        and bss = "[[1, 2, 3], [4, 5]]" and r = r and s' = s'] mem.backend_contract_axioms
    by (simp add: MAX_DECODED_BYTES_def cong del: if_weak_cong)
qed

text \<open>
  Over a live backend every call of a stream returns, \<open>finish\<close> included, if the filters take each
  piece, a value id is left and the record the stream replaces can be read.
\<close>

theorem stream_returns:
  assumes "live_backend (cx_backend X) tabs ready" "ready (sh_store s)" "sound_chain (cx_chain X)"
    and "lazy_ok X (tabs (sh_store s)) s" "\<not> in_closed s" "0 < lc_chunk_size (cx_config X)" "length (concat bss) \<le> MAX_DECODED_BYTES"
    and "\<And>p. length p \<le> lc_chunk_size (cx_config X) \<Longrightarrow> \<exists>sealed. seal (cx_chain X) p = Inr sealed"
    and "\<exists>vid nxt. allocate (cx_backend X) (sh_store s) (sh_values s) = (Inr vid, nxt)"
    and "readable (payload_view (cx_chain X) (cx_id X) (tabs (sh_store s)) key)"
  shows "\<exists>s'. stream_put X key bss s = (Inr (), s') \<and> ready (sh_store s')"
  by (rule live_backend.stream_put_live [OF assms(1,2) refl assms(3-10)])

lemma sample_allocates: "allocate memory_backend_vt memory_new None = (Inr 0, Some 1)"
  by code_simp

lemma sample_seals: "\<exists>sealed. seal chain_raw p = Inr sealed"
  by (simp add: seal_def chain_raw_def chain_new_def is_pointer_def header_def)

theorem stream_returns_witness:
  "\<exists>s'. stream_put sample_stream_ctx [7] [[1, 2, 3], [4, 5]] sample_state = (Inr (), s') \<and> \<not> mb_closed (sh_store s')"
  by (rule stream_returns [where tabs = mb_tables])
    (use mem.live_backend_axioms sample_allocates sample_seals in \<open>simp_all add: MAX_DECODED_BYTES_def readable_def\<close>)

section \<open>Reading it back\<close>

text \<open>
  C28: what a stream wrote is what a reader of the key yields. Draining a reader with \<open>next_chunk\<close> until it
  returns none gives pieces whose concatenation is the bytes given to the writer, and the reader says
  their number beforehand.
\<close>

theorem stream_round_trip:
  assumes "live_backend (cx_backend X) tabs ready" "sound_chain (cx_chain X)" "lazy_ok X (tabs (sh_store s)) s" "\<not> in_closed s"
    and "staged_view (rs_staged s) key = None" "0 < lc_chunk_size (cx_config X)" "length (concat bss) \<le> MAX_DECODED_BYTES"
    and "stream_put X key bss s = (Inr (), s')" "ready (sh_store s')"
  shows "\<exists>rd ps. lazy_reader X key s' = (Inr (Some rd), s') \<and> unat (reader_len rd) = length (concat bss)
    \<and> concat ps = concat bss \<and> (\<forall>n > length ps. fst (drain n X (sh_store s') rd) = Inr ps)"
proof -
  have "backend_contract (cx_backend X) tabs" using assms(1) by (simp add: live_backend_def)
  from stream_refines [OF this assms(2,3,5-8)]
  have s': "rs_staged s' = rs_staged s" "in_closed s' = in_closed s" "view_of X (tabs (sh_store s')) s' key = Some (Inr (True, concat bss))"
    by (auto simp: streamed_def)
  then have "payload_view (cx_chain X) (cx_id X) (tabs (sh_store s')) key = Some (Inr (True, concat bss))"
    using assms(5) by (simp add: locker_view_def)
  moreover have "length (concat bss) < 2 ^ 64" using assms(7) by (simp add: MAX_DECODED_BYTES_def)
  ultimately show ?thesis using live_backend.reader_yields [OF assms(1,9) refl] s'(2) assms(4) by blast
qed

theorem stream_round_trip_witness:
  "case stream_put sample_stream_ctx [7] [[1, 2, 3], [4, 5]] sample_state of (r, s') \<Rightarrow>
     \<exists>rd ps. lazy_reader sample_stream_ctx [7] s' = (Inr (Some rd), s') \<and> unat (reader_len rd) = 5
       \<and> concat ps = [1, 2, 3, 4, 5] \<and> fst (drain (Suc (length ps)) sample_stream_ctx (sh_store s') rd) = Inr ps"
proof -
  obtain s' where run: "stream_put sample_stream_ctx [7] [[1, 2, 3], [4, 5]] sample_state = (Inr (), s')" "\<not> mb_closed (sh_store s')"
    using stream_returns_witness by blast
  then show ?thesis
    using stream_round_trip [where X = sample_stream_ctx and tabs = mb_tables and ready = "\<lambda>m. \<not> mb_closed m" and s = sample_state
        and key = "[7]" and bss = "[[1, 2, 3], [4, 5]]" and s' = s'] mem.live_backend_axioms
    by (auto simp: MAX_DECODED_BYTES_def simp del: drain.simps) (metis lessI)
qed

section \<open>The loop of \<open>write_chunk\<close>\<close>

text \<open>
  The loop of \<open>write_chunk\<close> ends. With a chunk size above 0, any fuel above the length of the buffer
  gives one and the same result: less than a piece is left in the buffer, or a flush of a piece failed,
  and its error is the result. The fuel \<open>write_chunk\<close> passes is enough.
\<close>

theorem write_loop_ends:
  fixes s :: "('b, 'q, 'z) inner_state_scheme"
  assumes "0 < lc_chunk_size (cx_config X)" "length (wr_buf w) < n"
  shows "write_loop n X (s, w) = write_loop (Suc (length (wr_buf w))) X (s, w)
    \<and> (case write_loop n X (s, w) of
         (Inr _, (_, w')) \<Rightarrow> length (wr_buf w') < lc_chunk_size (cx_config X)
       | (Inl e, _) \<Rightarrow> \<exists>piece (u :: ('b, 'q, 'z) inner_state_scheme) v. fst (flush_piece X piece (u, v)) = Inl e)"
  by (rule write_loop_enough [OF assms lessI])

definition sample_writer :: writer where
  "sample_writer = \<lparr>wr_key = [7], wr_value_id = 0, wr_seq = 0, wr_total_len = 5, wr_buf = [1, 2, 3, 4, 5], wr_finished = False\<rparr>"

theorem write_loop_ends_witness:
  "write_loop 9 sample_stream_ctx (sample_state, sample_writer)
    = write_loop (Suc (length (wr_buf sample_writer))) sample_stream_ctx (sample_state, sample_writer)"
  by (rule conjunct1 [OF write_loop_ends]) (simp_all add: sample_writer_def)

text \<open>
  C29: with a chunk size of 0, which a configuration written as a struct literal can have, \<open>write_chunk\<close>
  never returns success, whatever it is given: no number of turns of its loop is enough.
\<close>

theorem empty_chunks_never_return:
  assumes "lc_chunk_size (cx_config X) = 0"
  shows "fst (write_loop n X (s, w)) \<noteq> Inr () \<and> fst (write_chunk X bs (s, w)) \<noteq> Inr ()"
  by (simp add: write_loop_empty_pieces [OF assms] write_chunk_def Let_def del: write_loop.simps)

theorem empty_chunks_never_return_witness:
  "fst (write_chunk (sample_stream_ctx\<lparr>cx_config := config_default\<lparr>lc_chunk_size := 0\<rparr>\<rparr>) [1] (sample_state, sample_writer)) \<noteq> Inr ()"
  using empty_chunks_never_return [of "sample_stream_ctx\<lparr>cx_config := config_default\<lparr>lc_chunk_size := 0\<rparr>\<rparr>" 1 sample_state sample_writer "[1]"]
  by simp

end
