(* ===== verification/Bank_Residents.thy ===== *)
theory Bank_Residents
  imports Bank_Runs Closed_Flag
begin

text \<open>
  The heap of lockers of a bank in use: what leaves it alone, and that every locker with a handle is on the list
  \<open>flush_all\<close> goes through. The list only ever loses lockers that have no handle.
\<close>

section \<open>What leaves the lockers alone\<close>

definition books :: "('b, 'q, 'v) bank \<Rightarrow> (nat, ('b, 'q, 'v) cell) btree \<times> nat list \<times> (string, open_locker) btree \<times> bool" where
  "books s = (bn_cells s, bn_residents s, bn_open s, bn_closed s)"

definition slots :: "('b, 'q, 'v) bank \<Rightarrow> (nat, ('b, 'q, 'v) cell) btree \<times> nat list" where
  "slots s = (bn_cells s, bn_residents s)"

abbreviation books_kept :: "(('b, 'q, 'v) bank, error, 'a) act \<Rightarrow> bool" where
  "books_kept \<equiv> leaves books"

lemma books_store [leaving]: "books_kept (on_store m)"
  by (simp add: leaves_def on_store_def books_def split: prod.split)

lemma books_cache [simp]: "books (cache name i s) = books s"
  by (simp add: books_def cache_def)

lemma books_shared [leaving]: "books_kept (on_shared m)"
  by (simp add: leaves_def on_shared_def books_def split: prod.split)

lemma leaves_slots: "books_kept m \<Longrightarrow> leaves slots m"
  by (auto simp: leaves_def books_def slots_def)

lemma books_ensure [leaving]: "books_kept bank_ensure_open"
  by (simp add: leaves_def bank_ensure_open_def)

lemma books_id_then:
  "books_kept (sbind (slift e) (\<lambda>found. case pop_flatten found of (next_raw, found) \<Rightarrow> case pop_flatten found of (registered, _) \<Rightarrow>
     (case registered of
        Some raw \<Rightarrow> sbind (slift (f raw)) (\<lambda>i. sbind (smod (cache name i)) (\<lambda>_. sret i))
      | None \<Rightarrow> sbind (slift (g next_raw)) (\<lambda>nxt. sbind (slift (h nxt)) (\<lambda>bumped.
          sbind (on_store (k nxt bumped)) (\<lambda>_. sbind (smod (cache name nxt)) (\<lambda>_. sret nxt)))))))"
  by (auto intro!: leaving leaves_smod split: prod.split option.split)

lemma books_id [leaving]: "books_kept (locker_id_of V name)"
  unfolding leaves_def locker_id_of_def by (simp add: leaves_app [OF books_id_then] split: option.split)

lemma books_schema [leaving]: "books_kept (bind_schema V i tag)"
  by (auto simp: leaves_def bind_schema_def leaves_app [OF books_store] split: sum.split option.split)

lemma books_chain [leaving]: "books_kept (bind_chain V i ch pre)"
  by (auto simp: leaves_def bind_chain_def leaves_app [OF books_store] Let_def split: sum.split option.split)

lemma books_prepare [leaving]: "books_kept (prepare V tag name ch)"
  unfolding prepare_def by (intro leaving)

lemma books_raw [leaving]: "books_kept (raw_locker V name)"
  unfolding leaves_def raw_locker_def by (simp add: leaves_app [OF books_prepare])

lemma books_raw_calls [leaving]:
  "books_kept (raw_get V l k)" "books_kept (raw_put V l k v)" "books_kept (raw_delete V l k)" "books_kept (raw_keys V l p)"
  "books_kept (raw_clear V l)" "books_kept (raw_get_many V l ks)" "books_kept (raw_put_all V l es)" "books_kept (raw_delete_all V l ks)"
  "books_kept (raw_entries V l p)" "books_kept (raw_contains_key V l k)" "books_kept (raw_len V l)"
  unfolding raw_get_def raw_put_def raw_delete_def raw_keys_def raw_clear_def raw_get_many_def raw_put_all_def raw_delete_all_def
    raw_entries_def raw_contains_key_def raw_len_def
  by (intro leaves_cases leaving)+

lemma books_measures [leaving]: "books_kept (locker_bytes V name)" "books_kept (bank_verify V name)"
  unfolding locker_bytes_def bank_verify_def by (auto intro!: leaves_cases(1) leaving split: option.split)

lemma slots_pruned: "leaves slots m \<Longrightarrow> slots (snd (m (prune s))) = slots s"
  by (simp add: leaves_def slots_def prune_def)

lemma slots_forget: "leaves slots (smod (\<lambda>s. s\<lparr>bn_registry := f s, bn_open := g s\<rparr>))"
  by (rule leaves_smod) (simp add: slots_def)

lemma slots_pure [leaving]: "leaves slots (on_store m)" "leaves slots (locker_id_of V name)"
  by (intro leaves_slots leaving)+

lemma slots_delete:
  fixes V :: "('b, 'q) env"
  shows "leaves slots (delete_locker V name :: (('b, 'q, 'v) bank, error, bool) act)"
proof (rule leavesI)
  fix s s' :: "('b, 'q, 'v) bank" and r
  assume run: "delete_locker V name s = (r, s')"
  have "leaves slots (sbind (sread (\<lambda>s. locker_exists V s name)) (\<lambda>ex.
            if \<not> ex then sret False
            else
              sbind (locker_id_of V name) (\<lambda>i.
              sbind (sread (\<lambda>s. locker_chain_or_bank V s i)) (\<lambda>ch.
              sbind (sread (\<lambda>s. clear_value_ops (maintenance_ctx V i name ch) (sh_store s))) (\<lambda>ops.
              sbind (on_store (bk_commit (ev_backend V)
                       (ops @ [Op_Delete Meta (locker_key name), Op_Delete Meta (schema_key i)]))) (\<lambda>_.
              sbind (smod (\<lambda>s :: ('b, 'q, 'v) bank. s\<lparr>bn_registry := bt_remove name (bn_registry s), bn_open := bt_remove name (bn_open s)\<rparr>)) (\<lambda>_.
                sret True)))))))"
    by (intro leaving leaves_cases(1) slots_forget)
  from slots_pruned [OF this, of s] run show "slots s' = slots s"
    by (auto simp: delete_locker_def is_locker_open_def Let_def slots_def prune_def split: if_splits)
qed

lemma slots_quarantine:
  fixes V :: "('b, 'q) env"
  shows "leaves slots (quarantine V name keys :: (('b, 'q, 'v) bank, error, nat) act)"
proof (rule leavesI)
  fix s s' :: "('b, 'q, 'v) bank" and r
  assume run: "quarantine V name keys s = (r, s')"
  have "leaves slots (sbind (sread (\<lambda>s :: ('b, 'q, 'v) bank. locker_exists V s name)) (\<lambda>ex.
            if \<not> ex then sret 0
            else
              sbind (locker_id_of V name) (\<lambda>i.
              sbind (sread (\<lambda>s. locker_chain_or_bank V s i)) (\<lambda>ch.
              sbind (sread (\<lambda>s. foldM_r (quarantine_step (maintenance_ctx V i name ch) (sh_store s)) ([], 0) keys))
                (\<lambda>(ops, removed).
                  sbind (if ops \<noteq> [] then on_store (bk_commit (ev_backend V) ops) else sret ()) (\<lambda>_. sret removed))))))"
    by (auto intro!: leaving leaves_cases(1) split: prod.split)
  from slots_pruned [OF this, of s] run show "slots s' = slots s"
    by (auto simp: quarantine_def is_locker_open_def Let_def slots_def prune_def split: if_splits)
qed

section \<open>Every locker with a handle is on the list\<close>

definition enlisted :: "('b, 'q, 'v) bank \<Rightarrow> bool" where
  "enlisted s \<longleftrightarrow> distinct (bn_residents s) \<and> (\<forall>a\<in>set (bn_residents s). bt_lookup (bn_cells s) a \<noteq> None)
     \<and> (\<forall>a. upgrade s a \<noteq> None \<longrightarrow> a \<in> set (bn_residents s))"

lemma fold_max_ge: "x \<in> set xs \<Longrightarrow> x \<le> fold max xs (n :: nat)"
  using Max_ge [of "set (n # xs)" x] by (simp only: Max.set_eq_fold) simp

lemma fresh_cell_free: "bt_lookup (bn_cells s) (fresh_cell s) = None"
proof (rule ccontr)
  assume "bt_lookup (bn_cells s) (fresh_cell s) \<noteq> None"
  then have "fresh_cell s \<in> set (bt_keys (bn_cells s))" by simp
  from fold_max_ge [OF this, of 0] show False by (simp add: fresh_cell_def)
qed

lemma upgrade_cells: "bn_cells s' = bn_cells s \<Longrightarrow> upgrade s' a = upgrade s a"
  by (simp add: upgrade_def)

lemma enlisted_slots: "slots s' = slots s \<Longrightarrow> enlisted s \<Longrightarrow> enlisted s'"
  by (simp add: slots_def enlisted_def upgrade_cells [of s' s])

lemma enlisted_books: "books s' = books s \<Longrightarrow> enlisted s \<Longrightarrow> enlisted s'"
  by (rule enlisted_slots) (simp_all add: books_def slots_def)

lemma enlisted_prune: "enlisted s \<Longrightarrow> enlisted (prune s)"
  by (rule enlisted_slots) (simp_all add: slots_def prune_def)

lemma live_stays: "is_live s ol \<Longrightarrow> upgrade s (ol_cell ol) \<noteq> None"
  by (auto simp: is_live_def split: option.splits)

text \<open>A change to one cell that gives no handle to a cell without one.\<close>

lemma enlisted_on_cell:
  assumes "enlisted s" "\<And>c. bt_lookup (bn_cells s) a = Some c \<Longrightarrow> ce_handles (f c) > 0 \<Longrightarrow> ce_handles c > 0"
  shows "enlisted (on_cell a f s)"
proof (cases "bt_lookup (bn_cells s) a")
  case (Some c)
  have "upgrade (on_cell a f s) x \<noteq> None \<Longrightarrow> upgrade s x \<noteq> None" for x
    using assms(2) Some by (auto simp: on_cell_def upgrade_def split: if_splits)
  then show ?thesis using assms(1) Some by (auto simp: enlisted_def on_cell_def)
qed (use assms(1) in \<open>simp add: on_cell_def\<close>)

lemma enlisted_in_cell: "enlisted s \<Longrightarrow> enlisted (snd (in_cell a m s))"
proof (cases "bt_lookup (bn_cells s) a")
  case (Some c)
  assume l: "enlisted s"
  let ?u = "snd (in_cell a m s)"
  have "upgrade ?u x \<noteq> None \<Longrightarrow> upgrade s x \<noteq> None" "bt_lookup (bn_cells ?u) x \<noteq> None \<longleftrightarrow> bt_lookup (bn_cells s) x \<noteq> None"
    "bn_residents ?u = bn_residents s" for x
    using Some by (auto simp: in_cell_def upgrade_def case_prod_unfold split: if_splits)
  then show ?thesis using l by (auto simp: enlisted_def)
qed (simp add: in_cell_def)

lemma enlisted_share:
  assumes "enlisted s" "upgrade s (ol_cell ol) \<noteq> None"
  shows "enlisted (snd (share_open name ol kind tag cfg s))"
proof -
  have "enlisted (add_handle (ol_cell ol) s)" unfolding add_handle_def
    by (rule enlisted_on_cell [OF assms(1)]) (use assms(2) in \<open>auto simp: upgrade_def split: if_splits\<close>)
  then show ?thesis using assms(1) by (auto simp: share_open_def sbind_def split: sum.split)
qed

text \<open>The name is free when a locker is installed: nothing ran between the look and the claim.\<close>

definition name_free :: "string \<Rightarrow> ('b, 'q, 'v) bank \<Rightarrow> bool" where
  "name_free name s \<longleftrightarrow> bt_lookup (bn_open s) name = None"

lemma open_locker_of_cases:
  assumes "open_locker_of name s = (w, u)"
  shows "u = prune s" "w = bt_lookup (bn_open u) name" "w = Some ol \<Longrightarrow> is_live u ol"
proof -
  have live: "is_live (prune s) ol = is_live s ol" for ol by (simp add: is_live_def prune_def upgrade_def)
  have entry: "bt_lookup (bn_open (prune s)) name = Some x \<Longrightarrow> is_live (prune s) x" for x
    unfolding live by (auto simp: prune_def split: option.splits if_splits)
  show "u = prune s" using assms by (simp add: open_locker_of_def Let_def)
  show "w = bt_lookup (bn_open u) name" "w = Some ol \<Longrightarrow> is_live u ol"
    using assms entry by (auto simp: open_locker_of_def Let_def split: option.splits if_splits)
qed

lemma install_free:
  assumes "name_free name s"
  shows "install name kind tag cfg X st s =
    (let a = fresh_cell s;
         t = s\<lparr>bn_cells := bt_insert a \<lparr>ce_ctx = X, ce_state = st, ce_handles = 1\<rparr> (bn_cells s)\<rparr>;
         ol = \<lparr>ol_cell = a, ol_has_values = (kind = TxEager), ol_kind = kind, ol_type_tag = tag, ol_config = cfg\<rparr>
     in (Inr a, register_resident a ((prune t)\<lparr>bn_open := bt_insert name ol (bn_open (prune t))\<rparr>)))"
  using assms by (simp add: install_def claim_open_def Let_def name_free_def prune_def)

lemma enlisted_install:
  assumes l: "enlisted s" and free: "name_free name s"
  shows "enlisted (snd (install name kind tag cfg X st s))"
proof -
  let ?a = "fresh_cell s" and ?s' = "snd (install name kind tag cfg X st s)"
  let ?c = "\<lparr>ce_ctx = X, ce_state = st, ce_handles = 1\<rparr>"
  have cells: "bn_cells ?s' = bt_insert ?a ?c (bn_cells s)"
    by (simp add: install_free [OF free] Let_def register_resident_def prune_def)
  have up: "upgrade (s\<lparr>bn_cells := bt_insert ?a ?c (bn_cells s)\<rparr>) x = (if x = ?a then Some ?c else upgrade s x)" for x
    by (simp add: upgrade_def)
  have res: "bn_residents ?s' = filter (\<lambda>x. x = ?a \<or> upgrade s x \<noteq> None) (bn_residents s) @ [?a]"
    by (simp add: install_free [OF free] Let_def register_resident_def prune_def upgrade_def cong: filter_cong)
      (rule filter_cong, auto simp: upgrade_def)
  have new: "?a \<notin> set (bn_residents s)" using l fresh_cell_free [of s] by (auto simp: enlisted_def)
  have "upgrade ?s' x = (if x = ?a then Some ?c else upgrade s x)" for x by (simp add: upgrade_def cells)
  then show ?thesis using l new by (auto simp: enlisted_def res cells split: if_splits)
qed

text \<open>An open, at its end: a shared locker, one just installed, or nothing new.\<close>

lemma opens_cases:
  assumes run: "opens V kind tag name cfg build s = (r, s')" and build: "\<And>X. books_kept (build X)"
  obtains (shared) ol u where "bn_cells u = bn_cells s" "bn_residents u = bn_residents s" "bt_lookup (bn_open u) name = Some ol"
      "is_live u ol" "share_open name ol kind tag cfg u = (r, s')" "\<not> bn_closed u"
    | (new) X st u where "slots u = slots s" "name_free name u" "install name kind tag cfg X st u = (r, s')"
        "\<exists>X w w'. build X w = (Inr st, w')" "\<not> bn_closed u"
    | (refused) e where "r = Inl e" "slots s' = slots s"
proof (cases "bn_closed s")
  case True
  then have "r = Inl Closed" "s' = s" using run by (simp_all add: opens_def bank_ensure_open_def)
  then show thesis by (intro refused) simp_all
next
  case live: False
  obtain ch u where u: "chain_for cfg s = (ch, u)" by fastforce
  have u': "slots u = slots s" "\<not> bn_closed u" using u live by (auto simp: chain_for_def register_chain_def slots_def split: option.splits)
  obtain ol w where w: "open_locker_of name u = (ol, w)" by fastforce
  note look = open_locker_of_cases [OF w]
  have w': "slots w = slots s" "\<not> bn_closed w" using u' look(1) by (simp_all add: slots_def prune_def)
  show thesis
  proof (cases ol)
    case (Some x)
    then have "share_open name x kind tag cfg w = (r, s')" using run live u w by (simp add: opens_def bank_ensure_open_def)
    moreover have "bn_cells w = bn_cells s" "bn_residents w = bn_residents s" using w'(1) by (simp_all add: slots_def)
    ultimately show thesis using look(2,3) Some w'(2) by (intro shared) auto
  next
    case None
    obtain i x where p: "prepare V tag name ch w = (i, x)" by fastforce
    have x: "books x = books w" by (rule leavesD [OF books_prepare p])
    have rest: "(case i of Inl e \<Rightarrow> (Inl e, x) | Inr l \<Rightarrow> sbind (build (locker_ctx V ch l name cfg))
        (\<lambda>st. install name kind tag cfg (locker_ctx V ch l name cfg) st) x) = (r, s')"
      using run live u w p None by (cases i) (simp_all add: opens_def bank_ensure_open_def sbind_def)
    show thesis
    proof (cases i)
      case (Inl e)
      then show thesis using rest x w'(1) by (intro refused) (auto simp: books_def slots_def)
    next
      case (Inr l)
      let ?X = "locker_ctx V ch l name cfg"
      obtain q y where y: "build ?X x = (q, y)" by fastforce
      have xy: "books y = books w" using leavesD [OF build y] x by simp
      then have y': "slots y = slots s" "name_free name y" "\<not> bn_closed y"
        using w' None look(2) by (simp_all add: books_def slots_def name_free_def)
      show thesis
      proof (cases q)
        case e: (Inl e)
        then show thesis using rest y y' Inr by (intro refused [of e]) simp_all
      next
        case st: (Inr st)
        then have "install name kind tag cfg ?X st y = (r, s')" using rest y Inr by simp
        with y' y st show thesis by (intro new) auto
      qed
    qed
  qed
qed

lemma build_books:
  "books_kept (sread (\<lambda>s. eager_open X sd (shared.truncate s)))"
  "books_kept (sbind (on_shared (lazy_open X)) (\<lambda>st. sret (resident.extend st \<lparr>eg_values = bt_empty\<rparr>)))"
  by (intro leaving)+

lemma enlisted_opens:
  assumes "opens V kind tag name cfg build s = (r, s')" "\<And>X. books_kept (build X)" "enlisted s"
  shows "enlisted s'"
  using assms(1,2)
proof (cases rule: opens_cases)
  case (shared ol u)
  have "enlisted u" by (rule enlisted_slots [OF _ assms(3)]) (simp add: slots_def shared)
  from enlisted_share [OF this live_stays [OF shared(4)], of name kind tag cfg] shared(5) show ?thesis by simp
next
  case (new X st u)
  have "enlisted u" by (rule enlisted_slots [OF new(1) assms(3)])
  from enlisted_install [OF this new(2), of kind tag cfg X st] new(3) show ?thesis by simp
next
  case refused
  show ?thesis by (rule enlisted_slots [OF refused(2) assms(3)])
qed

lemma enlisted_residents: "enlisted s \<Longrightarrow> enlisted (s\<lparr>bn_residents := filter (\<lambda>r. upgrade s r \<noteq> None) (bn_residents s)\<rparr>)"
  by (auto simp: enlisted_def upgrade_def)

lemma enlisted_flush_residents: "enlisted s \<Longrightarrow> enlisted (snd (flush_residents as first s))"
proof (induction as arbitrary: first s)
  case (Cons a as)
  have "enlisted (snd (in_cell a resident_flush s))" by (rule enlisted_in_cell [OF Cons.prems])
  with Cons.IH show ?case by (auto split: prod.split sum.split)
qed simp

lemma enlisted_flush_all: "enlisted s \<Longrightarrow> enlisted (snd (flush_all V s))"
proof (cases "bn_closed s")
  case False
  assume l: "enlisted s"
  let ?s = "s\<lparr>bn_residents := filter (\<lambda>r. upgrade s r \<noteq> None) (bn_residents s)\<rparr>"
  obtain e u where u: "flush_residents (bn_residents ?s) None ?s = (e, u)" by fastforce
  have "enlisted u" using enlisted_flush_residents [OF enlisted_residents [OF l], of "bn_residents ?s" None] u by simp
  then have "enlisted (snd (on_store m u))" for m by (intro enlisted_slots [OF _ \<open>enlisted u\<close>]) (simp add: on_store_def slots_def split: prod.split)
  then show ?thesis using u False by (simp add: flush_all_def bank_ensure_open_def sbind_def Let_def split: prod.split)
    (auto simp: on_store_def \<open>enlisted u\<close> intro!: enlisted_slots [OF _ \<open>enlisted u\<close>] simp: slots_def split: prod.splits)
qed (simp add: flush_all_def bank_ensure_open_def)

lemma enlisted_act: "books_kept m \<Longrightarrow> enlisted s \<Longrightarrow> enlisted (snd (m s))"
  by (rule enlisted_books [OF leaves_app])

lemma books_host [leaving]: "books_kept bank_persist" "books_kept bank_is_persisted" "books_kept (bank_usage V)"
  unfolding bank_persist_def bank_is_persisted_def bank_usage_def by (intro leaving)+

lemma enlisted_serve: "enlisted s \<Longrightarrow> enlisted (snd (serve V j s))"
  by (cases j)
    (simp_all add: answer_def enlisted_act leaving enlisted_flush_all enlisted_slots [OF leaves_app [OF slots_delete]])

lemma enlisted_assembled: "assembled V b ch coh = Inr s \<Longrightarrow> enlisted s"
  by (auto simp: assembled_def bank_new_def enlisted_def upgrade_def split: prod.splits sum.splits)

lemma enlisted_step: "bank_step V s s' \<Longrightarrow> enlisted s \<Longrightarrow> enlisted s'"
proof (induction rule: bank_step.induct)
  case (Serve j s reply s')
  then show ?case using enlisted_serve [of s V j] by simp
next
  case (Quarantine name keys s r s')
  then show ?case using enlisted_slots [OF leavesD [OF slots_quarantine]] by blast
next
  case (Measure name s u s')
  then show ?case using enlisted_books [OF leavesD [OF books_measures(1)]] by blast
next
  case (Verify name s bad s')
  then show ?case using enlisted_books [OF leavesD [OF books_measures(2)]] by blast
next
  case (Open_Eager sd name cfg s a s')
  then show ?case unfolding opens_both(1) using enlisted_opens build_books(1) by blast
next
  case (Open_Lazy sd name cfg s a s')
  then show ?case unfolding opens_both(2) using enlisted_opens build_books(2) by blast
next
  case (Call m cell s r s')
  then show ?case using enlisted_in_cell [of s cell m] by simp
next
  case (Drop s cell)
  then show ?case unfolding drop_handle_def by (rule enlisted_on_cell) simp
next
  case (Chain s ch)
  then show ?case by (rule enlisted_slots [rotated]) (simp add: register_chain_def slots_def)
next
  case (Reopen s ch coh s')
  then show ?case by (intro enlisted_assembled)
qed

lemma enlisted_run: "(bank_step V)\<^sup>*\<^sup>* s s' \<Longrightarrow> enlisted s \<Longrightarrow> enlisted s'"
  by (induction rule: rtranclp_induct) (auto intro: enlisted_step)

section \<open>What a flush leaves staged\<close>

lemma staged_id [leaving]: "leaves rs_staged (next_value_id X)"
  by (simp add: leaves_def next_value_id_def on_values_def split: prod.split)

lemma staged_put [leaving]: "leaves rs_staged (put_payload_ops X key payload flags pr)"
  unfolding put_payload_ops_def by (auto intro!: leaving split: prod.split)

lemma staged_action [leaving]: "leaves rs_staged (action_ops X mode ka)"
  by (auto simp: action_ops_def intro!: leaving split: prod.split action.split tx_mode.split)

lemma staged_ops [leaving]: "leaves rs_staged (ops_for_pending X entries mode)"
  unfolding ops_for_pending_def ops_for_items_def by (auto intro!: leaving split: prod.split)

lemma staged_budget [leaving]: "leaves rs_staged (budget_ops X ops us rs cl keep)"
  by (simp add: leaves_def same_core_fields [OF core_only_app [OF core_only_budget]])

lemma staged_commit [leaving]: "leaves rs_staged (inner_commit X ops)"
proof (rule leavesI)
  fix s s' :: "('a, 'b, 'c) resident_scheme" and r
  assume "inner_commit X ops s = (r, s')"
  then have "commit_fields s s'" using inner_commit_fields [of s X ops] by simp
  then show "rs_staged s' = rs_staged s" by (auto simp: commit_fields_def)
qed

lemma not_restaged: "or_restage back m s = (Inr x, s') \<Longrightarrow> m s = (Inr x, s')"
  by (auto simp: or_restage_def split: prod.splits sum.splits)

lemma commit_batch_staged:
  assumes "commit_batch X mode back batch s = (Inr bg, s')"
  shows "rs_staged s' = rs_staged s"
proof -
  obtain us rs cl where acc: "accounting batch = (us, rs, cl)" by (metis surj_pair)
  obtain ops u ops' v where "ops_for_pending X batch mode s = (Inr ops, u)"
    "budget_ops X ops us rs cl (map fst us) u = (Inr (bg, ops'), v)" "inner_commit X ops' v = (Inr (), s')"
    using assms unfolding commit_batch_def acc by (auto simp: sbind_eq_Inr_iff dest!: not_restaged)
  then show ?thesis by (auto dest!: leavesD [OF staged_ops] leavesD [OF staged_budget] leavesD [OF staged_commit])
qed

lemma flushed_staged:
  assumes "resident_flush X s = (Inr (), s')"
  shows "rs_staged s' = []"
proof (cases "pending_len s = 0")
  case True
  then show ?thesis using assms by (simp add: resident_flush_def pending_len_def)
next
  case False
  then have "rs_staged s \<noteq> []" by (simp add: pending_len_def)
  then obtain bg v where "commit_batch X (rs_mode s) (rs_staged s) (rs_staged s) (s\<lparr>rs_staged := []\<rparr>) = (Inr bg, v)" "s' = apply_budget X bg v"
    using assms False by (auto simp: resident_flush_def flush_locked_def take_staged_def sbind_eq_Inr_iff)
  then show ?thesis using commit_batch_staged by (fastforce simp: apply_budget_fields)
qed

section \<open>Flushing every locker\<close>

lemma in_cell_other: "a \<noteq> x \<Longrightarrow> bt_lookup (bn_cells (snd (in_cell a m s))) x = bt_lookup (bn_cells s) x"
  by (simp add: in_cell_def case_prod_unfold split: option.split)

lemma flush_residents_first: "fst (flush_residents as (Some e) s) = Some e"
  by (induction as arbitrary: s) (auto split: prod.split sum.split)

lemma flush_residents_other: "x \<notin> set as \<Longrightarrow> bt_lookup (bn_cells (snd (flush_residents as first s))) x = bt_lookup (bn_cells s) x"
proof (induction as arbitrary: first s)
  case (Cons a as)
  have "bt_lookup (bn_cells (snd (in_cell a resident_flush s))) x = bt_lookup (bn_cells s) x"
    by (rule in_cell_other) (use Cons.prems in auto)
  with Cons.IH Cons.prems show ?case by (auto split: prod.split sum.split)
qed simp

lemma flush_residents_reaches:
  assumes "distinct as" "a \<in> set as" "flush_residents as first s = (f, s')"
  shows "\<exists>u q u'. bt_lookup (bn_cells u) a = bt_lookup (bn_cells s) a \<and> in_cell a resident_flush u = (q, u')
    \<and> bt_lookup (bn_cells s') a = bt_lookup (bn_cells u') a \<and> (f = None \<longrightarrow> q = Inr ())"
  using assms
proof (induction as arbitrary: first s)
  case (Cons x as)
  obtain q u where u: "in_cell x resident_flush s = (q, u)" by fastforce
  let ?first = "case q of Inl e \<Rightarrow> Some (case first of Some f \<Rightarrow> f | None \<Rightarrow> e) | Inr _ \<Rightarrow> first"
  have rest: "flush_residents as ?first u = (f, s')" using Cons.prems(3) u by (cases q) simp_all
  show ?case
  proof (cases "a = x")
    case True
    have "bt_lookup (bn_cells s') a = bt_lookup (bn_cells u) a"
      using flush_residents_other [of a as ?first u] rest Cons.prems(1) True by simp
    moreover have "f = None \<longrightarrow> q = Inr ()" using rest flush_residents_first [of as _ u] by (cases q) (auto dest!: arg_cong [where f = fst])
    ultimately show ?thesis using u True by blast
  next
    case False
    then obtain u1 q1 u2 where "bt_lookup (bn_cells u1) a = bt_lookup (bn_cells u) a" "in_cell a resident_flush u1 = (q1, u2)"
      "bt_lookup (bn_cells s') a = bt_lookup (bn_cells u2) a" "f = None \<longrightarrow> q1 = Inr ()"
      using Cons.IH [OF _ _ rest] Cons.prems by auto
    moreover have "bt_lookup (bn_cells u) a = bt_lookup (bn_cells s) a"
      using in_cell_other [of x a resident_flush s] u False by simp
    ultimately show ?thesis by metis
  qed
qed simp

text \<open>
  C31: In every state a bank in use can reach, \<open>flush_all\<close> flushes every locker that some handle keeps, whatever the
  other lockers answer: what it leaves of the locker is what a flush of that locker alone leaves of it, and when
  one of these flushes fails \<open>flush_all\<close> fails. When it succeeds no locker with a handle has a write staged.
\<close>

theorem flush_all_flushes:
  fixes s0 s s' :: "('b, 'q, 'v) bank"
  assumes "assembled V b ch coh = Inr s0" "(bank_step V)\<^sup>*\<^sup>* s0 s" "\<not> bn_closed s" "flush_all V s = (r, s')" "upgrade s a = Some c"
  shows "\<exists>u q u'. bt_lookup (bn_cells u) a = Some c \<and> in_cell a resident_flush u = (q, u')
    \<and> bt_lookup (bn_cells s') a = bt_lookup (bn_cells u') a
    \<and> (r = Inr () \<longrightarrow> q = Inr () \<and> (\<exists>c'. upgrade s' a = Some c' \<and> rs_staged (ce_state c') = []))"
proof -
  have l: "enlisted s" by (rule enlisted_run [OF assms(2) enlisted_assembled [OF assms(1)]])
  let ?live = "filter (\<lambda>r. upgrade s r \<noteq> None) (bn_residents s)"
  obtain f w where w: "flush_residents ?live None (s\<lparr>bn_residents := ?live\<rparr>) = (f, w)" by fastforce
  have s': "bn_cells s' = bn_cells w" "r = Inr () \<Longrightarrow> f = None"
    using assms(3,4) w by (auto simp: flush_all_def bank_ensure_open_def sbind_def Let_def on_store_def split: prod.splits option.splits)
  have "distinct ?live" "a \<in> set ?live" using l assms(5) by (auto simp: enlisted_def)
  from flush_residents_reaches [OF this w] obtain u q u' where u: "bt_lookup (bn_cells u) a = bt_lookup (bn_cells s) a"
    "in_cell a resident_flush u = (q, u')" "bt_lookup (bn_cells w) a = bt_lookup (bn_cells u') a" "f = None \<longrightarrow> q = Inr ()" by auto
  have c: "bt_lookup (bn_cells u) a = Some c" "ce_handles c > 0" using u(1) assms(5) by (auto simp: upgrade_def split: option.splits if_splits)
  then obtain st where "resident_flush (ce_ctx c) ((ce_state c)\<lparr>sh_store := sh_store u, sh_values := sh_values u,
      sh_ticks := sh_ticks u, sh_coherence := sh_coherence u\<rparr>) = (q, st)" "bt_lookup (bn_cells u') a = Some (c\<lparr>ce_state := st\<rparr>)"
    using u(2) by (auto simp: in_cell_def split: prod.splits)
  then have "q = Inr () \<Longrightarrow> \<exists>c'. upgrade s' a = Some c' \<and> rs_staged (ce_state c') = []"
    using flushed_staged u(3) s'(1) c(2) by (auto simp: upgrade_def)
  with u c s' show ?thesis by auto
qed

text \<open>A locker that defers its commits, with a write staged.\<close>

definition sample_deferred_config :: locker_config where
  "sample_deferred_config = sample_config\<lparr>lc_commit := Commit_Deferred 5\<rparr>"

definition sample_deferred_open :: "(memory_backend, unit, unit) bank" where
  "sample_deferred_open = snd (lazy_locker_with sample_env sample_unit ''b'' sample_deferred_config sample_named)"

definition sample_deferred_put :: "(memory_backend, unit, unit) bank" where
  "sample_deferred_put = snd (in_cell 1 (\<lambda>X. lazy_put_by X sample_unit [1] ()) sample_deferred_open)"

lemma sample_deferred_steps: "(bank_step sample_env)\<^sup>*\<^sup>* sample_fresh sample_deferred_put"
proof -
  have "(bank_step sample_env)\<^sup>*\<^sup>* sample_fresh sample_deferred_open" unfolding sample_deferred_open_def
    by (rule rtranclp.rtrancl_into_rtrancl [OF sample_steps(1)], rule bank_step.Open_Lazy, rule prod.collapse [symmetric])
  then show ?thesis unfolding sample_deferred_put_def
    by (rule rtranclp.rtrancl_into_rtrancl) (rule bank_step.Call, rule locker_call.Lazy_Put, rule prod.collapse [symmetric])
qed

lemma sample_deferred_cells:
  "\<not> bn_closed sample_deferred_put" "map_option (\<lambda>c. rs_staged (ce_state c)) (upgrade sample_deferred_put 1) = Some [Pend_Put [1] []]"
  "fst (flush_all sample_env sample_deferred_put) = Inr ()"
  by code_simp+

theorem flush_all_flushes_witness:
  "map_option (\<lambda>c. rs_staged (ce_state c)) (upgrade sample_deferred_put 1) = Some [Pend_Put [1] []]
   \<and> (\<exists>c. upgrade (snd (flush_all sample_env sample_deferred_put)) 1 = Some c \<and> rs_staged (ce_state c) = [])"
proof -
  obtain c where c: "upgrade sample_deferred_put 1 = Some c" using sample_deferred_cells(2) by auto
  from flush_all_flushes [OF sample_assembled sample_deferred_steps sample_deferred_cells(1) prod.collapse [symmetric] c]
  show ?thesis using sample_deferred_cells(2,3) by auto
qed

section \<open>Opening a name twice\<close>

text \<open>\<open>Bank::locker_with\<close> and \<open>Bank::lazy_locker_with\<close>, by kind.\<close>

definition open_as :: "('b, 'q) env \<Rightarrow> tx_mode \<Rightarrow> 'v serde \<Rightarrow> string \<Rightarrow> locker_config \<Rightarrow> (('b, 'q, 'v) bank, error, nat) act" where
  "open_as V kind sd name cfg = (case kind of TxEager \<Rightarrow> locker_with V sd name cfg | TxLazy \<Rightarrow> lazy_locker_with V sd name cfg)"

definition built_by :: "tx_mode \<Rightarrow> 'v serde \<Rightarrow> ('b, 'q) ctx \<Rightarrow> (('b, 'q, 'v) bank, error, ('b, 'q, 'v) eager) act" where
  "built_by kind sd X =
     (case kind of
        TxEager \<Rightarrow> sread (\<lambda>s. eager_open X sd (shared.truncate s))
      | TxLazy \<Rightarrow> sbind (on_shared (lazy_open X)) (\<lambda>st. sret (resident.extend st \<lparr>eg_values = bt_empty\<rparr>)))"

lemma open_as_opens: "open_as V kind sd name cfg = opens V kind (type_tag sd) name cfg (built_by kind sd)"
  by (cases kind) (simp_all add: open_as_def built_by_def [abs_def] opens_both)

lemma built_by_books: "books_kept (built_by kind sd X)"
  by (cases kind) (simp_all add: built_by_def build_books)

lemma built_by_open: "built_by kind sd X w = (Inr st, w') \<Longrightarrow> \<not> in_closed st"
  by (cases kind)
    (auto simp: built_by_def sbind_eq_Inr_iff on_shared_def resident.defs dest: eager_opens_open lazy_opens_open split: prod.splits)

lemma config_conflict_eq: "config_conflict a b = None \<longleftrightarrow> config_eq a b"
  by (simp add: config_conflict_def config_eq_def)

text \<open>A handle on a cell that is live, given to an open that agrees with the first.\<close>

lemma share_open_effect:
  "share_open name ol kind tag cfg s =
     (if ol_kind ol = kind \<and> ol_type_tag ol = tag then
        (if \<not> config_eq (ol_config ol) cfg then
           (Inl (InvalidConfig (''locker '' @ show_debug name @ '' is already open with a different '' @ the (config_conflict (ol_config ol) cfg) @
              ''; every handle on one name shares its state, so they must be opened the same way. Close the open handle first, or open this one with the same config.'')), s)
         else if kind = TxEager \<and> \<not> ol_has_values ol then (Inl (SchemaMismatch (ol_type_tag ol) tag), s)
         else (Inr (ol_cell ol), add_handle (ol_cell ol) s))
      else (fst (share_open name ol kind tag cfg s), s))"
  "ol_kind ol \<noteq> kind \<or> ol_type_tag ol \<noteq> tag \<Longrightarrow> \<exists>m m'. fst (share_open name ol kind tag cfg s) = Inl (SchemaMismatch m m')"
  by (auto simp: share_open_def check_shared_def sbind_def config_conflict_eq [symmetric] split: option.split)

definition entry_for :: "string \<Rightarrow> tx_mode \<Rightarrow> string \<Rightarrow> locker_config \<Rightarrow> nat \<Rightarrow> ('b, 'q, 'v) bank \<Rightarrow> bool" where
  "entry_for name kind tag cfg a s \<longleftrightarrow>
     \<not> bn_closed s \<and> (\<exists>ol. bt_lookup (bn_open s) name = Some ol \<and> is_live s ol \<and> ol_cell ol = a \<and> ol_kind ol = kind
        \<and> ol_type_tag ol = tag \<and> config_eq (ol_config ol) cfg \<and> (kind = TxEager \<longrightarrow> ol_has_values ol))"

lemma opened_entry:
  assumes "opens V kind tag name cfg build s = (Inr a, s')" "\<And>X. books_kept (build X)"
    and "\<And>X w st w'. build X w = (Inr st, w') \<Longrightarrow> \<not> in_closed st"
  shows "entry_for name kind tag cfg a s'"
  using assms(1,2)
proof (cases rule: opens_cases)
  case (shared ol u)
  have ok: "ol_kind ol = kind" "ol_type_tag ol = tag" "config_eq (ol_config ol) cfg" "kind = TxEager \<longrightarrow> ol_has_values ol"
    "s' = add_handle (ol_cell ol) u" "a = ol_cell ol"
    using shared(5) share_open_effect [where name = name and ol = ol and kind = kind and tag = tag and cfg = cfg and s = u]
    by (auto split: if_splits)
  moreover have "is_live s' ol" "bn_open s' = bn_open u" "bn_closed s' = bn_closed u"
    using shared(4) by (auto simp: ok(5) add_handle_def on_cell_def is_live_def upgrade_def split: option.splits if_splits)
  ultimately show ?thesis using shared(3,6) by (auto simp: entry_for_def)
next
  case (new X st u)
  let ?ol = "\<lparr>ol_cell = a, ol_has_values = (kind = TxEager), ol_kind = kind, ol_type_tag = tag, ol_config = cfg\<rparr>"
  have s': "s' = register_resident a ((prune t)\<lparr>bn_open := bt_insert name ?ol (bn_open (prune t))\<rparr>)"
    "t = u\<lparr>bn_cells := bt_insert a \<lparr>ce_ctx = X, ce_state = st, ce_handles = 1\<rparr> (bn_cells u)\<rparr>"
    if "t = u\<lparr>bn_cells := bt_insert a \<lparr>ce_ctx = X, ce_state = st, ce_handles = 1\<rparr> (bn_cells u)\<rparr>" for t
    using new(3) that by (auto simp: install_free [OF new(2)] Let_def)
  have "bn_cells s' = bt_insert a \<lparr>ce_ctx = X, ce_state = st, ce_handles = 1\<rparr> (bn_cells u)" "bt_lookup (bn_open s') name = Some ?ol"
    "bn_closed s' = bn_closed u"
    using s'(1) [OF refl] by (simp_all add: register_resident_def prune_def)
  moreover have "\<not> in_closed st" using new(4) assms(3) by blast
  ultimately show ?thesis using new(5) by (simp add: entry_for_def is_live_def upgrade_def config_eq_def)
next
  case (refused e)
  then show ?thesis by simp
qed

lemma second_open:
  assumes e: "entry_for name kind tag cfg a s" and run: "opens V kind' tag' name cfg' build s = (r, s')"
  shows "sh_store s' = sh_store s \<and>
    (if kind' = kind \<and> tag' = tag \<and> config_eq cfg cfg'
     then r = Inr a \<and> (\<exists>c. upgrade s a = Some c \<and> bn_cells s' = bt_insert a (c\<lparr>ce_handles := Suc (ce_handles c)\<rparr>) (bn_cells s))
     else bn_cells s' = bn_cells s \<and>
       (if kind' = kind \<and> tag' = tag then \<exists>m. r = Inl (InvalidConfig m) else \<exists>m m'. r = Inl (SchemaMismatch m m')))"
proof -
  obtain ol where ol: "bt_lookup (bn_open s) name = Some ol" "is_live s ol" "ol_cell ol = a" "ol_kind ol = kind" "ol_type_tag ol = tag"
    "config_eq (ol_config ol) cfg" "kind = TxEager \<longrightarrow> ol_has_values ol" "\<not> bn_closed s"
    using e by (auto simp: entry_for_def)
  obtain ch u where u: "chain_for cfg' s = (ch, u)" by fastforce
  have u': "bn_cells u = bn_cells s" "bn_open u = bn_open s" "sh_store u = sh_store s"
    using u by (auto simp: chain_for_def register_chain_def split: option.splits)
  have live: "is_live u ol" "is_live (prune u) ol" using ol(2) u'(1) by (simp_all add: is_live_def upgrade_def prune_def)
  have "bt_lookup (bn_open (prune u)) name = Some ol" using ol(1) u'(2) live(1) by (simp add: prune_def)
  with live(2) have "open_locker_of name u = (Some ol, prune u)" by (simp add: open_locker_of_def Let_def)
  then have share: "share_open name ol kind' tag' cfg' (prune u) = (r, s')"
    using run ol(8) u by (simp add: opens_def bank_ensure_open_def)
  obtain c where c: "upgrade s a = Some c" "bt_lookup (bn_cells s) a = Some c"
    using ol(2,3) by (auto simp: is_live_def upgrade_def split: option.splits if_splits)
  have cells: "bn_cells (prune u) = bn_cells s" "sh_store (prune u) = sh_store s" using u' by (simp_all add: prune_def)
  have handle: "bn_cells (add_handle a (prune u)) = bt_insert a (c\<lparr>ce_handles := Suc (ce_handles c)\<rparr>) (bn_cells s)"
    "sh_store (add_handle a (prune u)) = sh_store s"
    using c(2) cells by (simp_all add: add_handle_def on_cell_def)
  have eq: "config_eq (ol_config ol) cfg' \<longleftrightarrow> config_eq cfg cfg'"
    using ol(6) config_eq_equivp by (meson equivp_symp equivp_transp)
  show ?thesis
  proof (cases "kind' = kind \<and> tag' = tag")
    case True
    with share_open_effect(1) [of name ol kind' tag' cfg' "prune u"] share show ?thesis
      using ol c(1) handle cells eq by (auto split: if_splits)
  next
    case False
    then have "s' = prune u" "\<exists>m m'. r = Inl (SchemaMismatch m m')"
      using share_open_effect(1) [of name ol kind' tag' cfg' "prune u"] share_open_effect(2) [where name = name and ol = ol and kind = kind' and tag = tag' and cfg = cfg' and s = "prune u"] share ol
      by auto
    with False cells show ?thesis by auto
  qed
qed

text \<open>
  C32: After an open of a name has returned a locker, an open of the same name, of either kind, with any configuration
  and of values of any type, gets one more handle on that very locker exactly when kind, type tag and configuration
  agree, deferred commits among them; otherwise it is refused, as a schema mismatch when kind or type differ and as an
  invalid configuration when only the configuration does, and no locker of the bank has changed. Neither writes anything.
\<close>

theorem second_open_shares:
  fixes s s1 s2 :: "('b, 'q, 'v) bank"
  assumes "open_as V kind sd name cfg s = (Inr a, s1)" "open_as V kind' sd' name cfg' s1 = (r, s2)"
  shows "sh_store s2 = sh_store s1 \<and>
    (if kind' = kind \<and> type_tag sd' = type_tag sd \<and> config_eq cfg cfg'
     then r = Inr a \<and> (\<exists>c. upgrade s1 a = Some c \<and> bn_cells s2 = bt_insert a (c\<lparr>ce_handles := Suc (ce_handles c)\<rparr>) (bn_cells s1))
     else bn_cells s2 = bn_cells s1 \<and>
       (if kind' = kind \<and> type_tag sd' = type_tag sd then \<exists>m. r = Inl (InvalidConfig m) else \<exists>m m'. r = Inl (SchemaMismatch m m')))"
  by (rule second_open [OF opened_entry [OF assms(1) [unfolded open_as_opens] built_by_books built_by_open] assms(2) [unfolded open_as_opens]])

lemma sample_deferred_opened: "fst (lazy_locker_with sample_env sample_unit ''b'' sample_deferred_config sample_named) = Inr 1"
  by code_simp

theorem second_open_shares_witness:
  "fst (open_as sample_env TxLazy sample_unit ''b'' sample_deferred_config sample_deferred_open) = Inr 1
   \<and> (\<exists>m. fst (open_as sample_env TxLazy sample_unit ''b'' sample_config sample_deferred_open) = Inl (InvalidConfig m))"
proof -
  have first: "open_as sample_env TxLazy sample_unit ''b'' sample_deferred_config sample_named = (Inr 1, sample_deferred_open)"
    using sample_deferred_opened by (simp add: open_as_def sample_deferred_open_def prod_eq_iff)
  have "config_eq sample_deferred_config sample_deferred_config" "\<not> config_eq sample_deferred_config sample_config"
    by (simp_all add: config_eq_def sample_deferred_config_def sample_config_def)
  with second_open_shares [OF first prod.collapse [symmetric], where kind' = TxLazy and sd' = sample_unit and cfg' = sample_deferred_config]
    second_open_shares [OF first prod.collapse [symmetric], where kind' = TxLazy and sd' = sample_unit and cfg' = sample_config]
  show ?thesis by simp
qed

end
