(* ===== verification/Bank_Properties.thy ===== *)
theory Bank_Properties
  imports Bank_Residents
begin

text \<open>
  Deleting a locker: what it takes out of the storage, on every branch.
\<close>

section \<open>Deleting a locker\<close>

text \<open>
  The storage after the locker \<open>name\<close> of id \<open>i\<close> is gone: its name and schema, its records, the chunks its
  records pointed to; everything else as it was.
\<close>

definition chunk_of :: "locker_id \<Rightarrow> tables \<Rightarrow> bytes \<Rightarrow> bool" where
  "chunk_of i t x \<longleftrightarrow> (\<exists>k raw p. bt_lookup (tb_records t) (encode_bytes i k) = Some raw \<and> pointer_parse raw = Inr p
     \<and> kr_contains (chunk_range (cp_value_id p)) x)"

definition erased :: "string \<Rightarrow> locker_id \<Rightarrow> tables \<Rightarrow> tables \<Rightarrow> bool" where
  "erased name i t t' \<longleftrightarrow>
     (\<forall>k. bt_lookup (tb_meta t') k = (if k = locker_key name \<or> k = schema_key i then None else bt_lookup (tb_meta t) k))
     \<and> (\<forall>x. bt_lookup (tb_records t') x = (if kr_contains (locker_range i) x then None else bt_lookup (tb_records t) x))
     \<and> (\<forall>x. bt_lookup (tb_chunks t') x = (if chunk_of i t x then None else bt_lookup (tb_chunks t) x))"

lemma last_said_deletes:
  assumes "\<And>op v. op \<in> set ops \<Longrightarrow> op_says tab x op \<noteq> Some (Some v)"
  shows "last_said tab x ops = (if \<exists>op\<in>set ops. op_says tab x op = Some None then Some None else None)"
proof (cases "last_said tab x ops")
  case None
  then show ?thesis using last_said_None by fastforce
next
  case (Some w)
  from last_said_in [OF this] assms have "\<exists>op\<in>set ops. op_says tab x op = Some None" "w = None"
    by (metis option.exhaust)+
  then show ?thesis using Some by simp
qed

lemma lookup_deletes:
  assumes "\<And>op v. op \<in> set ops \<Longrightarrow> op_says tab x op \<noteq> Some (Some v)"
  shows "bt_lookup (tables_get (apply_ops t ops) tab) x
    = (if \<exists>op\<in>set ops. op_says tab x op = Some None then None else bt_lookup (tables_get t tab) x)"
  using lookup_apply_ops [of t ops tab x] last_said_deletes [of ops tab x, OF assms] by simp

lemma set_map_filter: "y \<in> set (List.map_filter g xs) \<longleftrightarrow> (\<exists>x\<in>set xs. g x = Some y)"
  by (induction xs) (auto simp: List.map_filter_simps split: option.splits)

lemma erased_by_ops:
  assumes ps: "ps = List.map_filter (\<lambda>(k, v). parsed v) (locker_records i t)"
    and t': "t' = apply_ops t ((map gc_ops ps @ [Op_DeleteRange Records (locker_range i)])
              @ [Op_Delete Meta (locker_key name), Op_Delete Meta (schema_key i)])"
  shows "erased name i t t'"
proof -
  let ?ops = "(map gc_ops ps @ [Op_DeleteRange Records (locker_range i)])
    @ [Op_Delete Meta (locker_key name), Op_Delete Meta (schema_key i)]"
  have dels: "op_says tab x op \<noteq> Some (Some v)" if "op \<in> set ?ops" for tab x op v
    using that by (auto simp: gc_ops_def split: if_splits)
  have look: "bt_lookup (tables_get t' tab) x = (if \<exists>op\<in>set ?ops. op_says tab x op = Some None then None
      else bt_lookup (tables_get t tab) x)" for tab x
    unfolding t' by (rule lookup_deletes [OF dels])
  have in_ps: "p \<in> set ps \<longleftrightarrow> (\<exists>k raw. bt_lookup (tb_records t) (encode_bytes i k) = Some raw \<and> pointer_parse raw = Inr p)" for p
    unfolding ps set_map_filter by (simp add: Bex_def split_paired_Ex locker_records_mem)
  have mem: "(\<exists>p\<in>set ps. kr_contains (chunk_range (cp_value_id p)) x) \<longleftrightarrow> chunk_of i t x" for x
    unfolding chunk_of_def Bex_def in_ps by blast
  have meta: "bt_lookup (tb_meta t') k = (if k = locker_key name \<or> k = schema_key i then None else bt_lookup (tb_meta t) k)" for k
    using look [of Meta k] by (auto simp: gc_ops_def split: if_splits)
  moreover have recs: "bt_lookup (tb_records t') x = (if kr_contains (locker_range i) x then None else bt_lookup (tb_records t) x)" for x
    using look [of Records x] by (auto simp: gc_ops_def split: if_splits)
  moreover have "bt_lookup (tb_chunks t') x = (if chunk_of i t x then None else bt_lookup (tb_chunks t) x)" for x
    using look [of Chunks x] mem [of x] by (auto simp: gc_ops_def split: if_splits)
  ultimately show ?thesis by (simp add: erased_def)
qed

context backend_contract
begin

lemma locker_exists_spec:
  assumes "ev_backend V = B" "bank_ok tabs s" "locker_exists V s name = Inr ex"
  shows "ex \<longleftrightarrow> registry (tabs (sh_store s)) name \<noteq> None"
proof (cases "cached s name")
  case None
  then obtain raw where "bk_get B (sh_store s) Meta (locker_key name) = Inr raw" "ex = (raw \<noteq> None)"
    using assms(1,3) by (auto simp: locker_exists_def rbind_eq_Inr_iff)
  moreover from this get_spec have "raw = bt_lookup (tb_meta (tabs (sh_store s))) (locker_key name)" by fastforce
  ultimately show ?thesis by (simp add: registry_def)
qed (use assms in \<open>auto simp: locker_exists_def bank_ok_def\<close>)

lemma locker_id_known:
  assumes V: "ev_backend V = B" and ok: "bank_ok tabs s" and known: "registry (tabs (sh_store s)) name = Some i"
    and run: "locker_id_of V name s = (r, s')"
  shows "sh_store s' = sh_store s \<and> bank_ok tabs s' \<and> bn_chain s' = bn_chain s \<and> (\<forall>j. r = Inr j \<longrightarrow> j = i)"
proof (cases "cached s name")
  case (Some j)
  then have "j = i" using ok known by (auto simp: bank_ok_def)
  then show ?thesis using run Some ok by (auto simp: locker_id_of_def)
next
  case None
  obtain raw where raw: "bt_lookup (tb_meta (tabs (sh_store s))) (locker_key name) = Some raw" "i = from_be32 raw" "length raw = 4"
    using known ok by (auto simp: registry_def bank_ok_def registry_ok_def)
  show ?thesis
  proof (cases "bk_get_many B (sh_store s) Meta [locker_key name, META_NEXT_LOCKER_ID]")
    case (Inl e)
    then show ?thesis using run None V ok by (auto simp: locker_id_of_def sbind_def)
  next
    case (Inr vs)
    have "vs = [Some raw, bt_lookup (tb_meta (tabs (sh_store s))) META_NEXT_LOCKER_ID]"
      using get_many_spec [OF Inr] raw(1) by simp
    then have "r = Inr i" "s' = cache name i s"
      using run None V Inr raw by (simp_all add: locker_id_of_def sbind_def u32_from_def)
    then show ?thesis using ok known by (auto simp: cache_def cached_def bank_ok_def)
  qed
qed

text \<open>The commit of a delete, and what precedes it.\<close>

lemma delete_commits:
  fixes s :: "('b, 'q, 'v) bank"
  assumes V: "ev_backend V = B" and ok: "bank_ok tabs s" and known: "registry (tabs (sh_store s)) name = Some i"
    and run: "sbind (locker_id_of V name) (\<lambda>i.
              sbind (sread (\<lambda>s. locker_chain_or_bank V s i)) (\<lambda>ch.
              sbind (sread (\<lambda>s. clear_value_ops (maintenance_ctx V i name ch) (sh_store s))) (\<lambda>ops.
              sbind (on_store (bk_commit (ev_backend V)
                       (ops @ [Op_Delete Meta (locker_key name), Op_Delete Meta (schema_key i)]))) (\<lambda>_.
              sbind (smod (\<lambda>s. s\<lparr>bn_registry := bt_remove name (bn_registry s), bn_open := bt_remove name (bn_open s)\<rparr>)) (\<lambda>_.
                sret True))))) s = (r, s')"
  shows "case r of Inl e \<Rightarrow> tabs (sh_store s') = tabs (sh_store s)
    | Inr b \<Rightarrow> b \<and> erased name i (tabs (sh_store s)) (tabs (sh_store s')) \<and> cached s' name = None"
proof -
  obtain q u where u: "locker_id_of V name s = (q, u)" by fastforce
  note id = locker_id_known [OF V ok known u]
  show ?thesis
  proof (cases q)
    case (Inl e)
    then have "r = Inl e" "s' = u" using run u by (simp_all add: sbind_def)
    then show ?thesis using id by simp
  next
    case (Inr j)
    then have q: "q = Inr i" using id by simp
    show ?thesis
    proof (cases "locker_chain_or_bank V u i")
      case (Inl e)
      then have "r = Inl e" "s' = u" using run u q by (simp_all add: sbind_def)
      then show ?thesis using id by simp
    next
      case ch: (Inr ch)
      let ?X = "maintenance_ctx V i name ch"
      show ?thesis
      proof (cases "clear_value_ops ?X (sh_store u)")
        case (Inl e)
        then have "r = Inl e" "s' = u" using run u q ch by (simp_all add: sbind_def)
        then show ?thesis using id by simp
      next
        case ops: (Inr ops)
        let ?ops = "ops @ [Op_Delete Meta (locker_key name), Op_Delete Meta (schema_key i)]"
        have X: "cx_backend ?X = B" "cx_id ?X = i" by (simp_all add: maintenance_ctx_def locker_ctx_def V)
        obtain c b where c: "bk_commit B ?ops (sh_store u) = (c, b)" by fastforce
        show ?thesis
        proof (cases c)
          case (Inl e)
          then have "r = Inl e" "sh_store s' = b" using run u q ch ops c V by (auto simp: sbind_def on_store_def)
          then show ?thesis using id plain_commit_error_spec c Inl by simp
        next
          case (Inr x)
          have "tabs b = apply_ops (tabs (sh_store s)) ?ops" using plain_commit_spec c Inr id by metis
          then have "erased name i (tabs (sh_store s)) (tabs b)"
            using clear_value_ops_spec [OF ops X(1)] X(2) id by (intro erased_by_ops [OF refl]) (simp add: clear_op_def)
          moreover have "r = Inr True" "sh_store s' = b" "bn_registry s' = bt_remove name (bn_registry u)"
            using run u q ch ops c Inr V by (auto simp: sbind_def on_store_def)
          ultimately show ?thesis by (simp add: cached_def)
        qed
      qed
    qed
  qed
qed

lemma delete_locker_effect:
  fixes s :: "('b, 'q, 'v) bank"
  assumes V: "ev_backend V = B" and ok: "bank_ok tabs s" and run: "delete_locker V name s = (r, s')"
  shows "case r of
      Inl e \<Rightarrow> tabs (sh_store s') = tabs (sh_store s)
    | Inr False \<Rightarrow> registry (tabs (sh_store s)) name = None \<and> tabs (sh_store s') = tabs (sh_store s)
    | Inr True \<Rightarrow> \<exists>i. registry (tabs (sh_store s)) name = Some i
        \<and> erased name i (tabs (sh_store s)) (tabs (sh_store s')) \<and> cached s' name = None"
proof (cases "bt_contains (bn_open (prune s)) name")
  case True
  then show ?thesis using run by (auto simp: delete_locker_def is_locker_open_def Let_def)
next
  case closed: False
  have ok': "bank_ok tabs (prune s)" using ok by simp
  show ?thesis
  proof (cases "locker_exists V (prune s) name")
    case (Inl e)
    then have "r = Inl e" "s' = prune s" using run closed by (simp_all add: delete_locker_def is_locker_open_def Let_def)
    then show ?thesis by simp
  next
    case (Inr ex)
    note ex = locker_exists_spec [OF V ok' Inr]
    show ?thesis
    proof (cases ex)
      case False
      then show ?thesis using run closed Inr ex by (auto simp: delete_locker_def is_locker_open_def Let_def)
    next
      case True
      then obtain i where i: "registry (tabs (sh_store (prune s))) name = Some i" using ex by auto
      note d = delete_commits [OF V ok' i, of r s']
      show ?thesis
        using d run closed Inr True i by (auto simp: delete_locker_def is_locker_open_def Let_def split: sum.splits bool.splits)
    qed
  qed
qed

end

text \<open>
  C9: Deleting a locker that is registered and not open takes its name, its schema, all its records and all
  the chunks these point to out of the storage, and nothing else; it answers that it did not when no locker
  has the name; when it fails the storage is as it was.
\<close>

theorem delete_locker_exact:
  fixes s0 s s' :: "('b, 'q, 'v) bank"
  assumes "backend_contract (ev_backend V) tabs" "registry_ok (tabs b)" "assembled V b ch coh = Inr s0"
    and "(bank_step V)\<^sup>*\<^sup>* s0 s" "delete_locker V name s = (r, s')"
  shows "case r of
      Inl e \<Rightarrow> tabs (sh_store s') = tabs (sh_store s)
    | Inr False \<Rightarrow> registry (tabs (sh_store s)) name = None \<and> tabs (sh_store s') = tabs (sh_store s)
    | Inr True \<Rightarrow> \<exists>i. registry (tabs (sh_store s)) name = Some i
        \<and> erased name i (tabs (sh_store s)) (tabs (sh_store s')) \<and> cached s' name = None"
proof -
  have "bank_ok tabs s"
    using backend_contract.bank_steps_advance [OF assms(1,4) refl assembled_inv [OF assms(1-3)]]
    by (simp add: advances_def bank_inv_def)
  from backend_contract.delete_locker_effect [OF assms(1) refl this assms(5)] show ?thesis .
qed

lemma clear_ops_config:
  "clear_value_ops (maintenance_ctx V i name ch) b = clear_value_ops (locker_ctx V ch i name sample_config) b"
  by (simp add: clear_value_ops_def maintenance_ctx_def locker_ctx_def clear_op_def)

theorem delete_locker_exact_witness:
  "\<exists>i. registry (mb_tables (sh_store sample_named)) ''a'' = Some i
    \<and> erased ''a'' i (mb_tables (sh_store sample_named)) (mb_tables (sh_store (snd (delete_locker sample_env ''a'' sample_named))))"
proof -
  have "fst (delete_locker sample_env ''a'' sample_named) = Inr True"
    unfolding delete_locker_def clear_ops_config by code_simp
  with delete_locker_exact [OF sample_start sample_assembled sample_steps(1) prod.collapse [symmetric], of "''a''"]
  show ?thesis by auto
qed

end
