(* ===== verification/Named_Tables.thy ===== *)
theory Named_Tables
  imports Paging
begin

text \<open>
  What the two persistent backends share: their engines keep tables under names, of which a backend uses three,
  and an engine is found out by the text of its errors.
\<close>

section \<open>Tables by name\<close>

text \<open>The tables by name: a table no one has opened for writing is not there. A missing table reads as empty.\<close>

type_synonym named_tables = "string \<Rightarrow> tree option"

definition tree_or_empty :: "tree option \<Rightarrow> tree" where
  "tree_or_empty t = (case t of Some t \<Rightarrow> t | None \<Rightarrow> bt_empty)"

definition tables_of :: "named_tables \<Rightarrow> tables" where
  "tables_of f = \<lparr>tb_meta = tree_or_empty (f ''meta''), tb_records = tree_or_empty (f ''records''),
     tb_chunks = tree_or_empty (f ''chunks'')\<rparr>"

lemma tables_of_get [simp]: "tables_get (tables_of f) tab = tree_or_empty (f (table_name tab))"
  by (cases tab) (simp_all add: tables_of_def)

lemma tree_or_empty_simps [simp]: "tree_or_empty None = bt_empty" "tree_or_empty (Some x) = x"
  by (simp_all add: tree_or_empty_def)

text \<open>Bounds of a range, as the engines take them.\<close>

type_synonym bounds = "bytes bound \<times> bytes bound"

definition in_bounds :: "bounds \<Rightarrow> bytes \<Rightarrow> bool" where
  "in_bounds r k \<longleftrightarrow> above_start (fst r) k \<and> below_end (snd r) k"

lemma table_name_inject [simp]: "table_name a = table_name b \<longleftrightarrow> a = b"
  by (cases a; cases b) simp_all

section \<open>Texts\<close>

text \<open>\<open>str::contains\<close>.\<close>

definition contains_text :: "string \<Rightarrow> string \<Rightarrow> bool" where
  "contains_text pat s \<longleftrightarrow> (\<exists>x\<in>set (suffixes s). prefix pat x)"

section \<open>A database in memory\<close>

text \<open>A database in memory that keeps the promises: the tables by name, the newest first.\<close>

type_synonym plain_db = "(string \<times> tree) list"

definition plain_update :: "string \<Rightarrow> (tree \<Rightarrow> tree) \<Rightarrow> plain_db \<Rightarrow> plain_db" where
  "plain_update n f w = (n, f (tree_or_empty (map_of w n))) # w"

lemma plain_size: "map_of db n = Some x \<Longrightarrow> bt_len x \<le> sum_list (map (\<lambda>(n, x). bt_len x) db)"
  by (induction db) (auto split: if_splits)

end
