(* ===== verification/Redb_Backend.thy ===== *)
theory Redb_Backend
  imports Named_Tables
begin

text \<open>
  \<open>src/backend/redb.rs\<close>: the native backend over the third-party \<open>redb\<close> database. The database is the
  argument \<open>redb\<close> of the definitions, a record of the calls the file makes: read transactions and their
  tables, write transactions with their operations, and the commit. An error of \<open>redb\<close> is the text it
  displays. The locale \<open>redb_contract\<close> states what its documentation promises: a read transaction is a
  snapshot, a range is in key order, a write transaction sees its own writes and a commit installs them all
  or nothing. Over any such database the backend keeps the contract every other part relies on.
  The \<open>RwLock\<close> around the database is taken and released in each method.
\<close>

section \<open>The database\<close>

datatype table_error = Table_Missing string | Table_Failed string

fun table_error_text :: "table_error \<Rightarrow> string" where
  "table_error_text (Table_Missing e) = e"
| "table_error_text (Table_Failed e) = e"

datatype redb_level = Level_Immediate | Level_None

record ('d, 'r, 'h, 'w) redb =
  rb_begin_read :: "'d \<Rightarrow> string + 'r"
  rb_open_read :: "string \<Rightarrow> 'r \<Rightarrow> table_error + 'h"
  rb_get :: "'h \<Rightarrow> bytes \<Rightarrow> string + bytes option"
  rb_range :: "'h \<Rightarrow> bounds \<Rightarrow> string + (string + bytes \<times> bytes) list"
  rb_begin_write :: "'d \<Rightarrow> string + 'w"
  rb_set_durability :: "redb_level \<Rightarrow> 'w \<Rightarrow> string + 'w"
  rb_open_write :: "string \<Rightarrow> 'w \<Rightarrow> table_error + 'w"
  rb_insert :: "string \<Rightarrow> bytes \<Rightarrow> bytes \<Rightarrow> 'w \<Rightarrow> string + 'w"
  rb_remove :: "string \<Rightarrow> bytes \<Rightarrow> 'w \<Rightarrow> string + 'w"
  rb_retain_in :: "string \<Rightarrow> bounds \<Rightarrow> (bytes \<Rightarrow> bytes \<Rightarrow> bool) \<Rightarrow> 'w \<Rightarrow> string + 'w"
  rb_commit :: "'w \<Rightarrow> ('d, string, unit) act"
  rb_size :: "'d \<Rightarrow> nat"

text \<open>\<open>rb_size\<close> is not a call of the file: it bounds the number of stored records, for the fuel of paging.\<close>

section \<open>The backend\<close>

text \<open>The names of the three fixed tables.\<close>

fun table_definition :: "table \<Rightarrow> string" where
  "table_definition Meta = ''meta''"
| "table_definition Records = ''records''"
| "table_definition Chunks = ''chunks''"

definition backend_err :: "string \<Rightarrow> string \<Rightarrow> error" where
  "backend_err what message =
     (if contains_text ''No space left'' message \<or> contains_text ''ENOSPC'' message then QuotaExceeded 0 (Some 0)
      else Backend (what @ '': '' @ message))"

text \<open>\<open>map_err(|e| backend_err(what, e))\<close>, of an error and of a \<open>TableError\<close>.\<close>

definition told :: "string \<Rightarrow> string + 'a \<Rightarrow> 'a result" where
  "told what r = (case r of Inl e \<Rightarrow> Inl (backend_err what e) | Inr x \<Rightarrow> Inr x)"

definition told_table :: "string \<Rightarrow> table_error + 'a \<Rightarrow> 'a result" where
  "told_table what r = (case r of Inl e \<Rightarrow> Inl (backend_err what (table_error_text e)) | Inr x \<Rightarrow> Inr x)"

record 'd redb_backend =
  rd_db :: "'d option"
  rd_path :: string

definition with_db :: "('d \<Rightarrow> 'a result) \<Rightarrow> 'd redb_backend \<Rightarrow> 'a result" where
  "with_db f b = (case rd_db b of Some db \<Rightarrow> f db | None \<Rightarrow> Inl Closed)"

definition with_db_writing :: "('d, error, 'a) act \<Rightarrow> ('d redb_backend, error, 'a) act" where
  "with_db_writing f b =
     (case rd_db b of
        Some db \<Rightarrow> (case f db of (r, db) \<Rightarrow> (r, b\<lparr>rd_db := Some db\<rparr>))
      | None \<Rightarrow> (Inl Closed, b))"

definition as_ref_bounds :: "key_range \<Rightarrow> bounds" where
  "as_ref_bounds r = (kr_start r, kr_end r)"

text \<open>The loop of \<open>any_table_missing\<close>.\<close>

fun probe :: "('d, 'r, 'h, 'w) redb \<Rightarrow> 'r \<Rightarrow> table list \<Rightarrow> bool result" where
  "probe E txn [] = Inr False"
| "probe E txn (tab # tabs) =
     (case rb_open_read E (table_definition tab) txn of
        Inr _ \<Rightarrow> probe E txn tabs
      | Inl (Table_Missing _) \<Rightarrow> Inr True
      | Inl (Table_Failed e) \<Rightarrow> Inl (backend_err ''probing for a table'' e))"

definition any_table_missing :: "('d, 'r, 'h, 'w) redb \<Rightarrow> 'd redb_backend \<Rightarrow> bool result" where
  "any_table_missing E =
     with_db (\<lambda>db. rbind (told ''beginning the table probe'' (rb_begin_read E db)) (\<lambda>txn. probe E txn table_all))"

definition create_tables :: "('d, 'r, 'h, 'w) redb \<Rightarrow> ('d redb_backend, error, unit) act" where
  "create_tables E =
     sbind (sread (any_table_missing E)) (\<lambda>missing.
       if \<not> missing then sret ()
       else with_db_writing (\<lambda>db.
         case rbind (told ''beginning the setup transaction'' (rb_begin_write E db)) (\<lambda>txn.
                foldM_r (\<lambda>txn tab. told_table ''creating a table'' (rb_open_write E (table_definition tab) txn)) txn table_all) of
           Inl e \<Rightarrow> (Inl e, db)
         | Inr txn \<Rightarrow> (case rb_commit E txn db of (r, db) \<Rightarrow> (told ''committing table creation'' r, db))))"

text \<open>\<open>open\<close>, given what \<open>Database::create\<close> answered for the path.\<close>

definition redb_open :: "('d, 'r, 'h, 'w) redb \<Rightarrow> string + 'd \<Rightarrow> string \<Rightarrow> 'd redb_backend result" where
  "redb_open E created path =
     rbind (told ''opening the database'' created) (\<lambda>db.
       case create_tables E \<lparr>rd_db = Some db, rd_path = path\<rparr> of
         (Inl e, _) \<Rightarrow> Inl e
       | (Inr _, b) \<Rightarrow> Inr b)"

definition read_one :: "('d, 'r, 'h, 'w) redb \<Rightarrow> 'd redb_backend \<Rightarrow> table \<Rightarrow> bytes \<Rightarrow> bytes option result" where
  "read_one E b tab key =
     with_db (\<lambda>db. rbind (told ''beginning a read'' (rb_begin_read E db)) (\<lambda>txn.
       case rb_open_read E (table_definition tab) txn of
         Inr h \<Rightarrow> told ''reading a key'' (rb_get E h key)
       | Inl (Table_Missing _) \<Rightarrow> Inr None
       | Inl (Table_Failed e) \<Rightarrow> Inl (backend_err ''opening a table for reading'' e))) b"

definition redb_get_many :: "('d, 'r, 'h, 'w) redb \<Rightarrow> 'd redb_backend \<Rightarrow> table \<Rightarrow> bytes list \<Rightarrow> bytes option list result" where
  "redb_get_many E b tab keys =
     with_db (\<lambda>db. rbind (told ''beginning a batch read'' (rb_begin_read E db)) (\<lambda>txn.
       case rb_open_read E (table_definition tab) txn of
         Inr h \<Rightarrow> mapM_r (\<lambda>key. told ''reading a key'' (rb_get E h key)) keys
       | Inl (Table_Missing _) \<Rightarrow> Inr (replicate (length keys) None)
       | Inl (Table_Failed e) \<Rightarrow> Inl (backend_err ''opening a table for batch reading'' e))) b"

text \<open>The loop of \<open>scan_page\<close> over what the iterator yields.\<close>

fun scan_entries :: "nat \<Rightarrow> bool \<Rightarrow> (bytes \<times> bytes option) list \<Rightarrow> bytes option \<Rightarrow> (string + bytes \<times> bytes) list
    \<Rightarrow> ((bytes \<times> bytes option) list \<times> bytes option) result" where
  "scan_entries limit want items resume [] = Inr (items, resume)"
| "scan_entries limit want items resume (entry # rest) =
     (if length items \<ge> limit then Inr (items, resume)
      else rbind (told ''reading a range entry'' entry) (\<lambda>(key, v).
        scan_entries limit want (items @ [(key, if want then Some v else None)]) (Some key) rest))"

definition redb_scan_page :: "('d, 'r, 'h, 'w) redb \<Rightarrow> 'd redb_backend \<Rightarrow> scan_request \<Rightarrow> scan_page result" where
  "redb_scan_page E b rq =
     with_db (\<lambda>db. rbind (told ''beginning a scan'' (rb_begin_read E db)) (\<lambda>txn.
       case rb_open_read E (table_definition (rq_table rq)) txn of
         Inl (Table_Missing _) \<Rightarrow> Inr \<lparr>pg_items = [], pg_resume = None\<rparr>
       | Inl (Table_Failed e) \<Rightarrow> Inl (backend_err ''opening a table for scanning'' e)
       | Inr h \<Rightarrow>
           rbind (told ''opening a range'' (rb_range E h (as_ref_bounds (rq_range rq)))) (\<lambda>iter.
           rbind (scan_entries (rq_limit rq) (rq_want_values rq) [] None (if rq_reverse rq then rev iter else iter))
             (\<lambda>(items, resume).
               let exhausted = length items < rq_limit rq in
               Inr \<lparr>pg_items = items, pg_resume = (if exhausted then None else resume)\<rparr>)))) b"

fun redb_durability :: "durability \<Rightarrow> redb_level" where
  "redb_durability Dur_Immediate = Level_Immediate"
| "redb_durability Dur_Eventual = Level_None"

fun redb_op :: "('d, 'r, 'h, 'w) redb \<Rightarrow> 'w \<Rightarrow> bop \<Rightarrow> 'w result" where
  "redb_op E txn (Op_Put tab key v) =
     rbind (told_table ''opening a table for writing'' (rb_open_write E (table_definition tab) txn)) (\<lambda>txn.
       told ''inserting a key'' (rb_insert E (table_definition tab) key v txn))"
| "redb_op E txn (Op_Delete tab key) =
     rbind (told_table ''opening a table for deletion'' (rb_open_write E (table_definition tab) txn)) (\<lambda>txn.
       told ''removing a key'' (rb_remove E (table_definition tab) key txn))"
| "redb_op E txn (Op_DeleteRange tab rng) =
     rbind (told_table ''opening a table for range deletion'' (rb_open_write E (table_definition tab) txn)) (\<lambda>txn.
       told ''deleting a range'' (rb_retain_in E (table_definition tab) (as_ref_bounds rng) (\<lambda>_ _. False) txn))"

definition redb_apply :: "('d, 'r, 'h, 'w) redb \<Rightarrow> bop list \<Rightarrow> durability \<Rightarrow> ('d redb_backend, error, unit) act" where
  "redb_apply E ops dur =
     with_db_writing (\<lambda>db.
       case rbind (told ''beginning a write'' (rb_begin_write E db)) (\<lambda>txn.
            rbind (told ''setting durability'' (rb_set_durability E (redb_durability dur) txn)) (\<lambda>txn.
              foldM_r (redb_op E) txn ops)) of
         Inl e \<Rightarrow> (Inl e, db)
       | Inr txn \<Rightarrow> (case rb_commit E txn db of (r, db) \<Rightarrow> (told ''committing'' r, db)))"

definition redb_scan_page_size :: nat where
  "redb_scan_page_size = 1024"

text \<open>The length of the file at a path is the file system's, an argument.\<close>

definition redb_usage :: "(string \<Rightarrow> u64 option) \<Rightarrow> 'd redb_backend \<Rightarrow> usage option result" where
  "redb_usage file_len b =
     Inr (Some \<lparr>us_used = (case file_len (rd_path b) of Some n \<Rightarrow> n | None \<Rightarrow> 0), us_available = None, us_persisted = True\<rparr>)"

definition redb_close :: "('d redb_backend, error, unit) act" where
  "redb_close b = (Inr (), b\<lparr>rd_db := None\<rparr>)"

definition redb_backend_vt :: "('d, 'r, 'h, 'w) redb \<Rightarrow> (string \<Rightarrow> u64 option) \<Rightarrow> 'd redb_backend backend" where
  "redb_backend_vt E file_len =
     \<lparr>bk_get = read_one E, bk_get_many = redb_get_many E, bk_scan = redb_scan_page E,
      bk_scan_page_size = redb_scan_page_size,
      bk_commit = (\<lambda>ops. redb_apply E ops Dur_Immediate),
      bk_commit_with = (\<lambda>ops opts. redb_apply E ops (co_durability opts)),
      bk_usage = redb_usage file_len,
      bk_flush = redb_apply E [] Dur_Immediate,
      bk_close = redb_close,
      bk_fuel = (\<lambda>b. case rd_db b of Some db \<Rightarrow> Suc (rb_size E db) | None \<Rightarrow> 1)\<rparr>"

section \<open>What redb promises\<close>

definition redb_tables :: "('d \<Rightarrow> named_tables) \<Rightarrow> 'd redb_backend \<Rightarrow> tables" where
  "redb_tables view b = (case rd_db b of Some db \<Rightarrow> tables_of (view db) | None \<Rightarrow> tables_default)"

text \<open>What an iterator yields of the entries it runs over: each of them or an error.\<close>

definition yields :: "(string + bytes \<times> bytes) list \<Rightarrow> (bytes \<times> bytes) list \<Rightarrow> bool" where
  "yields xs es \<longleftrightarrow> list_all2 (\<lambda>x e. isl x \<or> x = Inr e) xs es"

locale redb_contract =
  fixes E :: "('d, 'r, 'h, 'w) redb" and view :: "'d \<Rightarrow> named_tables" and snapshot :: "'r \<Rightarrow> named_tables"
    and content :: "'h \<Rightarrow> tree" and written :: "'w \<Rightarrow> named_tables"
  assumes begin_read_spec: "rb_begin_read E db = Inr r \<Longrightarrow> snapshot r = view db"
    and open_read_spec: "rb_open_read E n r = Inr h \<Longrightarrow> snapshot r n = Some (content h)"
    and open_missing_spec: "rb_open_read E n r = Inl (Table_Missing why) \<Longrightarrow> snapshot r n = None"
    and get_spec: "rb_get E h k = Inr found \<Longrightarrow> found = bt_lookup (content h) k"
    and range_spec: "rb_range E h bs = Inr iter \<Longrightarrow> yields iter (filter (\<lambda>(k, _). in_bounds bs k) (bt_entries (content h)))"
    and begin_write_spec: "rb_begin_write E db = Inr w \<Longrightarrow> written w = view db"
    and durability_spec: "rb_set_durability E l w = Inr w' \<Longrightarrow> written w' = written w"
    and open_write_spec: "rb_open_write E n w = Inr w' \<Longrightarrow> written w' = (written w)(n \<mapsto> tree_or_empty (written w n))"
    and insert_spec: "rb_insert E n k v w = Inr w' \<Longrightarrow> written w n = Some x \<Longrightarrow> written w' = (written w)(n \<mapsto> bt_insert k v x)"
    and remove_spec: "rb_remove E n k w = Inr w' \<Longrightarrow> written w n = Some x \<Longrightarrow> written w' = (written w)(n \<mapsto> bt_remove k x)"
    and retain_spec: "rb_retain_in E n bs keep w = Inr w' \<Longrightarrow> written w n = Some x
          \<Longrightarrow> written w' = (written w)(n \<mapsto> bt_filter (\<lambda>k v. in_bounds bs k \<longrightarrow> keep k v) x)"
    and commit_spec: "rb_commit E w db = (Inr u, db') \<Longrightarrow> view db' = written w"
    and commit_error_spec: "rb_commit E w db = (Inl e, db') \<Longrightarrow> view db' = view db"
    and size_spec: "view db n = Some x \<Longrightarrow> bt_len x \<le> rb_size E db"

lemma told_Inr [simp]: "told what r = Inr x \<longleftrightarrow> r = Inr x" "told_table what q = Inr x \<longleftrightarrow> q = Inr x"
  by (auto simp: told_def told_table_def split: sum.splits)

lemma table_definition_name [simp]: "table_definition tab = table_name tab"
  by (cases tab) simp_all

lemma in_ref_bounds [simp]: "in_bounds (as_ref_bounds r) k \<longleftrightarrow> kr_contains r k"
  by (simp add: in_bounds_def as_ref_bounds_def kr_contains_def)

lemma scan_entries_yields:
  assumes "scan_entries limit want items resume xs = Inr r" "yields xs es"
  shows "scan_loop limit want items resume es = r"
  using assms
proof (induction xs arbitrary: items resume es)
  case (Cons x xs)
  then obtain e es' where es: "es = e # es'" "isl x \<or> x = Inr e" "yields xs es'"
    by (auto simp: yields_def list_all2_Cons1)
  obtain k v where e: "e = (k, v)" by (cases e)
  show ?case
    using Cons.prems(1) Cons.IH [OF _ es(3)] es(2) by (cases x) (auto simp: es(1) e told_def split: if_splits)
qed (simp add: yields_def)

lemma yields_rev: "yields xs es \<Longrightarrow> yields (rev xs) (rev es)"
  by (simp add: yields_def list_all2_rev)

context redb_contract
begin

lemma opened:
  assumes "rb_begin_read E db = Inr txn" "rb_open_read E (table_definition tab) txn = Inr h"
  shows "content h = tables_get (tables_of (view db)) tab"
  using begin_read_spec [OF assms(1)] open_read_spec [OF assms(2)] by simp

lemma missing:
  assumes "rb_begin_read E db = Inr txn" "rb_open_read E (table_definition tab) txn = Inl (Table_Missing e)"
  shows "tables_get (tables_of (view db)) tab = bt_empty"
  using begin_read_spec [OF assms(1)] open_missing_spec [OF assms(2)] by simp

lemma read_one_spec:
  assumes "read_one E b tab k = Inr v"
  shows "v = bt_lookup (tables_get (redb_tables view b) tab) k"
proof -
  obtain db txn where db: "rd_db b = Some db" "rb_begin_read E db = Inr txn"
    using assms by (auto simp: read_one_def with_db_def rbind_eq_Inr_iff split: option.splits)
  show ?thesis
  proof (cases "rb_open_read E (table_definition tab) txn")
    case (Inl e)
    then obtain x where "e = Table_Missing x" "v = None"
      using assms db by (cases e) (auto simp: read_one_def with_db_def told_def)
    then show ?thesis using missing [OF db(2)] Inl db(1) by (simp add: redb_tables_def)
  next
    case (Inr h)
    then have "rb_get E h k = Inr v" using assms db by (simp add: read_one_def with_db_def rbind_eq_Inr_iff)
    from get_spec [OF this] show ?thesis using opened [OF db(2) Inr] db(1) by (simp add: redb_tables_def)
  qed
qed

lemma get_many_spec:
  assumes "redb_get_many E b tab ks = Inr vs"
  shows "vs = map (bt_lookup (tables_get (redb_tables view b) tab)) ks"
proof -
  obtain db txn where db: "rd_db b = Some db" "rb_begin_read E db = Inr txn"
    using assms by (auto simp: redb_get_many_def with_db_def rbind_eq_Inr_iff split: option.splits)
  show ?thesis
  proof (cases "rb_open_read E (table_definition tab) txn")
    case (Inl e)
    then obtain x where "e = Table_Missing x" "vs = replicate (length ks) None"
      using assms db by (cases e) (auto simp: redb_get_many_def with_db_def told_def)
    moreover from this have "tables_get (redb_tables view b) tab = bt_empty"
      using missing [OF db(2)] Inl db(1) by (simp add: redb_tables_def)
    moreover have "bt_lookup (bt_empty :: tree) = (\<lambda>_. None)" by (simp add: fun_eq_iff)
    ultimately show ?thesis by (simp add: map_replicate_const)
  next
    case (Inr h)
    then have "mapM_r (\<lambda>key. told ''reading a key'' (rb_get E h key)) ks = Inr vs"
      using assms db by (simp add: redb_get_many_def with_db_def rbind_eq_Inr_iff)
    then have "list_all2 (\<lambda>k v. v = bt_lookup (content h) k) ks vs"
      unfolding mapM_r_Inr_iff told_Inr by (rule list_all2_mono) (rule get_spec)
    then have "vs = map (bt_lookup (content h)) ks" by (induction rule: list_all2_induct) simp_all
    then show ?thesis using opened [OF db(2) Inr] db(1) by (simp add: redb_tables_def)
  qed
qed

lemma scan_page_spec:
  assumes "redb_scan_page E b rq = Inr pg"
  shows "pg = scan_tree (tables_get (redb_tables view b) (rq_table rq)) rq"
proof -
  obtain db txn where db: "rd_db b = Some db" "rb_begin_read E db = Inr txn"
    using assms by (auto simp: redb_scan_page_def with_db_def rbind_eq_Inr_iff split: option.splits)
  show ?thesis
  proof (cases "rb_open_read E (table_definition (rq_table rq)) txn")
    case (Inl e)
    then obtain x where "e = Table_Missing x" "pg = \<lparr>pg_items = [], pg_resume = None\<rparr>"
      using assms db by (cases e) (auto simp: redb_scan_page_def with_db_def told_def)
    then show ?thesis using missing [OF db(2)] Inl db(1)
      by (simp add: redb_tables_def scan_tree_def scan_order_def tree_range_def)
  next
    case (Inr h)
    then obtain iter items resume where iter: "rb_range E h (as_ref_bounds (rq_range rq)) = Inr iter"
      and run: "scan_entries (rq_limit rq) (rq_want_values rq) [] None (if rq_reverse rq then rev iter else iter) = Inr (items, resume)"
      and pg: "pg = \<lparr>pg_items = items, pg_resume = (if length items < rq_limit rq then None else resume)\<rparr>"
      using assms db by (auto simp: redb_scan_page_def with_db_def rbind_eq_Inr_iff Let_def)
    have "yields (if rq_reverse rq then rev iter else iter) (scan_order (content h) (rq_range rq) (rq_reverse rq))"
      using range_spec [OF iter] by (auto simp: scan_order_def tree_range_def intro: yields_rev)
    from scan_entries_yields [OF run this] show ?thesis
      using opened [OF db(2) Inr] db(1) by (simp add: redb_tables_def scan_tree_def pg)
  qed
qed

lemma scan_page_answers:
  "redb_scan_page E b rq = Inr pg \<Longrightarrow> 0 < rq_limit rq \<Longrightarrow> page_of (tables_get (redb_tables view b) (rq_table rq)) rq pg"
  using scan_page_spec scan_tree_page by blast

lemma op_spec:
  assumes "redb_op E w op = Inr w'"
  shows "tables_of (written w') = apply_op (tables_of (written w)) op"
proof (rule tables_eqI, rule btree_eqI)
  fix tab k
  show "bt_lookup (tables_get (tables_of (written w')) tab) k = bt_lookup (tables_get (apply_op (tables_of (written w)) op) tab) k"
  proof (cases op)
    case (Op_Put tab' key v)
    then obtain u where u: "rb_open_write E (table_definition tab') w = Inr u" "rb_insert E (table_definition tab') key v u = Inr w'"
      using assms by (auto simp: rbind_eq_Inr_iff)
    note o = open_write_spec [OF u(1)]
    from insert_spec [OF u(2)] show ?thesis by (simp add: Op_Put o)
  next
    case (Op_Delete tab' key)
    then obtain u where u: "rb_open_write E (table_definition tab') w = Inr u" "rb_remove E (table_definition tab') key u = Inr w'"
      using assms by (auto simp: rbind_eq_Inr_iff)
    note o = open_write_spec [OF u(1)]
    from remove_spec [OF u(2)] show ?thesis by (simp add: Op_Delete o)
  next
    case (Op_DeleteRange tab' rng)
    then obtain u where u: "rb_open_write E (table_definition tab') w = Inr u"
        "rb_retain_in E (table_definition tab') (as_ref_bounds rng) (\<lambda>_ _. False) u = Inr w'"
      using assms by (auto simp: rbind_eq_Inr_iff)
    note o = open_write_spec [OF u(1)]
    from retain_spec [OF u(2)] show ?thesis by (auto simp: Op_DeleteRange o split: option.split)
  qed
qed

lemma ops_spec: "foldM_r (redb_op E) w ops = Inr w' \<Longrightarrow> tables_of (written w') = apply_ops (tables_of (written w)) ops"
  by (induction ops arbitrary: w) (auto simp: rbind_eq_Inr_iff op_spec)

lemma apply_cases:
  assumes "redb_apply E ops dur b = (r, b')"
  shows "case r of Inl e \<Rightarrow> redb_tables view b' = redb_tables view b
    | Inr _ \<Rightarrow> redb_tables view b' = apply_ops (redb_tables view b) ops"
proof (cases "rd_db b")
  case None
  then show ?thesis using assms by (auto simp: redb_apply_def with_db_writing_def)
next
  case (Some db)
  let ?w = "rbind (told ''beginning a write'' (rb_begin_write E db)) (\<lambda>txn.
    rbind (told ''setting durability'' (rb_set_durability E (redb_durability dur) txn)) (\<lambda>txn. foldM_r (redb_op E) txn ops))"
  show ?thesis
  proof (cases ?w)
    case (Inl e)
    then have "r = Inl e" "b' = b\<lparr>rd_db := Some db\<rparr>" using assms Some by (auto simp: redb_apply_def with_db_writing_def)
    then show ?thesis using Some by (simp add: redb_tables_def)
  next
    case (Inr w)
    then obtain u v where w: "rb_begin_write E db = Inr u" "rb_set_durability E (redb_durability dur) u = Inr v"
        "foldM_r (redb_op E) v ops = Inr w" by (auto simp: rbind_eq_Inr_iff)
    have new: "tables_of (written w) = apply_ops (tables_of (view db)) ops"
      using ops_spec [OF w(3)] durability_spec [OF w(2)] begin_write_spec [OF w(1)] by simp
    obtain c db' where c: "rb_commit E w db = (c, db')" by fastforce
    have res: "r = told ''committing'' c" "b' = b\<lparr>rd_db := Some db'\<rparr>"
      using assms Some Inr c by (auto simp: redb_apply_def with_db_writing_def)
    show ?thesis
    proof (cases c)
      case (Inl e)
      then show ?thesis using commit_error_spec c res Some by (simp add: told_def redb_tables_def)
    next
      case (Inr x)
      then show ?thesis using commit_spec c res Some new by (simp add: told_def redb_tables_def)
    qed
  qed
qed

lemma probe_missing: "probe E txn tabs = Inr c \<Longrightarrow> c \<longleftrightarrow> (\<exists>tab\<in>set tabs. snapshot txn (table_definition tab) = None)"
  by (induction tabs) (auto dest: open_read_spec open_missing_spec split: sum.splits table_error.splits)

lemma tables_created:
  "foldM_r (\<lambda>txn tab. told_table what (rb_open_write E (table_definition tab) txn)) w tabs = Inr w'
    \<Longrightarrow> tables_of (written w') = tables_of (written w)
      \<and> (\<forall>n. written w n \<noteq> None \<longrightarrow> written w' n \<noteq> None) \<and> (\<forall>tab\<in>set tabs. written w' (table_definition tab) \<noteq> None)"
proof (induction tabs arbitrary: w)
  case (Cons tab tabs)
  then obtain u where u: "rb_open_write E (table_definition tab) w = Inr u"
      "foldM_r (\<lambda>txn tab. told_table what (rb_open_write E (table_definition tab) txn)) u tabs = Inr w'"
    by (auto simp: rbind_eq_Inr_iff)
  note o = open_write_spec [OF u(1)]
  have "tables_get (tables_of (written u)) tab' = tables_get (tables_of (written w)) tab'" for tab'
    by (simp add: o)
  then have "tables_of (written u) = tables_of (written w)" by (rule tables_eqI)
  moreover have "written u (table_definition tab) \<noteq> None" "\<forall>n. written w n \<noteq> None \<longrightarrow> written u n \<noteq> None" by (simp_all add: o)
  ultimately show ?case using Cons.IH [OF u(2)] by (auto simp del: not_None_eq)
qed simp

lemma open_effect:
  assumes "redb_open E (Inr db) path = Inr b"
  shows "\<exists>db'. b = \<lparr>rd_db = Some db', rd_path = path\<rparr> \<and> tables_of (view db') = tables_of (view db)
    \<and> (\<forall>tab. view db' (table_definition tab) \<noteq> None)
    \<and> ((\<exists>tab. view db (table_definition tab) = None) \<or> db' = db)"
proof -
  let ?b = "\<lparr>rd_db = Some db, rd_path = path\<rparr>"
  have all: "set table_all = UNIV" by (auto simp: table_all_def intro: table.exhaust)
  obtain u where c: "create_tables E ?b = (Inr u, b)"
    using assms by (auto simp: redb_open_def told_def split: sum.splits prod.splits)
  obtain missing where m: "any_table_missing E ?b = Inr missing"
    using c by (cases "any_table_missing E ?b") (simp_all add: create_tables_def sbind_def)
  obtain txn where txn: "rb_begin_read E db = Inr txn" "probe E txn table_all = Inr missing"
    using m by (auto simp: any_table_missing_def with_db_def rbind_eq_Inr_iff)
  have miss: "missing \<longleftrightarrow> (\<exists>tab. view db (table_definition tab) = None)"
    using probe_missing [OF txn(2)] begin_read_spec [OF txn(1)] by (simp add: all)
  show ?thesis
  proof (cases missing)
    case False
    then have "b = ?b" using c m by (simp add: create_tables_def sbind_def)
    then show ?thesis using False miss by auto
  next
    case True
    obtain w w' db' where w: "rb_begin_write E db = Inr w"
        "foldM_r (\<lambda>txn tab. told_table ''creating a table'' (rb_open_write E (table_definition tab) txn)) w table_all = Inr w'"
      and d: "rb_commit E w' db = (Inr (), db')" "b = \<lparr>rd_db = Some db', rd_path = path\<rparr>"
      using c m True by (auto simp: create_tables_def sbind_def with_db_writing_def rbind_eq_Inr_iff split: sum.splits prod.splits)
    note t = tables_created [OF w(2)]
    have "tables_of (view db') = tables_of (view db)" "\<forall>tab. view db' (table_definition tab) \<noteq> None"
      using t commit_spec [OF d(1)] begin_write_spec [OF w(1)] all by auto
    then show ?thesis using d(2) True miss by blast
  qed
qed

lemma stored_bound: "bt_len (tables_get (redb_tables view b) tab) < bk_fuel (redb_backend_vt E file_len) b"
proof (cases "rd_db b")
  case (Some db)
  then show ?thesis
    using size_spec [of db "table_definition tab"] by (cases "view db (table_definition tab)") (auto simp: redb_tables_def redb_backend_vt_def le_imp_less_Suc)
qed (cases tab; simp add: redb_tables_def redb_backend_vt_def tables_default_def)

lemma backend_kept: "backend_contract (redb_backend_vt E file_len) (redb_tables view)"
proof unfold_locales
  fix b b' ops opts r e u
  show "bk_commit_with (redb_backend_vt E file_len) ops opts b = (Inr u, b') \<Longrightarrow> redb_tables view b' = apply_ops (redb_tables view b) ops"
    using apply_cases by (fastforce simp: redb_backend_vt_def)
  show "bk_commit_with (redb_backend_vt E file_len) ops opts b = (Inl e, b') \<Longrightarrow> redb_tables view b' = redb_tables view b"
    using apply_cases by (fastforce simp: redb_backend_vt_def)
  show "bk_commit (redb_backend_vt E file_len) ops b = (Inr u, b') \<Longrightarrow> redb_tables view b' = apply_ops (redb_tables view b) ops"
    using apply_cases by (fastforce simp: redb_backend_vt_def)
  show "bk_commit (redb_backend_vt E file_len) ops b = (Inl e, b') \<Longrightarrow> redb_tables view b' = redb_tables view b"
    using apply_cases by (fastforce simp: redb_backend_vt_def)
  show "bk_flush (redb_backend_vt E file_len) b = (r, b') \<Longrightarrow> redb_tables view b' = redb_tables view b"
    using apply_cases [of "[]" Dur_Immediate b r b'] by (auto simp: redb_backend_vt_def split: sum.splits)
qed (use read_one_spec get_many_spec scan_page_answers stored_bound in \<open>auto simp: redb_backend_vt_def redb_scan_page_size_def\<close>)

end

sublocale redb_contract \<subseteq> backend: backend_contract "redb_backend_vt E file_len" "redb_tables view" for file_len
  by (rule backend_kept)

section \<open>Properties\<close>

text \<open>A database in memory that keeps the promises.\<close>

definition plain_redb :: "(plain_db, plain_db, tree, plain_db) redb" where
  "plain_redb =
     \<lparr>rb_begin_read = Inr, rb_open_read = (\<lambda>n r. case map_of r n of Some h \<Rightarrow> Inr h | None \<Rightarrow> Inl (Table_Missing ''Table does not exist'')),
      rb_get = (\<lambda>h k. Inr (bt_lookup h k)),
      rb_range = (\<lambda>h bs. Inr (map Inr (filter (\<lambda>(k, _). in_bounds bs k) (bt_entries h)))),
      rb_begin_write = Inr, rb_set_durability = (\<lambda>_. Inr), rb_open_write = (\<lambda>n w. Inr (plain_update n (\<lambda>x. x) w)),
      rb_insert = (\<lambda>n k v w. Inr (plain_update n (bt_insert k v) w)), rb_remove = (\<lambda>n k w. Inr (plain_update n (bt_remove k) w)),
      rb_retain_in = (\<lambda>n bs keep w. Inr (plain_update n (bt_filter (\<lambda>k v. in_bounds bs k \<longrightarrow> keep k v)) w)),
      rb_commit = (\<lambda>w db. (Inr (), w)), rb_size = (\<lambda>db. sum_list (map (\<lambda>(n, x). bt_len x) db))\<rparr>"

interpretation plain: redb_contract plain_redb map_of map_of "\<lambda>h. h" map_of
  by unfold_locales
    (auto simp: plain_redb_def plain_update_def plain_size yields_def list_all2_map1 list.rel_refl split: option.splits)

text \<open>
  C14: Over a database that does what redb documents, the native backend keeps the contract of a backend: a
  read tells what is stored, a scan answers a page of the range in order, a commit applies all its operations
  in order or, when any call of the database fails, none, and a flush changes nothing stored.
\<close>

theorem redb_keeps_contract:
  assumes "redb_contract E view snapshot content written"
  shows "backend_contract (redb_backend_vt E file_len) (redb_tables view)"
  by (rule redb_contract.backend_kept [OF assms])

theorem redb_keeps_contract_witness:
  "backend_contract (redb_backend_vt plain_redb (\<lambda>_. None)) (redb_tables map_of)"
  by (rule redb_keeps_contract [OF plain.redb_contract_axioms])

text \<open>
  Opening a database creates the tables that are missing and changes nothing that is stored; when none
  is missing the database is not written at all.
\<close>

theorem redb_open_exact:
  assumes "redb_contract E view snapshot content written" "redb_open E (Inr db) path = Inr b"
  shows "\<exists>db'. b = \<lparr>rd_db = Some db', rd_path = path\<rparr> \<and> tables_of (view db') = tables_of (view db)
    \<and> (\<forall>tab. view db' (table_definition tab) \<noteq> None)
    \<and> ((\<exists>tab. view db (table_definition tab) = None) \<or> db' = db)"
  by (rule redb_contract.open_effect [OF assms])

theorem redb_open_exact_witness:
  "\<exists>db'. projr (redb_open plain_redb (Inr []) ''bank.redb'') = \<lparr>rd_db = Some db', rd_path = ''bank.redb''\<rparr>
    \<and> tables_of (map_of db') = tables_default \<and> map_of db' ''chunks'' \<noteq> None"
proof -
  have "\<not> isl (redb_open plain_redb (Inr []) ''bank.redb'')" by code_simp
  then have "redb_open plain_redb (Inr []) ''bank.redb'' = Inr (projr (redb_open plain_redb (Inr []) ''bank.redb''))" by simp
  from redb_open_exact [OF plain.redb_contract_axioms this] obtain db' where
    "projr (redb_open plain_redb (Inr []) ''bank.redb'') = \<lparr>rd_db = Some db', rd_path = ''bank.redb''\<rparr>"
    "tables_of (map_of db') = tables_of (map_of [])" "\<forall>tab. map_of db' (table_definition tab) \<noteq> None" by blast
  moreover from this(3) have "map_of db' ''chunks'' \<noteq> None" by (metis table_definition.simps(3))
  ultimately show ?thesis by (auto simp: tables_of_def tables_default_def)
qed

end
