(* ===== verification/Lazy_Total.thy ===== *)
theory Lazy_Total
  imports Lazy_Progress Locker_Footprint
begin

text \<open>
  A lazy locker that commits at once, without a byte budget, over a live backend: every call returns, and
  the locker is the map its specification says. These are the calls of one locker; \<open>Sessions\<close> puts them together for a bank.
\<close>

section \<open>A locker as a map\<close>

type_synonym contents = "bytes \<Rightarrow> bytes option"

definition shows_map :: "filter_chain \<Rightarrow> locker_id \<Rightarrow> tables \<Rightarrow> contents \<Rightarrow> bool" where
  "shows_map ch i t m \<longleftrightarrow> payload_view ch i t = (\<lambda>k. map_option postcard (m k))"

text \<open>At least \<open>n\<close> value ids are left.\<close>

definition ids_left :: "nat \<Rightarrow> value_ids \<Rightarrow> tables \<Rightarrow> bool" where
  "ids_left n nxt t \<longleftrightarrow> (case nxt of Some c \<Rightarrow> unat c | None \<Rightarrow> unat (stored_counter t)) + n < 2 ^ 64"

text \<open>What the storage of a bank satisfies between calls, apart from its registry.\<close>

definition tables_ok :: "nat \<Rightarrow> value_ids \<Rightarrow> tables \<Rightarrow> bool" where
  "tables_ok n nxt t \<longleftrightarrow> vals_ok nxt t \<and> no_orphans t \<and> well_typed t \<and> ids_left n nxt t"

definition sealing :: "filter_chain \<Rightarrow> bool" where
  "sealing ch \<longleftrightarrow> sound_chain ch \<and> (\<forall>p. \<exists>s. seal ch p = Inr s)"

definition prompt_config :: "locker_config \<Rightarrow> bool" where
  "prompt_config cfg \<longleftrightarrow> lc_commit cfg = Commit_Immediate \<and> lc_policy cfg = Precious \<and> 0 < lc_chunk_size cfg
     \<and> \<not> is_eventual cfg"

definition prompt_ctx :: "('b, 'q) ctx \<Rightarrow> bool" where
  "prompt_ctx X \<longleftrightarrow> sealing (cx_chain X) \<and> prompt_config (cx_config X)"

definition locker_is :: "('b, 'q) ctx \<Rightarrow> tables \<Rightarrow> ('b, 'q, 'z) resident_scheme \<Rightarrow> contents \<Rightarrow> bool" where
  "locker_is X t s m \<longleftrightarrow> \<not> in_closed s \<and> rs_lru s = None \<and> lazy_ok X t s \<and> shows_map (cx_chain X) (cx_id X) t m"

lemma ids_left_mono: "ids_left n nxt t \<Longrightarrow> k \<le> n \<Longrightarrow> ids_left k nxt t"
  by (auto simp: ids_left_def split: option.splits)

lemma prompt_not_deferred [simp]: "prompt_ctx X \<Longrightarrow> \<not> is_deferred X"
  by (simp add: prompt_ctx_def prompt_config_def is_deferred_def deferred_after_def)

lemma locker_is_staged: "locker_is X t s m \<Longrightarrow> prompt_ctx X \<Longrightarrow> rs_staged s = []"
  using prompt_not_deferred [of X] by (simp add: locker_is_def lazy_ok_def)

lemma view_of_map: "locker_is X t s m \<Longrightarrow> prompt_ctx X \<Longrightarrow> view_of X t s = (\<lambda>k. map_option postcard (m k))"
  using locker_is_staged [of X t s m] by (simp add: locker_is_def shows_map_def locker_view_Nil)

lemma readable_map: "shows_map ch i t m \<Longrightarrow> readable (payload_view ch i t key)"
  by (cases "m key") (simp_all add: shows_map_def readable_def)

lemma apply_nothing: "rs_lru s = None \<Longrightarrow> apply_budget X budget_default s = s"
  by (simp add: apply_budget_def budget_default_def on_lru_def)

lemma budget_nothing: "rs_lru s = None \<Longrightarrow> budget_ops X ops us rs cl keep s = (Inr (budget_default, ops), s)"
  by (simp add: budget_ops_def)


section \<open>Value ids\<close>

text \<open>Every stored chunk belongs to a pointer, so its id is below the counter.\<close>

lemma chunk_ids_below:
  assumes "no_orphans t" "below t (stored_counter t)" "k \<in> stored_chunk_keys t"
  shows "8 \<le> length k \<and> chunk_id k < stored_counter t"
proof -
  obtain x i where "points t x i" "kr_contains (chunk_range i) k" using assms(1,3) unfolding no_orphans_def by blast
  moreover from this(2) have "prefix (be64 i) k" by (simp add: chunk_range_def)
  ultimately show ?thesis using assms(2) by (auto simp: prefix_def below_def chunk_id_def)
qed

lemma counter_keys_apart [simp]:
  "next_value_id_key \<noteq> META_FORMAT_VERSION" "next_value_id_key \<noteq> schema_key i" "next_value_id_key \<noteq> chain_key i"
  "next_value_id_key \<noteq> entry_key i u" "next_value_id_key \<noteq> META_NEXT_TICK"
  by (simp_all add: next_value_id_key_def META_FORMAT_VERSION_def schema_key_def META_SCHEMA_PREFIX_def chain_key_def
      META_CHAIN_PREFIX_def entry_key_def locker_prefix_def LRU_PREFIX_def META_NEXT_TICK_def as_bytes_def)

lemma counter_typed: "well_typed t \<Longrightarrow> bt_lookup (tb_meta t) next_value_id_key = Some raw \<Longrightarrow> length raw = 8"
proof -
  assume "well_typed t" "bt_lookup (tb_meta t) next_value_id_key = Some raw"
  then have "typed Meta next_value_id_key raw" unfolding well_typed_def by (drule_tac spec [of _ Meta]) simp
  then show ?thesis by (simp add: typed.simps)
qed

context live_backend
begin

lemma seed_floor_live:
  assumes "ready b" "tables_ok n nxt (tabs b)"
  shows "seed_floor B b = Inr (stored_counter (tabs b))"
proof -
  let ?t = "tabs b" and ?ks = "bt_keys (tb_chunks (tabs b))"
  let ?rq = "\<lparr>rq_table = Chunks, rq_range = kr_all, rq_reverse = True, rq_limit = 1, rq_want_values = False\<rparr>"
  have ok: "no_orphans ?t" "below ?t (stored_counter ?t)" "well_typed ?t"
    using assms(2) by (simp_all add: tables_ok_def vals_ok_def)
  obtain raw where raw: "bk_get B b Meta next_value_id_key = Inr raw" "parse_counter raw = Inr (stored_counter ?t)"
    using get_live [OF assms(1), of Meta next_value_id_key] counter_typed [OF ok(3)]
    by (auto simp: parse_counter_def stored_counter_def split: option.splits)
  obtain pg where pg: "bk_scan B b ?rq = Inr pg" using scan_ready [OF assms(1), of ?rq] by (auto simp: kr_all_def)
  have items: "pg_items pg = (if ?ks = [] then [] else [scan_item False (last (bt_entries (tb_chunks ?t)))])"
    using highest_chunk_key [of "tb_chunks ?t" Chunks False pg] scan_spec [OF pg] by simp
  show ?thesis
  proof (cases "?ks = []")
    case True
    then show ?thesis using raw pg items by (simp add: seed_floor_def highest_stored_id_def)
  next
    case False
    then have "last ?ks \<in> stored_chunk_keys ?t" by (rule last_in_set)
    from chunk_ids_below [OF ok(1,2) this] have low: "8 \<le> length (last ?ks)" "chunk_id (last ?ks) < stored_counter ?t" by simp_all
    have high: "highest_stored_id B b = Inr (Some (chunk_id (last ?ks)))"
      using pg items False low(1) by (simp add: highest_stored_id_def scan_item_def chunk_id_def bt_keys_def last_map case_prod_unfold)
    have "chunk_id (last ?ks) \<noteq> - 1" using low(2) by (auto simp: not_less [symmetric] dest: leD)
    then obtain j where j: "checked_succ (chunk_id (last ?ks)) = Some j" by (simp add: checked_succ_def)
    then have "unat j = Suc (unat (chunk_id (last ?ks)))" using unat_checked_succ [OF j] by simp
    then have "j \<le> stored_counter ?t" using low(2) by (simp add: word_le_nat_alt word_less_nat_alt)
    then show ?thesis using raw high j by (simp add: seed_floor_def advance_def max_absorb1)
  qed
qed

lemma allocate_live:
  assumes "ready b" "tables_ok k nxt0 (tabs b)" "ids_left (Suc n) nxt (tabs b)"
  shows "\<exists>vid j. allocate B b nxt = (Inr vid, Some j) \<and> ids_left n (Some j) t"
proof -
  define vid where "vid = (case nxt of Some c \<Rightarrow> c | None \<Rightarrow> stored_counter (tabs b))"
  have room: "unat vid + Suc n < 2 ^ 64" using assms(3) by (simp add: ids_left_def vid_def split: option.splits)
  have "vid \<noteq> - 1" using room unat_minus_one_word [where 'a = 64] by auto
  then obtain j where j: "checked_succ vid = Some j" by (simp add: checked_succ_def)
  then have "ids_left n (Some j) t" using room unat_checked_succ [OF j] by (simp add: ids_left_def)
  moreover have "allocate B b nxt = (Inr vid, Some j)"
    using j seed_floor_live [OF assms(1,2)]
    by (cases nxt) (simp_all add: allocate_def vid_take_def advance_def seed_and_take_def vid_def sbind_def)
  ultimately show ?thesis by blast
qed


section \<open>The state between calls\<close>

definition prompt :: "('b, 'q) ctx \<Rightarrow> nat \<Rightarrow> ('b, 'q, 'z) resident_scheme \<Rightarrow> contents \<Rightarrow> bool" where
  "prompt X n s m \<longleftrightarrow> ready (sh_store s) \<and> cx_backend X = B \<and> prompt_ctx X
     \<and> tables_ok n (sh_values s) (tabs (sh_store s)) \<and> locker_is X (tabs (sh_store s)) s m"

text \<open>What a call has done: its locker is the map \<open>m\<close>, every other locker reads as before.\<close>

definition gives :: "('b, 'q) ctx \<Rightarrow> ('b, 'q, 'z) resident_scheme \<Rightarrow> nat \<Rightarrow> ('b, 'q, 'z) resident_scheme \<Rightarrow> contents \<Rightarrow> bool" where
  "gives X s n s' m \<longleftrightarrow> prompt X n s' m \<and> writes_within tabs X (sh_store s) (sh_store s')
     \<and> (\<forall>ch l k. l \<noteq> cx_id X \<longrightarrow> payload_view ch l (tabs (sh_store s')) k = payload_view ch l (tabs (sh_store s)) k)"

lemma promptD:
  assumes "prompt X n s m"
  shows "ready (sh_store s)" "cx_backend X = B" "prompt_ctx X" "\<not> is_deferred X" "sound_chain (cx_chain X)"
    "\<exists>z. seal (cx_chain X) p = Inr z" "0 < lc_chunk_size (cx_config X)" "tables_ok n (sh_values s) (tabs (sh_store s))"
    "locker_is X (tabs (sh_store s)) s m" "\<not> in_closed s" "rs_lru s = None" "lazy_ok X (tabs (sh_store s)) s" "rs_staged s = []"
    "shows_map (cx_chain X) (cx_id X) (tabs (sh_store s)) m" "well_typed (tabs (sh_store s))"
    "ids_left n (sh_values s) (tabs (sh_store s))" "no_orphans (tabs (sh_store s))"
  using assms locker_is_staged [of X "tabs (sh_store s)" s m]
  by (simp_all add: prompt_def tables_ok_def prompt_ctx_def prompt_config_def sealing_def locker_is_def)

lemma writes_within_typed: "writes_within tabs X b b' \<Longrightarrow> well_typed (tabs b) \<Longrightarrow> well_typed (tabs b')"
  unfolding writes_within_def by (auto intro!: well_typed_apply simp: list_all_iff local_op_def)

lemma gives_effect:
  assumes "prompt X n0 s m" and e: "effect X (tabs (sh_store s)) s (tabs (sh_store s')) s' kept g"
    and w: "writes_within tabs X (sh_store s) (sh_store s')" and "ready (sh_store s')" "\<not> in_closed s'" "rs_lru s' = None"
    and g: "g (\<lambda>k. map_option postcard (m k)) = (\<lambda>k. map_option postcard (m' k))"
    and ids: "ids_left n (sh_values s') (tabs (sh_store s'))"
  shows "gives X s n s' m'"
proof -
  note p = promptD [OF assms(1)]
  have ok: "lazy_ok X (tabs (sh_store s')) s'" and orph: "no_orphans (tabs (sh_store s'))"
    and others: "\<forall>ch l k. l \<noteq> cx_id X \<longrightarrow> payload_view ch l (tabs (sh_store s')) k = payload_view ch l (tabs (sh_store s)) k"
    using e p(17) by (simp_all add: effect_def)
  have "view_of X (tabs (sh_store s')) s' = g (view_of X (tabs (sh_store s)) s)"
    using e p(11) by (auto elim: effectE)
  moreover have "rs_staged s' = []" using ok p(4) by (simp add: lazy_ok_def)
  ultimately have "shows_map (cx_chain X) (cx_id X) (tabs (sh_store s')) m'"
    using g view_of_map [OF p(9,3)] by (simp add: shows_map_def locker_view_Nil)
  then have "locker_is X (tabs (sh_store s')) s' m'" using ok assms(5,6) by (simp add: locker_is_def)
  moreover have "tables_ok n (sh_values s') (tabs (sh_store s'))"
    using ok orph writes_within_typed [OF w p(15)] ids by (simp add: tables_ok_def lazy_ok_def)
  ultimately show ?thesis using assms(4) others w p(2,3) by (simp add: gives_def prompt_def)
qed

section \<open>Writes\<close>

lemma inner_commit_total:
  fixes s :: "('b, 'q, 'z) resident_scheme"
  assumes "ready (sh_store s)" "cx_backend X = B"
  obtains u where "inner_commit X ops s = (Inr (), u)" "ready (sh_store u)" "tabs (sh_store u) = apply_ops (tabs (sh_store s)) ops"
    "sh_values u = sh_values s" "rs_lru u = rs_lru s" "in_closed u = in_closed s"
proof -
  obtain u where u: "inner_commit X ops s = (Inr (), u)" "ready (sh_store u)" using inner_commit_live [OF assms] by blast
  moreover have "in_closed u = in_closed s" using inner_commit_fields [of s X ops] u(1) by (auto simp: commit_fields_def)
  ultimately show thesis using that inner_commit_Inr [OF u(1) assms(2)] by simp
qed

definition silent :: "bop list \<Rightarrow> bool" where
  "silent ops \<longleftrightarrow> (\<forall>op\<in>set ops. op_says Meta next_value_id_key op = None)"

lemma silent_simps [simp]:
  "silent []" "silent (op # ops) \<longleftrightarrow> op_says Meta next_value_id_key op = None \<and> silent ops"
  "silent (ops @ ops') \<longleftrightarrow> silent ops \<and> silent ops'" "silent (map gc_ops ps)"
  "op_says Meta next_value_id_key (delete_op X key) = None" "op_says Meta next_value_id_key (clear_op X) = None"
  "op_says Meta next_value_id_key (gc_ops p) = None"
  by (auto simp: silent_def gc_ops_def delete_op_def clear_op_def)

lemma silent_counter: "silent ops \<Longrightarrow> stored_counter (apply_ops t ops) = stored_counter t"
  by (rule stored_counter_silent) (simp add: silent_def)

lemma put_ops_total:
  fixes s :: "('b, 'q, 'z) resident_scheme"
  assumes "ready (sh_store s)" "cx_backend X = B" "prompt_ctx X" and t: "tables_ok k0 v0 (tabs (sh_store s))"
    and m: "shows_map (cx_chain X) (cx_id X) (tabs (sh_store s)) m" "length payload \<le> MAX_DECODED_BYTES"
    and ids: "ids_left (Suc n) (sh_values s) (tabs (sh_store s))"
  obtains ops w where "put_payload_ops X key payload FLAG_POSTCARD pr s = (Inr ops, s\<lparr>sh_values := w\<rparr>)"
    "\<forall>t. w \<noteq> None \<longrightarrow> ids_left n w t"
    "w = None \<longrightarrow> sh_values s = None \<and> silent ops"
proof -
  have alloc: "\<exists>vid nxt. allocate B (sh_store s) (sh_values s) = (Inr vid, nxt)"
    using allocate_live [OF assms(1) t ids] by blast
  have big: "length payload < 2 ^ 32" using m(2) by (simp add: MAX_DECODED_BYTES_def)
  have seals: "\<exists>z. seal (cx_chain X) p = Inr z" for p using assms(3) by (simp add: prompt_ctx_def sealing_def)
  have chunk: "0 < lc_chunk_size (cx_config X)" using assms(3) by (simp add: prompt_ctx_def prompt_config_def)
  obtain ops w where ops: "put_payload_ops X key payload FLAG_POSTCARD pr s = (Inr ops, s\<lparr>sh_values := w\<rparr>)"
    using put_payload_ops_live [OF assms(1,2) readable_map [OF m(1), of key] seals big chunk alloc, where flags = FLAG_POSTCARD and pr = pr]
    by blast
  have field: "s\<lparr>sh_values := a\<rparr> = s\<lparr>sh_values := c\<rparr> \<Longrightarrow> a = c" "s\<lparr>sh_values := a\<rparr> = s \<Longrightarrow> a = sh_values s" for a c
    by (metis shared.select_convs(2) shared.surjective shared.update_convs(2))+
  from ops assms(2) show thesis
  proof (rule put_payload_ops_cases)
    fix sealed
    assume w: "s\<lparr>sh_values := w\<rparr> = s"
      and o: "ops = map gc_ops (if needs_read pr then record_pointers (tabs (sh_store s)) (encode_key X key) else [])
        @ [Op_Put Records (encode_key X key) sealed]"
    have "silent ops" unfolding o by simp
    then show thesis using field(2) [OF w] ids by (intro that [OF ops]) (auto simp: ids_left_def)
  next
    fix vid j
    assume a: "allocate B (sh_store s) (sh_values s) = (Inr vid, Some j)" and w: "s\<lparr>sh_values := w\<rparr> = s\<lparr>sh_values := Some j\<rparr>"
    have "ids_left n (Some j) t" for t using a allocate_live [OF assms(1) t ids, of t] by auto
    then show thesis using field(1) [OF w] by (intro that [OF ops]) auto
  qed
qed

lemma put_total:
  fixes s :: "('b, 'q, 'z) resident_scheme"
  assumes "prompt X (Suc n) s m" and payload: "sd_to_vec sd v = Inr payload" "length payload \<le> MAX_DECODED_BYTES"
  shows "\<exists>s'. lazy_put_by X sd key v s = (Inr (), s') \<and> gives X s n s' (m(key \<mapsto> payload))"
proof -
  note p = promptD [OF assms(1)]
  obtain ops w where ops: "put_payload_ops X key payload FLAG_POSTCARD (prior_of s key) s = (Inr ops, s\<lparr>sh_values := w\<rparr>)"
    and ids: "\<forall>t. w \<noteq> None \<longrightarrow> ids_left n w t"
      "w = None \<longrightarrow> sh_values s = None \<and> silent ops"
    by (rule put_ops_total [OF p(1-3,8,14) payload(2) p(16), where key = key and pr = "prior_of s key"])
  let ?s = "s\<lparr>sh_values := w\<rparr>"
  obtain u where u: "inner_commit X ops ?s = (Inr (), u)" "ready (sh_store u)" "tabs (sh_store u) = apply_ops (tabs (sh_store ?s)) ops"
    "sh_values u = sh_values ?s" "rs_lru u = rs_lru ?s" "in_closed u = in_closed ?s"
    by (rule inner_commit_total [of ?s X ops]) (use p in simp_all)
  let ?s' = "announce X (Ev_Put key) (apply_budget X budget_default (note_inline key (stores_inline X (length payload) FLAG_POSTCARD)
      (touch_index (ks_insert key) u)))"
  have run: "lazy_put_by X sd key v s = (Inr (), ?s')"
    using p u(1) budget_nothing [of ?s] payload(1) ops
    by (simp add: lazy_put_by_def ensure_open_def sbind_def Let_def)
  have "?s' = announce X (Ev_Put key) (note_inline key (stores_inline X (length payload) FLAG_POSTCARD) (touch_index (ks_insert key) u))"
    using u(5) p(11) by (subst apply_nothing) (simp_all add: note_inline_def touch_index_def)
  then have s': "sh_store ?s' = sh_store u" "sh_values ?s' = w" "rs_lru ?s' = None" "in_closed ?s' = in_closed s"
    using u p(11) by (simp_all add: announce_def note_inline_def touch_index_def)
  have "gives X s n ?s' (m(key \<mapsto> payload))"
  proof (rule gives_effect [OF assms(1)])
    show "effect X (tabs (sh_store s)) s (tabs (sh_store ?s')) ?s' {key} (\<lambda>f. f(key \<mapsto> postcard payload))"
      using lazy_put_effect [OF p(2,5,12,10) payload run] by simp
    show "writes_within tabs X (sh_store s) (sh_store ?s')" using withinD [OF lazy_put_within [OF p(2)] run] by simp
    have "ids_left n w (tabs (sh_store u))"
      using ids u(3) p(16) by (cases w) (auto simp: ids_left_def silent_counter)
    then show "ids_left n (sh_values ?s') (tabs (sh_store ?s'))" by (simp only: s')
  qed (use u p s' in auto)
  with run show ?thesis by blast
qed

lemma gc_silent: "gc_existing X b key pr = Inr gc \<Longrightarrow> silent gc"
  by (auto simp: gc_existing_def rbind_eq_Inr_iff split: if_splits option.splits)

text \<open>A commit of operations that leave the counter alone and the cursor as it is.\<close>

lemma direct_total:
  fixes s u :: "('b, 'q, 'z) resident_scheme"
  assumes "prompt X n s m" "tabs (sh_store u) = apply_ops (tabs (sh_store s)) ops" "sh_values u = sh_values s" "silent ops"
  shows "ids_left n (sh_values u) (tabs (sh_store u))"
  using promptD(16) [OF assms(1)] silent_counter [OF assms(4)] assms(2,3)
  by (cases "sh_values s") (simp_all add: ids_left_def)

lemma delete_total:
  fixes s :: "('b, 'q, 'z) resident_scheme"
  assumes "prompt X n s m"
  shows "\<exists>s'. lazy_delete_by X key s = (Inr (), s') \<and> gives X s n s' (m(key := None))"
proof -
  note p = promptD [OF assms(1)]
  obtain gc where gc: "gc_existing X (sh_store s) key (prior_of s key) = Inr gc"
    using gc_existing_live [OF p(1,2) readable_map [OF p(14)]] by blast
  let ?ops = "gc @ [delete_op X key]"
  obtain u where u: "inner_commit X ?ops s = (Inr (), u)" "ready (sh_store u)" "tabs (sh_store u) = apply_ops (tabs (sh_store s)) ?ops"
    "sh_values u = sh_values s" "rs_lru u = rs_lru s" "in_closed u = in_closed s"
    by (rule inner_commit_total [OF p(1,2)])
  let ?s' = "announce X (Ev_Deleted key) (apply_budget X budget_default (note_inline key False (touch_index (bt_remove key) u)))"
  have run: "lazy_delete_by X key s = (Inr (), ?s')"
    using p u(1) budget_nothing [of s] gc
    by (simp add: lazy_delete_by_def ensure_open_def sbind_def Let_def delete_value_ops_def)
  have "?s' = announce X (Ev_Deleted key) (note_inline key False (touch_index (bt_remove key) u))"
    using u(5) p(11) by (subst apply_nothing) (simp_all add: note_inline_def touch_index_def)
  then have s': "sh_store ?s' = sh_store u" "sh_values ?s' = sh_values u" "rs_lru ?s' = None" "in_closed ?s' = in_closed s"
    using u p(11) by (simp_all add: announce_def note_inline_def touch_index_def)
  have "gives X s n ?s' (m(key := None))"
  proof (rule gives_effect [OF assms(1)])
    show "effect X (tabs (sh_store s)) s (tabs (sh_store ?s')) ?s' {} (\<lambda>f. f(key := None))"
      using lazy_delete_effect [OF p(2,5,12,10) run] by simp
    show "writes_within tabs X (sh_store s) (sh_store ?s')" using withinD [OF lazy_delete_within [OF p(2)] run] by simp
    have "ids_left n (sh_values u) (tabs (sh_store u))"
      by (rule direct_total [OF assms u(3,4)]) (simp add: gc_silent [OF gc])
    then show "ids_left n (sh_values ?s') (tabs (sh_store ?s'))" by (simp only: s')
  qed (use u p s' in auto)
  with run show ?thesis by blast
qed

lemma clear_ops_live:
  assumes "ready b" "cx_backend X = B"
  shows "\<exists>pre. clear_value_ops X b = Inr (pre @ [clear_op X]) \<and> (\<forall>op\<in>set pre. \<exists>p. op = gc_ops p)"
proof -
  have fold: "\<exists>r. foldM_r (\<lambda>acc (k, v). gc_visit acc k (Some v)) acc xs = Inr r" for acc xs
    by (induction xs arbitrary: acc) (auto simp: gc_visit_def split: sum.split)
  obtain pre where w: "walk B b (cx_id X) Unbounded Unbounded False True gc_visit [] = Inr pre"
    using fold [of "[]" "range_records (cx_id X) (tabs b) Unbounded Unbounded False"] by (auto simp: walk_live [OF assms(1)])
  have step: "\<forall>op\<in>set a'. \<exists>p. op = gc_ops p" if "walk_item (cx_id X) gc_visit a x = Inr a'" "\<forall>op\<in>set a. \<exists>p. op = gc_ops p" for a x a'
    using that by (auto simp: walk_item_def gc_visit_def rbind_eq_Inr_iff split: prod.splits option.splits if_splits sum.splits)
  have "\<forall>op\<in>set pre. \<exists>p. op = gc_ops p"
    using w unfolding walk_def is_degenerate.simps if_False by (rule page_loop_inv [OF _ _ step]) simp
  then show ?thesis using w assms(2) by (simp add: clear_value_ops_def)
qed

lemma clear_total_ops:
  fixes s :: "('b, 'q, 'z) resident_scheme"
  assumes "prompt X n s m"
  shows "\<exists>s' ops. lazy_clear X s = (Inr (), s') \<and> gives X s n s' Map.empty \<and> clear_value_ops X (sh_store s) = Inr ops
    \<and> tabs (sh_store s') = apply_ops (tabs (sh_store s)) ops \<and> sh_values s' = sh_values s"
proof -
  note p = promptD [OF assms(1)]
  obtain pre where c: "clear_value_ops X (sh_store s) = Inr (pre @ [clear_op X])" "\<forall>op\<in>set pre. \<exists>p. op = gc_ops p"
    using clear_ops_live [OF p(1,2)] by blast
  let ?ops = "pre @ [clear_op X]"
  obtain u where u: "inner_commit X ?ops s = (Inr (), u)" "ready (sh_store u)" "tabs (sh_store u) = apply_ops (tabs (sh_store s)) ?ops"
    "sh_values u = sh_values s" "rs_lru u = rs_lru s" "in_closed u = in_closed s"
    by (rule inner_commit_total [OF p(1,2)])
  let ?s' = "announce X Ev_Cleared (apply_budget X budget_default (forget_inline (touch_index (\<lambda>_. bt_empty) u)))"
  have run: "lazy_clear X s = (Inr (), ?s')"
    using p u(1) budget_nothing [of s] c(1) by (simp add: lazy_clear_def ensure_open_def sbind_def Let_def)
  have "?s' = announce X Ev_Cleared (forget_inline (touch_index (\<lambda>_. bt_empty) u))"
    using u(5) p(11) by (subst apply_nothing) (simp_all add: forget_inline_def touch_index_def)
  then have s': "sh_store ?s' = sh_store u" "sh_values ?s' = sh_values u" "rs_lru ?s' = None" "in_closed ?s' = in_closed s"
    using u p(11) by (simp_all add: announce_def forget_inline_def touch_index_def)
  have "gives X s n ?s' Map.empty"
  proof (rule gives_effect [OF assms(1)])
    show "effect X (tabs (sh_store s)) s (tabs (sh_store ?s')) ?s' {} (\<lambda>f. Map.empty)"
      using lazy_clear_effect [OF p(2,5,12,10) run] by simp
    show "writes_within tabs X (sh_store s) (sh_store ?s')" using withinD [OF lazy_clear_within [OF p(2)] run] by simp
    have "ids_left n (sh_values u) (tabs (sh_store u))"
      by (rule direct_total [OF assms u(3,4)]) (use c(2) in \<open>auto simp: silent_def gc_ops_def clear_op_def\<close>)
    then show "ids_left n (sh_values ?s') (tabs (sh_store ?s'))" by (simp only: s')
  qed (use u p s' in auto)
  moreover have "tabs (sh_store ?s') = apply_ops (tabs (sh_store s)) ?ops" "sh_values ?s' = sh_values s" using u(3,4) s' by simp_all
  ultimately show ?thesis using run c(1) by (intro exI [of _ ?s'] exI [of _ ?ops]) simp
qed

lemma clear_total:
  fixes s :: "('b, 'q, 'z) resident_scheme"
  shows "prompt X n s m \<Longrightarrow> \<exists>s'. lazy_clear X s = (Inr (), s') \<and> gives X s n s' Map.empty"
  using clear_total_ops by blast

section \<open>Reads\<close>

lemma get_total:
  fixes s :: "('b, 'q, 'z) resident_scheme"
  assumes "prompt X n s m" and read: "\<And>p. m key = Some p \<Longrightarrow> sd_from_bytes sd p = Inr (val p)"
  shows "lazy_get_by X sd key s = (Inr (map_option val (m key)), s)"
proof -
  note p = promptD [OF assms(1)]
  have "load_value X sd (sh_store s) key = Inr (map_option val (m key))"
    using read p(14) by (simp add: load_value_live [OF p(1,2)] key_value_def shows_map_def item_value_def decode_payload_def split: option.split)
  then show ?thesis
    using p by (cases "m key") (simp_all add: lazy_get_by_def ensure_open_def sbind_def load_and_note_def note_read_def)
qed

lemma index_of_map:
  assumes "prompt X n s m"
  obtains i where "rs_index s = Some i" "bt_keys i = sorted_list_of_set (dom m)" "\<forall>k. bt_contains i k \<longleftrightarrow> m k \<noteq> None"
    "bt_len i = card (dom m)" "finite (dom m)"
proof -
  note p = promptD [OF assms(1)]
  obtain i where i: "rs_index s = Some i" "\<And>k. bt_contains i k \<longleftrightarrow> m k \<noteq> None"
    using p(12) view_of_map [OF p(9,3)] by (auto simp: lazy_ok_def index_exact_def)
  have dom: "set (bt_keys i) = dom m" using i(2) by (auto simp: bt_contains_def domIff)
  have keys: "bt_keys i = sorted_list_of_set (dom m)"
    using dom sorted_list_of_set.idem_if_sorted_distinct [of "bt_keys i"]
    by (metis bt_keys_distinct bt_keys_sorted strict_sorted_imp_sorted)
  have "bt_len i = card (dom m)" using dom by (metis bt_keys_distinct bt_len_def bt_keys_def distinct_card length_map)
  moreover have "finite (dom m)" using dom by (metis List.finite_set)
  ultimately show thesis using that i keys by blast
qed

lemma index_reads:
  assumes "prompt X n s m"
  shows "lazy_len s = card (dom m)" "lazy_contains_key_by s key \<longleftrightarrow> m key \<noteq> None"
    "lazy_keys_bytes s = sorted_list_of_set (dom m)"
proof -
  obtain i where i: "rs_index s = Some i" "bt_keys i = sorted_list_of_set (dom m)" "\<forall>k. bt_contains i k \<longleftrightarrow> m k \<noteq> None"
    "bt_len i = card (dom m)" by (rule index_of_map [OF assms])
  show "lazy_len s = card (dom m)" "lazy_contains_key_by s key \<longleftrightarrow> m key \<noteq> None" "lazy_keys_bytes s = sorted_list_of_set (dom m)"
    by (simp_all add: lazy_len_def lazy_contains_key_by_def lazy_keys_bytes_def read_index_def i)
qed

lemma collect_total:
  fixes s :: "('b, 'q, 'z) resident_scheme"
  assumes "prompt X n s m" and read: "\<And>k p. m k = Some p \<Longrightarrow> sd_from_bytes sd p = Inr (val p)"
  shows "lazy_collect X sd s st en reverse limit
    = Inr (map (\<lambda>k. (k, val (the (m k)))) (listed (\<lambda>k. map_option postcard (m k)) st en reverse limit))"
proof -
  note p = promptD [OF assms(1)]
  let ?f = "\<lambda>k. map_option postcard (m k)"
  have "keys_in ?f st en \<subseteq> dom m" by (auto simp: keys_in_def)
  moreover have "finite (dom m)" by (rule index_of_map [OF assms(1)])
  ultimately have fin: "finite (keys_in ?f st en)" by (rule finite_subset)
  have "x \<in> set (listed ?f st en reverse limit) \<Longrightarrow> m x \<noteq> None" for x
    using fin by (auto simp: listed_def keys_in_def split: if_splits dest!: in_capped)
  then have "value_at X sd ?f x = Inr (x, val (the (m x)))" if "x \<in> set (listed ?f st en reverse limit)" for x
    using that read [of x] by (fastforce simp: value_at_def item_value_def decode_payload_def)
  then have "mapM_r (value_at X sd ?f) (listed ?f st en reverse limit) = mapM_r (\<lambda>k. Inr (k, val (the (m k)))) (map id (listed ?f st en reverse limit))"
    by (intro mapM_r_cong) simp
  then show ?thesis by (simp add: lazy_collect_live [OF p(1,2)] view_of_map [OF p(9,3)])
qed

section \<open>Transactions\<close>

lemma action_total:
  fixes s :: "('b, 'q, 'z) resident_scheme"
  assumes "ready (sh_store s)" "cx_backend X = B" "prompt_ctx X" "tables_ok k0 v0 (tabs (sh_store s))"
    and m: "shows_map (cx_chain X) (cx_id X) (tabs (sh_store s)) m" and a: "action_fits a"
    and ids: "ids_left (Suc n) (sh_values s) (tabs (sh_store s))"
  shows "\<exists>ops w. action_ops X TxLazy (key, a) s = (Inr ops, s\<lparr>sh_values := w\<rparr>) \<and> ids_left n w (tabs (sh_store s))
    \<and> (w = None \<longrightarrow> sh_values s = None \<and> silent ops)"
proof (cases a)
  case Act_Delete
  obtain gc where gc: "gc_existing X (sh_store s) key Prior_Unknown = Inr gc"
    using gc_existing_live [OF assms(1,2) readable_map [OF m]] by blast
  have "action_ops X TxLazy (key, a) s = (Inr (gc @ [delete_op X key]), s\<lparr>sh_values := sh_values s\<rparr>)"
    using Act_Delete gc by (simp add: action_ops_def delete_value_ops_def)
  moreover have "silent (gc @ [delete_op X key])" using gc_silent [OF gc] by simp
  ultimately show ?thesis using ids_left_mono [OF ids, of n] by (meson le_Suc_eq le_refl)
next
  case (Act_Put payload)
  then have "length payload \<le> MAX_DECODED_BYTES" using a by simp
  from put_ops_total [OF assms(1-4) m this ids, where key = key and pr = Prior_Unknown]
  obtain ops w where "put_payload_ops X key payload FLAG_POSTCARD Prior_Unknown s = (Inr ops, s\<lparr>sh_values := w\<rparr>)"
    "\<forall>t. w \<noteq> None \<longrightarrow> ids_left n w t" "w = None \<longrightarrow> sh_values s = None \<and> silent ops" by metis
  then show ?thesis
    using Act_Put ids ids_left_mono [OF ids, of n] by (cases w) (auto simp: action_ops_def)
qed

lemma actions_total:
  fixes s :: "('b, 'q, 'z) resident_scheme"
  assumes "ready (sh_store s)" "cx_backend X = B" "prompt_ctx X" "tables_ok k0 v0 (tabs (sh_store s))"
    and "shows_map (cx_chain X) (cx_id X) (tabs (sh_store s)) m"
  shows "\<forall>(k, a)\<in>set acts. action_fits a \<Longrightarrow> ids_left (length acts + n) (sh_values s) (tabs (sh_store s)) \<Longrightarrow>
    \<exists>opss w. mapM_s (action_ops X TxLazy) acts s = (Inr opss, s\<lparr>sh_values := w\<rparr>) \<and> ids_left n w (tabs (sh_store s))
      \<and> (w = None \<longrightarrow> sh_values s = None \<and> silent (concat opss))"
  using assms
proof (induction acts arbitrary: s)
  case Nil
  have "mapM_s (action_ops X TxLazy) [] s = (Inr [], s\<lparr>sh_values := sh_values s\<rparr>)" by simp
  then show ?case using Nil.prems(2) by (metis add_0 concat.simps(1) list.size(3) silent_simps(1))
next
  case (Cons ka acts)
  obtain k a where ka: "ka = (k, a)" by (cases ka)
  obtain ops w where one: "action_ops X TxLazy (k, a) s = (Inr ops, s\<lparr>sh_values := w\<rparr>)" "ids_left (length acts + n) w (tabs (sh_store s))"
      "w = None \<longrightarrow> sh_values s = None \<and> silent ops"
    using action_total [OF Cons.prems(3-7), of a "length acts + n" k] Cons.prems(1,2) ka by auto
  obtain opss x where "mapM_s (action_ops X TxLazy) acts (s\<lparr>sh_values := w\<rparr>) = (Inr opss, s\<lparr>sh_values := w\<rparr>\<lparr>sh_values := x\<rparr>)"
      "ids_left n x (tabs (sh_store s))" "x = None \<longrightarrow> w = None \<and> silent (concat opss)"
    using Cons.IH [of "s\<lparr>sh_values := w\<rparr>"] Cons.prems one(2) by auto
  then show ?case using one ka by (intro exI [of _ "ops # opss"] exI [of _ x]) (auto simp: sbind_def)
qed

lemma length_al_insert_le: "length (al_insert k v xs) \<le> Suc (length xs)"
  by (induction xs) auto

lemma actions_of_length: "length (bt_entries (actions_of xs)) \<le> length xs"
proof (induction xs rule: rev_induct)
  case (snoc x xs)
  then show ?case by (cases x) (auto simp: actions_of_snoc intro: le_trans [OF length_al_insert_le])
qed (simp add: actions_of_def)

lemma after_last_clear_length: "after_last_clear xs = (found, rest) \<Longrightarrow> length rest \<le> length xs"
  by (induction xs arbitrary: found rest) (auto split: prod.splits bool.splits if_splits)

lemma batch_total:
  fixes s :: "('b, 'q, 'z) resident_scheme"
  assumes "prompt X (length es + n) s m" "\<forall>e\<in>set es. pending_fits e"
  obtains u ops where "commit_batch X TxLazy [] es s = (Inr budget_default, u)" "ready (sh_store u)"
    "tabs (sh_store u) = apply_ops (tabs (sh_store s)) ops"
    "rs_lru u = None" "in_closed u = in_closed s" "ids_left n (sh_values u) (tabs (sh_store u))"
proof -
  note p = promptD [OF assms(1)]
  obtain found rest where split: "after_last_clear (map item_of_pending es) = (found, rest)" by fastforce
  let ?acts = "bt_entries (actions_of rest)" and ?t = "tabs (sh_store s)"
  have "length rest \<le> length es" using after_last_clear_length [OF split] by simp
  then have "length ?acts \<le> length es" using actions_of_length [of rest] by simp
  then have left: "ids_left (length ?acts + n) (sh_values s) ?t" by (intro ids_left_mono [OF p(16)]) simp
  have fits: "\<forall>(k, a)\<in>set ?acts. action_fits a"
    using actions_fit [OF assms(2)] split by (auto simp: bt_mem_entries_iff)
  obtain opss w where acts: "mapM_s (action_ops X TxLazy) ?acts s = (Inr opss, s\<lparr>sh_values := w\<rparr>)" "ids_left n w ?t"
    "w = None \<longrightarrow> silent (concat opss)"
    using actions_total [OF p(1-3,8,14) fits left] by blast
  obtain pre where pre: "(if found then clear_value_ops X (sh_store s) else Inr []) = Inr pre" "silent pre"
  proof (cases found)
    case True
    then show thesis using clear_ops_live [OF p(1,2)] that by (fastforce simp: silent_def gc_ops_def clear_op_def)
  qed (use that in simp)
  let ?ops = "pre @ concat opss" and ?s = "s\<lparr>sh_values := w\<rparr>"
  have ops: "ops_for_pending X es TxLazy s = (Inr ?ops, ?s)"
    by (simp add: ops_for_pending_def ops_for_items_def split pre(1) sbind_def acts(1))
  obtain us rs cl where acc: "accounting es = (us, rs, cl)" by (metis surj_pair)
  obtain u where u: "inner_commit X ?ops ?s = (Inr (), u)" "ready (sh_store u)" "tabs (sh_store u) = apply_ops (tabs (sh_store ?s)) ?ops"
    "sh_values u = sh_values ?s" "rs_lru u = rs_lru ?s" "in_closed u = in_closed ?s"
    by (rule inner_commit_total [of ?s X ?ops]) (use p in simp_all)
  have "ids_left n (sh_values u) (tabs (sh_store u))"
    using acts(2,3) pre(2) u by (cases w) (auto simp: ids_left_def silent_counter)
  moreover have "commit_batch X TxLazy [] es s = (Inr budget_default, u)"
    using ops acc u(1) p(11) by (simp add: commit_batch_def or_restage_def sbind_def budget_nothing)
  moreover have "rs_lru u = None" "in_closed u = in_closed s" "tabs (sh_store u) = apply_ops (tabs (sh_store s)) ?ops"
    using u p(11) by simp_all
  ultimately show thesis using u(2) by (intro that)
qed

lemma closed_announce: "in_closed (fold (\<lambda>e. announce X (f e)) es s) = in_closed s"
  by (induction es arbitrary: s) (simp_all add: announce_def)

definition overlay_map :: "'t staged list \<Rightarrow> contents \<Rightarrow> contents" where
  "overlay_map es m k = (case tx_staged_view es k of Some w \<Rightarrow> w | None \<Rightarrow> m k)"

lemma transact_total:
  fixes s :: "('b, 'q, 'z) resident_scheme"
  assumes "prompt X (length es + n) s m" "f (sh_store s) [] = (Inr (), es)" "\<forall>e\<in>set es. pending_fits (pending_of_staged e)"
  shows "\<exists>s'. lazy_transact X f s = (Inr (), s') \<and> gives X s n s' (overlay_map es m)"
proof (cases "es = []")
  case True
  note p = promptD [OF assms(1)]
  have "lazy_transact X f s = (Inr (), s)" using p assms(2) True by (simp add: lazy_transact_def ensure_open_def sbind_def)
  moreover have "overlay_map es m = m" using True by (simp add: overlay_map_def tx_view_snoc fun_eq_iff)
  moreover have "gives X s n s m" using assms(1) True p by (simp add: gives_def)
  ultimately show ?thesis by metis
next
  case False
  note p = promptD [OF assms(1)]
  let ?batch = "map pending_of_staged es"
  have pr: "prompt X (length ?batch + n) s m" "\<forall>e\<in>set ?batch. pending_fits e" using assms(1,3) by simp_all
  obtain u ops where u: "commit_batch X TxLazy [] ?batch s = (Inr budget_default, u)" "ready (sh_store u)"
    "tabs (sh_store u) = apply_ops (tabs (sh_store s)) ops"
    "rs_lru u = None" "in_closed u = in_closed s" "ids_left n (sh_values u) (tabs (sh_store u))"
    by (rule batch_total [OF pr])
  let ?s' = "fold (\<lambda>e. announce X (event_of_staged e)) es (apply_budget X budget_default (forget_inline (touch_index (fold index_staged es) u)))"
  have none: "s\<lparr>rs_staged := []\<rparr> = s" using restage_nothing [of s] p(13) by simp
  have c: "commit_batch X TxLazy [] ?batch (s\<lparr>rs_staged := []\<rparr>) = (Inr budget_default, u)" by (subst none) (rule u(1))
  have run: "lazy_transact X f s = (Inr (), ?s')"
    using p assms(2) False c by (simp add: lazy_transact_def ensure_open_def sbind_def take_staged_def merge_batches_def)
  have "apply_budget X budget_default (forget_inline (touch_index (fold index_staged es) u)) = forget_inline (touch_index (fold index_staged es) u)"
    using u(4) by (intro apply_nothing) (simp add: forget_inline_def touch_index_def)
  then have s': "sh_store ?s' = sh_store u" "sh_values ?s' = sh_values u" "rs_lru ?s' = None" "in_closed ?s' = in_closed s"
    using u by (simp_all add: fold_announce closed_announce forget_inline_def touch_index_def)
  have "gives X s n ?s' (overlay_map es m)"
  proof (rule gives_effect [OF assms(1)])
    show "effect X (tabs (sh_store s)) s (tabs (sh_store ?s')) ?s' {k. \<exists>p. tx_staged_view es k = Some (Some p)} (write_over (tx_staged_view es))"
      using transact_effect [OF p(2,5,12,10) assms(2,3) run] by simp
    show "writes_within tabs X (sh_store s) (sh_store ?s')" using withinD [OF lazy_transact_within [OF p(2)] run] by simp
    show "ids_left n (sh_values ?s') (tabs (sh_store ?s'))" using u(6) by (simp only: s')
    show "write_over (tx_staged_view es) (\<lambda>k. map_option postcard (m k)) = (\<lambda>k. map_option postcard (overlay_map es m k))"
      by (auto simp: write_over_def overlay_map_def fun_eq_iff split: option.split)
  qed (use u p s' in auto)
  with run show ?thesis by blast
qed

section \<open>Opening and closing\<close>

lemma open_total:
  fixes sh :: "'b shared"
  assumes "ready (sh_store sh)" "cx_backend X = B" "prompt_ctx X" "tables_ok n (sh_values sh) (tabs (sh_store sh))"
    and m: "shows_map (cx_chain X) (cx_id X) (tabs (sh_store sh)) m"
  shows "\<exists>s :: ('b, 'q) resident. lazy_open X sh = (Inr s, sh) \<and> prompt X n s m"
proof -
  have "\<exists>index. walk B (sh_store sh) (cx_id X) Unbounded Unbounded False False index_visit bt_empty = Inr index"
    by (simp add: walk_live [OF assms(1)] index_fold)
  then obtain index where w: "walk B (sh_store sh) (cx_id X) Unbounded Unbounded False False index_visit bt_empty = Inr index" by blast
  have lru: "open_lru X index sh = (Inr None, sh)"
    using assms(3) by (simp add: open_lru_def prompt_ctx_def prompt_config_def)
  let ?s = "resident_new TxLazy (Some index) None (inner_new sh) :: ('b, 'q) resident"
  have run: "lazy_open X sh = (Inr ?s, sh)" using w lru assms(2) by (simp add: lazy_open_def)
  have vok: "vals_ok (sh_values sh) (tabs (sh_store sh))" using assms(4) by (simp add: tables_ok_def)
  have fields: "sh_store ?s = sh_store sh" "sh_values ?s = sh_values sh" "\<not> in_closed ?s" "rs_lru ?s = None"
    by (simp_all add: resident_new_def resident.defs inner_new_def inner_state.defs shared.defs)
  have "lazy_ok X (tabs (sh_store sh)) ?s" using lazy_open_ok [OF run assms(2) vok] by blast
  then have "prompt X n ?s m" using assms fields by (simp add: prompt_def locker_is_def)
  with run show ?thesis by blast
qed

lemma close_total:
  fixes s :: "('b, 'q, 'z) resident_scheme"
  assumes "prompt X n s m"
  shows "\<exists>s'. lazy_close X s = (Inr (), s') \<and> in_closed s' \<and> sh_store s' = sh_store s \<and> sh_values s' = sh_values s
    \<and> sh_ticks s' = sh_ticks s \<and> sh_coherence s' = sh_coherence s"
  using promptD [OF assms]
  by (simp add: lazy_close_def resident_flush_def pending_len_def flush_backend_def prompt_ctx_def prompt_config_def Let_def
      discard_staged_def mark_closed_def forget_inline_def touch_index_def result_and_def split: prod.split)

end

end
