(* ===== verification/Sessions.thy ===== *)
theory Sessions
  imports Lazy_Total Bank_Properties
begin

text \<open>
  What a client sees of a bank over a live backend. A session is a bank with the handles its client holds,
  by name; a request is one call of the client. \<open>perform\<close> runs a request on the model of the bank,
  \<open>expected\<close> on shelves: a map from names to maps from keys to values. The theorems of \<open>Session_Runs\<close> say
  that the two give the same answers. The requests are those on lazy lockers that commit at once and have
  no byte budget, under the chain of the bank.
\<close>

section \<open>Requests\<close>

text \<open>The statements of a transaction; \<open>Stmt_Expect\<close> is an \<open>assert_eq!\<close> on a \<open>get\<close>, \<open>Stmt_Fail\<close> a final \<open>Err\<close>.\<close>

datatype 'v tx_stmt =
    Stmt_Put bytes 'v | Stmt_Delete bytes | Stmt_Clear | Stmt_Expect bytes "'v option" | Stmt_Fail error

datatype 'v request =
    R_Open string string locker_config
  | R_Put string bytes 'v | R_Delete string bytes | R_Clear string
  | R_Put_All string "(bytes \<times> 'v) list" | R_Delete_All string "bytes list" | R_Transact string "'v tx_stmt list"
  | R_Get string bytes | R_Get_Or string bytes 'v | R_Contains string bytes | R_Len string | R_Keys_Bytes string | R_Keys string | R_Keys_With_Prefix string bytes
  | R_Has_Non_Utf8 string
  | R_Range string "bytes bound" "bytes bound" | R_Range_Rev string "bytes bound" "bytes bound"
  | R_Range_By string "bytes bound" "bytes bound" | R_Range_Rev_By string "bytes bound" "bytes bound"
  | R_Latest string nat | R_To_Map string
  | R_Close string | R_Drop string
  | R_Exists string | R_Is_Open string | R_Open_Names | R_Locker_Names | R_Delete_Locker string | R_Reopen

datatype 'v answer =
    A_Done | A_Value "'v option" | A_Flag bool | A_Count nat | A_Keys "bytes list" | A_Entries "(bytes \<times> 'v) list"
  | A_Names "string list"
  | A_Failed error

definition no_handle :: error where
  "no_handle = Panicked ''the client has no handle of this name''"

section \<open>A session on the model\<close>

type_synonym ('b, 'q, 'v) session = "('b, 'q, 'v) bank \<times> (string, nat) btree"

definition reply :: "('a \<Rightarrow> 'v answer) \<Rightarrow> 'a result \<Rightarrow> 'v answer" where
  "reply f r = (case r of Inl e \<Rightarrow> A_Failed e | Inr x \<Rightarrow> f x)"

definition on_locker :: "string \<Rightarrow> ('a \<Rightarrow> 'v answer) \<Rightarrow> (('b, 'q) ctx \<Rightarrow> (('b, 'q, 'v) eager, error, 'a) act)
    \<Rightarrow> ('b, 'q, 'v) session \<Rightarrow> 'v answer \<times> ('b, 'q, 'v) session" where
  "on_locker name f m = (\<lambda>(s, hs).
     case bt_lookup hs name of
       None \<Rightarrow> (A_Failed no_handle, (s, hs))
     | Some a \<Rightarrow> (case in_cell a m s of (r, s') \<Rightarrow> (reply f r, (s', hs))))"

fun tx_step :: "('b, 'q) ctx \<Rightarrow> 'v serde \<Rightarrow> 'b \<Rightarrow> 'v tx_stmt \<Rightarrow> ('v staged list, error, unit) act" where
  "tx_step X sd b (Stmt_Put k v) = tx_put sd k v"
| "tx_step X sd b (Stmt_Delete k) = tx_delete k"
| "tx_step X sd b Stmt_Clear = tx_clear"
| "tx_step X sd b (Stmt_Expect k want) =
     (\<lambda>es. (rbind (tx_get X sd b es k) (\<lambda>v. if v = want then Inr () else Inl (Panicked ''assertion failed'')), es))"
| "tx_step X sd b (Stmt_Fail e) = slift (Inl e)"

definition tx_program :: "('b, 'q) ctx \<Rightarrow> 'v serde \<Rightarrow> 'v tx_stmt list \<Rightarrow> ('b, 'v) closure" where
  "tx_program X sd stmts b = sbind (mapM_s (tx_step X sd b) stmts) (\<lambda>_. sret ())"

text \<open>A handle closed or dropped is given up; reopening drops every handle and the bank.\<close>

fun perform :: "('b, 'q) env \<Rightarrow> 'v serde \<Rightarrow> ('b \<Rightarrow> 'b result) \<Rightarrow> 'v request \<Rightarrow> ('b, 'q, 'v) session
    \<Rightarrow> 'v answer \<times> ('b, 'q, 'v) session" where
  "perform V sd again (R_Open name ty cfg) = (\<lambda>(s, hs).
     case lazy_locker_with V (sd\<lparr>sd_type_name := ty\<rparr>) name cfg s of
       (Inl e, s) \<Rightarrow> (A_Failed e, (s, hs))
     | (Inr a, s) \<Rightarrow> (A_Done, (s, bt_insert name a hs)))"
| "perform V sd again (R_Put name k v) = on_locker name (\<lambda>_. A_Done) (\<lambda>X. lazy_put_by X sd k v)"
| "perform V sd again (R_Delete name k) = on_locker name (\<lambda>_. A_Done) (\<lambda>X. lazy_delete_by X k)"
| "perform V sd again (R_Clear name) = on_locker name (\<lambda>_. A_Done) (\<lambda>X. lazy_clear X)"
| "perform V sd again (R_Put_All name es) = on_locker name (\<lambda>_. A_Done) (\<lambda>X. lazy_put_all X sd es)"
| "perform V sd again (R_Delete_All name ks) = on_locker name (\<lambda>_. A_Done) (\<lambda>X. lazy_delete_all X ks)"
| "perform V sd again (R_Transact name stmts) = on_locker name (\<lambda>_. A_Done) (\<lambda>X. lazy_transact X (tx_program X sd stmts))"
| "perform V sd again (R_Get name k) = on_locker name A_Value (\<lambda>X. lazy_get_by X sd k)"
| "perform V sd again (R_Get_Or name k x) = on_locker name (A_Value \<circ> Some) (\<lambda>X. lazy_get_or_by X sd k x)"
| "perform V sd again (R_Contains name k) = on_locker name A_Flag (\<lambda>X. sread (\<lambda>s. Inr (lazy_contains_key_by s k)))"
| "perform V sd again (R_Len name) = on_locker name A_Count (\<lambda>X. sread (\<lambda>s. Inr (lazy_len s)))"
| "perform V sd again (R_Keys_Bytes name) = on_locker name A_Keys (\<lambda>X. sread (\<lambda>s. Inr (lazy_keys_bytes s)))"
| "perform V sd again (R_Keys name) = on_locker name A_Keys (\<lambda>X. sread (\<lambda>s. Inr (lazy_keys s)))"
| "perform V sd again (R_Keys_With_Prefix name p) = on_locker name A_Keys (\<lambda>X. sread (\<lambda>s. Inr (lazy_keys_with_prefix s p)))"
| "perform V sd again (R_Has_Non_Utf8 name) = on_locker name A_Flag (\<lambda>X. sread (\<lambda>s. Inr (lazy_has_non_utf8_keys s)))"
| "perform V sd again (R_Range name st en) = on_locker name A_Entries (\<lambda>X. sread (\<lambda>s. lazy_range X sd s st en))"
| "perform V sd again (R_Range_Rev name st en) = on_locker name A_Entries (\<lambda>X. sread (\<lambda>s. lazy_range_rev X sd s st en))"
| "perform V sd again (R_Range_By name st en) = on_locker name A_Entries (\<lambda>X. sread (\<lambda>s. lazy_range_by X sd s st en))"
| "perform V sd again (R_Range_Rev_By name st en) = on_locker name A_Entries (\<lambda>X. sread (\<lambda>s. lazy_range_rev_by X sd s st en))"
| "perform V sd again (R_Latest name n) = on_locker name A_Entries (\<lambda>X. sread (\<lambda>s. lazy_latest X sd s n))"
| "perform V sd again (R_To_Map name) = on_locker name (A_Entries \<circ> bt_entries) (\<lambda>X. sread (\<lambda>s. lazy_to_map X sd s))"
| "perform V sd again (R_Close name) = (\<lambda>(s, hs).
     case on_locker name (\<lambda>_. A_Done) (\<lambda>X. lazy_close X) (s, hs) of (r, (s, hs)) \<Rightarrow> (r, (s, bt_remove name hs)))"
| "perform V sd again (R_Drop name) = (\<lambda>(s, hs).
     case bt_lookup hs name of
       None \<Rightarrow> (A_Failed no_handle, (s, hs))
     | Some a \<Rightarrow>
         let s = drop_handle a s
         in (A_Done, (s, if upgrade s a = None then bt_remove name hs else hs)))"
| "perform V sd again (R_Exists name) = (\<lambda>(s, hs). (reply A_Flag (locker_exists V s name), (s, hs)))"
| "perform V sd again (R_Is_Open name) = (\<lambda>(s, hs). case is_locker_open name s of (c, s) \<Rightarrow> (A_Flag c, (s, hs)))"
| "perform V sd again R_Open_Names = (\<lambda>(s, hs). case open_locker_names s of (ns, s) \<Rightarrow> (A_Names ns, (s, hs)))"
| "perform V sd again R_Locker_Names = (\<lambda>(s, hs). (reply A_Names (locker_names V s), (s, hs)))"
| "perform V sd again (R_Delete_Locker name) = (\<lambda>(s, hs). case delete_locker V name s of (r, s) \<Rightarrow> (reply A_Flag r, (s, hs)))"
| "perform V sd again R_Reopen = (\<lambda>(s, hs).
     case rbind (again (sh_store s)) (\<lambda>b. with_backend_and_chain V b (bn_chain s)) of
       Inl e \<Rightarrow> (A_Failed e, (s, hs))
     | Inr s' \<Rightarrow> (A_Done, (s', bt_empty)))"

section \<open>A session on shelves\<close>

type_synonym 'v shelf = "(bytes, 'v) btree"

record 'v shelves =
  sv_lockers :: "(string, string \<times> 'v shelf) btree"
  sv_open :: "(string, locker_config \<times> nat) btree"

definition on_shelf :: "string \<Rightarrow> ('v shelf \<Rightarrow> 'v answer \<times> 'v shelf) \<Rightarrow> 'v shelves \<Rightarrow> 'v answer \<times> 'v shelves" where
  "on_shelf name f v =
     (case (bt_lookup (sv_open v) name, bt_lookup (sv_lockers v) name) of
        (Some _, Some (ty, m)) \<Rightarrow> (case f m of (r, m') \<Rightarrow> (r, v\<lparr>sv_lockers := bt_insert name (ty, m') (sv_lockers v)\<rparr>))
      | _ \<Rightarrow> (A_Failed no_handle, v))"

abbreviation says :: "('v shelf \<Rightarrow> 'v answer) \<Rightarrow> 'v shelf \<Rightarrow> 'v answer \<times> 'v shelf" where
  "says f \<equiv> (\<lambda>m. (f m, m))"

abbreviation becoming :: "('v shelf \<Rightarrow> 'v shelf) \<Rightarrow> 'v shelf \<Rightarrow> 'v answer \<times> 'v shelf" where
  "becoming f \<equiv> (\<lambda>m. (A_Done, f m))"

fun tx_on_shelf :: "'v tx_stmt list \<Rightarrow> 'v shelf \<Rightarrow> 'v shelf result" where
  "tx_on_shelf [] m = Inr m"
| "tx_on_shelf (Stmt_Put k v # stmts) m = tx_on_shelf stmts (bt_insert k v m)"
| "tx_on_shelf (Stmt_Delete k # stmts) m = tx_on_shelf stmts (bt_remove k m)"
| "tx_on_shelf (Stmt_Clear # stmts) m = tx_on_shelf stmts bt_empty"
| "tx_on_shelf (Stmt_Expect k want # stmts) m =
     (if bt_lookup m k = want then tx_on_shelf stmts m else Inl (Panicked ''assertion failed''))"
| "tx_on_shelf (Stmt_Fail e # stmts) m = Inl e"

definition shelf_range :: "'v shelf \<Rightarrow> bytes bound \<Rightarrow> bytes bound \<Rightarrow> (bytes \<times> 'v) list" where
  "shelf_range m st en = filter (\<lambda>(k, _). in_user_bounds st en k) (bt_entries m)"

fun expected :: "bool \<Rightarrow> 'v request \<Rightarrow> 'v shelves \<Rightarrow> 'v answer \<times> 'v shelves" where
  "expected persists (R_Open name ty cfg) = (\<lambda>v.
     case bt_lookup (sv_lockers v) name of
       None \<Rightarrow> (A_Done, v\<lparr>sv_lockers := bt_insert name (ty, bt_empty) (sv_lockers v), sv_open := bt_insert name (cfg, 1) (sv_open v)\<rparr>)
     | Some (ty0, m) \<Rightarrow>
         (case bt_lookup (sv_open v) name of
            None \<Rightarrow>
              if ty0 = ty then (A_Done, v\<lparr>sv_open := bt_insert name (cfg, 1) (sv_open v)\<rparr>)
              else (A_Failed (SchemaMismatch ty0 ty), v)
          | Some (cfg0, h) \<Rightarrow>
              (case check_shared name \<lparr>ol_cell = 0, ol_has_values = False, ol_kind = TxLazy, ol_type_tag = ty0, ol_config = cfg0\<rparr>
                      TxLazy ty cfg of
                 Inl e \<Rightarrow> (A_Failed e, v)
               | Inr _ \<Rightarrow> (A_Done, v\<lparr>sv_open := bt_insert name (cfg0, Suc h) (sv_open v)\<rparr>))))"
| "expected persists (R_Put name k v) = on_shelf name (becoming (bt_insert k v))"
| "expected persists (R_Delete name k) = on_shelf name (becoming (bt_remove k))"
| "expected persists (R_Clear name) = on_shelf name (becoming (\<lambda>_. bt_empty))"
| "expected persists (R_Put_All name es) = on_shelf name (becoming (fold (\<lambda>(k, v). bt_insert k v) es))"
| "expected persists (R_Delete_All name ks) = on_shelf name (becoming (fold bt_remove ks))"
| "expected persists (R_Transact name stmts) =
     on_shelf name (\<lambda>m. case tx_on_shelf stmts m of Inl e \<Rightarrow> (A_Failed e, m) | Inr m' \<Rightarrow> (A_Done, m'))"
| "expected persists (R_Get name k) = on_shelf name (says (\<lambda>m. A_Value (bt_lookup m k)))"
| "expected persists (R_Get_Or name k x) = on_shelf name (says (\<lambda>m. A_Value (Some (case bt_lookup m k of Some y \<Rightarrow> y | None \<Rightarrow> x))))"
| "expected persists (R_Contains name k) = on_shelf name (says (\<lambda>m. A_Flag (bt_contains m k)))"
| "expected persists (R_Len name) = on_shelf name (says (\<lambda>m. A_Count (bt_len m)))"
| "expected persists (R_Keys_Bytes name) = on_shelf name (says (\<lambda>m. A_Keys (bt_keys m)))"
| "expected persists (R_Keys name) = on_shelf name (says (\<lambda>m. A_Keys (filter utf8_valid (bt_keys m))))"
| "expected persists (R_Keys_With_Prefix name p) =
     on_shelf name (says (\<lambda>m. A_Keys (filter (\<lambda>k. prefix p k \<and> utf8_valid k) (bt_keys m))))"
| "expected persists (R_Has_Non_Utf8 name) = on_shelf name (says (\<lambda>m. A_Flag (\<not> list_all utf8_valid (bt_keys m))))"
| "expected persists (R_Range name st en) =
     on_shelf name (says (\<lambda>m. A_Entries (filter (utf8_valid \<circ> fst) (shelf_range m st en))))"
| "expected persists (R_Range_Rev name st en) =
     on_shelf name (says (\<lambda>m. A_Entries (filter (utf8_valid \<circ> fst) (rev (shelf_range m st en)))))"
| "expected persists (R_Range_By name st en) = on_shelf name (says (\<lambda>m. A_Entries (shelf_range m st en)))"
| "expected persists (R_Range_Rev_By name st en) = on_shelf name (says (\<lambda>m. A_Entries (rev (shelf_range m st en))))"
| "expected persists (R_Latest name n) =
     on_shelf name (says (\<lambda>m. A_Entries (filter (utf8_valid \<circ> fst) (take n (rev (bt_entries m))))))"
| "expected persists (R_To_Map name) = on_shelf name (says (\<lambda>m. A_Entries (filter (utf8_valid \<circ> fst) (bt_entries m))))"
| "expected persists (R_Close name) = (\<lambda>v.
     if bt_contains (sv_open v) name then (A_Done, v\<lparr>sv_open := bt_remove name (sv_open v)\<rparr>) else (A_Failed no_handle, v))"
| "expected persists (R_Drop name) = (\<lambda>v.
     case bt_lookup (sv_open v) name of
       None \<Rightarrow> (A_Failed no_handle, v)
     | Some (cfg, h) \<Rightarrow>
         (A_Done, v\<lparr>sv_open := (if h \<le> 1 then bt_remove name (sv_open v) else bt_insert name (cfg, h - 1) (sv_open v))\<rparr>))"
| "expected persists (R_Exists name) = (\<lambda>v. (A_Flag (bt_contains (sv_lockers v) name), v))"
| "expected persists (R_Is_Open name) = (\<lambda>v. (A_Flag (bt_contains (sv_open v) name), v))"
| "expected persists R_Open_Names = (\<lambda>v. (A_Names (bt_keys (sv_open v)), v))"
| "expected persists R_Locker_Names = (\<lambda>v. (A_Names (bt_keys (sv_lockers v)), v))"
| "expected persists (R_Delete_Locker name) = (\<lambda>v.
     if bt_contains (sv_open v) name then
       (A_Failed (InvalidConfig (''locker '' @ show_debug name @ '' is still open; close it before deleting it'')), v)
     else (A_Flag (bt_contains (sv_lockers v) name), v\<lparr>sv_lockers := bt_remove name (sv_lockers v)\<rparr>))"
| "expected persists R_Reopen = (\<lambda>v.
     (A_Done, \<lparr>sv_lockers = (if persists then sv_lockers v else bt_empty), sv_open = bt_empty\<rparr>))"

end
