(* ===== verification/Session_State.thy ===== *)
theory Session_State
  imports Sessions
begin

text \<open>
  The relation between a session on the model and one on shelves, and the rule that lifts a call of one
  locker to the bank: the locker's shelf changes as the call says, and everything else stays in place.
\<close>

section \<open>Values and payloads\<close>

text \<open>A value that the serialiser takes, gives back, and that is not over the limit of the codec.\<close>

definition fits :: "'v serde \<Rightarrow> 'v \<Rightarrow> bool" where
  "fits sd v \<longleftrightarrow> (\<exists>p. sd_to_vec sd v = Inr p \<and> sd_from_bytes sd p = Inr v \<and> length p \<le> MAX_DECODED_BYTES)"

definition payload_of :: "'v serde \<Rightarrow> 'v \<Rightarrow> bytes" where
  "payload_of sd v = projr (sd_to_vec sd v)"

definition payloads :: "'v serde \<Rightarrow> 'v shelf \<Rightarrow> contents" where
  "payloads sd m k = map_option (payload_of sd) (bt_lookup m k)"

definition all_fit :: "'v serde \<Rightarrow> 'v shelf \<Rightarrow> bool" where
  "all_fit sd m \<longleftrightarrow> (\<forall>k v. bt_lookup m k = Some v \<longrightarrow> fits sd v)"

lemma fitsD:
  assumes "fits sd v"
  shows "sd_to_vec sd v = Inr (payload_of sd v)" "sd_from_bytes sd (payload_of sd v) = Inr v"
    "length (payload_of sd v) \<le> MAX_DECODED_BYTES"
  using assms by (auto simp: fits_def payload_of_def)

lemma payloads_simps [simp]:
  "payloads sd (bt_insert k v m) = (payloads sd m)(k \<mapsto> payload_of sd v)"
  "payloads sd (bt_remove k m) = (payloads sd m)(k := None)"
  "payloads sd bt_empty = Map.empty"
  by (auto simp: payloads_def fun_eq_iff)

lemma all_fit_simps [simp]:
  "all_fit sd bt_empty" "all_fit sd m \<Longrightarrow> fits sd v \<Longrightarrow> all_fit sd (bt_insert k v m)"
  "all_fit sd m \<Longrightarrow> all_fit sd (bt_remove k m)"
  by (auto simp: all_fit_def split: if_splits)

lemma dom_payloads [simp]: "dom (payloads sd m) = set (bt_keys m)"
  by (auto simp: payloads_def)

section \<open>Stored shelves\<close>

definition stores :: "'v serde \<Rightarrow> filter_chain \<Rightarrow> tables \<Rightarrow> (string, string \<times> 'v shelf) btree \<Rightarrow> bool" where
  "stores sd ch t A \<longleftrightarrow> registry_ok t
     \<and> (\<forall>name. bt_lookup A name = None \<longleftrightarrow> registry t name = None)
     \<and> (\<forall>name i ty m. registry t name = Some i \<longrightarrow> bt_lookup A name = Some (ty, m) \<longrightarrow>
          all_fit sd m \<and> shows_map ch i t (payloads sd m) \<and> utf8_valid (as_bytes ty)
          \<and> bt_lookup (tb_meta t) (schema_key i) = Some (as_bytes ty)
          \<and> bt_lookup (tb_meta t) (chain_key i) = Some [ch_id ch])
     \<and> (\<forall>i. next_locker t \<le> i \<longrightarrow>
          bt_lookup (tb_meta t) (schema_key i) = None \<and> bt_lookup (tb_meta t) (chain_key i) = None)"

text \<open>The state of a cell as a call on it finds it.\<close>

definition synced :: "('b, 'q, 'v) bank \<Rightarrow> ('b, 'q, 'v) eager \<Rightarrow> ('b, 'q, 'v) eager" where
  "synced s st = st\<lparr>sh_store := sh_store s, sh_values := sh_values s, sh_ticks := sh_ticks s, sh_coherence := sh_coherence s\<rparr>"

definition handle_ok :: "('b, 'q) env \<Rightarrow> 'v serde \<Rightarrow> tables \<Rightarrow> ('b, 'q, 'v) bank \<Rightarrow> (string, string \<times> 'v shelf) btree
    \<Rightarrow> string \<Rightarrow> locker_config \<Rightarrow> nat \<Rightarrow> nat \<Rightarrow> bool" where
  "handle_ok V sd t s A name cfg h a \<longleftrightarrow> prompt_config cfg \<and> lc_chain cfg = None \<and> 0 < h
     \<and> (\<exists>c i ty m. bt_lookup (bn_cells s) a = Some c \<and> ce_handles c = h
          \<and> registry t name = Some i \<and> bt_lookup A name = Some (ty, m)
          \<and> ce_ctx c = locker_ctx V (bn_chain s) i name cfg
          \<and> locker_is (ce_ctx c) t (synced s (ce_state c)) (payloads sd m)
          \<and> bt_lookup (bn_open s) name =
              Some \<lparr>ol_cell = a, ol_has_values = False, ol_kind = TxLazy, ol_type_tag = ty, ol_config = cfg\<rparr>)"

definition cells_ok :: "('b, 'q) env \<Rightarrow> 'v serde \<Rightarrow> tables \<Rightarrow> ('b, 'q, 'v) bank \<Rightarrow> (string, nat) btree \<Rightarrow> 'v shelves \<Rightarrow> bool" where
  "cells_ok V sd t s hs v \<longleftrightarrow>
     (\<forall>name. case bt_lookup (sv_open v) name of
        Some (cfg, h) \<Rightarrow> (\<exists>a. bt_lookup hs name = Some a \<and> handle_ok V sd t s (sv_lockers v) name cfg h a)
      | None \<Rightarrow> bt_lookup hs name = None \<and> (\<forall>ol. bt_lookup (bn_open s) name = Some ol \<longrightarrow> \<not> is_live s ol))"

definition versioned :: "tables \<Rightarrow> bool" where
  "versioned t \<longleftrightarrow> bt_lookup (tb_meta t) META_FORMAT_VERSION = Some (be32 FORMAT_VERSION)"

definition bank_rel :: "('b \<Rightarrow> tables) \<Rightarrow> ('b \<Rightarrow> bool) \<Rightarrow> 'v serde \<Rightarrow> nat \<Rightarrow> ('b, 'q, 'v) bank
    \<Rightarrow> (string, string \<times> 'v shelf) btree \<Rightarrow> bool" where
  "bank_rel tabs ready sd n s A \<longleftrightarrow> ready (sh_store s) \<and> \<not> bn_closed s \<and> sealing (bn_chain s) \<and> bank_ok tabs s
     \<and> tables_ok n (sh_values s) (tabs (sh_store s)) \<and> unat (next_locker (tabs (sh_store s))) + n < 2 ^ 32
     \<and> versioned (tabs (sh_store s)) \<and> stores sd (bn_chain s) (tabs (sh_store s)) A"

definition agrees :: "('b \<Rightarrow> tables) \<Rightarrow> ('b \<Rightarrow> bool) \<Rightarrow> ('b, 'q) env \<Rightarrow> 'v serde \<Rightarrow> nat \<Rightarrow> ('b, 'q, 'v) session
    \<Rightarrow> 'v shelves \<Rightarrow> bool" where
  "agrees tabs ready V sd n ss v \<longleftrightarrow> (case ss of (s, hs) \<Rightarrow>
     bank_rel tabs ready sd n s (sv_lockers v) \<and> cells_ok V sd (tabs (sh_store s)) s hs v)"

lemma cells_okD:
  assumes "cells_ok V sd t s hs v"
  shows "bt_lookup (sv_open v) name = Some (cfg, h) \<Longrightarrow> \<exists>a. bt_lookup hs name = Some a \<and> handle_ok V sd t s (sv_lockers v) name cfg h a"
    and "bt_lookup (sv_open v) name = None \<Longrightarrow> bt_lookup hs name = None"
    and "bt_lookup (sv_open v) name = None \<Longrightarrow> bt_lookup (bn_open s) name = Some ol \<Longrightarrow> \<not> is_live s ol"
  using assms unfolding cells_ok_def by (auto dest: spec [of _ name])

lemma handle_live:
  assumes "handle_ok V sd t s A name cfg h a" "bt_lookup (bn_open s) name = Some ol"
  shows "is_live s ol" "ol_cell ol = a"
  using assms by (auto simp: handle_ok_def is_live_def upgrade_def locker_is_def synced_def)

section \<open>What a call of one locker leaves in place\<close>

lemma meta_undisturbed:
  assumes "undisturbed i t t'"
  shows "bt_lookup (tb_meta t') (schema_key l) = bt_lookup (tb_meta t) (schema_key l)"
    "bt_lookup (tb_meta t') (chain_key l) = bt_lookup (tb_meta t) (chain_key l)"
    "versioned t' = versioned t"
proof -
  have "\<not> prefix (locker_prefix i) (schema_key l)" "\<not> prefix (locker_prefix i) (chain_key l)"
    "\<not> prefix (locker_prefix i) META_FORMAT_VERSION"
    "schema_key l \<noteq> META_NEXT_TICK" "chain_key l \<noteq> META_NEXT_TICK" "META_FORMAT_VERSION \<noteq> META_NEXT_TICK"
    by (simp_all add: locker_prefix_def LRU_PREFIX_def schema_key_def META_SCHEMA_PREFIX_def chain_key_def META_CHAIN_PREFIX_def
        META_NEXT_TICK_def META_FORMAT_VERSION_def as_bytes_def)
  then show "bt_lookup (tb_meta t') (schema_key l) = bt_lookup (tb_meta t) (schema_key l)"
    "bt_lookup (tb_meta t') (chain_key l) = bt_lookup (tb_meta t) (chain_key l)" "versioned t' = versioned t"
    using assms counter_keys_apart [symmetric] by (simp_all add: undisturbed_def versioned_def)
qed

text \<open>A locker none of whose records has changed is the map it was.\<close>

lemma other_locker_is:
  assumes "locker_is X t st m" "prompt_ctx X" "vals_ok (sh_values st') t'"
    and "\<And>k. bt_lookup (tb_records t') (encode_bytes (cx_id X) k) = bt_lookup (tb_records t) (encode_bytes (cx_id X) k)"
    and view: "\<And>ch k. payload_view ch (cx_id X) t' k = payload_view ch (cx_id X) t k"
    and same: "rs_staged st' = rs_staged st" "rs_index st' = rs_index st" "rs_known_inline st' = rs_known_inline st"
      "in_closed st' = in_closed st" "rs_lru st' = rs_lru st"
  shows "locker_is X t' st' m"
proof -
  note st = locker_is_staged [OF assms(1,2)]
  have "record_pointers t' (encode_key X k) = record_pointers t (encode_key X k)" for k
    using assms(4) by (simp add: record_pointers_def encode_key_eq)
  moreover have eq: "payload_view (cx_chain X) (cx_id X) t' = payload_view (cx_chain X) (cx_id X) t" by (rule ext) (rule view)
  moreover have "index_exact (rs_index st) (payload_view (cx_chain X) (cx_id X) t)" "inline_exact X t [] (rs_known_inline st)"
    using assms(1) st by (simp_all add: locker_is_def lazy_ok_def locker_view_Nil)
  ultimately have "lazy_ok X t' st'" using assms(3) st by (simp add: lazy_ok_def same inline_exact_def locker_view_Nil)
  then show ?thesis using assms(1) eq by (simp add: locker_is_def same shows_map_def)
qed

lemma synced_fields [simp]:
  "sh_store (synced s st) = sh_store s" "sh_values (synced s st) = sh_values s" "sh_ticks (synced s st) = sh_ticks s"
  "sh_coherence (synced s st) = sh_coherence s" "rs_staged (synced s st) = rs_staged st" "rs_index (synced s st) = rs_index st"
  "rs_known_inline (synced s st) = rs_known_inline st" "in_closed (synced s st) = in_closed st" "rs_lru (synced s st) = rs_lru st"
  by (simp_all add: synced_def)

lemma synced_self:
  "sh_store s = sh_store st \<Longrightarrow> sh_values s = sh_values st \<Longrightarrow> sh_ticks s = sh_ticks st \<Longrightarrow> sh_coherence s = sh_coherence st
    \<Longrightarrow> synced s st = st"
  by (simp add: synced_def)

lemma locker_ctx_prompt: "sealing ch \<Longrightarrow> prompt_config cfg \<Longrightarrow> prompt_ctx (locker_ctx V ch i name cfg)"
  by (simp add: prompt_ctx_def locker_ctx_def)

lemma locker_ctx_fields [simp]:
  "cx_backend (locker_ctx V ch i name cfg) = ev_backend V" "cx_chain (locker_ctx V ch i name cfg) = ch"
  "cx_id (locker_ctx V ch i name cfg) = i" "cx_config (locker_ctx V ch i name cfg) = cfg"
  by (simp_all add: locker_ctx_def)

context live_backend
begin

lemma stores_after_call:
  assumes A: "stores sd ch t A" and reg: "registry t name = Some i" and shelf: "bt_lookup A name = Some (ty, m)" and fit: "all_fit sd m'"
    and shows': "shows_map ch i t' (payloads sd m')" and others: "\<forall>ch l k. l \<noteq> i \<longrightarrow> payload_view ch l t' k = payload_view ch l t k"
    and w: "undisturbed i t t'" "registry t' = registry t" "next_locker t' = next_locker t" "registry_ok t'"
  shows "stores sd ch t' (bt_insert name (ty, m') A)"
  unfolding stores_def
proof (intro conjI allI impI)
  note A' = A [unfolded stores_def]
  show "registry_ok t'" by (rule w(4))
  show "bt_lookup (bt_insert name (ty, m') A) name' = None \<longleftrightarrow> registry t' name' = None" for name'
    using A' reg by (simp add: w(2))
  show "bt_lookup (tb_meta t') (schema_key l) = None" "bt_lookup (tb_meta t') (chain_key l) = None" if "next_locker t' \<le> l" for l
    using A' that by (simp_all add: w(3) meta_undisturbed [OF w(1)])
  fix name' i' ty' m''
  assume r: "registry t' name' = Some i'" and l: "bt_lookup (bt_insert name (ty, m') A) name' = Some (ty', m'')"
  have old: "all_fit sd m0 \<and> shows_map ch i' t (payloads sd m0) \<and> utf8_valid (as_bytes ty0)
      \<and> bt_lookup (tb_meta t) (schema_key i') = Some (as_bytes ty0) \<and> bt_lookup (tb_meta t) (chain_key i') = Some [ch_id ch]"
    if "bt_lookup A name' = Some (ty0, m0)" for ty0 m0
    using A' r that by (simp add: w(2))
  show "all_fit sd m''" "shows_map ch i' t' (payloads sd m'')" "utf8_valid (as_bytes ty')"
    "bt_lookup (tb_meta t') (schema_key i') = Some (as_bytes ty')" "bt_lookup (tb_meta t') (chain_key i') = Some [ch_id ch]"
  proof -
    have "i' \<noteq> i" if "name' \<noteq> name"
      using that r reg A' by (auto simp: w(2) registry_ok_def)
    then have keep: "shows_map ch i' t' m0 = shows_map ch i' t m0" if "name' \<noteq> name" for m0
      using that others by (auto simp: shows_map_def fun_eq_iff)
    have "name' = name \<Longrightarrow> i' = i" using r reg by (simp add: w(2))
    then show "all_fit sd m''" "shows_map ch i' t' (payloads sd m'')" "utf8_valid (as_bytes ty')"
      "bt_lookup (tb_meta t') (schema_key i') = Some (as_bytes ty')" "bt_lookup (tb_meta t') (chain_key i') = Some [ch_id ch]"
      using l old fit shows' keep shelf by (auto simp: meta_undisturbed [OF w(1)] split: if_splits)
  qed
qed

lemma call_total:
  fixes V :: "('b, 'q) env" and s :: "('b, 'q, 'v) bank"
  assumes V: "ev_backend V = B" and rel: "agrees tabs ready V sd n0 (s, hs) v"
    and opened: "bt_lookup (sv_open v) name = Some (cfg, h)" and shelf: "bt_lookup (sv_lockers v) name = Some (ty, m)"
    and act: "\<And>X st :: ('b, 'q, 'v) eager. prompt X n0 st (payloads sd m) \<Longrightarrow>
      \<exists>r st'. act X st = (r, st') \<and> reply f r = ans \<and> gives X st n st' (payloads sd m')"
    and fit: "all_fit sd m'" and less: "n \<le> n0"
  shows "\<exists>ss'. on_locker name f act (s, hs) = (ans, ss')
    \<and> agrees tabs ready V sd n ss' (v\<lparr>sv_lockers := bt_insert name (ty, m') (sv_lockers v)\<rparr>)"
proof -
  let ?t = "tabs (sh_store s)" and ?A = "sv_lockers v"
  have bank: "bank_rel tabs ready sd n0 s ?A" and cells: "cells_ok V sd ?t s hs v" using rel by (simp_all add: agrees_def)
  obtain a where a: "bt_lookup hs name = Some a" "handle_ok V sd ?t s ?A name cfg h a" using cells_okD(1) [OF cells opened] by blast
  then obtain c i where c: "bt_lookup (bn_cells s) a = Some c" "ce_handles c = h" and i: "registry ?t name = Some i"
    and X: "ce_ctx c = locker_ctx V (bn_chain s) i name cfg" and iss: "locker_is (ce_ctx c) ?t (synced s (ce_state c)) (payloads sd m)"
    and cfg: "prompt_config cfg"
    using shelf by (auto simp: handle_ok_def)
  let ?X = "ce_ctx c" and ?st = "synced s (ce_state c)"
  have pX: "prompt_ctx ?X" using bank cfg X by (simp add: bank_rel_def locker_ctx_prompt)
  have "prompt ?X n0 ?st (payloads sd m)" using bank iss pX V X by (simp add: prompt_def bank_rel_def)
  from act [OF this] obtain r st where run: "act ?X ?st = (r, st)" and ans: "reply f r = ans" and g: "gives ?X ?st n st (payloads sd m')" by blast
  let ?t' = "tabs (sh_store st)"
  let ?s' = "s\<lparr>sh_store := sh_store st, sh_values := sh_values st, sh_ticks := sh_ticks st, sh_coherence := sh_coherence st,
      bn_cells := bt_insert a (c\<lparr>ce_state := st\<rparr>) (bn_cells s)\<rparr>"
  have on: "on_locker name f act (s, hs) = (ans, (?s', hs))"
    using a(1) c(1) run ans by (simp add: on_locker_def in_cell_def synced_def)
  have w: "writes_within tabs ?X (sh_store s) (sh_store st)"
    and others: "\<forall>ch l k. l \<noteq> i \<longrightarrow> payload_view ch l ?t' k = payload_view ch l ?t k"
    and pr: "prompt ?X n st (payloads sd m')"
    using g X by (simp_all add: gives_def)
  note st = promptD [OF pr]
  have A: "stores sd (bn_chain s) ?t ?A" and ok: "bank_ok tabs s" using bank by (simp_all add: bank_rel_def)
  then have regok: "registry_ok ?t" by (simp add: stores_def)
  then have "issued i ?t" using i by (simp add: registry_ok_def issued_def)
  then have wi: "undisturbed i ?t ?t'" "registry ?t' = registry ?t" "next_locker ?t' = next_locker ?t" "registry_ok ?t'"
    using writes_within_effect [OF w] X regok by simp_all
  have ids: "j = i \<Longrightarrow> name' = name" if "registry ?t name' = Some j" for name' j
    using that i regok by (auto simp: registry_ok_def)
  have "bank_rel tabs ready sd n ?s' (bt_insert name (ty, m') ?A)"
    using bank st(1,8) less wi ok meta_undisturbed(3) [OF wi(1)] stores_after_call [OF A i shelf fit _ others wi] st(14) X
    by (simp add: bank_rel_def bank_ok_def cached_def)
  moreover have "cells_ok V sd ?t' ?s' hs (v\<lparr>sv_lockers := bt_insert name (ty, m') ?A\<rparr>)"
    unfolding cells_ok_def
  proof
    fix name'
    let ?v = "v\<lparr>sv_lockers := bt_insert name (ty, m') ?A\<rparr>"
    have same: "synced ?s' st = st" by (rule synced_self) simp_all
    have lives: "is_live ?s' ol \<longleftrightarrow> is_live s ol" for ol
      using c st(10) iss by (auto simp: is_live_def upgrade_def locker_is_def)
    show "case bt_lookup (sv_open ?v) name' of
        Some (cfg, h) \<Rightarrow> (\<exists>a. bt_lookup hs name' = Some a \<and> handle_ok V sd ?t' ?s' (sv_lockers ?v) name' cfg h a)
      | None \<Rightarrow> bt_lookup hs name' = None \<and> (\<forall>ol. bt_lookup (bn_open ?s') name' = Some ol \<longrightarrow> \<not> is_live ?s' ol)"
    proof (cases "bt_lookup (sv_open v) name'")
      case None
      then show ?thesis using cells_okD(2,3) [OF cells None] lives by simp
    next
      case (Some p)
      obtain cfg' h' where p: "p = (cfg', h')" by (cases p)
      obtain a' where a': "bt_lookup hs name' = Some a'" "handle_ok V sd ?t s ?A name' cfg' h' a'"
        using cells_okD(1) [OF cells] Some p by blast
      have "handle_ok V sd ?t' ?s' (bt_insert name (ty, m') ?A) name' cfg' h' a'"
      proof (cases "name' = name")
        case True
        then have "cfg' = cfg" "h' = h" "a' = a" using Some p opened a a' by simp_all
        then show ?thesis using a' True c i X shelf st(9) wi same by (auto simp: handle_ok_def)
      next
        case False
        obtain c' i' ty' m'' where c': "bt_lookup (bn_cells s) a' = Some c'" "ce_handles c' = h'" "registry ?t name' = Some i'"
          "bt_lookup ?A name' = Some (ty', m'')" "ce_ctx c' = locker_ctx V (bn_chain s) i' name' cfg'"
          "locker_is (ce_ctx c') ?t (synced s (ce_state c')) (payloads sd m'')" "prompt_config cfg'"
          and o': "bt_lookup (bn_open s) name' = Some \<lparr>ol_cell = a', ol_has_values = False, ol_kind = TxLazy, ol_type_tag = ty', ol_config = cfg'\<rparr>"
          using a'(2) by (auto simp: handle_ok_def)
        have i': "i' \<noteq> i" using ids [OF c'(3)] False by blast
        have "cx_id (ce_ctx c) = i" "cx_id (ce_ctx c') = i'" using X c'(5) by simp_all
        then have ne: "a' \<noteq> a" using c(1) c'(1) i' by auto
        have "locker_is (ce_ctx c') ?t' (synced ?s' (ce_state c')) (payloads sd m'')"
        proof (rule other_locker_is [OF c'(6)])
          show "prompt_ctx (ce_ctx c')" using bank c'(5,7) by (simp add: bank_rel_def locker_ctx_prompt)
          show "vals_ok (sh_values (synced ?s' (ce_state c'))) ?t'" using st(8) by (simp add: tables_ok_def)
          show "bt_lookup (tb_records ?t') (encode_bytes (cx_id (ce_ctx c')) k) = bt_lookup (tb_records ?t) (encode_bytes (cx_id (ce_ctx c')) k)" for k
            using wi(1) i' c'(5) by (simp add: undisturbed_def)
          show "payload_view ch (cx_id (ce_ctx c')) ?t' k = payload_view ch (cx_id (ce_ctx c')) ?t k" for ch k
            using others i' c'(5) by simp
        qed simp_all
        then show ?thesis using a'(2) c' o' ne wi(2) False by (auto simp: handle_ok_def)
      qed
      then show ?thesis using Some p a'(1) by simp
    qed
  qed
  ultimately show ?thesis using on by (auto simp: agrees_def)
qed

end

end
