(* ===== verification/Session_Calls.thy ===== *)
theory Session_Calls
  imports Session_State
begin

text \<open>
  Every request to one locker answers what the shelf of the locker says.
\<close>

section \<open>What a request needs\<close>

text \<open>Value ids and locker ids a request may use up.\<close>

fun cost :: "'v request \<Rightarrow> nat" where
  "cost (R_Open name ty cfg) = 1"
| "cost (R_Put name k v) = 1"
| "cost (R_Put_All name es) = length es"
| "cost (R_Delete_All name ks) = length ks"
| "cost (R_Transact name stmts) = length stmts"
| "cost r = 0"

fun stmt_ok :: "'v serde \<Rightarrow> 'v tx_stmt \<Rightarrow> bool" where
  "stmt_ok sd (Stmt_Put k v) = fits sd v"
| "stmt_ok sd stmt = True"

fun request_ok :: "'v serde \<Rightarrow> 'v request \<Rightarrow> bool" where
  "request_ok sd (R_Open name ty cfg) = (prompt_config cfg \<and> lc_chain cfg = None \<and> utf8_valid (as_bytes name) \<and> utf8_valid (as_bytes ty))"
| "request_ok sd (R_Put name k v) = fits sd v"
| "request_ok sd (R_Put_All name es) = list_all (\<lambda>(k, v). fits sd v) es"
| "request_ok sd (R_Transact name stmts) = list_all (stmt_ok sd) stmts"
| "request_ok sd r = True"

lemma tables_ok_mono: "tables_ok n nxt t \<Longrightarrow> k \<le> n \<Longrightarrow> tables_ok k nxt t"
  using ids_left_mono by (auto simp: tables_ok_def)

lemma agrees_mono: "agrees tabs ready V sd n ss v \<Longrightarrow> k \<le> n \<Longrightarrow> agrees tabs ready V sd k ss v"
  using tables_ok_mono by (fastforce simp: agrees_def bank_rel_def split: prod.splits)

section \<open>Bulk calls as transactions\<close>

lemma mapM_s_map: "mapM_s f (map g xs) = mapM_s (\<lambda>x. f (g x)) xs"
  by (induction xs) simp_all

definition puts_of_entries :: "(bytes \<times> 'v) list \<Rightarrow> 'v tx_stmt list" where
  "puts_of_entries = map (\<lambda>(k, x). Stmt_Put k x)"

lemma put_all_program: "lazy_transact X (put_all_closure sd es) = lazy_transact X (tx_program X sd (puts_of_entries es))"
proof -
  have step: "(\<lambda>e. tx_step X sd b (case e of (k, x) \<Rightarrow> Stmt_Put k x)) = (\<lambda>(key, v). tx_put sd key v)" for b
    by (rule ext) (simp split: prod.split)
  have "put_all_closure sd es = tx_program X sd (puts_of_entries es)"
    unfolding put_all_closure_def tx_program_def puts_of_entries_def mapM_s_map step fun_eq_iff by simp
  then show ?thesis by simp
qed

lemma puts_on_shelf: "tx_on_shelf (puts_of_entries es) m = Inr (fold (\<lambda>(k, v). bt_insert k v) es m)"
  by (induction es arbitrary: m) (auto simp: puts_of_entries_def)

context live_backend
begin

lemma shelf_fits:
  assumes "agrees tabs ready V sd n (s, hs) v" "bt_lookup (sv_lockers v) name = Some (ty, m)"
  shows "all_fit sd m"
proof -
  have A: "stores sd (bn_chain s) (tabs (sh_store s)) (sv_lockers v)" using assms(1) by (simp add: agrees_def bank_rel_def)
  then have "registry (tabs (sh_store s)) name \<noteq> None" using assms(2) by (metis option.distinct(1) stores_def)
  then show ?thesis using A assms(2) by (auto simp: stores_def)
qed

lemma shelf_call:
  fixes V :: "('b, 'q) env" and ss :: "('b, 'q, 'v) session"
  assumes V: "ev_backend V = B" and rel: "agrees tabs ready V sd n0 ss v" and less: "n \<le> n0"
    and act: "\<And>m X st :: ('b, 'q, 'v) eager. all_fit sd m \<Longrightarrow> prompt X n0 st (payloads sd m) \<Longrightarrow>
      \<exists>r st'. act X st = (r, st') \<and> reply f r = fst (F m) \<and> gives X st n st' (payloads sd (snd (F m)))"
    and fit: "\<And>m. all_fit sd m \<Longrightarrow> all_fit sd (snd (F m))"
  shows "\<exists>ss'. on_locker name f act ss = (fst (on_shelf name F v), ss')
    \<and> agrees tabs ready V sd n ss' (snd (on_shelf name F v))"
proof -
  obtain s hs where ss: "ss = (s, hs)" by (cases ss)
  have cells: "cells_ok V sd (tabs (sh_store s)) s hs v" using rel by (simp add: agrees_def ss)
  show ?thesis
  proof (cases "bt_lookup (sv_open v) name")
    case None
    then show ?thesis using cells_okD(2) [OF cells None] agrees_mono [OF rel less] by (simp add: ss on_locker_def on_shelf_def)
  next
    case (Some p)
    obtain cfg h where p: "p = (cfg, h)" by (cases p)
    obtain ty m where m: "bt_lookup (sv_lockers v) name = Some (ty, m)"
      using cells_okD(1) [OF cells] Some p by (fastforce simp: handle_ok_def)
    have fit0: "all_fit sd m" by (rule shelf_fits [OF rel [unfolded ss] m])
    obtain r m' where F: "F m = (r, m')" by (cases "F m")
    have "\<exists>ss'. on_locker name f act (s, hs) = (r, ss')
        \<and> agrees tabs ready V sd n ss' (v\<lparr>sv_lockers := bt_insert name (ty, m') (sv_lockers v)\<rparr>)"
    proof (rule call_total [OF V rel [unfolded ss] Some [unfolded p] m _ _ less])
      show "\<exists>q st'. act X st = (q, st') \<and> reply f q = r \<and> gives X st n st' (payloads sd m')"
        if "prompt X n0 st (payloads sd m)" for X and st :: "('b, 'q, 'v) eager"
        using act [OF fit0 that] F by simp
      show "all_fit sd m'" using fit [OF fit0] F by simp
    qed
    then show ?thesis using Some m F by (simp add: ss on_shelf_def)
  qed
qed

text \<open>A call that reads: the state of the locker is the one it was called in.\<close>

lemma gives_refl: "prompt X n s m \<Longrightarrow> gives X s n s m"
  by (simp add: gives_def)

lemma shelf_read:
  fixes V :: "('b, 'q) env" and ss :: "('b, 'q, 'v) session"
  assumes V: "ev_backend V = B" and rel: "agrees tabs ready V sd n ss v"
    and act: "\<And>m X st :: ('b, 'q, 'v) eager. all_fit sd m \<Longrightarrow> prompt X n st (payloads sd m) \<Longrightarrow>
      \<exists>r. act X st = (r, st) \<and> reply f r = G m"
  shows "\<exists>ss'. on_locker name f act ss = (fst (on_shelf name (says G) v), ss')
    \<and> agrees tabs ready V sd n ss' (snd (on_shelf name (says G) v))"
  using act gives_refl by (intro shelf_call [OF V rel le_refl]) fastforce+

lemma put_request:
  fixes V :: "('b, 'q) env" and ss :: "('b, 'q, 'v) session"
  assumes V: "ev_backend V = B" and rel: "agrees tabs ready V sd (Suc n) ss v" and "fits sd x"
  shows "\<exists>ss'. on_locker name (\<lambda>_. A_Done) (\<lambda>X. lazy_put_by X sd k x) ss = (fst (on_shelf name (becoming (bt_insert k x)) v), ss')
    \<and> agrees tabs ready V sd n ss' (snd (on_shelf name (becoming (bt_insert k x)) v))"
  using put_total [OF _ fitsD(1,3) [OF assms(3)]] assms(3)
  by (intro shelf_call [OF V rel]) (fastforce simp: reply_def)+

lemma delete_request:
  fixes V :: "('b, 'q) env" and ss :: "('b, 'q, 'v) session"
  assumes V: "ev_backend V = B" and rel: "agrees tabs ready V sd n ss v"
  shows "\<exists>ss'. on_locker name (\<lambda>_. A_Done) (\<lambda>X. lazy_delete_by X k) ss = (fst (on_shelf name (becoming (bt_remove k)) v), ss')
    \<and> agrees tabs ready V sd n ss' (snd (on_shelf name (becoming (bt_remove k)) v))"
  using delete_total by (intro shelf_call [OF V rel]) (fastforce simp: reply_def)+

lemma clear_request:
  fixes V :: "('b, 'q) env" and ss :: "('b, 'q, 'v) session"
  assumes V: "ev_backend V = B" and rel: "agrees tabs ready V sd n ss v"
  shows "\<exists>ss'. on_locker name (\<lambda>_. A_Done) (\<lambda>X. lazy_clear X) ss = (fst (on_shelf name (becoming (\<lambda>_. bt_empty)) v), ss')
    \<and> agrees tabs ready V sd n ss' (snd (on_shelf name (becoming (\<lambda>_. bt_empty)) v))"
  using clear_total by (intro shelf_call [OF V rel]) (fastforce simp: reply_def)+

section \<open>Reads\<close>

lemma payload_value: "all_fit sd m \<Longrightarrow> payloads sd m k = Some p \<Longrightarrow> sd_from_bytes sd p = Inr (projr (sd_from_bytes sd p))"
  using fitsD(2) by (fastforce simp: payloads_def all_fit_def)

lemma payload_reads: "all_fit sd m \<Longrightarrow> payloads sd m k = Some p \<Longrightarrow> \<exists>x. bt_lookup m k = Some x \<and> sd_from_bytes sd p = Inr x"
  using fitsD(2) by (fastforce simp: payloads_def all_fit_def)

lemma payload_none: "payloads sd m k = None \<longleftrightarrow> bt_lookup m k = None"
  by (simp add: payloads_def)

lemma payload_back: "all_fit sd m \<Longrightarrow> map_option (\<lambda>p. projr (sd_from_bytes sd p)) (payloads sd m k) = bt_lookup m k"
  using fitsD(2) by (cases "bt_lookup m k") (fastforce simp: payloads_def all_fit_def)+

lemma get_shelf:
  fixes st :: "('b, 'q, 'z) resident_scheme"
  assumes "all_fit sd m" "prompt X n st (payloads sd m)"
  shows "lazy_get_by X sd k st = (Inr (bt_lookup m k), st)"
  unfolding payload_back [OF assms(1), of k, symmetric] by (rule get_total [OF assms(2) payload_value [OF assms(1)]])

lemma get_request:
  fixes V :: "('b, 'q) env" and ss :: "('b, 'q, 'v) session"
  assumes V: "ev_backend V = B" and rel: "agrees tabs ready V sd n ss v"
  shows "\<exists>ss'. on_locker name A_Value (\<lambda>X. lazy_get_by X sd k) ss = (fst (on_shelf name (says (\<lambda>m. A_Value (bt_lookup m k))) v), ss')
    \<and> agrees tabs ready V sd n ss' (snd (on_shelf name (says (\<lambda>m. A_Value (bt_lookup m k))) v))"
  by (intro shelf_read [OF V rel]) (simp add: reply_def get_shelf)

lemma get_or_request:
  fixes V :: "('b, 'q) env" and ss :: "('b, 'q, 'v) session"
  assumes V: "ev_backend V = B" and rel: "agrees tabs ready V sd n ss v"
  shows "\<exists>ss'. on_locker name (A_Value \<circ> Some) (\<lambda>X. lazy_get_or_by X sd k x) ss
      = (fst (on_shelf name (says (\<lambda>m. A_Value (Some (case bt_lookup m k of Some y \<Rightarrow> y | None \<Rightarrow> x)))) v), ss')
    \<and> agrees tabs ready V sd n ss' (snd (on_shelf name (says (\<lambda>m. A_Value (Some (case bt_lookup m k of Some y \<Rightarrow> y | None \<Rightarrow> x)))) v))"
  by (intro shelf_read [OF V rel]) (simp add: reply_def lazy_get_or_by_def sbind_def get_shelf)

text \<open>Reads of the index alone.\<close>

lemma keys_of_shelf: "sorted_list_of_set (set (bt_keys m)) = bt_keys m"
  by (metis bt_keys_distinct bt_keys_sorted sorted_list_of_set.idem_if_sorted_distinct strict_sorted_imp_sorted)

lemma shelf_index:
  fixes st :: "('b, 'q, 'z) resident_scheme"
  assumes "prompt X n st (payloads sd m)"
  obtains i where "rs_index st = Some i" "bt_keys i = bt_keys m"
proof -
  obtain i where "rs_index st = Some i" "bt_keys i = sorted_list_of_set (dom (payloads sd m))" by (rule index_of_map [OF assms])
  then show thesis using that unfolding dom_payloads keys_of_shelf by blast
qed

lemma index_request:
  fixes V :: "('b, 'q) env" and ss :: "('b, 'q, 'v) session"
  assumes V: "ev_backend V = B" and rel: "agrees tabs ready V sd n ss v"
    and g: "\<And>m i (st :: ('b, 'q, 'v) eager). rs_index st = Some i \<Longrightarrow> bt_keys i = bt_keys m \<Longrightarrow> f (g st) = G m"
  shows "\<exists>ss'. on_locker name f (\<lambda>X. sread (\<lambda>s. Inr (g s))) ss = (fst (on_shelf name (says G) v), ss')
    \<and> agrees tabs ready V sd n ss' (snd (on_shelf name (says G) v))"
proof (rule shelf_read [OF V rel])
  fix m X and st :: "('b, 'q, 'v) eager"
  assume "prompt X n st (payloads sd m)"
  then obtain i where "rs_index st = Some i" "bt_keys i = bt_keys m" by (rule shelf_index)
  from g [OF this] show "\<exists>r. sread (\<lambda>s. Inr (g s)) st = (r, st) \<and> reply f r = G m" by (simp add: reply_def)
qed

lemma utf8_filter: "List.map_filter utf8 xs = filter utf8_valid xs"
  by (induction xs) (simp_all add: List.map_filter_simps utf8_def)

lemma utf8_entries_filter: "utf8_entries xs = filter (utf8_valid \<circ> fst) xs"
  by (induction xs) (auto simp: utf8_entries_def List.map_filter_simps utf8_def)

text \<open>Between a prefix and a key it starts, everything starts with it.\<close>

lemma prefix_between: "p \<le> a \<Longrightarrow> a \<le> b \<Longrightarrow> prefix p b \<Longrightarrow> prefix p (a :: bytes)"
proof (cases "prefix_end (rev p)")
  case None
  assume "p \<le> a"
  then show ?thesis using prefix_end_None [OF None, of a] by simp
next
  case (Some e)
  assume "p \<le> a" "a \<le> b" "prefix p b"
  then show ?thesis using prefix_end_correct [OF Some] le_less_trans by blast
qed

lemma takeWhile_filter: "sorted xs \<Longrightarrow> \<forall>a\<in>set xs. \<forall>b\<in>set xs. a \<le> b \<longrightarrow> P b \<longrightarrow> P a \<Longrightarrow> takeWhile P xs = filter P xs"
proof (induction xs)
  case (Cons x xs)
  show ?case
  proof (cases "P x")
    case True
    have "takeWhile P xs = filter P xs" by (rule Cons.IH) (use Cons.prems in simp_all)
    then show ?thesis using True by simp
  next
    case False
    then have "\<forall>y\<in>set xs. \<not> P y" using Cons.prems by auto
    then show ?thesis using False by (simp add: filter_False)
  qed
qed simp

lemma prefix_run_sorted:
  assumes "sorted_wrt (<) ks"
  shows "prefix_run p ks = filter (prefix p) ks"
proof -
  have "prefix_run p ks = filter (prefix p) (filter (\<lambda>k. p \<le> k) ks)"
    unfolding prefix_run_def
  proof (rule takeWhile_filter)
    show "sorted (filter (\<lambda>k. p \<le> k) ks)" using assms strict_sorted_imp_sorted sorted_wrt_filter by blast
    show "\<forall>a\<in>set (filter (\<lambda>k. p \<le> k) ks). \<forall>b\<in>set (filter (\<lambda>k. p \<le> k) ks). a \<le> b \<longrightarrow> prefix p b \<longrightarrow> prefix p a"
      using prefix_between [of p] by simp
  qed
  moreover have "(p \<le> k \<and> prefix p k) = prefix p k" for k :: bytes using prefix_imp_le [of p k] by blast
  ultimately show ?thesis by (simp add: conj_commute)
qed

lemma index_reads_shelf:
  fixes st :: "('b, 'q, 'z) resident_scheme"
  assumes "rs_index st = Some i" "bt_keys i = bt_keys m"
  shows "lazy_contains_key_by st k = bt_contains m k" "lazy_len st = bt_len m" "lazy_keys_bytes st = bt_keys m"
    "lazy_keys st = filter utf8_valid (bt_keys m)"
    "lazy_keys_with_prefix st p = filter (\<lambda>k. prefix p k \<and> utf8_valid k) (bt_keys m)"
    "lazy_has_non_utf8_keys st = (\<not> list_all utf8_valid (bt_keys m))"
proof -
  have "bt_lookup i k \<noteq> None \<longleftrightarrow> bt_lookup m k \<noteq> None" by (metis assms(2) bt_mem_keys_iff)
  moreover have "bt_len i = bt_len m" using assms(2) by (metis bt_keys_def bt_len_def length_map)
  ultimately show "lazy_contains_key_by st k = bt_contains m k" "lazy_len st = bt_len m" "lazy_keys_bytes st = bt_keys m"
    "lazy_keys st = filter utf8_valid (bt_keys m)"
    "lazy_keys_with_prefix st p = filter (\<lambda>k. prefix p k \<and> utf8_valid k) (bt_keys m)"
    "lazy_has_non_utf8_keys st = (\<not> list_all utf8_valid (bt_keys m))"
    using assms prefix_run_sorted [OF bt_keys_sorted, of p m]
    by (auto simp: lazy_contains_key_by_def lazy_len_def lazy_keys_bytes_def lazy_keys_def lazy_keys_with_prefix_def
        lazy_keys_with_prefix_by_def lazy_has_non_utf8_keys_def read_index_def bt_contains_def utf8_filter list_all_iff
        intro!: filter_cong simp del: bt_mem_keys_iff)
qed

text \<open>Listings.\<close>

lemma shelf_listed:
  "listed (\<lambda>k. map_option postcard (payloads sd m k)) st en reverse limit
    = capped limit ((if reverse then rev else id) (filter (in_user_bounds st en) (bt_keys m)))"
proof -
  have "filter (in_user_bounds st en) (bt_keys m) = sorted_list_of_set (keys_in (\<lambda>k. map_option postcard (payloads sd m k)) st en)"
    by (rule sorted_keys_unique) (auto simp: keys_in_def payloads_def sorted_wrt_filter)
  then show ?thesis by (simp add: listed_def)
qed

lemma shelf_entries: "map (\<lambda>k. (k, the (bt_lookup m k))) (filter P (bt_keys m)) = filter (\<lambda>(k, _). P k) (bt_entries m)"
proof -
  have "bt_entries m = map (\<lambda>k. (k, the (bt_lookup m k))) (bt_keys m)"
    using al_rebuild [OF bt_entries_distinct, of m] by (simp add: bt_keys_def bt_lookup_def)
  then show ?thesis by (simp add: filter_map comp_def)
qed

lemma collect_shelf:
  fixes s :: "('b, 'q, 'z) resident_scheme"
  assumes "all_fit sd m" "prompt X n s (payloads sd m)"
  shows "lazy_collect X sd s st en reverse limit = Inr (capped limit ((if reverse then rev else id) (shelf_range m st en)))"
proof -
  let ?all = "(if reverse then rev else id) (filter (in_user_bounds st en) (bt_keys m))"
  let ?ks = "capped limit ?all"
  have "projr (sd_from_bytes sd (the (payloads sd m k))) = the (bt_lookup m k)" if "k \<in> set ?ks" for k
    using in_capped [OF that] payload_back [OF assms(1), of k] by (cases "bt_lookup m k") (auto simp: payloads_def split: if_splits)
  then have "map (\<lambda>k. (k, projr (sd_from_bytes sd (the (payloads sd m k))))) ?ks = map (\<lambda>k. (k, the (bt_lookup m k))) ?ks"
    by simp
  also have "\<dots> = capped limit ((if reverse then rev else id) (shelf_range m st en))"
    by (simp add: shelf_range_def shelf_entries map_capped rev_map [symmetric])
  finally show ?thesis
    using collect_total [OF assms(2) payload_value [OF assms(1)]] by (simp add: shelf_listed)
qed

lemma range_request:
  fixes V :: "('b, 'q) env" and ss :: "('b, 'q, 'v) session"
  assumes V: "ev_backend V = B" and rel: "agrees tabs ready V sd n ss v"
  shows "\<exists>ss'. on_locker name A_Entries (\<lambda>X. sread (\<lambda>s. lazy_range X sd s st en)) ss
      = (fst (on_shelf name (says (\<lambda>m. A_Entries (filter (utf8_valid \<circ> fst) (shelf_range m st en)))) v), ss')
    \<and> agrees tabs ready V sd n ss' (snd (on_shelf name (says (\<lambda>m. A_Entries (filter (utf8_valid \<circ> fst) (shelf_range m st en)))) v))"
    "\<exists>ss'. on_locker name A_Entries (\<lambda>X. sread (\<lambda>s. lazy_range_rev X sd s st en)) ss
      = (fst (on_shelf name (says (\<lambda>m. A_Entries (filter (utf8_valid \<circ> fst) (rev (shelf_range m st en))))) v), ss')
    \<and> agrees tabs ready V sd n ss' (snd (on_shelf name (says (\<lambda>m. A_Entries (filter (utf8_valid \<circ> fst) (rev (shelf_range m st en))))) v))"
  by (intro shelf_read [OF V rel]; simp add: lazy_range_def lazy_range_rev_def collect_shelf capped_def utf8_entries_filter reply_def)+

lemma unfiltered_request:
  fixes V :: "('b, 'q) env" and ss :: "('b, 'q, 'v) session"
  assumes V: "ev_backend V = B" and rel: "agrees tabs ready V sd n ss v"
  shows "\<exists>ss'. on_locker name A_Entries (\<lambda>X. sread (\<lambda>s. lazy_range_by X sd s st en)) ss
      = (fst (on_shelf name (says (\<lambda>m. A_Entries (shelf_range m st en))) v), ss')
    \<and> agrees tabs ready V sd n ss' (snd (on_shelf name (says (\<lambda>m. A_Entries (shelf_range m st en))) v))"
    "\<exists>ss'. on_locker name A_Entries (\<lambda>X. sread (\<lambda>s. lazy_range_rev_by X sd s st en)) ss
      = (fst (on_shelf name (says (\<lambda>m. A_Entries (rev (shelf_range m st en)))) v), ss')
    \<and> agrees tabs ready V sd n ss' (snd (on_shelf name (says (\<lambda>m. A_Entries (rev (shelf_range m st en)))) v))"
  by (intro shelf_read [OF V rel]; simp add: lazy_range_by_def lazy_range_rev_by_def collect_shelf capped_def reply_def)+

lemma shelf_range_whole [simp]: "shelf_range m Unbounded Unbounded = bt_entries m"
  by (simp add: shelf_range_def in_user_bounds_def)

lemma latest_request:
  fixes V :: "('b, 'q) env" and ss :: "('b, 'q, 'v) session"
  assumes V: "ev_backend V = B" and rel: "agrees tabs ready V sd n ss v"
  shows "\<exists>ss'. on_locker name A_Entries (\<lambda>X. sread (\<lambda>s. lazy_latest X sd s i)) ss
      = (fst (on_shelf name (says (\<lambda>m. A_Entries (filter (utf8_valid \<circ> fst) (take i (rev (bt_entries m)))))) v), ss')
    \<and> agrees tabs ready V sd n ss' (snd (on_shelf name (says (\<lambda>m. A_Entries (filter (utf8_valid \<circ> fst) (take i (rev (bt_entries m)))))) v))"
  by (intro shelf_read [OF V rel]) (simp add: lazy_latest_def collect_shelf capped_def utf8_entries_filter reply_def)

lemma bt_of_sorted: "al_sorted xs \<Longrightarrow> bt_entries (bt_of_list xs) = xs"
  using overlay_base [OF al_sorted_distinct, of xs] by (intro al_sorted_unique) (auto simp: bt_lookup_def fun_eq_iff)

lemma to_map_request:
  fixes V :: "('b, 'q) env" and ss :: "('b, 'q, 'v) session"
  assumes V: "ev_backend V = B" and rel: "agrees tabs ready V sd n ss v"
  shows "\<exists>ss'. on_locker name (A_Entries \<circ> bt_entries) (\<lambda>X. sread (\<lambda>s. lazy_to_map X sd s)) ss
      = (fst (on_shelf name (says (\<lambda>m. A_Entries (filter (utf8_valid \<circ> fst) (bt_entries m)))) v), ss')
    \<and> agrees tabs ready V sd n ss' (snd (on_shelf name (says (\<lambda>m. A_Entries (filter (utf8_valid \<circ> fst) (bt_entries m)))) v))"
  by (intro shelf_read [OF V rel])
    (simp add: lazy_to_map_def lazy_entries_def lazy_range_def collect_shelf capped_def utf8_entries_filter reply_def bt_of_sorted al_sorted_filter)

section \<open>Transactions\<close>

text \<open>What a transaction has staged says of the shelf what its statements do to it.\<close>

definition staged_as :: "'v serde \<Rightarrow> 'v shelf \<Rightarrow> 'v staged list \<Rightarrow> 'v shelf \<Rightarrow> bool" where
  "staged_as sd m0 es m \<longleftrightarrow> overlay_map es (payloads sd m0) = payloads sd m \<and> all_fit sd m
     \<and> (\<forall>e\<in>set es. pending_fits (pending_of_staged e))"

lemma overlay_snoc:
  "overlay_map (es @ [Staged_Put k p v]) m = (overlay_map es m)(k \<mapsto> p)"
  "overlay_map (es @ [Staged_Delete k]) m = (overlay_map es m)(k := None)"
  "overlay_map (es @ [Staged_Clear]) m = Map.empty"
  "overlay_map [] m = m"
  by (auto simp: overlay_map_def tx_view_snoc fun_eq_iff)

lemma staged_as_put:
  assumes "staged_as sd m0 es m" "fits sd x"
  shows "tx_put sd k x es = (Inr (), es @ [Staged_Put k (payload_of sd x) x])"
    "staged_as sd m0 (es @ [Staged_Put k (payload_of sd x) x]) (bt_insert k x m)"
  using assms fitsD [OF assms(2)] by (simp_all add: tx_put_def staged_as_def overlay_snoc)

lemma staged_as_other:
  assumes "staged_as sd m0 es m"
  shows "staged_as sd m0 (es @ [Staged_Delete k]) (bt_remove k m)" "staged_as sd m0 (es @ [Staged_Clear]) bt_empty"
  using assms by (simp_all add: staged_as_def overlay_snoc)

lemma tx_get_shelf:
  fixes s :: "('b, 'q, 'z) resident_scheme"
  assumes "all_fit sd m0" "prompt X n s (payloads sd m0)" "staged_as sd m0 es m"
  shows "tx_get X sd (sh_store s) es k = Inr (bt_lookup m k)"
proof -
  note p = promptD [OF assms(2)]
  have fit: "all_fit sd m" and over: "overlay_map es (payloads sd m0) k = payloads sd m k" using assms(3) by (simp_all add: staged_as_def)
  show ?thesis
  proof (cases "tx_staged_view es k")
    case None
    then have "payloads sd m0 k = payloads sd m k" using over by (simp add: overlay_map_def)
    then have "bt_lookup m0 k = bt_lookup m k" using payload_back [OF assms(1), of k] payload_back [OF fit, of k] by simp
    moreover have "load_value X sd (sh_store s) k = Inr (bt_lookup m0 k)"
      using payload_reads [OF assms(1), of k] payload_none [of sd m0 k] p(14)
      by (cases "payloads sd m0 k") (auto simp: load_value_live [OF p(1,2)] key_value_def shows_map_def item_value_def decode_payload_def)
    ultimately show ?thesis using None by (simp add: tx_get_def)
  next
    case (Some w)
    then have w: "w = payloads sd m k" using over by (simp add: overlay_map_def)
    show ?thesis
      using payload_reads [OF fit, of k] payload_none [of sd m k]
      by (cases "payloads sd m k") (auto simp: tx_get_def Some w view_value_def decode_payload_def)
  qed
qed

lemma tx_steps:
  fixes s :: "('b, 'q, 'z) resident_scheme"
  assumes "all_fit sd m0" "prompt X n s (payloads sd m0)"
  shows "staged_as sd m0 es m \<Longrightarrow> list_all (stmt_ok sd) stmts \<Longrightarrow>
    (case tx_on_shelf stmts m of
       Inl e \<Rightarrow> \<exists>es'. mapM_s (tx_step X sd (sh_store s)) stmts es = (Inl e, es')
     | Inr m' \<Rightarrow> \<exists>us es'. mapM_s (tx_step X sd (sh_store s)) stmts es = (Inr us, es') \<and> staged_as sd m0 es' m'
         \<and> length es' \<le> length es + length stmts)"
proof (induction stmts m arbitrary: es rule: tx_on_shelf.induct)
  case (2 k x stmts m)
  then have x: "fits sd x" by simp
  note put = staged_as_put [OF 2(2) x, of k]
  have "list_all (stmt_ok sd) stmts" using 2(3) by simp
  from 2(1) [OF put(2) this] show ?case using put(1) by (cases "tx_on_shelf stmts (bt_insert k x m)") (fastforce simp: sbind_def)+
next
  case (3 k stmts m)
  have "list_all (stmt_ok sd) stmts" using 3(3) by simp
  from 3(1) [OF staged_as_other(1) [OF 3(2), of k] this] show ?case
    by (cases "tx_on_shelf stmts (bt_remove k m)") (fastforce simp: sbind_def tx_delete_def)+
next
  case (4 stmts m)
  have "list_all (stmt_ok sd) stmts" using 4(3) by simp
  from 4(1) [OF staged_as_other(2) [OF 4(2)] this] show ?case
    by (cases "tx_on_shelf stmts bt_empty") (fastforce simp: sbind_def tx_clear_def)+
next
  case (5 k want stmts m)
  note got = tx_get_shelf [OF assms 5(2), of k]
  show ?case
  proof (cases "bt_lookup m k = want")
    case True
    have "list_all (stmt_ok sd) stmts" using 5(3) by simp
    from 5(1) [OF True 5(2) this] show ?thesis
      using True got by (cases "tx_on_shelf stmts m") (fastforce simp: sbind_def)+
  next
    case False
    then show ?thesis using got by (auto simp: sbind_def)
  qed
qed (auto simp: sbind_def)

lemma gives_mono: "gives X s n s' m \<Longrightarrow> k \<le> n \<Longrightarrow> gives X s k s' m"
  using tables_ok_mono by (auto simp: gives_def prompt_def)

lemma transact_shelf:
  fixes s :: "('b, 'q, 'z) resident_scheme"
  assumes fit: "all_fit sd m" and pr: "prompt X (length stmts + n) s (payloads sd m)" and ok: "list_all (stmt_ok sd) stmts"
  shows "\<exists>s'. lazy_transact X (tx_program X sd stmts) s = (map_sum id (\<lambda>_. ()) (tx_on_shelf stmts m), s')
    \<and> gives X s n s' (payloads sd (case tx_on_shelf stmts m of Inl e \<Rightarrow> m | Inr m' \<Rightarrow> m'))
    \<and> all_fit sd (case tx_on_shelf stmts m of Inl e \<Rightarrow> m | Inr m' \<Rightarrow> m')"
proof -
  have start: "staged_as sd m [] m" using fit by (simp add: staged_as_def overlay_snoc)
  note steps = tx_steps [OF fit pr start ok]
  show ?thesis
  proof (cases "tx_on_shelf stmts m")
    case (Inl e)
    then have "\<exists>es. tx_program X sd stmts (sh_store s) [] = (Inl e, es)" using steps by (auto simp: tx_program_def sbind_def)
    then have "lazy_transact X (tx_program X sd stmts) s = (Inl e, s)"
      using promptD [OF pr] by (auto simp: lazy_transact_def ensure_open_def sbind_def)
    then show ?thesis using Inl fit gives_mono [OF gives_refl [OF pr], of n] by simp
  next
    case (Inr m')
    then obtain es where es: "tx_program X sd stmts (sh_store s) [] = (Inr (), es)" "staged_as sd m es m'" "length es \<le> length stmts"
      using steps by (auto simp: tx_program_def sbind_def)
    let ?n = "length stmts - length es + n"
    have "prompt X (length es + ?n) s (payloads sd m)" using pr es(3) by simp
    from transact_total [where n = ?n and f = "tx_program X sd stmts", OF this es(1)] es(2)
    obtain s' where "lazy_transact X (tx_program X sd stmts) s = (Inr (), s')" "gives X s ?n s' (payloads sd m')"
      by (auto simp: staged_as_def)
    then show ?thesis using Inr es(2) gives_mono [of X s ?n s' "payloads sd m'" n] by (auto simp: staged_as_def)
  qed
qed

lemma transact_request:
  fixes V :: "('b, 'q) env" and ss :: "('b, 'q, 'v) session"
  assumes V: "ev_backend V = B" and rel: "agrees tabs ready V sd (length stmts + n) ss v" and ok: "list_all (stmt_ok sd) stmts"
  shows "\<exists>ss'. on_locker name (\<lambda>_. A_Done) (\<lambda>X. lazy_transact X (tx_program X sd stmts)) ss
      = (fst (on_shelf name (\<lambda>m. case tx_on_shelf stmts m of Inl e \<Rightarrow> (A_Failed e, m) | Inr m' \<Rightarrow> (A_Done, m')) v), ss')
    \<and> agrees tabs ready V sd n ss'
        (snd (on_shelf name (\<lambda>m. case tx_on_shelf stmts m of Inl e \<Rightarrow> (A_Failed e, m) | Inr m' \<Rightarrow> (A_Done, m')) v))"
proof (rule shelf_call [OF V rel], simp)
  fix m X and st :: "('b, 'q, 'v) eager"
  assume "all_fit sd m" "prompt X (length stmts + n) st (payloads sd m)"
  from transact_shelf [OF this ok] show "\<exists>r st'. lazy_transact X (tx_program X sd stmts) st = (r, st')
      \<and> reply (\<lambda>_. A_Done) r = fst (case tx_on_shelf stmts m of Inl e \<Rightarrow> (A_Failed e, m) | Inr m' \<Rightarrow> (A_Done, m'))
      \<and> gives X st n st' (payloads sd (snd (case tx_on_shelf stmts m of Inl e \<Rightarrow> (A_Failed e, m) | Inr m' \<Rightarrow> (A_Done, m'))))"
    by (cases "tx_on_shelf stmts m") (auto simp: reply_def)
next
  fix m :: "'v shelf"
  assume "all_fit sd m"
  then show "all_fit sd (snd (case tx_on_shelf stmts m of Inl e \<Rightarrow> (A_Failed e, m) | Inr m' \<Rightarrow> (A_Done, m')))"
    using ok
    by (induction stmts m rule: tx_on_shelf.induct) (auto split: sum.splits)
qed

lemma put_all_request:
  fixes V :: "('b, 'q) env" and ss :: "('b, 'q, 'v) session"
  assumes V: "ev_backend V = B" and rel: "agrees tabs ready V sd (length es + n) ss v" and ok: "list_all (\<lambda>(k, v). fits sd v) es"
  shows "\<exists>ss'. on_locker name (\<lambda>_. A_Done) (\<lambda>X. lazy_put_all X sd es) ss
      = (fst (on_shelf name (becoming (fold (\<lambda>(k, v). bt_insert k v) es)) v), ss')
    \<and> agrees tabs ready V sd n ss' (snd (on_shelf name (becoming (fold (\<lambda>(k, v). bt_insert k v) es)) v))"
proof (cases "es = []")
  case True
  have "\<exists>ss'. on_locker name (\<lambda>_. A_Done) (\<lambda>X. sret ()) ss = (fst (on_shelf name (says (\<lambda>m. A_Done)) v), ss')
    \<and> agrees tabs ready V sd n ss' (snd (on_shelf name (says (\<lambda>m. A_Done)) v))"
    by (rule shelf_read [OF V]) (use rel True in \<open>simp_all add: reply_def\<close>)
  then show ?thesis using True by (simp add: lazy_put_all_def)
next
  case False
  let ?stmts = "puts_of_entries es"
  have "list_all (stmt_ok sd) ?stmts" using ok by (induction es) (auto simp: puts_of_entries_def)
  moreover have "agrees tabs ready V sd (length ?stmts + n) ss v" using rel by (simp add: puts_of_entries_def)
  ultimately show ?thesis using transact_request [OF V, of sd ?stmts n ss v name] False
    by (simp add: lazy_put_all_def put_all_program puts_on_shelf)
qed

lemma deletes_overlay: "overlay_map (map Staged_Delete ks) (payloads sd m) = payloads sd (fold bt_remove ks m)"
  by (induction ks rule: rev_induct) (simp_all add: overlay_snoc)

lemma delete_all_request:
  fixes V :: "('b, 'q) env" and ss :: "('b, 'q, 'v) session"
  assumes V: "ev_backend V = B" and rel: "agrees tabs ready V sd (length ks + n) ss v"
  shows "\<exists>ss'. on_locker name (\<lambda>_. A_Done) (\<lambda>X. lazy_delete_all X ks) ss
      = (fst (on_shelf name (becoming (fold bt_remove ks)) v), ss')
    \<and> agrees tabs ready V sd n ss' (snd (on_shelf name (becoming (fold bt_remove ks)) v))"
proof (rule shelf_call [OF V rel], simp)
  fix m X and st :: "('b, 'q, 'v) eager"
  assume "all_fit sd m" and pr: "prompt X (length ks + n) st (payloads sd m)"
  let ?es = "map Staged_Delete ks :: unit staged list"
  have run: "mapM_s tx_delete ks es = (Inr (map (\<lambda>_. ()) ks), es @ map Staged_Delete ks)" for es :: "unit staged list"
    by (induction ks arbitrary: es) (simp_all add: sbind_def tx_delete_def)
  then have f: "delete_all_closure ks (sh_store st) [] = (Inr (), ?es)"
    by (simp add: delete_all_closure_def sbind_def)
  have "\<exists>s'. lazy_transact X (delete_all_closure ks :: ('b, unit) closure) st = (Inr (), s')
      \<and> gives X st n s' (overlay_map ?es (payloads sd m))"
    by (rule transact_total [where n = n and f = "delete_all_closure ks" and ?es = "?es", OF _ f]) (use pr in auto)
  then show "\<exists>r st'. lazy_delete_all X ks st = (r, st') \<and> reply (\<lambda>_. A_Done) r = fst (becoming (fold bt_remove ks) m)
      \<and> gives X st n st' (payloads sd (snd (becoming (fold bt_remove ks) m)))"
    using gives_refl [OF pr] by (auto simp: lazy_delete_all_def deletes_overlay reply_def)
next
  fix m :: "'v shelf"
  assume "all_fit sd m"
  then have "all_fit sd (fold bt_remove ks m)" by (induction ks arbitrary: m) simp_all
  then show "all_fit sd (snd (becoming (fold bt_remove ks) m))" by simp
qed

end

end
