(* ===== verification/Session_Opens.thy ===== *)
theory Session_Opens
  imports Session_Calls
begin

text \<open>
  The requests that open a locker, give a handle up, or delete a locker: what each needs of the storage,
  and that the session still agrees with the shelves afterwards.
\<close>

section \<open>One name at a time\<close>

definition name_ok :: "('b, 'q) env \<Rightarrow> 'v serde \<Rightarrow> tables \<Rightarrow> ('b, 'q, 'v) bank \<Rightarrow> (string, nat) btree \<Rightarrow> 'v shelves \<Rightarrow> string \<Rightarrow> bool" where
  "name_ok V sd t s hs v name \<longleftrightarrow>
     (case bt_lookup (sv_open v) name of
        Some (cfg, h) \<Rightarrow> (\<exists>a. bt_lookup hs name = Some a \<and> handle_ok V sd t s (sv_lockers v) name cfg h a)
      | None \<Rightarrow> bt_lookup hs name = None \<and> (\<forall>ol. bt_lookup (bn_open s) name = Some ol \<longrightarrow> \<not> is_live s ol))"

lemma cells_ok_names: "cells_ok V sd t s hs v \<longleftrightarrow> (\<forall>name. name_ok V sd t s hs v name)"
  by (simp add: cells_ok_def name_ok_def)

text \<open>A name that an operation does not concern stays as it is.\<close>

lemma name_ok_frame:
  assumes ok: "name_ok V sd t s hs v name"
    and same: "bt_lookup (sv_open v') name = bt_lookup (sv_open v) name" "bt_lookup (sv_lockers v') name = bt_lookup (sv_lockers v) name"
      "bt_lookup hs' name = bt_lookup hs name" "bn_chain s' = bn_chain s" "registry t' name = registry t name"
    and live: "\<And>a c ol. bt_lookup (bn_cells s) a = Some c \<Longrightarrow> cx_name (ce_ctx c) = name \<Longrightarrow> registry t name = Some (cx_id (ce_ctx c))
        \<Longrightarrow> bt_lookup (bn_open s) name = Some ol \<Longrightarrow> ol_cell ol = a \<Longrightarrow> is_live s ol
        \<Longrightarrow> bt_lookup (bn_cells s') a = Some c \<and> bt_lookup (bn_open s') name = Some ol"
    and dead: "\<And>ol. bt_lookup (bn_open s') name = Some ol \<Longrightarrow> is_live s' ol \<Longrightarrow> bt_lookup (bn_open s) name = Some ol \<and> is_live s ol"
    and kept: "\<And>cfg i st m. prompt_config cfg \<Longrightarrow> registry t name = Some i \<Longrightarrow> locker_is (locker_ctx V (bn_chain s) i name cfg) t (synced s st) m
        \<Longrightarrow> locker_is (locker_ctx V (bn_chain s) i name cfg) t' (synced s' st) m"
  shows "name_ok V sd t' s' hs' v' name"
proof (cases "bt_lookup (sv_open v) name")
  case None
  then show ?thesis using ok same dead by (auto simp: name_ok_def)
next
  case (Some p)
  obtain cfg h where p: "p = (cfg, h)" by (cases p)
  obtain a where a: "bt_lookup hs name = Some a" and h: "handle_ok V sd t s (sv_lockers v) name cfg h a"
    using ok Some p by (auto simp: name_ok_def)
  obtain c i ty m where c: "bt_lookup (bn_cells s) a = Some c" "ce_handles c = h" "registry t name = Some i" "bt_lookup (sv_lockers v) name = Some (ty, m)"
    "ce_ctx c = locker_ctx V (bn_chain s) i name cfg" "locker_is (ce_ctx c) t (synced s (ce_state c)) (payloads sd m)"
    and ol: "bt_lookup (bn_open s) name = Some \<lparr>ol_cell = a, ol_has_values = False, ol_kind = TxLazy, ol_type_tag = ty, ol_config = cfg\<rparr>"
    and cfg: "prompt_config cfg" "lc_chain cfg = None" "0 < h"
    using h by (auto simp: handle_ok_def)
  have "cx_name (ce_ctx c) = name" "cx_id (ce_ctx c) = i" by (simp_all add: c(5) locker_ctx_def)
  then have "bt_lookup (bn_cells s') a = Some c"
    "bt_lookup (bn_open s') name = Some \<lparr>ol_cell = a, ol_has_values = False, ol_kind = TxLazy, ol_type_tag = ty, ol_config = cfg\<rparr>"
    using live [OF c(1) _ _ ol] c(3) handle_live [OF h ol] by simp_all
  moreover have "locker_is (ce_ctx c) t' (synced s' (ce_state c)) (payloads sd m)"
    using kept [OF cfg(1) c(3)] c(5,6) by simp
  ultimately have "handle_ok V sd t' s' (sv_lockers v') name cfg h a" using c cfg same by (auto simp: handle_ok_def)
  then show ?thesis using Some p a same by (auto simp: name_ok_def)
qed

lemma locker_ctx_name [simp]: "cx_name (locker_ctx V ch i name cfg) = name"
  by (simp add: locker_ctx_def)

text \<open>A bank with the same storage and the same cells, and the dead entries of the registry left out.\<close>

lemma is_live_cells: "bn_cells s' = bn_cells s \<Longrightarrow> is_live s' ol = is_live s ol"
  by (simp add: is_live_def upgrade_def)

lemma agrees_pruned:
  assumes "agrees tabs ready V sd n (s, hs) v"
  shows "agrees tabs ready V sd n (prune s, hs) v"
proof -
  let ?t = "tabs (sh_store s)"
  have f: "sh_store (prune s) = sh_store s" "sh_values (prune s) = sh_values s" "sh_ticks (prune s) = sh_ticks s"
    "sh_coherence (prune s) = sh_coherence s" "bn_chain (prune s) = bn_chain s" "bn_closed (prune s) = bn_closed s" by (simp_all add: prune_def)
  have "name_ok V sd ?t (prune s) hs v name" for name
  proof (rule name_ok_frame)
    show "name_ok V sd ?t s hs v name" using assms by (simp add: agrees_def cells_ok_names)
    show "bt_lookup (bn_cells (prune s)) a = Some c \<and> bt_lookup (bn_open (prune s)) name = Some ol"
      if "bt_lookup (bn_cells s) a = Some c" "bt_lookup (bn_open s) name = Some ol" "is_live s ol" for a c ol
      using that by (simp add: prune_def)
    show "bt_lookup (bn_open s) name = Some ol \<and> is_live s ol" if "bt_lookup (bn_open (prune s)) name = Some ol" "is_live (prune s) ol" for ol
      using that is_live_cells [of "prune s" s ol] by (auto simp: prune_def split: option.splits if_splits)
  qed (simp_all add: f synced_def)
  then have "cells_ok V sd ?t (prune s) hs v" by (simp add: cells_ok_names)
  moreover have "bank_ok tabs (prune s) = bank_ok tabs s" by (simp add: bank_ok_def cached_def f) (simp add: prune_def)
  ultimately show ?thesis using assms by (simp add: agrees_def bank_rel_def f)
qed

section \<open>Handles given up\<close>

text \<open>The cell of one name changes and the storage does not: every other name stays as it is.\<close>

lemma own_cell_changes:
  assumes rel: "agrees tabs ready V sd n (s, hs) v" and c: "bt_lookup (bn_cells s) a = Some c" "cx_name (ce_ctx c) = name"
    and s': "s' = s\<lparr>bn_cells := bt_insert a c' (bn_cells s)\<rparr>" and less: "0 < ce_handles c' \<and> \<not> in_closed (ce_state c') \<longrightarrow> 0 < ce_handles c \<and> \<not> in_closed (ce_state c)"
    and hs': "\<And>x. x \<noteq> name \<Longrightarrow> bt_lookup hs' x = bt_lookup hs x"
    and v': "sv_lockers v' = sv_lockers v" "\<And>x. x \<noteq> name \<Longrightarrow> bt_lookup (sv_open v') x = bt_lookup (sv_open v) x"
    and own: "name_ok V sd (tabs (sh_store s)) s' hs' v' name"
  shows "agrees tabs ready V sd n (s', hs') v'"
proof -
  let ?t = "tabs (sh_store s)"
  have dead: "is_live s' ol \<Longrightarrow> is_live s ol" for ol
    using c(1) less by (auto simp: s' is_live_def upgrade_def split: option.splits if_splits)
  have "name_ok V sd ?t s' hs' v' x" if x: "x \<noteq> name" for x
  proof (rule name_ok_frame)
    show "name_ok V sd ?t s hs v x" using rel by (simp add: agrees_def cells_ok_names)
    show "bt_lookup (bn_cells s') b = Some d \<and> bt_lookup (bn_open s') x = Some ol"
      if "bt_lookup (bn_cells s) b = Some d" "cx_name (ce_ctx d) = x" "bt_lookup (bn_open s) x = Some ol" for b d ol
      using that c x by (auto simp: s')
    show "bt_lookup (bn_open s) x = Some ol \<and> is_live s ol" if "bt_lookup (bn_open s') x = Some ol" "is_live s' ol" for ol
      using that dead by (simp add: s')
  qed (use x hs' v' in \<open>simp_all add: s' synced_def\<close>)
  then have "cells_ok V sd ?t s' hs' v'" using own unfolding cells_ok_names by metis
  then show ?thesis using rel v'(1) by (simp add: agrees_def bank_rel_def bank_ok_def cached_def s')
qed

context live_backend
begin

text \<open>The locker behind a handle, with what \<open>handle_ok\<close> says of it.\<close>

lemma handle_cell:
  fixes V :: "('b, 'q) env" and s :: "('b, 'q, 'v) bank"
  assumes rel: "agrees tabs ready V sd n (s, hs) v" and V: "ev_backend V = B" and opened: "bt_lookup (sv_open v) name = Some (cfg, h)"
  obtains a c ty m i where "bt_lookup hs name = Some a" "bt_lookup (bn_cells s) a = Some c" "ce_handles c = h" "0 < h"
    "bt_lookup (sv_lockers v) name = Some (ty, m)" "cx_name (ce_ctx c) = name" "prompt (ce_ctx c) n (synced s (ce_state c)) (payloads sd m)"
    "bt_lookup (bn_open s) name = Some \<lparr>ol_cell = a, ol_has_values = False, ol_kind = TxLazy, ol_type_tag = ty, ol_config = cfg\<rparr>"
    "prompt_config cfg" "lc_chain cfg = None" "handle_ok V sd (tabs (sh_store s)) s (sv_lockers v) name cfg h a"
proof -
  have cells: "cells_ok V sd (tabs (sh_store s)) s hs v" and b: "bank_rel tabs ready sd n s (sv_lockers v)" using rel by (simp_all add: agrees_def)
  obtain a where a: "bt_lookup hs name = Some a" and h: "handle_ok V sd (tabs (sh_store s)) s (sv_lockers v) name cfg h a"
    using cells_okD(1) [OF cells opened] by blast
  obtain c i ty m where c: "bt_lookup (bn_cells s) a = Some c" "ce_handles c = h" "registry (tabs (sh_store s)) name = Some i"
    "bt_lookup (sv_lockers v) name = Some (ty, m)" "ce_ctx c = locker_ctx V (bn_chain s) i name cfg"
    "locker_is (ce_ctx c) (tabs (sh_store s)) (synced s (ce_state c)) (payloads sd m)"
    "bt_lookup (bn_open s) name = Some \<lparr>ol_cell = a, ol_has_values = False, ol_kind = TxLazy, ol_type_tag = ty, ol_config = cfg\<rparr>"
    "prompt_config cfg" "lc_chain cfg = None" "0 < h"
    using h by (auto simp: handle_ok_def)
  have "prompt_ctx (ce_ctx c)" using b c(5,8) by (simp add: bank_rel_def locker_ctx_prompt)
  then have "prompt (ce_ctx c) n (synced s (ce_state c)) (payloads sd m)" using b c V by (simp add: prompt_def bank_rel_def)
  then show thesis using that a c h by simp
qed

lemma close_request:
  fixes V :: "('b, 'q) env" and ss :: "('b, 'q, 'v) session"
  assumes V: "ev_backend V = B" and rel: "agrees tabs ready V sd n ss v"
  shows "\<exists>ss'. perform V sd again (R_Close name) ss = (fst (expected persists (R_Close name) v), ss')
    \<and> agrees tabs ready V sd n ss' (snd (expected persists (R_Close name) v))"
proof -
  obtain s hs where ss: "ss = (s, hs)" by (cases ss)
  have cells: "cells_ok V sd (tabs (sh_store s)) s hs v" using rel by (simp add: agrees_def ss)
  show ?thesis
  proof (cases "bt_lookup (sv_open v) name")
    case None
    then have "bt_lookup hs name = None" by (rule cells_okD(2) [OF cells])
    then have "bt_remove name hs = hs" by (intro btree_eqI) auto
    then show ?thesis using None \<open>bt_lookup hs name = None\<close> rel by (simp add: ss on_locker_def bt_contains_def)
  next
    case (Some p)
    obtain cfg h where p: "p = (cfg, h)" by (cases p)
    obtain a c ty m i where c: "bt_lookup hs name = Some a" "bt_lookup (bn_cells s) a = Some c" "cx_name (ce_ctx c) = name"
      "prompt (ce_ctx c) n (synced s (ce_state c)) (payloads sd m)"
      and ol: "bt_lookup (bn_open s) name = Some \<lparr>ol_cell = a, ol_has_values = False, ol_kind = TxLazy, ol_type_tag = ty, ol_config = cfg\<rparr>"
      by (rule handle_cell [OF rel [unfolded ss] V Some [unfolded p]])
    obtain st where st: "lazy_close (ce_ctx c) (synced s (ce_state c)) = (Inr (), st)" "in_closed st"
      "sh_store st = sh_store s" "sh_values st = sh_values s" "sh_ticks st = sh_ticks s" "sh_coherence st = sh_coherence s"
      using close_total [OF c(4)] by auto
    let ?s' = "s\<lparr>bn_cells := bt_insert a (c\<lparr>ce_state := st\<rparr>) (bn_cells s)\<rparr>"
    let ?v' = "v\<lparr>sv_open := bt_remove name (sv_open v)\<rparr>"
    have "on_locker name (\<lambda>_. A_Done) (\<lambda>X. lazy_close X) (s, hs) = (A_Done, (?s', hs))"
      using c st by (simp add: on_locker_def in_cell_def synced_def reply_def)
    moreover have "agrees tabs ready V sd n (?s', bt_remove name hs) ?v'"
    proof (rule own_cell_changes [OF rel [unfolded ss] c(2,3) refl])
      show "name_ok V sd (tabs (sh_store s)) ?s' (bt_remove name hs) ?v' name"
        using ol st(2) by (simp add: name_ok_def is_live_def upgrade_def)
    qed (use st(2) in simp_all)
    ultimately show ?thesis using Some by (simp add: ss bt_contains_def)
  qed
qed

lemma drop_request:
  fixes V :: "('b, 'q) env" and ss :: "('b, 'q, 'v) session"
  assumes V: "ev_backend V = B" and rel: "agrees tabs ready V sd n ss v"
  shows "\<exists>ss'. perform V sd again (R_Drop name) ss = (fst (expected persists (R_Drop name) v), ss')
    \<and> agrees tabs ready V sd n ss' (snd (expected persists (R_Drop name) v))"
proof -
  obtain s hs where ss: "ss = (s, hs)" by (cases ss)
  have cells: "cells_ok V sd (tabs (sh_store s)) s hs v" using rel by (simp add: agrees_def ss)
  show ?thesis
  proof (cases "bt_lookup (sv_open v) name")
    case None
    then show ?thesis using rel cells_okD(2) [OF cells None] by (simp add: ss)
  next
    case (Some p)
    obtain cfg h where p: "p = (cfg, h)" by (cases p)
    obtain a c ty m i where c: "bt_lookup hs name = Some a" "bt_lookup (bn_cells s) a = Some c" "ce_handles c = h" "0 < h"
      "cx_name (ce_ctx c) = name"
      and ol: "bt_lookup (bn_open s) name = Some \<lparr>ol_cell = a, ol_has_values = False, ol_kind = TxLazy, ol_type_tag = ty, ol_config = cfg\<rparr>"
      and ok: "handle_ok V sd (tabs (sh_store s)) s (sv_lockers v) name cfg h a"
      by (rule handle_cell [OF rel [unfolded ss] V Some [unfolded p]])
    let ?c = "c\<lparr>ce_handles := h - 1\<rparr>"
    let ?s' = "s\<lparr>bn_cells := bt_insert a ?c (bn_cells s)\<rparr>"
    let ?hs' = "if h \<le> 1 then bt_remove name hs else hs"
    let ?v' = "v\<lparr>sv_open := (if h \<le> 1 then bt_remove name (sv_open v) else bt_insert name (cfg, h - 1) (sv_open v))\<rparr>"
    have drop: "drop_handle a s = ?s'" using c by (simp add: drop_handle_def on_cell_def)
    have gone: "upgrade ?s' a = None \<longleftrightarrow> h \<le> 1" using c(4) by (auto simp: upgrade_def)
    have "agrees tabs ready V sd n (?s', ?hs') ?v'"
    proof (rule own_cell_changes [OF rel [unfolded ss] c(2,5) refl])
      have "handle_ok V sd (tabs (sh_store s)) ?s' (sv_lockers v) name cfg (h - 1) a" if "\<not> h \<le> 1"
        using ok c that by (auto simp: handle_ok_def synced_def)
      then show "name_ok V sd (tabs (sh_store s)) ?s' ?hs' ?v' name"
        using ol c(1) by (auto simp: name_ok_def is_live_def upgrade_def)
    qed (use c(3) in simp_all)
    then show ?thesis using Some p c(1) drop gone by (simp add: ss Let_def)
  qed
qed

text \<open>Whether a locker is open, and whether it exists.\<close>

lemma open_contains:
  fixes V :: "('b, 'q) env" and s :: "('b, 'q, 'v) bank"
  assumes V: "ev_backend V = B" and rel: "agrees tabs ready V sd n (s, hs) v"
  shows "bt_contains (bn_open (prune s)) name \<longleftrightarrow> bt_contains (sv_open v) name"
proof -
  have cells: "cells_ok V sd (tabs (sh_store s)) s hs v" using rel by (simp add: agrees_def)
  show ?thesis
  proof (cases "bt_lookup (sv_open v) name")
    case None
    then show ?thesis using cells_okD(3) [OF cells None] by (auto simp: prune_def bt_contains_def split: option.splits)
  next
    case (Some p)
    obtain cfg h where p: "p = (cfg, h)" by (cases p)
    obtain a c ty m i where "bt_lookup (bn_open s) name = Some \<lparr>ol_cell = a, ol_has_values = False, ol_kind = TxLazy, ol_type_tag = ty, ol_config = cfg\<rparr>"
      "handle_ok V sd (tabs (sh_store s)) s (sv_lockers v) name cfg h a"
      by (rule handle_cell [OF rel V Some [unfolded p]])
    from handle_live [OF this(2,1)] this(1) Some show ?thesis by (simp add: prune_def bt_contains_def)
  qed
qed

lemma is_open_request:
  fixes V :: "('b, 'q) env" and ss :: "('b, 'q, 'v) session"
  assumes V: "ev_backend V = B" and rel: "agrees tabs ready V sd n ss v"
  shows "\<exists>ss'. perform V sd again (R_Is_Open name) ss = (fst (expected persists (R_Is_Open name) v), ss')
    \<and> agrees tabs ready V sd n ss' (snd (expected persists (R_Is_Open name) v))"
proof -
  obtain s hs where ss: "ss = (s, hs)" by (cases ss)
  show ?thesis using open_contains [OF V rel [unfolded ss]] agrees_pruned [OF rel [unfolded ss]]
    by (simp add: ss is_locker_open_def Let_def)
qed

lemma bt_keys_eqI: "(\<And>k. bt_contains s k = bt_contains t k) \<Longrightarrow> bt_keys s = bt_keys t"
  by (rule strict_sorted_equal) (auto simp: bt_contains_def)

lemma open_names_request:
  fixes V :: "('b, 'q) env" and ss :: "('b, 'q, 'v) session"
  assumes V: "ev_backend V = B" and rel: "agrees tabs ready V sd n ss v"
  shows "\<exists>ss'. perform V sd again R_Open_Names ss = (fst (expected persists R_Open_Names v), ss')
    \<and> agrees tabs ready V sd n ss' (snd (expected persists R_Open_Names v))"
proof -
  obtain s hs where ss: "ss = (s, hs)" by (cases ss)
  have "bt_keys (bn_open (prune s)) = bt_keys (sv_open v)" by (rule bt_keys_eqI) (rule open_contains [OF V rel [unfolded ss]])
  then show ?thesis using agrees_pruned [OF rel [unfolded ss]] by (simp add: ss open_locker_names_def Let_def)
qed

lemma exists_live:
  fixes V :: "('b, 'q) env" and s :: "('b, 'q, 'v) bank"
  assumes "ev_backend V = B" "bank_rel tabs ready sd n s A"
  shows "locker_exists V s name = Inr (bt_contains A name)"
proof -
  have ok: "ready (sh_store s)" "bank_ok tabs s" and A: "bt_lookup A name = None \<longleftrightarrow> registry (tabs (sh_store s)) name = None"
    using assms(2) by (simp_all add: bank_rel_def stores_def)
  show ?thesis
  proof (cases "cached s name")
    case None
    then show ?thesis using assms(1) A get_live [OF ok(1)] by (simp add: locker_exists_def bt_contains_def registry_def)
  next
    case (Some i)
    then show ?thesis using ok(2) A by (auto simp: locker_exists_def bt_contains_def bank_ok_def)
  qed
qed

lemma exists_request:
  fixes V :: "('b, 'q) env" and ss :: "('b, 'q, 'v) session"
  assumes V: "ev_backend V = B" and rel: "agrees tabs ready V sd n ss v"
  shows "\<exists>ss'. perform V sd again (R_Exists name) ss = (fst (expected persists (R_Exists name) v), ss')
    \<and> agrees tabs ready V sd n ss' (snd (expected persists (R_Exists name) v))"
proof -
  obtain s hs where ss: "ss = (s, hs)" by (cases ss)
  have "bank_rel tabs ready sd n s (sv_lockers v)" using rel by (simp add: ss agrees_def)
  from exists_live [OF V this] show ?thesis using rel by (simp add: ss reply_def)
qed

end

section \<open>Writes to the meta table\<close>

text \<open>A commit that writes names, schemas, chains or the version, and nothing else.\<close>

definition meta_step :: "tables \<Rightarrow> tables \<Rightarrow> bool" where
  "meta_step t t' \<longleftrightarrow> tb_records t' = tb_records t \<and> tb_chunks t' = tb_chunks t
     \<and> bt_lookup (tb_meta t') next_value_id_key = bt_lookup (tb_meta t) next_value_id_key \<and> (well_typed t \<longrightarrow> well_typed t')"

lemma meta_step_trans: "meta_step t u \<Longrightarrow> meta_step u w \<Longrightarrow> meta_step t w"
  by (simp add: meta_step_def)

lemma meta_step_views:
  assumes "meta_step t t'"
  shows "payload_view ch l t' = payload_view ch l t" "record_pointers t' = record_pointers t" "stored_counter t' = stored_counter t"
    "tables_ok n nxt t \<Longrightarrow> tables_ok n nxt t'"
proof -
  have e: "tb_records t' = tb_records t" "tb_chunks t' = tb_chunks t"
    "bt_lookup (tb_meta t') next_value_id_key = bt_lookup (tb_meta t) next_value_id_key" "well_typed t \<Longrightarrow> well_typed t'"
    using assms by (simp_all add: meta_step_def)
  have item: "stored_item ch t' = stored_item ch t"
    using stored_payload_cong [of _ t' t ch] by (simp add: stored_item_def e fun_eq_iff)
  show "payload_view ch l t' = payload_view ch l t" "record_pointers t' = record_pointers t" by (simp_all add: payload_view_def record_pointers_def item e fun_eq_iff)
  show c: "stored_counter t' = stored_counter t" by (simp add: stored_counter_def e)
  have "points t' = points t" by (simp add: points_def fun_eq_iff e)
  then show "tables_ok n nxt t'" if "tables_ok n nxt t"
    using that c e by (cases nxt) (simp_all add: tables_ok_def vals_ok_def owned_def below_def no_orphans_def ids_left_def)
qed

lemma meta_step_ops:
  assumes "\<forall>op\<in>set ops. \<exists>k. k \<noteq> next_value_id_key \<and> (op = Op_Delete Meta k \<or> (\<exists>v. op = Op_Put Meta k v \<and> typed Meta k v))"
  shows "meta_step t (apply_ops t ops)"
  using assms
proof (induction ops arbitrary: t)
  case Nil
  show ?case by (simp add: meta_step_def)
next
  case (Cons op ops)
  then obtain k where k: "k \<noteq> next_value_id_key" "op = Op_Delete Meta k \<or> (\<exists>v. op = Op_Put Meta k v \<and> typed Meta k v)" by auto
  have "well_typed t \<Longrightarrow> well_typed (apply_ops t [op])"
    by (rule well_typed_apply) (use k(2) in auto)
  then have "meta_step t (apply_op t op)" using k by (auto simp: meta_step_def apply_op.simps)
  moreover have "meta_step (apply_op t op) (apply_ops (apply_op t op) ops)" using Cons by simp
  ultimately show ?case by (simp add: meta_step_trans)
qed

lemma locker_is_meta:
  assumes "locker_is X t s m" "prompt_ctx X" "meta_step t t'" "tables_ok n (sh_values s') t'"
    and "rs_staged s' = rs_staged s" "rs_index s' = rs_index s" "rs_known_inline s' = rs_known_inline s"
      "in_closed s' = in_closed s" "rs_lru s' = rs_lru s"
  shows "locker_is X t' s' m"
proof (rule other_locker_is [OF assms(1,2)])
  show "vals_ok (sh_values s') t'" using assms(4) by (simp add: tables_ok_def)
qed (use assms meta_step_views [OF assms(3)] in \<open>simp_all add: meta_step_def\<close>)

lemma meta_keys_inject [simp]:
  "schema_key i = schema_key j \<longleftrightarrow> i = j" "chain_key i = chain_key j \<longleftrightarrow> i = j" "schema_key i \<noteq> chain_key j" "chain_key i \<noteq> schema_key j"
  "locker_key name \<noteq> next_value_id_key" "schema_key i \<noteq> next_value_id_key" "chain_key i \<noteq> next_value_id_key"
  "META_NEXT_LOCKER_ID \<noteq> next_value_id_key" "META_FORMAT_VERSION \<noteq> next_value_id_key"
  "META_FORMAT_VERSION \<noteq> schema_key i" "META_FORMAT_VERSION \<noteq> chain_key i"
  by (simp_all add: schema_key_def chain_key_def locker_key_def META_NEXT_LOCKER_ID_def META_LOCKER_PREFIX_def META_FORMAT_VERSION_def
      META_SCHEMA_PREFIX_def META_CHAIN_PREFIX_def next_value_id_key_def as_bytes_def)

lemma as_string_of_bytes [simp]: "as_string (as_bytes s) = s"
  by (simp add: as_string_def as_bytes_def comp_def unat_of_char)

section \<open>Preparing a name\<close>

lemma agrees_registry:
  assumes "agrees tabs ready V sd n (s, hs) v" "bank_ok tabs (s\<lparr>bn_registry := r\<rparr>)"
  shows "agrees tabs ready V sd n (s\<lparr>bn_registry := r\<rparr>, hs) v"
proof -
  let ?s = "s\<lparr>bn_registry := r\<rparr>"
  have "name_ok V sd (tabs (sh_store s)) ?s hs v name" for name
  proof (rule name_ok_frame)
    show "name_ok V sd (tabs (sh_store s)) s hs v name" using assms(1) by (simp add: agrees_def cells_ok_names)
    show "bt_lookup (bn_open s) name = Some ol \<and> is_live s ol" if "bt_lookup (bn_open ?s) name = Some ol" "is_live ?s ol" for ol
      using that by (simp add: is_live_def upgrade_def)
  qed (simp_all add: synced_def)
  then have "cells_ok V sd (tabs (sh_store s)) ?s hs v" by (simp add: cells_ok_names)
  then show ?thesis using assms by (simp add: agrees_def bank_rel_def)
qed

text \<open>What a new name adds to the storage.\<close>

definition naming_ops :: "string \<Rightarrow> locker_id \<Rightarrow> string \<Rightarrow> byte \<Rightarrow> bop list" where
  "naming_ops name i ty ch = [Op_Put Meta (locker_key name) (be32 i), Op_Put Meta META_NEXT_LOCKER_ID (be32 (i + 1)),
     Op_Put Meta (schema_key i) (as_bytes ty), Op_Put Meta (chain_key i) [ch]]"

lemma naming_meta:
  assumes "t' = apply_ops t (naming_ops name i ty ch)"
  shows "meta_step t t'"
    "bt_lookup (tb_meta t') k = (if k = chain_key i then Some [ch] else if k = schema_key i then Some (as_bytes ty)
       else if k = META_NEXT_LOCKER_ID then Some (be32 (i + 1)) else if k = locker_key name then Some (be32 i) else bt_lookup (tb_meta t) k)"
proof -
  show "meta_step t t'" unfolding assms by (rule meta_step_ops) (auto simp: naming_ops_def)
  show "bt_lookup (tb_meta t') k = (if k = chain_key i then Some [ch] else if k = schema_key i then Some (as_bytes ty)
       else if k = META_NEXT_LOCKER_ID then Some (be32 (i + 1)) else if k = locker_key name then Some (be32 i) else bt_lookup (tb_meta t) k)"
    by (simp add: assms naming_ops_def apply_op.simps)
qed

lemma naming_stores:
  assumes A: "stores sd ch t A" and i: "i = next_locker t" "unat i + Suc n < 2 ^ 32" and new: "bt_lookup A name = None"
    and ty: "utf8_valid (as_bytes ty)" and t': "t' = apply_ops t (naming_ops name i ty (ch_id ch))"
  shows "stores sd ch t' (bt_insert name (ty, bt_empty) A)" "registry t' = (registry t)(name \<mapsto> i)" "unat (next_locker t') + n < 2 ^ 32"
proof -
  note A' = A [unfolded stores_def] and m = naming_meta [OF t']
  let ?t = "apply_ops t (register_ops name i (i + 1))"
  have none: "registry t name = None" and ok: "registry_ok t" using A' new by simp_all
  have "i \<noteq> - 1" using i(2) unat_minus_one_word [where 'a = 32] by auto
  then have j: "checked_succ (next_locker t) = Some (i + 1)" by (simp add: checked_succ_def i(1))
  have less: "i < i + 1" using checked_succ_less [OF j] by (simp add: i(1))
  note r = registered [OF ok none j, of ?t, unfolded i(1) [symmetric], OF refl]
  have rest: "t' = apply_ops ?t [Op_Put Meta (schema_key i) (as_bytes ty), Op_Put Meta (chain_key i) [ch_id ch]]"
    by (simp add: t' naming_ops_def register_ops_def)
  have sp: "spares {} op" if "op \<in> set [Op_Put Meta (schema_key i) (as_bytes ty), Op_Put Meta (chain_key i) [ch_id ch]]" for op
    using that by (auto simp: spares_def)
  have reg: "registry t' = (registry t)(name \<mapsto> i)" and nxt: "next_locker t' = i + 1" and ok': "registry_ok t'"
    unfolding rest using spared(3) [of "[Op_Put Meta (schema_key i) (as_bytes ty), Op_Put Meta (chain_key i) [ch_id ch]]" "{}", OF sp r(3)]
    by (simp_all only: spared(1,2) [of "[Op_Put Meta (schema_key i) (as_bytes ty), Op_Put Meta (chain_key i) [ch_id ch]]" "{}", OF sp] r(1,2) empty_iff simp_thms)
  show "registry t' = (registry t)(name \<mapsto> i)" by (rule reg)
  show "unat (next_locker t') + n < 2 ^ 32" using i(2) unat_checked_succ [OF j] by (simp add: nxt i(1))
  have low: "j < i" if "registry t x = Some j" for x j using ok that by (simp add: registry_ok_def i(1))
  have views: "shows_map ch j t' mm = shows_map ch j t mm" for j mm by (simp add: shows_map_def meta_step_views [OF m(1)])
  have empty: "shows_map ch i t Map.empty"
    using ok by (simp add: shows_map_def payload_view_def registry_ok_def i(1) fun_eq_iff)
  show "stores sd ch t' (bt_insert name (ty, bt_empty) A)"
    unfolding stores_def
  proof (intro conjI allI impI)
    show "registry_ok t'" by (rule ok')
    show "bt_lookup (bt_insert name (ty, bt_empty) A) x = None \<longleftrightarrow> registry t' x = None" for x using A' by (simp add: reg)
    show "bt_lookup (tb_meta t') (schema_key l) = None" "bt_lookup (tb_meta t') (chain_key l) = None" if l: "next_locker t' \<le> l" for l
    proof -
      have "i < l" using l less by (simp add: nxt)
      then show "bt_lookup (tb_meta t') (schema_key l) = None" "bt_lookup (tb_meta t') (chain_key l) = None"
        using A' by (auto simp: m(2) i(1))
    qed
    fix x j ty' mm
    assume x: "registry t' x = Some j" "bt_lookup (bt_insert name (ty, bt_empty) A) x = Some (ty', mm)"
    have old: "all_fit sd mm \<and> shows_map ch j t (payloads sd mm) \<and> utf8_valid (as_bytes ty')
        \<and> bt_lookup (tb_meta t) (schema_key j) = Some (as_bytes ty') \<and> bt_lookup (tb_meta t) (chain_key j) = Some [ch_id ch] \<and> j \<noteq> i"
      if "x \<noteq> name"
      using that x A' low [of x j] by (auto simp: reg)
    show "all_fit sd mm" "shows_map ch j t' (payloads sd mm)" "utf8_valid (as_bytes ty')"
      "bt_lookup (tb_meta t') (schema_key j) = Some (as_bytes ty')" "bt_lookup (tb_meta t') (chain_key j) = Some [ch_id ch]"
      using old x empty ty by (auto simp: m(2) views reg split: if_splits)
  qed
qed

context live_backend
begin

lemma locker_id_live:
  fixes s :: "('b, 'q, 'v) bank"
  assumes V: "ev_backend V = B" and ok: "bank_ok tabs s" "ready (sh_store s)" and known: "registry (tabs (sh_store s)) name = Some i"
  obtains r where "locker_id_of V name s = (Inr i, s\<lparr>bn_registry := r\<rparr>)" "bank_ok tabs (s\<lparr>bn_registry := r\<rparr>)"
proof (cases "cached s name")
  case (Some j)
  then have "j = i" using ok known by (auto simp: bank_ok_def)
  then have "locker_id_of V name s = (Inr i, s\<lparr>bn_registry := bn_registry s\<rparr>)" using Some by (simp add: locker_id_of_def)
  then show thesis by (rule that) (use ok in simp)
next
  case None
  obtain raw where raw: "bt_lookup (tb_meta (tabs (sh_store s))) (locker_key name) = Some raw" "i = from_be32 raw" "length raw = 4"
    using known ok by (auto simp: registry_def bank_ok_def registry_ok_def)
  have "locker_id_of V name s = (Inr i, cache name i s)"
    using None V raw get_many_live [OF ok(2)] by (simp add: locker_id_of_def sbind_def u32_from_def)
  then show thesis using that ok known by (auto simp: cache_def cached_def bank_ok_def)
qed

lemma on_store_live:
  fixes s :: "('b, 'z) shared_scheme"
  assumes "ready (sh_store s)" "ev_backend V = B"
  obtains b where "on_store (bk_commit (ev_backend V) ops) s = (Inr (), s\<lparr>sh_store := b\<rparr>)" "ready b" "tabs b = apply_ops (tabs (sh_store s)) ops"
proof -
  obtain b where b: "bk_commit B ops (sh_store s) = (Inr (), b)" "ready b" "tabs b = apply_ops (tabs (sh_store s)) ops"
    by (rule plain_commit_live [OF assms(1)])
  have "on_store (bk_commit (ev_backend V) ops) s = (Inr (), s\<lparr>sh_store := b\<rparr>)" using b(1) assms(2) by (simp add: on_store_def)
  then show thesis by (rule that) (use b in simp_all)
qed

lemma prepare_known:
  fixes s :: "('b, 'q, 'v) bank"
  assumes V: "ev_backend V = B" and b: "bank_rel tabs ready sd n s A" and A: "bt_lookup A name = Some (ty0, m)"
  obtains r i where "prepare V ty name (bn_chain s) s = (if ty0 = ty then Inr i else Inl (SchemaMismatch ty0 ty), s\<lparr>bn_registry := r\<rparr>)"
    "bank_ok tabs (s\<lparr>bn_registry := r\<rparr>)" "registry (tabs (sh_store s)) name = Some i"
proof -
  let ?t = "tabs (sh_store s)"
  have ok: "bank_ok tabs s" "ready (sh_store s)" and st: "stores sd (bn_chain s) ?t A" using b by (simp_all add: bank_rel_def)
  obtain i where i: "registry ?t name = Some i" using st A by (metis not_None_eq stores_def)
  have meta: "bt_lookup (tb_meta ?t) (schema_key i) = Some (as_bytes ty0)" "bt_lookup (tb_meta ?t) (chain_key i) = Some [ch_id (bn_chain s)]"
    "utf8_valid (as_bytes ty0)"
    using st A i by (auto simp: stores_def)
  obtain r where r: "locker_id_of V name s = (Inr i, s\<lparr>bn_registry := r\<rparr>)" "bank_ok tabs (s\<lparr>bn_registry := r\<rparr>)"
    by (rule locker_id_live [OF V ok i])
  have "prepare V ty name (bn_chain s) s = (if ty0 = ty then Inr i else Inl (SchemaMismatch ty0 ty), s\<lparr>bn_registry := r\<rparr>)"
    using exists_live [OF V b] r(1) meta V get_live [OF ok(2)]
    by (simp add: prepare_def sbind_def bind_schema_def bind_chain_def string_from_utf8_def chain_byte_def)
  then show thesis using that r(2) i by blast
qed

lemma prepare_new:
  fixes s :: "('b, 'q, 'v) bank"
  assumes V: "ev_backend V = B" and b: "bank_rel tabs ready sd (Suc n) s A" and A: "bt_lookup A name = None" and ty: "utf8_valid (as_bytes ty)"
  obtains b' i where "prepare V ty name (bn_chain s) s = (Inr i, s\<lparr>sh_store := b', bn_registry := bt_insert name i (bn_registry s)\<rparr>)"
    "ready b'" "i = next_locker (tabs (sh_store s))" "tabs b' = apply_ops (tabs (sh_store s)) (naming_ops name i ty (ch_id (bn_chain s)))"
proof -
  let ?t = "tabs (sh_store s)" and ?i = "next_locker (tabs (sh_store s))"
  have ok: "bank_ok tabs s" "ready (sh_store s)" and st: "stores sd (bn_chain s) ?t A" and room: "unat ?i + Suc n < 2 ^ 32"
    using b by (simp_all add: bank_rel_def)
  have none: "registry ?t name = None" using st A by (metis stores_def)
  then have unc: "cached s name = None" using ok(1) by (cases "cached s name") (auto simp: bank_ok_def)
  have unnamed: "bt_lookup (tb_meta ?t) (locker_key name) = None" using none by (simp add: registry_def)
  have "?i \<noteq> - 1" using room unat_minus_one_word [where 'a = 32] by auto
  then have j: "checked_succ ?i = Some (?i + 1)" by (simp add: checked_succ_def)
  have nxt: "(case bt_lookup (tb_meta ?t) META_NEXT_LOCKER_ID of Some raw \<Rightarrow> u32_from raw ''next locker id'' | None \<Rightarrow> Inr 0) = Inr ?i"
    using ok(1) by (auto simp: bank_ok_def registry_ok_def next_locker_def u32_from_def split: option.split)
  obtain b1 where b1: "on_store (bk_commit (ev_backend V) (register_ops name ?i (?i + 1))) s = (Inr (), s\<lparr>sh_store := b1\<rparr>)" "ready b1"
    "tabs b1 = apply_ops ?t (register_ops name ?i (?i + 1))"
    by (rule on_store_live [OF ok(2) V])
  let ?s1 = "s\<lparr>sh_store := b1, bn_registry := bt_insert name ?i (bn_registry s)\<rparr>"
  have id: "locker_id_of V name s = (Inr ?i, ?s1)"
    using unc unnamed V get_many_live [OF ok(2)] nxt j b1(1) by (simp add: locker_id_of_def sbind_def cache_def)
  have free: "bt_lookup (tb_meta ?t) (schema_key ?i) = None" "bt_lookup (tb_meta ?t) (chain_key ?i) = None" using st by (simp_all add: stores_def)
  have "ready (sh_store ?s1)" using b1(2) by simp
  then obtain b2 where b2: "on_store (bk_commit (ev_backend V) [Op_Put Meta (schema_key ?i) (as_bytes ty)]) ?s1 = (Inr (), ?s1\<lparr>sh_store := b2\<rparr>)"
    "ready b2" "tabs b2 = apply_ops (tabs (sh_store ?s1)) [Op_Put Meta (schema_key ?i) (as_bytes ty)]"
    by (rule on_store_live [OF _ V])
  let ?s2 = "?s1\<lparr>sh_store := b2\<rparr>"
  have schema: "bind_schema V ?i ty ?s1 = (Inr (), ?s2)"
    using get_live [OF b1(2)] b1(3) free(1) V b2(1) by (simp add: bind_schema_def register_ops_def apply_op.simps)
  have "ready (sh_store ?s2)" using b2(2) by simp
  then obtain b3 where b3: "on_store (bk_commit (ev_backend V) [Op_Put Meta (chain_key ?i) [ch_id (bn_chain s)]]) ?s2 = (Inr (), ?s2\<lparr>sh_store := b3\<rparr>)"
    "ready b3" "tabs b3 = apply_ops (tabs (sh_store ?s2)) [Op_Put Meta (chain_key ?i) [ch_id (bn_chain s)]]"
    by (rule on_store_live [OF _ V])
  have chain: "bind_chain V ?i (bn_chain s) False ?s2 = (Inr (), ?s2\<lparr>sh_store := b3\<rparr>)"
    using get_live [OF b2(2)] b1(3) b2(3) free(2) V b3(1) by (simp add: bind_chain_def register_ops_def apply_op.simps)
  have "bt_contains A name = False" using A by (simp add: bt_contains_def)
  then have "prepare V ty name (bn_chain s) s = (Inr ?i, ?s2\<lparr>sh_store := b3\<rparr>)"
    using exists_live [OF V b] id schema chain by (simp add: prepare_def sbind_def)
  moreover have "tabs b3 = apply_ops ?t (naming_ops name ?i ty (ch_id (bn_chain s)))"
    using b1(3) b2(3) b3(3) by (simp add: naming_ops_def register_ops_def)
  moreover have "?s2\<lparr>sh_store := b3\<rparr> = s\<lparr>sh_store := b3, bn_registry := bt_insert name ?i (bn_registry s)\<rparr>" by simp
  ultimately show thesis using that [of ?i b3] b3(2) by metis
qed

end

end
