(* ===== verification/Session_Opening.thy ===== *)
theory Session_Opening
  imports Session_Opens
begin

text \<open>
  Opening a locker in a session: the name is registered when it is new, its schema and chain are checked
  when it is not, and the locker that comes into the heap is the shelf of the name.
\<close>

definition with_shelf :: "string \<Rightarrow> string \<Rightarrow> 'v shelves \<Rightarrow> 'v shelves" where
  "with_shelf name ty v =
     (if bt_contains (sv_lockers v) name then v else v\<lparr>sv_lockers := bt_insert name (ty, bt_empty) (sv_lockers v)\<rparr>)"

definition prepared :: "'v shelves \<Rightarrow> string \<Rightarrow> string \<Rightarrow> locker_id \<Rightarrow> locker_id result" where
  "prepared v name ty i =
     (case bt_lookup (sv_lockers v) name of
        Some (ty0, m) \<Rightarrow> if ty0 = ty then Inr i else Inl (SchemaMismatch ty0 ty)
      | None \<Rightarrow> Inr i)"

definition pruned :: "('b, 'q, 'v) bank \<Rightarrow> bool" where
  "pruned s \<longleftrightarrow> (\<forall>name ol. bt_lookup (bn_open s) name = Some ol \<longrightarrow> is_live s ol)"

lemma pruned_prune: "pruned (prune s)"
proof -
  have "is_live (prune s) ol = is_live s ol" for ol by (rule is_live_cells) (simp add: prune_def)
  then show ?thesis by (auto simp: pruned_def prune_def split: option.splits if_splits)
qed

lemma lazy_open_shared: "lazy_open X sh = (Inr st, sh') \<Longrightarrow> shared.truncate st = sh'"
  by (auto simp: lazy_open_def resident_new_def inner_new_def resident.defs inner_state.defs shared.defs split: sum.splits prod.splits)

context live_backend
begin

lemma prepare_agrees:
  fixes V :: "('b, 'q) env" and s :: "('b, 'q, 'v) bank"
  assumes V: "ev_backend V = B" and rel: "agrees tabs ready V sd (Suc n) (s, hs) v"
    and closed: "bt_lookup (sv_open v) name = None" and ty: "utf8_valid (as_bytes ty)"
  obtains s' i where "prepare V ty name (bn_chain s) s = (prepared v name ty i, s')" "agrees tabs ready V sd n (s', hs) (with_shelf name ty v)"
    "registry (tabs (sh_store s')) name = Some i" "bn_chain s' = bn_chain s" "bn_open s' = bn_open s" "bn_cells s' = bn_cells s"
proof (cases "bt_lookup (sv_lockers v) name")
  case (Some p)
  obtain ty0 m where p: "p = (ty0, m)" by (cases p)
  have b: "bank_rel tabs ready sd (Suc n) s (sv_lockers v)" using rel by (simp add: agrees_def)
  obtain r i where r: "prepare V ty name (bn_chain s) s = (if ty0 = ty then Inr i else Inl (SchemaMismatch ty0 ty), s\<lparr>bn_registry := r\<rparr>)"
    "bank_ok tabs (s\<lparr>bn_registry := r\<rparr>)" "registry (tabs (sh_store s)) name = Some i"
    by (rule prepare_known [OF V b Some [unfolded p]])
  have "agrees tabs ready V sd n (s\<lparr>bn_registry := r\<rparr>, hs) v"
    by (rule agrees_mono [OF agrees_registry [OF rel r(2)]]) simp
  then show thesis
    by (intro that [of i "s\<lparr>bn_registry := r\<rparr>"]) (use Some p r in \<open>simp_all add: prepared_def with_shelf_def bt_contains_def\<close>)
next
  case None
  let ?t = "tabs (sh_store s)" and ?A = "bt_insert name (ty, bt_empty) (sv_lockers v)"
  have b: "bank_rel tabs ready sd (Suc n) s (sv_lockers v)" using rel by (simp add: agrees_def)
  obtain b' i where run: "prepare V ty name (bn_chain s) s = (Inr i, s\<lparr>sh_store := b', bn_registry := bt_insert name i (bn_registry s)\<rparr>)"
    and ready: "ready b'" and i: "i = next_locker ?t" and t': "tabs b' = apply_ops ?t (naming_ops name i ty (ch_id (bn_chain s)))"
    by (rule prepare_new [OF V b None ty])
  let ?s' = "s\<lparr>sh_store := b', bn_registry := bt_insert name i (bn_registry s)\<rparr>"
  have b': "ready (sh_store s)" "\<not> bn_closed s" "sealing (bn_chain s)" "bank_ok tabs s" "tables_ok (Suc n) (sh_values s) ?t"
    "unat i + Suc n < 2 ^ 32" "versioned ?t" "stores sd (bn_chain s) ?t (sv_lockers v)"
    using b i by (simp_all add: bank_rel_def)
  note m = naming_meta [OF t']
  note st = naming_stores [OF b'(8) i b'(6) None ty t']
  have tok: "tables_ok n (sh_values s) (tabs b')" using meta_step_views(4) [OF m(1) b'(5)] tables_ok_mono by fastforce
  have "versioned (tabs b')" using b'(7) by (simp add: versioned_def m(2))
  moreover have "bank_ok tabs ?s'" using b'(4) st(1,2) by (auto simp: bank_ok_def stores_def cached_def)
  ultimately have "bank_rel tabs ready sd n ?s' ?A"
    using b' tok st ready by (simp add: bank_rel_def)
  moreover have "cells_ok V sd (tabs b') ?s' hs (v\<lparr>sv_lockers := ?A\<rparr>)"
    unfolding cells_ok_names
  proof
    fix x
    have ok: "name_ok V sd ?t s hs v x" using rel by (simp add: agrees_def cells_ok_names)
    have live: "is_live ?s' ol = is_live s ol" for ol by (rule is_live_cells) simp
    show "name_ok V sd (tabs b') ?s' hs (v\<lparr>sv_lockers := ?A\<rparr>) x"
    proof (cases "x = name")
      case True
      then show ?thesis using ok closed live by (simp add: name_ok_def)
    next
      case False
      show ?thesis
      proof (rule name_ok_frame [OF ok])
        fix cfg j st m assume "prompt_config cfg" "locker_is (locker_ctx V (bn_chain s) j x cfg) ?t (synced s st) m"
        then show "locker_is (locker_ctx V (bn_chain s) j x cfg) (tabs b') (synced ?s' st) m"
          by (intro locker_is_meta [OF _ _ m(1), of _ "synced s st" _ n]) (use b'(3) tok in \<open>simp_all add: locker_ctx_prompt\<close>)
      qed (use False st(2) live in simp_all)
    qed
  qed
  ultimately have "agrees tabs ready V sd n (?s', hs) (with_shelf name ty v)" using None by (simp add: agrees_def with_shelf_def bt_contains_def)
  then show thesis by (intro that [of i ?s']) (use run None st(2) in \<open>simp_all add: prepared_def\<close>)
qed

lemma locker_is_extended:
  "locker_is X t (resident.extend st e) m = locker_is X t st m"
  by (simp add: locker_is_def lazy_ok_def inline_exact_def resident.defs)

lemma install_agrees:
  fixes V :: "('b, 'q) env" and s :: "('b, 'q, 'v) bank" and st :: "('b, 'q) resident"
  assumes V: "ev_backend V = B" and rel: "agrees tabs ready V sd n (s, hs) v" and pr: "pruned s" and own: "bt_lookup (bn_open s) name = None"
    and shelf: "bt_lookup (sv_lockers v) name = Some (ty, m)" and i: "registry (tabs (sh_store s)) name = Some i"
    and cfg: "prompt_config cfg" "lc_chain cfg = None"
    and st: "prompt (locker_ctx V (bn_chain s) i name cfg) n st (payloads sd m)" "shared.truncate st = shared.truncate s"
  obtains a s' where "install name TxLazy ty cfg (locker_ctx V (bn_chain s) i name cfg) (resident.extend st \<lparr>eg_values = bt_empty\<rparr>) s = (Inr a, s')"
    "agrees tabs ready V sd n (s', bt_insert name a hs) (v\<lparr>sv_open := bt_insert name (cfg, 1) (sv_open v)\<rparr>)"
proof -
  let ?t = "tabs (sh_store s)" and ?X = "locker_ctx V (bn_chain s) i name cfg" and ?e = "resident.extend st \<lparr>eg_values = bt_empty\<rparr> :: ('b, 'q, 'v) eager"
  let ?a = "fresh_cell s"
  let ?c = "\<lparr>ce_ctx = ?X, ce_state = ?e, ce_handles = 1\<rparr>"
  let ?s1 = "s\<lparr>bn_cells := bt_insert ?a ?c (bn_cells s)\<rparr>"
  let ?ol = "\<lparr>ol_cell = ?a, ol_has_values = False, ol_kind = TxLazy, ol_type_tag = ty, ol_config = cfg\<rparr>"
  let ?s2 = "(prune ?s1)\<lparr>bn_open := bt_insert name ?ol (bn_open (prune ?s1))\<rparr>"
  define s' where "s' = register_resident ?a ?s2"
  let ?v' = "v\<lparr>sv_open := bt_insert name (cfg, 1) (sv_open v)\<rparr>"
  have none: "bt_lookup (bn_open (prune ?s1)) name = None" using own by (simp add: prune_def)
  have run: "install name TxLazy ty cfg ?X ?e s = (Inr ?a, s')"
    using none by (simp add: install_def claim_open_def Let_def s'_def)
  have f: "sh_store s' = sh_store s" "sh_values s' = sh_values s" "sh_ticks s' = sh_ticks s" "sh_coherence s' = sh_coherence s"
    "bn_chain s' = bn_chain s" "bn_closed s' = bn_closed s" "bn_registry s' = bn_registry s" "bn_cells s' = bt_insert ?a ?c (bn_cells s)"
    "bt_lookup (bn_open s') name = Some ?ol"
    by (simp_all add: s'_def register_resident_def prune_def)
  have up: "upgrade ?s1 b = upgrade s b" if "b \<noteq> ?a" for b using that by (simp add: upgrade_def)
  have cell: "ol_cell ol \<noteq> ?a" if "bt_lookup (bn_open s) x = Some ol" for x ol
    using pr that fresh_cell_free [of s] by (fastforce simp: pruned_def is_live_def upgrade_def)
  have live1: "is_live ?s1 ol" if "bt_lookup (bn_open s) x = Some ol" for x ol
    using pr that cell [OF that] up by (simp add: pruned_def is_live_def)
  have others: "bt_lookup (bn_open s') x = bt_lookup (bn_open s) x" if "x \<noteq> name" for x
    using that live1 by (auto simp: s'_def register_resident_def prune_def split: option.split)
  have eqs: "sh_store st = sh_store s" "sh_values st = sh_values s" "sh_ticks st = sh_ticks s" "sh_coherence st = sh_coherence s"
    using st(2) by (simp_all add: shared.defs)
  have e: "sh_store ?e = sh_store s" "sh_values ?e = sh_values s" "sh_ticks ?e = sh_ticks s" "sh_coherence ?e = sh_coherence s"
    by (simp_all add: eqs resident.defs)
  have same: "synced s' ?e = ?e" by (rule synced_self) (simp_all only: f e)
  have iss: "locker_is ?X ?t ?e (payloads sd m)" using st(1) eqs by (simp add: prompt_def locker_is_extended)
  have "name_ok V sd ?t s' (bt_insert name ?a hs) ?v' x" for x
  proof (cases "x = name")
    case True
    have "handle_ok V sd ?t s' (sv_lockers v) name cfg 1 ?a"
      using cfg i shelf f iss same by (simp add: handle_ok_def)
    then show ?thesis using True by (simp add: name_ok_def)
  next
    case False
    have ok: "name_ok V sd ?t s hs v x" using rel by (simp add: agrees_def cells_ok_names)
    show ?thesis
    proof (rule name_ok_frame [OF ok])
      show "bt_lookup (bn_cells s') b = Some d \<and> bt_lookup (bn_open s') x = Some ol"
        if "bt_lookup (bn_cells s) b = Some d" "bt_lookup (bn_open s) x = Some ol" for b d ol
        using that others [OF False] fresh_cell_free [of s] by (auto simp: f)
      show "bt_lookup (bn_open s) x = Some ol \<and> is_live s ol" if "bt_lookup (bn_open s') x = Some ol" for ol
        using that others [OF False] pr by (simp add: pruned_def)
    qed (use False in \<open>simp_all add: f synced_def\<close>)
  qed
  then have "cells_ok V sd ?t s' (bt_insert name ?a hs) ?v'" by (simp add: cells_ok_names)
  moreover have "bank_rel tabs ready sd n s' (sv_lockers v)" using rel by (simp add: agrees_def bank_rel_def bank_ok_def cached_def f)
  ultimately have "agrees tabs ready V sd n (s', bt_insert name ?a hs) ?v'" by (simp add: agrees_def f)
  with run show thesis by (rule that)
qed

lemma prompt_opened:
  fixes V :: "('b, 'q) env" and s :: "('b, 'q, 'v) bank"
  assumes V: "ev_backend V = B" and b: "bank_rel tabs ready sd n s A" and i: "registry (tabs (sh_store s)) name = Some i"
    and A: "bt_lookup A name = Some (ty, m)" and cfg: "prompt_config cfg"
  obtains st :: "('b, 'q) resident" where "on_shared (lazy_open (locker_ctx V (bn_chain s) i name cfg)) s = (Inr st, s)"
    "prompt (locker_ctx V (bn_chain s) i name cfg) n st (payloads sd m)" "shared.truncate st = shared.truncate s"
proof -
  let ?X = "locker_ctx V (bn_chain s) i name cfg" and ?sh = "shared.truncate s"
  have f: "sh_store ?sh = sh_store s" "sh_values ?sh = sh_values s" "sh_ticks ?sh = sh_ticks s" "sh_coherence ?sh = sh_coherence s"
    by (simp_all add: shared.defs)
  have b': "ready (sh_store s)" "sealing (bn_chain s)" "tables_ok n (sh_values s) (tabs (sh_store s))"
    "stores sd (bn_chain s) (tabs (sh_store s)) A"
    using b by (simp_all add: bank_rel_def)
  have m: "shows_map (bn_chain s) i (tabs (sh_store s)) (payloads sd m)" using b'(4) i A by (simp add: stores_def)
  have "ready (sh_store ?sh)" "cx_backend ?X = B" "prompt_ctx ?X" "tables_ok n (sh_values ?sh) (tabs (sh_store ?sh))"
    "shows_map (cx_chain ?X) (cx_id ?X) (tabs (sh_store ?sh)) (payloads sd m)"
    using b' V cfg m by (simp_all add: f locker_ctx_prompt)
  from open_total [OF this] obtain st :: "('b, 'q) resident" where st: "lazy_open ?X ?sh = (Inr st, ?sh)" "prompt ?X n st (payloads sd m)" by blast
  have "on_shared (lazy_open ?X) s = (Inr st, s)" using st(1) by (simp add: on_shared_def f)
  then show thesis by (rule that [OF _ st(2) lazy_open_shared [OF st(1)]])
qed

text \<open>An open of a name that is open already.\<close>

lemma share_request:
  fixes V :: "('b, 'q) env" and s :: "('b, 'q, 'v) bank"
  assumes V: "ev_backend V = B" and rel: "agrees tabs ready V sd n (s, hs) v" and opened: "bt_lookup (sv_open v) name = Some (cfg0, h)"
    and ol: "bt_lookup (bn_open s) name = Some ol" and shelf: "bt_lookup (sv_lockers v) name = Some (ty0, m)"
  shows "\<exists>s'. share_open name ol TxLazy ty cfg s = (rbind (check_shared name \<lparr>ol_cell = 0, ol_has_values = False, ol_kind = TxLazy,
        ol_type_tag = ty0, ol_config = cfg0\<rparr> TxLazy ty cfg) (\<lambda>_. Inr (ol_cell ol)), s')
    \<and> bt_lookup hs name = Some (ol_cell ol)
    \<and> agrees tabs ready V sd n (s', hs) (case check_shared name \<lparr>ol_cell = 0, ol_has_values = False, ol_kind = TxLazy,
        ol_type_tag = ty0, ol_config = cfg0\<rparr> TxLazy ty cfg of
          Inl e \<Rightarrow> v | Inr _ \<Rightarrow> v\<lparr>sv_open := bt_insert name (cfg0, Suc h) (sv_open v)\<rparr>)"
proof -
  obtain a c ty1 m1 i where c: "bt_lookup hs name = Some a" "bt_lookup (bn_cells s) a = Some c" "ce_handles c = h" "0 < h"
    "bt_lookup (sv_lockers v) name = Some (ty1, m1)" "cx_name (ce_ctx c) = name"
    and pr: "prompt (ce_ctx c) n (synced s (ce_state c)) (payloads sd m1)"
    and ol': "bt_lookup (bn_open s) name = Some \<lparr>ol_cell = a, ol_has_values = False, ol_kind = TxLazy, ol_type_tag = ty1, ol_config = cfg0\<rparr>"
    and ok: "handle_ok V sd (tabs (sh_store s)) s (sv_lockers v) name cfg0 h a"
    by (rule handle_cell [OF rel V opened])
  have e: "ol = \<lparr>ol_cell = a, ol_has_values = False, ol_kind = TxLazy, ol_type_tag = ty0, ol_config = cfg0\<rparr>" using ol ol' c(5) shelf by simp
  let ?chk = "check_shared name \<lparr>ol_cell = 0, ol_has_values = False, ol_kind = TxLazy, ol_type_tag = ty0, ol_config = cfg0\<rparr> TxLazy ty cfg"
  have chk: "check_shared name ol TxLazy ty cfg = ?chk" by (simp add: check_shared_def e)
  show ?thesis
  proof (cases ?chk)
    case (Inl x)
    then show ?thesis using c(1) rel by (simp add: share_open_def sbind_def chk [unfolded e] e)
  next
    case (Inr u)
    let ?s' = "s\<lparr>bn_cells := bt_insert a (c\<lparr>ce_handles := Suc h\<rparr>) (bn_cells s)\<rparr>"
    let ?v' = "v\<lparr>sv_open := bt_insert name (cfg0, Suc h) (sv_open v)\<rparr>"
    have "add_handle a s = ?s'" using c by (simp add: add_handle_def on_cell_def)
    moreover have "agrees tabs ready V sd n (?s', hs) ?v'"
    proof (rule own_cell_changes [OF rel c(2,6) refl])
      have "handle_ok V sd (tabs (sh_store s)) ?s' (sv_lockers v) name cfg0 (Suc h) a"
        using ok c by (auto simp: handle_ok_def synced_def)
      then show "name_ok V sd (tabs (sh_store s)) ?s' hs ?v' name" using c(1) by (simp add: name_ok_def)
    qed (use c promptD(10) [OF pr] in simp_all)
    ultimately show ?thesis using Inr c(1) by (simp add: share_open_def sbind_def chk [unfolded e] e)
  qed
qed

lemma open_request:
  fixes V :: "('b, 'q) env" and ss :: "('b, 'q, 'v) session"
  assumes V: "ev_backend V = B" and rel: "agrees tabs ready V sd (Suc n) ss v"
    and cfg: "prompt_config cfg" "lc_chain cfg = None" and ty: "utf8_valid (as_bytes ty)"
  shows "\<exists>ss'. perform V sd again (R_Open name ty cfg) ss = (fst (expected persists (R_Open name ty cfg) v), ss')
    \<and> agrees tabs ready V sd n ss' (snd (expected persists (R_Open name ty cfg) v))"
proof -
  obtain s hs where ss: "ss = (s, hs)" by (cases ss)
  let ?p = "prune s" and ?sd = "sd\<lparr>sd_type_name := ty\<rparr>"
  have rel': "agrees tabs ready V sd (Suc n) (?p, hs) v" by (rule agrees_pruned [OF rel [unfolded ss]])
  have cells: "cells_ok V sd (tabs (sh_store ?p)) ?p hs v" and op: "\<not> bn_closed s" using rel' rel by (simp_all add: agrees_def bank_rel_def ss)
  have tag: "type_tag ?sd = ty" by (simp add: type_tag_def)
  have ch: "bn_chain ?p = bn_chain s" by (simp add: prune_def)
  have start: "lazy_locker_with V ?sd name cfg s = (case open_locker_of name s of
      (Some ol, s) \<Rightarrow> share_open name ol TxLazy ty cfg s
    | (None, s) \<Rightarrow> sbind (prepare V ty name (bn_chain ?p)) (\<lambda>i. sbind (on_shared (lazy_open (locker_ctx V (bn_chain ?p) i name cfg)))
        (\<lambda>st. install name TxLazy ty cfg (locker_ctx V (bn_chain ?p) i name cfg) (resident.extend st \<lparr>eg_values = bt_empty\<rparr>))) s)"
    unfolding lazy_locker_with_def tag ch Let_def using op cfg(2) by (simp add: bank_ensure_open_def sbind_def chain_for_def)
  show ?thesis
  proof (cases "bt_lookup (sv_open v) name")
    case (Some q)
    obtain cfg0 h where q: "q = (cfg0, h)" by (cases q)
    obtain a c ty0 m i where shelf: "bt_lookup (sv_lockers v) name = Some (ty0, m)"
      and ol: "bt_lookup (bn_open ?p) name = Some \<lparr>ol_cell = a, ol_has_values = False, ol_kind = TxLazy, ol_type_tag = ty0, ol_config = cfg0\<rparr>" (is "_ = Some ?ol")
      by (rule handle_cell [OF rel' V Some [unfolded q]])
    have "is_live ?p ?ol" using pruned_prune [of s] ol by (simp add: pruned_def)
    then have "open_locker_of name s = (Some ?ol, ?p)" using ol by (simp add: open_locker_of_def Let_def)
    then have run: "lazy_locker_with V ?sd name cfg s = share_open name ?ol TxLazy ty cfg ?p" using start by simp
    let ?chk = "check_shared name \<lparr>ol_cell = 0, ol_has_values = False, ol_kind = TxLazy, ol_type_tag = ty0, ol_config = cfg0\<rparr> TxLazy ty cfg"
    obtain s' where s': "share_open name ?ol TxLazy ty cfg ?p = (rbind ?chk (\<lambda>_. Inr a), s')" "bt_lookup hs name = Some a"
      "agrees tabs ready V sd (Suc n) (s', hs) (case ?chk of Inl e \<Rightarrow> v | Inr _ \<Rightarrow> v\<lparr>sv_open := bt_insert name (cfg0, Suc h) (sv_open v)\<rparr>)"
      using share_request [OF V rel' Some [unfolded q] ol shelf, of ty cfg] by auto
    have "bt_insert name a hs = hs" using s'(2) by (intro btree_eqI) simp
    then show ?thesis
      using s'(1) agrees_mono [OF s'(3), of n] run Some q shelf by (cases ?chk) (simp_all add: ss)
  next
    case None
    have own: "bt_lookup (bn_open ?p) name = None"
      using cells_okD(3) [OF cells None] pruned_prune [of s] by (cases "bt_lookup (bn_open ?p) name") (auto simp: pruned_def)
    have "open_locker_of name s = (None, ?p)" using own by (simp add: open_locker_of_def Let_def)
    then have run: "lazy_locker_with V ?sd name cfg s = sbind (prepare V ty name (bn_chain ?p))
      (\<lambda>i. sbind (on_shared (lazy_open (locker_ctx V (bn_chain ?p) i name cfg)))
        (\<lambda>st. install name TxLazy ty cfg (locker_ctx V (bn_chain ?p) i name cfg) (resident.extend st \<lparr>eg_values = bt_empty\<rparr>))) ?p"
      using start by simp
    obtain s1 i where s1: "prepare V ty name (bn_chain ?p) ?p = (prepared v name ty i, s1)" "agrees tabs ready V sd n (s1, hs) (with_shelf name ty v)"
      "registry (tabs (sh_store s1)) name = Some i" "bn_chain s1 = bn_chain ?p" "bn_open s1 = bn_open ?p" "bn_cells s1 = bn_cells ?p"
      by (rule prepare_agrees [OF V rel' None ty])
    show ?thesis
    proof (cases "prepared v name ty i")
      case (Inl e)
      then obtain ty0 m where "bt_lookup (sv_lockers v) name = Some (ty0, m)" "e = SchemaMismatch ty0 ty" "ty0 \<noteq> ty"
        by (auto simp: prepared_def split: option.splits if_splits)
      then show ?thesis using run s1(1,2) Inl None by (simp add: ss sbind_def with_shelf_def bt_contains_def)
    next
      case (Inr j)
      then have j: "j = i" by (auto simp: prepared_def split: option.splits if_splits)
      obtain m where shelf: "bt_lookup (sv_lockers (with_shelf name ty v)) name = Some (ty, m)"
        using Inr by (auto simp: prepared_def with_shelf_def bt_contains_def split: option.splits if_splits)
      have b: "bank_rel tabs ready sd n s1 (sv_lockers (with_shelf name ty v))" using s1(2) by (simp add: agrees_def)
      obtain st :: "('b, 'q) resident" where st: "on_shared (lazy_open (locker_ctx V (bn_chain s1) i name cfg)) s1 = (Inr st, s1)"
        "prompt (locker_ctx V (bn_chain s1) i name cfg) n st (payloads sd m)" "shared.truncate st = shared.truncate s1"
        by (rule prompt_opened [OF V b s1(3) shelf cfg(1)])
      have pr: "pruned s1" using pruned_prune [of s] is_live_cells [OF s1(6)] s1(5) by (simp add: pruned_def)
      obtain a s' where s': "install name TxLazy ty cfg (locker_ctx V (bn_chain s1) i name cfg) (resident.extend st \<lparr>eg_values = bt_empty\<rparr>) s1 = (Inr a, s')"
        "agrees tabs ready V sd n (s', bt_insert name a hs)
           ((with_shelf name ty v)\<lparr>sv_open := bt_insert name (cfg, 1) (sv_open (with_shelf name ty v))\<rparr>)"
        by (rule install_agrees [OF V s1(2) pr _ shelf s1(3) cfg st(2,3)]) (use own s1(5) in simp)
      have "lazy_locker_with V ?sd name cfg s = (Inr a, s')"
        using run s1(1,4) Inr j st(1) s'(1) by (simp add: sbind_def)
      moreover have "expected persists (R_Open name ty cfg) v = (A_Done, (with_shelf name ty v)\<lparr>sv_open := bt_insert name (cfg, 1) (sv_open (with_shelf name ty v))\<rparr>)"
        using Inr None by (auto simp: prepared_def with_shelf_def bt_contains_def split: option.splits if_splits)
      ultimately show ?thesis using s'(2) by (simp add: ss)
    qed
  qed
qed

end

end
