(* ===== verification/Session_Deletes.thy ===== *)
theory Session_Deletes
  imports Session_Opening
begin

text \<open>
  Listing the names of a bank in a session, and deleting a locker.
\<close>

section \<open>Names\<close>

text \<open>Every name on the shelves is UTF-8, as a \<open>&str\<close> is.\<close>

definition names_valid :: "'v shelves \<Rightarrow> bool" where
  "names_valid v \<longleftrightarrow> (\<forall>name. bt_lookup (sv_lockers v) name \<noteq> None \<longrightarrow> utf8_valid (as_bytes name))"

lemma names_valid_shelf: "names_valid v \<Longrightarrow> names_valid (snd (on_shelf name F v))"
  by (auto simp: names_valid_def on_shelf_def split: option.splits prod.splits)

lemma names_valid_step:
  assumes "names_valid v" "request_ok sd r"
  shows "names_valid (snd (expected persists r v))"
  using assms
  by (cases r) (auto simp: names_valid_shelf, auto simp: names_valid_def bt_contains_def split: option.splits sum.splits prod.splits)

lemma names_valid_empty [simp]: "sv_lockers v = bt_empty \<Longrightarrow> names_valid v"
  by (simp add: names_valid_def)

lemma as_bytes_of_string [simp]: "as_bytes (as_string bs) = bs"
proof -
  have "of_char (char_of (unat b) :: char) = b" for b :: byte
    using unsigned_less [of b, where 'a = nat] by (intro word_unat_eq_iff [THEN iffD2]) (simp add: unat_of_char)
  then show ?thesis by (simp add: as_bytes_def as_string_def comp_def)
qed

lemma less_behind_prefix: "p @ a < p @ b \<longleftrightarrow> a < (b :: bytes)"
  by (induction p) simp_all

lemma as_string_less:
  assumes "a < (b :: bytes)"
  shows "as_string a < as_string b"
proof -
  have char: "char_of (unat x) < (char_of (unat y) :: char)" if "x < y" for x y :: byte
    using that unsigned_less [of x, where 'a = nat] unsigned_less [of y, where 'a = nat] by (simp add: less_char_def word_less_nat_alt)
  show ?thesis using assms
    by (induction a arbitrary: b) (case_tac b; auto simp: as_string_def char)+
qed

lemma names_visited:
  assumes "\<forall>p\<in>set xs. \<exists>k. fst p = META_LOCKER_PREFIX @ k \<and> utf8_valid k"
  shows "foldM_r (\<lambda>names (key, _). rbind (string_from_utf8 ''locker name'' (drop (length META_LOCKER_PREFIX) key)) (\<lambda>n. Inr (names @ [n])))
      acc xs = Inr (acc @ map (\<lambda>p. as_string (drop (length META_LOCKER_PREFIX) (fst p))) xs)"
  using assms
  by (induction xs arbitrary: acc) (auto simp: string_from_utf8_def split: prod.splits)

context live_backend
begin

lemma names_live:
  fixes V :: "('b, 'q) env" and s :: "('b, 'q, 'v) bank"
  assumes V: "ev_backend V = B" and rel: "bank_rel tabs ready sd n s (sv_lockers v)" and valid: "names_valid v"
  shows "locker_names V s = Inr (bt_keys (sv_lockers v))"
proof -
  let ?b = "sh_store s" and ?p = META_LOCKER_PREFIX
  let ?t = "tabs ?b"
  let ?xs = "scan_order (tb_meta ?t) (kr_prefix ?p) False"
  let ?name = "\<lambda>key. as_string (drop (length ?p) key)"
  have ready: "ready ?b" and A: "stores sd (bn_chain s) ?t (sv_lockers v)" using rel by (simp_all add: bank_rel_def)
  have reg: "bt_lookup (sv_lockers v) name = None \<longleftrightarrow> bt_lookup (tb_meta ?t) (locker_key name) = None" for name
    using A by (simp add: stores_def registry_def)
  have key: "\<exists>k. fst q = ?p @ k \<and> utf8_valid k" if "q \<in> set ?xs" for q
  proof -
    have q: "prefix ?p (fst q)" "bt_lookup (tb_meta ?t) (fst q) \<noteq> None"
      using that by (auto simp: set_scan_order bt_mem_entries_iff [symmetric]) (metis bt_mem_entries_iff option.distinct(1) prod.collapse)
    obtain k where k: "fst q = ?p @ k" using q(1) by (auto simp: prefix_def)
    then have "locker_key (as_string k) = fst q" by (simp add: locker_key_def)
    then have "utf8_valid (as_bytes (as_string k))" using q(2) reg valid by (metis names_valid_def)
    then show ?thesis using k by simp
  qed
  have np: "\<not> range_panics (kr_start (kr_prefix ?p)) (kr_end (kr_prefix ?p))"
  proof -
    have "kr_contains (kr_prefix ?p) ?p" by simp
    then show ?thesis by (cases "kr_start (kr_prefix ?p)"; cases "kr_end (kr_prefix ?p)") (auto simp: kr_contains_def)
  qed
  let ?items = "map (scan_item False) ?xs"
  have "locker_names V s = Inr (map (\<lambda>p. ?name (fst p)) ?items)"
    unfolding locker_names_def V
    by (subst page_loop_live [OF ready])
      (use np key names_visited [of ?items "[]"] in \<open>auto simp: scan_item_def split: prod.splits\<close>)
  also have "map (\<lambda>p. ?name (fst p)) ?items = map (\<lambda>p. ?name (fst p)) ?xs"
    by (simp add: scan_item_def case_prod_unfold comp_def)
  also have "\<dots> = bt_keys (sv_lockers v)"
  proof (rule strict_sorted_equal)
    have "sorted_wrt (\<lambda>p q. ?name (fst p) < ?name (fst q)) ?xs"
    proof (rule sorted_wrt_mono_rel)
      show "sorted_wrt (\<lambda>p q. fst p < fst q) ?xs"
        using tree_range_sorted [of "tb_meta ?t" "kr_prefix ?p"] by (simp add: scan_order_def sorted_wrt_map)
      show "?name (fst p) < ?name (fst q)" if "p \<in> set ?xs" "q \<in> set ?xs" "fst p < fst q" for p q
        using key [OF that(1)] key [OF that(2)] that(3) as_string_less by (auto simp: less_behind_prefix)
    qed
    then show "sorted_wrt (<) (map (\<lambda>p. ?name (fst p)) ?xs)" by (simp add: sorted_wrt_map)
    show "sorted_wrt (<) (bt_keys (sv_lockers v))" by simp
    show "set (map (\<lambda>p. ?name (fst p)) ?xs) = set (bt_keys (sv_lockers v))"
    proof (intro set_eqI iffI)
      fix name
      assume "name \<in> set (map (\<lambda>p. ?name (fst p)) ?xs)"
      then obtain q where q: "q \<in> set ?xs" "name = ?name (fst q)" by auto
      obtain k where "fst q = ?p @ k" using key [OF q(1)] by blast
      then have "fst q = locker_key name" using q(2) by (simp add: locker_key_def)
      moreover have "bt_lookup (tb_meta ?t) (fst q) = Some (snd q)"
        using q(1) by (auto simp: set_scan_order bt_mem_entries_iff [symmetric])
      ultimately show "name \<in> set (bt_keys (sv_lockers v))" using reg by simp
    next
      fix name
      assume "name \<in> set (bt_keys (sv_lockers v))"
      then obtain raw where "bt_lookup (tb_meta ?t) (locker_key name) = Some raw" using reg by auto
      then have "(locker_key name, raw) \<in> set ?xs" by (simp add: set_scan_order bt_mem_entries_iff locker_key_def)
      moreover have "?name (locker_key name) = name" by (simp add: locker_key_def)
      ultimately show "name \<in> set (map (\<lambda>p. ?name (fst p)) ?xs)" by force
    qed
  qed
  finally show ?thesis .
qed

lemma locker_names_request:
  fixes V :: "('b, 'q) env" and ss :: "('b, 'q, 'v) session"
  assumes V: "ev_backend V = B" and rel: "agrees tabs ready V sd n ss v" and valid: "names_valid v"
  shows "\<exists>ss'. perform V sd again R_Locker_Names ss = (fst (expected persists R_Locker_Names v), ss')
    \<and> agrees tabs ready V sd n ss' (snd (expected persists R_Locker_Names v))"
proof -
  obtain s hs where ss: "ss = (s, hs)" by (cases ss)
  have "bank_rel tabs ready sd n s (sv_lockers v)" using rel by (simp add: ss agrees_def)
  from names_live [OF V this valid] show ?thesis using rel by (simp add: ss reply_def)
qed

end

section \<open>Deleting a locker\<close>

lemma config_default_prompt [simp]: "prompt_config config_default"
  by (simp add: prompt_config_def config_default_def is_eventual_def)

lemma maintenance_ctx_locker: "maintenance_ctx V i name ch = locker_ctx V ch i name config_default"
  by (simp add: maintenance_ctx_def)

lemma forget_meta:
  assumes "t' = apply_ops t [Op_Delete Meta (locker_key name), Op_Delete Meta (schema_key i)]"
  shows "meta_step t t'"
    "bt_lookup (tb_meta t') k = (if k = schema_key i \<or> k = locker_key name then None else bt_lookup (tb_meta t) k)"
    "registry t' = (registry t)(name := None)" "next_locker t' = next_locker t" "versioned t' = versioned t"
proof -
  show "meta_step t t'" unfolding assms by (rule meta_step_ops) auto
  show m: "bt_lookup (tb_meta t') k = (if k = schema_key i \<or> k = locker_key name then None else bt_lookup (tb_meta t) k)" for k
    by (simp add: assms apply_op.simps)
  show "registry t' = (registry t)(name := None)" "next_locker t' = next_locker t" "versioned t' = versioned t"
    by (simp_all add: registry_def next_locker_def versioned_def m fun_eq_iff)
qed

text \<open>What is left of the stored shelves when one is taken out.\<close>

lemma stores_without:
  assumes A: "stores sd ch t A" and i: "registry t name = Some i" and w: "undisturbed i t t1" "registry t1 = registry t" "next_locker t1 = next_locker t"
    and others: "\<forall>ch l k. l \<noteq> i \<longrightarrow> payload_view ch l t1 k = payload_view ch l t k"
    and t': "t' = apply_ops t1 [Op_Delete Meta (locker_key name), Op_Delete Meta (schema_key i)]" and ok: "registry_ok t'"
  shows "stores sd ch t' (bt_remove name A)"
proof -
  note A' = A [unfolded stores_def] and m = forget_meta [OF t'] and u = meta_undisturbed [OF w(1)]
  show ?thesis
    unfolding stores_def
  proof (intro conjI allI impI)
    show "registry_ok t'" by (rule ok)
    show "bt_lookup (bt_remove name A) x = None \<longleftrightarrow> registry t' x = None" for x using A' by (simp add: m(3) w(2))
    show "bt_lookup (tb_meta t') (schema_key l) = None" "bt_lookup (tb_meta t') (chain_key l) = None" if "next_locker t' \<le> l" for l
      using A' that by (simp_all add: m(2,4) u w(3))
    fix x j ty mm
    assume x: "registry t' x = Some j" "bt_lookup (bt_remove name A) x = Some (ty, mm)"
    then have old: "registry t x = Some j" "bt_lookup A x = Some (ty, mm)" "x \<noteq> name" by (auto simp: m(3) w(2) split: if_splits)
    then have j: "j \<noteq> i" using i A' by (auto simp: registry_ok_def)
    have "shows_map ch j t' m0 = shows_map ch j t m0" for m0
      using j others by (simp add: shows_map_def fun_eq_iff meta_step_views [OF m(1)])
    then show "all_fit sd mm" "shows_map ch j t' (payloads sd mm)" "utf8_valid (as_bytes ty)"
      "bt_lookup (tb_meta t') (schema_key j) = Some (as_bytes ty)" "bt_lookup (tb_meta t') (chain_key j) = Some [ch_id ch]"
      using A' old(1,2) j by (auto simp: m(2) u)
  qed
qed

context live_backend
begin

lemma chain_known:
  fixes V :: "('b, 'q) env" and s :: "('b, 'q, 'v) bank"
  assumes V: "ev_backend V = B" and "ready (sh_store s)" "bt_lookup (tb_meta (tabs (sh_store s))) (chain_key i) = Some [ch_id (bn_chain s)]"
  shows "locker_chain_or_bank V s i = Inr (bn_chain s)"
  using assms by (simp add: locker_chain_or_bank_def locker_chain_def stored_chain_id_def get_live chain_byte_def)

lemma delete_stored:
  fixes V :: "('b, 'q) env" and s :: "('b, 'q, 'v) bank"
  assumes V: "ev_backend V = B" and b: "bank_rel tabs ready sd n s A" and shelf: "bt_lookup A name = Some (ty, m)"
    and closed: "\<not> bt_contains (bn_open (prune s)) name" and i: "registry (tabs (sh_store s)) name = Some i"
  obtains r b' t1 where "delete_locker V name s = (Inr True, (prune s)\<lparr>sh_store := b', bn_registry := bt_remove name r, bn_open := bt_remove name (bn_open (prune s))\<rparr>)"
    "ready b'" "tabs b' = apply_ops t1 [Op_Delete Meta (locker_key name), Op_Delete Meta (schema_key i)]"
    "tables_ok n (sh_values s) t1" "undisturbed i (tabs (sh_store s)) t1" "registry t1 = registry (tabs (sh_store s))"
    "next_locker t1 = next_locker (tabs (sh_store s))"
    "\<forall>ch l k. l \<noteq> i \<longrightarrow> payload_view ch l t1 k = payload_view ch l (tabs (sh_store s)) k"
proof -
  let ?p = "prune s" and ?X = "locker_ctx V (bn_chain s) i name config_default" and ?t = "tabs (sh_store s)"
  have f: "sh_store ?p = sh_store s" "bn_chain ?p = bn_chain s" by (simp_all add: prune_def)
  have ok: "ready (sh_store s)" "bank_ok tabs s" "stores sd (bn_chain s) ?t A" using b by (simp_all add: bank_rel_def)
  have bp: "bank_rel tabs ready sd n ?p A" using b by (simp add: bank_rel_def bank_ok_def cached_def prune_def)
  have chain: "bt_lookup (tb_meta ?t) (chain_key i) = Some [ch_id (bn_chain s)]" using ok(3) i shelf by (simp add: stores_def)
  have regok: "registry_ok ?t" using ok(3) by (simp add: stores_def)
  have ip: "registry (tabs (sh_store ?p)) name = Some i" using i f by simp
  obtain r where r: "locker_id_of V name ?p = (Inr i, ?p\<lparr>bn_registry := r\<rparr>)"
    by (rule locker_id_live [OF V _ _ ip]) (use bp in \<open>simp_all add: bank_rel_def\<close>)
  obtain st :: "('b, 'q) resident" where st: "prompt ?X n st (payloads sd m)" "shared.truncate st = shared.truncate s"
    by (rule prompt_opened [OF V b i shelf config_default_prompt])
  have eqs: "sh_store st = sh_store s" "sh_values st = sh_values s" using st(2) by (simp_all add: shared.defs)
  obtain u ops where u: "gives ?X st n u Map.empty" "clear_value_ops ?X (sh_store st) = Inr ops"
    "tabs (sh_store u) = apply_ops (tabs (sh_store st)) ops" "sh_values u = sh_values st"
    using clear_total_ops [OF st(1)] by blast
  let ?t1 = "tabs (sh_store u)"
  have w: "writes_within tabs ?X (sh_store s) (sh_store u)" and pu: "prompt ?X n u Map.empty"
    and others: "\<forall>ch l k. l \<noteq> i \<longrightarrow> payload_view ch l ?t1 k = payload_view ch l ?t k"
    using u(1) eqs by (simp_all add: gives_def)
  have e: "undisturbed i ?t ?t1" "registry ?t1 = registry ?t" "next_locker ?t1 = next_locker ?t"
    using writes_within_effect(1-3) [OF w] by simp_all
  let ?s1 = "?p\<lparr>bn_registry := r\<rparr>" and ?dels = "[Op_Delete Meta (locker_key name), Op_Delete Meta (schema_key i)]"
  have "ready (sh_store ?s1)" using ok(1) f by simp
  then obtain b' where b': "on_store (bk_commit (ev_backend V) (ops @ ?dels)) ?s1 = (Inr (), ?s1\<lparr>sh_store := b'\<rparr>)" "ready b'"
    "tabs b' = apply_ops (tabs (sh_store ?s1)) (ops @ ?dels)"
    by (rule on_store_live [OF _ V])
  have ex: "locker_exists V ?p name = Inr True" using exists_live [OF V bp, of name] shelf by (simp add: bt_contains_def)
  have cb: "locker_chain_or_bank V ?s1 i = Inr (bn_chain s)"
    using chain_known [OF V, of ?s1 i] ok(1) chain f by simp
  have cl: "clear_value_ops (maintenance_ctx V i name (bn_chain s)) (sh_store ?s1) = Inr ops" using u(2) eqs f by (simp add: maintenance_ctx_locker)
  have "delete_locker V name s = (Inr True, ?p\<lparr>sh_store := b', bn_registry := bt_remove name r, bn_open := bt_remove name (bn_open ?p)\<rparr>)"
    using closed ex r cb cl b'(1) by (simp add: delete_locker_def is_locker_open_def Let_def sbind_def)
  moreover have "tabs b' = apply_ops ?t1 ?dels" using b'(3) u(3) eqs f by simp
  moreover have "tables_ok n (sh_values s) ?t1" using promptD(8) [OF pu] u(4) eqs by simp
  ultimately show thesis by (intro that [of r b' ?t1]) (use b'(2) e others in simp_all)
qed

lemma delete_locker_request:
  fixes V :: "('b, 'q) env" and ss :: "('b, 'q, 'v) session"
  assumes V: "ev_backend V = B" and rel: "agrees tabs ready V sd n ss v"
  shows "\<exists>ss'. perform V sd again (R_Delete_Locker name) ss = (fst (expected persists (R_Delete_Locker name) v), ss')
    \<and> agrees tabs ready V sd n ss' (snd (expected persists (R_Delete_Locker name) v))"
proof -
  obtain s hs where ss: "ss = (s, hs)" by (cases ss)
  let ?p = "prune s"
  note rel0 = rel [unfolded ss]
  have rel': "agrees tabs ready V sd n (?p, hs) v" by (rule agrees_pruned [OF rel0])
  have b: "bank_rel tabs ready sd n s (sv_lockers v)" and bp: "bank_rel tabs ready sd n ?p (sv_lockers v)"
    using rel0 rel' by (simp_all add: agrees_def)
  note op = open_contains [OF V rel0, of name]
  show ?thesis
  proof (cases "bt_contains (sv_open v) name")
    case True
    then show ?thesis using op rel' by (simp add: ss delete_locker_def is_locker_open_def Let_def reply_def)
  next
    case closed: False
    show ?thesis
    proof (cases "bt_lookup (sv_lockers v) name")
      case None
      then have "bt_remove name (sv_lockers v) = sv_lockers v" by (intro btree_eqI) auto
      then show ?thesis using None closed op rel' exists_live [OF V bp, of name]
        by (simp add: ss delete_locker_def is_locker_open_def Let_def sbind_def reply_def bt_contains_def)
    next
      case (Some q)
      obtain ty m where q: "q = (ty, m)" by (cases q)
      let ?t = "tabs (sh_store s)" and ?A = "bt_remove name (sv_lockers v)"
      have A: "stores sd (bn_chain s) ?t (sv_lockers v)" using b by (simp add: bank_rel_def)
      obtain i where i: "registry ?t name = Some i" using A Some by (metis not_None_eq stores_def)
      obtain r b' t1 where run: "delete_locker V name s = (Inr True, ?p\<lparr>sh_store := b', bn_registry := bt_remove name r, bn_open := bt_remove name (bn_open ?p)\<rparr>)"
        and d: "ready b'" "tabs b' = apply_ops t1 [Op_Delete Meta (locker_key name), Op_Delete Meta (schema_key i)]"
        "tables_ok n (sh_values s) t1" "undisturbed i ?t t1" "registry t1 = registry ?t" "next_locker t1 = next_locker ?t"
        "\<forall>ch l k. l \<noteq> i \<longrightarrow> payload_view ch l t1 k = payload_view ch l ?t k"
        by (rule delete_stored [OF V b Some [unfolded q] _ i]) (use closed op in simp)
      let ?s' = "?p\<lparr>sh_store := b', bn_registry := bt_remove name r, bn_open := bt_remove name (bn_open ?p)\<rparr>"
      have f: "sh_store ?s' = b'" "sh_values ?s' = sh_values s" "bn_chain ?s' = bn_chain s" "bn_closed ?s' = bn_closed s"
        "bn_cells ?s' = bn_cells s" by (simp_all add: prune_def)
      note fm = forget_meta [OF d(2)]
      have "bank_ok tabs s" using b by (simp add: bank_rel_def)
      from orderlyD [OF delete_locker_orderly [OF V] this _ run] have ok': "bank_ok tabs ?s'" by (simp add: evolves_def)
      then have regok: "registry_ok (tabs b')" by (simp add: bank_ok_def)
      have tok: "tables_ok n (sh_values s) (tabs b')" by (rule meta_step_views(4) [OF fm(1) d(3)])
      have "bank_rel tabs ready sd n ?s' ?A"
        using b ok' d(1) tok stores_without [OF A i d(4,5,6,7,2) regok] fm(4,5) d(6) meta_undisturbed(3) [OF d(4)]
        by (simp add: bank_rel_def f)
      moreover have "cells_ok V sd (tabs b') ?s' hs (v\<lparr>sv_lockers := ?A\<rparr>)"
        unfolding cells_ok_names
      proof
        fix x
        have nx: "name_ok V sd ?t ?p hs v x" using rel' by (simp add: agrees_def cells_ok_names prune_def)
        have live: "is_live ?s' ol = is_live ?p ol" for ol by (rule is_live_cells) simp
        show "name_ok V sd (tabs b') ?s' hs (v\<lparr>sv_lockers := ?A\<rparr>) x"
        proof (cases "x = name")
          case True
          then show ?thesis using nx closed by (simp add: name_ok_def bt_contains_def split: option.splits)
        next
          case False
          have ne: "j \<noteq> i" if "registry ?t x = Some j" for j using that i A False by (auto simp: stores_def registry_ok_def)
          show ?thesis
          proof (rule name_ok_frame [OF nx])
            fix cfg j st m
            assume cfg: "prompt_config cfg" "registry ?t x = Some j" and iss: "locker_is (locker_ctx V (bn_chain ?p) j x cfg) ?t (synced ?p st) m"
            have pX: "prompt_ctx (locker_ctx V (bn_chain ?p) j x cfg)" using bp cfg by (simp add: bank_rel_def locker_ctx_prompt)
            have "locker_is (locker_ctx V (bn_chain ?p) j x cfg) t1 (synced ?p st) m"
            proof (rule other_locker_is [OF iss pX])
              show "vals_ok (sh_values (synced ?p st)) t1" using d(3) by (simp add: tables_ok_def prune_def)
            qed (use d(4,7) ne [OF cfg(2)] in \<open>simp_all add: undisturbed_def\<close>)
            then show "locker_is (locker_ctx V (bn_chain ?p) j x cfg) (tabs b') (synced ?s' st) m"
              by (rule locker_is_meta [OF _ pX fm(1), where n = n]) (use tok in \<open>simp_all add: prune_def\<close>)
          qed (use False fm(3) d(5) live in \<open>simp_all add: prune_def\<close>)
        qed
      qed
      ultimately have "agrees tabs ready V sd n (?s', hs) (v\<lparr>sv_lockers := ?A\<rparr>)" by (simp add: agrees_def f)
      then show ?thesis using run closed Some by (simp add: ss reply_def bt_contains_def)
    qed
  qed
qed

end

end
