(* ===== verification/Session_Runs.thy ===== *)
theory Session_Runs
  imports Session_Deletes
begin

text \<open>
  A whole session: every list of requests on a bank over a live backend gets the answers that the shelves
  give. The step from one request to a list is that of any simulation with answers, stated as a locale.
\<close>

section \<open>Answers of a run\<close>

fun answers :: "('r \<Rightarrow> 's \<Rightarrow> 'o \<times> 's) \<Rightarrow> 'r list \<Rightarrow> 's \<Rightarrow> 'o list" where
  "answers step [] s = []"
| "answers step (r # rs) s = (case step r s of (out, s') \<Rightarrow> out # answers step rs s')"

locale answering =
  fixes step :: "'r \<Rightarrow> 's \<Rightarrow> 'o \<times> 's" and spec :: "'r \<Rightarrow> 'a \<Rightarrow> 'o \<times> 'a" and match :: "nat \<Rightarrow> 's \<Rightarrow> 'a \<Rightarrow> bool"
    and price :: "'r \<Rightarrow> nat" and good :: "'r \<Rightarrow> bool"
  assumes one: "match (price r + n) s a \<Longrightarrow> good r \<Longrightarrow> \<exists>s'. step r s = (fst (spec r a), s') \<and> match n s' (snd (spec r a))"
begin

lemma run_answers:
  assumes "match (sum_list (map price rs) + n) s a" "list_all good rs"
  shows "answers step rs s = answers spec rs a"
  using assms
proof (induction rs arbitrary: s a)
  case (Cons r rs)
  have "match (price r + (sum_list (map price rs) + n)) s a" "good r" using Cons.prems by (simp_all add: add.assoc)
  from one [OF this] obtain s' where "step r s = (fst (spec r a), s')" "match (sum_list (map price rs) + n) s' (snd (spec r a))" by blast
  with Cons.IH [of s' "snd (spec r a)"] Cons.prems show ?case by (simp add: case_prod_unfold)
qed simp

end

section \<open>Opening a bank again\<close>

text \<open>
  What \<open>again\<close> says of a bank that is opened once more over what its backend holds: nothing is lost where the
  backend persists, and nothing is left where it does not.
\<close>

locale live_bank = live_backend "ev_backend V" tabs ready
  for V :: "('b, 'q) env" and tabs :: "'b \<Rightarrow> tables" and ready :: "'b \<Rightarrow> bool" +
  fixes again :: "'b \<Rightarrow> 'b result" and persists :: bool and sd :: "'v serde"
  assumes again_ready: "ready b \<Longrightarrow> \<exists>b'. again b = Inr b' \<and> ready b' \<and> tabs b' = (if persists then tabs b else tables_default)"

lemma stores_default: "stores sd ch tables_default bt_empty"
  by (simp add: stores_def registry_ok_def registry_def next_locker_def tables_default_def well_typed_default [unfolded tables_default_def])

lemma tables_ok_default: "n < 2 ^ 32 \<Longrightarrow> tables_ok n None tables_default"
proof -
  assume n: "n < 2 ^ 32"
  have "points tables_default x i = False" for x i by (simp add: points_def tables_default_def)
  moreover have "stored_counter tables_default = 0" by (simp add: stored_counter_def tables_default_def)
  ultimately show ?thesis using n
    by (simp add: tables_ok_def vals_ok_def owned_def below_def no_orphans_def ids_left_def cursor_above_def) (simp add: tables_default_def)
qed

lemma tables_ok_fresh:
  assumes "tables_ok n nxt t"
  shows "tables_ok n None t"
proof (cases nxt)
  case (Some c)
  have "unat (stored_counter t) \<le> unat c"
    using assms Some by (simp add: tables_ok_def vals_ok_def cursor_above_def word_le_nat_alt)
  then show ?thesis using assms Some by (simp add: tables_ok_def vals_ok_def ids_left_def cursor_above_def)
qed (use assms in simp)

text \<open>The version, written where there is none.\<close>

lemma version_written:
  assumes t': "t' = apply_ops t [Op_Put Meta META_FORMAT_VERSION (be32 FORMAT_VERSION)]"
  shows "meta_step t t'" "versioned t'" "next_locker t' = next_locker t" "stores sd ch t A \<Longrightarrow> stores sd ch t' A"
proof -
  show m: "meta_step t t'" unfolding t' by (rule meta_step_ops) auto
  have look: "bt_lookup (tb_meta t') k = (if k = META_FORMAT_VERSION then Some (be32 FORMAT_VERSION) else bt_lookup (tb_meta t) k)" for k
    by (simp add: t' apply_op.simps)
  show "versioned t'" by (simp add: versioned_def look)
  show nxt: "next_locker t' = next_locker t" by (simp add: next_locker_def look)
  have reg: "registry t' = registry t" by (simp add: registry_def look fun_eq_iff)
  have "spares {} (Op_Put Meta META_FORMAT_VERSION (be32 FORMAT_VERSION))" by (simp add: spares_def)
  then have ok: "registry_ok t \<Longrightarrow> registry_ok t'"
    using spared(3) [of "[Op_Put Meta META_FORMAT_VERSION (be32 FORMAT_VERSION)]" "{}" t] unfolding t' by simp
  have keys: "schema_key i \<noteq> META_FORMAT_VERSION" "chain_key i \<noteq> META_FORMAT_VERSION" for i
    using meta_keys_inject(10,11) by metis+
  show "stores sd ch t' A" if "stores sd ch t A"
    using that ok by (simp add: stores_def nxt reg look keys shows_map_def meta_step_views [OF m])
qed

context live_backend
begin

lemma assembled_agrees:
  fixes V :: "('b, 'q) env"
  assumes V: "ev_backend V = B" and b: "ready b" "sealing ch" "tables_ok n None (tabs b)" "unat (next_locker (tabs b)) + n < 2 ^ 32"
    and A: "stores sd ch (tabs b) A" and version: "versioned (tabs b) \<or> bt_lookup (tb_meta (tabs b)) META_FORMAT_VERSION = None"
  obtains s :: "('b, 'q, 'v) bank" where "with_backend_and_chain V b ch = Inr s" "bn_chain s = ch"
    "agrees tabs ready V sd n (s, bt_empty) \<lparr>sv_lockers = A, sv_open = bt_empty\<rparr>"
proof -
  obtain b' where run: "check_or_write_format_version V b = (Inr (), b')" and r: "ready b'" and v: "versioned (tabs b')"
    and t: "tables_ok n None (tabs b')" "unat (next_locker (tabs b')) + n < 2 ^ 32" "stores sd ch (tabs b') A"
  proof (cases "bt_lookup (tb_meta (tabs b)) META_FORMAT_VERSION")
    case None
    obtain b' where b': "bk_commit B [Op_Put Meta META_FORMAT_VERSION (be32 FORMAT_VERSION)] b = (Inr (), b')" "ready b'"
      "tabs b' = apply_ops (tabs b) [Op_Put Meta META_FORMAT_VERSION (be32 FORMAT_VERSION)]"
      by (rule plain_commit_live [OF b(1)])
    note w = version_written [OF b'(3)]
    have "check_or_write_format_version V b = (Inr (), b')" using None V b'(1) get_live [OF b(1)] by (simp add: check_or_write_format_version_def)
    then show thesis using that b'(2) w(2,3) w(4) [OF A] meta_step_views(4) [OF w(1) b(3)] b(4) by simp
  next
    case (Some raw)
    then have "raw = be32 FORMAT_VERSION" using version by (simp add: versioned_def)
    then have "check_or_write_format_version V b = (Inr (), b)"
      using Some V get_live [OF b(1)] by (simp add: check_or_write_format_version_def u32_from_def)
    then show thesis using that b A version Some by simp
  qed
  let ?s = "bank_new b' ch coherence_disabled :: ('b, 'q, 'v) bank"
  have f: "sh_store ?s = b'" "sh_values ?s = None" "bn_chain ?s = ch" "\<not> bn_closed ?s" "bn_registry ?s = bt_empty" "bn_open ?s = bt_empty"
    by (simp_all add: bank_new_def)
  have "bank_rel tabs ready sd n ?s A"
    using b(2) r v t by (simp add: bank_rel_def bank_ok_def cached_def f stores_def)
  moreover have "cells_ok V sd (tabs b') ?s bt_empty \<lparr>sv_lockers = A, sv_open = bt_empty\<rparr>" by (simp add: cells_ok_def f)
  ultimately have "agrees tabs ready V sd n (?s, bt_empty) \<lparr>sv_lockers = A, sv_open = bt_empty\<rparr>" by (simp add: agrees_def f)
  moreover have "with_backend_and_chain V b ch = Inr ?s" using run by (simp add: with_backend_and_chain_def assembled_def)
  ultimately show thesis using that f(3) by blast
qed

end

context live_bank
begin

lemma fresh_agrees:
  assumes "ready b" "tabs b = tables_default" "sealing ch" "n < 2 ^ 32"
  obtains s :: "('b, 'q, 'v) bank" where "with_backend_and_chain V b ch = Inr s" "bn_chain s = ch"
    "agrees tabs ready V sd n (s, bt_empty) \<lparr>sv_lockers = bt_empty, sv_open = bt_empty\<rparr>"
proof -
  have t: "tables_ok n None (tabs b)" "unat (next_locker (tabs b)) + n < 2 ^ 32" "stores sd ch (tabs b) bt_empty"
    "versioned (tabs b) \<or> bt_lookup (tb_meta (tabs b)) META_FORMAT_VERSION = None"
    using assms(2,4) tables_ok_default [OF assms(4)] stores_default by (simp_all add: next_locker_def) (simp_all add: tables_default_def)
  show thesis by (rule assembled_agrees [OF refl assms(1,3) t]) (rule that)
qed

lemma reopen_request:
  fixes ss :: "('b, 'q, 'v) session"
  assumes rel: "agrees tabs ready V sd n ss v"
  shows "\<exists>ss'. perform V sd again R_Reopen ss = (fst (expected persists R_Reopen v), ss')
    \<and> agrees tabs ready V sd n ss' (snd (expected persists R_Reopen v))"
proof -
  obtain s hs where ss: "ss = (s, hs)" by (cases ss)
  have b: "ready (sh_store s)" "sealing (bn_chain s)" "tables_ok n (sh_values s) (tabs (sh_store s))"
    "unat (next_locker (tabs (sh_store s))) + n < 2 ^ 32" "versioned (tabs (sh_store s))" "stores sd (bn_chain s) (tabs (sh_store s)) (sv_lockers v)"
    using rel by (simp_all add: agrees_def bank_rel_def ss)
  obtain b' where b': "again (sh_store s) = Inr b'" "ready b'" "tabs b' = (if persists then tabs (sh_store s) else tables_default)"
    using again_ready [OF b(1)] by blast
  let ?A = "if persists then sv_lockers v else bt_empty"
  obtain s' :: "('b, 'q, 'v) bank" where "with_backend_and_chain V b' (bn_chain s) = Inr s'"
    "agrees tabs ready V sd n (s', bt_empty) \<lparr>sv_lockers = ?A, sv_open = bt_empty\<rparr>"
  proof (cases persists)
    case True
    then have p: "tables_ok n None (tabs b')" "unat (next_locker (tabs b')) + n < 2 ^ 32" "stores sd (bn_chain s) (tabs b') (sv_lockers v)" "versioned (tabs b')"
      using b b' tables_ok_fresh [OF b(3)] by simp_all
    obtain s' :: "('b, 'q, 'v) bank" where "with_backend_and_chain V b' (bn_chain s) = Inr s'"
      "agrees tabs ready V sd n (s', bt_empty) \<lparr>sv_lockers = sv_lockers v, sv_open = bt_empty\<rparr>"
      by (rule assembled_agrees [OF refl b'(2) b(2) p(1-3) disjI1 [OF p(4)]])
    then show thesis using True by (intro that) simp_all
  next
    case False
    have p: "n < 2 ^ 32" "tabs b' = tables_default" using b(4) b'(3) False by simp_all
    obtain s' :: "('b, 'q, 'v) bank" where "with_backend_and_chain V b' (bn_chain s) = Inr s'"
      "agrees tabs ready V sd n (s', bt_empty) \<lparr>sv_lockers = bt_empty, sv_open = bt_empty\<rparr>"
      by (rule fresh_agrees [OF b'(2) p(2) b(2) p(1)])
    then show thesis using False by (intro that) simp_all
  qed
  then show ?thesis using b'(1) by (auto simp: ss)
qed

lemma request_step:
  fixes ss :: "('b, 'q, 'v) session"
  assumes rel: "agrees tabs ready V sd (cost r + n) ss v" and valid: "names_valid v" and ok: "request_ok sd r"
  shows "\<exists>ss'. perform V sd again r ss = (fst (expected persists r v), ss') \<and> agrees tabs ready V sd n ss' (snd (expected persists r v))"
proof (cases r)
  case (R_Open name ty cfg)
  have "agrees tabs ready V sd (Suc n) ss v" using rel R_Open by simp
  from open_request [OF refl this] ok show ?thesis unfolding R_Open by simp
next
  case (R_Put name k x)
  then show ?thesis using put_request [OF refl, of sd n ss v x name k] rel ok by simp
next
  case (R_Delete name k)
  then show ?thesis using delete_request [OF refl, of sd n ss v name k] rel by simp
next
  case (R_Clear name)
  then show ?thesis using clear_request [OF refl, of sd n ss v name] rel by simp
next
  case (R_Put_All name es)
  then show ?thesis using put_all_request [OF refl, of sd es n ss v name] rel ok by simp
next
  case (R_Delete_All name ks)
  then show ?thesis using delete_all_request [OF refl, of sd ks n ss v name] rel by simp
next
  case (R_Transact name stmts)
  then show ?thesis using transact_request [OF refl, of sd stmts n ss v name] rel ok by simp
next
  case (R_Get name k)
  then show ?thesis using get_request [OF refl, of sd n ss v name k] rel by simp
next
  case (R_Get_Or name k x)
  then show ?thesis using get_or_request [OF refl, of sd n ss v name k x] rel by simp
next
  case (R_Contains name k)
  have "agrees tabs ready V sd n ss v" using rel R_Contains by simp
  then show ?thesis unfolding R_Contains perform.simps expected.simps by (rule index_request [OF refl]) (simp only: index_reads_shelf)
next
  case (R_Len name)
  have "agrees tabs ready V sd n ss v" using rel R_Len by simp
  then show ?thesis unfolding R_Len perform.simps expected.simps by (rule index_request [OF refl]) (simp only: index_reads_shelf)
next
  case (R_Keys_Bytes name)
  have "agrees tabs ready V sd n ss v" using rel R_Keys_Bytes by simp
  then show ?thesis unfolding R_Keys_Bytes perform.simps expected.simps by (rule index_request [OF refl]) (simp only: index_reads_shelf)
next
  case (R_Keys name)
  have "agrees tabs ready V sd n ss v" using rel R_Keys by simp
  then show ?thesis unfolding R_Keys perform.simps expected.simps by (rule index_request [OF refl]) (simp only: index_reads_shelf)
next
  case (R_Keys_With_Prefix name p)
  have "agrees tabs ready V sd n ss v" using rel R_Keys_With_Prefix by simp
  then show ?thesis unfolding R_Keys_With_Prefix perform.simps expected.simps by (rule index_request [OF refl]) (simp only: index_reads_shelf)
next
  case (R_Has_Non_Utf8 name)
  have "agrees tabs ready V sd n ss v" using rel R_Has_Non_Utf8 by simp
  then show ?thesis unfolding R_Has_Non_Utf8 perform.simps expected.simps by (rule index_request [OF refl]) (simp only: index_reads_shelf)
next
  case (R_Range name st en)
  then show ?thesis using range_request(1) [OF refl, of sd n ss v name st en] rel by simp
next
  case (R_Range_Rev name st en)
  then show ?thesis using range_request(2) [OF refl, of sd n ss v name st en] rel by simp
next
  case (R_Range_By name st en)
  then show ?thesis using unfiltered_request(1) [OF refl, of sd n ss v name st en] rel by simp
next
  case (R_Range_Rev_By name st en)
  then show ?thesis using unfiltered_request(2) [OF refl, of sd n ss v name st en] rel by simp
next
  case (R_Latest name i)
  then show ?thesis using latest_request [OF refl, of sd n ss v name i] rel by simp
next
  case (R_To_Map name)
  then show ?thesis using to_map_request [OF refl, of sd n ss v name] rel by simp
next
  case (R_Close name)
  have "agrees tabs ready V sd n ss v" using rel R_Close by simp
  from close_request [OF refl this] show ?thesis unfolding R_Close .
next
  case (R_Drop name)
  have "agrees tabs ready V sd n ss v" using rel R_Drop by simp
  from drop_request [OF refl this] show ?thesis unfolding R_Drop .
next
  case (R_Exists name)
  have "agrees tabs ready V sd n ss v" using rel R_Exists by simp
  from exists_request [OF refl this] show ?thesis unfolding R_Exists .
next
  case (R_Is_Open name)
  have "agrees tabs ready V sd n ss v" using rel R_Is_Open by simp
  from is_open_request [OF refl this] show ?thesis unfolding R_Is_Open .
next
  case R_Open_Names
  have "agrees tabs ready V sd n ss v" using rel R_Open_Names by simp
  from open_names_request [OF refl this] show ?thesis unfolding R_Open_Names .
next
  case R_Locker_Names
  have "agrees tabs ready V sd n ss v" using rel R_Locker_Names by simp
  from locker_names_request [OF refl this valid] show ?thesis unfolding R_Locker_Names .
next
  case (R_Delete_Locker name)
  have "agrees tabs ready V sd n ss v" using rel R_Delete_Locker by simp
  from delete_locker_request [OF refl this] show ?thesis unfolding R_Delete_Locker .
next
  case R_Reopen
  have "agrees tabs ready V sd n ss v" using rel R_Reopen by simp
  from reopen_request [OF this] show ?thesis unfolding R_Reopen .
qed

end

sublocale live_bank \<subseteq> session: answering "perform V sd again" "expected persists" "\<lambda>n ss v. agrees tabs ready V sd n ss v \<and> names_valid v" cost "request_ok sd"
  by unfold_locales (meson request_step names_valid_step)

context live_bank
begin

lemma session_answers:
  assumes "ready b" "tabs b = tables_default" "sealing ch" "list_all (request_ok sd) rs" "sum_list (map cost rs) < 2 ^ 32"
  shows "\<exists>s. with_backend_and_chain V b ch = Inr s
    \<and> answers (perform V sd again) rs (s, bt_empty) = answers (expected persists) rs \<lparr>sv_lockers = bt_empty, sv_open = bt_empty\<rparr>"
proof -
  obtain s :: "('b, 'q, 'v) bank" where s: "with_backend_and_chain V b ch = Inr s"
    "agrees tabs ready V sd (sum_list (map cost rs)) (s, bt_empty) \<lparr>sv_lockers = bt_empty, sv_open = bt_empty\<rparr>"
    by (rule fresh_agrees [OF assms(1-3,5)])
  from session.run_answers [of rs 0, OF _ assms(4)] s(2) s(1) show ?thesis by auto
qed

end

section \<open>The memory backend\<close>

text \<open>\<open>MemoryHarness::open\<close>: every open is a new store. And a bank opened again over the store of the last one.\<close>

text \<open>A \<open>String\<close> as it is, for the witnesses.\<close>

definition plain_text :: "string serde" where
  "plain_text = \<lparr>sd_to_vec = (\<lambda>s. Inr (as_bytes s)), sd_from_bytes = (\<lambda>bs. Inr (as_string bs)), sd_type_name = ''alloc::string::String''\<rparr>"

interpretation forgetting: live_bank sample_env mb_tables "\<lambda>m. \<not> mb_closed m" "\<lambda>_. Inr memory_new" False plain_text
  by (intro live_bank.intro live_bank_axioms.intro) (simp_all add: sample_env_def mem.live_backend_axioms memory_new_def)

interpretation remembering: live_bank sample_env mb_tables "\<lambda>m. \<not> mb_closed m" Inr True plain_text
  by (intro live_bank.intro live_bank_axioms.intro) (simp_all add: sample_env_def mem.live_backend_axioms)

section \<open>Sessions and shelves\<close>

lemma sealing_raw [simp]: "sealing chain_raw"
  by (simp add: sealing_def sound_chain_def seal_def chain_raw_def chain_new_def)

lemma plain_text_fits: "length x \<le> MAX_DECODED_BYTES \<Longrightarrow> fits plain_text x"
  unfolding fits_def plain_text_def
  by (intro exI [of _ "as_bytes x"]) (simp, simp add: as_bytes_def)

text \<open>
  C1: On any backend that keeps the backend contract and is live, a bank opened over an empty store answers
  every list of requests - opens, writes, bulk writes, transactions, reads, listings, closes, dropped
  handles, deletions of lockers and reopenings of the bank - exactly as shelves do, a map from names to maps from
  keys to values: with every answer and every error the same.
\<close>

theorem sessions_answer_as_shelves:
  fixes sd :: "'v serde" and V :: "('b, 'q) env"
  assumes "live_bank V tabs ready again persists" "ready b" "tabs b = tables_default" "sealing ch"
    and "list_all (request_ok sd) rs" "sum_list (map cost rs) < 2 ^ 32"
  shows "\<exists>s. with_backend_and_chain V b ch = Inr s
    \<and> answers (perform V sd again) rs (s, bt_empty) = answers (expected persists) rs \<lparr>sv_lockers = bt_empty, sv_open = bt_empty\<rparr>"
  by (rule live_bank.session_answers [OF assms])

definition sample_requests :: "string request list" where
  "sample_requests = [R_Open ''a'' ''String'' config_default, R_Put ''a'' [1] ''x'', R_Reopen, R_Open ''a'' ''String'' config_default, R_Get ''a'' [1]]"

theorem sessions_answer_as_shelves_witness:
  "\<exists>s. with_backend_and_chain sample_env memory_new chain_raw = Inr s
    \<and> answers (perform sample_env plain_text Inr) sample_requests (s, bt_empty) = [A_Done, A_Done, A_Done, A_Done, A_Value (Some ''x'')]"
proof -
  have "answers (expected True) sample_requests \<lparr>sv_lockers = bt_empty, sv_open = bt_empty\<rparr> = [A_Done, A_Done, A_Done, A_Done, A_Value (Some ''x'')]"
    by (simp add: sample_requests_def on_shelf_def)
  moreover have "list_all (request_ok plain_text) sample_requests" "sum_list (map cost sample_requests) < 2 ^ 32"
    using plain_text_fits [of "''x''"]
    by (simp_all add: sample_requests_def MAX_DECODED_BYTES_def config_default_def prompt_config_def is_eventual_def as_bytes_def utf8_valid.simps)
  ultimately show ?thesis
    using sessions_answer_as_shelves [OF remembering.live_bank_axioms, of memory_new chain_raw plain_text sample_requests]
    by (simp add: memory_new_def)
qed

end
