(* ===== verification/Conformance.thy ===== *)
theory Conformance
  imports Session_Runs Fault
begin

text \<open>
  The conformance suite of the repository, \<open>src/crossbank-conformance/src/cases.rs\<close>: the cases on lazy
  lockers whose every step is a request of a session. A case is the list of the calls its body makes, each
  with what the body demands of the outcome: \<open>?\<close> that it succeeds, \<open>assert_eq!\<close> an answer, \<open>matches!\<close> an
  error. A locker variable of the body is the name it was opened under. The case passes when every answer
  is as demanded.
\<close>

section \<open>Scripts\<close>

text \<open>\<open>Caps\<close>.\<close>

record caps =
  persists_across_open :: bool
  reports_usage :: bool

text \<open>What a harness that says nothing declares.\<close>

definition caps_default :: caps where
  "caps_default = \<lparr>persists_across_open = True, reports_usage = False\<rparr>"

text \<open>
  \<open>Harness\<close>: its capabilities, \<open>open\<close>, given the store that the last backend it opened has left, if any, and
  what \<open>destroy\<close> answers. Every harness opens with faults by its own \<open>open\<close>.
\<close>

record 'b harness =
  hn_caps :: caps
  hn_open :: "'b option \<Rightarrow> 'b result"
  hn_destroy :: "unit result"

definition open_with_fault :: "'b harness \<Rightarrow> 'b option \<Rightarrow> 'b fault result" where
  "open_with_fault H left = rbind (hn_open H left) (\<lambda>b. Inr (fault_new b))"

definition memory_harness :: "memory_backend harness" where
  "memory_harness =
     \<lparr>hn_caps = \<lparr>persists_across_open = False, reports_usage = True\<rparr>, hn_open = (\<lambda>_. Inr memory_new),
      hn_destroy = Inr ()\<rparr>"

type_synonym 'v script_line = "'v request \<times> ('v answer \<Rightarrow> bool)"

definition passes :: "('v request \<Rightarrow> 's \<Rightarrow> 'v answer \<times> 's) \<Rightarrow> 'v script_line list \<Rightarrow> 's \<Rightarrow> bool" where
  "passes step lines s \<longleftrightarrow> list_all2 (\<lambda>(r, want) out. want out) lines (answers step (map fst lines) s)"

lemma passes_simps [simp]:
  "passes step [] s" "passes step ((r, want) # lines) s \<longleftrightarrow> want (fst (step r s)) \<and> passes step lines (snd (step r s))"
  by (simp_all add: passes_def case_prod_unfold)

lemma passes_same: "answers step (map fst lines) s = answers step' (map fst lines) s' \<Longrightarrow> passes step lines s = passes step' lines s'"
  by (simp add: passes_def)

text \<open>What the emitted test does: the case on a bank over what the harness opens, and then \<open>destroy\<close>.\<close>

definition runs_case :: "('b, 'q) env \<Rightarrow> filter_chain \<Rightarrow> 'v serde \<Rightarrow> 'b harness \<Rightarrow> (caps \<Rightarrow> 'v script_line list) \<Rightarrow> bool" where
  "runs_case V ch sd H script \<longleftrightarrow>
     (case rbind (hn_open H None) (\<lambda>b. with_backend_and_chain V b ch) of
        Inl e \<Rightarrow> False
      | Inr s \<Rightarrow> passes (perform V sd (\<lambda>b. hn_open H (Some b))) (script (hn_caps H)) (s, bt_empty) \<and> hn_destroy H = Inr ())"

definition is_done :: "'v request \<Rightarrow> 'v script_line" where
  "is_done r = (r, \<lambda>a. a = A_Done)"

definition answered :: "'v request \<Rightarrow> 'v answer \<Rightarrow> 'v script_line" where
  "answered r a = (r, \<lambda>x. x = a)"

definition is_refused :: "'v request \<Rightarrow> (error \<Rightarrow> bool) \<Rightarrow> 'v script_line" where
  "is_refused r P = (r, \<lambda>x. case x of A_Failed e \<Rightarrow> P e | _ \<Rightarrow> False)"

lemmas script_defs = is_done_def answered_def is_refused_def

fun is_schema_mismatch :: "error \<Rightarrow> bool" where
  "is_schema_mismatch (SchemaMismatch a b) = True"
| "is_schema_mismatch e = False"

fun is_invalid_config :: "error \<Rightarrow> bool" where
  "is_invalid_config (InvalidConfig t) = True"
| "is_invalid_config e = False"

text \<open>\<open>type V = String\<close>, and opening a lazy locker of it with the default configuration.\<close>

definition V_NAME :: string where
  "V_NAME = ''alloc::string::String''"

definition lazy_locker :: "string \<Rightarrow> string script_line" where
  "lazy_locker name = is_done (R_Open name V_NAME config_default)"

definition put :: "string \<Rightarrow> string \<Rightarrow> string \<Rightarrow> string script_line" where
  "put name k x = is_done (R_Put name (as_bytes k) x)"

definition reads :: "string \<Rightarrow> string \<Rightarrow> string option \<Rightarrow> string script_line" where
  "reads name k x = answered (R_Get name (as_bytes k)) (A_Value x)"

definition contains :: "string \<Rightarrow> string \<Rightarrow> bool \<Rightarrow> string script_line" where
  "contains name k b = answered (R_Contains name (as_bytes k)) (A_Flag b)"

text \<open>The keys of a listing, in order.\<close>

definition lists_keys :: "string request \<Rightarrow> string list \<Rightarrow> string script_line" where
  "lists_keys r ks = (r, \<lambda>a. case a of A_Entries es \<Rightarrow> map fst es = map as_bytes ks | _ \<Rightarrow> False)"

definition tiny_chunks :: locker_config where
  "tiny_chunks = with_chunk_size 32 config_default"

definition tiny_locker :: "string \<Rightarrow> string script_line" where
  "tiny_locker name = is_done (R_Open name V_NAME tiny_chunks)"

text \<open>\<open>str::repeat\<close> of one letter.\<close>

definition repeated :: "char \<Rightarrow> nat \<Rightarrow> string" where
  "repeated c n = replicate n c"

section \<open>Cases\<close>

definition put_get_roundtrip :: "caps \<Rightarrow> string script_line list" where
  "put_get_roundtrip h =
     [lazy_locker ''l'', put ''l'' ''k'' ''value'', reads ''l'' ''k'' (Some ''value'')]"

definition missing_key_is_none :: "caps \<Rightarrow> string script_line list" where
  "missing_key_is_none h =
     [lazy_locker ''l'', reads ''l'' ''absent'' None, contains ''l'' ''absent'' False]"

definition empty_value_is_not_a_missing_key :: "caps \<Rightarrow> string script_line list" where
  "empty_value_is_not_a_missing_key h =
     [lazy_locker ''l'', put ''l'' ''empty'' [], reads ''l'' ''empty'' (Some []),
      reads ''l'' ''never_written'' None, contains ''l'' ''empty'' True]"

definition overwrite_replaces_value :: "caps \<Rightarrow> string script_line list" where
  "overwrite_replaces_value h =
     [lazy_locker ''l'', put ''l'' ''k'' ''first'', put ''l'' ''k'' ''second'',
      reads ''l'' ''k'' (Some ''second''), answered (R_Len ''l'') (A_Count 1)]"

definition delete_is_idempotent :: "caps \<Rightarrow> string script_line list" where
  "delete_is_idempotent h =
     [lazy_locker ''l'', put ''l'' ''k'' ''value'', is_done (R_Delete ''l'' (as_bytes ''k'')),
      is_done (R_Delete ''l'' (as_bytes ''k'')), is_done (R_Delete ''l'' (as_bytes ''never_existed'')), reads ''l'' ''k'' None]"

definition clear_empties_only_its_own_locker :: "caps \<Rightarrow> string script_line list" where
  "clear_empties_only_its_own_locker h =
     [lazy_locker ''one'', lazy_locker ''two'', put ''one'' ''k'' ''from one'',
      put ''two'' ''k'' ''from two'', is_done (R_Clear ''one''), reads ''one'' ''k'' None, reads ''two'' ''k'' (Some ''from two'')]"

definition keys_are_ordered_by_utf8_bytes :: "caps \<Rightarrow> string script_line list" where
  "keys_are_ordered_by_utf8_bytes h =
     lazy_locker ''l'' # map (\<lambda>k. put ''l'' k ''x'') [''c'', ''a'', ''B'', ''b'', ''A''] @
     [answered (R_Keys ''l'') (A_Keys (map as_bytes [''A'', ''B'', ''a'', ''b'', ''c'']))]"

definition keys_above_the_bmp_sort_bytewise :: "caps \<Rightarrow> string script_line list" where
  "keys_above_the_bmp_sort_bytewise h =
     lazy_locker ''l'' # map (\<lambda>k. is_done (R_Put ''l'' k ''x''))
       [[0xF0, 0x9F, 0x8D, 0x8E], [0xEE, 0x80, 0x80], [0xEF, 0xBF, 0xBD], as_bytes ''a''] @
     [answered (R_Keys ''l'') (A_Keys [as_bytes ''a'', [0xEE, 0x80, 0x80], [0xEF, 0xBF, 0xBD], [0xF0, 0x9F, 0x8D, 0x8E]])]"

definition prefix_listing_stops_at_the_boundary :: "caps \<Rightarrow> string script_line list" where
  "prefix_listing_stops_at_the_boundary h =
     lazy_locker ''l'' #
     map (\<lambda>k. put ''l'' k ''x'') [''BTCUSDT::1'', ''BTCUSDT::2'', ''BTCUSDU::1'', ''BTC'', ''ETHUSDT::1''] @
     [answered (R_Keys_With_Prefix ''l'' (as_bytes ''BTCUSDT::'')) (A_Keys (map as_bytes [''BTCUSDT::1'', ''BTCUSDT::2'']))]"

definition range_is_inclusive_start_exclusive_end :: "caps \<Rightarrow> string script_line list" where
  "range_is_inclusive_start_exclusive_end h =
     lazy_locker ''l'' # map (\<lambda>k. put ''l'' k k) [''a'', ''b'', ''c'', ''d''] @
     [lists_keys (R_Range ''l'' (Included (as_bytes ''b'')) (Excluded (as_bytes ''d''))) [''b'', ''c'']]"

definition reverse_range_descends :: "caps \<Rightarrow> string script_line list" where
  "reverse_range_descends h =
     lazy_locker ''l'' # map (\<lambda>k. put ''l'' k k) [''a'', ''b'', ''c''] @
     [lists_keys (R_Range_Rev ''l'' Unbounded Unbounded) [''c'', ''b'', ''a'']]"

definition transaction_commit_is_atomic :: "caps \<Rightarrow> string script_line list" where
  "transaction_commit_is_atomic h =
     [lazy_locker ''l'',
      is_done (R_Transact ''l'' [Stmt_Put (as_bytes ''chunk::0'') ''a'', Stmt_Put (as_bytes ''chunk::1'') ''b'',
        Stmt_Put (as_bytes ''manifest'') ''done'']),
      reads ''l'' ''chunk::0'' (Some ''a''), reads ''l'' ''chunk::1'' (Some ''b''), reads ''l'' ''manifest'' (Some ''done'')]"

definition transaction_rollback_writes_nothing :: "caps \<Rightarrow> string script_line list" where
  "transaction_rollback_writes_nothing h =
     [lazy_locker ''l'', put ''l'' ''existing'' ''old'',
      is_refused (R_Transact ''l'' [Stmt_Put (as_bytes ''a'') ''1'', Stmt_Put (as_bytes ''b'') ''2'',
        Stmt_Fail (Backend ''deliberate failure'')]) (\<lambda>_. True),
      reads ''l'' ''a'' None, reads ''l'' ''b'' None, reads ''l'' ''existing'' (Some ''old''), answered (R_Len ''l'') (A_Count 1)]"

definition transaction_reads_its_own_writes :: "caps \<Rightarrow> string script_line list" where
  "transaction_reads_its_own_writes h =
     [lazy_locker ''l'', put ''l'' ''k'' ''stored'',
      is_done (R_Transact ''l'' [Stmt_Expect (as_bytes ''k'') (Some ''stored''), Stmt_Put (as_bytes ''k'') ''staged'',
        Stmt_Expect (as_bytes ''k'') (Some ''staged''), Stmt_Delete (as_bytes ''k''), Stmt_Expect (as_bytes ''k'') None]),
      reads ''l'' ''k'' None]"

definition reopen_matches_declared_persistence :: "caps \<Rightarrow> string script_line list" where
  "reopen_matches_declared_persistence h =
     [lazy_locker ''l'', put ''l'' ''k'' ''survives'', is_done R_Reopen, lazy_locker ''l'',
      reads ''l'' ''k'' (if persists_across_open h then Some ''survives'' else None)]"

definition schema_mismatch_is_refused :: "caps \<Rightarrow> string script_line list" where
  "schema_mismatch_is_refused h =
     [lazy_locker ''typed'', is_done (R_Drop ''typed''),
      is_refused (R_Open ''typed'' ''u64'' config_default) is_schema_mismatch]"

definition a_value_larger_than_the_chunk_size_round_trips :: "caps \<Rightarrow> string script_line list" where
  "a_value_larger_than_the_chunk_size_round_trips h =
     [tiny_locker ''l'', put ''l'' ''k'' (repeated CHR ''x'' 200),
      reads ''l'' ''k'' (Some (repeated CHR ''x'' 200))]"

definition overwriting_a_chunked_value_replaces_it :: "caps \<Rightarrow> string script_line list" where
  "overwriting_a_chunked_value_replaces_it h =
     [tiny_locker ''l'', put ''l'' ''k'' (repeated CHR ''a'' 200),
      put ''l'' ''k'' (repeated CHR ''b'' 180), reads ''l'' ''k'' (Some (repeated CHR ''b'' 180))]"

definition deleting_a_chunked_value_removes_it :: "caps \<Rightarrow> string script_line list" where
  "deleting_a_chunked_value_removes_it h =
     [tiny_locker ''l'', put ''l'' ''k'' (repeated CHR ''z'' 200),
      is_done (R_Delete ''l'' (as_bytes ''k'')), reads ''l'' ''k'' None, contains ''l'' ''k'' False]"

definition binary_keys_round_trip_and_sort_bytewise :: "caps \<Rightarrow> string script_line list" where
  "binary_keys_round_trip_and_sort_bytewise h =
     (let binary = [([0xFF], ''b0''), ([0x00], ''b1''), ([0x80, 0x01], ''b2'')] in
      lazy_locker ''l'' # map (\<lambda>(k, x). is_done (R_Put ''l'' k x)) binary @ [put ''l'' ''a'' ''text''] @
      concat (map (\<lambda>(k, x). [answered (R_Get ''l'' k) (A_Value (Some x)), answered (R_Contains ''l'' k) (A_Flag True)]) binary) @
      [reads ''l'' ''a'' (Some ''text''), answered (R_Len ''l'') (A_Count 4),
       answered (R_Keys_Bytes ''l'') (A_Keys [[0x00], as_bytes ''a'', [0x80, 0x01], [0xFF]]),
       answered (R_Keys ''l'') (A_Keys [[0x00], as_bytes ''a'']), answered (R_Has_Non_Utf8 ''l'') (A_Flag True),
       is_done (R_Delete ''l'' [0xFF]), answered (R_Get ''l'' [0xFF]) (A_Value None), answered (R_Len ''l'') (A_Count 3)])"

definition a_name_is_open_until_every_handle_closes :: "caps \<Rightarrow> string script_line list" where
  "a_name_is_open_until_every_handle_closes h =
     [lazy_locker ''l'', lazy_locker ''l'', put ''l'' ''k'' ''x'',
      answered (R_Is_Open ''l'') (A_Flag True), is_done (R_Drop ''l''), answered (R_Is_Open ''l'') (A_Flag True),
      answered R_Open_Names (A_Names [''l'']), is_refused (R_Delete_Locker ''l'') is_invalid_config,
      reads ''l'' ''k'' (Some ''x''), is_done (R_Close ''l''), answered (R_Is_Open ''l'') (A_Flag False),
      answered R_Open_Names (A_Names []), answered (R_Delete_Locker ''l'') (A_Flag True)]"

definition delete_locker_leaves_other_lockers_intact :: "caps \<Rightarrow> string script_line list" where
  "delete_locker_leaves_other_lockers_intact h =
     [tiny_locker ''doomed'', tiny_locker ''keeper'',
      put ''doomed'' ''k'' (repeated CHR ''x'' 200), put ''keeper'' ''k'' (repeated CHR ''y'' 200), put ''keeper'' ''inline'' ''kept'',
      is_done (R_Close ''doomed''), answered (R_Delete_Locker ''doomed'') (A_Flag True),
      reads ''keeper'' ''k'' (Some (repeated CHR ''y'' 200)), reads ''keeper'' ''inline'' (Some ''kept''),
      answered (R_Exists ''keeper'') (A_Flag True),
      (R_Locker_Names, \<lambda>a. case a of A_Names ns \<Rightarrow> ''keeper'' \<in> set ns | _ \<Rightarrow> False),
      (R_Locker_Names, \<lambda>a. case a of A_Names ns \<Rightarrow> ''doomed'' \<notin> set ns | _ \<Rightarrow> False)]"

text \<open>The key \<open>k{i:04}\<close>.\<close>

definition padded :: "nat \<Rightarrow> string" where
  "padded i = ''k'' @ replicate (4 - length (show_nat i)) CHR ''0'' @ show_nat i"

definition paging_covers_every_key_exactly_once :: "caps \<Rightarrow> string script_line list" where
  "paging_covers_every_key_exactly_once h =
     lazy_locker ''l'' # map (\<lambda>i. put ''l'' (padded i) ''x'') [0..<600] @
     [(R_Range ''l'' Unbounded Unbounded, \<lambda>a. case a of
         A_Entries es \<Rightarrow> length es = 600 \<and> length (remdups_adj (map fst es)) = 600 | _ \<Rightarrow> False),
      answered (R_Len ''l'') (A_Count 600)]"

section \<open>The cases on shelves\<close>

definition no_shelves :: "'v shelves" where
  "no_shelves = \<lparr>sv_lockers = bt_empty, sv_open = bt_empty\<rparr>"

definition short_cases :: "(caps \<Rightarrow> string script_line list) list" where
  "short_cases = [put_get_roundtrip,
     missing_key_is_none,
     empty_value_is_not_a_missing_key,
     overwrite_replaces_value,
     delete_is_idempotent,
     clear_empties_only_its_own_locker,
     keys_are_ordered_by_utf8_bytes,
     keys_above_the_bmp_sort_bytewise,
     prefix_listing_stops_at_the_boundary,
     range_is_inclusive_start_exclusive_end,
     reverse_range_descends,
     transaction_commit_is_atomic,
     transaction_rollback_writes_nothing,
     transaction_reads_its_own_writes,
     reopen_matches_declared_persistence,
     schema_mismatch_is_refused,
     a_value_larger_than_the_chunk_size_round_trips,
     overwriting_a_chunked_value_replaces_it,
     deleting_a_chunked_value_removes_it,
     binary_keys_round_trip_and_sort_bytewise,
     a_name_is_open_until_every_handle_closes,
     delete_locker_leaves_other_lockers_intact]"

lemmas short_case_defs = put_get_roundtrip_def missing_key_is_none_def empty_value_is_not_a_missing_key_def overwrite_replaces_value_def delete_is_idempotent_def clear_empties_only_its_own_locker_def keys_are_ordered_by_utf8_bytes_def keys_above_the_bmp_sort_bytewise_def prefix_listing_stops_at_the_boundary_def range_is_inclusive_start_exclusive_end_def reverse_range_descends_def transaction_commit_is_atomic_def transaction_rollback_writes_nothing_def transaction_reads_its_own_writes_def reopen_matches_declared_persistence_def schema_mismatch_is_refused_def a_value_larger_than_the_chunk_size_round_trips_def overwriting_a_chunked_value_replaces_it_def deleting_a_chunked_value_removes_it_def binary_keys_round_trip_and_sort_bytewise_def a_name_is_open_until_every_handle_closes_def delete_locker_leaves_other_lockers_intact_def

lemma short_cases_pass:
  "list_all (\<lambda>script. passes (expected (persists_across_open h)) (script h) no_shelves) short_cases"
proof -
  define c where "c = config_default"
  define tiny where "tiny = tiny_chunks"
  note defs = short_cases_def lazy_locker_def tiny_locker_def short_case_defs
  obtain q r where h: "h = \<lparr>persists_across_open = q, reports_usage = r\<rparr>" by (cases h) auto
  show ?thesis
  proof (cases q)
    case True
    then have q: "q = True" by simp
    show ?thesis unfolding h q defs tiny_def [symmetric] c_def [symmetric] by code_simp
  next
    case False
    then have q: "q = False" by simp
    show ?thesis unfolding h q defs tiny_def [symmetric] c_def [symmetric] by code_simp
  qed
qed

section \<open>The case on paging\<close>

lemma puts_run:
  assumes "bt_lookup (sv_open v) name = Some p" "bt_lookup (sv_lockers v) name = Some (ty, m)"
  shows "\<exists>v'. passes (expected b) (map (\<lambda>i. put name (key i) x) is @ rest) v = passes (expected b) rest v'
    \<and> bt_lookup (sv_open v') name = Some p
    \<and> bt_lookup (sv_lockers v') name = Some (ty, fold (\<lambda>i. bt_insert (as_bytes (key i)) x) is m)"
  using assms
proof (induction "is" arbitrary: v m)
  case (Cons i "is")
  let ?v = "v\<lparr>sv_lockers := bt_insert name (ty, bt_insert (as_bytes (key i)) x m) (sv_lockers v)\<rparr>"
  have one: "expected b (R_Put name (as_bytes (key i)) x) v = (A_Done, ?v)" using Cons.prems by (simp add: on_shelf_def)
  from Cons.IH [of ?v "bt_insert (as_bytes (key i)) x m"] Cons.prems one show ?case by (simp add: put_def is_done_def)
qed auto

text \<open>Reading a padded number back.\<close>

definition unpadded :: "string \<Rightarrow> nat" where
  "unpadded s = fold (\<lambda>c n. 10 * n + (of_char c - 48)) (tl s) 0"

lemma unpadded_padded: "unpadded (padded i) = i"
proof -
  let ?f = "\<lambda>c n. 10 * n + (of_char c - 48 :: nat)"
  have digit: "of_char (char_of (48 + n) :: char) = 48 + n" if "n < 10" for n :: nat using that by (simp add: take_bit_nat_def)
  have shown: "fold ?f (show_nat n) 0 = n" for n
  proof (induction n rule: show_nat.induct)
    case (1 n)
    then show ?case by (subst show_nat.simps) (simp add: digit)
  qed
  have "fold ?f (replicate m CHR ''0'') 0 = 0" for m by (induction m) simp_all
  then show ?thesis using shown by (simp add: unpadded_def padded_def)
qed

lemma utf8_ascii: "list_all (\<lambda>b. b \<le> 0x7F) bs \<Longrightarrow> utf8_valid bs"
  by (induction bs) (simp_all add: utf8_valid.simps(2))

lemma utf8_padded: "utf8_valid (as_bytes (padded i))"
proof -
  have digit: "(of_char (char_of (48 + n) :: char) :: byte) \<le> 0x7F" if "n < 10" for n :: nat
    using that by (simp add: word_le_nat_alt unat_of_char take_bit_nat_def)
  have "list_all (\<lambda>b. b \<le> 0x7F) (as_bytes (show_nat n))" for n
  proof (induction n rule: show_nat.induct)
    case (1 n)
    then show ?case by (subst show_nat.simps) (simp add: digit as_bytes_def)
  qed
  then show ?thesis by (intro utf8_ascii) (auto simp: padded_def as_bytes_def list_all_iff)
qed

lemma padded_inj: "inj_on (\<lambda>i. as_bytes (padded i)) A"
  by (rule inj_onI) (metis as_bytes_inject unpadded_padded)

lemma inserted_keys: "set (bt_keys (fold (\<lambda>i. bt_insert (g i) x) is m)) = g ` set is \<union> set (bt_keys m)"
proof (induction "is" arbitrary: m)
  case (Cons i "is")
  have "set (bt_keys (bt_insert (g i) x m)) = insert (g i) (set (bt_keys m))" by (auto split: if_splits)
  then show ?case using Cons.IH [of "bt_insert (g i) x m"] by simp
qed simp

lemma paging_passes: "passes (expected b) (paging_covers_every_key_exactly_once h) no_shelves"
proof -
  let ?m = "fold (\<lambda>i. bt_insert (as_bytes (padded i)) ''x'') [0..<600] bt_empty"
  let ?rest = "[(R_Range ''l'' Unbounded Unbounded, \<lambda>a. case a of
         A_Entries es \<Rightarrow> length es = 600 \<and> length (remdups_adj (map fst es)) = 600 | _ \<Rightarrow> False),
      answered (R_Len ''l'') (A_Count 600)]"
  let ?v = "no_shelves\<lparr>sv_lockers := bt_insert ''l'' (V_NAME, bt_empty) bt_empty, sv_open := bt_insert ''l'' (config_default, 1) bt_empty\<rparr>"
  have keys: "set (bt_keys ?m) = (\<lambda>i. as_bytes (padded i)) ` {0..<600}" using inserted_keys [of "\<lambda>i. as_bytes (padded i)" "''x''" "[0..<600]" bt_empty] by (simp add: bt_keys_def)
  have len: "length (bt_keys ?m) = 600" using distinct_card [OF bt_keys_distinct, of ?m] card_image [OF padded_inj] keys by simp
  have valid: "utf8_valid k" if "k \<in> set (bt_keys ?m)" for k using that utf8_padded unfolding keys by auto
  have "filter (utf8_valid \<circ> fst) (shelf_range ?m Unbounded Unbounded) = bt_entries ?m"
    using valid by (auto simp: shelf_range_def bt_keys_def in_user_bounds_def intro!: filter_True)
  moreover have "length (bt_entries ?m) = 600" "map fst (bt_entries ?m) = bt_keys ?m" using len by (simp_all add: bt_keys_def)
  moreover have "bt_len ?m = 600" using len by (simp add: bt_len_def bt_keys_def)
  ultimately have rest: "passes (expected b) ?rest v'"
    if "bt_lookup (sv_open v') ''l'' = Some p" "bt_lookup (sv_lockers v') ''l'' = Some (ty, ?m)" for v' :: "string shelves" and p ty
    using that len by (simp add: on_shelf_def answered_def remdups_adj_distinct)
  have "passes (expected b) (paging_covers_every_key_exactly_once h) no_shelves
    = passes (expected b) (map (\<lambda>i. put ''l'' (padded i) ''x'') [0..<600] @ ?rest) ?v"
    by (simp add: paging_covers_every_key_exactly_once_def lazy_locker_def is_done_def no_shelves_def del: upt_rec_numeral)
  moreover have "\<exists>v'. passes (expected b) (map (\<lambda>i. put ''l'' (padded i) ''x'') [0..<600] @ ?rest) ?v = passes (expected b) ?rest v'
      \<and> bt_lookup (sv_open v') ''l'' = Some (config_default, 1) \<and> bt_lookup (sv_lockers v') ''l'' = Some (V_NAME, ?m)"
    by (rule puts_run) (simp_all add: no_shelves_def)
  ultimately show ?thesis using rest by blast
qed

section \<open>The requests of the cases\<close>

text \<open>What the cases need of the serialiser: it takes an ASCII text of at most 200 bytes and gives it back.\<close>

definition modest :: "string \<Rightarrow> bool" where
  "modest x \<longleftrightarrow> length x \<le> 200 \<and> list_all (\<lambda>c. of_char c < (128 :: nat)) x"

definition texts_fit :: "string serde \<Rightarrow> bool" where
  "texts_fit sd \<longleftrightarrow> (\<forall>x. modest x \<longrightarrow> fits sd x)"

lemma texts_fitD: "texts_fit sd \<Longrightarrow> modest x \<Longrightarrow> fits sd x"
  by (simp add: texts_fit_def)

lemma modest_repeated [simp]: "n \<le> 200 \<Longrightarrow> of_char c < (128 :: nat) \<Longrightarrow> modest (repeated c n)"
  by (simp add: modest_def repeated_def list_all_iff)

lemma tiny_chunks_prompt [simp]: "prompt_config tiny_chunks" "lc_chain tiny_chunks = None" "lc_chain config_default = None"
  by (simp_all add: tiny_chunks_def with_chunk_size_def prompt_config_def config_default_def is_eventual_def)

lemma names_of_cases_valid [simp]:
  "utf8_valid (as_bytes V_NAME)" "utf8_valid (as_bytes ''u64'')" "utf8_valid (as_bytes ''l'')" "utf8_valid (as_bytes ''one'')"
  "utf8_valid (as_bytes ''two'')" "utf8_valid (as_bytes ''typed'')" "utf8_valid (as_bytes ''doomed'')" "utf8_valid (as_bytes ''keeper'')"
  by (rule utf8_ascii; simp add: V_NAME_def as_bytes_def)+

lemma short_cases_ok:
  assumes "texts_fit sd"
  shows "list_all (\<lambda>script. list_all (request_ok sd \<circ> fst) (script h)) short_cases"
  unfolding short_cases_def
  by (simp add: short_case_defs script_defs lazy_locker_def tiny_locker_def put_def reads_def contains_def lists_keys_def
      texts_fitD [OF assms])
     (simp add: modest_def texts_fitD [OF assms])

lemma paging_ok: "texts_fit sd \<Longrightarrow> list_all (request_ok sd \<circ> fst) (paging_covers_every_key_exactly_once h)"
  using texts_fitD [of sd "''x''"]
  by (auto simp: paging_covers_every_key_exactly_once_def list_all_iff script_defs lazy_locker_def put_def modest_def)

lemma short_cases_cost: "list_all (\<lambda>script. sum_list (map (cost \<circ> fst) (script h)) < 100) short_cases"
  unfolding short_cases_def
  by (simp add: short_case_defs script_defs lazy_locker_def tiny_locker_def put_def reads_def contains_def lists_keys_def)

lemma paging_cost: "sum_list (map (cost \<circ> fst) (paging_covers_every_key_exactly_once h)) = 601"
proof -
  have "sum_list (map (\<lambda>i. 1) [0..<600]) = (600 :: nat)" by (simp only: sum_list_triv) simp
  then show ?thesis
    by (simp add: paging_covers_every_key_exactly_once_def script_defs lazy_locker_def put_def comp_def del: upt_rec_numeral)
qed

section \<open>The suite\<close>

definition conformance_cases :: "(caps \<Rightarrow> string script_line list) list" where
  "conformance_cases = short_cases @ [paging_covers_every_key_exactly_once]"

text \<open>
  C12: Every case of the conformance suite that is on lazy lockers and within the requests of a session passes for every
  harness whose backend keeps the backend contract and is live, whatever filter chain seals the values, when
  the harness declares of persistence what its backend does.
\<close>

theorem conformance_cases_pass:
  assumes "live_bank V tabs ready (\<lambda>b. hn_open H (Some b)) (persists_across_open (hn_caps H))"
    and "hn_open H None = Inr b" "hn_destroy H = Inr ()" "ready b" "tabs b = tables_default" "sealing ch"
    and "texts_fit sd" "script \<in> set conformance_cases"
  shows "runs_case V ch sd H script"
proof -
  let ?h = "hn_caps H"
  let ?rs = "map fst (script ?h)"
  have ok: "list_all (request_ok sd) ?rs" "sum_list (map cost ?rs) < 2 ^ 32" "passes (expected (persists_across_open ?h)) (script ?h) no_shelves"
    using assms(8) short_cases_ok [OF assms(7), of ?h] paging_ok [OF assms(7), of ?h] short_cases_cost [of ?h] paging_cost [of ?h]
      short_cases_pass [of ?h] paging_passes
    by (auto simp: conformance_cases_def list_all_iff comp_def)
  obtain s where "with_backend_and_chain V b ch = Inr s"
    "answers (perform V sd (\<lambda>b. hn_open H (Some b))) ?rs (s, bt_empty) = answers (expected (persists_across_open ?h)) ?rs no_shelves"
    using live_bank.session_answers [OF assms(1,4-6) ok(1,2)] unfolding no_shelves_def by blast
  with passes_same [OF this(2)] ok(3) assms(2,3) show ?thesis by (simp add: runs_case_def)
qed

lemma memory_harness_live:
  "live_bank sample_env mb_tables (\<lambda>m. \<not> mb_closed m) (\<lambda>b. hn_open memory_harness (Some b)) (persists_across_open (hn_caps memory_harness))"
  using forgetting.live_bank_axioms by (simp add: memory_harness_def)

lemma plain_texts_fit: "texts_fit plain_text"
  using plain_text_fits by (simp add: texts_fit_def modest_def MAX_DECODED_BYTES_def)

theorem conformance_cases_pass_witness:
  "runs_case sample_env chain_raw plain_text memory_harness reopen_matches_declared_persistence"
proof -
  have "reopen_matches_declared_persistence \<in> set conformance_cases" by (simp add: conformance_cases_def short_cases_def)
  from conformance_cases_pass [where b = memory_new, OF memory_harness_live _ _ _ _ sealing_raw plain_texts_fit this] show ?thesis
    by (simp add: memory_harness_def memory_new_def)
qed

end
