(* ===== verification/Redb_Sessions.thy ===== *)
theory Redb_Sessions
  imports Redb_Backend Conformance
begin

text \<open>
  The native backend in a session: over a redb database none of whose calls fails it is live, a bank opened again on
  the file finds what was stored, and so the theorems on sessions and on the conformance suite hold for it.
\<close>

section \<open>A database whose calls succeed\<close>

locale live_redb = redb_contract +
  assumes begin_read_live: "\<exists>r. rb_begin_read E db = Inr r"
    and open_read_live: "\<exists>h. rb_open_read E n r = Inr h \<or> (\<exists>why. rb_open_read E n r = Inl (Table_Missing why))"
    and get_one_live: "\<exists>v. rb_get E h k = Inr v"
    and range_live: "\<not> range_panics (fst bs) (snd bs) \<Longrightarrow> \<exists>iter. rb_range E h bs = Inr iter \<and> list_all (\<lambda>x. \<not> isl x) iter"
    and begin_write_live: "\<exists>w. rb_begin_write E db = Inr w"
    and durability_live: "\<exists>w'. rb_set_durability E l w = Inr w'"
    and open_write_live: "\<exists>w'. rb_open_write E n w = Inr w'"
    and insert_live: "written w n \<noteq> None \<Longrightarrow> \<exists>w'. rb_insert E n k v w = Inr w'"
    and remove_live: "written w n \<noteq> None \<Longrightarrow> \<exists>w'. rb_remove E n k w = Inr w'"
    and retain_live: "written w n \<noteq> None \<Longrightarrow> \<exists>w'. rb_retain_in E n bs keep w = Inr w'"
    and commit_once_live: "\<exists>db'. rb_commit E w db = (Inr (), db')"
begin

text \<open>A read transaction finds the table or that it is not there.\<close>

lemma table_live:
  obtains txn h where "rb_begin_read E db = Inr txn" "rb_open_read E n txn = Inr h"
  | txn why where "rb_begin_read E db = Inr txn" "rb_open_read E n txn = Inl (Table_Missing why)"
proof -
  obtain txn where txn: "rb_begin_read E db = Inr txn" using begin_read_live by blast
  then show thesis using that open_read_live [of n txn] by blast
qed

lemma told_live: "\<exists>x. r = Inr x \<Longrightarrow> \<exists>x. told what r = Inr x" "\<exists>x. q = Inr x \<Longrightarrow> \<exists>x. told_table what q = Inr x"
  by auto

lemma read_live:
  assumes "rd_db b = Some db"
  shows "\<exists>v. read_one E b tab k = Inr v"
proof (rule table_live [of db "table_definition tab"])
  fix txn h
  assume "rb_begin_read E db = Inr txn" "rb_open_read E (table_definition tab) txn = Inr h"
  moreover obtain v where "rb_get E h k = Inr v" using get_one_live by blast
  ultimately show ?thesis using assms by (simp add: read_one_def with_db_def told_def)
qed (use assms in \<open>simp add: read_one_def with_db_def told_def\<close>)

lemma read_many_live:
  assumes "rd_db b = Some db"
  shows "\<exists>vs. redb_get_many E b tab ks = Inr vs"
proof (rule table_live [of db "table_definition tab"])
  fix txn h
  assume "rb_begin_read E db = Inr txn" "rb_open_read E (table_definition tab) txn = Inr h"
  moreover obtain vs where "mapM_r (\<lambda>key. told ''reading a key'' (rb_get E h key)) ks = Inr vs"
  proof -
    have "\<exists>vs. mapM_r (\<lambda>key. told ''reading a key'' (rb_get E h key)) ks = Inr vs"
    proof (induction ks)
      case (Cons k ks)
      obtain v where "rb_get E h k = Inr v" using get_one_live by blast
      then show ?case using Cons by (auto simp: told_def)
    qed simp
    then show thesis using that by blast
  qed
  ultimately show ?thesis using assms by (simp add: redb_get_many_def with_db_def told_def)
qed (use assms in \<open>simp add: redb_get_many_def with_db_def told_def\<close>)

lemma entries_live: "list_all (\<lambda>x. \<not> isl x) es \<Longrightarrow> \<exists>r. scan_entries limit want items resume es = Inr r"
  by (induction limit want items resume es rule: scan_entries.induct) (auto simp: told_def split: sum.splits)

lemma scan_live:
  assumes "rd_db b = Some db" "\<not> range_panics (kr_start (rq_range rq)) (kr_end (rq_range rq))"
  shows "\<exists>pg. redb_scan_page E b rq = Inr pg"
proof -
  obtain txn where txn: "rb_begin_read E db = Inr txn" using begin_read_live by blast
  show ?thesis
  proof (cases "rb_open_read E (table_definition (rq_table rq)) txn")
    case (Inl e)
    then obtain why where "e = Table_Missing why" using open_read_live [of "table_definition (rq_table rq)" txn] by auto
    then show ?thesis using assms(1) txn Inl by (simp add: redb_scan_page_def with_db_def told_def)
  next
    case (Inr h)
    obtain iter where iter: "rb_range E h (as_ref_bounds (rq_range rq)) = Inr iter" "list_all (\<lambda>x. \<not> isl x) iter"
      using range_live [of "as_ref_bounds (rq_range rq)" h] assms(2) by (auto simp: as_ref_bounds_def)
    then have "list_all (\<lambda>x. \<not> isl x) (if rq_reverse rq then rev iter else iter)" by (simp add: list_all_iff)
    from entries_live [OF this, of "rq_limit rq" "rq_want_values rq" "[]" None] obtain items resume where
      "scan_entries (rq_limit rq) (rq_want_values rq) [] None (if rq_reverse rq then rev iter else iter) = Inr (items, resume)"
      by (metis surj_pair)
    then show ?thesis using assms(1) txn Inr iter(1) by (simp add: redb_scan_page_def with_db_def told_def)
  qed
qed

lemma op_live: "\<exists>w'. redb_op E w op = Inr w'"
proof (cases op)
  case (Op_Put tab k v)
  obtain u where u: "rb_open_write E (table_definition tab) w = Inr u" using open_write_live by blast
  then have "written u (table_definition tab) \<noteq> None" using open_write_spec [OF u] by simp
  from told_live(1) [OF insert_live [OF this]] u show ?thesis by (simp add: Op_Put told_table_def)
next
  case (Op_Delete tab k)
  obtain u where u: "rb_open_write E (table_definition tab) w = Inr u" using open_write_live by blast
  then have "written u (table_definition tab) \<noteq> None" using open_write_spec [OF u] by simp
  from told_live(1) [OF remove_live [OF this]] u show ?thesis by (simp add: Op_Delete told_table_def)
next
  case (Op_DeleteRange tab rng)
  obtain u where u: "rb_open_write E (table_definition tab) w = Inr u" using open_write_live by blast
  then have "written u (table_definition tab) \<noteq> None" using open_write_spec [OF u] by simp
  from told_live(1) [OF retain_live [OF this]] u show ?thesis by (simp add: Op_DeleteRange told_table_def)
qed

lemma folded_live:
  assumes "\<And>w x. \<exists>w'. f w x = Inr w'"
  shows "\<exists>w'. foldM_r f w xs = Inr w'"
proof (induction xs arbitrary: w)
  case (Cons x xs)
  then show ?case using assms [of w x] by auto
qed simp

lemma apply_live:
  assumes "rd_db b = Some db"
  shows "\<exists>b'. redb_apply E ops dur b = (Inr (), b') \<and> rd_db b' \<noteq> None"
proof -
  obtain w u where "rb_begin_write E db = Inr w" "rb_set_durability E (redb_durability dur) w = Inr u"
    using begin_write_live durability_live by blast
  moreover obtain u' where "foldM_r (redb_op E) u ops = Inr u'" using folded_live [of "redb_op E", OF op_live] by blast
  moreover obtain db' where "rb_commit E u' db = (Inr (), db')" using commit_once_live by blast
  ultimately show ?thesis using assms by (simp add: redb_apply_def with_db_writing_def told_def)
qed

lemma backend_live: "live_backend (redb_backend_vt E file_len) (redb_tables view) (\<lambda>b. rd_db b \<noteq> None)"
  by (intro live_backend.intro live_backend_axioms.intro backend_kept)
    (use read_live read_many_live scan_live apply_live in \<open>auto simp: redb_backend_vt_def\<close>)

text \<open>Opening the file once more: the tables are there, and nothing is written.\<close>

lemma probe_live: "\<exists>c. probe E txn tabs = Inr c"
proof (induction tabs)
  case (Cons tab tabs)
  then show ?case using open_read_live [of "table_definition tab" txn] by auto
qed auto

lemma open_live: "\<exists>b. redb_open E (Inr db) path = Inr b"
proof -
  let ?b = "\<lparr>rd_db = Some db, rd_path = path\<rparr>"
  obtain txn where txn: "rb_begin_read E db = Inr txn" using begin_read_live by blast
  obtain missing where "probe E txn table_all = Inr missing" using probe_live by blast
  then have m: "any_table_missing E ?b = Inr missing" using txn by (simp add: any_table_missing_def with_db_def told_def)
  obtain w where w: "rb_begin_write E db = Inr w" using begin_write_live by blast
  have "\<exists>w'. told_table ''creating a table'' (rb_open_write E (table_definition tab) u) = Inr w'" for u tab
    by (rule told_live(2)) (rule open_write_live)
  then obtain w' where "foldM_r (\<lambda>txn tab. told_table ''creating a table'' (rb_open_write E (table_definition tab) txn)) w table_all = Inr w'"
    using folded_live [of "\<lambda>txn tab. told_table ''creating a table'' (rb_open_write E (table_definition tab) txn)"] by blast
  moreover obtain db' where "rb_commit E w' db = (Inr (), db')" using commit_once_live by blast
  ultimately show ?thesis using m w
    by (cases missing) (simp_all add: redb_open_def create_tables_def sbind_def with_db_writing_def told_def)
qed

end

sublocale live_redb \<subseteq> live: live_backend "redb_backend_vt E file_len" "redb_tables view" "\<lambda>b. rd_db b \<noteq> None" for file_len
  by (rule backend_live)

interpretation plain: live_redb plain_redb map_of map_of "\<lambda>h. h" map_of
  by unfold_locales (auto simp: plain_redb_def list_all_iff split: option.splits)

section \<open>The harness\<close>

text \<open>
  \<open>RedbHarness\<close>: every open is of the same file. The file holds the database that the last handle
  left, and at first \<open>fresh\<close>, a database without tables. What \<open>destroy\<close> makes of the file is ignored.
\<close>

definition redb_harness :: "('d, 'r, 'h, 'w) redb \<Rightarrow> 'd \<Rightarrow> string \<Rightarrow> 'd redb_backend harness" where
  "redb_harness E fresh path =
     \<lparr>hn_caps = \<lparr>persists_across_open = True, reports_usage = True\<rparr>,
      hn_open = (\<lambda>last. redb_open E (Inr (case last of Some b \<Rightarrow> (case rd_db b of Some db \<Rightarrow> db | None \<Rightarrow> fresh) | None \<Rightarrow> fresh)) path),
      hn_destroy = Inr ()\<rparr>"

context live_redb
begin

lemma harness_live:
  assumes "ev_backend V = redb_backend_vt E file_len"
  shows "live_bank V (redb_tables view) (\<lambda>b. rd_db b \<noteq> None) (\<lambda>b. hn_open (redb_harness E fresh path) (Some b)) True"
proof (intro live_bank.intro live_bank_axioms.intro)
  show "live_backend (ev_backend V) (redb_tables view) (\<lambda>b. rd_db b \<noteq> None)" unfolding assms by (rule backend_live)
  fix b :: "'a redb_backend"
  assume "rd_db b \<noteq> None"
  then obtain db where db: "rd_db b = Some db" by auto
  obtain b' where b': "redb_open E (Inr db) path = Inr b'" using open_live by blast
  from open_effect [OF this] db show "\<exists>b'. hn_open (redb_harness E fresh path) (Some b) = Inr b' \<and> rd_db b' \<noteq> None
      \<and> redb_tables view b' = (if True then redb_tables view b else tables_default)"
    using b' by (auto simp: redb_harness_def redb_tables_def)
qed

end

text \<open>
  C13: Every case of the conformance suite that is on lazy lockers and within the requests of a session passes on
  the native backend, over any database that does what redb documents and whose calls succeed, opening
  the same file for every bank of the case.
\<close>

theorem redb_passes_conformance:
  assumes "live_redb E view snapshot content written" "ev_backend V = redb_backend_vt E file_len" "\<forall>n. view fresh n = None"
    and "sealing ch" "texts_fit sd" "script \<in> set conformance_cases"
  shows "runs_case V ch sd (redb_harness E fresh path) script"
proof -
  note live = live_redb.harness_live [OF assms(1,2), of fresh path]
  obtain b where b: "redb_open E (Inr fresh) path = Inr b" using live_redb.open_live [OF assms(1)] by blast
  have "redb_contract E view snapshot content written" using assms(1) by (simp add: live_redb_def)
  from redb_contract.open_effect [OF this b] have "rd_db b \<noteq> None" "redb_tables view b = tables_default"
    using assms(3) by (auto simp: redb_tables_def tables_of_def tree_or_empty_def tables_default_def)
  moreover have "persists_across_open (hn_caps (redb_harness E fresh path)) = True" by (simp add: redb_harness_def)
  ultimately show ?thesis
    using conformance_cases_pass [of V "redb_tables view" "\<lambda>b. rd_db b \<noteq> None" "redb_harness E fresh path" b ch sd script] live b assms(4-6)
    by (simp add: redb_harness_def)
qed

definition plain_env :: "(plain_db redb_backend, unit) env" where
  "plain_env = \<lparr>ev_backend = redb_backend_vt plain_redb (\<lambda>_. None), ev_try_send = ev_try_send sample_env, ev_vec_u8 = ev_vec_u8 sample_env\<rparr>"

theorem redb_passes_conformance_witness:
  "runs_case plain_env chain_raw plain_text (redb_harness plain_redb [] ''bank.redb'') a_name_is_open_until_every_handle_closes"
  by (rule redb_passes_conformance [OF plain.live_redb_axioms _ _ sealing_raw plain_texts_fit])
    (simp_all add: plain_env_def conformance_cases_def short_cases_def)

end
