(* ===== verification/Js_Values.thy ===== *)
theory Js_Values
  imports Complex_Main Backend_Api "HOL-Library.Log_Nat"
begin

text \<open>
  JavaScript values as the web half of the crate sees them through \<open>js_sys\<close> and \<open>wasm_bindgen\<close>: what \<open>Reflect::get\<close>,
  \<open>as_f64\<close>, \<open>as_bool\<close> and \<open>dyn_into\<close> answer, and numbers, which are doubles. A Rust \<open>as\<close> from an integer to a double
  rounds to nearest, ties to even; one from a double to an integer truncates and saturates, and takes \<open>NaN\<close> to 0.
\<close>

section \<open>Numbers\<close>

datatype js_number = Finite rat | Pos_Inf | Neg_Inf | Not_A_Number

text \<open>\<open>n as f64\<close>: 53 significant bits are kept. Every 64-bit integer is in range.\<close>

definition nat_as_f64 :: "nat \<Rightarrow> js_number" where
  "nat_as_f64 n =
     (let s = floorlog 2 n - 53; q = n div 2 ^ s; r = n mod 2 ^ s;
          up = 2 * r > 2 ^ s \<or> 2 * r = 2 ^ s \<and> odd q
      in Finite (of_nat ((if up then q + 1 else q) * 2 ^ s)))"

text \<open>\<open>x as u64\<close> and \<open>x as u32\<close>.\<close>

definition f64_as_word :: "js_number \<Rightarrow> 'a::len word" where
  "f64_as_word x =
     (case x of
        Finite v \<Rightarrow> (if v \<le> 0 then 0 else if \<lfloor>v\<rfloor> \<ge> 2 ^ LENGTH('a) then - 1 else of_int \<lfloor>v\<rfloor>)
      | Pos_Inf \<Rightarrow> - 1
      | Neg_Inf \<Rightarrow> 0
      | Not_A_Number \<Rightarrow> 0)"

text \<open>\<open>filter(|n| n.is_finite())\<close>.\<close>

definition finite_number :: "js_number option \<Rightarrow> rat option" where
  "finite_number v = (case v of Some (Finite x) \<Rightarrow> Some x | _ \<Rightarrow> None)"

lemma nat_as_f64_exact: "n < 2 ^ 53 \<Longrightarrow> nat_as_f64 n = Finite (of_nat n)"
proof -
  assume "n < 2 ^ 53"
  then have "floorlog 2 n \<le> 53" by (intro floorlog_leI) auto
  then show ?thesis by (simp add: nat_as_f64_def)
qed

lemma nat_as_word:
  assumes "n < 2 ^ LENGTH('a)"
  shows "f64_as_word (Finite (of_nat n)) = (of_nat n :: 'a::len word)"
proof -
  have "\<not> 2 ^ LENGTH('a) \<le> int n" using assms by (metis not_le of_nat_less_iff of_nat_numeral of_nat_power)
  then show ?thesis by (simp add: f64_as_word_def floor_of_nat)
qed

lemma word_round_trip: "unat (w :: 'a::len word) < 2 ^ 53 \<Longrightarrow> f64_as_word (nat_as_f64 (unat w)) = w"
  using unsigned_less [of w, where 'a = nat] by (simp only: nat_as_f64_exact nat_as_word) simp

section \<open>Values\<close>

datatype js =
    J_Undefined | J_Null | J_Bool bool | J_Number js_number | J_String string
  | J_Bytes bytes | J_Array "js list" | J_Object "(string \<times> js) list"

text \<open>\<open>Reflect::get\<close> of a property none of the built-in objects has: an error on what is not an object.\<close>

fun js_get :: "js \<Rightarrow> string \<Rightarrow> js option" where
  "js_get (J_Object fs) k = Some (case map_of fs k of Some v \<Rightarrow> v | None \<Rightarrow> J_Undefined)"
| "js_get (J_Bytes bs) k = Some J_Undefined"
| "js_get (J_Array xs) k = Some J_Undefined"
| "js_get v k = None"

fun as_f64 :: "js \<Rightarrow> js_number option" where
  "as_f64 (J_Number n) = Some n"
| "as_f64 v = None"

fun as_bool :: "js \<Rightarrow> bool option" where
  "as_bool (J_Bool b) = Some b"
| "as_bool v = None"

fun as_array :: "js \<Rightarrow> js list option" where
  "as_array (J_Array xs) = Some xs"
| "as_array v = None"

fun as_uint8_array :: "js \<Rightarrow> bytes option" where
  "as_uint8_array (J_Bytes bs) = Some bs"
| "as_uint8_array v = None"

end
