(* ===== verification/Indexed_Db.thy ===== *)
theory Indexed_Db
  imports Js_Values Named_Tables Inner
begin

text \<open>
  \<open>src/backend/indexeddb.rs\<close>: the web backend, over the \<open>indexed_db\<close> crate and \<open>js_sys\<close>. What the file calls of
  them is the argument \<open>idb\<close> of the definitions: opening and deleting databases, transactions and their object
  stores, cursors, and the copy of bytes into a JavaScript value and back. An error of the crate is the text it
  displays, with the one case the file tells apart. The locale \<open>idb_contract\<close> states what IndexedDB promises of
  a transaction: it sees the state it began in and its own writes, a cursor walks a range in key order, and it
  completes whole or not at all. Over it the backend keeps the contract of a backend. The locale \<open>idb_browser\<close>
  adds what opening and deleting a database promise. A connection is the only one to its database.
\<close>

section \<open>The engine\<close>

datatype idb_error = Cursor_Completed string | Idb_Failed string

fun idb_error_text :: "idb_error \<Rightarrow> string" where
  "idb_error_text (Cursor_Completed e) = e"
| "idb_error_text (Idb_Failed e) = e"

datatype cursor_direction = Dir_Next | Dir_Prev

text \<open>
  The state of the browser \<open>'x\<close>, a connection \<open>'d\<close>, an upgrade \<open>'u\<close>, a transaction \<open>'t\<close>, an object store
  \<open>'s\<close>, a key range \<open>'r\<close>, a cursor \<open>'c\<close>, a JavaScript value \<open>'j\<close>.
\<close>

record ('x, 'd, 'u, 't, 's, 'r, 'c, 'j) idb =
  ib_from :: "bytes \<Rightarrow> 'j"
  ib_to_vec :: "'j \<Rightarrow> bytes"
  ib_factory :: "idb_error + unit"
  ib_open :: "string \<Rightarrow> u32 \<Rightarrow> ('u \<Rightarrow> idb_error + 'u) \<Rightarrow> ('x, idb_error, 'd) act"
  ib_create_store :: "string \<Rightarrow> 'u \<Rightarrow> idb_error + 'u"
  ib_delete_database :: "string \<Rightarrow> ('x, idb_error, unit) act"
  ib_store_names :: "'d \<Rightarrow> string list"
  ib_disconnect :: "'d \<Rightarrow> 'x \<Rightarrow> 'x"
  ib_begin :: "string list \<Rightarrow> bool \<Rightarrow> 'd \<Rightarrow> idb_error + 't"
  ib_object_store :: "string \<Rightarrow> 't \<Rightarrow> idb_error + 's"
  ib_get :: "'s \<Rightarrow> 'j \<Rightarrow> 't \<Rightarrow> idb_error + 'j option"
  ib_range :: "'j bound \<times> 'j bound \<Rightarrow> idb_error + 'r"
  ib_open_cursor :: "'s \<Rightarrow> cursor_direction \<Rightarrow> 'r option \<Rightarrow> 't \<Rightarrow> idb_error + 'c"
  ib_open_key_cursor :: "'s \<Rightarrow> cursor_direction \<Rightarrow> 'r option \<Rightarrow> 't \<Rightarrow> idb_error + 'c"
  ib_key :: "'c \<Rightarrow> 'j option"
  ib_value :: "'c \<Rightarrow> 'j option"
  ib_advance :: "'c \<Rightarrow> idb_error + 'c"
  ib_put_kv :: "'s \<Rightarrow> 'j \<Rightarrow> 'j \<Rightarrow> 't \<Rightarrow> idb_error + 't"
  ib_delete :: "'s \<Rightarrow> 'j \<Rightarrow> 't \<Rightarrow> idb_error + 't"
  ib_clear :: "'s \<Rightarrow> 't \<Rightarrow> idb_error + 't"
  ib_delete_range :: "'s \<Rightarrow> 'j bound \<times> 'j bound \<Rightarrow> 't \<Rightarrow> idb_error + 't"
  ib_abort :: "'t \<Rightarrow> 'd \<Rightarrow> 'd"
  ib_finish :: "'t \<Rightarrow> ('d, idb_error, unit) act"
  ib_size :: "'d \<Rightarrow> nat"

text \<open>\<open>ib_size\<close> is not a call of the file: it bounds the number of stored records, for the fuel of paging.\<close>

section \<open>The backend\<close>

definition IDB_VERSION :: u32 where
  "IDB_VERSION = 1"

definition STORES :: "string list" where
  "STORES = [''meta'', ''records'', ''chunks'']"

record 'd idb_backend =
  ix_db :: "'d option"
  ix_name :: string

definition map_err :: "idb_error \<Rightarrow> error" where
  "map_err e =
     (if contains_text ''QuotaExceeded'' (idb_error_text e) then QuotaExceeded 0 None else Backend (idb_error_text e))"

definition js_told :: "idb_error + 'a \<Rightarrow> 'a result" where
  "js_told r = (case r of Inl e \<Rightarrow> Inl (map_err e) | Inr x \<Rightarrow> Inr x)"

definition js_bytes :: "('x, 'd, 'u, 't, 's, 'r, 'c, 'j) idb \<Rightarrow> bytes \<Rightarrow> 'j" where
  "js_bytes E bs = ib_from E bs"

definition from_js_bytes :: "('x, 'd, 'u, 't, 's, 'r, 'c, 'j) idb \<Rightarrow> 'j \<Rightarrow> bytes result" where
  "from_js_bytes E v = Inr (ib_to_vec E v)"

definition to_js_bounds :: "('x, 'd, 'u, 't, 's, 'r, 'c, 'j) idb \<Rightarrow> key_range \<Rightarrow> 'j bound \<times> 'j bound" where
  "to_js_bounds E r = (map_bound (js_bytes E) (kr_start r), map_bound (js_bytes E) (kr_end r))"

definition range_is_all :: "key_range \<Rightarrow> bool" where
  "range_is_all r \<longleftrightarrow> kr_start r = Unbounded \<and> kr_end r = Unbounded"

text \<open>\<open>self.db()?\<close>.\<close>

definition idb_db :: "'d idb_backend \<Rightarrow> 'd result" where
  "idb_db b = (case ix_db b of Some db \<Rightarrow> Inr db | None \<Rightarrow> Inl Closed)"

text \<open>\<open>transaction(names).run(body)\<close>: a body that fails aborts the transaction, one that succeeds completes it.\<close>

definition idb_run :: "('x, 'd, 'u, 't, 's, 'r, 'c, 'j) idb \<Rightarrow> string list \<Rightarrow> bool \<Rightarrow> ('t \<Rightarrow> idb_error + 'a \<times> 't)
    \<Rightarrow> ('d, idb_error, 'a) act" where
  "idb_run E names rw body db =
     (case ib_begin E names rw db of
        Inl e \<Rightarrow> (Inl e, db)
      | Inr t \<Rightarrow>
          (case body t of
             Inl e \<Rightarrow> (Inl e, ib_abort E t db)
           | Inr (x, t') \<Rightarrow> (case ib_finish E t' db of (Inl e, db) \<Rightarrow> (Inl e, db) | (Inr _, db) \<Rightarrow> (Inr x, db))))"

text \<open>A transaction that only reads: the connection is as before.\<close>

definition idb_read :: "('x, 'd, 'u, 't, 's, 'r, 'c, 'j) idb \<Rightarrow> table \<Rightarrow> ('s \<Rightarrow> 't \<Rightarrow> idb_error + 'a) \<Rightarrow> 'd \<Rightarrow> 'a result" where
  "idb_read E tab body db =
     js_told (fst (idb_run E [table_name tab] False
       (\<lambda>t. rbind (ib_object_store E (table_name tab) t) (\<lambda>s. rbind (body s t) (\<lambda>x. Inr (x, t)))) db))"

definition idb_get :: "('x, 'd, 'u, 't, 's, 'r, 'c, 'j) idb \<Rightarrow> 'd idb_backend \<Rightarrow> table \<Rightarrow> bytes \<Rightarrow> bytes option result" where
  "idb_get E b tab key =
     rbind (idb_db b) (\<lambda>db.
     rbind (idb_read E tab (\<lambda>s. ib_get E s (js_bytes E key)) db) (\<lambda>got.
       case got of Some v \<Rightarrow> rbind (from_js_bytes E v) (\<lambda>bs. Inr (Some bs)) | None \<Rightarrow> Inr None))"

definition idb_get_many :: "('x, 'd, 'u, 't, 's, 'r, 'c, 'j) idb \<Rightarrow> 'd idb_backend \<Rightarrow> table \<Rightarrow> bytes list \<Rightarrow> bytes option list result" where
  "idb_get_many E b tab keys =
     rbind (idb_db b) (\<lambda>db.
       idb_read E tab (\<lambda>s t. mapM_r (\<lambda>k. rbind (ib_get E s k t) (\<lambda>v. Inr (map_option (ib_to_vec E) v))) (map (js_bytes E) keys)) db)"

text \<open>The loop of \<open>scan\<close>. A filled page looks one record further, to know whether to resume.\<close>

function cursor_loop :: "('x, 'd, 'u, 't, 's, 'r, 'c, 'j) idb \<Rightarrow> bool \<Rightarrow> nat \<Rightarrow> (bytes \<times> bytes option) list \<Rightarrow> 'c
    \<Rightarrow> idb_error + (bytes \<times> bytes option) list \<times> bytes option" where
  "cursor_loop E want limit items c =
     (case ib_key E c of
        None \<Rightarrow> Inr (items, None)
      | Some key_js \<Rightarrow>
          let key = ib_to_vec E key_js;
              v = (if want then map_option (ib_to_vec E) (ib_value E c) else None);
              items = items @ [(key, v)] in
          if length items \<ge> limit then
            (case ib_advance E c of
               Inr c \<Rightarrow> Inr (items, if ib_key E c \<noteq> None then Some (fst (last items)) else None)
             | Inl (Cursor_Completed _) \<Rightarrow> Inr (items, None)
             | Inl e \<Rightarrow> Inl e)
          else
            (case ib_advance E c of
               Inr c \<Rightarrow> cursor_loop E want limit items c
             | Inl (Cursor_Completed _) \<Rightarrow> Inr (items, None)
             | Inl e \<Rightarrow> Inl e))"
  by pat_completeness auto

termination
  by (relation "measure (\<lambda>(E, want, limit, items, c). limit - length items)") auto

declare cursor_loop.simps [simp del]

definition idb_scan :: "('x, 'd, 'u, 't, 's, 'r, 'c, 'j) idb \<Rightarrow> 'd idb_backend \<Rightarrow> scan_request \<Rightarrow> scan_page result" where
  "idb_scan E b rq =
     (let direction = (if rq_reverse rq then Dir_Prev else Dir_Next) in
      rbind (idb_db b) (\<lambda>db.
        idb_read E (rq_table rq) (\<lambda>s t.
          rbind (if range_is_all (rq_range rq) then Inr None
                 else rbind (ib_range E (to_js_bounds E (rq_range rq))) (\<lambda>r. Inr (Some r))) (\<lambda>range.
          rbind ((if rq_want_values rq then ib_open_cursor E else ib_open_key_cursor E) s direction range t) (\<lambda>c.
          rbind (cursor_loop E (rq_want_values rq) (rq_limit rq) [] c) (\<lambda>(items, resume).
            Inr \<lparr>pg_items = items, pg_resume = resume\<rparr>)))) db))"

fun idb_op :: "('x, 'd, 'u, 't, 's, 'r, 'c, 'j) idb \<Rightarrow> 't \<Rightarrow> bop \<Rightarrow> idb_error + 't" where
  "idb_op E t (Op_Put tab key v) =
     rbind (ib_object_store E (table_name tab) t) (\<lambda>s. ib_put_kv E s (js_bytes E key) (js_bytes E v) t)"
| "idb_op E t (Op_Delete tab key) =
     rbind (ib_object_store E (table_name tab) t) (\<lambda>s. ib_delete E s (js_bytes E key) t)"
| "idb_op E t (Op_DeleteRange tab r) =
     rbind (ib_object_store E (table_name tab) t) (\<lambda>s.
       if range_is_all r then ib_clear E s t else ib_delete_range E s (to_js_bounds E r) t)"

definition idb_commit :: "('x, 'd, 'u, 't, 's, 'r, 'c, 'j) idb \<Rightarrow> bop list \<Rightarrow> ('d idb_backend, error, unit) act" where
  "idb_commit E ops b =
     (case ix_db b of
        None \<Rightarrow> (Inl Closed, b)
      | Some db \<Rightarrow>
          (case idb_run E STORES True (\<lambda>t. rbind (foldM_r (idb_op E) t ops) (\<lambda>t. Inr ((), t))) db of
             (r, db) \<Rightarrow> (js_told r, b\<lparr>ix_db := Some db\<rparr>)))"

text \<open>
  \<open>usage\<close>: the window's storage manager, if there is a window. A number of the estimate is a field of the
  resolved object that is a number, finite or not.
\<close>

record navigator =
  nv_estimate :: "(string \<Rightarrow> js_number option) option"
  nv_persisted :: "bool option"

definition idb_usage :: "navigator option \<Rightarrow> 'd idb_backend \<Rightarrow> usage option result" where
  "idb_usage window b =
     Inr (case window of
        None \<Rightarrow> None
      | Some nv \<Rightarrow>
          (case nv_estimate nv of
             None \<Rightarrow> None
           | Some field \<Rightarrow>
               (case finite_number (field ''usage'') of
                  None \<Rightarrow> None
                | Some u \<Rightarrow>
                    Some \<lparr>us_used = f64_as_word (Finite (max u 0)),
                      us_available = map_option (\<lambda>q. f64_as_word (Finite (max q 0))) (finite_number (field ''quota'')),
                      us_persisted = (case nv_persisted nv of Some p \<Rightarrow> p | None \<Rightarrow> False)\<rparr>)))"

definition idb_close :: "('d idb_backend, error, unit) act" where
  "idb_close b = (Inr (), b\<lparr>ix_db := None\<rparr>)"

definition idb_backend_vt :: "('x, 'd, 'u, 't, 's, 'r, 'c, 'j) idb \<Rightarrow> navigator option \<Rightarrow> 'd idb_backend backend" where
  "idb_backend_vt E window =
     \<lparr>bk_get = idb_get E, bk_get_many = idb_get_many E, bk_scan = idb_scan E, bk_scan_page_size = DEFAULT_SCAN_PAGE,
      bk_commit = idb_commit E, bk_commit_with = default_commit_with (idb_commit E),
      bk_usage = idb_usage window, bk_flush = (\<lambda>b. (Inr (), b)), bk_close = idb_close,
      bk_fuel = (\<lambda>b. case ix_db b of Some db \<Rightarrow> Suc (ib_size E db) | None \<Rightarrow> 1)\<rparr>"

section \<open>Opening\<close>

definition idb_connect :: "('x, 'd, 'u, 't, 's, 'r, 'c, 'j) idb \<Rightarrow> string \<Rightarrow> ('x, error, 'd) act" where
  "idb_connect E name =
     sbind (slift (js_told (ib_factory E))) (\<lambda>_ x.
       case ib_open E name IDB_VERSION (\<lambda>u. foldM_r (\<lambda>u store. ib_create_store E store u) u STORES) x of
         (r, x) \<Rightarrow> (js_told r, x))"

definition delete_database :: "('x, 'd, 'u, 't, 's, 'r, 'c, 'j) idb \<Rightarrow> string \<Rightarrow> ('x, error, unit) act" where
  "delete_database E name =
     sbind (slift (js_told (ib_factory E))) (\<lambda>_ x. case ib_delete_database E name x of (r, x) \<Rightarrow> (js_told r, x))"

text \<open>\<open>join(", ")\<close>.\<close>

fun joined :: "string list \<Rightarrow> string" where
  "joined [] = ''''"
| "joined [s] = s"
| "joined (s # ss) = s @ '', '' @ joined ss"

definition missing_stores :: "string list \<Rightarrow> string list" where
  "missing_stores present = filter (\<lambda>store. \<not> list_ex (\<lambda>have. have = store) present) STORES"

definition idb_open :: "('x, 'd, 'u, 't, 's, 'r, 'c, 'j) idb \<Rightarrow> string \<Rightarrow> ('x, error, 'd idb_backend) act" where
  "idb_open E name =
     sbind (idb_connect E name) (\<lambda>db.
     sbind (if ib_store_names E db = [] then
              sbind (smod (ib_disconnect E db)) (\<lambda>_. sbind (delete_database E name) (\<lambda>_. idb_connect E name))
            else sret db) (\<lambda>db.
       let present = ib_store_names E db; missing = missing_stores present in
       if missing \<noteq> [] then
         sbind (smod (ib_disconnect E db)) (\<lambda>_. slift (Inl (Corrupt (''IndexedDB database '' @ show_debug name @
           '' is not a crossbank bank: missing ['' @ joined missing @ ''], has ['' @ joined present @ '']''))))
       else sret \<lparr>ix_db = Some db, ix_name = name\<rparr>))"

text \<open>\<open>Drop\<close>.\<close>

definition idb_drop :: "('x, 'd, 'u, 't, 's, 'r, 'c, 'j) idb \<Rightarrow> 'd idb_backend \<Rightarrow> 'x \<Rightarrow> 'x" where
  "idb_drop E b x = (case ix_db b of Some db \<Rightarrow> ib_disconnect E db x | None \<Rightarrow> x)"

section \<open>What IndexedDB promises\<close>

definition backend_tables :: "('d \<Rightarrow> named_tables) \<Rightarrow> 'd idb_backend \<Rightarrow> tables" where
  "backend_tables view b = (case ix_db b of Some db \<Rightarrow> tables_of (view db) | None \<Rightarrow> tables_default)"

text \<open>The records a cursor runs over, in its direction.\<close>

definition walked :: "cursor_direction \<Rightarrow> bounds option \<Rightarrow> tree \<Rightarrow> (bytes \<times> bytes) list" where
  "walked d r x =
     (case d of Dir_Next \<Rightarrow> id | Dir_Prev \<Rightarrow> rev)
       (filter (\<lambda>(k, _). case r of Some bs \<Rightarrow> in_bounds bs k | None \<Rightarrow> True) (bt_entries x))"

locale idb_contract =
  fixes E :: "('x, 'd, 'u, 't, 's, 'r, 'c, 'j) idb" and view :: "'d \<Rightarrow> named_tables" and seen :: "'t \<Rightarrow> named_tables"
    and store_name :: "'s \<Rightarrow> string" and range_of :: "'r \<Rightarrow> bounds" and left :: "'c \<Rightarrow> (bytes \<times> bytes) list" and valued :: "'c \<Rightarrow> bool"
  assumes bytes_spec: "ib_to_vec E (ib_from E bs) = bs"
    and begin_spec: "ib_begin E names rw db = Inr t \<Longrightarrow> seen t = view db"
    and store_spec: "ib_object_store E n t = Inr s \<Longrightarrow> store_name s = n \<and> seen t n \<noteq> None"
    and get_spec: "ib_get E s j t = Inr got \<Longrightarrow> seen t (store_name s) = Some x \<Longrightarrow> map_option (ib_to_vec E) got = bt_lookup x (ib_to_vec E j)"
    and range_spec: "ib_range E js = Inr r \<Longrightarrow> range_of r = map_prod (map_bound (ib_to_vec E)) (map_bound (ib_to_vec E)) js"
    and cursor_spec: "ib_open_cursor E s d ro t = Inr c \<Longrightarrow> seen t (store_name s) = Some x
          \<Longrightarrow> left c = walked d (map_option range_of ro) x \<and> valued c"
    and key_cursor_spec: "ib_open_key_cursor E s d ro t = Inr c \<Longrightarrow> seen t (store_name s) = Some x
          \<Longrightarrow> left c = walked d (map_option range_of ro) x"
    and key_spec: "map_option (ib_to_vec E) (ib_key E c) = (case left c of [] \<Rightarrow> None | p # _ \<Rightarrow> Some (fst p))"
    and value_spec: "valued c \<Longrightarrow> left c = p # rest \<Longrightarrow> map_option (ib_to_vec E) (ib_value E c) = Some (snd p)"
    and advance_spec: "ib_advance E c = Inr c' \<Longrightarrow> left c' = tl (left c) \<and> (valued c \<longrightarrow> valued c')"
    and completed_spec: "ib_advance E c = Inl (Cursor_Completed why) \<Longrightarrow> tl (left c) = []"
    and put_spec: "ib_put_kv E s k v t = Inr t' \<Longrightarrow> seen t (store_name s) = Some x
          \<Longrightarrow> seen t' = (seen t)(store_name s \<mapsto> bt_insert (ib_to_vec E k) (ib_to_vec E v) x)"
    and delete_spec: "ib_delete E s k t = Inr t' \<Longrightarrow> seen t (store_name s) = Some x
          \<Longrightarrow> seen t' = (seen t)(store_name s \<mapsto> bt_remove (ib_to_vec E k) x)"
    and clear_spec: "ib_clear E s t = Inr t' \<Longrightarrow> seen t' = (seen t)(store_name s \<mapsto> bt_empty)"
    and delete_range_spec: "ib_delete_range E s js t = Inr t' \<Longrightarrow> seen t (store_name s) = Some x
          \<Longrightarrow> seen t' = (seen t)(store_name s \<mapsto>
                bt_filter (\<lambda>k _. \<not> in_bounds (map_prod (map_bound (ib_to_vec E)) (map_bound (ib_to_vec E)) js) k) x)"
    and abort_spec: "view (ib_abort E t db) = view db"
    and finish_spec: "ib_finish E t db = (Inr u, db') \<Longrightarrow> view db' = seen t"
    and finish_error_spec: "ib_finish E t db = (Inl e, db') \<Longrightarrow> view db' = view db"
    and size_spec: "view db n = Some x \<Longrightarrow> bt_len x \<le> ib_size E db"

lemma js_told_Inr [simp]: "js_told r = Inr x \<longleftrightarrow> r = Inr x"
  by (auto simp: js_told_def split: sum.splits)

lemma above_start_map [simp]: "map_bound (\<lambda>x. x) b = b"
  by (cases b) simp_all

context idb_contract
begin

lemma js_bounds_back [simp]:
  "map_prod (map_bound (ib_to_vec E)) (map_bound (ib_to_vec E)) (to_js_bounds E r) = (kr_start r, kr_end r)"
  by (simp add: to_js_bounds_def js_bytes_def bound.map_comp comp_def bytes_spec)

lemma in_js_bounds [simp]: "in_bounds (kr_start r, kr_end r) k \<longleftrightarrow> kr_contains r k"
  by (simp add: in_bounds_def kr_contains_def)

text \<open>A reading transaction.\<close>

lemma read_spec:
  assumes "idb_read E tab body db = Inr x"
  obtains s t where "body s t = Inr x" "store_name s = table_name tab"
    "seen t (table_name tab) = Some (tables_get (tables_of (view db)) tab)"
proof -
  obtain t s where t: "ib_begin E [table_name tab] False db = Inr t" "ib_object_store E (table_name tab) t = Inr s" "body s t = Inr x"
    using assms by (auto simp: idb_read_def idb_run_def rbind_eq_Inr_iff split: sum.splits prod.splits)
  then show thesis
    using begin_spec [OF t(1)] store_spec [OF t(2)] by (intro that [of s t]) auto
qed

lemma db_some: "idb_db b = Inr db \<Longrightarrow> backend_tables view b = tables_of (view db)"
  by (auto simp: idb_db_def backend_tables_def split: option.splits)

lemma get_exact:
  assumes "idb_get E b tab key = Inr v"
  shows "v = bt_lookup (tables_get (backend_tables view b) tab) key"
proof -
  obtain db got where db: "idb_db b = Inr db" "idb_read E tab (\<lambda>s. ib_get E s (js_bytes E key)) db = Inr got"
    and v: "v = map_option (ib_to_vec E) got"
    using assms by (auto simp: idb_get_def from_js_bytes_def rbind_eq_Inr_iff split: option.splits)
  from db(2) obtain s t where "ib_get E s (js_bytes E key) t = Inr got" "store_name s = table_name tab"
    "seen t (table_name tab) = Some (tables_get (tables_of (view db)) tab)" by (rule read_spec)
  then show ?thesis using get_spec [of s "js_bytes E key" t got] v db_some [OF db(1)] by (simp add: js_bytes_def bytes_spec)
qed

lemma get_many_exact:
  assumes "idb_get_many E b tab keys = Inr vs"
  shows "vs = map (bt_lookup (tables_get (backend_tables view b) tab)) keys"
proof -
  obtain db where db: "idb_db b = Inr db"
    and r: "idb_read E tab (\<lambda>s t. mapM_r (\<lambda>k. rbind (ib_get E s k t) (\<lambda>v. Inr (map_option (ib_to_vec E) v))) (map (js_bytes E) keys)) db = Inr vs"
    using assms by (auto simp: idb_get_many_def rbind_eq_Inr_iff)
  from r obtain s t where m: "mapM_r (\<lambda>k. rbind (ib_get E s k t) (\<lambda>v. Inr (map_option (ib_to_vec E) v))) (map (js_bytes E) keys) = Inr vs"
    and st: "store_name s = table_name tab" "seen t (table_name tab) = Some (tables_get (tables_of (view db)) tab)" by (rule read_spec)
  from m have "list_all2 (\<lambda>k v. v = bt_lookup (tables_get (tables_of (view db)) tab) k) keys vs"
    unfolding mapM_r_Inr_iff list.rel_map
    by (rule list_all2_mono)
      (use get_spec st in \<open>fastforce simp: rbind_eq_Inr_iff js_bytes_def bytes_spec\<close>)
  then have "vs = map (bt_lookup (tables_get (tables_of (view db)) tab)) keys" by (induction rule: list_all2_induct) simp_all
  then show ?thesis using db_some [OF db] by simp
qed

text \<open>The loop of a scan: what the cursor has left, up to the limit.\<close>

lemma cursor_item:
  assumes "want \<longrightarrow> valued c" "left c = p # rest" "ib_key E c = Some j"
  shows "(ib_to_vec E j, if want then map_option (ib_to_vec E) (ib_value E c) else None) = scan_item want p"
  using assms key_spec [of c] value_spec [of c p rest] by (cases want) (simp_all add: scan_item_def)

lemma cursor_end: "left c = [] \<Longrightarrow> cursor_loop E want limit items c = Inr (items, None)"
  using key_spec [of c] by (subst cursor_loop.simps) (cases "ib_key E c"; simp)

lemma cursor_step:
  assumes "want \<longrightarrow> valued c" "left c = p # rest"
  shows "cursor_loop E want limit items c =
    (let items = items @ [scan_item want p] in
     if length items \<ge> limit then
       (case ib_advance E c of
          Inr c \<Rightarrow> Inr (items, if left c \<noteq> [] then Some (fst (last items)) else None)
        | Inl (Cursor_Completed _) \<Rightarrow> Inr (items, None)
        | Inl e \<Rightarrow> Inl e)
     else
       (case ib_advance E c of
          Inr c \<Rightarrow> cursor_loop E want limit items c
        | Inl (Cursor_Completed _) \<Rightarrow> Inr (items, None)
        | Inl e \<Rightarrow> Inl e))"
proof -
  obtain j where j: "ib_key E c = Some j" using key_spec [of c] assms(2) by (cases "ib_key E c") simp_all
  have more: "ib_key E c' \<noteq> None \<longleftrightarrow> left c' \<noteq> []" for c' using key_spec [of c'] by (cases "ib_key E c'"; cases "left c'") simp_all
  show ?thesis
    by (subst cursor_loop.simps) (simp only: j option.case Let_def cursor_item [OF assms j] more)
qed

lemma cursor_loop_spec:
  assumes "cursor_loop E want limit items c = Inr (out, resume)" "want \<longrightarrow> valued c" "limit = length items + Suc d"
  shows "out = items @ map (scan_item want) (take (Suc d) (left c))
    \<and> (resume = None \<and> length (left c) \<le> Suc d \<or> resume = Some (fst (last out)) \<and> Suc d < length (left c))"
  using assms
proof (induction d arbitrary: items c)
  case (0 items c)
  show ?case
  proof (cases "left c")
    case Nil
    then show ?thesis using 0 cursor_end [OF Nil] by simp
  next
    case (Cons p rest)
    note run = 0(1) [unfolded cursor_step [OF 0(2) Cons]]
    show ?thesis
    proof (cases "ib_advance E c")
      case (Inl e)
      then show ?thesis using run 0(3) Cons completed_spec [of c] by (cases e) auto
    next
      case (Inr c')
      then have "left c' = rest" using advance_spec [OF Inr] Cons by simp
      then show ?thesis using run 0(3) Cons Inr by (auto simp: Let_def split: if_splits)
    qed
  qed
next
  case (Suc d items c)
  show ?case
  proof (cases "left c")
    case Nil
    then show ?thesis using Suc.prems cursor_end [OF Nil] by simp
  next
    case (Cons p rest)
    note run = Suc.prems(1) [unfolded cursor_step [OF Suc.prems(2) Cons]]
    show ?thesis
    proof (cases "ib_advance E c")
      case (Inl e)
      then show ?thesis using run Suc.prems(3) Cons completed_spec [of c] by (cases e) auto
    next
      case (Inr c')
      have c': "left c' = rest" "want \<longrightarrow> valued c'" using advance_spec [OF Inr] Cons Suc.prems(2) by simp_all
      have "cursor_loop E want limit (items @ [scan_item want p]) c' = Inr (out, resume)" using run Suc.prems(3) Inr by simp
      moreover have "limit = length (items @ [scan_item want p]) + Suc d" using Suc.prems(3) by simp
      ultimately have ih: "out = (items @ [scan_item want p]) @ map (scan_item want) (take (Suc d) rest)
        \<and> (resume = None \<and> length rest \<le> Suc d \<or> resume = Some (fst (last out)) \<and> Suc d < length rest)"
        using Suc.IH [OF _ c'(2)] unfolding c'(1) by blast
      then have tail: "resume = None \<and> length rest \<le> Suc d \<or> resume = Some (fst (last out)) \<and> Suc d < length rest" by blast
      from ih have "out = (items @ [scan_item want p]) @ map (scan_item want) (take (Suc d) rest)" by blast
      then have "out = items @ map (scan_item want) (take (Suc (Suc d)) (left c))" using Cons by simp
      moreover have "resume = None \<and> length (left c) \<le> Suc (Suc d) \<or> resume = Some (fst (last out)) \<and> Suc (Suc d) < length (left c)"
        using tail Cons by auto
      ultimately show ?thesis by blast
    qed
  qed
qed

lemma cursor_walks:
  assumes "(if want then ib_open_cursor E else ib_open_key_cursor E) s d ro t = Inr c" "seen t (store_name s) = Some x"
  shows "left c = walked d (map_option range_of ro) x" "want \<longrightarrow> valued c"
  using assms cursor_spec key_cursor_spec by (auto split: if_splits)

lemma walked_scan_order:
  "walked (if rq_reverse rq then Dir_Prev else Dir_Next)
      (if range_is_all (rq_range rq) then None else Some (kr_start (rq_range rq), kr_end (rq_range rq))) x
    = scan_order x (rq_range rq) (rq_reverse rq)"
  by (auto simp: walked_def scan_order_def tree_range_def range_is_all_def kr_contains_def intro!: arg_cong [where f = rev] filter_cong)

lemma scan_answers_page:
  assumes "idb_scan E b rq = Inr pg" "0 < rq_limit rq"
  shows "page_of (tables_get (backend_tables view b) (rq_table rq)) rq pg"
proof -
  let ?dir = "if rq_reverse rq then Dir_Prev else Dir_Next" and ?want = "rq_want_values rq"
  let ?range = "if range_is_all (rq_range rq) then Inr None else rbind (ib_range E (to_js_bounds E (rq_range rq))) (\<lambda>r. Inr (Some r))"
  obtain db where db: "idb_db b = Inr db"
    and r: "idb_read E (rq_table rq) (\<lambda>s t. rbind ?range (\<lambda>range.
      rbind ((if ?want then ib_open_cursor E else ib_open_key_cursor E) s ?dir range t) (\<lambda>c.
      rbind (cursor_loop E ?want (rq_limit rq) [] c) (\<lambda>(items, resume). Inr \<lparr>pg_items = items, pg_resume = resume\<rparr>)))) db = Inr pg"
    using assms(1) by (auto simp: idb_scan_def rbind_eq_Inr_iff Let_def)
  let ?x = "tables_get (tables_of (view db)) (rq_table rq)"
  from r obtain s t ro c items resume where ro: "?range = Inr ro"
    and c: "(if ?want then ib_open_cursor E else ib_open_key_cursor E) s ?dir ro t = Inr c"
    and run: "cursor_loop E ?want (rq_limit rq) [] c = Inr (items, resume)" and pg: "pg = \<lparr>pg_items = items, pg_resume = resume\<rparr>"
    and st: "store_name s = table_name (rq_table rq)" "seen t (table_name (rq_table rq)) = Some ?x"
    by (rule read_spec) (auto simp: rbind_eq_Inr_iff split: if_splits)
  have "map_option range_of ro = (if range_is_all (rq_range rq) then None else Some (kr_start (rq_range rq), kr_end (rq_range rq)))"
    using ro range_spec [of "to_js_bounds E (rq_range rq)"] by (auto simp: rbind_eq_Inr_iff split: if_splits)
  then have walk: "left c = scan_order ?x (rq_range rq) (rq_reverse rq)" and v: "?want \<longrightarrow> valued c"
    using cursor_walks [OF c] st walked_scan_order [of rq ?x] by simp_all
  obtain d where d: "rq_limit rq = Suc d" using assms(2) gr0_implies_Suc by blast
  have out: "items = map (scan_item ?want) (take (rq_limit rq) (left c))"
    "resume = None \<and> length (left c) \<le> rq_limit rq \<or> resume = Some (fst (last items)) \<and> rq_limit rq < length (left c)"
  proof -
    have "rq_limit rq = length ([] :: (bytes \<times> bytes option) list) + Suc d" using d by simp
    note page = cursor_loop_spec [OF run v this]
    from page show "items = map (scan_item ?want) (take (rq_limit rq) (left c))" unfolding d by simp
    from page show "resume = None \<and> length (left c) \<le> rq_limit rq \<or> resume = Some (fst (last items)) \<and> rq_limit rq < length (left c)"
      unfolding d by blast
  qed
  have "page_of ?x rq pg"
  proof (cases "resume = None")
    case True
    then show ?thesis using out by (auto simp: page_of_def pg Let_def walk)
  next
    case False
    then have more: "resume = Some (fst (last items))" "rq_limit rq < length (left c)" using out(2) by auto
    then have "take (rq_limit rq) (left c) \<noteq> []" using assms(2) by auto
    then show ?thesis using more out(1) by (auto simp: page_of_def pg Let_def walk last_map scan_item_def)
  qed
  then show ?thesis using db_some [OF db] by simp
qed

text \<open>A commit.\<close>

lemma op_exact:
  assumes "idb_op E t op = Inr t'"
  shows "tables_of (seen t') = apply_op (tables_of (seen t)) op"
proof (rule tables_eqI, rule btree_eqI)
  fix tab k
  show "bt_lookup (tables_get (tables_of (seen t')) tab) k = bt_lookup (tables_get (apply_op (tables_of (seen t)) op) tab) k"
  proof (cases op)
    case (Op_Put tab' key v)
    then obtain s where s: "ib_object_store E (table_name tab') t = Inr s" "ib_put_kv E s (js_bytes E key) (js_bytes E v) t = Inr t'"
      using assms by (auto simp: rbind_eq_Inr_iff)
    from store_spec [OF s(1)] obtain x where x: "store_name s = table_name tab'" "seen t (table_name tab') = Some x" by auto
    from put_spec [OF s(2)] x show ?thesis by (simp add: Op_Put js_bytes_def bytes_spec)
  next
    case (Op_Delete tab' key)
    then obtain s where s: "ib_object_store E (table_name tab') t = Inr s" "ib_delete E s (js_bytes E key) t = Inr t'"
      using assms by (auto simp: rbind_eq_Inr_iff)
    from store_spec [OF s(1)] obtain x where x: "store_name s = table_name tab'" "seen t (table_name tab') = Some x" by auto
    from delete_spec [OF s(2)] x show ?thesis by (simp add: Op_Delete js_bytes_def bytes_spec)
  next
    case (Op_DeleteRange tab' r)
    then obtain s where s: "ib_object_store E (table_name tab') t = Inr s"
      "(if range_is_all r then ib_clear E s t else ib_delete_range E s (to_js_bounds E r) t) = Inr t'"
      using assms by (auto simp: rbind_eq_Inr_iff)
    from store_spec [OF s(1)] obtain x where x: "store_name s = table_name tab'" "seen t (table_name tab') = Some x" by auto
    show ?thesis
    proof (cases "range_is_all r")
      case True
      then have "kr_contains r k" by (simp add: range_is_all_def kr_contains_def)
      then show ?thesis using clear_spec [of s t t'] s(2) True x by (auto simp: Op_DeleteRange)
    next
      case False
      then show ?thesis using delete_range_spec [of s "to_js_bounds E r" t t'] s(2) x by (auto simp: Op_DeleteRange split: option.split)
    qed
  qed
qed

lemma ops_exact: "foldM_r (idb_op E) t ops = Inr t' \<Longrightarrow> tables_of (seen t') = apply_ops (tables_of (seen t)) ops"
  by (induction ops arbitrary: t) (auto simp: rbind_eq_Inr_iff op_exact)

lemma commit_cases:
  assumes "idb_commit E ops b = (r, b')"
  shows "case r of Inl e \<Rightarrow> backend_tables view b' = backend_tables view b
    | Inr _ \<Rightarrow> backend_tables view b' = apply_ops (backend_tables view b) ops"
proof (cases "ix_db b")
  case None
  then show ?thesis using assms by (auto simp: idb_commit_def)
next
  case (Some db)
  let ?body = "\<lambda>t. rbind (foldM_r (idb_op E) t ops) (\<lambda>t. Inr ((), t))"
  obtain q db' where run: "idb_run E STORES True ?body db = (q, db')" by fastforce
  have b': "r = js_told q" "b' = b\<lparr>ix_db := Some db'\<rparr>" using assms Some run by (simp_all add: idb_commit_def)
  have "case q of Inl e \<Rightarrow> view db' = view db | Inr _ \<Rightarrow> tables_of (view db') = apply_ops (tables_of (view db)) ops"
    using run begin_spec ops_exact abort_spec finish_spec finish_error_spec
    by (fastforce simp: idb_run_def rbind_def split: sum.splits prod.splits)
  then show ?thesis using b' Some by (cases q) (simp_all add: backend_tables_def js_told_def)
qed

lemma stored_bound: "bt_len (tables_get (backend_tables view b) tab) < bk_fuel (idb_backend_vt E window) b"
proof (cases "ix_db b")
  case (Some db)
  then show ?thesis
    using size_spec [of db "table_name tab"]
    by (cases "view db (table_name tab)") (auto simp: backend_tables_def idb_backend_vt_def le_imp_less_Suc)
qed (cases tab; simp add: backend_tables_def idb_backend_vt_def tables_default_def)

lemma backend_kept: "backend_contract (idb_backend_vt E window) (backend_tables view)"
proof unfold_locales
  fix b b' ops opts r e u
  show "bk_commit (idb_backend_vt E window) ops b = (Inr u, b') \<Longrightarrow> backend_tables view b' = apply_ops (backend_tables view b) ops"
    "bk_commit_with (idb_backend_vt E window) ops opts b = (Inr u, b') \<Longrightarrow> backend_tables view b' = apply_ops (backend_tables view b) ops"
    using commit_cases [of ops b "Inr u"] by (simp_all add: idb_backend_vt_def default_commit_with_def)
  show "bk_commit (idb_backend_vt E window) ops b = (Inl e, b') \<Longrightarrow> backend_tables view b' = backend_tables view b"
    "bk_commit_with (idb_backend_vt E window) ops opts b = (Inl e, b') \<Longrightarrow> backend_tables view b' = backend_tables view b"
    using commit_cases [of ops b "Inl e"] by (simp_all add: idb_backend_vt_def default_commit_with_def)
qed (use get_exact get_many_exact scan_answers_page stored_bound in \<open>auto simp: idb_backend_vt_def DEFAULT_SCAN_PAGE_def\<close>)

end

sublocale idb_contract \<subseteq> backend: backend_contract "idb_backend_vt E window" "backend_tables view" for window
  by (rule backend_kept)

text \<open>What opening a database is to come to, whether it answers a backend or an error.\<close>

definition open_outcome :: "('x \<Rightarrow> string \<Rightarrow> named_tables option) \<Rightarrow> ('d \<Rightarrow> named_tables) \<Rightarrow> string \<Rightarrow> 'x \<Rightarrow> 'd idb_backend result
    \<Rightarrow> 'x \<Rightarrow> bool" where
  "open_outcome databases view name x r x' \<longleftrightarrow>
     (\<forall>n. n \<noteq> name \<longrightarrow> databases x' n = databases x n)
     \<and> (\<forall>ts. databases x name = Some ts \<longrightarrow> ts \<noteq> Map.empty \<longrightarrow> databases x' name = Some ts)
     \<and> (\<forall>b. r = Inr b \<longrightarrow> (\<exists>db. b = \<lparr>ix_db = Some db, ix_name = name\<rparr> \<and> databases x' name = Some (view db)
         \<and> set STORES \<subseteq> dom (view db)
         \<and> tables_of (view db) = (case databases x name of Some ts \<Rightarrow> tables_of ts | None \<Rightarrow> tables_default)))"

text \<open>What the browser promises of databases by name: \<open>databases\<close> is what it keeps.\<close>

locale idb_browser = idb_contract E view seen store_name range_of left valued
  for E :: "('x, 'd, 'u, 't, 's, 'r, 'c, 'j) idb" and view seen store_name range_of left valued +
  fixes databases :: "'x \<Rightarrow> string \<Rightarrow> named_tables option" and upgraded :: "'u \<Rightarrow> named_tables"
  assumes open_spec: "ib_open E n v f x = (Inr db, x') \<Longrightarrow>
      case databases x n of
        Some ts \<Rightarrow> view db = ts \<and> databases x' = databases x
      | None \<Rightarrow> \<exists>u u'. upgraded u = Map.empty \<and> f u = Inr u' \<and> view db = upgraded u' \<and> databases x' = (databases x)(n \<mapsto> upgraded u')"
    and open_error_spec: "ib_open E n v f x = (Inl e, x') \<Longrightarrow> databases x' = databases x"
    and create_spec: "ib_create_store E store u = Inr u' \<Longrightarrow> upgraded u' = (upgraded u)(store \<mapsto> bt_empty)"
    and drop_spec: "ib_delete_database E n x = (Inr w, x') \<Longrightarrow> databases x' = (databases x)(n := None)"
    and drop_error_spec: "ib_delete_database E n x = (Inl e, x') \<Longrightarrow> databases x' = databases x"
    and names_spec: "set (ib_store_names E db) = dom (view db)"
    and disconnect_spec: "databases (ib_disconnect E db x) = databases x"
begin

text \<open>The tables of a database that an upgrade has made.\<close>

definition made :: named_tables where
  "made = [''meta'' \<mapsto> bt_empty, ''records'' \<mapsto> bt_empty, ''chunks'' \<mapsto> bt_empty]"

lemma connect_cases:
  assumes "idb_connect E name x = (r, x')"
  shows "case r of
      Inl e \<Rightarrow> databases x' = databases x
    | Inr db \<Rightarrow> (case databases x name of
          Some ts \<Rightarrow> view db = ts \<and> databases x' = databases x
        | None \<Rightarrow> view db = made \<and> databases x' = (databases x)(name \<mapsto> made))"
proof (cases "ib_factory E")
  case (Inl e)
  then show ?thesis using assms by (auto simp: idb_connect_def sbind_def slift_def js_told_def)
next
  case (Inr u0)
  let ?f = "\<lambda>u. foldM_r (\<lambda>u store. ib_create_store E store u) u STORES"
  obtain q where q: "ib_open E name IDB_VERSION ?f x = (q, x')" "r = js_told q"
    using assms Inr by (cases "ib_open E name IDB_VERSION ?f x") (auto simp: idb_connect_def sbind_def slift_def js_told_def)
  have made: "upgraded u' = made" if "?f u = Inr u'" "upgraded u = Map.empty" for u u'
    using that by (auto simp: STORES_def rbind_eq_Inr_iff create_spec made_def)
  show ?thesis
  proof (cases q)
    case (Inl e)
    then show ?thesis using q open_error_spec by (simp add: js_told_def)
  next
    case (Inr db)
    then show ?thesis using q open_spec [of name IDB_VERSION ?f x db x'] made by (auto simp: js_told_def split: option.splits)
  qed
qed

lemma delete_cases:
  assumes "delete_database E name x = (r, x')"
  shows "case r of Inl e \<Rightarrow> databases x' = databases x | Inr _ \<Rightarrow> databases x' = (databases x)(name := None)"
proof (cases "ib_factory E")
  case (Inr u0)
  obtain q where q: "ib_delete_database E name x = (q, x')" "r = js_told q"
    using assms Inr by (cases "ib_delete_database E name x") (auto simp: delete_database_def sbind_def slift_def js_told_def)
  then show ?thesis using drop_spec drop_error_spec by (cases q) (simp_all add: js_told_def)
qed (use assms in \<open>auto simp: delete_database_def sbind_def slift_def js_told_def\<close>)

lemma missing_none: "missing_stores (ib_store_names E db) = [] \<longleftrightarrow> set STORES \<subseteq> dom (view db)"
  by (auto simp: missing_stores_def filter_empty_conv list_ex_iff names_spec [symmetric])

lemma names_none: "ib_store_names E db = [] \<longleftrightarrow> view db = Map.empty"
  by (metis dom_eq_empty_conv names_spec set_empty)

text \<open>\<open>open\<close> after the first connection.\<close>

lemma made_stores: "set STORES \<subseteq> dom made" "made \<noteq> Map.empty" "tables_of made = tables_default"
  by (auto simp: STORES_def made_def tables_of_def tables_default_def fun_eq_iff)

lemma opened_again:
  assumes "idb_connect E name x = (Inr db, x1)" "view db \<noteq> Map.empty" "idb_open E name x = (r, x')"
  shows "open_outcome databases view name x r x'"
proof -
  have "(missing_stores (ib_store_names E db) = [] \<longrightarrow> r = Inr \<lparr>ix_db = Some db, ix_name = name\<rparr>)
      \<and> (missing_stores (ib_store_names E db) \<noteq> [] \<longrightarrow> isl r) \<and> databases x' = databases x1"
    using assms disconnect_spec
    by (auto simp: idb_open_def sbind_def sret_def smod_def slift_def Let_def names_none split: if_splits)
  then show ?thesis using connect_cases [OF assms(1)] assms(2) missing_none [of db] made_stores
    by (auto simp: open_outcome_def split: option.splits if_splits)
qed

lemma opened_shell:
  assumes "idb_connect E name x = (Inr db, x1)" "view db = Map.empty" "idb_open E name x = (r, x')"
  shows "open_outcome databases view name x r x'"
proof -
  have old: "databases x name = Some Map.empty" "databases x1 = databases x"
    using connect_cases [OF assms(1)] assms(2) made_stores(2) by (auto split: option.splits)
  obtain w x2 where w: "delete_database E name (ib_disconnect E db x1) = (w, x2)" by fastforce
  note gone = delete_cases [OF w, unfolded disconnect_spec old(2)]
  note run = assms w idb_open_def sbind_def smod_def sret_def names_none
  show ?thesis
  proof (cases w)
    case (Inl e)
    then show ?thesis using assms w gone old by (auto simp: run open_outcome_def)
  next
    case (Inr u)
    obtain q x3 where q: "idb_connect E name x2 = (q, x3)" by fastforce
    have x2: "databases x2 = (databases x)(name := None)" using gone Inr by simp
    note second = connect_cases [OF q, unfolded x2]
    show ?thesis
    proof (cases q)
      case (Inl e)
      then show ?thesis using assms w \<open>w = Inr u\<close> q second old by (auto simp: run open_outcome_def)
    next
      case (Inr db2)
      then have v: "view db2 = made" "databases x3 = (databases x)(name \<mapsto> made)" using second by auto
      have "missing_stores (ib_store_names E db2) = []" using missing_none [of db2] made_stores(1) v by simp
      then have "r = Inr \<lparr>ix_db = Some db2, ix_name = name\<rparr>" "x' = x3"
        using assms w \<open>w = Inr u\<close> q Inr by (auto simp: run Let_def)
      moreover have "tables_of Map.empty = tables_default" by (simp add: tables_of_def tables_default_def)
      ultimately show ?thesis using v old made_stores by (auto simp: open_outcome_def)
    qed
  qed
qed

lemma open_cases:
  assumes "idb_open E name x = (r, x')"
  shows "open_outcome databases view name x r x'"
proof -
  obtain q x1 where q: "idb_connect E name x = (q, x1)" by fastforce
  show ?thesis
  proof (cases q)
    case (Inl e)
    then show ?thesis using assms q connect_cases [OF q] by (auto simp: idb_open_def sbind_def open_outcome_def)
  next
    case (Inr db)
    then show ?thesis using opened_again opened_shell assms q by (cases "view db = Map.empty") simp_all
  qed
qed

end

section \<open>Properties\<close>

text \<open>A browser in memory that keeps the promises.\<close>

definition plain_idb :: "((string \<times> plain_db) list, plain_db, plain_db, plain_db, string, bounds, (bytes \<times> bytes) list, bytes) idb" where
  "plain_idb =
     (let look = (\<lambda>t s. tree_or_empty (map_of t s)); first = (\<lambda>f c. case c of [] \<Rightarrow> None | p # _ \<Rightarrow> Some (f p)) in
      \<lparr>ib_from = (\<lambda>bs. bs), ib_to_vec = (\<lambda>bs. bs), ib_factory = Inr (),
       ib_open = (\<lambda>n v f x. case map_of x n of Some d \<Rightarrow> (Inr d, x)
          | None \<Rightarrow> (case f [] of Inl e \<Rightarrow> (Inl e, x) | Inr u \<Rightarrow> (Inr u, (n, u) # x))),
       ib_create_store = (\<lambda>n u. Inr ((n, bt_empty) # u)), ib_delete_database = (\<lambda>n x. (Inr (), filter (\<lambda>p. fst p \<noteq> n) x)),
       ib_store_names = map fst, ib_disconnect = (\<lambda>d x. x), ib_begin = (\<lambda>names rw d. Inr d),
       ib_object_store = (\<lambda>n t. if map_of t n = None then Inl (Idb_Failed ''NotFoundError'') else Inr n),
       ib_get = (\<lambda>s k t. Inr (bt_lookup (look t s) k)), ib_range = (\<lambda>(a, b). if is_degenerate a b then Inl (Idb_Failed ''DataError'') else Inr (a, b)),
       ib_open_cursor = (\<lambda>s d r t. Inr (walked d r (look t s))), ib_open_key_cursor = (\<lambda>s d r t. Inr (walked d r (look t s))),
       ib_key = first fst, ib_value = first snd, ib_advance = (\<lambda>c. Inr (tl c)),
       ib_put_kv = (\<lambda>s k v t. Inr (plain_update s (bt_insert k v) t)), ib_delete = (\<lambda>s k t. Inr (plain_update s (bt_remove k) t)),
       ib_clear = (\<lambda>s t. Inr (plain_update s (\<lambda>_. bt_empty) t)),
       ib_delete_range = (\<lambda>s bs t. Inr (plain_update s (bt_filter (\<lambda>k _. \<not> in_bounds bs k)) t)),
       ib_abort = (\<lambda>t d. d), ib_finish = (\<lambda>t d. (Inr (), t)), ib_size = (\<lambda>d. sum_list (map (\<lambda>(n, x). bt_len x) d))\<rparr>)"

lemma map_bound_same [simp]: "map_bound (\<lambda>x. x) = (\<lambda>b. b)" "map_prod (\<lambda>b. b) (\<lambda>b. b) = (\<lambda>p. p)"
  by (auto simp: fun_eq_iff)

lemma plain_drop: "map_of (filter (\<lambda>p. fst p \<noteq> n) x) = (map_of x)(n := None)"
  by (induction x) (auto simp: fun_eq_iff)

interpretation plain_web: idb_browser plain_idb map_of map_of "\<lambda>s. s" "\<lambda>r. r" "\<lambda>c. c" "\<lambda>c. True"
    "\<lambda>x n. map_option map_of (map_of x n)" map_of
  by unfold_locales
    (auto simp: plain_idb_def Let_def plain_update_def plain_size plain_drop fun_eq_iff dom_map_of_conv_image_fst option.map_ident
      split: option.splits list.splits sum.splits if_splits, intro exI [of _ "[]"], auto)

text \<open>
  C15: Over a browser that does what IndexedDB documents, the web backend keeps the contract of a backend: a read
  tells what is stored, a scan answers a page of the range in order, a commit applies all its
  operations in order or, when any request fails, none, and a flush changes nothing stored.
\<close>

theorem idb_keeps_contract:
  assumes "idb_contract E view seen store_name range_of left valued"
  shows "backend_contract (idb_backend_vt E window) (backend_tables view)"
  by (rule idb_contract.backend_kept [OF assms])

theorem idb_keeps_contract_witness:
  "backend_contract (idb_backend_vt plain_idb None) (backend_tables map_of)"
  by (rule idb_keeps_contract [OF plain_web.idb_contract_axioms])

text \<open>
  C16: Opening a bank in the browser, whatever fails on the way, leaves every other database and every database
  with an object store as it was; what it opens has the three tables with everything stored in them, and a
  database without object stores is made anew.
\<close>

theorem idb_open_exact:
  assumes "idb_browser E view seen store_name range_of left valued databases upgraded" "idb_open E name x = (r, x')"
  shows "(\<forall>n. n \<noteq> name \<longrightarrow> databases x' n = databases x n)
    \<and> (\<forall>ts. databases x name = Some ts \<longrightarrow> ts \<noteq> Map.empty \<longrightarrow> databases x' name = Some ts)
    \<and> (\<forall>b. r = Inr b \<longrightarrow> (\<exists>db. b = \<lparr>ix_db = Some db, ix_name = name\<rparr> \<and> databases x' name = Some (view db)
        \<and> set STORES \<subseteq> dom (view db)
        \<and> tables_of (view db) = (case databases x name of Some ts \<Rightarrow> tables_of ts | None \<Rightarrow> tables_default)))"
  using idb_browser.open_cases [OF assms] unfolding open_outcome_def .

theorem idb_open_exact_witness:
  "map_option map_of (map_of (snd (idb_open plain_idb ''bank'' [(''bank'', []), (''other'', [(''s'', bt_empty)])])) ''other'')
    = Some (map_of [(''s'', bt_empty)])"
proof -
  let ?x = "[(''bank'', []), (''other'', [(''s'', bt_empty)])] :: (string \<times> plain_db) list"
  obtain r x' where run: "idb_open plain_idb ''bank'' ?x = (r, x')" by fastforce
  have "''other'' \<noteq> ''bank''" by simp
  with idb_open_exact [OF plain_web.idb_browser_axioms run]
  have "map_option map_of (map_of x' ''other'') = map_option map_of (map_of ?x ''other'')" by (elim conjE allE [of _ "''other''"] impE)
  moreover have "map_of ?x ''other'' = Some [(''s'', bt_empty)]" by simp
  ultimately show ?thesis by (simp only: run snd_conv option.map)
qed

section \<open>Ranges IndexedDB refuses\<close>

text \<open>
  \<open>IDBKeyRange.bound\<close> throws a \<open>DataError\<close> on bounds that are inverted, or equal with one of them open: on bytes
  these are the bounds that \<open>is_degenerate\<close> finds out before a walk. But a walk tests the bounds of the
  caller, and the scan is of the bounds that encoding makes of them.
\<close>

definition refuses_degenerate :: "('x, 'd, 'u, 't, 's, 'r, 'c, 'j) idb \<Rightarrow> bool" where
  "refuses_degenerate E \<longleftrightarrow>
     (\<forall>r. is_degenerate (kr_start r) (kr_end r) \<longrightarrow> isl (ib_range E (to_js_bounds E r)))"

lemma empty_end_encoded: "encode_range_bytes l Unbounded (Excluded []) = \<lparr>kr_start = Included (be32 l), kr_end = Excluded (be32 l)\<rparr>"
  using locker_range_cases [of l]
  by (auto simp: encode_range_bytes_def encode_bytes_def locker_range_def kr_prefix_def Let_def split: option.split)

lemma read_fails: "(\<And>s t. isl (body s t)) \<Longrightarrow> isl (idb_read E tab body db)"
  by (auto simp: idb_read_def idb_run_def js_told_def rbind_def isl_def split: sum.splits) (metis sum.distinct(1))

lemma scan_refused:
  assumes "refuses_degenerate E" "is_degenerate (kr_start (rq_range rq)) (kr_end (rq_range rq))"
  shows "isl (idb_scan E b rq)"
proof -
  have "\<not> range_is_all (rq_range rq)" using assms(2) by (auto simp: range_is_all_def)
  moreover obtain e where "ib_range E (to_js_bounds E (rq_range rq)) = Inl e" using assms by (auto simp: refuses_degenerate_def isl_def)
  ultimately have "isl (idb_read E (rq_table rq) (\<lambda>s t.
      rbind (if range_is_all (rq_range rq) then Inr None
             else rbind (ib_range E (to_js_bounds E (rq_range rq))) (\<lambda>r. Inr (Some r))) (\<lambda>range.
      rbind ((if rq_want_values rq then ib_open_cursor E else ib_open_key_cursor E) s (if rq_reverse rq then Dir_Prev else Dir_Next) range t) (\<lambda>c.
      rbind (cursor_loop E (rq_want_values rq) (rq_limit rq) [] c) (\<lambda>(items, resume).
        Inr \<lparr>pg_items = items, pg_resume = resume\<rparr>)))) db)" for db
    by (intro read_fails) simp
  then show ?thesis by (cases "idb_db b") (simp_all add: idb_scan_def Let_def)
qed

text \<open>
  C18: A range without a start that ends before the empty key holds nothing, and a walk over it answers nothing
  on the memory backend; it passes the test for degenerate bounds, and on a browser that refuses such bounds as
  IndexedDB does the walk is an error.
\<close>

theorem empty_end_fails_on_web:
  assumes "refuses_degenerate E" "\<not> mb_closed m"
  shows "\<not> is_degenerate Unbounded (Excluded ([] :: bytes))
    \<and> walk memory_backend_vt m l Unbounded (Excluded []) reverse want visit acc = Inr acc
    \<and> isl (walk (idb_backend_vt E window) b l Unbounded (Excluded []) reverse want visit acc)"
proof (intro conjI)
  show "\<not> is_degenerate Unbounded (Excluded ([] :: bytes))" by simp
  let ?rq = "\<lambda>n. \<lparr>rq_table = Records, rq_range = encode_range_bytes l Unbounded (Excluded []), rq_reverse = reverse, rq_limit = n, rq_want_values = want\<rparr>"
  have "scan_order t (encode_range_bytes l Unbounded (Excluded [])) reverse = []" for t
    by (auto simp: empty_end_encoded scan_order_def tree_range_def kr_contains_def filter_empty_conv)
  then show "walk memory_backend_vt m l Unbounded (Excluded []) reverse want visit acc = Inr acc"
    using mem.page_loop_live [OF assms(2), of "?rq (bk_scan_page_size memory_backend_vt)" "walk_item l visit" acc] mem.page_size_spec
    by (simp add: walk_def empty_end_encoded)
  have "isl (bk_scan (idb_backend_vt E window) b (?rq n))" for n
    using scan_refused [OF assms(1), of "?rq n" b] by (simp add: idb_backend_vt_def empty_end_encoded)
  then obtain e where "bk_scan (idb_backend_vt E window) b (?rq (bk_scan_page_size (idb_backend_vt E window))) = Inl e" by (metis isl_def)
  moreover obtain n where "bk_fuel (idb_backend_vt E window) b = Suc n" by (cases "ix_db b") (simp_all add: idb_backend_vt_def)
  ultimately show "isl (walk (idb_backend_vt E window) b l Unbounded (Excluded []) reverse want visit acc)"
    by (simp add: walk_def)
qed

theorem empty_end_fails_on_web_witness:
  "walk memory_backend_vt memory_new 1 Unbounded (Excluded []) False False (\<lambda>n k v. Inr (Suc n)) 0 = Inr 0
    \<and> isl (walk (idb_backend_vt plain_idb None) \<lparr>ix_db = Some [(''records'', bt_empty)], ix_name = ''bank''\<rparr> 1
          Unbounded (Excluded []) False False (\<lambda>n k v. Inr (Suc n)) (0 :: nat))"
proof -
  have "js_bytes plain_idb = (\<lambda>bs. bs)" by (simp add: fun_eq_iff js_bytes_def plain_idb_def Let_def)
  then have "to_js_bounds plain_idb r = (kr_start r, kr_end r)" for r by (simp add: to_js_bounds_def)
  moreover have "is_degenerate x y \<Longrightarrow> isl (ib_range plain_idb (x, y))" for x y by (simp add: plain_idb_def Let_def)
  ultimately have "refuses_degenerate plain_idb" by (simp add: refuses_degenerate_def)
  from empty_end_fails_on_web [OF this, of memory_new 1 False False "\<lambda>n k v. Inr (Suc n)" 0 None
      "\<lparr>ix_db = Some [(''records'', bt_empty)], ix_name = ''bank''\<rparr>"]
  show ?thesis by (simp add: memory_new_def)
qed

end
