(* ===== verification/Web_Coherence.thy ===== *)
theory Web_Coherence
  imports Js_Values Lazy_Locker
begin

text \<open>
  \<open>src/coherence/web.rs\<close>: the news a bank posts to the other tabs of its origin over a \<open>BroadcastChannel\<close>, how an
  announcement is put into a JavaScript value and read back, and what a tab does with a message. The channel is
  the browser's: posting on it is the message it carries, which every other open channel of that name
  receives. A sink is a locker, by number, held weakly.
\<close>

section \<open>Messages\<close>

definition encode_change :: "change \<Rightarrow> js" where
  "encode_change c = J_Object
     [(''key'', J_Bytes (cg_key c)),
      (''value'', case cg_value c of Some bs \<Rightarrow> J_Bytes bs | None \<Rightarrow> J_Null),
      (''bytes'', case cg_bytes c of Some n \<Rightarrow> J_Number (nat_as_f64 (unat n)) | None \<Rightarrow> J_Null),
      (''deleted'', J_Bool (cg_deleted c))]"

definition encode_message :: "announcement \<Rightarrow> js" where
  "encode_message a = J_Object
     [(''instance'', J_Number (nat_as_f64 (unat (an_instance a)))),
      (''locker_id'', J_Number (nat_as_f64 (unat (an_locker_id a)))),
      (''epoch'', J_Number (nat_as_f64 (unat (an_epoch a)))),
      (''cleared'', J_Bool (an_cleared a)),
      (''changes'', J_Array (map encode_change (an_changes a)))]"

text \<open>A number that is a size: finite and not negative.\<close>

definition decode_size :: "js \<Rightarrow> u64 option" where
  "decode_size v =
     (case finite_number (as_f64 v) of Some x \<Rightarrow> if x \<ge> 0 then Some (f64_as_word (Finite x)) else None | None \<Rightarrow> None)"

text \<open>One round of the loop over the changes: an item without a key is passed over.\<close>

definition decode_change :: "js \<Rightarrow> change option" where
  "decode_change item =
     (case Option.bind (js_get item ''key'') as_uint8_array of
        None \<Rightarrow> None
      | Some key \<Rightarrow>
          Some \<lparr>cg_key = key, cg_value = Option.bind (js_get item ''value'') as_uint8_array,
            cg_bytes = Option.bind (js_get item ''bytes'') decode_size,
            cg_deleted = (case Option.bind (js_get item ''deleted'') as_bool of Some b \<Rightarrow> b | None \<Rightarrow> False)\<rparr>)"

definition decode_message :: "js \<Rightarrow> announcement option" where
  "decode_message v =
     Option.bind (Option.bind (js_get v ''instance'') as_f64) (\<lambda>inst.
     Option.bind (Option.bind (js_get v ''locker_id'') as_f64) (\<lambda>locker.
     Option.bind (Option.bind (js_get v ''epoch'') as_f64) (\<lambda>epoch.
     Option.bind (js_get v ''cleared'') (\<lambda>cleared.
       Some \<lparr>an_instance = f64_as_word inst, an_locker_id = f64_as_word locker, an_epoch = f64_as_word epoch,
         an_cleared = (case as_bool cleared of Some b \<Rightarrow> b | None \<Rightarrow> False),
         an_changes = (case Option.bind (js_get v ''changes'') as_array of
            Some items \<Rightarrow> List.map_filter decode_change items | None \<Rightarrow> [])\<rparr>))))"

section \<open>The channel of a bank\<close>

text \<open>A \<open>BroadcastChannel\<close> of the browser: its name, whether it is open, and whether it has a message handler.\<close>

record channel =
  bc_name :: string
  bc_open :: bool
  bc_listens :: bool

record web_coherence =
  wc_instance :: u32
  wc_epoch :: u64
  wc_channel :: "channel option"
  wc_sinks :: "nat list"
  wc_on_message :: bool

text \<open>\<open>Math.random()\<close> is the argument: a number from 0 up to 1.\<close>

definition instance_id :: "rat \<Rightarrow> u32" where
  "instance_id random = f64_as_word (Finite (random * of_nat (unat (- 1 :: u32))))"

definition web_disabled :: "rat \<Rightarrow> web_coherence" where
  "web_disabled random = \<lparr>wc_instance = instance_id random, wc_epoch = 0, wc_channel = None, wc_sinks = [], wc_on_message = False\<rparr>"

text \<open>\<open>open\<close>, given whether the browser makes the channel.\<close>

definition web_open :: "rat \<Rightarrow> bool \<Rightarrow> string \<Rightarrow> web_coherence" where
  "web_open random made name =
     (let me = web_disabled random in
      if \<not> made then me
      else me\<lparr>wc_on_message := True, wc_channel := Some \<lparr>bc_name = ''crossbank::'' @ name, bc_open = True, bc_listens = True\<rparr>\<rparr>)"

definition web_is_enabled :: "web_coherence \<Rightarrow> bool" where
  "web_is_enabled c \<longleftrightarrow> wc_channel c \<noteq> None"

text \<open>\<open>alive\<close> is \<open>strong_count() > 0\<close>.\<close>

definition web_register :: "(nat \<Rightarrow> bool) \<Rightarrow> nat \<Rightarrow> web_coherence \<Rightarrow> web_coherence" where
  "web_register alive k c = (if \<not> web_is_enabled c then c else c\<lparr>wc_sinks := filter alive (wc_sinks c) @ [k]\<rparr>)"

definition web_prepare :: "locker_id \<Rightarrow> bop list \<Rightarrow> web_coherence \<Rightarrow> announcement option \<times> web_coherence" where
  "web_prepare l ops c =
     (if wc_channel c = None then (None, c)
      else
        let epoch = wc_epoch c + 1; c = c\<lparr>wc_epoch := epoch\<rparr>
        in (announcement_from_ops (wc_instance c) l epoch ops, c))"

text \<open>What is carried: nothing on a channel that has been closed, where posting throws.\<close>

definition web_post :: "announcement \<Rightarrow> web_coherence \<Rightarrow> js option" where
  "web_post a c =
     (case wc_channel c of
        None \<Rightarrow> None
      | Some ch \<Rightarrow> if bc_open ch then Some (encode_message a) else None)"

definition web_close :: "web_coherence \<Rightarrow> web_coherence" where
  "web_close c =
     c\<lparr>wc_channel := map_option (\<lambda>ch. ch\<lparr>bc_listens := False, bc_open := False\<rparr>) (wc_channel c),
       wc_on_message := False, wc_sinks := []\<rparr>"

text \<open>
  The handler: \<open>alive\<close> and \<open>sink_id\<close> of a sink are as they are when the message comes, \<open>apply\<close> is its locker's.
\<close>

definition on_message :: "web_coherence \<Rightarrow> ('s \<Rightarrow> nat \<Rightarrow> bool) \<Rightarrow> ('s \<Rightarrow> nat \<Rightarrow> locker_id)
    \<Rightarrow> (nat \<Rightarrow> announcement \<Rightarrow> 's \<Rightarrow> 's) \<Rightarrow> js \<Rightarrow> 's \<Rightarrow> 's" where
  "on_message c alive sink_id apply v s =
     (case decode_message v of
        None \<Rightarrow> s
      | Some a \<Rightarrow>
          if an_instance a = wc_instance c then s
          else fold (\<lambda>k. apply k a) (filter (\<lambda>k. alive s k \<and> sink_id s k = an_locker_id a) (wc_sinks c)) s)"

text \<open>A channel delivers a message where it is open and listens.\<close>

definition receive :: "web_coherence \<Rightarrow> ('s \<Rightarrow> nat \<Rightarrow> bool) \<Rightarrow> ('s \<Rightarrow> nat \<Rightarrow> locker_id)
    \<Rightarrow> (nat \<Rightarrow> announcement \<Rightarrow> 's \<Rightarrow> 's) \<Rightarrow> js \<Rightarrow> 's \<Rightarrow> 's" where
  "receive c alive sink_id apply v s =
     (case wc_channel c of
        Some ch \<Rightarrow> if bc_open ch \<and> bc_listens ch then on_message c alive sink_id apply v s else s
      | None \<Rightarrow> s)"

section \<open>A message is read as it was written\<close>

definition sizes_fit :: "announcement \<Rightarrow> bool" where
  "sizes_fit a \<longleftrightarrow> unat (an_epoch a) < 2 ^ 53 \<and> (\<forall>c\<in>set (an_changes a). \<forall>n. cg_bytes c = Some n \<longrightarrow> unat n < 2 ^ 53)"

lemma small_id: "unat (w :: u32) < 2 ^ 53"
  using unsigned_less [of w, where 'a = nat] by simp

lemma decode_size_word: "unat n < 2 ^ 53 \<Longrightarrow> decode_size (J_Number (nat_as_f64 (unat n))) = Some n"
  using word_round_trip [of n] by (simp add: decode_size_def nat_as_f64_exact finite_number_def del: of_nat_unat)

lemma change_round_trip: "(\<And>n. cg_bytes c = Some n \<Longrightarrow> unat n < 2 ^ 53) \<Longrightarrow> decode_change (encode_change c) = Some c"
  by (cases "cg_value c"; cases "cg_bytes c")
    (simp_all add: decode_change_def encode_change_def decode_size_word, simp_all add: decode_size_def finite_number_def)

lemma changes_round_trip:
  "\<forall>c\<in>set cs. \<forall>n. cg_bytes c = Some n \<longrightarrow> unat n < 2 ^ 53 \<Longrightarrow> List.map_filter decode_change (map encode_change cs) = cs"
  by (induction cs) (simp_all add: List.map_filter_simps change_round_trip)

lemma message_round_trip: "sizes_fit a \<Longrightarrow> decode_message (encode_message a) = Some a"
  using changes_round_trip [of "an_changes a"] word_round_trip [of "an_epoch a"]
    word_round_trip [OF small_id, of "an_instance a"] word_round_trip [OF small_id, of "an_locker_id a"]
  by (simp add: decode_message_def encode_message_def sizes_fit_def)

section \<open>The index of another tab\<close>

lemma remote_budget_index [simp]: "rs_index (remote_budget k n d s) = rs_index s" "rs_index (remote_budget_clear s) = rs_index s"
  by (simp_all add: remote_budget_def remote_budget_clear_def on_lru_def split: option.split)

lemma announced_fields [simp]: "rs_index (announce X e s) = rs_index s" "rs_index (note_inline k b s) = rs_index s" "rs_index (forget_inline s) = rs_index s"
  by (simp_all add: announce_def note_inline_def forget_inline_def)

lemma sink_change_index:
  assumes "rs_index s = Some i"
  obtains j where "rs_index (lazy_sink_change X c s) = Some j" "set (bt_keys j) = index_change (set (bt_keys i)) c"
proof -
  let ?j = "(if cg_deleted c then bt_remove (cg_key c) else ks_insert (cg_key c)) i"
  have "rs_index (lazy_sink_change X c s) = Some ?j" using assms by (simp add: lazy_sink_change_def Let_def touch_index_def)
  moreover have "set (bt_keys ?j) = index_change (set (bt_keys i)) c"
    by (auto simp: index_change_def ks_insert_def split: if_splits)
  ultimately show thesis by (rule that)
qed

lemma sink_changes_index:
  "rs_index s = Some i \<Longrightarrow> \<exists>j. rs_index (fold (lazy_sink_change X) cs s) = Some j \<and> set (bt_keys j) = foldl index_change (set (bt_keys i)) cs"
proof (induction cs arbitrary: s i)
  case (Cons c cs)
  obtain j where "rs_index (lazy_sink_change X c s) = Some j" "set (bt_keys j) = index_change (set (bt_keys i)) c"
    by (rule sink_change_index [OF Cons.prems])
  from Cons.IH [OF this(1)] this(2) show ?case by simp
qed simp

lemma sink_apply_index:
  assumes "\<not> in_closed s" "rs_index s = Some i"
  shows "\<exists>j. rs_index (lazy_sink_apply X a s) = Some j \<and> set (bt_keys j) = announced_index (an_cleared a, an_changes a) (set (bt_keys i))"
proof (cases "an_cleared a")
  case True
  let ?s = "announce X Ev_Cleared (remote_budget_clear (forget_inline (touch_index (\<lambda>_. bt_empty) s))
      \<lparr>in_epochs := forget_local (in_epochs (remote_budget_clear (forget_inline (touch_index (\<lambda>_. bt_empty) s))))\<rparr>)"
  have "rs_index ?s = Some bt_empty" using assms(2) by (simp add: touch_index_def)
  from sink_changes_index [OF this, of X "an_changes a"] show ?thesis
    using assms(1) True by (simp add: lazy_sink_apply_def announced_index_def bt_keys_def Let_def)
next
  case False
  then show ?thesis using sink_changes_index [OF assms(2), of X "an_changes a"] assms(1)
    by (simp add: lazy_sink_apply_def announced_index_def)
qed

section \<open>Tabs\<close>

text \<open>The open lazy lockers of a tab, by number, and what a message does to them.\<close>

definition sink_apply :: "(nat \<Rightarrow> ('b, 'q) ctx) \<Rightarrow> nat \<Rightarrow> announcement \<Rightarrow> (nat \<Rightarrow> ('b, 'q) resident option) \<Rightarrow> nat \<Rightarrow> ('b, 'q) resident option" where
  "sink_apply Xs k a s = s(k := map_option (lazy_sink_apply (Xs k) a) (s k))"

definition hears :: "web_coherence \<Rightarrow> (nat \<Rightarrow> ('b, 'q) ctx) \<Rightarrow> js option \<Rightarrow> (nat \<Rightarrow> ('b, 'q) resident option)
    \<Rightarrow> nat \<Rightarrow> ('b, 'q) resident option" where
  "hears c Xs message s =
     (case message of
        None \<Rightarrow> s
      | Some v \<Rightarrow> receive c (\<lambda>s k. s k \<noteq> None) (\<lambda>s k. cx_id (Xs k)) (sink_apply Xs) v s)"

text \<open>What a commit that lands posts.\<close>

definition announced :: "locker_id \<Rightarrow> bop list \<Rightarrow> web_coherence \<Rightarrow> js option \<times> web_coherence" where
  "announced l ops c = (case web_prepare l ops c of (None, c) \<Rightarrow> (None, c) | (Some a, c) \<Rightarrow> (web_post a c, c))"

lemma fold_sink_apply:
  "distinct ks \<Longrightarrow> fold (\<lambda>k. sink_apply Xs k a) ks s k' = (if k' \<in> set ks then map_option (lazy_sink_apply (Xs k') a) (s k') else s k')"
  by (induction ks arbitrary: s) (auto simp: sink_apply_def)

lemma parsed_size:
  assumes "map_option cp_total_len (ok (pointer_parse v)) = Some n"
  shows "unat n < 2 ^ 53"
proof -
  obtain p where "pointer_parse v = Inr p" "n = cp_total_len p" using assms by (cases "pointer_parse v") (auto simp: ok_def)
  then show ?thesis by (simp add: pointer_parse_Inr_iff pointer_ok_def MAX_DECODED_BYTES_def)
qed

definition small_sizes :: "change list \<Rightarrow> bool" where
  "small_sizes cs \<longleftrightarrow> (\<forall>c\<in>set cs. \<forall>n. cg_bytes c = Some n \<longrightarrow> unat n < 2 ^ 53)"

lemma small_sizes_append: "small_sizes (cs @ ds) \<longleftrightarrow> small_sizes cs \<and> small_sizes ds"
  by (auto simp: small_sizes_def)

lemma small_sizes_one: "(\<And>n. m = Some n \<Longrightarrow> unat n < 2 ^ 53) \<Longrightarrow> small_sizes [\<lparr>cg_key = k, cg_value = v, cg_bytes = m, cg_deleted = d\<rparr>]"
  by (simp add: small_sizes_def)

lemma announce_op_sizes:
  assumes "small_sizes (snd news)"
  shows "small_sizes (snd (announce_op l news op))"
proof -
  obtain cl cs where n: "news = (cl, cs)" by (cases news)
  then have cs: "small_sizes cs" using assms by simp
  have put: "small_sizes [\<lparr>cg_key = k, cg_value = i, cg_bytes = if b then map_option cp_total_len (ok (pointer_parse v)) else None,
      cg_deleted = d\<rparr>]" for k i b v d
    using parsed_size [of v] by (intro small_sizes_one) (simp split: if_split_asm)
  have del: "small_sizes [\<lparr>cg_key = k, cg_value = i, cg_bytes = None, cg_deleted = d\<rparr>]" for k i d
    by (rule small_sizes_one) simp
  have none: "small_sizes []" by (simp add: small_sizes_def)
  show ?thesis
  proof (cases op)
    case (Op_Put tab key v)
    then show ?thesis using cs put
      by (cases tab; cases "decode_bytes l key") (simp_all add: n small_sizes_append Let_def del: map_option_eq_Some)
  next
    case (Op_Delete tab key)
    then show ?thesis using cs del by (cases tab; cases "decode_bytes l key") (simp_all add: n small_sizes_append)
  next
    case (Op_DeleteRange tab r)
    then show ?thesis using cs none by (cases tab) (simp_all add: n)
  qed
qed

lemma announce_ops_sizes: "small_sizes (snd news) \<Longrightarrow> small_sizes (snd (foldl (announce_op l) news ops))"
  by (induction ops arbitrary: news) (simp_all add: announce_op_sizes)

lemma announced_sizes: "announcement_from_ops inst l epoch ops = Some a \<Longrightarrow> small_sizes (an_changes a)"
  using announce_ops_sizes [of "(False, [])" l ops]
  by (auto simp: announcement_from_ops_def small_sizes_def [of "[]"] split: prod.splits if_splits)

lemma announcement_fields:
  "announcement_from_ops inst l epoch ops = Some a \<Longrightarrow> an_instance a = inst \<and> an_locker_id a = l \<and> an_epoch a = epoch"
  by (auto simp: announcement_from_ops_def split: prod.splits if_splits)

section \<open>Properties\<close>

text \<open>
  A message is read as the announcement it was written from, as long as its epoch and the sizes in it are
  below \<open>2 ^ 53\<close>, which a double holds exactly.
\<close>

theorem web_message_round_trip:
  assumes "unat (an_epoch a) < 2 ^ 53" "\<forall>c\<in>set (an_changes a). \<forall>n. cg_bytes c = Some n \<longrightarrow> unat n < 2 ^ 53"
  shows "decode_message (encode_message a) = Some a"
  using assms by (intro message_round_trip) (simp add: sizes_fit_def)

theorem web_message_round_trip_witness:
  "decode_message (encode_message \<lparr>an_instance = 7, an_locker_id = 1, an_epoch = 3, an_cleared = True,
      an_changes = [\<lparr>cg_key = [1], cg_value = None, cg_bytes = Some 5000, cg_deleted = False\<rparr>]\<rparr>)
    = Some \<lparr>an_instance = 7, an_locker_id = 1, an_epoch = 3, an_cleared = True,
      an_changes = [\<lparr>cg_key = [1], cg_value = None, cg_bytes = Some 5000, cg_deleted = False\<rparr>]\<rparr>"
  by (rule web_message_round_trip) simp_all

text \<open>
  C17: When a bank commits operations of a locker and posts them, every tab that hears it has in the index of that
  locker exactly the keys now stored, if it had the stored keys before; its other lockers are as they were, and
  the bank that posted does not apply its own message.
\<close>

theorem web_tabs_agree:
  assumes "\<forall>op\<in>set ops. clears_whole op"
    and A: "wc_channel A = Some ch" "bc_open ch" "unat (wc_epoch A) < 2 ^ 53 - 1"
    and B: "wc_channel B = Some ch'" "bc_open ch'" "bc_listens ch'" "wc_instance B \<noteq> wc_instance A" "distinct (wc_sinks B)"
    and k: "k \<in> set (wc_sinks B)" "s k = Some st" "cx_id (Xs k) = l"
    and st: "\<not> in_closed st" "rs_index st = Some i" "set (bt_keys i) = stored_index l t"
  shows "(\<exists>st' j. hears B Xs (fst (announced l ops A)) s k = Some st' \<and> rs_index st' = Some j
        \<and> set (bt_keys j) = stored_index l (apply_ops t ops))
    \<and> (\<forall>k'. cx_id (Xs k') \<noteq> l \<longrightarrow> hears B Xs (fst (announced l ops A)) s k' = s k')
    \<and> hears (snd (announced l ops A)) Xs (fst (announced l ops A)) s = s"
proof -
  let ?A = "A\<lparr>wc_epoch := wc_epoch A + 1\<rparr>"
  let ?news = "announcement_from_ops (wc_instance A) l (wc_epoch A + 1) ops"
  have keep: "stored_index l (apply_ops t ops) = (case ?news of None \<Rightarrow> set (bt_keys i)
      | Some a \<Rightarrow> announced_index (an_cleared a, an_changes a) (set (bt_keys i)))"
    by (rule announcement_keeps_index [OF assms(1) st(3) [symmetric]])
  have prep: "web_prepare l ops A = (?news, ?A)" using A(1) by (simp add: web_prepare_def Let_def)
  show ?thesis
  proof (cases ?news)
    case None
    then show ?thesis using k(2) st(2) keep prep by (auto simp: announced_def hears_def)
  next
    case (Some a)
    note f = announcement_fields [OF Some]
    have "unat (wc_epoch A + 1) < 2 ^ 53"
      using A(3) by (subst unat_add_lem [THEN iffD1]) simp_all
    then have "sizes_fit a" using announced_sizes [OF Some] f by (simp add: sizes_fit_def small_sizes_def)
    then have read: "decode_message (encode_message a) = Some a" by (rule message_round_trip)
    have news: "announced l ops A = (Some (encode_message a), ?A)" using prep Some A(1,2) by (simp add: announced_def web_post_def)
    let ?ks = "filter (\<lambda>k. s k \<noteq> None \<and> cx_id (Xs k) = l) (wc_sinks B)"
    have heard: "hears B Xs (Some (encode_message a)) s = fold (\<lambda>k. sink_apply Xs k a) ?ks s"
      using B read f by (simp add: hears_def receive_def on_message_def)
    have "hears B Xs (Some (encode_message a)) s k = Some (lazy_sink_apply (Xs k) a st)"
      using B(5) k by (simp add: heard fold_sink_apply)
    moreover obtain j where "rs_index (lazy_sink_apply (Xs k) a st) = Some j"
        "set (bt_keys j) = announced_index (an_cleared a, an_changes a) (set (bt_keys i))"
      using sink_apply_index [OF st(1,2)] by blast
    moreover have "\<forall>k'. cx_id (Xs k') \<noteq> l \<longrightarrow> hears B Xs (Some (encode_message a)) s k' = s k'"
      using B(5) by (simp add: heard fold_sink_apply)
    moreover have "hears ?A Xs (Some (encode_message a)) s = s"
      using read f A(1) by (simp add: hears_def receive_def on_message_def)
    ultimately show ?thesis using news keep Some by auto
  qed
qed

definition tab_ctx :: "(memory_backend, unit) ctx" where
  "tab_ctx = \<lparr>cx_backend = memory_backend_vt, cx_chain = chain_raw, cx_id = 1, cx_name = ''notes'',
     cx_config = config_default, cx_try_send = (\<lambda>ev q. (Send_Full, q)), cx_vec_u8 = Inr\<rparr>"

definition tab_state :: "(memory_backend, unit) resident" where
  "tab_state = resident_new TxLazy (Some bt_empty) None (inner_new
     \<lparr>sh_store = memory_new, sh_values = None, sh_ticks = ticks_default, sh_coherence = coherence_disabled\<rparr>)"

definition posting_tab :: web_coherence where
  "posting_tab = web_open (1 / 2) True ''notes''"

definition other_tab :: web_coherence where
  "other_tab = web_register (\<lambda>_. True) 0 (web_open 0 True ''notes'')"

lemma half_of_ids: "\<lfloor>4294967295 / 2 :: rat\<rfloor> = 2147483647"
  by (simp add: floor_eq_iff)

lemma tab_fields:
  "wc_channel posting_tab = Some \<lparr>bc_name = ''crossbank::notes'', bc_open = True, bc_listens = True\<rparr>" "wc_epoch posting_tab = 0"
  "wc_channel other_tab = Some \<lparr>bc_name = ''crossbank::notes'', bc_open = True, bc_listens = True\<rparr>" "wc_sinks other_tab = [0]"
  "wc_instance other_tab \<noteq> wc_instance posting_tab" "cx_id tab_ctx = 1"
  "\<not> in_closed tab_state" "rs_index tab_state = Some bt_empty" "stored_index 1 tables_default = {}"
  by (simp_all add: posting_tab_def other_tab_def web_open_def web_register_def web_disabled_def web_is_enabled_def instance_id_def
      f64_as_word_def tab_ctx_def tab_state_def resident_new_def inner_new_def stored_index_def tables_default_def
      resident.defs inner_state.defs shared.defs unsigned_minus_1_eq_mask mask_eq_exp_minus_1
      half_of_ids)

theorem web_tabs_agree_witness:
  "\<exists>st' j. hears other_tab (\<lambda>_. tab_ctx) (fst (announced 1 [Op_Put Records (encode_bytes 1 [5]) [9]] posting_tab))
        (\<lambda>k. if k = 0 then Some tab_state else None) 0 = Some st' \<and> rs_index st' = Some j \<and> set (bt_keys j) = {[5]}"
proof -
  have "stored_index 1 (apply_ops tables_default [Op_Put Records (encode_bytes 1 [5]) [9]]) = {[5]}"
    by (auto simp: tab_fields stored_index_op)
  then show ?thesis
    using web_tabs_agree [of "[Op_Put Records (encode_bytes 1 [5]) [9]]" posting_tab _ other_tab _ 0
        "\<lambda>k. if k = 0 then Some tab_state else None" tab_state "\<lambda>_. tab_ctx" 1 bt_empty tables_default]
    by (simp add: tab_fields bt_keys_def)
qed

end
