(* ===== verification/Locations.thy ===== *)
theory Locations
  imports Bank Redb_Backend
begin

text \<open>
  \<open>src/bank.rs\<close>, where banks are: \<open>Location\<close>, \<open>BankConfig\<close>, \<open>Bank::open\<close>, \<open>delete_bank\<close> and \<open>OPEN_BANKS\<close>, the files
  this process holds open, in the native build. The file system is a state of its own, with the calls of \<open>std::fs\<close>
  and \<open>Database::create\<close> as a record.
\<close>

section \<open>Configuration\<close>

datatype location = Loc_Memory | Loc_Path string | Loc_Web string

record bank_config =
  cf_location :: location
  cf_coherence :: bool
  cf_chain :: "filter_chain option"

definition config_memory :: bank_config where
  "config_memory = \<lparr>cf_location = Loc_Memory, cf_coherence = False, cf_chain = None\<rparr>"

definition config_at :: "string \<Rightarrow> bank_config" where
  "config_at path = \<lparr>cf_location = Loc_Path path, cf_coherence = False, cf_chain = None\<rparr>"

definition config_web :: "string \<Rightarrow> bank_config" where
  "config_web name = \<lparr>cf_location = Loc_Web name, cf_coherence = False, cf_chain = None\<rparr>"

definition config_with_coherence :: "bool \<Rightarrow> bank_config \<Rightarrow> bank_config" where
  "config_with_coherence on c = c\<lparr>cf_coherence := on\<rparr>"

definition config_with_chain :: "filter_chain \<Rightarrow> bank_config \<Rightarrow> bank_config" where
  "config_with_chain ch c = c\<lparr>cf_chain := Some ch\<rparr>"

section \<open>The platform\<close>

datatype io_error = Io_Not_Found string | Io_Permission_Denied string | Io_Other string

fun io_error_text :: "io_error \<Rightarrow> string" where
  "io_error_text (Io_Not_Found e) = e"
| "io_error_text (Io_Permission_Denied e) = e"
| "io_error_text (Io_Other e) = e"

text \<open>
  The file system has a state \<open>'x\<close>; \<open>pl_create\<close> is \<open>Database::create\<close> at a path, \<open>pl_canonicalize\<close>, \<open>pl_absolute\<close> and
  \<open>pl_remove_file\<close> are calls of the standard library, \<open>pl_windows\<close> is \<open>cfg!(windows)\<close>. The rest are the engine and
  the libraries a bank needs.
\<close>

record ('x, 'd, 'r, 'h, 'w, 'q) platform =
  pl_create :: "string \<Rightarrow> ('x, string, 'd) act"
  pl_canonicalize :: "string \<Rightarrow> 'x \<Rightarrow> string option"
  pl_absolute :: "string \<Rightarrow> string option"
  pl_remove_file :: "string \<Rightarrow> ('x, io_error, unit) act"
  pl_windows :: bool
  pl_redb :: "('d, 'r, 'h, 'w) redb"
  pl_file_len :: "string \<Rightarrow> u64 option"
  pl_compress :: "bytes \<Rightarrow> bytes"
  pl_decompress :: "bytes \<Rightarrow> string + bytes"
  pl_hash :: "bytes \<Rightarrow> u32"
  pl_try_send :: "'q try_send"
  pl_vec_u8 :: "bytes serde"

definition memory_env :: "('x, 'd, 'r, 'h, 'w, 'q) platform \<Rightarrow> (memory_backend, 'q) env" where
  "memory_env P = \<lparr>ev_backend = memory_backend_vt, ev_try_send = pl_try_send P, ev_vec_u8 = pl_vec_u8 P\<rparr>"

definition redb_env :: "('x, 'd, 'r, 'h, 'w, 'q) platform \<Rightarrow> ('d redb_backend, 'q) env" where
  "redb_env P = \<lparr>ev_backend = redb_backend_vt (pl_redb P) (pl_file_len P), ev_try_send = pl_try_send P, ev_vec_u8 = pl_vec_u8 P\<rparr>"

section \<open>The banks of a process\<close>

text \<open>A bank over one of the two backends, with its \<open>tracked_path\<close>.\<close>

datatype ('d, 'q, 'v) mounted = On_Memory "(memory_backend, 'q, 'v) bank" | On_Redb "('d redb_backend, 'q, 'v) bank"

record ('d, 'q, 'v) located =
  lo_bank :: "('d, 'q, 'v) mounted"
  lo_tracked :: "string option"

text \<open>The file system, \<open>OPEN_BANKS\<close>, and the banks opened so far, \<open>None\<close> where one has been dropped.\<close>

record ('x, 'd, 'q, 'v) process =
  pr_files :: 'x
  pr_open_banks :: "string set"
  pr_banks :: "('d, 'q, 'v) located option list"

definition bank_key :: "('x, 'd, 'r, 'h, 'w, 'q) platform \<Rightarrow> string \<Rightarrow> 'x \<Rightarrow> string" where
  "bank_key P path x =
     (case pl_canonicalize P path x of
        Some k \<Rightarrow> k
      | None \<Rightarrow> (case pl_absolute P path of Some k \<Rightarrow> k | None \<Rightarrow> path))"

definition register_open_bank :: "string \<Rightarrow> ('x, 'd, 'q, 'v) process \<Rightarrow> ('x, 'd, 'q, 'v) process" where
  "register_open_bank k p = p\<lparr>pr_open_banks := insert k (pr_open_banks p)\<rparr>"

definition release_open_bank :: "string \<Rightarrow> ('x, 'd, 'q, 'v) process \<Rightarrow> ('x, 'd, 'q, 'v) process" where
  "release_open_bank k p = p\<lparr>pr_open_banks := pr_open_banks p - {k}\<rparr>"

definition bank_is_open :: "string \<Rightarrow> ('x, 'd, 'q, 'v) process \<Rightarrow> bool" where
  "bank_is_open k p \<longleftrightarrow> k \<in> pr_open_banks p"

definition chosen_chain :: "('x, 'd, 'r, 'h, 'w, 'q) platform \<Rightarrow> bank_config \<Rightarrow> filter_chain" where
  "chosen_chain P c =
     (case cf_chain c of Some ch \<Rightarrow> ch | None \<Rightarrow> default_chain (pl_compress P) (pl_decompress P) (pl_hash P))"

definition chosen_coherence :: "bank_config \<Rightarrow> coherence_state" where
  "chosen_coherence c =
     (case (cf_location c, cf_coherence c) of (Loc_Web name, True) \<Rightarrow> coherence_open name | _ \<Rightarrow> coherence_disabled)"

text \<open>\<open>RedbBackend::open\<close> on the file system.\<close>

definition open_file :: "('x, 'd, 'r, 'h, 'w, 'q) platform \<Rightarrow> string \<Rightarrow> ('x, error, 'd redb_backend) act" where
  "open_file P path x = (case pl_create P path x of (created, x) \<Rightarrow> (redb_open (pl_redb P) created path, x))"

text \<open>A bank that has been opened, under the next number.\<close>

definition add_bank :: "('d, 'q, 'v) mounted \<Rightarrow> string option \<Rightarrow> ('x, 'd, 'q, 'v) process \<Rightarrow> nat \<times> ('x, 'd, 'q, 'v) process" where
  "add_bank b k p = (length (pr_banks p), p\<lparr>pr_banks := pr_banks p @ [Some \<lparr>lo_bank = b, lo_tracked = k\<rparr>]\<rparr>)"

definition wasm_only_error :: error where
  "wasm_only_error = InvalidConfig ''Location::Web is wasm-only; use Location::Path on native''"

definition open_bank :: "('x, 'd, 'r, 'h, 'w, 'q) platform \<Rightarrow> bank_config \<Rightarrow> (('x, 'd, 'q, 'v) process, error, nat) act" where
  "open_bank P c p =
     (let coherence = chosen_coherence c; chain = chosen_chain P c in
      case cf_location c of
        Loc_Memory \<Rightarrow>
          (case assembled (memory_env P) memory_new chain coherence of
             Inl e \<Rightarrow> (Inl e, p)
           | Inr b \<Rightarrow> (case add_bank (On_Memory b) None p of (n, p) \<Rightarrow> (Inr n, p)))
      | Loc_Path path \<Rightarrow>
          (case open_file P path (pr_files p) of (r, x) \<Rightarrow>
           let p = p\<lparr>pr_files := x\<rparr> in
           case rbind r (\<lambda>b. assembled (redb_env P) b chain coherence) of
             Inl e \<Rightarrow> (Inl e, p)
           | Inr b \<Rightarrow>
               let key = bank_key P path x; p = register_open_bank key p in
               (case add_bank (On_Redb b) (Some key) p of (n, p) \<Rightarrow> (Inr n, p)))
      | Loc_Web name \<Rightarrow> (Inl wasm_only_error, p))"

fun mounted_closed :: "('d, 'q, 'v) mounted \<Rightarrow> bool" where
  "mounted_closed (On_Memory b) \<longleftrightarrow> bn_closed b"
| "mounted_closed (On_Redb b) \<longleftrightarrow> bn_closed b"

fun mounted_close :: "('x, 'd, 'r, 'h, 'w, 'q) platform \<Rightarrow> (('d, 'q, 'v) mounted, error, unit) act" where
  "mounted_close P (On_Memory b) = (case bank_close (memory_env P) b of (r, b) \<Rightarrow> (r, On_Memory b))"
| "mounted_close P (On_Redb b) = (case bank_close (redb_env P) b of (r, b) \<Rightarrow> (r, On_Redb b))"

text \<open>The bank with a number, if it has not been dropped, and a bank put in its place.\<close>

definition bank_at :: "nat \<Rightarrow> ('x, 'd, 'q, 'v) process \<Rightarrow> ('d, 'q, 'v) located option" where
  "bank_at n p = (if n < length (pr_banks p) then pr_banks p ! n else None)"

definition put_bank :: "nat \<Rightarrow> ('d, 'q, 'v) located option \<Rightarrow> ('x, 'd, 'q, 'v) process \<Rightarrow> ('x, 'd, 'q, 'v) process" where
  "put_bank n b p = p\<lparr>pr_banks := (pr_banks p)[n := b]\<rparr>"

definition release_tracked_path :: "nat \<Rightarrow> ('x, 'd, 'q, 'v) process \<Rightarrow> ('x, 'd, 'q, 'v) process" where
  "release_tracked_path n p =
     (case bank_at n p of
        None \<Rightarrow> p
      | Some b \<Rightarrow>
          let p = put_bank n (Some (b\<lparr>lo_tracked := None\<rparr>)) p in
          (case lo_tracked b of None \<Rightarrow> p | Some k \<Rightarrow> release_open_bank k p))"

definition close_bank :: "('x, 'd, 'r, 'h, 'w, 'q) platform \<Rightarrow> nat \<Rightarrow> (('x, 'd, 'q, 'v) process, error, unit) act" where
  "close_bank P n p =
     (case bank_at n p of
        None \<Rightarrow> (Inr (), p)
      | Some b \<Rightarrow>
          if mounted_closed (lo_bank b) then (Inr (), p)
          else (case mounted_close P (lo_bank b) of (r, m) \<Rightarrow>
                (r, release_tracked_path n (put_bank n (Some (b\<lparr>lo_bank := m\<rparr>)) p))))"

text \<open>\<open>Drop for Bank\<close>.\<close>

definition drop_bank :: "nat \<Rightarrow> ('x, 'd, 'q, 'v) process \<Rightarrow> ('x, 'd, 'q, 'v) process" where
  "drop_bank n p = put_bank n None (release_tracked_path n p)"

definition still_open_error :: "string \<Rightarrow> error" where
  "still_open_error path = InvalidConfig (''the bank at '' @ path @ '' is still open in this process; close the bank first'')"

definition held_elsewhere_error :: "string \<Rightarrow> error" where
  "held_elsewhere_error path = InvalidConfig (''the bank file '' @ path @ '' is held open by something else; close the bank first'')"

definition delete_bank :: "('x, 'd, 'r, 'h, 'w, 'q) platform \<Rightarrow> bank_config \<Rightarrow> (('x, 'd, 'q, 'v) process, error, unit) act" where
  "delete_bank P c p =
     (case cf_location c of
        Loc_Memory \<Rightarrow> (Inr (), p)
      | Loc_Path path \<Rightarrow>
          if bank_is_open (bank_key P path (pr_files p)) p then (Inl (still_open_error path), p)
          else
            (case pl_remove_file P path (pr_files p) of (r, x) \<Rightarrow>
             ((case r of
                 Inr _ \<Rightarrow> Inr ()
               | Inl (Io_Not_Found _) \<Rightarrow> Inr ()
               | Inl e \<Rightarrow>
                   if pl_windows P \<and> (case e of Io_Permission_Denied _ \<Rightarrow> True | _ \<Rightarrow> False) then
                     Inl (held_elsewhere_error path)
                   else Inl (Backend (''deleting the bank file '' @ path @ '': '' @ io_error_text e))),
              p\<lparr>pr_files := x\<rparr>))
      | Loc_Web name \<Rightarrow> (Inl wasm_only_error, p))"

section \<open>What the file system promises\<close>

text \<open>
  \<open>files\<close> is the set of files there are and \<open>held\<close> of those some database holds open, both by canonical name.
  A database is created only where no other holds the file; removing a path removes no file but the one it resolves to.
\<close>

locale file_system =
  fixes P :: "('x, 'd, 'r, 'h, 'w, 'q) platform"
    and files :: "'x \<Rightarrow> string set"
    and held :: "'x \<Rightarrow> string set"
  assumes create_spec: "pl_create P path x = (Inr db, x') \<Longrightarrow>
      \<exists>k. pl_canonicalize P path x' = Some k \<and> k \<notin> held x \<and> held x' = insert k (held x) \<and> insert k (files x) \<subseteq> files x'"
    and create_fails: "pl_create P path x = (Inl e, x') \<Longrightarrow> held x \<subseteq> held x' \<and> files x \<subseteq> files x'"
    and remove_spec: "pl_remove_file P path x = (Inr u, x') \<Longrightarrow>
      held x \<subseteq> held x' \<and> (\<forall>k\<in>files x. pl_canonicalize P path x \<noteq> Some k \<longrightarrow> k \<in> files x')"
    and remove_fails: "pl_remove_file P path x = (Inl f, x') \<Longrightarrow> held x \<subseteq> held x' \<and> files x \<subseteq> files x'"

text \<open>The keys of the banks that hold their place in \<open>OPEN_BANKS\<close>.\<close>

definition tracked_key :: "nat \<Rightarrow> ('x, 'd, 'q, 'v) process \<Rightarrow> string option" where
  "tracked_key n p = Option.bind (bank_at n p) lo_tracked"

definition tracked :: "('x, 'd, 'q, 'v) process \<Rightarrow> string set" where
  "tracked p = {k. \<exists>n. tracked_key n p = Some k}"

fun same_backend :: "('d, 'q, 'v) mounted \<Rightarrow> ('d, 'q, 'v) mounted \<Rightarrow> bool" where
  "same_backend (On_Memory _) (On_Memory _) = True"
| "same_backend (On_Redb _) (On_Redb _) = True"
| "same_backend _ _ = False"

text \<open>
  A process: it opens, closes, drops and deletes banks, uses the open ones in any way that does not close
  them, and others do to the file system what they like, except to the files of banks that are open here.
\<close>

inductive process_step :: "('x, 'd, 'r, 'h, 'w, 'q) platform \<Rightarrow> ('x \<Rightarrow> string set) \<Rightarrow> ('x \<Rightarrow> string set)
    \<Rightarrow> ('x, 'd, 'q, 'v) process \<Rightarrow> ('x, 'd, 'q, 'v) process \<Rightarrow> bool" for P files held where
  Open_Bank: "open_bank P c p = (r, p') \<Longrightarrow> process_step P files held p p'"
| Close_Bank: "close_bank P n p = (r', p') \<Longrightarrow> process_step P files held p p'"
| Drop_Bank: "process_step P files held p (drop_bank n p)"
| Delete_Bank: "delete_bank P c p = (r', p') \<Longrightarrow> process_step P files held p p'"
| Use_Bank: "bank_at n p = Some b \<Longrightarrow> same_backend (lo_bank b) m \<Longrightarrow> mounted_closed m = mounted_closed (lo_bank b)
    \<Longrightarrow> process_step P files held p (put_bank n (Some (b\<lparr>lo_bank := m\<rparr>)) p)"
| Others: "tracked p \<subseteq> held x \<Longrightarrow> tracked p \<subseteq> files x \<Longrightarrow> process_step P files held p (p\<lparr>pr_files := x\<rparr>)"

inductive process_run :: "('x, 'd, 'r, 'h, 'w, 'q) platform \<Rightarrow> ('x \<Rightarrow> string set) \<Rightarrow> ('x \<Rightarrow> string set)
    \<Rightarrow> ('x, 'd, 'q, 'v) process \<Rightarrow> bool" for P files held where
  Run_Start: "process_run P files held \<lparr>pr_files = x, pr_open_banks = {}, pr_banks = []\<rparr>"
| Run_Step: "process_run P files held p \<Longrightarrow> process_step P files held p p' \<Longrightarrow> process_run P files held p'"

definition tracked_right :: "('d, 'q, 'v) located \<Rightarrow> bool" where
  "tracked_right b \<longleftrightarrow>
     (case lo_bank b of On_Memory _ \<Rightarrow> lo_tracked b = None | On_Redb s \<Rightarrow> bn_closed s \<longleftrightarrow> lo_tracked b = None)"

definition process_inv :: "('x \<Rightarrow> string set) \<Rightarrow> ('x \<Rightarrow> string set) \<Rightarrow> ('x, 'd, 'q, 'v) process \<Rightarrow> bool" where
  "process_inv files held p \<longleftrightarrow>
     pr_open_banks p = tracked p \<and> tracked p \<subseteq> held (pr_files p) \<and> tracked p \<subseteq> files (pr_files p)
     \<and> (\<forall>n m k. tracked_key n p = Some k \<longrightarrow> tracked_key m p = Some k \<longrightarrow> n = m)
     \<and> (\<forall>n b. bank_at n p = Some b \<longrightarrow> tracked_right b)"

section \<open>Entries follow banks\<close>

lemma process_files [simp]:
  "bank_at n (p\<lparr>pr_files := x\<rparr>) = bank_at n p" "bank_at n (register_open_bank k p) = bank_at n p"
  "bank_at n (release_open_bank k p) = bank_at n p"
  "pr_files (register_open_bank k p) = pr_files p" "pr_files (release_open_bank k p) = pr_files p" "pr_files (put_bank n b p) = pr_files p"
  "tracked_key n (p\<lparr>pr_files := x\<rparr>) = tracked_key n p" "tracked (p\<lparr>pr_files := x\<rparr>) = tracked p"
  "pr_open_banks (put_bank n b p) = pr_open_banks p"
  by (simp_all add: bank_at_def register_open_bank_def release_open_bank_def put_bank_def tracked_def tracked_key_def)

lemma bank_at_put: "bank_at n p \<noteq> None \<Longrightarrow> bank_at m (put_bank n b p) = (if m = n then b else bank_at m p)"
  by (auto simp: bank_at_def put_bank_def)

lemma bank_at_added: "add_bank b k p = (n, p') \<Longrightarrow>
    bank_at m p' = (if m = n then Some \<lparr>lo_bank = b, lo_tracked = k\<rparr> else bank_at m p) \<and> bank_at n p = None
    \<and> pr_files p' = pr_files p \<and> pr_open_banks p' = pr_open_banks p"
  by (auto simp: add_bank_def bank_at_def nth_append)

lemma put_same:
  assumes "process_inv files held p" "bank_at n p = Some b" "lo_tracked b' = lo_tracked b" "tracked_right b'"
  shows "process_inv files held (put_bank n (Some b') p)"
proof -
  have at: "bank_at m (put_bank n (Some b') p) = (if m = n then Some b' else bank_at m p)" for m
    using assms(2) by (simp add: bank_at_put)
  then have "tracked_key m (put_bank n (Some b') p) = tracked_key m p" for m using assms(2,3) by (simp add: tracked_key_def)
  then show ?thesis using assms(1,4) at by (simp add: process_inv_def tracked_def split: if_splits)
qed

lemma untracked:
  assumes inv: "process_inv files held p" and b: "bank_at n p = Some b"
    and b': "\<forall>c. b' = Some c \<longrightarrow> lo_tracked c = None \<and> tracked_right c"
    and p': "p' = (case lo_tracked b of None \<Rightarrow> put_bank n b' p | Some k \<Rightarrow> release_open_bank k (put_bank n b' p))"
  shows "process_inv files held p'"
proof -
  have at: "bank_at m p' = (if m = n then b' else bank_at m p)" for m
    using b p' by (simp add: bank_at_put split: option.split)
  have keys: "tracked_key m p' = (if m = n then None else tracked_key m p)" for m
    using b' by (cases b') (auto simp: tracked_key_def at)
  have "lo_tracked b = tracked_key n p" using b by (simp add: tracked_key_def)
  then have "tracked p' = tracked p - {k. lo_tracked b = Some k}" using inv by (auto simp: tracked_def keys process_inv_def)
  moreover have "pr_open_banks p' = pr_open_banks p - {k. lo_tracked b = Some k}" "pr_files p' = pr_files p"
    using p' by (auto simp: release_open_bank_def split: option.splits)
  ultimately show ?thesis using inv b' by (auto simp: process_inv_def at keys)
qed

lemma put_twice [simp]: "put_bank n b (put_bank n c p) = put_bank n b p"
  by (simp add: put_bank_def)

lemma put_release: "put_bank n b (release_open_bank k p) = release_open_bank k (put_bank n b p)"
  by (simp add: put_bank_def release_open_bank_def)

lemma put_nothing: "bank_at n p = None \<Longrightarrow> put_bank n None p = p"
  by (cases "n < length (pr_banks p)") (simp_all add: bank_at_def put_bank_def list_update_same_conv list_update_beyond)

lemma bank_close_closes: "bank_close V s = (r, s') \<Longrightarrow> \<not> bn_closed s \<Longrightarrow> bn_closed s'"
  by (auto simp: bank_close_def on_store_def Let_def split: prod.splits)

lemma mounted_close_closes:
  "mounted_close P m = (r, m') \<Longrightarrow> \<not> mounted_closed m \<Longrightarrow> mounted_closed m' \<and> same_backend m m'"
  by (cases m) (auto dest: bank_close_closes split: prod.splits)

lemma closed_right: "mounted_closed m \<Longrightarrow> lo_tracked b = None \<Longrightarrow> lo_bank b = m \<Longrightarrow> tracked_right b"
  by (cases m) (simp_all add: tracked_right_def)

lemma close_inv:
  assumes inv: "process_inv files held p" and run: "close_bank P n p = (r, p')"
  shows "process_inv files held p'"
proof (cases "bank_at n p")
  case None
  then show ?thesis using inv run by (simp add: close_bank_def)
next
  case (Some b)
  obtain r m where m: "mounted_close P (lo_bank b) = (r, m)" by fastforce
  show ?thesis
  proof (cases "mounted_closed (lo_bank b)")
    case False
    let ?b = "b\<lparr>lo_bank := m, lo_tracked := None\<rparr>"
    have "mounted_closed m" using mounted_close_closes [OF m False] by simp
    then have "tracked_right ?b" by (rule closed_right) simp_all
    moreover have "p' = (case lo_tracked b of None \<Rightarrow> put_bank n (Some ?b) p | Some k \<Rightarrow> release_open_bank k (put_bank n (Some ?b) p))"
      using run Some m False by (simp add: close_bank_def release_tracked_path_def bank_at_put Let_def)
    ultimately show ?thesis by (intro untracked [OF inv Some]) simp_all
  qed (use inv run Some in \<open>simp add: close_bank_def\<close>)
qed

lemma drop_inv:
  assumes inv: "process_inv files held p"
  shows "process_inv files held (drop_bank n p)"
proof (cases "bank_at n p")
  case None
  then show ?thesis using inv by (simp add: drop_bank_def release_tracked_path_def put_nothing)
next
  case (Some b)
  then have "drop_bank n p = (case lo_tracked b of None \<Rightarrow> put_bank n None p | Some k \<Rightarrow> release_open_bank k (put_bank n None p))"
    by (simp add: drop_bank_def release_tracked_path_def Let_def put_release split: option.split)
  then show ?thesis by (intro untracked [OF inv Some]) simp_all
qed

context file_system
begin

lemma moved_files:
  assumes "process_inv files held p" "tracked p \<subseteq> held x" "tracked p \<subseteq> files x"
  shows "process_inv files held (p\<lparr>pr_files := x\<rparr>)"
  using assms by (simp add: process_inv_def)

lemma added_inv:
  assumes inv: "process_inv files held p" and b: "tracked_right \<lparr>lo_bank = b, lo_tracked = k\<rparr>"
    and k: "\<And>j. k = Some j \<Longrightarrow> j \<notin> tracked p \<and> j \<in> held (pr_files p) \<and> j \<in> files (pr_files p)"
    and p': "p' = (case k of None \<Rightarrow> p | Some j \<Rightarrow> register_open_bank j p)" "add_bank b k p' = (n, q)"
  shows "process_inv files held q"
proof -
  note add = bank_at_added [OF p'(2)]
  have p'_at: "bank_at m p' = bank_at m p" for m using p'(1) by (simp split: option.split)
  have at: "bank_at m q = (if m = n then Some \<lparr>lo_bank = b, lo_tracked = k\<rparr> else bank_at m p)" for m using add p'_at by simp
  have none: "tracked_key n p = None" using add p'_at by (simp add: tracked_key_def)
  have keys: "tracked_key m q = (if m = n then k else tracked_key m p)" for m by (simp add: tracked_key_def at)
  have "tracked q = tracked p \<union> {j. k = Some j}" using none by (auto simp: tracked_def keys) (metis option.distinct(1))
  moreover have "pr_open_banks q = pr_open_banks p \<union> {j. k = Some j}" "pr_files q = pr_files p"
    using add p'(1) by (auto simp: register_open_bank_def split: option.splits)
  ultimately show ?thesis using inv k b by (auto simp: process_inv_def at keys tracked_def)
qed

lemma open_inv:
  fixes p p' :: "('x, 'd, 'q, 'v) process"
  assumes inv: "process_inv files held p" and run: "open_bank P c p = (r, p')"
  shows "process_inv files held p'"
proof (cases "cf_location c")
  case Loc_Memory
  show ?thesis
  proof (cases "assembled (memory_env P) memory_new (chosen_chain P c) (chosen_coherence c) :: (memory_backend, 'q, 'v) bank result")
    case (Inr b)
    have "tracked_right \<lparr>lo_bank = On_Memory b, lo_tracked = None\<rparr>" by (simp add: tracked_right_def)
    then show ?thesis using run Loc_Memory Inr
      by (intro added_inv [OF inv, of "On_Memory b" None p "length (pr_banks p)"]) (simp_all add: open_bank_def add_bank_def Let_def)
  qed (use inv run Loc_Memory in \<open>simp add: open_bank_def Let_def\<close>)
next
  case (Loc_Path path)
  obtain created x where made: "pl_create P path (pr_files p) = (created, x)" by fastforce
  have kept: "held (pr_files p) \<subseteq> held x" "files (pr_files p) \<subseteq> files x"
    using create_spec create_fails made by (cases created; fastforce)+
  then have inv': "process_inv files held (p\<lparr>pr_files := x\<rparr>)"
    using inv by (intro moved_files) (auto simp: process_inv_def)
  let ?r = "rbind (redb_open (pl_redb P) created path) (\<lambda>b. assembled (redb_env P) b (chosen_chain P c) (chosen_coherence c))
      :: ('d redb_backend, 'q, 'v) bank result"
  show ?thesis
  proof (cases ?r)
    case (Inl e)
    then show ?thesis using inv' run Loc_Path made by (simp add: open_bank_def open_file_def Let_def)
  next
    case (Inr b)
    then obtain db where "created = Inr db" by (cases created) (auto simp: redb_open_def told_def)
    then obtain k where k: "pl_canonicalize P path x = Some k" "k \<notin> held (pr_files p)" "k \<in> held x" "k \<in> files x"
      using create_spec made by blast
    then have new: "k \<notin> tracked p" using inv by (auto simp: process_inv_def)
    have "\<not> bn_closed b" using Inr by (auto simp: assembled_def bank_new_def rbind_def split: sum.splits prod.splits)
    then have right: "tracked_right \<lparr>lo_bank = On_Redb b, lo_tracked = Some k\<rparr>" by (simp add: tracked_right_def)
    let ?p = "register_open_bank k (p\<lparr>pr_files := x\<rparr>)"
    have "p' = snd (add_bank (On_Redb b) (Some k) ?p)"
      using run Loc_Path made Inr k(1) by (simp add: open_bank_def open_file_def Let_def bank_key_def add_bank_def)
    then show ?thesis using new k by (intro added_inv [OF inv' right, of ?p "length (pr_banks ?p)"]) (simp_all add: add_bank_def)
  qed
qed (use inv run in \<open>simp add: open_bank_def Let_def\<close>)

lemma delete_inv:
  assumes inv: "process_inv files held p" and run: "delete_bank P c p = (r, p')"
  shows "process_inv files held p'"
proof (cases "cf_location c")
  case (Loc_Path path)
  obtain q x where gone: "pl_remove_file P path (pr_files p) = (q, x)" by fastforce
  show ?thesis
  proof (cases "bank_is_open (bank_key P path (pr_files p)) p")
    case False
    then have out: "bank_key P path (pr_files p) \<notin> tracked p" using inv by (simp add: bank_is_open_def process_inv_def)
    have "tracked p \<subseteq> held x" "tracked p \<subseteq> files x"
      using inv out remove_spec remove_fails gone
      by (cases q; fastforce simp: process_inv_def bank_key_def)+
    then have "process_inv files held (p\<lparr>pr_files := x\<rparr>)" by (rule moved_files [OF inv])
    moreover have "p' = p\<lparr>pr_files := x\<rparr>" using run Loc_Path gone False by (simp add: delete_bank_def)
    ultimately show ?thesis by simp
  qed (use inv run Loc_Path in \<open>simp add: delete_bank_def\<close>)
qed (use inv run in \<open>simp_all add: delete_bank_def\<close>)

lemma use_right: "same_backend (lo_bank b) m \<Longrightarrow> mounted_closed m = mounted_closed (lo_bank b) \<Longrightarrow> tracked_right b \<Longrightarrow> tracked_right (b\<lparr>lo_bank := m\<rparr>)"
  by (cases "lo_bank b"; cases m) (simp_all add: tracked_right_def)

lemma step_inv: "process_step P files held p p' \<Longrightarrow> process_inv files held p \<Longrightarrow> process_inv files held p'"
proof (induction rule: process_step.induct)
  case (Use_Bank n p b m)
  then have "tracked_right b" by (simp add: process_inv_def)
  with Use_Bank show ?case by (intro put_same [OF Use_Bank(4,1)] use_right) simp_all
qed (auto intro: open_inv close_inv drop_inv delete_inv moved_files)

lemma run_inv: "process_run P files held p \<Longrightarrow> process_inv files held p"
proof (induction rule: process_run.induct)
  case (Run_Start x)
  then show ?case by (simp add: process_inv_def tracked_def tracked_key_def bank_at_def)
qed (rule step_inv)

end

section \<open>A platform in memory\<close>

text \<open>
  Files and symbolic links by name, with the names of the files that are held. A link is to a file; creating a
  database at a name that is not there makes the file.
\<close>

record plain_files =
  pf_entries :: "(string \<times> string option) list"
  pf_held :: "string set"

definition resolve :: "string \<Rightarrow> plain_files \<Rightarrow> string option" where
  "resolve path x =
     (case map_of (pf_entries x) path of
        Some None \<Rightarrow> Some path
      | Some (Some to) \<Rightarrow> if map_of (pf_entries x) to = Some None then Some to else None
      | None \<Rightarrow> None)"

definition plain_create :: "string \<Rightarrow> (plain_files, string, plain_db) act" where
  "plain_create path x =
     (let x' = (if map_of (pf_entries x) path = None then x\<lparr>pf_entries := (path, None) # pf_entries x\<rparr> else x) in
      case resolve path x' of
        None \<Rightarrow> (Inl ''No such file or directory'', x)
      | Some k \<Rightarrow> if k \<in> pf_held x' then (Inl ''Database already open. Cannot acquire lock.'', x)
                  else (Inr [], x'\<lparr>pf_held := insert k (pf_held x')\<rparr>))"

definition plain_remove :: "string \<Rightarrow> (plain_files, io_error, unit) act" where
  "plain_remove path x =
     (if map_of (pf_entries x) path = None then (Inl (Io_Not_Found ''No such file or directory''), x)
      else (Inr (), x\<lparr>pf_entries := filter (\<lambda>e. fst e \<noteq> path) (pf_entries x)\<rparr>))"

definition plain_platform :: "(plain_files, plain_db, plain_db, tree, plain_db, unit) platform" where
  "plain_platform =
     \<lparr>pl_create = plain_create, pl_canonicalize = resolve, pl_absolute = Some, pl_remove_file = plain_remove, pl_windows = False,
      pl_redb = plain_redb, pl_file_len = (\<lambda>_. None), pl_compress = (\<lambda>bs. bs), pl_decompress = Inr, pl_hash = (\<lambda>_. 0),
      pl_try_send = (\<lambda>ev q. (Send_Full, q)), pl_vec_u8 = \<lparr>sd_to_vec = Inr, sd_from_bytes = Inr, sd_type_name = ''Vec<u8>''\<rparr>\<rparr>"

definition plain_names :: "plain_files \<Rightarrow> string set" where
  "plain_names x = {k. map_of (pf_entries x) k = Some None}"

lemma map_of_without: "map_of (filter (\<lambda>e. fst e \<noteq> n) x) m = (if m = n then None else map_of x m)"
  by (induction x) auto

interpretation plain_host: file_system plain_platform plain_names pf_held
proof unfold_locales
  fix path x db x' assume "pl_create plain_platform path x = (Inr db, x')"
  then show "\<exists>k. pl_canonicalize plain_platform path x' = Some k \<and> k \<notin> pf_held x \<and> pf_held x' = insert k (pf_held x)
      \<and> insert k (plain_names x) \<subseteq> plain_names x'"
    by (auto simp: plain_platform_def plain_create_def Let_def resolve_def plain_names_def split: option.splits if_splits)
next
  fix path x e x' assume "pl_create plain_platform path x = (Inl e, x')"
  then show "pf_held x \<subseteq> pf_held x' \<and> plain_names x \<subseteq> plain_names x'"
    by (auto simp: plain_platform_def plain_create_def Let_def split: option.splits if_splits)
next
  fix path x u x' assume "pl_remove_file plain_platform path x = (Inr u, x')"
  then show "pf_held x \<subseteq> pf_held x' \<and> (\<forall>k\<in>plain_names x. pl_canonicalize plain_platform path x \<noteq> Some k \<longrightarrow> k \<in> plain_names x')"
    by (auto simp: plain_platform_def plain_remove_def resolve_def plain_names_def map_of_without split: if_splits)
next
  fix path x f x' assume "pl_remove_file plain_platform path x = (Inl f, x')"
  then show "pf_held x \<subseteq> pf_held x' \<and> plain_names x \<subseteq> plain_names x'"
    by (auto simp: plain_platform_def plain_remove_def split: if_splits)
qed

section \<open>Refusals\<close>

lemma still_open_texts [simp]:
  "still_open_error path = still_open_error path' \<longleftrightarrow> path = path'"
  "wasm_only_error \<noteq> still_open_error path" "held_elsewhere_error path' \<noteq> still_open_error path" "Backend e \<noteq> still_open_error path"
  by (simp_all add: still_open_error_def wasm_only_error_def held_elsewhere_error_def)

lemma delete_refused:
  "fst (delete_bank P c p) = Inl (still_open_error path)
    \<longleftrightarrow> cf_location c = Loc_Path path \<and> bank_is_open (bank_key P path (pr_files p)) p"
proof (cases "cf_location c")
  case (Loc_Path q)
  obtain r x where gone: "pl_remove_file P q (pr_files p) = (r, x)" by fastforce
  have "fst (delete_bank P c p) \<noteq> Inl (still_open_error path)" if "\<not> bank_is_open (bank_key P q (pr_files p)) p"
  proof (cases r)
    case (Inl e)
    with that Loc_Path gone show ?thesis by (cases e) (simp_all add: delete_bank_def)
  next
    case (Inr u)
    with that Loc_Path gone show ?thesis by (simp add: delete_bank_def)
  qed
  moreover have "fst (delete_bank P c p) = Inl (still_open_error q)" if "bank_is_open (bank_key P q (pr_files p)) p"
    using that Loc_Path by (simp add: delete_bank_def)
  ultimately show ?thesis using Loc_Path by (cases "bank_is_open (bank_key P q (pr_files p)) p") auto
qed (simp_all add: delete_bank_def)

section \<open>Properties\<close>

text \<open>
  C8: However a process opens, uses, closes, drops and deletes banks, one call after another, the file of a bank at
  a path that is neither closed nor dropped is there; \<open>delete_bank\<close> answers that the bank is still open, and
  changes nothing then, on exactly the paths that resolve to the file of some bank at a path that is neither closed
  nor dropped: closing or dropping it makes its file one that can be deleted. (Calls run to their end one at a time
  here; that \<open>delete_bank\<close> on another thread between the opening of a file and its entry in \<open>OPEN_BANKS\<close> is not refused is
  among the findings.)
\<close>

theorem open_bank_files_safe:
  assumes "file_system P files held" "process_run P files held p"
  shows "(\<forall>n b s. bank_at n p = Some b \<longrightarrow> lo_bank b = On_Redb s \<longrightarrow> \<not> bn_closed s \<longrightarrow>
        (\<exists>k. tracked_key n p = Some k \<and> k \<in> files (pr_files p)))
    \<and> (\<forall>path. fst (delete_bank P (config_at path) p) = Inl (still_open_error path)
        \<longleftrightarrow> (\<exists>n b s. bank_at n p = Some b \<and> lo_bank b = On_Redb s \<and> \<not> bn_closed s
              \<and> tracked_key n p = Some (bank_key P path (pr_files p))))
    \<and> (\<forall>c path. fst (delete_bank P c p) = Inl (still_open_error path) \<longrightarrow> snd (delete_bank P c p) = p)"
proof -
  have inv: "process_inv files held p" by (rule file_system.run_inv [OF assms])
  have "\<exists>k. tracked_key n p = Some k \<and> k \<in> files (pr_files p)"
    if b: "bank_at n p = Some b" "lo_bank b = On_Redb s" "\<not> bn_closed s" for n b s
  proof -
    have "tracked_right b" using inv b(1) by (simp add: process_inv_def)
    then obtain k where "lo_tracked b = Some k" using b by (auto simp: tracked_right_def)
    then have key: "tracked_key n p = Some k" using b(1) by (simp add: tracked_key_def)
    then have "k \<in> tracked p" by (auto simp: tracked_def)
    then have "k \<in> files (pr_files p)" using inv by (auto simp: process_inv_def)
    with key show ?thesis by blast
  qed
  moreover have "k \<in> tracked p \<longleftrightarrow> (\<exists>n b s. bank_at n p = Some b \<and> lo_bank b = On_Redb s \<and> \<not> bn_closed s \<and> tracked_key n p = Some k)" for k
  proof
    assume "k \<in> tracked p"
    then obtain n b where b: "tracked_key n p = Some k" "bank_at n p = Some b" "lo_tracked b = Some k"
      by (auto simp: tracked_def tracked_key_def bind_eq_Some_conv)
    then have "tracked_right b" using inv by (simp add: process_inv_def)
    then obtain s where "lo_bank b = On_Redb s" "\<not> bn_closed s" using b(3) by (auto simp: tracked_right_def split: mounted.splits)
    with b show "\<exists>n b s. bank_at n p = Some b \<and> lo_bank b = On_Redb s \<and> \<not> bn_closed s \<and> tracked_key n p = Some k" by blast
  qed (auto simp: tracked_def)
  then have "fst (delete_bank P (config_at path) p) = Inl (still_open_error path)
      \<longleftrightarrow> (\<exists>n b s. bank_at n p = Some b \<and> lo_bank b = On_Redb s \<and> \<not> bn_closed s
            \<and> tracked_key n p = Some (bank_key P path (pr_files p)))" for path
    using inv by (simp add: delete_refused config_at_def bank_is_open_def process_inv_def)
  moreover have "snd (delete_bank P c p) = p" if "fst (delete_bank P c p) = Inl (still_open_error path)" for c path
    using that unfolding delete_refused by (simp add: delete_bank_def)
  ultimately show ?thesis by (intro conjI allI impI)
qed

text \<open>A process that has opened a bank at a path.\<close>

definition plain_start :: "(plain_files, plain_db, unit, bytes) process" where
  "plain_start = \<lparr>pr_files = \<lparr>pf_entries = [(''link'', Some ''bank''), (''bank'', None)], pf_held = {}\<rparr>, pr_open_banks = {}, pr_banks = []\<rparr>"

definition plain_opened :: "(plain_files, plain_db, unit, bytes) process" where
  "plain_opened = snd (open_bank plain_platform (config_at ''bank'') plain_start)"

definition plain_closed :: "(plain_files, plain_db, unit, bytes) process" where
  "plain_closed = snd (close_bank plain_platform 0 plain_opened)"

lemma plain_opened_keys:
  "bank_key plain_platform ''link'' (pr_files plain_opened) = ''bank''" "tracked_key 0 plain_opened = Some ''bank''"
  "(case map_option lo_bank (bank_at 0 plain_opened) of Some (On_Redb s) \<Rightarrow> \<not> bn_closed s | _ \<Rightarrow> False)"
  "tracked_key 0 plain_closed = None" "length (pr_banks plain_closed) = 1"
  by code_simp+

theorem open_bank_files_safe_witness:
  "delete_bank plain_platform (config_at ''link'') plain_opened = (Inl (still_open_error ''link''), plain_opened)
   \<and> fst (delete_bank plain_platform (config_at ''link'') plain_closed) \<noteq> Inl (still_open_error ''link'')"
proof
  have opened: "process_run plain_platform plain_names pf_held plain_opened"
  proof (rule Run_Step [OF _ Open_Bank])
    show "process_run plain_platform plain_names pf_held plain_start" unfolding plain_start_def by (rule Run_Start)
    show "open_bank plain_platform (config_at ''bank'') plain_start = (fst (open_bank plain_platform (config_at ''bank'') plain_start), plain_opened)"
      by (simp add: plain_opened_def)
  qed
  have closed: "process_run plain_platform plain_names pf_held plain_closed"
    unfolding plain_closed_def by (rule Run_Step [OF opened Close_Bank], rule prod.collapse [symmetric])
  note safe = open_bank_files_safe [OF plain_host.file_system_axioms]
  obtain b s where "bank_at 0 plain_opened = Some b" "lo_bank b = On_Redb s" "\<not> bn_closed s"
    using plain_opened_keys(3) by (auto split: option.splits mounted.splits)
  with safe [OF opened] plain_opened_keys(1,2)
  show "delete_bank plain_platform (config_at ''link'') plain_opened = (Inl (still_open_error ''link''), plain_opened)"
    by (metis prod.collapse)
  have "tracked_key n plain_closed = None" for n
    using plain_opened_keys(4,5) by (cases n) (simp_all add: tracked_key_def bank_at_def)
  with safe [OF closed] show "fst (delete_bank plain_platform (config_at ''link'') plain_closed) \<noteq> Inl (still_open_error ''link'')"
    by simp
qed

text \<open>Once the bank is closed, deleting it by a link removes the link and answers success; the bank is still there.\<close>

theorem deleting_a_link_keeps_the_bank:
  "case delete_bank plain_platform (config_at ''link'') plain_start of (r, p) \<Rightarrow>
     r = Inr () \<and> resolve ''link'' (pr_files p) = None \<and> resolve ''bank'' (pr_files p) = Some ''bank''"
  by code_simp

end
