(* ===== verification/Spec2Isabelle.thy ===== *)
theory Spec2Isabelle
  imports Alloc_Interleaving Id_Interleaving Held_Commits Lazy_Runs Eager_Properties Stream_Properties Bank_Properties Redb_Backend Redb_Sessions Indexed_Db Web_Coherence Locations
begin

text \<open>
  crossbank is a key-value store for applications: a bank over a pluggable backend (memory, redb,
  IndexedDB) holds named lockers, a locker maps byte keys to values of one type, and every value passes a
  filter chain before it is stored. This development models the Rust crate under \<open>src/src\<close> and
  proves what it promises. Theories build on each other in the order below.

  \<^bold>\<open>Shared.\<close> \<open>Prelude\<close> has results (\<open>error + 'a\<close>), actions (a state passed on together with a result), big-endian
  words and saturating arithmetic; \<open>Frames\<close> says when an action leaves a part of the state alone; \<open>Errors\<close> is \<open>error.rs\<close>; \<open>Btree\<close> models \<open>BTreeMap\<close> and
  \<open>BTreeSet\<close> as sorted association lists.

  \<^bold>\<open>Backends.\<close> \<open>Backend_Api\<close> (\<open>backend/api.rs\<close>) has tables, ranges, operations and the \<open>Backend\<close> trait as a
  record of methods. Its contract is the locale \<open>backend_contract\<close> (\<open>Paging\<close>): what is
  read is what is stored, a scan answers a page of its range in order, a commit applies all its operations or
  none. \<open>live_backend\<close> adds that calls on a ready backend return. Both are interpreted on the memory backend (\<open>Memory_Backend\<close>, \<open>backend/memory.rs\<close>).
  \<open>Redb_Backend\<close> (\<open>backend/redb.rs\<close>) is a backend over a record of the engine's calls, with the locale
  \<open>redb_contract\<close> for what redb documents; \<open>Indexed_Db\<close> (\<open>backend/indexeddb.rs\<close>) is one over the calls of
  \<open>indexed_db\<close> and \<open>js_sys\<close>, with \<open>idb_contract\<close> for transactions, cursors and ranges and \<open>idb_browser\<close> for opening
  and deleting databases. Both contracts are sublocales of \<open>backend_contract\<close>; \<open>Named_Tables\<close> has what the two
  share. Of the browser only \<open>backend_contract\<close> is shown, because IndexedDB refuses some ranges the crate asks for
  (\<open>empty_end_fails_on_web\<close>), so not every call returns. \<open>Fault\<close> and \<open>Held_Commits\<close>
  are the decorators of \<open>crossbank-conformance/src/fault.rs\<close>, which damage a commit or make it land late.

  \<^bold>\<open>Formats.\<close> \<open>Keys\<close> (\<open>key.rs\<close>), \<open>Codec\<close> (\<open>codec/*.rs\<close>: envelope, filters, chains), \<open>Chunk\<close>
  (\<open>locker/chunk.rs\<close>: pointers, chunk keys, value ids), \<open>Policy\<close> (\<open>locker/policy.rs\<close>), \<open>Lru\<close> and
  \<open>Lru_Facts\<close> (\<open>locker/lru.rs\<close>: the byte budget), \<open>Watch\<close> (\<open>watch.rs\<close>), \<open>Coherence\<close>
  (\<open>coherence/api.rs\<close>, \<open>native.rs\<close>), \<open>Paging\<close> (the loop of every scan). \<open>Js_Values\<close> has JavaScript values and numbers,
  \<open>Web_Coherence\<close> (\<open>coherence/web.rs\<close>) the news that the tabs of a browser post each other, up to the index another
  tab keeps of a lazy locker (\<open>web_tabs_agree\<close>). \<open>Alloc_Interleaving\<close> runs any number of
  allocators of value ids against each other, step by step.

  \<^bold>\<open>Lockers.\<close> \<open>Inner\<close>, \<open>Transaction\<close>, \<open>Resident\<close>, \<open>Lazy_Locker\<close>, \<open>Eager_Locker\<close> and \<open>Streaming_Io\<close> follow
  \<open>locker/inner.rs\<close>, \<open>transaction.rs\<close>, \<open>resident.rs\<close>, \<open>lazy.rs\<close>, \<open>eager.rs\<close> and \<open>io.rs\<close>.
  The state of a locker is a record that extends the shared state of its bank; a Rust method is an action
  with the name of the method. The proofs go up in layers. \<open>Storage\<close> says what is stored under a key (an
  envelope, or a pointer and the chunks it owns) and the invariants of value ids; \<open>Stored_Records\<close>,
  \<open>Writes\<close> and \<open>Batches\<close> say what lists of operations do to that; \<open>Budgets\<close> what evictions add.
  \<open>Commits\<close> states the specification of a locker, a map from keys to payloads, with its invariant
  (\<open>lazy_ok\<close>) and the meaning of an operation (\<open>effect\<close>). \<open>Lazy_Refinement\<close>, \<open>Lazy_Transactions\<close>,
  \<open>Lazy_Reads\<close> and \<open>Lazy_Progress\<close> prove each call against it, \<open>Lazy_Properties\<close> and
  \<open>Lazy_Runs\<close> state the properties. \<open>Closed_Flag\<close> shows that only a close closes a locker. The runs start at the opening of a
  locker and go through puts, deletes, clears, transactions, gets, flushes and closes that return; a lazy run also has
  sweeps with nothing staged, and its values encode to at most 256 MiB; streams and the news of other tabs have properties of their own. \<open>Eager_Commits\<close>, \<open>Eager_Refinement\<close>, \<open>Eager_Properties\<close> do the same
  for eager lockers, \<open>Streams\<close>, \<open>Stream_Runs\<close>, \<open>Stream_Properties\<close> for writers and readers.

  \<^bold>\<open>The bank.\<close> \<open>Bank\<close> (\<open>bank.rs\<close>) has names, ids, schemas, chains, the registry of open lockers and
  maintenance; open lockers are cells of a heap addressed by number, because handles on one name share
  one locker. \<open>Handle\<close> and \<open>Remote\<close> (\<open>handle.rs\<close>) are the jobs, the handles and the service, over a job
  queue that is a parameter (locale \<open>queue_channel\<close>): handles are made and dropped, calls made, services started, polled and
  dropped as events in any order. \<open>Registry\<close> has the
  invariant of the stored registry and a rule calculus (\<open>orderly\<close>) for calls that keep it,
  \<open>Locker_Footprint\<close> what the calls on a locker can write, \<open>Bank_Runs\<close> the step relation of a bank
  in use with its invariant, \<open>Bank_Residents\<close> flushing all lockers and opening a name twice, \<open>Bank_Properties\<close> deleting a locker. \<open>Locations\<close> has the
  configuration of a bank, opening and deleting banks by location, and \<open>OPEN_BANKS\<close>, as steps of a process on a file
  system (locale \<open>file_system\<close>).

  \<^bold>\<open>Sessions.\<close> What all this amounts to for a client. \<open>Sessions\<close> has the requests of a client, what they do on the
  model of the bank (\<open>perform\<close>) and on shelves, a map from names to maps from keys to values (\<open>expected\<close>).
  \<open>Lazy_Total\<close> shows that every call on a lazy locker that commits at once returns over a live backend, and
  with what; \<open>Session_State\<close> relates a bank with its handles to shelves, and \<open>Session_Calls\<close>, \<open>Session_Opens\<close>,
  \<open>Session_Opening\<close>, \<open>Session_Deletes\<close> and \<open>Session_Runs\<close> carry the relation through every request, up to the
  theorem that every list of requests is answered on the bank as on shelves (\<open>sessions_answer_as_shelves\<close>).
  The locale \<open>live_bank\<close> adds to \<open>live_backend\<close> what opening the bank again keeps. The requests are those on
  lazy lockers without byte budget, under the chain of the bank, with values their serialiser gives back; a
  request that allocates costs one of the \<open>2 ^ 32\<close> ids a fresh bank has. \<open>Conformance\<close> has the harnesses and the
  cases of \<open>crossbank-conformance\<close> that are such requests, as scripts, and shows that they pass on every
  backend with the contract; \<open>Redb_Sessions\<close> that they pass on the native backend, for a database whose calls succeed
  (\<open>live_redb\<close>).

  \<^bold>\<open>Reading the model.\<close> An asynchronous method is atomic, as the write lock and the single-threaded
  executor make it for one locker; where the code has no lock between two awaits and it matters,
  \<open>Alloc_Interleaving\<close> and \<open>Id_Interleaving\<close> have the interleavings (of the allocators of value ids, where nothing goes
  wrong, and of two first uses of different names, which collide), \<open>Remote\<close> those of handles and services. The runs of
  \<open>Bank_Runs\<close> and of \<open>Locations\<close> have each call run to its end before the next. Machine integers are words of their width. A panic is the
  error \<open>Panicked\<close>, a loop that does not end is \<open>Diverged\<close>. Loops with fuel: a scan gets \<open>bk_fuel\<close>, which
  the contract makes larger than the number of records, so \<open>walk_live\<close> and its like show it never runs out;
  the loop of \<open>write_chunk\<close> gets the length of its buffer plus one, enough for any chunk size but 0
  (\<open>write_loop_ends\<close>), and with 0 no fuel is enough (\<open>empty_chunks_never_return\<close>).

  \<^bold>\<open>Parameters.\<close> postcard (a record of two functions per type), LZ4 (lz4_flex) and CRC32 (crc32fast), the channels of a watcher and
  of the job queue (futures; locales \<open>mpsc_channel\<close> and \<open>queue_channel\<close>), the engine of redb, the file system, the database of the browser, file length and storage estimate for \<open>usage\<close>, \<open>Math.random\<close>.

  \<^bold>\<open>Not modelled.\<close> Poisoned locks; the executor and the glue of the bank under \<open>cfg(target_arch = "wasm32")\<close>, which drive the
  browser half; the delivery of posted messages, which is the browser's; the text of \<open>Debug\<close> output inside
  messages, where an em dash is written \<open>--\<close>; the conformance cases on eager lockers, watchers, streams, budgets, deferred commits, faults or
  rows counted past the locker API.
\<close>

end
